(* ===== verification/Prelude.thy ===== *)
theory Prelude
  imports Main "HOL-Library.Word" "HOL-Library.Monad_Syntax"
begin

unbundle bit_operations_syntax

text \<open>
  Shared vocabulary of the development: the block type of the bitmaps, the sentinel position
  \<open>npos\<close>, assertions as a partial result, and the reading of a block as a list of bits together
  with the rewrite rules that carry the proofs of every component.

  A value of type \<open>'a option\<close> that stands for the result of an operation is \<open>None\<close> exactly
  when the source stops: a \<open>TENZIR_ASSERT\<close> that fails, a \<open>TENZIR_UNREACHABLE\<close> that is reached, or
  an access the C++ standard leaves undefined (\<open>back()\<close> of an empty vector).
\<close>

named_theorems bits_of_simps \<open>rules that read a block as a list of bits\<close>

section \<open>Types and sentinels\<close>

text \<open>\<open>bitmap_base::block_type\<close> is \<open>uint64_t\<close>; sizes and positions are \<open>uint64_t\<close> too, read as
  naturals below \<open>2 ^ 64\<close>.\<close>

type_synonym u64 = "64 word"

abbreviation width :: nat where "width \<equiv> 64"

definition npos :: nat where "npos = 2 ^ 64 - 1"

text \<open>Subtraction of two 64-bit sizes, which wraps around below zero.\<close>

definition sub64 :: "nat \<Rightarrow> nat \<Rightarrow> nat" where
  "sub64 a b = (if b \<le> a then a - b else 2 ^ 64 + a - b)"

lemma sub64_le [simp]: "b \<le> a \<Longrightarrow> sub64 a b = a - b"
  by (simp add: sub64_def)

lemma sub64_Suc [simp]: "sub64 (Suc n) 1 = n" "sub64 (Suc n) (Suc 0) = n"
  by (simp_all add: sub64_def)

lemma less_npos_iff: "n < npos \<longleftrightarrow> Suc n < 2 ^ 64"
  by (auto simp: npos_def)

section \<open>Assertions\<close>

definition require :: "bool \<Rightarrow> unit option" where
  "require b = (if b then Some () else None)"

lemma require_simps [simp]:
  "require True = Some ()"
  "require False = None"
  by (simp_all add: require_def)

lemma require_bind [simp]: "b \<Longrightarrow> require b \<bind> f = f ()"
  by simp

lemma require_bind_Some: "require b \<bind> f = Some y \<longleftrightarrow> b \<and> f () = Some y"
  by (cases b) simp_all

section \<open>Blocks as lists of bits, least significant bit first\<close>

definition bits_of :: "nat \<Rightarrow> u64 \<Rightarrow> bool list" where
  "bits_of n x = map (bit x) [0..<n]"

lemma length_bits_of [simp]: "length (bits_of n x) = n"
  by (simp add: bits_of_def)

lemma nth_bits_of [simp]: "i < n \<Longrightarrow> bits_of n x ! i = bit x i"
  by (simp add: bits_of_def)

lemma bits_of_0 [simp]: "bits_of 0 x = []"
  by (simp add: bits_of_def)

lemma bits_of_eq_Nil [simp]: "bits_of n x = [] \<longleftrightarrow> n = 0"
  by (simp add: bits_of_def)

lemma bits_of_eqI: "(\<And>i. i < n \<Longrightarrow> bit x i = bit y i) \<Longrightarrow> bits_of n x = bits_of n y"
  by (simp add: bits_of_def)

lemma bits_of_eq_iff: "bits_of n x = bits_of n y \<longleftrightarrow> (\<forall>i < n. bit x i = bit y i)"
  by (auto simp: list_eq_iff_nth_eq)

lemma bits_of_zero [bits_of_simps]: "bits_of n 0 = replicate n False"
  by (rule nth_equalityI) simp_all

lemma bits_of_ones [bits_of_simps]: "n \<le> width \<Longrightarrow> bits_of n (- 1) = replicate n True"
  by (rule nth_equalityI) (simp_all add: bit_simps)

lemma bits_of_mask [bits_of_simps]: "n \<le> m \<Longrightarrow> bits_of n (x AND mask m) = bits_of n x"
  by (rule bits_of_eqI) (auto simp: bit_simps dest: bit_imp_le_length)

lemma bits_of_NOT [bits_of_simps]: "n \<le> width \<Longrightarrow> bits_of n (NOT x) = map Not (bits_of n x)"
  by (rule nth_equalityI) (simp_all add: bit_simps)

lemma bits_of_split: "bits_of (m + n) x = bits_of m x @ bits_of n (drop_bit m x)"
  by (rule nth_equalityI) (auto simp: nth_append bit_simps)

lemma bits_of_append:
  "p + n \<le> width \<Longrightarrow> bits_of (p + n) ((x AND mask p) OR push_bit p y) = bits_of p x @ bits_of n y"
  by (rule nth_equalityI) (auto simp: nth_append bit_simps)

lemma bits_of_append_clear:
  assumes "p + n \<le> width" and "x AND mask p = x"
  shows "bits_of (p + n) (x OR push_bit p y) = bits_of p x @ bits_of n y"
  using bits_of_append [OF assms(1), of x y] assms(2) by simp

lemma take_bits_of: "m \<le> n \<Longrightarrow> take m (bits_of n x) = bits_of m x"
  by (rule nth_equalityI) simp_all

lemma drop_bits_of: "drop m (bits_of n x) = bits_of (n - m) (drop_bit m x)"
  by (rule nth_equalityI) (auto simp: bit_simps)

lemma set_bits_of: "b \<in> set (bits_of n x) \<longleftrightarrow> (\<exists>i < n. bit x i = b)"
  by (auto simp: bits_of_def)

lemma bits_of_map2_AND:
  "bits_of n (x AND y) = map2 (\<and>) (bits_of n x) (bits_of n y)"
  by (rule nth_equalityI) (simp_all add: bit_simps)

lemma bits_of_map2_OR:
  "bits_of n (x OR y) = map2 (\<or>) (bits_of n x) (bits_of n y)"
  by (rule nth_equalityI) (simp_all add: bit_simps)

lemma bits_of_map2_XOR:
  "bits_of n (x XOR y) = map2 (\<noteq>) (bits_of n x) (bits_of n y)"
  by (rule nth_equalityI) (auto simp: bit_simps)

lemma mask_clear_bit: "x AND mask p = x \<Longrightarrow> p \<le> i \<Longrightarrow> \<not> bit (x :: u64) i"
  by (metis bit_and_iff bit_mask_iff linorder_not_less min.strict_boundedE)

lemma mask_clearI: "(\<And>i. p \<le> i \<Longrightarrow> i < width \<Longrightarrow> \<not> bit (x :: u64) i) \<Longrightarrow> x AND mask p = x"
  by (rule bit_word_eqI) (auto simp: bit_simps, meson not_le)

lemma mask_width [simp]: "(mask width :: u64) = - 1"
  by (rule bit_word_eqI) (simp add: bit_simps)

lemma unat_mask: "k \<le> width \<Longrightarrow> unat (mask k :: u64) = 2 ^ k - 1"
proof -
  assume "k \<le> width"
  then have "unat (mask k :: u64) = mask k"
    by (intro bit_eqI) (auto simp: bit_simps)
  then show ?thesis by (simp add: mask_eq_exp_minus_1)
qed

lemma le_mask_iff:
  assumes "k \<le> width"
  shows "(n :: u64) \<le> mask k \<longleftrightarrow> n AND mask k = n"
proof -
  have "n AND mask k = n \<longleftrightarrow> take_bit k (unat n) = unat n"
    by (metis take_bit_eq_mask unsigned_take_bit_eq word_unat_eq_iff)
  also have "\<dots> \<longleftrightarrow> unat n < 2 ^ k" by (rule take_bit_nat_eq_self_iff)
  also have "\<dots> \<longleftrightarrow> unat n \<le> 2 ^ k - 1"
    using less_eq_Suc_le [of "unat n" "2 ^ k"] by (cases "(2 :: nat) ^ k") auto
  finally show ?thesis using assms by (simp add: word_le_nat_alt unat_mask)
qed

lemma le_mask_bit: "k \<le> width \<Longrightarrow> n \<le> mask k \<Longrightarrow> bit (n :: u64) i \<Longrightarrow> i < k"
  using mask_clear_bit not_le by (metis le_mask_iff)

lemma u64_bit_less: "bit (x :: u64) i \<Longrightarrow> i < width"
  using bit_imp_le_length [of x i] by simp

lemma u64_eq_iff_bits: "(x :: u64) = y \<longleftrightarrow> bits_of width x = bits_of width y"
  by (auto simp: bits_of_eq_iff intro: bit_word_eqI)

lemma u64_zero_iff_bits: "(x :: u64) = 0 \<longleftrightarrow> (\<forall>i < width. \<not> bit x i)"
  by (auto simp: u64_eq_iff_bits bits_of_eq_iff)

lemma u64_ones_iff_bits: "(x :: u64) = - 1 \<longleftrightarrow> (\<forall>i < width. bit x i)"
  by (auto simp: u64_eq_iff_bits bits_of_eq_iff)

section \<open>Generic list lemmas\<close>

lemma zip_replicate_left: "length xs = n \<Longrightarrow> zip (replicate n b) xs = map (Pair b) xs"
  by (induction xs arbitrary: n) auto

lemma concat_replicate_replicate: "concat (replicate m (replicate n b)) = replicate (m * n) b"
  by (induction m) (simp_all add: replicate_add)

lemma replicate_append_add: "replicate m b @ replicate n b = replicate (m + n) b"
  by (simp add: replicate_add)

lemma count_list_map_Not: "count_list (map Not xs) b = count_list xs (\<not> b)"
  by (induction xs) auto

lemma count_list_replicate: "count_list (replicate n b) a = (if a = b then n else 0)"
  by (induction n) auto

lemma count_list_bool_total: "count_list xs True + count_list xs False = length xs"
  by (induction xs) auto

lemma count_list_conv_filter: "count_list xs b = length (filter (\<lambda>x. x = b) xs)"
  by (induction xs) auto

section \<open>Searching a vector\<close>

text \<open>\<open>std::find_if\<close> splits the vector before the first element that satisfies the predicate.\<close>

definition split_first :: "('a \<Rightarrow> bool) \<Rightarrow> 'a list \<Rightarrow> 'a list \<times> 'a list" where
  "split_first p xs = (takeWhile (\<lambda>x. \<not> p x) xs, dropWhile (\<lambda>x. \<not> p x) xs)"

lemma split_first_cases:
  obtains (none) "split_first p xs = (xs, [])" and "\<forall>x \<in> set xs. \<not> p x"
  | (some) as y bs where "split_first p xs = (as, y # bs)" and "xs = as @ y # bs" and "p y" and "\<forall>x \<in> set as. \<not> p x"
proof (cases "dropWhile (\<lambda>x. \<not> p x) xs")
  case Nil
  then show thesis using none by (auto simp: split_first_def dropWhile_eq_Nil_conv takeWhile_eq_all_conv)
next
  case (Cons y bs)
  let ?as = "takeWhile (\<lambda>x. \<not> p x) xs"
  have "xs = ?as @ y # bs" using takeWhile_dropWhile_id [of "\<lambda>x. \<not> p x" xs] Cons by simp
  moreover have "p y" using hd_dropWhile [of "\<lambda>x. \<not> p x" xs] Cons by auto
  moreover have "\<forall>x \<in> set ?as. \<not> p x" by (auto dest: set_takeWhileD)
  ultimately show thesis using some [of ?as y bs] Cons by (simp add: split_first_def)
qed

section \<open>Errors\<close>

text \<open>The error codes (\<open>ec\<close>) that the modelled operations return in a \<open>caf::error\<close>, with their message.\<close>

datatype caf_error = Logic_error string | Unspecified string | Syntax_error string | Invalid_argument string

end
