(* ===== verification/Bit_Spec.thy ===== *)
theory Bit_Spec
  imports Prelude
begin

text \<open>
  The abstract side of the bitmap refinement: a bitmap is a list of bits, and every query of the
  bitmap code is stated over \<open>positions b xs\<close>, the ascending list of the positions at which
  \<open>xs\<close> holds the bit \<open>b\<close>. Ranks are its length, selection is indexing, the frame is its first
  and last element. Where the code answers \<open>npos\<close>, so do the functions here.
\<close>

definition positions :: "bool \<Rightarrow> bool list \<Rightarrow> nat list" where
  "positions b xs = filter (\<lambda>i. xs ! i = b) [0..<length xs]"

definition head_or_npos :: "nat list \<Rightarrow> nat" where
  "head_or_npos ps = (case ps of [] \<Rightarrow> npos | p # _ \<Rightarrow> p)"

definition last_or_npos :: "nat list \<Rightarrow> nat" where
  "last_or_npos ps = (if ps = [] then npos else last ps)"

definition nth_or_npos :: "nat list \<Rightarrow> nat \<Rightarrow> nat" where
  "nth_or_npos ps k = (if 0 < k \<and> k \<le> length ps then ps ! (k - 1) else npos)"

section \<open>Positions\<close>

lemma positions_Nil [simp]: "positions b [] = []"
  by (simp add: positions_def)

lemma positions_append:
  "positions b (xs @ ys) = positions b xs @ map ((+) (length xs)) (positions b ys)"
proof -
  have "[0..<length (xs @ ys)] = [0..<length xs] @ map ((+) (length xs)) [0..<length ys]"
    by (rule nth_equalityI) (auto simp: nth_append)
  then have "positions b (xs @ ys) = filter (\<lambda>i. (xs @ ys) ! i = b) [0..<length xs]
      @ filter (\<lambda>i. (xs @ ys) ! i = b) (map ((+) (length xs)) [0..<length ys])"
    by (simp add: positions_def)
  also have "filter (\<lambda>i. (xs @ ys) ! i = b) [0..<length xs] = positions b xs"
    by (auto simp: positions_def nth_append intro: filter_cong)
  also have "filter (\<lambda>i. (xs @ ys) ! i = b) (map ((+) (length xs)) [0..<length ys])
      = map ((+) (length xs)) (positions b ys)"
    by (simp add: positions_def filter_map comp_def)
  finally show ?thesis .
qed

lemma length_positions: "length (positions b xs) = count_list xs b"
proof (induction xs rule: rev_induct)
  case (snoc x xs)
  then show ?case by (auto simp: positions_append) (auto simp: positions_def)
qed simp

lemma set_positions: "set (positions b xs) = {i. i < length xs \<and> xs ! i = b}"
  by (auto simp: positions_def)

lemma sorted_positions: "sorted_wrt (<) (positions b xs)"
  by (simp add: positions_def sorted_wrt_filter)

lemma positions_eq_Nil: "positions b xs = [] \<longleftrightarrow> b \<notin> set xs"
  by (auto simp: positions_def filter_empty_conv in_set_conv_nth)

lemma positions_replicate:
  "positions b (replicate n a) = (if a = b then [0..<n] else [])"
  by (auto simp: positions_def)

lemma positions_less: "p \<in> set (positions b xs) \<Longrightarrow> p < length xs"
  by (simp add: set_positions)

lemma positions_bits_of: "positions b (bits_of n x) = filter (\<lambda>i. bit x i = b) [0..<n]"
  by (auto simp: positions_def intro: filter_cong)

lemma positions_map_Not: "positions b (map Not xs) = positions (\<not> b) xs"
  by (auto simp: positions_def intro: filter_cong)

lemma count_list_take_positions:
  "count_list (take n xs) b = length (filter (\<lambda>i. i < n) (positions b xs))"
proof -
  have *: "min (length xs) n = length xs \<and> length xs \<le> n \<or> n < length xs" by auto
  have "positions b (take n xs) = filter (\<lambda>i. i < n) (positions b xs)"
  proof (cases "length xs \<le> n")
    case True
    then show ?thesis by (auto simp: positions_def intro!: filter_cong[symmetric])
  next
    case False
    have "positions b xs = positions b (take n xs) @ map ((+) n) (positions b (drop n xs))"
      using False positions_append [of b "take n xs" "drop n xs"] by simp
    moreover have "filter (\<lambda>i. i < n) (positions b (take n xs)) = positions b (take n xs)"
      using False by (auto simp: filter_id_conv dest: positions_less)
    ultimately show ?thesis by (simp add: filter_map comp_def)
  qed
  then show ?thesis by (metis length_positions)
qed

section \<open>First, last and n-th position\<close>

lemma head_or_npos_simps [simp]:
  "head_or_npos [] = npos"
  "head_or_npos (p # ps) = p"
  by (simp_all add: head_or_npos_def)

lemma last_or_npos_simps [simp]:
  "last_or_npos [] = npos"
  "ps \<noteq> [] \<Longrightarrow> last_or_npos ps = last ps"
  by (simp_all add: last_or_npos_def)

lemma head_or_npos_append:
  "head_or_npos (ps @ qs) = (if ps = [] then head_or_npos qs else head_or_npos ps)"
  by (cases ps) simp_all

lemma last_or_npos_append:
  "last_or_npos (ps @ qs) = (if qs = [] then last_or_npos ps else last_or_npos qs)"
  by (simp add: last_or_npos_def)

lemma head_or_npos_map: "ps \<noteq> [] \<Longrightarrow> head_or_npos (map f ps) = f (head_or_npos ps)"
  by (cases ps) simp_all

lemma last_or_npos_map: "ps \<noteq> [] \<Longrightarrow> last_or_npos (map f ps) = f (last_or_npos ps)"
  by (simp add: last_map)

lemma nth_or_npos_append:
  "0 < k \<Longrightarrow> nth_or_npos (ps @ qs) k
    = (if k \<le> length ps then nth_or_npos ps k else nth_or_npos qs (k - length ps))"
  by (auto simp: nth_or_npos_def nth_append)

lemma nth_or_npos_map:
  "0 < k \<Longrightarrow> k \<le> length ps \<Longrightarrow> nth_or_npos (map f ps) k = f (nth_or_npos ps k)"
  by (auto simp: nth_or_npos_def)

lemma head_or_npos_eq_npos:
  "(\<And>p. p \<in> set ps \<Longrightarrow> p < npos) \<Longrightarrow> head_or_npos ps = npos \<longleftrightarrow> ps = []"
  by (cases ps) auto

lemma last_or_npos_eq_npos:
  "(\<And>p. p \<in> set ps \<Longrightarrow> p < npos) \<Longrightarrow> last_or_npos ps = npos \<longleftrightarrow> ps = []"
  by (cases ps rule: rev_cases) auto

lemma filter_upt_eq_hd:
  assumes "filter P [0..<n] \<noteq> []"
  shows "hd (filter P [0..<n]) = length (takeWhile (\<lambda>i. \<not> P i) [0..<n])"
  using assms
proof (induction n)
  case (Suc n)
  show ?case
  proof (cases "filter P [0..<n] = []")
    case True
    then have "\<forall>i \<in> set [0..<n]. \<not> P i" by (simp add: filter_empty_conv)
    then have "takeWhile (\<lambda>i. \<not> P i) [0..<Suc n] = [0..<n] @ takeWhile (\<lambda>i. \<not> P i) [n]"
      by (simp add: takeWhile_append)
    moreover have "P n" using Suc.prems True by (auto split: if_splits)
    ultimately show ?thesis using True by simp
  next
    case False
    then obtain i where "i \<in> set [0..<n]" "P i" by (auto simp: filter_empty_conv)
    then have "takeWhile (\<lambda>i. \<not> P i) [0..<Suc n] = takeWhile (\<lambda>i. \<not> P i) [0..<n]"
      by (auto simp: takeWhile_append1)
    then show ?thesis using Suc.IH False by simp
  qed
qed simp

lemma head_filter_upt:
  "head_or_npos (filter P [0..<n])
    = (if \<exists>i < n. P i then length (takeWhile (\<lambda>i. \<not> P i) [0..<n]) else npos)"
proof (cases "filter P [0..<n] = []")
  case True
  then show ?thesis by (auto simp: filter_empty_conv)
next
  case False
  then have "\<exists>i < n. P i" by (auto simp: filter_empty_conv)
  moreover have "head_or_npos (filter P [0..<n]) = hd (filter P [0..<n])"
    using False by (cases "filter P [0..<n]") simp_all
  ultimately show ?thesis using filter_upt_eq_hd [OF False] by simp
qed

lemma takeWhile_upt_less:
  "i < n \<Longrightarrow> P i \<Longrightarrow> length (takeWhile (\<lambda>j. \<not> P j) [0..<n]) \<le> i"
proof (rule ccontr)
  let ?ts = "takeWhile (\<lambda>j. \<not> P j) [0..<n]"
  assume i: "i < n" "P i" and "\<not> length ?ts \<le> i"
  then have less: "i < length ?ts" by simp
  then have "?ts ! i \<in> set ?ts" by (rule nth_mem)
  then have "\<not> P (?ts ! i)" by (auto dest: set_takeWhileD)
  moreover have "?ts ! i = i"
    using less i(1) by (simp add: takeWhile_nth)
  ultimately show False using i(2) by simp
qed

lemma last_filter_upt:
  "last_or_npos (filter P [0..<n])
    = (if \<exists>i < n. P i then n - 1 - length (takeWhile (\<lambda>i. \<not> P i) (rev [0..<n])) else npos)"
proof (induction n)
  case (Suc n)
  show ?case
  proof (cases "P n")
    case False
    then have "last_or_npos (filter P [0..<Suc n]) = last_or_npos (filter P [0..<n])" by simp
    moreover have "(\<exists>i < Suc n. P i) \<longleftrightarrow> (\<exists>i < n. P i)"
      using False by (auto simp: less_Suc_eq)
    ultimately show ?thesis using Suc.IH False by auto
  qed (auto simp: last_or_npos_def)
qed simp

end
