(* ===== verification/Word_Ops.thy ===== *)
theory Word_Ops
  imports Bit_Spec
begin

text \<open>
  \<open>word<uint64_t>\<close> of \<^verbatim>\<open>word.hpp\<close>: constants, masks, tests, counting and searching in one block.
  C++ leaves a shift by 64 or more undefined; here it is \<open>push_bit\<close> or \<open>drop_bit\<close>, and every
  lemma about a shifting operation carries the precondition that its comment in the source names.
  The compiler builtins for counting are given by their documented values. The lemmas relate every
  operation to \<open>positions\<close> of the block read as a list of bits.
\<close>

section \<open>Special blocks and masks\<close>

definition none_word :: u64 where "none_word = 0"
definition all_word :: u64 where "all_word = NOT none_word"
definition msb0 :: u64 where "msb0 = drop_bit 1 all_word"
definition msb1 :: u64 where "msb1 = NOT msb0"
definition lsb1 :: u64 where "lsb1 = 1"
definition lsb0 :: u64 where "lsb0 = NOT lsb1"

definition mask_word :: "nat \<Rightarrow> u64" where
  "mask_word i = push_bit i lsb1"

definition lsb_mask :: "nat \<Rightarrow> u64" where
  "lsb_mask i = NOT (push_bit i all_word)"

definition lsb_fill :: "nat \<Rightarrow> u64" where
  "lsb_fill i = drop_bit (width - i) all_word"

definition msb_mask :: "nat \<Rightarrow> u64" where
  "msb_mask i = NOT (drop_bit i all_word)"

definition msb_fill :: "nat \<Rightarrow> u64" where
  "msb_fill i = push_bit (width - i) all_word"

lemma none_word_eq [simp]: "none_word = 0"
  by (simp add: none_word_def)

lemma all_word_eq [simp]: "all_word = - 1"
  by (simp add: all_word_def)

lemma bit_msb1 [bit_simps]: "bit msb1 i \<longleftrightarrow> i = 63"
  by (auto simp: msb1_def msb0_def bit_simps)

lemma bit_mask_word [bit_simps]: "bit (mask_word i) j \<longleftrightarrow> i = j \<and> j < width"
  by (auto simp: mask_word_def lsb1_def bit_simps)

lemma lsb_mask_eq: "lsb_mask i = mask i"
  by (rule bit_word_eqI) (auto simp: lsb_mask_def bit_simps)

lemma lsb_fill_eq: "i \<le> width \<Longrightarrow> lsb_fill i = mask i"
  by (rule bit_word_eqI) (auto simp: lsb_fill_def bit_simps)

lemma bit_msb_mask [bit_simps]: "bit (msb_mask i) j \<longleftrightarrow> width \<le> i + j \<and> j < width"
  by (auto simp: msb_mask_def bit_simps)

lemma bit_msb_fill [bit_simps]: "bit (msb_fill i) j \<longleftrightarrow> width \<le> i + j \<and> j < width"
  by (auto simp: msb_fill_def bit_simps)

section \<open>Tests and manipulation\<close>

definition test_word :: "u64 \<Rightarrow> nat \<Rightarrow> bool" where
  "test_word x i \<longleftrightarrow> x AND mask_word i = mask_word i"

definition all_or_none :: "u64 \<Rightarrow> bool" where
  "all_or_none x \<longleftrightarrow> (x + 1) AND lsb0 \<le> 1"

definition all_or_none_prefix :: "u64 \<Rightarrow> nat \<Rightarrow> bool" where
  "all_or_none_prefix x k \<longleftrightarrow> (x + 1) AND lsb_mask k \<le> 1"

definition set_word_bit :: "bool \<Rightarrow> u64 \<Rightarrow> nat \<Rightarrow> u64" where
  "set_word_bit b x i = (if b then x OR mask_word i else x AND NOT (mask_word i))"

definition set_word :: "u64 \<Rightarrow> nat \<Rightarrow> bool \<Rightarrow> u64" where
  "set_word x i b = (if b then set_word_bit True x i else set_word_bit False x i)"

definition flip_word :: "u64 \<Rightarrow> nat \<Rightarrow> u64" where
  "flip_word x i = x XOR mask_word i"

lemma test_word_iff: "i < width \<Longrightarrow> test_word x i \<longleftrightarrow> bit x i"
  by (auto simp: test_word_def bit_eq_iff [of "x AND mask_word i"] bit_simps)

lemma bits_of_set_word: "i < n \<Longrightarrow> n \<le> width \<Longrightarrow> bits_of n (set_word x i b) = (bits_of n x)[i := b]"
  by (rule nth_equalityI) (auto simp: set_word_def set_word_bit_def nth_list_update bit_simps)

lemma bits_of_flip_word:
  "i < n \<Longrightarrow> n \<le> width \<Longrightarrow> bits_of n (flip_word x i) = (bits_of n x)[i := \<not> bit x i]"
  by (rule nth_equalityI) (auto simp: flip_word_def nth_list_update bit_simps)

lemma and_lsb0_le_1: "(x :: u64) AND lsb0 \<le> 1 \<longleftrightarrow> x = 0 \<or> x = 1"
proof -
  have "x AND lsb0 \<noteq> 1"
    by (metis bit_and_iff bit_not_iff bit_1_0 lsb0_def lsb1_def)
  moreover have "x AND lsb0 \<le> 1 \<longleftrightarrow> x AND lsb0 = 0 \<or> x AND lsb0 = 1"
    by unat_arith
  moreover have "x AND lsb0 = 0 \<longleftrightarrow> x = 0 \<or> x = 1"
    by (auto simp: lsb0_def lsb1_def bit_eq_iff [where 'a = "64 word"] bit_simps)
  ultimately show ?thesis by blast
qed

lemma all_or_none_iff: "all_or_none x \<longleftrightarrow> x = 0 \<or> x = - 1"
  unfolding all_or_none_def and_lsb0_le_1
  by (metis add_cancel_left_left add.left_inverse add_eq_0_iff)

section \<open>Counting\<close>

definition builtin_ctzll :: "u64 \<Rightarrow> nat" where
  "builtin_ctzll x = length (takeWhile (\<lambda>i. \<not> bit x i) [0..<width])"

definition builtin_clzll :: "u64 \<Rightarrow> nat" where
  "builtin_clzll x = length (takeWhile (\<lambda>i. \<not> bit x i) (rev [0..<width]))"

definition builtin_popcountll :: "u64 \<Rightarrow> nat" where
  "builtin_popcountll x = length (filter (bit x) [0..<width])"

definition find_first_set :: "u64 \<Rightarrow> nat" where
  "find_first_set x = (if x = 0 then 0 else builtin_ctzll x + 1)"

definition popcount :: "u64 \<Rightarrow> nat" where
  "popcount x = (if x = 0 then 0 else builtin_popcountll x)"

definition count_trailing_zeros :: "u64 \<Rightarrow> nat" where
  "count_trailing_zeros x = (if x = 0 then width else builtin_ctzll x)"

definition count_trailing_ones :: "u64 \<Rightarrow> nat" where
  "count_trailing_ones x = count_trailing_zeros (NOT x)"

definition count_leading_zeros :: "u64 \<Rightarrow> nat" where
  "count_leading_zeros x = (if x = 0 then width else builtin_clzll x)"

definition count_leading_ones :: "u64 \<Rightarrow> nat" where
  "count_leading_ones x = count_leading_zeros (NOT x)"

definition parity_word :: "u64 \<Rightarrow> nat" where
  "parity_word x = builtin_popcountll x mod 2"

definition log2_word :: "u64 \<Rightarrow> nat" where
  "log2_word x = sub64 (width - count_leading_zeros x) 1"

definition rank_word :: "bool \<Rightarrow> u64 \<Rightarrow> nat" where
  "rank_word b x = (if b then popcount x else popcount (NOT x))"

definition rank_word_upto :: "bool \<Rightarrow> u64 \<Rightarrow> nat \<Rightarrow> nat" where
  "rank_word_upto b x i =
    (let x' = (if b then x else NOT x); masked = x' AND lsb_fill (i + 1) in rank_word True masked)"

lemma popcount_eq: "popcount x = count_list (bits_of width x) True"
proof -
  have "builtin_popcountll x = count_list (bits_of width x) True"
    by (simp add: builtin_popcountll_def bits_of_def count_list_conv_filter filter_map comp_def)
  then show ?thesis by (auto simp: popcount_def bits_of_zero count_list_replicate)
qed

lemma popcount_mask: "n \<le> width \<Longrightarrow> popcount (x AND mask n) = count_list (bits_of n x) True"
proof -
  assume n: "n \<le> width"
  have "bits_of width (x AND mask n) = bits_of n x @ replicate (width - n) False"
    by (rule nth_equalityI) (use n in \<open>auto simp: nth_append bit_simps\<close>)
  then show ?thesis by (simp add: popcount_eq count_list_replicate)
qed

lemma popcount_clear: "n \<le> width \<Longrightarrow> x AND mask n = x \<Longrightarrow> popcount x = count_list (bits_of n x) True"
  by (metis popcount_mask)

lemma rank_word_eq: "rank_word b x = count_list (bits_of width x) b"
  by (cases b) (simp_all add: rank_word_def popcount_eq bits_of_NOT count_list_map_Not)

lemma rank_word_upto_eq:
  "i < width \<Longrightarrow> rank_word_upto b x i = count_list (bits_of (Suc i) x) b"
  by (cases b)
    (simp_all add: rank_word_upto_def Let_def lsb_fill_eq rank_word_def popcount_mask bits_of_NOT
      count_list_map_Not)

section \<open>Searching\<close>

definition find_first_word :: "bool \<Rightarrow> u64 \<Rightarrow> nat" where
  "find_first_word b x =
    (let tzs = count_trailing_zeros (if b then x else NOT x) in
     if tzs = width then npos else tzs)"

definition find_last_word :: "bool \<Rightarrow> u64 \<Rightarrow> nat" where
  "find_last_word b x =
    (let lzs = count_leading_zeros (if b then x else NOT x) in
     if lzs = width then npos else width - lzs - 1)"

definition find_next_word :: "u64 \<Rightarrow> nat \<Rightarrow> nat" where
  "find_next_word x i =
    (if i = width - 1 then npos
     else let top = x AND push_bit (i + 1) all_word in
       if top = 0 then npos else count_trailing_zeros top)"

definition find_prev_word :: "u64 \<Rightarrow> nat \<Rightarrow> nat" where
  "find_prev_word x i =
    (if i = 0 then npos
     else let low = x AND NOT (push_bit i all_word) in
       if low = 0 then npos else width - count_leading_zeros low - 1)"

fun select_word_loop :: "bool \<Rightarrow> u64 \<Rightarrow> nat \<Rightarrow> nat \<Rightarrow> nat list \<Rightarrow> nat" where
  "select_word_loop b x i cum [] = npos"
| "select_word_loop b x i cum (j # js) =
    (if test_word x j = b
     then if cum + 1 = i then j else select_word_loop b x i (cum + 1) js
     else select_word_loop b x i cum js)"

definition select_word :: "bool \<Rightarrow> u64 \<Rightarrow> nat \<Rightarrow> nat" where
  "select_word b x i = select_word_loop b x i 0 [0..<width]"

lemma ctz_less_iff: "count_trailing_zeros x = width \<longleftrightarrow> x = 0"
proof
  assume *: "count_trailing_zeros x = width"
  show "x = 0"
  proof (rule ccontr)
    assume "x \<noteq> 0"
    then obtain i where "i < width" "bit x i" by (auto simp: u64_zero_iff_bits)
    then have "builtin_ctzll x \<le> i"
      unfolding builtin_ctzll_def by (rule takeWhile_upt_less)
    with \<open>i < width\<close> * \<open>x \<noteq> 0\<close> show False by (simp add: count_trailing_zeros_def)
  qed
qed (simp add: count_trailing_zeros_def)

lemma ctz_eq: "x \<noteq> 0 \<Longrightarrow> count_trailing_zeros x = head_or_npos (positions True (bits_of width x))"
  by (auto simp: count_trailing_zeros_def builtin_ctzll_def positions_bits_of head_filter_upt
      u64_zero_iff_bits)

lemma clz_eq:
  assumes "x \<noteq> 0"
  shows "count_leading_zeros x < width"
    and "width - count_leading_zeros x - 1 = last_or_npos (positions True (bits_of width x))"
proof -
  obtain i where i: "i < width" "bit x i" using assms by (auto simp: u64_zero_iff_bits)
  show "width - count_leading_zeros x - 1 = last_or_npos (positions True (bits_of width x))"
    using assms i
    by (auto simp: count_leading_zeros_def builtin_clzll_def positions_bits_of last_filter_upt
        u64_zero_iff_bits)
  have "\<not> (\<forall>j \<in> set (rev [0..<width]). \<not> bit x j)" using i by auto
  then have "takeWhile (\<lambda>i. \<not> bit x i) (rev [0..<width]) \<noteq> rev [0..<width]"
    using takeWhile_eq_all_conv [of "\<lambda>i. \<not> bit x i"] by blast
  then have "length (takeWhile (\<lambda>i. \<not> bit x i) (rev [0..<width])) \<noteq> length (rev [0..<width])"
    by (metis takeWhile_eq_take take_all_iff order_refl)
  then have "length (takeWhile (\<lambda>i. \<not> bit x i) (rev [0..<width])) < length (rev [0..<width])"
    using length_takeWhile_le [of "\<lambda>i. \<not> bit x i" "rev [0..<width]"] by linarith
  then show "count_leading_zeros x < width"
    using assms by (simp add: count_leading_zeros_def builtin_clzll_def)
qed

lemma positions_True_zero: "positions True (bits_of n 0) = []"
  by (simp add: bits_of_zero positions_replicate)

lemma find_first_word_True: "find_first_word True x = head_or_npos (positions True (bits_of width x))"
proof (cases "x = 0")
  case True
  then show ?thesis
    by (simp add: find_first_word_def count_trailing_zeros_def positions_True_zero)
next
  case False
  then show ?thesis using ctz_less_iff [of x] by (simp add: find_first_word_def ctz_eq)
qed

lemma find_first_word_eq: "find_first_word b x = head_or_npos (positions b (bits_of width x))"
proof (cases b)
  case False
  then have "find_first_word b x = find_first_word True (NOT x)"
    by (simp add: find_first_word_def)
  then show ?thesis using False by (simp add: find_first_word_True bits_of_NOT positions_map_Not)
qed (simp add: find_first_word_True)

lemma find_last_word_True: "find_last_word True x = last_or_npos (positions True (bits_of width x))"
proof (cases "x = 0")
  case True
  then show ?thesis
    by (simp add: find_last_word_def count_leading_zeros_def positions_True_zero)
next
  case False
  then show ?thesis using clz_eq [OF False] by (simp add: find_last_word_def Let_def)
qed

lemma find_last_word_eq: "find_last_word b x = last_or_npos (positions b (bits_of width x))"
proof (cases b)
  case False
  then have "find_last_word b x = find_last_word True (NOT x)"
    by (simp add: find_last_word_def)
  then show ?thesis using False by (simp add: find_last_word_True bits_of_NOT positions_map_Not)
qed (simp add: find_last_word_True)

lemma find_next_word_eq:
  assumes "i < width"
  shows "find_next_word x i = head_or_npos (filter ((<) i) (positions True (bits_of width x)))"
proof -
  let ?top = "x AND push_bit (i + 1) all_word"
  have pos: "positions True (bits_of width ?top) = filter ((<) i) (positions True (bits_of width x))"
    by (auto simp: positions_bits_of bit_simps intro!: filter_cong)
  show ?thesis
  proof (cases "i = width - 1")
    case True
    then have "filter ((<) i) (positions True (bits_of width x)) = []"
      by (auto simp: filter_empty_conv dest: positions_less)
    with True show ?thesis by (simp add: find_next_word_def)
  next
    case False
    then have "find_next_word x i = (if ?top = 0 then npos else count_trailing_zeros ?top)"
      by (simp add: find_next_word_def Let_def)
    also have "\<dots> = head_or_npos (positions True (bits_of width ?top))"
      by (simp add: ctz_eq positions_True_zero)
    finally show ?thesis by (simp only: pos)
  qed
qed

lemma find_prev_word_eq:
  assumes "i < width"
  shows "find_prev_word x i = last_or_npos (filter (\<lambda>p. p < i) (positions True (bits_of width x)))"
proof -
  let ?low = "x AND NOT (push_bit i all_word)"
  have pos: "positions True (bits_of width ?low) = filter (\<lambda>p. p < i) (positions True (bits_of width x))"
    using assms by (auto simp: positions_bits_of bit_simps intro!: filter_cong)
  show ?thesis
  proof (cases "i = 0")
    case False
    then have "find_prev_word x i = (if ?low = 0 then npos else width - count_leading_zeros ?low - 1)"
      by (simp add: find_prev_word_def Let_def)
    also have "\<dots> = last_or_npos (positions True (bits_of width ?low))"
      using clz_eq(2) [of ?low] by (simp add: positions_True_zero)
    finally show ?thesis by (simp only: pos)
  qed (simp add: find_prev_word_def)
qed

lemma select_word_loop_eq:
  assumes "\<forall>j \<in> set js. j < width" and "cum < i"
  shows "select_word_loop b x i cum js = nth_or_npos (filter (\<lambda>j. bit x j = b) js) (i - cum)"
  using assms
proof (induction js arbitrary: cum)
  case (Cons j js)
  from Cons.prems(2) obtain k where i: "i = cum + Suc k"
    using less_imp_Suc_add by auto
  show ?case
  proof (cases "k = 0")
    case True
    with Cons i show ?thesis by (auto simp: test_word_iff nth_or_npos_def)
  next
    case False
    with Cons i have "select_word_loop b x i (Suc cum) js
        = nth_or_npos (filter (\<lambda>j. bit x j = b) js) k"
      and "select_word_loop b x i cum js = nth_or_npos (filter (\<lambda>j. bit x j = b) js) (Suc k)"
      by simp_all
    with Cons.prems False i show ?thesis
      by (auto simp: test_word_iff nth_or_npos_def nth_Cons')
  qed
qed (simp add: nth_or_npos_def)

lemma select_word_eq: "0 < i \<Longrightarrow> select_word b x i = nth_or_npos (positions b (bits_of width x)) i"
  by (simp add: select_word_def select_word_loop_eq positions_bits_of)

end
