(* ===== verification/Bits.thy ===== *)
theory Bits
  imports Word_Ops
begin

text \<open>
  The class \<open>bits<uint64_t>\<close> of \<^verbatim>\<open>bits.hpp\<close>: a sequence of bits held in one block. Up to 64 bits
  are literal; a longer sequence is a run and its block is all 0s or all 1s. \<open>bits_inv\<close> is the
  class invariant that the comment of the class states, \<open>bits_list\<close> the sequence it denotes.
  The constructor, the slices and the positional queries assert, so they return an option.
\<close>

section \<open>The class\<close>

record bits =
  bdata :: u64
  bsize :: nat

definition empty_bits :: bits where
  "empty_bits = \<lparr>bdata = 0, bsize = 0\<rparr>"

definition bits_of_block :: "u64 \<Rightarrow> bits" where
  "bits_of_block x = \<lparr>bdata = x, bsize = width\<rparr>"

definition mk_bits :: "u64 \<Rightarrow> nat \<Rightarrow> bits option" where
  "mk_bits x n = do {
     require (n \<le> width \<or> all_or_none x);
     Some \<lparr>bdata = (if n < width then x AND lsb_mask n else x), bsize = n\<rparr>
   }"

definition bits_empty :: "bits \<Rightarrow> bool" where
  "bits_empty b \<longleftrightarrow> bsize b = 0"

definition is_partial_word :: "bits \<Rightarrow> bool" where
  "is_partial_word b \<longleftrightarrow> bsize b < width"

definition is_complete_word :: "bits \<Rightarrow> bool" where
  "is_complete_word b \<longleftrightarrow> bsize b = width"

definition is_run :: "bits \<Rightarrow> bool" where
  "is_run b \<longleftrightarrow> bsize b > width"

definition homogeneous :: "bits \<Rightarrow> bool" where
  "homogeneous b =
    (if bsize b \<ge> width then all_or_none (bdata b) else all_or_none_prefix (bdata b) (bsize b))"

definition bits_index :: "bits \<Rightarrow> nat \<Rightarrow> bool option" where
  "bits_index b i = do {
     require (i < bsize b);
     Some (if is_run b then bdata b \<noteq> 0 else bdata b AND mask_word i \<noteq> 0)
   }"

definition bits_slice_length :: "bits \<Rightarrow> nat \<Rightarrow> nat \<Rightarrow> bits option" where
  "bits_slice_length b offset len = do {
     require (offset + len \<le> bsize b);
     mk_bits (if is_run b then bdata b else drop_bit offset (bdata b)) len
   }"

definition bits_slice :: "bits \<Rightarrow> nat \<Rightarrow> bits option" where
  "bits_slice b offset = do {
     require (offset < bsize b);
     bits_slice_length b offset (bsize b - offset)
   }"

definition bits_equal :: "bits \<Rightarrow> bits \<Rightarrow> bool" where
  "bits_equal x y \<longleftrightarrow> bdata x = bdata y \<and> bsize x = bsize y"

section \<open>Subsetting\<close>

definition bits_drop :: "bits \<Rightarrow> nat \<Rightarrow> bits option" where
  "bits_drop xs n = (if n < bsize xs then bits_slice xs n else Some empty_bits)"

definition bits_drop_right :: "bits \<Rightarrow> nat \<Rightarrow> bits option" where
  "bits_drop_right xs n =
    (if n < bsize xs then bits_slice_length xs 0 (bsize xs - n) else Some empty_bits)"

definition bits_take :: "bits \<Rightarrow> nat \<Rightarrow> bits option" where
  "bits_take xs n = (if n < bsize xs then bits_slice_length xs 0 n else Some xs)"

definition bits_take_right :: "bits \<Rightarrow> nat \<Rightarrow> bits option" where
  "bits_take_right xs n = (if n < bsize xs then bits_slice xs (bsize xs - n) else Some xs)"

section \<open>Searching and counting\<close>

definition find_first_bits :: "bool \<Rightarrow> bits \<Rightarrow> nat" where
  "find_first_bits bv b =
    (if bv then
       if bsize b > width then if bdata b = all_word then 0 else npos
       else find_first_word True (bdata b)
     else
       if bsize b > width then if bdata b = none_word then 0 else npos
       else find_first_word False (bdata b OR msb_mask (width - bsize b)))"

definition find_next_bits :: "bool \<Rightarrow> bits \<Rightarrow> nat \<Rightarrow> nat" where
  "find_next_bits bv b i =
    (if i \<ge> sub64 (bsize b) 1 then npos
     else if bv then
       if bsize b > width then if bdata b = all_word then i + 1 else npos
       else find_next_word (bdata b) i
     else
       if bsize b > width then if bdata b = none_word then i + 1 else npos
       else find_next_word (NOT (bdata b) AND lsb_fill (bsize b)) i)"

definition find_last_bits :: "bool \<Rightarrow> bits \<Rightarrow> nat" where
  "find_last_bits bv b =
    (if bv then
       if bsize b > width then if bdata b = all_word then bsize b - 1 else npos
       else find_last_word True (bdata b)
     else
       if bsize b > width then if bdata b = none_word then bsize b - 1 else npos
       else find_last_word True (NOT (bdata b) AND lsb_fill (bsize b)))"

definition rank_bits :: "bool \<Rightarrow> bits \<Rightarrow> nat" where
  "rank_bits bv b =
    (if bv then
       if bsize b > width then if bdata b = all_word then bsize b else 0
       else rank_word True (bdata b)
     else
       if bsize b > width then if bdata b = none_word then bsize b else 0
       else rank_word True (NOT (bdata b) AND lsb_fill (bsize b)))"

definition rank_bits_upto :: "bool \<Rightarrow> bits \<Rightarrow> nat \<Rightarrow> nat option" where
  "rank_bits_upto bv b i = do {
     require (i < bsize b);
     let data = (if bv then bdata b else NOT (bdata b));
     Some (if bsize b > width then if data = none_word then 0 else i + 1
           else if i = width - 1 then popcount data
           else rank_word_upto True data i)
   }"

definition select_bits :: "bool \<Rightarrow> bits \<Rightarrow> nat \<Rightarrow> nat option" where
  "select_bits bv b i = do {
     require (i > 0);
     require (i \<le> bsize b);
     let data = (if bv then bdata b else NOT (bdata b));
     Some (if bsize b > width then if data = all_word then i - 1 else npos
           else select_word True data i)
   }"

section \<open>The invariant and the sequence denoted\<close>

definition bits_inv :: "bits \<Rightarrow> bool" where
  "bits_inv b \<longleftrightarrow> (if bsize b > width then bdata b = 0 \<or> bdata b = - 1
                  else bdata b AND mask (bsize b) = bdata b)"

definition bits_list :: "bits \<Rightarrow> bool list" where
  "bits_list b = (if bsize b > width then replicate (bsize b) (bdata b \<noteq> 0)
                  else bits_of (bsize b) (bdata b))"

lemma length_bits_list [simp]: "length (bits_list b) = bsize b"
  by (simp add: bits_list_def)

lemma bits_list_eq_Nil [simp]: "bits_list b = [] \<longleftrightarrow> bsize b = 0"
  by (metis length_0_conv length_bits_list)

lemma bits_inv_empty [simp]: "bits_inv empty_bits" "bits_list empty_bits = []" "bsize empty_bits = 0"
  by (simp_all add: bits_inv_def bits_list_def empty_bits_def)

lemma bits_inv_block [simp]: "bits_inv (bits_of_block x)"
  by (simp add: bits_inv_def bits_of_block_def)

text \<open>The constructor establishes the invariant, and its assertion is its only failure.\<close>

lemma mk_bits_short:
  assumes "n \<le> width"
  shows "\<exists>b. mk_bits x n = Some b \<and> bits_inv b \<and> bsize b = n \<and> bits_list b = bits_of n x"
proof -
  let ?b = "\<lparr>bdata = (if n < width then x AND lsb_mask n else x), bsize = n\<rparr>"
  have "mk_bits x n = Some ?b" using assms by (simp add: mk_bits_def)
  moreover have "bits_inv ?b" using assms by (auto simp: bits_inv_def lsb_mask_eq and.assoc)
  moreover have "bits_list ?b = bits_of n x"
    using assms by (simp add: bits_list_def lsb_mask_eq bits_of_mask)
  ultimately show ?thesis by auto
qed

lemma mk_bits_run:
  assumes "x = 0 \<or> x = - 1"
  shows "\<exists>b. mk_bits x n = Some b \<and> bits_inv b \<and> bsize b = n \<and> bits_list b = replicate n (x \<noteq> 0)"
proof (cases "n \<le> width")
  case True
  have "bits_of n x = replicate n (x \<noteq> 0)"
    using assms True by (auto simp: bits_of_zero bits_of_ones)
  with mk_bits_short [OF True, of x] show ?thesis by auto
next
  case False
  with assms show ?thesis by (auto simp: mk_bits_def all_or_none_iff bits_inv_def bits_list_def)
qed

lemma mk_bits_None_iff: "mk_bits x n = None \<longleftrightarrow> width < n \<and> x \<noteq> 0 \<and> x \<noteq> - 1"
  by (auto simp: mk_bits_def all_or_none_iff require_def)

lemma bits_slice_length_spec:
  assumes "bits_inv b" and "off + n \<le> bsize b"
  shows "\<exists>c. bits_slice_length b off n = Some c \<and> bits_inv c \<and> bsize c = n
      \<and> bits_list c = take n (drop off (bits_list b))"
proof (cases "is_run b")
  case True
  then have "bdata b = 0 \<or> bdata b = - 1" using assms(1) by (simp add: bits_inv_def is_run_def)
  from mk_bits_run [OF this, of n] show ?thesis
    using True assms(2) by (auto simp: bits_slice_length_def bits_list_def is_run_def)
next
  case False
  then have "off + n \<le> width" using assms(2) by (simp add: is_run_def)
  then have "n \<le> width" by simp
  from mk_bits_short [OF this, of "drop_bit off (bdata b)"] show ?thesis
    using False assms(2)
    by (auto simp: bits_slice_length_def bits_list_def is_run_def drop_bits_of take_bits_of)
qed

lemma bits_slice_spec:
  assumes "bits_inv b" and "off < bsize b"
  shows "\<exists>c. bits_slice b off = Some c \<and> bits_inv c \<and> bsize c = bsize b - off
      \<and> bits_list c = drop off (bits_list b)"
  using bits_slice_length_spec [OF assms(1), of off "bsize b - off"] assms(2)
  by (auto simp: bits_slice_def)

lemma bits_drop_spec:
  assumes "bits_inv b"
  shows "\<exists>c. bits_drop b n = Some c \<and> bits_inv c \<and> bits_list c = drop n (bits_list b)
      \<and> bsize c = bsize b - n"
  using bits_slice_spec [OF assms, of n] by (auto simp: bits_drop_def)

lemma bits_drop_right_spec:
  assumes "bits_inv b"
  shows "\<exists>c. bits_drop_right b n = Some c \<and> bits_inv c
      \<and> bits_list c = take (bsize b - n) (bits_list b)"
  using bits_slice_length_spec [OF assms, of 0 "bsize b - n"] by (auto simp: bits_drop_right_def)

lemma bits_take_spec:
  assumes "bits_inv b"
  shows "\<exists>c. bits_take b n = Some c \<and> bits_inv c \<and> bits_list c = take n (bits_list b)"
  using bits_slice_length_spec [OF assms, of 0 n] assms by (auto simp: bits_take_def)

lemma bits_take_right_spec:
  assumes "bits_inv b" and "0 < n \<or> bsize b = 0"
  shows "\<exists>c. bits_take_right b n = Some c \<and> bits_inv c
      \<and> bits_list c = drop (bsize b - n) (bits_list b)"
  using bits_slice_spec [OF assms(1), of "bsize b - n"] assms by (auto simp: bits_take_right_def)

text \<open>Taking no bits from the right of a non-empty sequence slices at its end, which asserts.\<close>

lemma bits_take_right_zero: "0 < bsize b \<Longrightarrow> bits_take_right b 0 = None"
  by (simp add: bits_take_right_def bits_slice_def)

lemma bits_index_eq:
  assumes "bits_inv b" and "i < bsize b"
  shows "bits_index b i = Some (bits_list b ! i)"
proof -
  have "x AND mask_word i \<noteq> 0 \<longleftrightarrow> bit x i" if "i < width" for x
    using that by (auto simp: bit_eq_iff [where 'a = "64 word"] bit_simps)
  then show ?thesis
    using assms by (auto simp: bits_index_def is_run_def bits_list_def)
qed

section \<open>Searching and counting are queries on the positions\<close>

lemma bits_run_cases:
  assumes "bits_inv b" and "bsize b > width"
  obtains "bdata b = 0" "bits_list b = replicate (bsize b) False"
  | "bdata b = - 1" "bits_list b = replicate (bsize b) True"
  using assms by (auto simp: bits_inv_def bits_list_def)

lemma positions_clear:
  assumes "n \<le> width" and "x AND mask n = x"
  shows "positions True (bits_of width x) = positions True (bits_of n x)"
proof -
  have "bits_of width x = bits_of n x @ replicate (width - n) False"
    by (rule nth_equalityI) (use assms in \<open>auto simp: nth_append mask_clear_bit\<close>)
  then show ?thesis by (simp add: positions_append positions_replicate)
qed

lemma positions_literal:
  assumes "bits_inv b" and "bsize b \<le> width"
  shows "positions True (bits_of width (bdata b)) = positions True (bits_list b)"
    and "positions True (bits_of width (NOT (bdata b) AND lsb_fill (bsize b)))
      = positions False (bits_list b)"
proof -
  show "positions True (bits_of width (bdata b)) = positions True (bits_list b)"
    using assms by (simp add: bits_inv_def bits_list_def positions_clear)
  have "positions True (bits_of width (NOT (bdata b) AND mask (bsize b)))
      = positions True (bits_of (bsize b) (NOT (bdata b)))"
    using assms(2) positions_clear [of "bsize b" "NOT (bdata b) AND mask (bsize b)"]
    by (simp add: and.assoc bits_of_mask)
  then show "positions True (bits_of width (NOT (bdata b) AND lsb_fill (bsize b)))
      = positions False (bits_list b)"
    using assms(2) by (simp add: lsb_fill_eq bits_of_NOT positions_map_Not bits_list_def)
qed

lemma find_first_bits_eq:
  assumes "bits_inv b" and "0 < bsize b"
  shows "find_first_bits bv b = head_or_npos (positions bv (bits_list b))"
proof (cases "bsize b > width")
  case True
  with assms(1) show ?thesis
    by (rule bits_run_cases)
      (use True in \<open>auto simp: find_first_bits_def positions_replicate upt_conv_Cons\<close>)
next
  case False
  let ?y = "bdata b OR msb_mask (width - bsize b)"
  have "bits_of width ?y = bits_of (bsize b) (bdata b) @ replicate (width - bsize b) True"
    by (rule nth_equalityI) (use False in \<open>auto simp: nth_append bit_simps\<close>)
  then have "positions False (bits_of width ?y) = positions False (bits_list b)"
    using False by (simp add: positions_append positions_replicate bits_list_def)
  then show ?thesis
    using False assms positions_literal(1) [of b]
    by (auto simp: find_first_bits_def find_first_word_eq)
qed

lemma find_last_bits_eq:
  assumes "bits_inv b" and "0 < bsize b"
  shows "find_last_bits bv b = last_or_npos (positions bv (bits_list b))"
proof (cases "bsize b > width")
  case True
  with assms(1) show ?thesis
    by (rule bits_run_cases)
      (use True in \<open>auto simp: find_last_bits_def positions_replicate\<close>)
next
  case False
  then show ?thesis
    using assms positions_literal [of b] by (simp add: find_last_bits_def find_last_word_eq)
qed

lemma filter_less_upt: "filter ((<) i) [0..<n] = [Suc i..<n]"
  by (induction n) auto

lemma find_next_bits_eq:
  assumes "bits_inv b" and "i < bsize b"
  shows "find_next_bits bv b i = head_or_npos (filter ((<) i) (positions bv (bits_list b)))"
proof (cases "i = bsize b - 1")
  case True
  then have "filter ((<) i) (positions bv (bits_list b)) = []"
    by (auto simp: filter_empty_conv dest: positions_less)
  then show ?thesis using True assms(2) by (simp add: find_next_bits_def)
next
  case False
  then have i: "i < bsize b - 1" using assms(2) by simp
  show ?thesis
  proof (cases "bsize b > width")
    case True
    have "head_or_npos [Suc i..<bsize b] = Suc i"
      using i by (subst upt_conv_Cons) simp_all
    with assms(1) True show ?thesis
      by (auto elim!: bits_run_cases simp: find_next_bits_def positions_replicate filter_less_upt)
  next
    case False
    then show ?thesis
      using assms i positions_literal [of b] by (simp add: find_next_bits_def find_next_word_eq)
  qed
qed

lemma rank_bits_eq:
  assumes "bits_inv b"
  shows "rank_bits bv b = count_list (bits_list b) bv"
proof (cases "bsize b > width")
  case True
  with assms show ?thesis
    by (rule bits_run_cases) (use True in \<open>auto simp: rank_bits_def count_list_replicate\<close>)
next
  case False
  then show ?thesis
    using assms positions_literal [of b]
    by (simp add: rank_bits_def rank_word_eq flip: length_positions)
qed

lemma rank_bits_upto_eq:
  assumes "bits_inv b" and "i < bsize b"
  shows "rank_bits_upto bv b i = Some (count_list (take (Suc i) (bits_list b)) bv)"
proof (cases "bsize b > width")
  case True
  with assms(1) show ?thesis
    by (rule bits_run_cases)
      (use True assms in \<open>auto simp: rank_bits_upto_def count_list_replicate take_replicate min_def\<close>)
next
  case False
  then have i: "i < width" using assms by simp
  have "take (Suc i) (bits_list b) = bits_of (Suc i) (bdata b)"
    using False assms(2) by (simp add: bits_list_def take_bits_of)
  moreover have "count_list (bits_of (Suc i) (NOT (bdata b))) True
      = count_list (bits_of (Suc i) (bdata b)) False"
    using i by (simp add: bits_of_NOT count_list_map_Not)
  ultimately show ?thesis
    using False assms(2) i
    by (cases bv) (auto simp: rank_bits_upto_def Let_def popcount_eq rank_word_upto_eq)
qed

text \<open>Selection is exact whenever the requested occurrence exists; for 1-bits it also answers
  \<open>npos\<close> when it does not.\<close>

lemma nth_or_npos_upt: "0 < i \<Longrightarrow> i \<le> n \<Longrightarrow> nth_or_npos [0..<n] i = i - 1"
  by (simp add: nth_or_npos_def)

lemma select_bits_eq:
  assumes "bits_inv b" and "0 < i" and "i \<le> bsize b"
    and "bv \<or> i \<le> count_list (bits_list b) bv"
  shows "select_bits bv b i = Some (nth_or_npos (positions bv (bits_list b)) i)"
proof (cases "bsize b > width")
  case True
  with assms(1) show ?thesis
    by (rule bits_run_cases) (use True assms in \<open>auto simp: select_bits_def positions_replicate
        nth_or_npos_upt count_list_replicate nth_or_npos_def\<close>)
next
  case False
  show ?thesis
  proof (cases bv)
    case True
    then show ?thesis
      using assms False positions_literal(1) [of b] by (simp add: select_bits_def select_word_eq)
  next
    case False
    have "bits_of width (NOT (bdata b)) = map Not (bits_list b)
        @ bits_of (width - bsize b) (drop_bit (bsize b) (NOT (bdata b)))"
      using \<open>\<not> bsize b > width\<close> bits_of_split [of "bsize b" "width - bsize b" "NOT (bdata b)"]
      by (simp add: bits_of_NOT bits_list_def)
    then have "nth_or_npos (positions True (bits_of width (NOT (bdata b)))) i
        = nth_or_npos (positions False (bits_list b)) i"
      using assms False
      by (simp add: positions_append positions_map_Not nth_or_npos_append length_positions)
    then show ?thesis
      using assms False \<open>\<not> bsize b > width\<close> by (simp add: select_bits_def select_word_eq)
  qed
qed

section \<open>The order of bit sequences\<close>

text \<open>\<open>operator<\<close> compares the block and then the length; the class inherits the remaining
  comparisons from \<open>totally_ordered\<close>. It is a linear order, so that bit sequences can be sorted
  and used as keys.\<close>

definition bits_less :: "bits \<Rightarrow> bits \<Rightarrow> bool" where
  "bits_less x y \<longleftrightarrow> bdata x < bdata y \<or> (bdata x = bdata y \<and> bsize x < bsize y)"

instantiation bits_ext :: (linorder) linorder
begin

definition less_bits_ext :: "'a bits_scheme \<Rightarrow> 'a bits_scheme \<Rightarrow> bool" where
  "less_bits_ext x y \<longleftrightarrow> bdata x < bdata y \<or> (bdata x = bdata y \<and>
    (bsize x < bsize y \<or> (bsize x = bsize y \<and> bits.more x < bits.more y)))"

definition less_eq_bits_ext :: "'a bits_scheme \<Rightarrow> 'a bits_scheme \<Rightarrow> bool" where
  "less_eq_bits_ext x y \<longleftrightarrow> x < y \<or> x = y"

instance
  by standard (auto simp: less_bits_ext_def less_eq_bits_ext_def intro: bits.equality)

end

lemma bits_less_iff: "bits_less x y \<longleftrightarrow> x < y"
  by (simp add: bits_less_def less_bits_ext_def)

lemma bits_order_total: "bits_less x y \<or> bits_equal x y \<or> bits_less y x"
  by (auto simp: bits_less_def bits_equal_def)

end
