(* ===== verification/Bitvector.thy ===== *)
theory Bitvector
  imports Bits
begin

text \<open>
  The class \<open>bitvector<uint64_t>\<close> of \<^verbatim>\<open>bitvector.hpp\<close>: a vector of blocks and a size in bits.
  \<open>bv_inv\<close> is the relation between the two fields, \<open>bv_list\<close> the sequence of bits. The bits of
  the last block beyond the size are unspecified: \<open>push_back\<close> and \<open>resize\<close> fill them with copies
  of the last bit. \<open>back()\<close> of an empty block vector is undefined behaviour, here \<open>None\<close>.
\<close>

section \<open>Vectors of blocks\<close>

definition update_back :: "('a \<Rightarrow> 'a) \<Rightarrow> 'a list \<Rightarrow> 'a list option" where
  "update_back f xs = (if xs = [] then None else Some (butlast xs @ [f (last xs)]))"

definition vec_resize :: "'a list \<Rightarrow> nat \<Rightarrow> 'a \<Rightarrow> 'a list" where
  "vec_resize xs n x = take n xs @ replicate (n - length xs) x"

lemma update_back_snoc [simp]: "update_back f (xs @ [x]) = Some (xs @ [f x])"
  by (simp add: update_back_def)

definition concat_bits :: "u64 list \<Rightarrow> bool list" where
  "concat_bits bs = concat (map (bits_of width) bs)"

lemma concat_bits_simps [simp]:
  "concat_bits [] = []"
  "concat_bits (b # bs) = bits_of width b @ concat_bits bs"
  "concat_bits (bs @ cs) = concat_bits bs @ concat_bits cs"
  by (simp_all add: concat_bits_def)

lemma length_concat_bits [simp]: "length (concat_bits bs) = width * length bs"
  by (induction bs) simp_all

lemma concat_bits_replicate:
  "concat_bits (replicate n (if b then - 1 else 0)) = replicate (width * n) b"
  by (induction n) (simp_all add: bits_of_ones bits_of_zero replicate_add)

lemmas concat_bits_ones = concat_bits_replicate [of _ True, simplified]
lemmas concat_bits_zeros = concat_bits_replicate [of _ False, simplified]

lemma concat_bits_map_NOT: "concat_bits (map NOT bs) = map Not (concat_bits bs)"
  by (induction bs) (simp_all add: bits_of_NOT)

lemma concat_bits_inj: "length xs = length ys \<Longrightarrow> concat_bits xs = concat_bits ys \<longleftrightarrow> xs = ys"
  by (induction xs ys rule: list_induct2) (auto simp: u64_eq_iff_bits)

section \<open>The class and its operations\<close>

record bitvector =
  bv_blocks :: "u64 list"
  bv_size :: nat

datatype bv_error = Out_of_range

definition bits_to_blocks :: "nat \<Rightarrow> nat" where
  "bits_to_blocks n = (if n = 0 then 0 else 1 + ((n - 1) div width))"

definition partial_bits :: "bitvector \<Rightarrow> nat" where
  "partial_bits v = bv_size v mod width"

definition bv_new :: bitvector where
  "bv_new = \<lparr>bv_blocks = [], bv_size = 0\<rparr>"

definition bv_make :: "nat \<Rightarrow> bool \<Rightarrow> bitvector" where
  "bv_make n value =
    \<lparr>bv_blocks = replicate (bits_to_blocks n) (if value then all_word else none_word), bv_size = n\<rparr>"

definition bv_empty :: "bitvector \<Rightarrow> bool" where
  "bv_empty v \<longleftrightarrow> bv_size v = 0"

definition bv_resize :: "nat \<Rightarrow> bool \<Rightarrow> bitvector \<Rightarrow> bitvector option" where
  "bv_resize n value v =
    (if n \<le> bv_size v then
       Some \<lparr>bv_blocks = vec_resize (bv_blocks v) (bits_to_blocks n) 0, bv_size = n\<rparr>
     else do {
       let p = partial_bits v;
       bs \<leftarrow> (if p > 0 then
               let m = push_bit p all_word in
               update_back (\<lambda>x. if value then x OR m else x AND NOT m) (bv_blocks v)
             else Some (bv_blocks v));
       if p > 0 \<and> n - bv_size v \<le> width - p then Some \<lparr>bv_blocks = bs, bv_size = n\<rparr>
       else Some \<lparr>bv_blocks =
           vec_resize bs (bits_to_blocks n) (if value then all_word else none_word), bv_size = n\<rparr>
     })"

definition bv_index :: "bitvector \<Rightarrow> nat \<Rightarrow> bool option" where
  "bv_index v i = do {
     require (i < bv_size v);
     require (i div width < length (bv_blocks v));
     Some (bv_blocks v ! (i div width) AND mask_word (i mod width) \<noteq> 0)
   }"

definition bv_set :: "nat \<Rightarrow> bool \<Rightarrow> bitvector \<Rightarrow> bitvector option" where
  "bv_set i x v = do {
     require (i < bv_size v);
     require (i div width < length (bv_blocks v));
     let m = mask_word (i mod width);
     let block = bv_blocks v ! (i div width);
     Some (v\<lparr>bv_blocks := (bv_blocks v)[i div width := if x then block OR m else block AND NOT m]\<rparr>)
   }"

definition bv_flip_at :: "nat \<Rightarrow> bitvector \<Rightarrow> bitvector option" where
  "bv_flip_at i v = do {
     require (i < bv_size v);
     require (i div width < length (bv_blocks v));
     let m = mask_word (i mod width);
     Some (v\<lparr>bv_blocks := (bv_blocks v)[i div width := (bv_blocks v ! (i div width)) XOR m]\<rparr>)
   }"

definition bv_at :: "bitvector \<Rightarrow> nat \<Rightarrow> (bv_error + bool) option" where
  "bv_at v i = (if i \<ge> bv_size v then Some (Inl Out_of_range) else map_option Inr (bv_index v i))"

definition bv_front :: "bitvector \<Rightarrow> bool option" where
  "bv_front v = do { require (\<not> bv_empty v); bv_index v 0 }"

definition bv_back :: "bitvector \<Rightarrow> bool option" where
  "bv_back v = do { require (\<not> bv_empty v); bv_index v (bv_size v - 1) }"

definition bv_push_back :: "bool \<Rightarrow> bitvector \<Rightarrow> bitvector option" where
  "bv_push_back x v = do {
     let p = partial_bits v;
     bs \<leftarrow> (if p = 0 then Some (bv_blocks v @ [if x then all_word else none_word])
           else if x then update_back (\<lambda>b. b OR push_bit p all_word) (bv_blocks v)
           else update_back (\<lambda>b. b AND NOT (push_bit p all_word)) (bv_blocks v));
     Some \<lparr>bv_blocks = bs, bv_size = bv_size v + 1\<rparr>
   }"

definition bv_pop_back :: "bitvector \<Rightarrow> bitvector option" where
  "bv_pop_back v = do {
     require (\<not> bv_empty v);
     Some \<lparr>bv_blocks = (if partial_bits v = 1 then butlast (bv_blocks v) else bv_blocks v),
           bv_size = bv_size v - 1\<rparr>
   }"

definition bv_flip :: "bitvector \<Rightarrow> bitvector" where
  "bv_flip v = v\<lparr>bv_blocks := map NOT (bv_blocks v)\<rparr>"

definition bv_clear :: "bitvector \<Rightarrow> bitvector" where
  "bv_clear v = \<lparr>bv_blocks = [], bv_size = 0\<rparr>"

definition bv_equal :: "bitvector \<Rightarrow> bitvector \<Rightarrow> bool" where
  "bv_equal x y =
    (if bv_size x \<noteq> bv_size y then False
     else if bv_blocks x = [] then True
     else if butlast (bv_blocks x) \<noteq> butlast (bv_blocks y) then False
     else let xlast = last (bv_blocks x) AND lsb_mask (partial_bits x);
              ylast = last (bv_blocks y) AND lsb_mask (partial_bits y)
          in xlast = ylast)"

definition bv_append_block :: "u64 \<Rightarrow> nat \<Rightarrow> bitvector \<Rightarrow> bitvector option" where
  "bv_append_block x n v = do {
     require (n > 0);
     require (n \<le> width);
     let p = partial_bits v;
     bs \<leftarrow> (if p = 0 then Some (bv_blocks v @ [x])
           else do {
             bs \<leftarrow> update_back (\<lambda>l. (l AND lsb_mask p) OR push_bit p x) (bv_blocks v);
             let available = width - p;
             Some (if n > available then bs @ [drop_bit available x] else bs)
           });
     Some \<lparr>bv_blocks = bs, bv_size = bv_size v + n\<rparr>
   }"

fun bv_append_blocks_loop :: "nat \<Rightarrow> u64 list \<Rightarrow> bitvector \<Rightarrow> bitvector option" where
  "bv_append_blocks_loop p [] v = Some v"
| "bv_append_blocks_loop p (x # xs) v = do {
     bs \<leftarrow> update_back (\<lambda>l. (l AND lsb_mask p) OR push_bit p x) (bv_blocks v);
     bv_append_blocks_loop p xs
       \<lparr>bv_blocks = bs @ [drop_bit (width - p) x], bv_size = bv_size v + width\<rparr>
   }"

definition bv_append_blocks :: "u64 list \<Rightarrow> bitvector \<Rightarrow> bitvector option" where
  "bv_append_blocks xs v =
    (let p = partial_bits v in
     if p = 0 then
       let bs = bv_blocks v @ xs in Some \<lparr>bv_blocks = bs, bv_size = length bs * width\<rparr>
     else bv_append_blocks_loop p xs v)"

fun bv_push_all :: "bool list \<Rightarrow> bitvector \<Rightarrow> bitvector option" where
  "bv_push_all [] v = Some v"
| "bv_push_all (x # xs) v = bv_push_back x v \<bind> bv_push_all xs"

definition bv_assign :: "bool list \<Rightarrow> bitvector \<Rightarrow> bitvector option" where
  "bv_assign xs v = bv_push_all xs (v\<lparr>bv_blocks := []\<rparr>)"

definition bv_of_list :: "bool list \<Rightarrow> bitvector option" where
  "bv_of_list xs = bv_assign xs bv_new"

function bv_rank_loop :: "bool \<Rightarrow> nat \<Rightarrow> u64 list \<Rightarrow> nat \<Rightarrow> nat option" where
  "bv_rank_loop bv n p result =
    (if n \<ge> width then
       (case p of [] \<Rightarrow> None
        | b # bs \<Rightarrow> bv_rank_loop bv (n - width) bs
            (result + (if bv then popcount b else width - popcount b)))
     else if n > 0 then
       (case p of [] \<Rightarrow> None
        | b # bs \<Rightarrow> let l = popcount (b AND lsb_mask n) in Some (result + (if bv then l else n - l)))
     else Some result)"
  by pat_completeness auto
termination by (relation "measure (\<lambda>(bv, n, p, result). n)") auto

declare bv_rank_loop.simps [simp del]

definition bv_rank :: "bool \<Rightarrow> bitvector \<Rightarrow> nat option" where
  "bv_rank bv v = bv_rank_loop bv (bv_size v) (bv_blocks v) 0"

section \<open>The invariant and the sequence denoted\<close>

definition bv_inv :: "bitvector \<Rightarrow> bool" where
  "bv_inv v \<longleftrightarrow> length (bv_blocks v) = bits_to_blocks (bv_size v)"

definition bv_list :: "bitvector \<Rightarrow> bool list" where
  "bv_list v = take (bv_size v) (concat_bits (bv_blocks v))"

lemma bits_to_blocks_full: "bits_to_blocks (width * n) = n"
  by (auto simp: bits_to_blocks_def)

lemma bits_to_blocks_partial: "0 < p \<Longrightarrow> p \<le> width \<Longrightarrow> bits_to_blocks (width * n + p) = Suc n"
  by (auto simp: bits_to_blocks_def)

lemma bits_to_blocks_bounds: "n \<le> width * bits_to_blocks n" "width * bits_to_blocks n < n + width"
  by (auto simp: bits_to_blocks_def)

lemma length_bv_list: "bv_inv v \<Longrightarrow> length (bv_list v) = bv_size v"
  using bits_to_blocks_bounds(1) [of "bv_size v"] by (simp add: bv_list_def bv_inv_def)

text \<open>The two shapes of a bit vector, complete and with a partial last block.\<close>

lemma bv_shape:
  assumes "bv_inv v"
  obtains (full) "partial_bits v = 0" "bv_size v = width * length (bv_blocks v)"
      "bv_list v = concat_bits (bv_blocks v)"
  | (partial) bs l p where "partial_bits v = p" "0 < p" "p < width" "bv_blocks v = bs @ [l]"
      "bv_size v = width * length bs + p" "bv_list v = concat_bits bs @ bits_of p l"
proof (cases "partial_bits v = 0")
  case True
  then obtain n where n: "bv_size v = width * n" by (auto simp: partial_bits_def)
  with assms have "length (bv_blocks v) = n" by (simp add: bv_inv_def bits_to_blocks_full)
  with n True show ?thesis by (intro full) (simp_all add: bv_list_def)
next
  case False
  define p n where "p = partial_bits v" and "n = bv_size v div width"
  have p: "0 < p" "p < width" using False by (simp_all add: p_def partial_bits_def)
  have size: "bv_size v = width * n + p" by (simp add: p_def n_def partial_bits_def)
  with assms p have "length (bv_blocks v) = Suc n"
    by (simp add: bv_inv_def bits_to_blocks_partial)
  then obtain bs l where bs: "bv_blocks v = bs @ [l]" "length bs = n"
    by (cases "bv_blocks v" rule: rev_cases) auto
  have "bv_list v = concat_bits bs @ bits_of p l"
    using p bs size by (simp add: bv_list_def take_bits_of)
  with p size bs show ?thesis by (intro partial [of p bs l]) (simp_all add: p_def)
qed

lemma bv_full:
  "v = \<lparr>bv_blocks = bs, bv_size = width * length bs\<rparr> \<Longrightarrow> bv_inv v \<and> bv_list v = concat_bits bs"
  by (simp add: bv_inv_def bv_list_def bits_to_blocks_full)

lemma bv_partial:
  "0 < p \<Longrightarrow> p \<le> width \<Longrightarrow> v = \<lparr>bv_blocks = bs @ [l], bv_size = width * length bs + p\<rparr>
    \<Longrightarrow> bv_inv v \<and> bv_list v = concat_bits bs @ bits_of p l"
  by (simp add: bv_inv_def bv_list_def bits_to_blocks_partial take_bits_of)

lemma bv_new_spec [simp]: "bv_inv bv_new" "bv_list bv_new = []"
  by (simp_all add: bv_new_def bv_inv_def bv_list_def bits_to_blocks_def)

lemma bv_make_spec: "bv_inv (bv_make n x)" "bv_list (bv_make n x) = replicate n x"
  using bits_to_blocks_bounds(1) [of n]
  by (simp_all add: bv_make_def bv_inv_def bv_list_def concat_bits_ones concat_bits_zeros)

section \<open>Every operation refines its list counterpart\<close>

lemma bits_of_or_high:
  assumes "0 < p" and "p \<le> n" and "n \<le> width"
  shows "bits_of n (x OR NOT (mask p)) = bits_of p x @ replicate (n - p) True"
    and "bits_of n (x AND mask p) = bits_of p x @ replicate (n - p) False"
  by (rule nth_equalityI; use assms in \<open>auto simp: nth_append bit_simps\<close>)+

lemma take_vec_resize: "n \<le> length xs \<Longrightarrow> vec_resize xs n x = take n xs"
  by (simp add: vec_resize_def)

lemma vec_resize_grow: "length xs \<le> n \<Longrightarrow> vec_resize xs n x = xs @ replicate (n - length xs) x"
  by (simp add: vec_resize_def)

lemma take_concat_bits: "take (width * n) (concat_bits bs) = concat_bits (take n bs)"
proof (induction n arbitrary: bs)
  case (Suc n)
  then show ?case by (cases bs) simp_all
qed simp

lemma bits_to_blocks_mono: "m \<le> n \<Longrightarrow> bits_to_blocks m \<le> bits_to_blocks n"
  by (auto simp: bits_to_blocks_def div_le_mono)

lemma bv_shrink:
  assumes "bv_inv v" and "n \<le> bv_size v"
  shows "\<exists>w. bv_resize n x v = Some w \<and> bv_inv w \<and> bv_list w = take n (bv_list v)"
proof -
  let ?bs = "vec_resize (bv_blocks v) (bits_to_blocks n) 0"
  have bs: "?bs = take (bits_to_blocks n) (bv_blocks v)"
    using assms bits_to_blocks_mono by (intro take_vec_resize) (simp add: bv_inv_def)
  have "length ?bs = bits_to_blocks n"
    using assms bits_to_blocks_mono by (simp add: bs bv_inv_def)
  moreover have "take n (concat_bits ?bs) = take n (bv_list v)"
    using assms bits_to_blocks_bounds(1) [of n]
    by (simp add: bs bv_list_def min_def flip: take_concat_bits)
  ultimately show ?thesis using assms by (simp add: bv_resize_def bv_inv_def bv_list_def)
qed

lemma bv_grow_blocks:
  assumes "length bs = bits_to_blocks m" and "m = width * length bs" and "m \<le> n"
  shows "bv_inv \<lparr>bv_blocks = vec_resize bs (bits_to_blocks n) (if x then - 1 else 0), bv_size = n\<rparr>"
    and "bv_list \<lparr>bv_blocks = vec_resize bs (bits_to_blocks n) (if x then - 1 else 0), bv_size = n\<rparr>
      = concat_bits bs @ replicate (n - m) x"
proof -
  have len: "length bs \<le> bits_to_blocks n" using assms bits_to_blocks_mono by metis
  then show "bv_inv \<lparr>bv_blocks = vec_resize bs (bits_to_blocks n) (if x then - 1 else 0), bv_size = n\<rparr>"
    by (simp add: bv_inv_def vec_resize_grow)
  have "n - m \<le> width * (bits_to_blocks n - length bs)"
    using assms(2) bits_to_blocks_bounds(1) [of n] by (simp add: right_diff_distrib')
  then show "bv_list \<lparr>bv_blocks = vec_resize bs (bits_to_blocks n) (if x then - 1 else 0), bv_size = n\<rparr>
      = concat_bits bs @ replicate (n - m) x"
    using assms(2,3) len
    by (cases x) (simp_all add: bv_list_def vec_resize_grow concat_bits_ones concat_bits_zeros)
qed

lemma bv_resize_spec:
  assumes "bv_inv v"
  shows "\<exists>w. bv_resize n x v = Some w \<and> bv_inv w
    \<and> bv_list w = take n (bv_list v) @ replicate (n - bv_size v) x"
proof (cases "n \<le> bv_size v")
  case True
  with bv_shrink [OF assms True] show ?thesis by simp
next
  case False
  have take: "take n (bv_list v) = bv_list v" using False assms by (simp add: length_bv_list)
  from assms show ?thesis
  proof (cases rule: bv_shape)
    case full
    have "length (bv_blocks v) = bits_to_blocks (bv_size v)" using assms by (simp add: bv_inv_def)
    note * = bv_grow_blocks [OF this full(2), of n x]
    have "bv_resize n x v = Some
        \<lparr>bv_blocks = vec_resize (bv_blocks v) (bits_to_blocks n) (if x then - 1 else 0), bv_size = n\<rparr>"
      using False full(1) by (simp add: bv_resize_def)
    then show ?thesis using * False full take by auto
  next
    case (partial bs l p)
    define l' where "l' = (if x then l OR push_bit p (- 1) else l AND NOT (push_bit p (- 1)))"
    have l': "bits_of m l' = bits_of p l @ replicate (m - p) x" if "p \<le> m" "m \<le> width" for m
      using that partial(2) by (simp add: l'_def bits_of_or_high)
    show ?thesis
    proof (cases "n - bv_size v \<le> width - p")
      case True
      define m where "m = n - width * length bs"
      have m: "0 < m" "p \<le> m" "m \<le> width" "n = width * length bs + m" "m - p = n - bv_size v"
        using True False partial by (simp_all add: m_def)
      have "bv_resize n x v = Some \<lparr>bv_blocks = bs @ [l'], bv_size = n\<rparr>"
        using False True partial by (auto simp: bv_resize_def l'_def Let_def)
      moreover have "bv_inv \<lparr>bv_blocks = bs @ [l'], bv_size = n\<rparr>
          \<and> bv_list \<lparr>bv_blocks = bs @ [l'], bv_size = n\<rparr> = concat_bits bs @ bits_of m l'"
        by (rule bv_partial [OF m(1,3)]) (simp only: m(4))
      moreover have "concat_bits bs @ bits_of m l' = bv_list v @ replicate (n - bv_size v) x"
        using l' [OF m(2,3)] partial(6) m(5) by simp
      ultimately show ?thesis using take by simp
    next
      case F: False
      let ?bs = "bs @ [l']"
      have size: "width * length ?bs = bv_size v + (width - p)" using partial by simp
      have "bv_resize n x v = Some
          \<lparr>bv_blocks = vec_resize ?bs (bits_to_blocks n) (if x then - 1 else 0), bv_size = n\<rparr>"
        using False F partial by (auto simp: bv_resize_def l'_def Let_def)
      moreover have "length ?bs = bits_to_blocks (width * length ?bs)"
        by (rule bits_to_blocks_full [symmetric])
      note * = bv_grow_blocks [OF this refl, of n x]
      moreover have "replicate (width - p) x @ replicate (n - width * length ?bs) x
          = replicate (n - bv_size v) x"
        using size F partial by (simp add: replicate_append_add)
      ultimately show ?thesis
        using F size partial take l' [of width] by simp
    qed
  qed
qed

lemma bv_push_back_spec:
  assumes "bv_inv v"
  shows "\<exists>w. bv_push_back x v = Some w \<and> bv_inv w \<and> bv_list w = bv_list v @ [x]"
  using assms
proof (cases rule: bv_shape)
  case full
  have "bits_of 1 (if x then - 1 else 0) = [x]" by (simp add: bits_of_ones bits_of_zero)
  then show ?thesis
    using full bv_partial [of 1 _ "bv_blocks v" "if x then - 1 else 0"]
    by (cases x) (simp_all add: bv_push_back_def)
next
  case (partial bs l p)
  have "bits_of (Suc p) (if x then l OR NOT (mask p) else l AND mask p) = bits_of p l @ [x]"
    using partial by (simp add: bits_of_or_high)
  then show ?thesis
    using partial bv_partial [of "Suc p" _ bs "if x then l OR NOT (mask p) else l AND mask p"]
    by (cases x) (simp_all add: bv_push_back_def)
qed

lemma bv_pop_back_spec:
  assumes "bv_inv v" and "0 < bv_size v"
  shows "\<exists>w. bv_pop_back v = Some w \<and> bv_inv w \<and> bv_list w = butlast (bv_list v)"
  using assms(1)
proof (cases rule: bv_shape)
  case full
  then obtain bs l where bs: "bv_blocks v = bs @ [l]"
    using assms(2) by (cases "bv_blocks v" rule: rev_cases) auto
  have "butlast (bits_of width l) = bits_of 63 l"
    by (simp add: butlast_conv_take take_bits_of)
  then show ?thesis
    using full bs bv_partial [of 63 _ bs l]
    by (simp add: bv_pop_back_def bv_empty_def butlast_append add.commute)
next
  case (partial bs l p)
  have butlast: "butlast (bits_of p l) = bits_of (p - 1) l"
    by (simp add: butlast_conv_take take_bits_of)
  show ?thesis
  proof (cases "p = 1")
    case True
    then show ?thesis
      using partial bv_full [of _ bs] butlast
      by (simp add: bv_pop_back_def bv_empty_def butlast_append)
  next
    case False
    then have "0 < p - 1" "p - 1 \<le> width" using partial by simp_all
    then show ?thesis
      using False partial bv_partial [of "p - 1" _ bs l] butlast
      by (simp add: bv_pop_back_def bv_empty_def butlast_append)
  qed
qed

lemma bv_flip_spec:
  assumes "bv_inv v"
  shows "bv_inv (bv_flip v)" and "bv_list (bv_flip v) = map Not (bv_list v)"
  using assms by (simp_all add: bv_flip_def bv_inv_def bv_list_def concat_bits_map_NOT take_map)

lemma bv_append_block_spec:
  assumes "bv_inv v" and "0 < n" and "n \<le> width"
  shows "\<exists>w. bv_append_block x n v = Some w \<and> bv_inv w \<and> bv_list w = bv_list v @ bits_of n x"
  using assms(1)
proof (cases rule: bv_shape)
  case full
  then show ?thesis
    using assms bv_partial [of n _ "bv_blocks v" x] by (simp add: bv_append_block_def)
next
  case (partial bs l p)
  define l' where "l' = (l AND mask p) OR push_bit p x"
  have l': "bits_of (p + m) l' = bits_of p l @ bits_of m x" if "p + m \<le> width" for m
    using that by (simp add: l'_def bits_of_append)
  show ?thesis
  proof (cases "n > width - p")
    case False
    then have "p + n \<le> width" using partial by simp
    with l' [of n] show ?thesis
      using False assms partial bv_partial [of "p + n" _ bs l']
      by (simp add: bv_append_block_def Let_def l'_def lsb_mask_eq add.assoc)
  next
    case True
    define k where "k = n - (width - p)"
    have k: "0 < k" "k \<le> width" "n = (width - p) + k" using True assms partial by (simp_all add: k_def)
    let ?h = "drop_bit (width - p) x"
    have full: "bits_of width l' = bits_of p l @ bits_of (width - p) x"
      using l' [of "width - p"] partial(3) by simp
    have "bits_of n x = bits_of (width - p) x @ bits_of k ?h"
      by (simp only: k(3) bits_of_split)
    then show ?thesis
      using True assms partial k bv_partial [OF k(1,2), of _ "bs @ [l']" ?h] full
      by (simp add: bv_append_block_def Let_def lsb_mask_eq add.assoc add.left_commute flip: l'_def)
  qed
qed

lemma bv_append_blocks_loop_spec:
  assumes "0 < p" and "p < width" and "bv_blocks v = bs @ [l]" and "bv_size v = width * length bs + p"
  shows "\<exists>w. bv_append_blocks_loop p xs v = Some w \<and> bv_inv w
    \<and> bv_list w = concat_bits bs @ bits_of p l @ concat_bits xs"
  using assms(3,4)
proof (induction xs arbitrary: v bs l)
  case Nil
  then show ?case
    using assms(1,2) bv_partial [of p v bs l] by (cases v) simp
next
  case (Cons x xs)
  define l' where "l' = (l AND mask p) OR push_bit p x"
  let ?v = "\<lparr>bv_blocks = (bs @ [l']) @ [drop_bit (width - p) x], bv_size = bv_size v + width\<rparr>"
  have "bits_of (p + (width - p)) l' = bits_of p l @ bits_of (width - p) x"
    unfolding l'_def using assms(2) by (intro bits_of_append) simp
  then have full: "bits_of width l' = bits_of p l @ bits_of (width - p) x"
    using assms(2) by simp
  have "bits_of ((width - p) + p) x = bits_of (width - p) x @ bits_of p (drop_bit (width - p) x)"
    by (rule bits_of_split)
  then have x: "bits_of width x = bits_of (width - p) x @ bits_of p (drop_bit (width - p) x)"
    using assms(2) by simp
  have "bv_append_blocks_loop p (x # xs) v = bv_append_blocks_loop p xs ?v"
    using Cons.prems by (simp add: l'_def lsb_mask_eq)
  moreover have "\<exists>w. bv_append_blocks_loop p xs ?v = Some w \<and> bv_inv w \<and> bv_list w
      = concat_bits (bs @ [l']) @ bits_of p (drop_bit (width - p) x) @ concat_bits xs"
    by (rule Cons.IH) (use Cons.prems in simp_all)
  ultimately show ?case by (simp add: full x)
qed

lemma bv_append_blocks_spec:
  assumes "bv_inv v"
  shows "\<exists>w. bv_append_blocks xs v = Some w \<and> bv_inv w \<and> bv_list w = bv_list v @ concat_bits xs"
  using assms
proof (cases rule: bv_shape)
  case full
  then show ?thesis using bv_full [of _ "bv_blocks v @ xs"] by (simp add: bv_append_blocks_def mult.commute)
next
  case (partial bs l p)
  then show ?thesis
    using bv_append_blocks_loop_spec [of p v bs l xs] by (simp add: bv_append_blocks_def)
qed

lemma bv_push_all_spec:
  "bv_inv v \<Longrightarrow> \<exists>w. bv_push_all xs v = Some w \<and> bv_inv w \<and> bv_list w = bv_list v @ xs"
proof (induction xs arbitrary: v)
  case (Cons x xs)
  from bv_push_back_spec [OF Cons.prems, of x] obtain u
    where u: "bv_push_back x v = Some u" "bv_inv u" "bv_list u = bv_list v @ [x]" by auto
  with Cons.IH [OF u(2)] show ?case by auto
qed simp

lemma bv_of_list_spec: "\<exists>v. bv_of_list xs = Some v \<and> bv_inv v \<and> bv_list v = xs"
proof -
  have "bv_of_list xs = bv_push_all xs bv_new" by (simp add: bv_of_list_def bv_assign_def bv_new_def)
  with bv_push_all_spec [OF bv_new_spec(1), of xs] show ?thesis by simp
qed

section \<open>Element access, counting and equality\<close>

lemma nth_concat_bits:
  "i < width * length bs \<Longrightarrow> concat_bits bs ! i = bit (bs ! (i div width)) (i mod width)"
proof (induction bs arbitrary: i)
  case (Cons b bs)
  show ?case
  proof (cases "i < width")
    case False
    then have "i div width = Suc ((i - width) div width)" "i mod width = (i - width) mod width"
      by (simp_all add: le_div_geq le_mod_geq)
    then show ?thesis using False Cons.IH [of "i - width"] Cons.prems by (simp add: nth_append)
  qed (simp add: nth_append)
qed simp

lemma bv_block_index: "bv_inv v \<Longrightarrow> i < bv_size v \<Longrightarrow> i div width < length (bv_blocks v)"
  using bits_to_blocks_bounds(1) [of "bv_size v"] by (simp add: bv_inv_def less_mult_imp_div_less)

lemma bv_list_nth:
  assumes "bv_inv v" and "i < bv_size v"
  shows "bv_list v ! i = bit (bv_blocks v ! (i div width)) (i mod width)"
proof -
  have "i < width * length (bv_blocks v)"
    using assms bits_to_blocks_bounds(1) [of "bv_size v"] by (simp add: bv_inv_def)
  then show ?thesis using assms(2) by (simp add: bv_list_def nth_concat_bits)
qed

lemma and_mask_word_eq_0: "i < width \<Longrightarrow> x AND mask_word i = 0 \<longleftrightarrow> \<not> bit x i"
  by (auto simp: bit_eq_iff [where 'a = "64 word"] bit_simps)

lemma bv_index_spec:
  assumes "bv_inv v" and "i < bv_size v"
  shows "bv_index v i = Some (bv_list v ! i)"
  using assms by (simp add: bv_index_def bv_block_index bv_list_nth and_mask_word_eq_0)

lemma bv_at_spec:
  assumes "bv_inv v"
  shows "bv_at v i = Some (if i < bv_size v then Inr (bv_list v ! i) else Inl Out_of_range)"
  using assms by (simp add: bv_at_def bv_index_spec)

lemma bv_front_back_spec:
  assumes "bv_inv v" and "0 < bv_size v"
  shows "bv_front v = Some (hd (bv_list v))" and "bv_back v = Some (last (bv_list v))"
proof -
  have "bv_list v \<noteq> []" using assms by (metis length_bv_list less_numeral_extra(3) list.size(3))
  then show "bv_front v = Some (hd (bv_list v))" "bv_back v = Some (last (bv_list v))"
    using assms by (simp_all add: bv_front_def bv_back_def bv_empty_def bv_index_spec hd_conv_nth
        last_conv_nth length_bv_list)
qed

lemma bv_update_block:
  assumes "bv_inv v" and "i < bv_size v"
    and "\<And>j. j < width \<Longrightarrow> bit y j = (if j = i mod width then x
      else bit (bv_blocks v ! (i div width)) j)"
  shows "bv_inv (v\<lparr>bv_blocks := (bv_blocks v)[i div width := y]\<rparr>)"
    and "bv_list (v\<lparr>bv_blocks := (bv_blocks v)[i div width := y]\<rparr>) = (bv_list v)[i := x]"
proof -
  let ?w = "v\<lparr>bv_blocks := (bv_blocks v)[i div width := y]\<rparr>"
  show inv: "bv_inv ?w" using assms(1) by (simp add: bv_inv_def)
  show "bv_list ?w = (bv_list v)[i := x]"
  proof (rule nth_equalityI)
    fix j assume "j < length (bv_list ?w)"
    then have j: "j < bv_size v" using inv by (simp add: length_bv_list)
    have eq: "j = i" if "j div width = i div width" "j mod width = i mod width"
      using that by (metis div_mult_mod_eq)
    have "bv_list ?w ! j = bit ((bv_blocks v)[i div width := y] ! (j div width)) (j mod width)"
      using inv j by (simp add: bv_list_nth)
    also have "\<dots> = (if j = i then x else bv_list v ! j)"
      using assms j bv_block_index [OF assms(1) j] eq
      by (cases "j div width = i div width") (auto simp: bv_list_nth)
    finally show "bv_list ?w ! j = (bv_list v)[i := x] ! j"
      using assms j by (simp add: nth_list_update length_bv_list)
  qed (simp add: length_bv_list inv assms(1))
qed

lemma bv_set_spec:
  assumes "bv_inv v" and "i < bv_size v"
  shows "\<exists>w. bv_set i x v = Some w \<and> bv_inv w \<and> bv_list w = (bv_list v)[i := x]"
proof -
  let ?b = "bv_blocks v ! (i div width)" and ?m = "mask_word (i mod width)"
  have "bit (if x then ?b OR ?m else ?b AND NOT ?m) j = (if j = i mod width then x else bit ?b j)"
    if "j < width" for j
    using that by (auto simp: bit_simps)
  note * = bv_update_block [OF assms this]
  then show ?thesis using assms by (simp add: bv_set_def Let_def bv_block_index)
qed

lemma bv_flip_at_spec:
  assumes "bv_inv v" and "i < bv_size v"
  shows "\<exists>w. bv_flip_at i v = Some w \<and> bv_inv w \<and> bv_list w = (bv_list v)[i := \<not> bv_list v ! i]"
proof -
  let ?b = "bv_blocks v ! (i div width)" and ?m = "mask_word (i mod width)"
  have "bit (?b XOR ?m) j = (if j = i mod width then \<not> bv_list v ! i else bit ?b j)"
    if "j < width" for j
    using that assms by (auto simp: bit_simps bv_list_nth)
  note * = bv_update_block [OF assms this]
  then show ?thesis using assms by (simp add: bv_flip_at_def Let_def bv_block_index)
qed

lemma popcount_complement:
  "(if bv then popcount b else width - popcount b) = count_list (bits_of width b) bv"
  using count_list_bool_total [of "bits_of width b"] by (cases bv) (simp_all add: popcount_eq)

lemma popcount_complement_prefix:
  assumes "n \<le> width"
  shows "(if bv then popcount (b AND lsb_mask n) else n - popcount (b AND lsb_mask n))
    = count_list (bits_of n b) bv"
  using assms count_list_bool_total [of "bits_of n b"]
  by (cases bv) (simp_all add: lsb_mask_eq popcount_mask)

lemma bv_rank_loop_spec:
  "n \<le> width * length p \<Longrightarrow>
    bv_rank_loop bv n p r = Some (r + count_list (take n (concat_bits p)) bv)"
proof (induction bv n p r rule: bv_rank_loop.induct)
  case (1 bv n p r)
  show ?case
  proof (cases p)
    case Nil
    then show ?thesis using "1.prems" by (simp add: bv_rank_loop.simps)
  next
    case (Cons b bs)
    show ?thesis
    proof (cases "n \<ge> width")
      case True
      then show ?thesis
        using 1 Cons popcount_complement [of bv b]
        by (subst bv_rank_loop.simps) (simp split del: if_split)
    next
      case False
      have "bv_rank_loop bv n (b # bs) r = Some (r + (if n > 0 then
          if bv then popcount (b AND lsb_mask n) else n - popcount (b AND lsb_mask n) else 0))"
        using False by (simp add: bv_rank_loop.simps [of bv n "b # bs" r] Let_def)
      then show ?thesis
        using False Cons popcount_complement_prefix [of n bv b]
        by (cases "n = 0") (simp_all add: take_bits_of split del: if_split)
    qed
  qed
qed

lemma bv_rank_spec: "bv_inv v \<Longrightarrow> bv_rank bv v = Some (count_list (bv_list v) bv)"
  using bits_to_blocks_bounds(1) [of "bv_size v"]
  by (simp add: bv_rank_def bv_inv_def bv_list_def bv_rank_loop_spec)

text \<open>Equality is decided exactly for vectors with a partial last block.\<close>

lemma and_mask_eq_iff: "x AND mask p = (y AND mask p :: u64) \<longleftrightarrow> bits_of p x = bits_of p y"
proof
  assume "bits_of p x = bits_of p y"
  then show "x AND mask p = y AND mask p"
    by (intro bit_word_eqI) (auto simp: bits_of_eq_iff bit_simps)
next
  assume *: "x AND mask p = y AND mask p"
  show "bits_of p x = bits_of p y"
  proof (rule bits_of_eqI)
    fix i assume i: "i < p"
    show "bit x i = bit y i"
    proof (cases "i < width")
      case True
      have "bit (x AND mask p) i = bit (y AND mask p) i" using * by simp
      with True i show ?thesis by (simp add: bit_simps)
    qed (auto dest: u64_bit_less)
  qed
qed

lemma bv_equal_partial:
  assumes "bv_inv v" and "bv_inv w" and "bv_size v mod width \<noteq> 0"
  shows "bv_equal v w \<longleftrightarrow> bv_list v = bv_list w"
proof (cases "bv_size v = bv_size w")
  case False
  then show ?thesis using assms by (metis bv_equal_def length_bv_list)
next
  case True
  obtain bs l where v: "bv_blocks v = bs @ [l]"
      "bv_size v = width * length bs + bv_size v mod width"
      "bv_list v = concat_bits bs @ bits_of (bv_size v mod width) l"
    using assms(1) by (cases rule: bv_shape) (use assms(3) in \<open>auto simp: partial_bits_def\<close>)
  obtain cs m where w: "bv_blocks w = cs @ [m]"
      "bv_size w = width * length cs + bv_size w mod width"
      "bv_list w = concat_bits cs @ bits_of (bv_size w mod width) m"
    using assms(2) by (cases rule: bv_shape) (use assms(3) True in \<open>auto simp: partial_bits_def\<close>)
  have len: "length bs = length cs" using v(2) w(2) True by linarith
  have "bv_equal v w \<longleftrightarrow> bs = cs \<and> bits_of (bv_size w mod width) l = bits_of (bv_size w mod width) m"
    by (simp add: bv_equal_def Let_def partial_bits_def lsb_mask_eq and_mask_eq_iff v(1) w(1) True)
  also have "\<dots> \<longleftrightarrow> bv_list v = bv_list w"
    unfolding v(3) w(3) True using len by (simp add: concat_bits_inj)
  finally show ?thesis .
qed

end
