(* ===== verification/Bitmap_Base.thy ===== *)
theory Bitmap_Base
  imports Bitvector
begin

text \<open>
  The bitmap concept of \<^verbatim>\<open>bitmap_base.hpp\<close>. The source states it in a comment and uses it through
  templates; here it is a record of operations, which the generic code takes as an argument, and
  a hierarchy of locales, which states what the generic code relies on. A bit range is the list of
  the bit sequences that the iteration yields.

  \<^item> \<open>appendable\<close>: the modifiers refine appending to a list of bits;
  \<^item> \<open>iterable\<close>: the bit range denotes the bitmap's bits;
  \<^item> \<open>proper\<close>: in addition no sequence of the range is empty.
\<close>

section \<open>The operations and the generic code\<close>

record 'b bitmap_ops =
  bm_new :: 'b
  bm_empty :: "'b \<Rightarrow> bool"
  bm_size :: "'b \<Rightarrow> nat"
  bm_append_bit :: "bool \<Rightarrow> 'b \<Rightarrow> 'b option"
  bm_append_bits :: "bool \<Rightarrow> nat \<Rightarrow> 'b \<Rightarrow> 'b option"
  bm_append_block :: "u64 \<Rightarrow> nat \<Rightarrow> 'b \<Rightarrow> 'b option"
  bm_flip :: "'b \<Rightarrow> 'b option"
  bm_range :: "'b \<Rightarrow> bits list option"

definition max_size :: nat where "max_size = npos - 1"

definition append_bits_seq :: "'b bitmap_ops \<Rightarrow> bits \<Rightarrow> 'b \<Rightarrow> 'b option" where
  "append_bits_seq ops xs b =
    (if is_run xs then bm_append_bits ops (bdata xs \<noteq> 0) (bsize xs) b
     else if \<not> bits_empty xs then bm_append_block ops (bdata xs) (bsize xs) b
     else Some b)"

fun append_range :: "'b bitmap_ops \<Rightarrow> bits list \<Rightarrow> 'b \<Rightarrow> 'b option" where
  "append_range ops [] b = Some b"
| "append_range ops (xs # xss) b = append_bits_seq ops xs b \<bind> append_range ops xss"

definition append_bitmap :: "'b bitmap_ops \<Rightarrow> 'c bitmap_ops \<Rightarrow> 'c \<Rightarrow> 'b \<Rightarrow> 'b option" where
  "append_bitmap ops ops' other b = do {
     require (bm_size ops b + bm_size ops' other \<le> max_size);
     rng \<leftarrow> bm_range ops' other;
     append_range ops rng b
   }"

fun index_range :: "bits list \<Rightarrow> nat \<Rightarrow> nat \<Rightarrow> bool option" where
  "index_range [] i n = None"
| "index_range (xs # xss) i n =
    (if i \<ge> n \<and> i < n + bsize xs then bits_index xs (i - n) else index_range xss i (n + bsize xs))"

definition bitmap_index :: "'b bitmap_ops \<Rightarrow> 'b \<Rightarrow> nat \<Rightarrow> bool option" where
  "bitmap_index ops b i = do {
     require (i < bm_size ops b);
     rng \<leftarrow> bm_range ops b;
     index_range rng i 0
   }"

definition bitmap_not :: "'b bitmap_ops \<Rightarrow> 'b \<Rightarrow> 'b option" where
  "bitmap_not ops b = bm_flip ops b"

text \<open>The iteration of \<^verbatim>\<open>detail/range.hpp\<close>: a range-based \<open>for\<close> loop takes the current sequence and
  advances until the range is done.\<close>

partial_function (option) range_walk ::
    "('r \<Rightarrow> bool) \<Rightarrow> ('r \<Rightarrow> 'r option) \<Rightarrow> ('r \<Rightarrow> bits) \<Rightarrow> 'r \<Rightarrow> bits list option" where
  "range_walk stop step get r =
    (if stop r then Some []
     else do {
       r' \<leftarrow> step r;
       rest \<leftarrow> range_walk stop step get r';
       Some (get r # rest)
     })"

section \<open>Bit ranges\<close>

definition range_list :: "bits list \<Rightarrow> bool list" where
  "range_list cs = concat (map bits_list cs)"

definition range_ok :: "bits list \<Rightarrow> bool" where
  "range_ok cs \<longleftrightarrow> (\<forall>c \<in> set cs. bits_inv c)"

definition range_nonempty :: "bits list \<Rightarrow> bool" where
  "range_nonempty cs \<longleftrightarrow> (\<forall>c \<in> set cs. 0 < bsize c)"

lemma range_list_simps [simp]:
  "range_list [] = []"
  "range_list (c # cs) = bits_list c @ range_list cs"
  "range_list (cs @ ds) = range_list cs @ range_list ds"
  by (simp_all add: range_list_def)

lemma range_ok_simps [simp]:
  "range_ok []"
  "range_ok (c # cs) \<longleftrightarrow> bits_inv c \<and> range_ok cs"
  "range_ok (cs @ ds) \<longleftrightarrow> range_ok cs \<and> range_ok ds"
  by (auto simp: range_ok_def)

lemma range_nonempty_simps [simp]:
  "range_nonempty []"
  "range_nonempty (c # cs) \<longleftrightarrow> 0 < bsize c \<and> range_nonempty cs"
  "range_nonempty (cs @ ds) \<longleftrightarrow> range_nonempty cs \<and> range_nonempty ds"
  by (auto simp: range_nonempty_def)

lemma range_list_Nil_iff: "range_nonempty cs \<Longrightarrow> range_list cs = [] \<longleftrightarrow> cs = []"
  by (cases cs) auto

lemma index_range_eq:
  "range_ok cs \<Longrightarrow> n \<le> i \<Longrightarrow> i < n + length (range_list cs) \<Longrightarrow>
    index_range cs i n = Some (range_list cs ! (i - n))"
proof (induction cs arbitrary: n)
  case (Cons c cs)
  show ?case
  proof (cases "i < n + bsize c")
    case True
    then have "i - n < bsize c" using Cons.prems(2) by linarith
    then show ?thesis using True Cons.prems by (simp add: bits_index_eq nth_append)
  next
    case False
    then have "index_range cs i (n + bsize c) = Some (range_list cs ! (i - (n + bsize c)))"
      using Cons.prems by (intro Cons.IH) simp_all
    moreover have "i - n - bsize c = i - (n + bsize c)" "\<not> i - n < bsize c"
      using False Cons.prems(2) by simp_all
    ultimately show ?thesis using False by (simp add: nth_append)
  qed
qed simp

section \<open>The interfaces\<close>

locale appendable =
  fixes ops :: "'b bitmap_ops" and inv :: "'b \<Rightarrow> bool" and decode :: "'b \<Rightarrow> bool list"
  assumes inv_new: "inv (bm_new ops)"
    and decode_new: "decode (bm_new ops) = []"
    and size_eq: "inv b \<Longrightarrow> bm_size ops b = length (decode b)"
    and empty_iff: "inv b \<Longrightarrow> bm_empty ops b \<longleftrightarrow> decode b = []"
    and append_bit: "inv b \<Longrightarrow>
      \<exists>c. bm_append_bit ops x b = Some c \<and> inv c \<and> decode c = decode b @ [x]"
    and append_bits: "inv b \<Longrightarrow>
      \<exists>c. bm_append_bits ops x n b = Some c \<and> inv c \<and> decode c = decode b @ replicate n x"
    and append_block: "inv b \<Longrightarrow> 0 < n \<Longrightarrow> n \<le> width \<Longrightarrow>
      \<exists>c. bm_append_block ops w n b = Some c \<and> inv c \<and> decode c = decode b @ bits_of n w"
    and flip: "inv b \<Longrightarrow>
      \<exists>c. bm_flip ops b = Some c \<and> inv c \<and> decode c = map Not (decode b)"
begin

lemma append_seq:
  assumes "inv b" and "bits_inv xs"
  shows "\<exists>c. append_bits_seq ops xs b = Some c \<and> inv c \<and> decode c = decode b @ bits_list xs"
proof (cases "is_run xs")
  case True
  then show ?thesis
    using append_bits [OF assms(1), of "bdata xs \<noteq> 0" "bsize xs"]
    by (simp add: append_bits_seq_def bits_list_def is_run_def)
next
  case False
  then show ?thesis
    using append_block [OF assms(1), of "bsize xs" "bdata xs"] assms(1)
    by (cases "bsize xs = 0")
      (simp_all add: append_bits_seq_def bits_list_def is_run_def bits_empty_def)
qed

lemma append_range_spec:
  "inv b \<Longrightarrow> range_ok cs \<Longrightarrow>
    \<exists>c. append_range ops cs b = Some c \<and> inv c \<and> decode c = decode b @ range_list cs"
proof (induction cs arbitrary: b)
  case (Cons x cs)
  then obtain d where d: "append_bits_seq ops x b = Some d" "inv d" "decode d = decode b @ bits_list x"
    using append_seq by fastforce
  from Cons.IH [OF d(2)] Cons.prems(2) d show ?case by auto
qed simp

lemma not_spec: "inv b \<Longrightarrow> \<exists>c. bitmap_not ops b = Some c \<and> inv c \<and> decode c = map Not (decode b)"
  unfolding bitmap_not_def by (rule flip)

lemma size_append_block:
  "inv b \<Longrightarrow> 0 < n \<Longrightarrow> n \<le> width \<Longrightarrow> bm_append_block ops w n b = Some c \<Longrightarrow>
    bm_size ops c = bm_size ops b + n"
  using append_block [of b n w] size_eq by fastforce

end

locale iterable = appendable +
  assumes range_spec: "inv b \<Longrightarrow>
      \<exists>cs. bm_range ops b = Some cs \<and> range_ok cs \<and> range_list cs = decode b"
begin

lemma obtain_range:
  assumes "inv b"
  obtains cs where "bm_range ops b = Some cs" "range_ok cs" "range_list cs = decode b"
  using range_spec [OF assms] by blast

lemma index_spec:
  assumes "inv b" and "i < length (decode b)"
  shows "bitmap_index ops b i = Some (decode b ! i)"
proof -
  obtain cs where cs: "bm_range ops b = Some cs" "range_ok cs" "range_list cs = decode b"
    using assms(1) by (rule obtain_range)
  then show ?thesis
    using assms index_range_eq [of cs 0 i] by (simp add: bitmap_index_def size_eq)
qed

end

locale proper = iterable +
  assumes range_proper: "inv b \<Longrightarrow> bm_range ops b = Some cs \<Longrightarrow> range_nonempty cs"
begin

lemma obtain_proper_range:
  assumes "inv b"
  obtains cs where "bm_range ops b = Some cs" "range_ok cs" "range_nonempty cs"
    "range_list cs = decode b"
  using range_spec [OF assms] range_proper [OF assms] by blast

end

text \<open>Appending one bitmap to another of a possibly different type.\<close>

locale append_pair = src: iterable ops' inv' decode' + dst: appendable ops inv decode
  for ops' :: "'c bitmap_ops" and inv' decode' and ops :: "'b bitmap_ops" and inv decode
begin

lemma append_bitmap_spec:
  assumes "inv b" and "inv' other" and "length (decode b) + length (decode' other) \<le> max_size"
  shows "\<exists>c. append_bitmap ops ops' other b = Some c \<and> inv c \<and> decode c = decode b @ decode' other"
proof -
  obtain cs where cs: "bm_range ops' other = Some cs" "range_ok cs" "range_list cs = decode' other"
    using assms(2) by (rule src.obtain_range)
  then show ?thesis
    using assms dst.append_range_spec [OF assms(1) cs(2)]
    by (simp add: append_bitmap_def src.size_eq dst.size_eq)
qed

end

end
