(* ===== verification/Ewah.thy ===== *)
theory Ewah
  imports Bitmap_Base
begin

text \<open>
  The EWAH bitmap of \<^verbatim>\<open>ewah_bitmap.hpp\<close> and \<^verbatim>\<open>ewah_bitmap.cpp\<close>. The block vector is a sequence of
  segments, each a marker word followed by as many literal (dirty) blocks as its dirty counter says,
  and one last block, which is still being filled and which no marker counts. \<open>closed\<close> is this
  grammar without the last block and \<open>closed_bits\<close> its meaning; \<open>ewah_inv\<close> adds the last block and
  the two counters of the class.
\<close>

section \<open>Marker words\<close>

definition clean_dirty_divide :: nat where
  "clean_dirty_divide = width div 2 - 1"

definition marker_dirty_mask :: u64 where
  "marker_dirty_mask = NOT (push_bit clean_dirty_divide all_word)"

definition marker_dirty_max :: u64 where
  "marker_dirty_max = marker_dirty_mask"

definition marker_clean_mask :: u64 where
  "marker_clean_mask = NOT (marker_dirty_mask OR msb1)"

definition marker_clean_max :: u64 where
  "marker_clean_max = drop_bit clean_dirty_divide marker_clean_mask"

definition marker_type :: "u64 \<Rightarrow> bool" where
  "marker_type block \<longleftrightarrow> block AND msb1 = msb1"

definition set_marker_type :: "u64 \<Rightarrow> bool \<Rightarrow> u64" where
  "set_marker_type block type = (block AND NOT msb1) OR (if type then msb1 else 0)"

definition marker_num_clean :: "u64 \<Rightarrow> u64" where
  "marker_num_clean block = drop_bit clean_dirty_divide (block AND marker_clean_mask)"

definition set_marker_num_clean :: "u64 \<Rightarrow> u64 \<Rightarrow> u64" where
  "set_marker_num_clean block n = (block AND NOT marker_clean_mask) OR push_bit clean_dirty_divide n"

definition marker_num_dirty :: "u64 \<Rightarrow> u64" where
  "marker_num_dirty block = block AND marker_dirty_mask"

definition set_marker_num_dirty :: "u64 \<Rightarrow> u64 \<Rightarrow> u64" where
  "set_marker_num_dirty block n = (block AND NOT marker_dirty_mask) OR n"

lemma divide_eq [simp]: "clean_dirty_divide = 31"
  by (simp add: clean_dirty_divide_def)

lemma bit_dirty_mask [bit_simps]: "bit marker_dirty_mask i \<longleftrightarrow> i < 31"
  by (auto simp: marker_dirty_mask_def bit_simps)

lemma bit_clean_mask [bit_simps]: "bit marker_clean_mask i \<longleftrightarrow> 31 \<le> i \<and> i < 63"
  by (auto simp: marker_clean_mask_def bit_simps)

lemma marker_dirty_max_eq: "marker_dirty_max = mask 31"
  by (rule bit_word_eqI) (auto simp: marker_dirty_max_def bit_simps)

lemma marker_clean_max_eq: "marker_clean_max = mask 32"
  by (rule bit_word_eqI) (auto simp: marker_clean_max_def bit_simps)

lemma marker_type_iff [bit_simps]: "marker_type m \<longleftrightarrow> bit m 63"
proof -
  have "bit (m AND msb1) 63 = bit m 63" and "bit msb1 63" by (simp_all add: bit_simps)
  then have "m AND msb1 = msb1 \<Longrightarrow> bit m 63" by simp
  moreover have "bit m 63 \<Longrightarrow> m AND msb1 = msb1"
    by (rule bit_word_eqI) (auto simp: bit_simps)
  ultimately show ?thesis by (auto simp: marker_type_def)
qed

lemma bit_num_clean [bit_simps]: "bit (marker_num_clean m) i \<longleftrightarrow> i < 32 \<and> bit m (31 + i)"
  by (auto simp: marker_num_clean_def bit_simps)

lemma bit_num_dirty [bit_simps]: "bit (marker_num_dirty m) i \<longleftrightarrow> i < 31 \<and> bit m i"
  by (auto simp: marker_num_dirty_def bit_simps)

lemma marker_fields_type [simp]:
  "marker_type (set_marker_type m b) = b"
  "marker_num_clean (set_marker_type m b) = marker_num_clean m"
  "marker_num_dirty (set_marker_type m b) = marker_num_dirty m"
  by (auto simp: set_marker_type_def bit_simps intro!: bit_word_eqI)

lemma marker_fields_clean [simp]:
  assumes "n \<le> marker_clean_max"
  shows "marker_type (set_marker_num_clean m n) = marker_type m"
    and "marker_num_clean (set_marker_num_clean m n) = n"
    and "marker_num_dirty (set_marker_num_clean m n) = marker_num_dirty m"
  using le_mask_bit [OF _ assms [unfolded marker_clean_max_eq]]
  by (auto simp: set_marker_num_clean_def bit_simps intro!: bit_word_eqI) fastforce+

lemma marker_fields_dirty [simp]:
  assumes "n \<le> marker_dirty_max"
  shows "marker_type (set_marker_num_dirty m n) = marker_type m"
    and "marker_num_clean (set_marker_num_dirty m n) = marker_num_clean m"
    and "marker_num_dirty (set_marker_num_dirty m n) = n"
  using le_mask_bit [OF _ assms [unfolded marker_dirty_max_eq]]
  by (auto simp: set_marker_num_dirty_def bit_simps intro!: bit_word_eqI) fastforce+

lemma marker_zero [simp]:
  "marker_type 0 = False" "marker_num_clean 0 = 0" "marker_num_dirty 0 = 0"
  by (auto simp: bit_simps intro!: bit_word_eqI)

lemma marker_full [simp]:
  "marker_num_clean marker_clean_mask = marker_clean_max" "marker_num_dirty marker_clean_mask = 0"
  by (auto simp: bit_simps marker_clean_max_eq intro!: bit_word_eqI)

lemma num_clean_le: "marker_num_clean m \<le> marker_clean_max"
  by (simp add: marker_clean_max_eq le_mask_iff)
    (auto simp: bit_simps intro!: bit_word_eqI)

lemma num_dirty_le: "marker_num_dirty m \<le> marker_dirty_max"
  by (simp add: marker_dirty_max_eq le_mask_iff)
    (auto simp: bit_simps intro!: bit_word_eqI)

section \<open>The bitmap and its modifiers\<close>

record ewah =
  ewah_blocks :: "u64 list"
  last_marker :: nat
  num_bits :: nat

definition ewah_new :: ewah where
  "ewah_new = \<lparr>ewah_blocks = [], last_marker = 0, num_bits = 0\<rparr>"

definition ewah_size :: "ewah \<Rightarrow> nat" where
  "ewah_size e = num_bits e"

definition ewah_empty :: "ewah \<Rightarrow> bool" where
  "ewah_empty e \<longleftrightarrow> num_bits e = 0"

definition bump_dirty_count :: "ewah \<Rightarrow> ewah option" where
  "bump_dirty_count e = do {
     require (num_bits e mod width = 0);
     require (last_marker e < length (ewah_blocks e));
     let bs = ewah_blocks e;
     let marker = bs ! last_marker e;
     let num_dirty = marker_num_dirty marker;
     if num_dirty = marker_dirty_max then
       let dirty_block = last bs in
       Some (e\<lparr>ewah_blocks := butlast bs @ [marker_num_dirty 1] @ [dirty_block],
               last_marker := length bs - 1\<rparr>)
     else Some (e\<lparr>ewah_blocks := bs[last_marker e := set_marker_num_dirty marker (num_dirty + 1)]\<rparr>)
   }"

definition integrate_last_block :: "ewah \<Rightarrow> ewah option" where
  "integrate_last_block e = do {
     require (length (ewah_blocks e) \<ge> 2);
     require (last_marker e < length (ewah_blocks e) - 1);
     require (num_bits e mod width = 0);
     let bs = ewah_blocks e;
     let last_block = last bs;
     let blocks_after_marker = length bs - last_marker e - 1;
     e' \<leftarrow> (if all_or_none last_block then
         let marker = bs ! last_marker e;
             clean_length = marker_num_clean marker;
             last_block_type = (last_block \<noteq> 0)
         in if blocks_after_marker = 1 \<and> clean_length = 0 then
              Some (e\<lparr>ewah_blocks := butlast (bs[last_marker e :=
                set_marker_num_clean (set_marker_type marker last_block_type) 1])\<rparr>)
            else if blocks_after_marker = 1 \<and> last_block_type = marker_type marker
                \<and> clean_length \<noteq> marker_clean_max then
              Some (e\<lparr>ewah_blocks := butlast (bs[last_marker e :=
                set_marker_num_clean marker (clean_length + 1)])\<rparr>)
            else
              Some (e\<lparr>ewah_blocks := butlast bs @
                        [set_marker_num_clean (set_marker_type 0 last_block_type) 1],
                      last_marker := length bs - 1\<rparr>)
       else bump_dirty_count e);
     require (last_marker e' < length (ewah_blocks e'));
     Some e'
   }"

definition ewah_append_bit :: "bool \<Rightarrow> ewah \<Rightarrow> ewah option" where
  "ewah_append_bit x e = do {
     let partial = num_bits e mod width;
     e \<leftarrow> (if ewah_blocks e = [] then Some (e\<lparr>ewah_blocks := [0] @ [none_word]\<rparr>)
          else if partial = 0 then do {
            e \<leftarrow> integrate_last_block e;
            Some (e\<lparr>ewah_blocks := ewah_blocks e @ [none_word]\<rparr>)
          } else Some e);
     bs \<leftarrow> (if x then update_back (\<lambda>b. b OR push_bit partial lsb1) (ewah_blocks e)
           else Some (ewah_blocks e));
     Some (e\<lparr>ewah_blocks := bs, num_bits := num_bits e + 1\<rparr>)
   }"

text \<open>\<open>append_bits\<close> first completes the last block, then either adds one literal block or turns
  the remaining whole blocks into markers.\<close>

definition ewah_finish_block :: "bool \<Rightarrow> nat \<Rightarrow> ewah \<Rightarrow> (ewah \<times> nat) option" where
  "ewah_finish_block x n e =
    (if ewah_blocks e = [] then Some (e\<lparr>ewah_blocks := [0]\<rparr>, n)
     else do {
       let partial = num_bits e mod width;
       (e, n) \<leftarrow> (if partial > 0 then do {
           let fill = min n (width - partial);
           bs \<leftarrow> (if x then update_back (\<lambda>b. b OR push_bit partial (lsb_mask fill)) (ewah_blocks e)
                 else Some (ewah_blocks e));
           Some (e\<lparr>ewah_blocks := bs, num_bits := num_bits e + fill\<rparr>, n - fill)
         } else Some (e, n));
       if n = 0 then Some (e, n)
       else do { e \<leftarrow> integrate_last_block e; Some (e, n) }
     })"

definition ewah_reuse_marker :: "bool \<Rightarrow> nat \<Rightarrow> ewah \<Rightarrow> ewah \<times> nat" where
  "ewah_reuse_marker x clean_blocks e =
    (let marker = ewah_blocks e ! last_marker e in
     if (last_marker e = length (ewah_blocks e) - 1 \<and> marker_type marker = x)
        \<or> (last_marker e = 0 \<and> marker = 0) then
       let marker_clean_length = unat (marker_num_clean marker);
           available = unat marker_clean_max - marker_clean_length;
           new_blocks = min available clean_blocks;
           marker = set_marker_num_clean marker (of_nat (marker_clean_length + new_blocks));
           marker = set_marker_type marker x
       in (e\<lparr>ewah_blocks := (ewah_blocks e)[last_marker e := marker]\<rparr>, clean_blocks - new_blocks)
     else (e, clean_blocks))"

definition ewah_new_markers :: "bool \<Rightarrow> nat \<Rightarrow> ewah \<Rightarrow> ewah" where
  "ewah_new_markers x clean_blocks e =
    (let marker = ewah_blocks e ! last_marker e;
         bs = (if last_marker e = length (ewah_blocks e) - 1
               then (ewah_blocks e)[last_marker e := set_marker_num_dirty marker 0]
               else ewah_blocks e);
         markers = clean_blocks div unat marker_clean_max;
         last = clean_blocks mod unat marker_clean_max;
         bs = vec_resize bs (length bs + markers) (set_marker_type marker_clean_mask x);
         bs = (if last > 0
               then bs @ [set_marker_type (set_marker_num_clean 0 (of_nat last)) x] else bs)
     in e\<lparr>ewah_blocks := bs, last_marker := length bs - 1\<rparr>)"

definition ewah_append_clean :: "bool \<Rightarrow> nat \<Rightarrow> nat \<Rightarrow> ewah \<Rightarrow> ewah option" where
  "ewah_append_clean x clean_blocks remaining_bits e = do {
     require (last_marker e < length (ewah_blocks e));
     let (e, clean_blocks) = ewah_reuse_marker x clean_blocks e;
     let e = (if clean_blocks > 0 then ewah_new_markers x clean_blocks e else e);
     Some (if remaining_bits > 0 then
         e\<lparr>ewah_blocks := ewah_blocks e @ [if x then lsb_fill remaining_bits else none_word]\<rparr>
       else e)
   }"

definition ewah_append_bits :: "bool \<Rightarrow> nat \<Rightarrow> ewah \<Rightarrow> ewah option" where
  "ewah_append_bits x n e =
    (if n = 0 then Some e
     else do {
       (e, n) \<leftarrow> ewah_finish_block x n e;
       if n = 0 then Some e
       else if n \<le> width then
         Some (e\<lparr>ewah_blocks := ewah_blocks e @ [if x then lsb_fill n else none_word],
                 num_bits := num_bits e + n\<rparr>)
       else do {
         require (n \<ge> width);
         let clean_blocks = n div width;
         let remaining_bits = n mod width;
         (clean_blocks, remaining_bits) \<leftarrow> (if remaining_bits = 0 then do {
             require (clean_blocks > 0);
             Some (clean_blocks - 1, width)
           } else Some (clean_blocks, remaining_bits));
         require (clean_blocks > 0);
         ewah_append_clean x clean_blocks remaining_bits (e\<lparr>num_bits := num_bits e + n\<rparr>)
       }
     })"

definition ewah_make :: "nat \<Rightarrow> bool \<Rightarrow> ewah option" where
  "ewah_make n b = ewah_append_bits b n ewah_new"

definition ewah_append_block :: "u64 \<Rightarrow> nat \<Rightarrow> ewah \<Rightarrow> ewah option" where
  "ewah_append_block value bits e = do {
     require (bits > 0);
     require (bits \<le> width);
     e \<leftarrow> (if ewah_blocks e = [] then Some (e\<lparr>ewah_blocks := [0]\<rparr>)
          else if num_bits e mod width = 0 then integrate_last_block e
          else Some e);
     let partial = num_bits e mod width;
     if partial = 0 then
       Some (e\<lparr>ewah_blocks := ewah_blocks e @ [value AND lsb_fill bits], num_bits := num_bits e + bits\<rparr>)
     else do {
       let unused = width - partial;
       if bits \<le> unused then do {
         bs \<leftarrow> update_back (\<lambda>b. b OR push_bit partial (value AND lsb_fill bits)) (ewah_blocks e);
         Some (e\<lparr>ewah_blocks := bs, num_bits := num_bits e + bits\<rparr>)
       } else do {
         bs \<leftarrow> update_back (\<lambda>b. b OR push_bit partial (value AND lsb_fill unused)) (ewah_blocks e);
         e \<leftarrow> integrate_last_block (e\<lparr>ewah_blocks := bs, num_bits := num_bits e + unused\<rparr>);
         let remaining = bits - unused;
         Some (e\<lparr>ewah_blocks := ewah_blocks e @ [drop_bit unused value AND lsb_fill remaining],
                 num_bits := num_bits e + remaining\<rparr>)
       }
     }
   }"

fun ewah_flip_loop :: "nat \<Rightarrow> nat \<Rightarrow> u64 list \<Rightarrow> u64 list" where
  "ewah_flip_loop i next_marker [] = []"
| "ewah_flip_loop i next_marker (block # bs) =
    (if i = next_marker then
       (if marker_num_clean block > 0 then block XOR msb1 else block)
         # ewah_flip_loop (i + 1) (next_marker + unat (marker_num_dirty block) + 1) bs
     else NOT block # ewah_flip_loop (i + 1) next_marker bs)"

definition ewah_flip :: "ewah \<Rightarrow> ewah option" where
  "ewah_flip e =
    (if ewah_blocks e = [] then Some e
     else do {
       require (length (ewah_blocks e) \<ge> 2);
       let bs = ewah_flip_loop 0 0 (butlast (ewah_blocks e));
       let back = NOT (last (ewah_blocks e));
       let partial = num_bits e mod width;
       let back = (if partial > 0 then back AND lsb_mask partial else back);
       Some (e\<lparr>ewah_blocks := bs @ [back]\<rparr>)
     })"

definition ewah_equal :: "ewah \<Rightarrow> ewah \<Rightarrow> bool" where
  "ewah_equal x y \<longleftrightarrow> ewah_blocks x = ewah_blocks y \<and> num_bits x = num_bits y"

section \<open>The bit range\<close>

text \<open>\<open>ewah_bitmap_range\<close> walks over the blocks. \<open>scan\<close> loads the bit sequence that starts at the
  block \<open>rng_next\<close>; a marker may absorb the compatible markers that follow it. The list of the
  range is what a range-based \<open>for\<close> sees, from the constructor until \<open>done\<close>.\<close>

record ewah_range =
  rng_next :: nat
  rng_dirty :: nat
  rng_bits :: bits

function ewah_merge :: "u64 list \<Rightarrow> u64 \<Rightarrow> nat \<Rightarrow> nat \<Rightarrow> nat \<Rightarrow> nat \<times> nat \<times> nat" where
  "ewah_merge bs data next num_dirty len =
    (if num_dirty = 0 \<and> next + 2 < length bs then
       let next_marker = bs ! (next + 1);
           next_type = marker_type next_marker
       in if (next_type \<and> data = 0) \<or> (\<not> next_type \<and> data \<noteq> 0) then (next, num_dirty, len)
          else ewah_merge bs data (next + 1) (unat (marker_num_dirty next_marker))
                 (len + unat (marker_num_clean next_marker) * width)
     else (next, num_dirty, len))"
  by pat_completeness auto
termination by (relation "measure (\<lambda>(bs, _, next, _, _). length bs - next)") auto

function ewah_scan :: "ewah \<Rightarrow> ewah_range \<Rightarrow> ewah_range option" where
  "ewah_scan bm r = do {
     require (rng_next r < length (ewah_blocks bm));
     let block = ewah_blocks bm ! rng_next r;
     if rng_next r + 1 = length (ewah_blocks bm) then do {
       let partial = num_bits bm mod width;
       b \<leftarrow> mk_bits block (if partial = 0 then width else partial);
       Some (r\<lparr>rng_bits := b\<rparr>)
     } else if rng_dirty r > 0 then do {
       b \<leftarrow> mk_bits block width;
       Some (r\<lparr>rng_dirty := rng_dirty r - 1, rng_bits := b\<rparr>)
     } else do {
       let num_clean = unat (marker_num_clean block);
       let num_dirty = unat (marker_num_dirty block);
       if num_clean = 0 then ewah_scan bm (r\<lparr>rng_next := rng_next r + 1, rng_dirty := num_dirty\<rparr>)
       else do {
         let data = (if marker_type block then all_word else none_word);
         let (next, num_dirty, len) =
           ewah_merge (ewah_blocks bm) data (rng_next r) num_dirty (num_clean * width);
         b \<leftarrow> mk_bits data len;
         Some \<lparr>rng_next = next, rng_dirty = num_dirty, rng_bits = b\<rparr>
       }
     }
   }"
  by pat_completeness auto
termination
  by (relation "measure (\<lambda>(bm, r). length (ewah_blocks bm) - rng_next r)")
    (auto simp: require_def split: if_splits)

definition ewah_range_new :: "ewah \<Rightarrow> ewah_range option" where
  "ewah_range_new bm =
    (let r = \<lparr>rng_next = 0, rng_dirty = 0, rng_bits = empty_bits\<rparr> in
     if \<not> ewah_empty bm then ewah_scan bm r else Some r)"

definition ewah_range_done :: "ewah \<Rightarrow> ewah_range \<Rightarrow> bool" where
  "ewah_range_done bm r \<longleftrightarrow> rng_next r = length (ewah_blocks bm)"

definition ewah_range_next :: "ewah \<Rightarrow> ewah_range \<Rightarrow> ewah_range option" where
  "ewah_range_next bm r = do {
     require (\<not> ewah_range_done bm r);
     let r = r\<lparr>rng_next := rng_next r + 1\<rparr>;
     if rng_next r \<noteq> length (ewah_blocks bm) then ewah_scan bm r else Some r
   }"

declare ewah_merge.simps [simp del]
declare ewah_scan.simps [simp del]

lemma ewah_merge_next: "k \<le> fst (ewah_merge bs data k nd len)"
proof (induction bs data k nd len rule: ewah_merge.induct)
  case (1 bs data k nd len)
  then show ?case
    by (subst ewah_merge.simps) (fastforce simp: Let_def dest: Suc_leD)
qed

lemma ewah_scan_next:
  "ewah_scan bm r = Some r' \<Longrightarrow> rng_next r \<le> rng_next r' \<and> rng_next r < length (ewah_blocks bm)"
proof (induction bm r rule: ewah_scan.induct)
  case (1 bm r)
  have less: "rng_next r < length (ewah_blocks bm)"
    using 1(2) by (subst (asm) ewah_scan.simps) (auto simp: require_bind_Some)
  note scan = 1(2) [unfolded ewah_scan.simps [of bm r] Let_def]
  consider (last) "rng_next r + 1 = length (ewah_blocks bm)"
    | (dirty) "rng_next r + 1 \<noteq> length (ewah_blocks bm)" "rng_dirty r > 0"
    | (marker) "rng_next r + 1 \<noteq> length (ewah_blocks bm)" "\<not> rng_dirty r > 0"
        "unat (marker_num_clean (ewah_blocks bm ! rng_next r)) = 0"
    | (clean) "rng_next r + 1 \<noteq> length (ewah_blocks bm)" "\<not> rng_dirty r > 0"
        "unat (marker_num_clean (ewah_blocks bm ! rng_next r)) \<noteq> 0"
    by blast
  then have "rng_next r \<le> rng_next r'"
  proof cases
    case marker
    then show ?thesis
      using 1(1) [OF _ refl marker(1,2) refl refl marker(3)] scan less by simp
  next
    case clean
    then show ?thesis using scan less ewah_merge_next
      by (auto simp: bind_eq_Some_conv split: prod.splits) (metis fst_conv)+
  qed (use scan less in \<open>auto simp: bind_eq_Some_conv\<close>)
  with less show ?case by simp
qed

lemma ewah_range_next_less:
  "ewah_range_next bm r = Some r' \<Longrightarrow>
    length (ewah_blocks bm) - rng_next r' < length (ewah_blocks bm) - rng_next r"
  by (auto simp: ewah_range_next_def ewah_range_done_def require_def Let_def split: if_splits
      dest!: ewah_scan_next)

function ewah_range_list :: "ewah \<Rightarrow> ewah_range \<Rightarrow> bits list option" where
  "ewah_range_list bm r =
    (if ewah_range_done bm r then Some []
     else do {
       r' \<leftarrow> ewah_range_next bm r;
       rest \<leftarrow> ewah_range_list bm r';
       Some (rng_bits r # rest)
     })"
  by pat_completeness auto
termination
  by (relation "measure (\<lambda>(bm, r). length (ewah_blocks bm) - rng_next r)")
    (simp_all add: ewah_range_next_less)

declare ewah_range_list.simps [simp del]

definition ewah_bit_range :: "ewah \<Rightarrow> bits list option" where
  "ewah_bit_range bm = ewah_range_new bm \<bind> ewah_range_list bm"

definition ewah_ops :: "ewah bitmap_ops" where
  "ewah_ops = \<lparr>bm_new = ewah_new, bm_empty = ewah_empty, bm_size = ewah_size,
     bm_append_bit = ewah_append_bit, bm_append_bits = ewah_append_bits,
     bm_append_block = ewah_append_block, bm_flip = ewah_flip, bm_range = ewah_bit_range\<rparr>"

end
