(* ===== verification/Ewah_Refinement.thy ===== *)
theory Ewah_Refinement
  imports Ewah
begin

text \<open>
  The EWAH modifiers refine lists of bits. \<open>active\<close> describes a bitmap by its last segment and its
  last block, \<open>sealed\<close> the state between the integration of a complete last block and the arrival
  of the next one. Every modifier leads from \<open>active\<close> (or the empty bitmap) through \<open>sealed\<close> back
  to \<open>active\<close>.
\<close>

section \<open>Segments\<close>

abbreviation num_clean :: "u64 \<Rightarrow> nat" where "num_clean m \<equiv> unat (marker_num_clean m)"
abbreviation num_dirty :: "u64 \<Rightarrow> nat" where "num_dirty m \<equiv> unat (marker_num_dirty m)"

definition clean_bits :: "u64 \<Rightarrow> bool list" where
  "clean_bits m = replicate (width * num_clean m) (marker_type m)"

fun closed :: "nat \<Rightarrow> u64 list \<Rightarrow> bool" where
  "closed d [] \<longleftrightarrow> d = 0"
| "closed (Suc d) (b # bs) \<longleftrightarrow> closed d bs"
| "closed 0 (m # bs) \<longleftrightarrow> closed (num_dirty m) bs"

fun closed_bits :: "nat \<Rightarrow> u64 list \<Rightarrow> bool list" where
  "closed_bits d [] = []"
| "closed_bits (Suc d) (b # bs) = bits_of width b @ closed_bits d bs"
| "closed_bits 0 (m # bs) = clean_bits m @ closed_bits (num_dirty m) bs"

definition active_bits :: "nat \<Rightarrow> nat" where
  "active_bits n = (if n mod width = 0 then width else n mod width)"

definition ewah_list :: "ewah \<Rightarrow> bool list" where
  "ewah_list e =
    (if ewah_blocks e = [] then []
     else closed_bits 0 (butlast (ewah_blocks e))
       @ bits_of (active_bits (num_bits e)) (last (ewah_blocks e)))"

lemma closed_append: "closed d xs \<Longrightarrow> closed d (xs @ ys) \<longleftrightarrow> closed 0 ys"
  by (induction d xs rule: closed.induct) auto

lemma closed_bits_append: "closed d xs \<Longrightarrow> closed_bits d (xs @ ys) = closed_bits d xs @ closed_bits 0 ys"
  by (induction d xs rule: closed.induct) auto

lemma closed_literals [simp]:
  "closed (length ds) (ds @ ys) \<longleftrightarrow> closed 0 ys"
  "closed_bits (length ds) (ds @ ys) = concat_bits ds @ closed_bits 0 ys"
  "closed_bits (length ds) ds = concat_bits ds"
  by (induction ds) simp_all

lemma length_closed_bits_mod [simp]: "length (closed_bits d bs) mod width = 0"
proof (induction d bs rule: closed_bits.induct)
  case (2 d b bs)
  then show ?case by simp
next
  case (3 m bs)
  then show ?case by (simp add: clean_bits_def mod_add_eq [symmetric])
qed simp

lemma closed_segment:
  assumes "closed 0 pre" and "length ds = num_dirty m"
  shows "closed 0 (pre @ m # ds)"
    and "closed_bits 0 (pre @ m # ds) = closed_bits 0 pre @ clean_bits m @ concat_bits ds"
  using assms closed_literals(1) [of ds "[]"] by (simp_all add: closed_append closed_bits_append flip: assms(2))

section \<open>The two shapes\<close>

definition sealed :: "ewah \<Rightarrow> u64 list \<Rightarrow> u64 \<Rightarrow> u64 list \<Rightarrow> bool" where
  "sealed e pre m ds \<longleftrightarrow>
    ewah_blocks e = pre @ m # ds \<and> last_marker e = length pre \<and> closed 0 pre
    \<and> length ds = num_dirty m \<and> num_bits e = length (closed_bits 0 (ewah_blocks e))"

definition active :: "ewah \<Rightarrow> u64 list \<Rightarrow> u64 \<Rightarrow> u64 list \<Rightarrow> u64 \<Rightarrow> nat \<Rightarrow> bool" where
  "active e pre m ds act p \<longleftrightarrow>
    ewah_blocks e = pre @ m # ds @ [act] \<and> last_marker e = length pre \<and> closed 0 pre
    \<and> length ds = num_dirty m \<and> num_bits e = length (closed_bits 0 (pre @ m # ds)) + p
    \<and> 0 < p \<and> p \<le> width \<and> act AND mask p = act"

definition ewah_inv :: "ewah \<Rightarrow> bool" where
  "ewah_inv e \<longleftrightarrow> e = ewah_new \<or> (\<exists>pre m ds act p. active e pre m ds act p)"

lemma active_bits_add: "0 < p \<Longrightarrow> p \<le> width \<Longrightarrow> n mod width = 0 \<Longrightarrow> active_bits (n + p) = p"
  by (cases "p = width") (auto simp: active_bits_def mod_add_eq [of n width p, symmetric])

lemma active_list:
  assumes "active e pre m ds act p"
  shows "ewah_list e = closed_bits 0 (pre @ m # ds) @ bits_of p act"
    and "length (ewah_list e) = num_bits e"
proof -
  have "active_bits (num_bits e) = p"
    using assms by (simp add: active_def active_bits_add)
  then show *: "ewah_list e = closed_bits 0 (pre @ m # ds) @ bits_of p act"
    using assms by (simp add: active_def ewah_list_def butlast_append)
  show "length (ewah_list e) = num_bits e"
    using assms by (simp add: * active_def)
qed

lemma active_partial: "active e pre m ds act p \<Longrightarrow> num_bits e mod width = p mod width"
  by (simp add: active_def mod_add_eq [of _ width p, symmetric])

lemma ewah_new_inv [simp]: "ewah_inv ewah_new" "ewah_list ewah_new = []"
  by (simp_all add: ewah_inv_def ewah_list_def ewah_new_def)

lemma sealed_push:
  assumes "sealed e pre m ds" and "0 < p" and "p \<le> width" and "w AND mask p = w"
    and "e' = e\<lparr>ewah_blocks := ewah_blocks e @ [w], num_bits := num_bits e + p\<rparr>"
  shows "ewah_inv e'" and "ewah_list e' = closed_bits 0 (ewah_blocks e) @ bits_of p w"
proof -
  have act: "active e' pre m ds w p"
    using assms by (simp add: sealed_def active_def)
  then show "ewah_inv e'" by (auto simp: ewah_inv_def)
  show "ewah_list e' = closed_bits 0 (ewah_blocks e) @ bits_of p w"
    using active_list(1) [OF act] assms(1) by (simp add: sealed_def)
qed

lemma sealed_fresh: "sealed (ewah_new\<lparr>ewah_blocks := [0]\<rparr>) [] 0 []"
  by (simp add: sealed_def ewah_new_def clean_bits_def)

section \<open>Integration of a complete last block\<close>

lemma sealedI:
  assumes "ewah_blocks e' = pre @ m # ds" and "last_marker e' = length pre" and "closed 0 pre"
    and "length ds = num_dirty m" and "closed_bits 0 (pre @ m # ds) = ewah_list e"
    and "num_bits e' = num_bits e" and "length (ewah_list e) = num_bits e"
    and "integrate_last_block e = Some e'"
  shows "\<exists>e' pre' m' ds'. integrate_last_block e = Some e' \<and> sealed e' pre' m' ds'
    \<and> closed_bits 0 (ewah_blocks e') = ewah_list e"
proof -
  have "sealed e' pre m ds" using assms by (simp add: sealed_def)
  then show ?thesis using assms(1,5,8) by auto
qed

lemma bits_of_homogeneous: "w = 0 \<or> w = - 1 \<Longrightarrow> bits_of width w = replicate width (w \<noteq> 0)"
  by (auto simp: bits_of_zero bits_of_ones)

lemma clean_bits_zero: "marker_num_clean m = 0 \<Longrightarrow> clean_bits m = []"
  by (simp add: clean_bits_def)

lemma one_le_clean_max: "1 \<le> marker_clean_max"
  by (simp add: marker_clean_max_eq mask_eq_exp_minus_1)

lemma unat_clean_max: "unat marker_clean_max = 2 ^ 32 - 1"
  by (simp add: marker_clean_max_eq unat_mask)

lemma unat_dirty_max: "unat marker_dirty_max = 2 ^ 31 - 1"
  by (simp add: marker_dirty_max_eq unat_mask)

lemma unat_Suc_le:
  assumes "x < (y :: u64)"
  shows "x + 1 \<le> y" and "unat (x + 1) = Suc (unat x)"
proof -
  have lt: "unat x < unat y" using assms by (simp add: word_less_nat_alt)
  then have "unat x + 1 < 2 ^ 64" using unsigned_less [of y, where ?'a = nat] by simp
  then show *: "unat (x + 1) = Suc (unat x)"
    by (simp add: unat_word_ariths take_bit_nat_eq_self)
  show "x + 1 \<le> y" using lt by (simp add: word_le_nat_alt *)
qed

lemma integrate_clean:
  assumes "active e pre m ds w width" and "all_or_none w"
  shows "\<exists>e' pre' m' ds'. integrate_last_block e = Some e' \<and> sealed e' pre' m' ds'
    \<and> closed_bits 0 (ewah_blocks e') = ewah_list e"
proof -
  have blocks: "ewah_blocks e = pre @ m # ds @ [w]" "last_marker e = length pre"
    and pre: "closed 0 pre" and ds: "length ds = num_dirty m"
    and bits: "num_bits e = length (closed_bits 0 (pre @ m # ds)) + width"
    using assms(1) by (simp_all add: active_def)
  have mod: "num_bits e mod width = 0" using active_partial [OF assms(1)] by simp
  have w: "w = 0 \<or> w = - 1" using assms(2) by (simp add: all_or_none_iff)
  have list: "ewah_list e = closed_bits 0 pre @ clean_bits m @ concat_bits ds @ replicate width (w \<noteq> 0)"
    using active_list(1) [OF assms(1)] closed_segment [OF pre ds] bits_of_homogeneous [OF w] by simp
  have upd: "(pre @ m # ds @ [w])[length pre := x] = pre @ x # ds @ [w]" for x
    by (simp add: list_update_append)
  consider (first) "ds = []" "marker_num_clean m = 0"
    | (same) "ds = []" "marker_num_clean m \<noteq> 0" "(w \<noteq> 0) = marker_type m"
        "marker_num_clean m \<noteq> marker_clean_max"
    | (new) "\<not> (ds = [] \<and> marker_num_clean m = 0)"
        "\<not> (ds = [] \<and> (w \<noteq> 0) = marker_type m \<and> marker_num_clean m \<noteq> marker_clean_max)"
    by blast
  then show ?thesis
  proof cases
    case first
    let ?m = "set_marker_num_clean (set_marker_type m (w \<noteq> 0)) 1"
    let ?e = "e\<lparr>ewah_blocks := pre @ [?m]\<rparr>"
    have "integrate_last_block e = Some ?e"
      using blocks mod assms(2) first upd
      by (simp add: integrate_last_block_def Let_def butlast_append)
    moreover have "clean_bits ?m = replicate width (w \<noteq> 0)"
      using one_le_clean_max by (simp add: clean_bits_def)
    moreover from this have "closed_bits 0 (pre @ [?m]) = ewah_list e"
      using first pre closed_segment(2) [of pre "[]" ?m] one_le_clean_max
      by (simp add: list closed_bits_append clean_bits_zero)
    ultimately show ?thesis
      using blocks pre ds first one_le_clean_max active_list(2) [OF assms(1)]
      by (intro sealedI [where e' = ?e and m = ?m and ds = "[]"]) simp_all
  next
    case same
    let ?m = "set_marker_num_clean m (marker_num_clean m + 1)"
    let ?e = "e\<lparr>ewah_blocks := pre @ [?m]\<rparr>"
    have less: "marker_num_clean m < marker_clean_max"
      using same(4) num_clean_le [of m] by simp
    note suc = unat_Suc_le [OF less]
    have "integrate_last_block e = Some ?e"
      using blocks mod assms(2) same upd
      by (simp add: integrate_last_block_def Let_def butlast_append)
    moreover have "clean_bits ?m = clean_bits m @ replicate width (w \<noteq> 0)"
      using suc same(3) by (simp add: clean_bits_def replicate_append_add)
    moreover from this have "closed_bits 0 (pre @ [?m]) = ewah_list e"
      using same pre suc by (simp add: list closed_bits_append)
    ultimately show ?thesis
      using blocks pre ds same suc active_list(2) [OF assms(1)]
      by (intro sealedI [where e' = ?e and m = ?m and ds = "[]"]) simp_all
  next
    case new
    let ?m = "set_marker_num_clean (set_marker_type 0 (w \<noteq> 0)) 1"
    let ?e = "e\<lparr>ewah_blocks := (pre @ m # ds) @ [?m], last_marker := length (pre @ m # ds)\<rparr>"
    have "integrate_last_block e = Some ?e"
      using blocks mod assms(2) new
      by (auto simp: integrate_last_block_def Let_def butlast_append)
    moreover have "clean_bits ?m = replicate width (w \<noteq> 0)"
      using one_le_clean_max by (simp add: clean_bits_def)
    moreover from this have "closed_bits 0 ((pre @ m # ds) @ [?m]) = ewah_list e"
      using closed_segment [OF pre ds] one_le_clean_max
      by (simp only: closed_bits_append list) simp
    ultimately show ?thesis
      using closed_segment(1) [OF pre ds] one_le_clean_max active_list(2) [OF assms(1)]
      by (intro sealedI [where e' = ?e and m = ?m and ds = "[]" and pre = "pre @ m # ds"]) simp_all
  qed
qed

lemma integrate_dirty:
  assumes "active e pre m ds w width" and "\<not> all_or_none w"
  shows "\<exists>e' pre' m' ds'. integrate_last_block e = Some e' \<and> sealed e' pre' m' ds'
    \<and> closed_bits 0 (ewah_blocks e') = ewah_list e"
proof -
  have blocks: "ewah_blocks e = pre @ m # ds @ [w]" "last_marker e = length pre"
    and pre: "closed 0 pre" and ds: "length ds = num_dirty m"
    using assms(1) by (simp_all add: active_def)
  have mod: "num_bits e mod width = 0" using active_partial [OF assms(1)] by simp
  have list: "ewah_list e = closed_bits 0 pre @ clean_bits m @ concat_bits ds @ bits_of width w"
    using active_list(1) [OF assms(1)] closed_segment [OF pre ds] by simp
  show ?thesis
  proof (cases "marker_num_dirty m = marker_dirty_max")
    case True
    let ?m = "marker_num_dirty 1"
    let ?e = "e\<lparr>ewah_blocks := (pre @ m # ds) @ ?m # [w], last_marker := length (pre @ m # ds)\<rparr>"
    have one: "?m = 1" by (auto simp: bit_simps intro!: bit_word_eqI)
    have clean: "marker_num_clean 1 = 0" by (auto simp: bit_simps intro!: bit_word_eqI)
    have "integrate_last_block e = Some ?e"
      using blocks mod assms(2) True
      by (simp add: integrate_last_block_def bump_dirty_count_def Let_def butlast_append)
    moreover have "closed_bits 0 ((pre @ m # ds) @ ?m # [w]) = ewah_list e"
      using closed_segment [OF pre ds] one clean
      by (simp only: closed_bits_append list) (simp add: clean_bits_zero)
    ultimately show ?thesis
      using closed_segment(1) [OF pre ds] one active_list(2) [OF assms(1)]
      by (intro sealedI [where e' = ?e and m = ?m and ds = "[w]" and pre = "pre @ m # ds"]) simp_all
  next
    case False
    let ?m = "set_marker_num_dirty m (marker_num_dirty m + 1)"
    let ?e = "e\<lparr>ewah_blocks := pre @ ?m # ds @ [w]\<rparr>"
    have less: "marker_num_dirty m < marker_dirty_max"
      using False num_dirty_le [of m] by simp
    note suc = unat_Suc_le [OF less]
    have len: "length (ds @ [w]) = num_dirty ?m" using suc ds by simp
    have "integrate_last_block e = Some ?e"
      using blocks mod assms(2) False
      by (simp add: integrate_last_block_def bump_dirty_count_def Let_def list_update_append)
    moreover have "closed_bits 0 (pre @ ?m # ds @ [w]) = ewah_list e"
      using closed_segment(2) [OF pre len] suc by (simp add: list clean_bits_def)
    ultimately show ?thesis
      using blocks pre len active_list(2) [OF assms(1)]
      by (intro sealedI [where e' = ?e and m = ?m and ds = "ds @ [w]"]) simp_all
  qed
qed

lemma integrate_spec:
  assumes "active e pre m ds w width"
  obtains e' pre' m' ds' where "integrate_last_block e = Some e'" "sealed e' pre' m' ds'"
    "closed_bits 0 (ewah_blocks e') = ewah_list e"
  using integrate_clean [OF assms] integrate_dirty [OF assms] by blast

section \<open>Appending\<close>

lemma ewah_cases:
  assumes "ewah_inv e"
  obtains (new) "e = ewah_new" | (active) pre m ds act p where "active e pre m ds act p"
  using assms by (auto simp: ewah_inv_def)

lemma active_not_new: "active e pre m ds act p \<Longrightarrow> ewah_blocks e \<noteq> []"
  by (simp add: active_def)

lemma ewah_num_bits: "ewah_inv e \<Longrightarrow> num_bits e = length (ewah_list e)"
  by (elim ewah_cases) (simp_all add: active_list(2), simp add: ewah_new_def)

lemma active_extend:
  assumes "active e pre m ds act p" and "0 < k" and "p + k \<le> width" and "w AND mask k = w"
  defines "e' \<equiv> e\<lparr>ewah_blocks := pre @ m # ds @ [act OR push_bit p w], num_bits := num_bits e + k\<rparr>"
  shows "active e' pre m ds (act OR push_bit p w) (p + k)"
    and "ewah_inv e'"
    and "ewah_list e' = ewah_list e @ bits_of k w"
    and "update_back (\<lambda>b. b OR push_bit p w) (ewah_blocks e) = Some (ewah_blocks e')"
    and "w = 0 \<Longrightarrow> ewah_blocks e' = ewah_blocks e"
proof -
  have act: "act AND mask p = act" using assms(1) by (simp add: active_def)
  have "(act OR push_bit p w) AND mask (p + k) = act OR push_bit p w"
    using mask_clear_bit [OF act] mask_clear_bit [OF assms(4)]
    by (intro mask_clearI) (auto simp: bit_simps)
  then show *: "active e' pre m ds (act OR push_bit p w) (p + k)"
    using assms(1-3) by (simp add: active_def e'_def)
  then show "ewah_inv e'" by (auto simp: ewah_inv_def)
  show "ewah_list e' = ewah_list e @ bits_of k w"
    using active_list(1) [OF *] active_list(1) [OF assms(1)] bits_of_append_clear [OF assms(3) act]
    by simp
  show "update_back (\<lambda>b. b OR push_bit p w) (ewah_blocks e) = Some (ewah_blocks e')"
    using assms(1) by (simp add: active_def e'_def update_back_def butlast_append)
  show "w = 0 \<Longrightarrow> ewah_blocks e' = ewah_blocks e"
    using assms(1) by (simp add: active_def e'_def)
qed

lemma bits_of_fill: "k \<le> width \<Longrightarrow> bits_of k (if x then mask k else 0) = replicate k x"
  by (auto simp: bits_of_zero intro!: nth_equalityI simp: bit_simps)

lemma fill_and_mask: "(if x then mask k else 0) AND mask k = (if x then mask k else (0 :: u64))"
  by simp

lemma bits_of_one: "bits_of (Suc 0) (if x then 1 else 0) = [x]"
  by (simp add: bits_of_def)

lemma one_and_mask: "(if x then 1 else 0) AND mask (Suc 0) = (if x then 1 else (0 :: u64))"
  by (simp add: mask_Suc_0)

lemma ewah_append_bit_sealed:
  fixes x :: bool
  assumes "sealed e pre m ds"
  defines "e' \<equiv> e\<lparr>ewah_blocks := ewah_blocks e @ [if x then 1 else 0], num_bits := num_bits e + 1\<rparr>"
  shows "ewah_inv e'" and "ewah_list e' = closed_bits 0 (ewah_blocks e) @ [x]"
  using sealed_push [OF assms(1), of "Suc 0" "if x then 1 else 0" e'] one_and_mask [of x] bits_of_one [of x]
  by (simp_all add: e'_def)

lemma ewah_append_bit_spec:
  assumes "ewah_inv e"
  shows "\<exists>e'. ewah_append_bit x e = Some e' \<and> ewah_inv e' \<and> ewah_list e' = ewah_list e @ [x]"
  using assms
proof (cases rule: ewah_cases)
  case new
  then show ?thesis
    using ewah_append_bit_sealed [OF sealed_fresh, of x]
    by (cases x)
      (simp_all add: ewah_append_bit_def ewah_new_def update_back_def lsb1_def clean_bits_def ewah_list_def)
next
  case (active pre m ds act p)
  have ne: "ewah_blocks e \<noteq> []" using active by (simp add: active_def)
  show ?thesis
  proof (cases "p = width")
    case True
    then obtain e1 pre1 m1 ds1 where e1: "integrate_last_block e = Some e1"
        "sealed e1 pre1 m1 ds1" "closed_bits 0 (ewah_blocks e1) = ewah_list e"
      using active integrate_spec by metis
    have "num_bits e mod width = 0" using active_partial [OF active] True by simp
    then show ?thesis
      using ewah_append_bit_sealed [OF e1(2), of x] e1(1,3) ne
      by (cases x) (simp_all add: ewah_append_bit_def lsb1_def)
  next
    case False
    then have p: "p + 1 \<le> width" "num_bits e mod width = p" "p > 0"
      using active active_partial [OF active] by (simp_all add: active_def)
    have w: "(if x then 1 else 0) AND mask 1 = (if x then 1 else (0 :: u64))"
      using one_and_mask [of x] by simp
    note ext = active_extend [OF active _ p(1) w]
    show ?thesis
      using ext(2-5) p ne bits_of_one [of x]
      by (cases x) (simp_all add: ewah_append_bit_def lsb1_def)
  qed
qed

lemma ewah_append_block_sealed:
  fixes v :: u64
  assumes "sealed e pre m ds" and "0 < n" and "n \<le> width"
  defines "e' \<equiv> e\<lparr>ewah_blocks := ewah_blocks e @ [v AND mask n], num_bits := num_bits e + n\<rparr>"
  shows "ewah_inv e'" and "ewah_list e' = closed_bits 0 (ewah_blocks e) @ bits_of n v"
  using sealed_push [OF assms(1-3), of "v AND mask n" e'] assms(3)
  by (simp_all add: e'_def and.assoc bits_of_mask)

lemma sealed_mod: "sealed e pre m ds \<Longrightarrow> num_bits e mod width = 0"
  by (simp add: sealed_def)

lemma ewah_append_block_spec:
  assumes "ewah_inv e" and "0 < n" and "n \<le> width"
  shows "\<exists>e'. ewah_append_block v n e = Some e' \<and> ewah_inv e' \<and> ewah_list e' = ewah_list e @ bits_of n v"
  using assms(1)
proof (cases rule: ewah_cases)
  case new
  then show ?thesis
    using ewah_append_block_sealed [OF sealed_fresh assms(2,3), of v] assms(2,3)
    by (simp add: ewah_append_block_def ewah_new_def lsb_fill_eq clean_bits_def ewah_list_def)
next
  case (active pre m ds act p)
  have ne: "ewah_blocks e \<noteq> []" using active by (simp add: active_def)
  show ?thesis
  proof (cases "p = width")
    case True
    then obtain e1 pre1 m1 ds1 where e1: "integrate_last_block e = Some e1"
        "sealed e1 pre1 m1 ds1" "closed_bits 0 (ewah_blocks e1) = ewah_list e"
      using active integrate_spec by metis
    have "num_bits e mod width = 0" using active_partial [OF active] True by simp
    then show ?thesis
      using ewah_append_block_sealed [OF e1(2) assms(2,3), of v] e1(1,3) ne assms sealed_mod [OF e1(2)]
      by (simp add: ewah_append_block_def lsb_fill_eq)
  next
    case False
    then have p: "p < width" "num_bits e mod width = p" "p > 0"
      using active active_partial [OF active] by (simp_all add: active_def)
    show ?thesis
    proof (cases "n \<le> width - p")
      case True
      then have pn: "p + n \<le> width" using p by simp
      have w: "(v AND mask n) AND mask n = v AND mask n" by (simp add: and.assoc)
      note ext = active_extend [OF active assms(2) pn w]
      show ?thesis
        using ext(2-4) True p ne assms
        by (simp add: ewah_append_block_def lsb_fill_eq bits_of_mask)
    next
      case F: False
      define u where "u = width - p"
      have u: "0 < u" "p + u = width" "u < n" "u \<le> width" using p F by (simp_all add: u_def)
      have w: "(v AND mask u) AND mask u = v AND mask u" by (simp add: and.assoc)
      note ext = active_extend [OF active u(1) eq_refl [OF u(2)] w]
      let ?e = "e\<lparr>ewah_blocks := pre @ m # ds @ [act OR push_bit p (v AND mask u)], num_bits := num_bits e + u\<rparr>"
      obtain e1 pre1 m1 ds1 where e1: "integrate_last_block ?e = Some e1"
        "sealed e1 pre1 m1 ds1" "closed_bits 0 (ewah_blocks e1) = ewah_list ?e"
        using integrate_spec ext(1) u(2) by metis
      have r: "0 < n - u" "n - u \<le> width" using u assms(3) by simp_all
      have "bits_of (u + (n - u)) v = bits_of u v @ bits_of (n - u) (drop_bit u v)"
        by (rule bits_of_split)
      then have v: "bits_of n v = bits_of u v @ bits_of (n - u) (drop_bit u v)"
        using u(3) by simp
      show ?thesis
        using ewah_append_block_sealed [OF e1(2) r, of "drop_bit u v"] e1(1,3) ext(3,4) F p ne assms u r v
        by (simp add: ewah_append_block_def lsb_fill_eq bits_of_mask Let_def flip: u_def)
    qed
  qed
qed

section \<open>Appending runs\<close>

lemma lsb_fill_if: "n \<le> width \<Longrightarrow> (if x then lsb_fill n else none_word) = (if x then mask n else 0)"
  by (simp add: lsb_fill_eq)

lemma finish_block_spec:
  assumes "ewah_inv e" and "0 < n"
  shows "\<exists>e' n'. ewah_finish_block x n e = Some (e', n') \<and> n' \<le> n
    \<and> (n' = 0 \<longrightarrow> ewah_inv e' \<and> ewah_list e' = ewah_list e @ replicate n x)
    \<and> (0 < n' \<longrightarrow> (\<exists>pre m ds. sealed e' pre m ds)
        \<and> closed_bits 0 (ewah_blocks e') = ewah_list e @ replicate (n - n') x)"
  using assms(1)
proof (cases rule: ewah_cases)
  case new
  then show ?thesis
    using sealed_fresh assms(2)
    by (auto simp: ewah_finish_block_def ewah_new_def clean_bits_def ewah_list_def)
next
  case (active pre m ds act p)
  have ne: "ewah_blocks e \<noteq> []" using active by (simp add: active_def)
  show ?thesis
  proof (cases "p = width")
    case True
    then obtain e1 pre1 m1 ds1 where e1: "integrate_last_block e = Some e1"
        "sealed e1 pre1 m1 ds1" "closed_bits 0 (ewah_blocks e1) = ewah_list e"
      using active integrate_spec by metis
    have "num_bits e mod width = 0" using active_partial [OF active] True by simp
    then show ?thesis using e1 ne assms(2) by (auto simp: ewah_finish_block_def)
  next
    case False
    then have p: "p < width" "num_bits e mod width = p" "p > 0"
      using active active_partial [OF active] by (simp_all add: active_def)
    define k where "k = min n (width - p)"
    have k: "0 < k" "p + k \<le> width" "k \<le> width" "k \<le> n" "n - k \<noteq> 0 \<Longrightarrow> p + k = width"
      using p assms(2) by (auto simp: k_def)
    let ?w = "if x then mask k else 0 :: u64"
    let ?e = "e\<lparr>ewah_blocks := pre @ m # ds @ [act OR push_bit p ?w], num_bits := num_bits e + k\<rparr>"
    note ext = active_extend [OF active k(1,2) fill_and_mask [where x = x]]
    have finish: "ewah_finish_block x n e = (if n - k = 0 then Some (?e, 0)
        else integrate_last_block ?e \<bind> (\<lambda>e. Some (e, n - k)))"
      using ext(4,5) p ne
      by (cases x) (simp_all add: ewah_finish_block_def Let_def lsb_mask_eq flip: k_def)
    have list: "ewah_list ?e = ewah_list e @ replicate k x"
      using ext(3) bits_of_fill [OF k(3), of x] by simp
    show ?thesis
    proof (cases "n - k = 0")
      case True
      then have "k = n" using k(4) by simp
      then show ?thesis using finish ext(2) list True by auto
    next
      case F: False
      then obtain e1 pre1 m1 ds1 where e1: "integrate_last_block ?e = Some e1"
        "sealed e1 pre1 m1 ds1" "closed_bits 0 (ewah_blocks e1) = ewah_list ?e"
        using integrate_spec ext(1) k(5) by metis
      then show ?thesis using finish F list k(4) by auto
    qed
  qed
qed

lemma ewah_invI:
  assumes "ewah_blocks e = bs @ [w]" and "bs = pre @ m # ds" and "last_marker e = length pre"
    and "closed 0 pre" and "length ds = num_dirty m" and "num_bits e = length (closed_bits 0 bs) + p"
    and "0 < p" and "p \<le> width" and "w AND mask p = w"
  shows "ewah_inv e \<and> ewah_list e = closed_bits 0 bs @ bits_of p w"
proof -
  have "active e pre m ds w p" using assms by (simp add: active_def)
  then show ?thesis using active_list(1) assms(2) by (auto simp: ewah_inv_def)
qed

lemma closed_full_markers:
  "closed 0 (replicate k (set_marker_type marker_clean_mask x) @ ys) \<longleftrightarrow> closed 0 ys"
  "closed_bits 0 (replicate k (set_marker_type marker_clean_mask x) @ ys)
    = replicate (width * unat marker_clean_max * k) x @ closed_bits 0 ys"
  by (induction k) (simp_all add: clean_bits_def replicate_add)

text \<open>The markers that \<open>append_clean\<close> appends denote exactly \<open>clean\<close> whole blocks.\<close>

definition clean_markers :: "bool \<Rightarrow> nat \<Rightarrow> u64 list" where
  "clean_markers x clean =
    replicate (clean div unat marker_clean_max) (set_marker_type marker_clean_mask x)
    @ (if clean mod unat marker_clean_max > 0
       then [set_marker_type (set_marker_num_clean 0 (of_nat (clean mod unat marker_clean_max))) x]
       else [])"

lemma unat_of_nat_clean:
  assumes "n \<le> unat marker_clean_max"
  shows "unat (of_nat n :: u64) = n" and "(of_nat n :: u64) \<le> marker_clean_max"
proof -
  have "n < 2 ^ 64" using assms unat_clean_max by simp
  then show *: "unat (of_nat n :: u64) = n" by (simp add: unat_of_nat take_bit_nat_eq_self)
  then show "(of_nat n :: u64) \<le> marker_clean_max" using assms by (simp add: word_le_nat_alt)
qed

lemma clean_markers_spec:
  "closed 0 (clean_markers x clean)"
  "closed_bits 0 (clean_markers x clean) = replicate (width * clean) x"
proof -
  let ?M = "unat marker_clean_max" and ?r = "clean mod unat marker_clean_max"
  have "?r \<le> ?M" using unat_clean_max by (intro less_imp_le mod_less_divisor) simp
  note r = unat_of_nat_clean [OF this]
  show "closed 0 (clean_markers x clean)"
    using r closed_full_markers(1) [of _ x "[]"] by (simp add: clean_markers_def closed_full_markers)
  have "width * ?M * (clean div ?M) + width * ?r = width * clean"
    by (metis distrib_left mult.assoc mult_div_mod_eq)
  then show "closed_bits 0 (clean_markers x clean) = replicate (width * clean) x"
    using r closed_full_markers(2) [of "clean div ?M" x "[]"]
    by (cases "?r = 0")
      (simp_all add: clean_markers_def closed_full_markers clean_bits_def replicate_append_add)
qed

lemma clean_markers_last:
  assumes "0 < clean"
  obtains ms k where "clean_markers x clean = ms @ [k]" "closed 0 ms" "num_dirty k = 0"
proof (cases "clean mod unat marker_clean_max > 0")
  case True
  then have "clean mod unat marker_clean_max \<le> unat marker_clean_max"
    using unat_clean_max by (intro less_imp_le mod_less_divisor) simp
  note r = unat_of_nat_clean [OF this]
  show ?thesis
    using True r closed_full_markers(1) [of _ x "[]"]
    by (intro that [of "replicate (clean div unat marker_clean_max) (set_marker_type marker_clean_mask x)"
          "set_marker_type (set_marker_num_clean 0 (of_nat (clean mod unat marker_clean_max))) x"])
      (simp_all add: clean_markers_def)
next
  case False
  then have "clean div unat marker_clean_max \<noteq> 0" using assms div_mod_decomp
    by (metis add_0 mult_0_right mult.commute neq0_conv mod_div_decomp mult_eq_0_iff)
  then obtain k where "clean div unat marker_clean_max = Suc k" by (cases "clean div unat marker_clean_max") auto
  then show ?thesis
    using False closed_full_markers(1) [of k x "[]"]
    by (intro that [of "replicate k (set_marker_type marker_clean_mask x)"
          "set_marker_type marker_clean_mask x"])
      (simp_all add: clean_markers_def replicate_append_same)
qed

definition segments :: "ewah \<Rightarrow> u64 list \<Rightarrow> u64 \<Rightarrow> u64 list \<Rightarrow> bool" where
  "segments e pre m ds \<longleftrightarrow> ewah_blocks e = pre @ m # ds \<and> last_marker e = length pre \<and> closed 0 pre
    \<and> length ds = num_dirty m"

lemma segments_bits:
  "segments e pre m ds \<Longrightarrow>
    closed_bits 0 (ewah_blocks e) = closed_bits 0 pre @ clean_bits m @ concat_bits ds"
  by (simp add: segments_def closed_segment)

lemma reuse_marker_spec:
  assumes "segments e pre m ds" and "ewah_reuse_marker x clean e = (e1, c1)"
  shows "\<exists>m1. segments e1 pre m1 ds \<and> c1 \<le> clean \<and> num_bits e1 = num_bits e
    \<and> closed_bits 0 (ewah_blocks e1) = closed_bits 0 (ewah_blocks e) @ replicate (width * (clean - c1)) x"
proof -
  have blocks: "ewah_blocks e = pre @ m # ds" "last_marker e = length pre" and ds: "length ds = num_dirty m"
    using assms(1) by (simp_all add: segments_def)
  define reuse where "reuse \<longleftrightarrow> (ds = [] \<and> marker_type m = x) \<or> (pre = [] \<and> m = 0)"
  define new where "new = min (unat marker_clean_max - num_clean m) clean"
  define m1 where "m1 = set_marker_type (set_marker_num_clean m (of_nat (num_clean m + new))) x"
  have reuse: "(last_marker e = length (ewah_blocks e) - 1 \<and> marker_type m = x)
        \<or> (last_marker e = 0 \<and> m = 0) \<longleftrightarrow> reuse"
    by (simp add: blocks reuse_def)
  have nth: "ewah_blocks e ! last_marker e = m" by (simp add: blocks)
  have res: "(e1, c1) = (if reuse then (e\<lparr>ewah_blocks := pre @ m1 # ds\<rparr>, clean - new) else (e, clean))"
    unfolding assms(2) [symmetric] ewah_reuse_marker_def Let_def nth reuse
    by (simp add: blocks list_update_append m1_def new_def)
  show ?thesis
  proof (cases reuse)
    case False
    then show ?thesis using res assms(1) by auto
  next
    case True
    then have nil: "ds = []" using ds by (auto simp: reuse_def)
    have "num_clean m \<le> unat marker_clean_max" using num_clean_le [of m] by (simp add: word_le_nat_alt)
    then have "num_clean m + new \<le> unat marker_clean_max" by (simp add: new_def)
    note sum = unat_of_nat_clean [OF this]
    have m1: "num_dirty m1 = num_dirty m" "clean_bits m1 = clean_bits m @ replicate (width * new) x"
      using sum True by (auto simp: m1_def clean_bits_def replicate_add distrib_left reuse_def)
    have e1: "e1 = e\<lparr>ewah_blocks := pre @ [m1]\<rparr>" "c1 = clean - new" using res True nil by simp_all
    have seg: "segments e1 pre m1 ds" using assms(1) m1 nil e1 by (simp add: segments_def)
    moreover have "closed_bits 0 (ewah_blocks e1)
        = closed_bits 0 (ewah_blocks e) @ replicate (width * (clean - c1)) x"
      using segments_bits [OF assms(1)] segments_bits [OF seg] m1 nil e1 by (simp add: new_def)
    ultimately show ?thesis using e1 by auto
  qed
qed

lemma new_markers_spec:
  assumes "segments e pre m ds" and "0 < clean"
  shows "\<exists>pre' m'. segments (ewah_new_markers x clean e) pre' m' []
    \<and> num_bits (ewah_new_markers x clean e) = num_bits e
    \<and> closed_bits 0 (ewah_blocks (ewah_new_markers x clean e))
      = closed_bits 0 (ewah_blocks e) @ replicate (width * clean) x"
proof -
  have blocks: "ewah_blocks e = pre @ m # ds" "last_marker e = length pre" and ds: "length ds = num_dirty m"
    and pre: "closed 0 pre"
    using assms(1) by (simp_all add: segments_def)
  define m1 where "m1 = (if ds = [] then set_marker_num_dirty m 0 else m)"
  have m1: "length ds = num_dirty m1" "clean_bits m1 = clean_bits m"
    using ds by (auto simp: m1_def clean_bits_def)
  note seg = closed_segment [OF pre m1(1)]
  obtain ms k where k: "clean_markers x clean = ms @ [k]" "closed 0 ms" "num_dirty k = 0"
    using assms(2) by (rule clean_markers_last)
  have new: "ewah_new_markers x clean e = e\<lparr>ewah_blocks := (pre @ m1 # ds) @ clean_markers x clean,
      last_marker := length ((pre @ m1 # ds) @ clean_markers x clean) - 1\<rparr>"
    by (simp add: ewah_new_markers_def Let_def blocks m1_def list_update_append vec_resize_def
        clean_markers_def)
  have "closed 0 ((pre @ m1 # ds) @ ms)" using seg(1) k(2) closed_append by blast
  then have "segments (ewah_new_markers x clean e) ((pre @ m1 # ds) @ ms) k []"
    using k(1,3) unfolding new by (simp add: segments_def)
  moreover have "closed_bits 0 ((pre @ m1 # ds) @ clean_markers x clean)
      = closed_bits 0 (ewah_blocks e) @ replicate (width * clean) x"
    unfolding closed_bits_append [OF seg(1)] seg(2) clean_markers_spec(2) segments_bits [OF assms(1)]
    using m1 by simp
  ultimately show ?thesis unfolding new by auto
qed

lemma append_clean_spec:
  assumes sealed: "sealed e pre m ds" and clean: "0 < clean" and rem: "0 < r" "r \<le> width"
    and n: "n = width * clean + r"
  shows "\<exists>e'. ewah_append_clean x clean r (e\<lparr>num_bits := num_bits e + n\<rparr>) = Some e' \<and> ewah_inv e'
    \<and> ewah_list e' = closed_bits 0 (ewah_blocks e) @ replicate n x"
proof -
  let ?e = "e\<lparr>num_bits := num_bits e + n\<rparr>" and ?w = "if x then mask r else 0 :: u64"
  obtain e1 c1 where r1: "ewah_reuse_marker x clean ?e = (e1, c1)" by fastforce
  have "segments ?e pre m ds" using sealed by (simp add: sealed_def segments_def)
  from reuse_marker_spec [OF this r1] obtain m1 where e1: "segments e1 pre m1 ds" "c1 \<le> clean"
      "num_bits e1 = num_bits ?e" "closed_bits 0 (ewah_blocks e1)
        = closed_bits 0 (ewah_blocks e) @ replicate (width * (clean - c1)) x"
    by auto
  define e2 where "e2 = (if c1 > 0 then ewah_new_markers x c1 e1 else e1)"
  obtain pre2 m2 ds2 where e2: "segments e2 pre2 m2 ds2" "num_bits e2 = num_bits e1"
      "closed_bits 0 (ewah_blocks e2) = closed_bits 0 (ewah_blocks e1) @ replicate (width * c1) x"
    using e1(1) new_markers_spec [OF e1(1), of c1 x] by (cases "c1 > 0") (auto simp: e2_def)
  have list: "closed_bits 0 (ewah_blocks e2)
      = closed_bits 0 (ewah_blocks e) @ replicate (width * clean) x"
    using e2(3) e1(2,4) by (simp add: replicate_append_add flip: distrib_left)
  let ?e' = "e2\<lparr>ewah_blocks := ewah_blocks e2 @ [?w]\<rparr>"
  have code: "ewah_append_clean x clean r ?e = Some ?e'"
    using rem r1 sealed by (simp add: ewah_append_clean_def sealed_def lsb_fill_if flip: e2_def)
  have "ewah_inv ?e' \<and> ewah_list ?e' = closed_bits 0 (ewah_blocks e2) @ bits_of r ?w"
  proof (rule ewah_invI [of _ _ _ pre2 m2 ds2])
    show "num_bits ?e' = length (closed_bits 0 (ewah_blocks e2)) + r"
      using e2(2) e1(3) sealed list n by (simp add: sealed_def)
  qed (use e2(1) rem fill_and_mask [where x = x] in \<open>simp_all add: segments_def\<close>)
  moreover have "closed_bits 0 (ewah_blocks e2) @ bits_of r ?w
      = closed_bits 0 (ewah_blocks e) @ replicate n x"
    using list bits_of_fill [OF rem(2), of x] n by (simp add: replicate_append_add)
  ultimately show ?thesis using code by simp
qed

lemma ewah_append_bits_spec:
  assumes "ewah_inv e"
  shows "\<exists>e'. ewah_append_bits x n e = Some e' \<and> ewah_inv e' \<and> ewah_list e' = ewah_list e @ replicate n x"
proof (cases "n = 0")
  case True
  then show ?thesis using assms by (simp add: ewah_append_bits_def)
next
  case False
  then have "0 < n" by simp
  with assms obtain e1 n1 where f: "ewah_finish_block x n e = Some (e1, n1)" "n1 \<le> n"
      "n1 = 0 \<Longrightarrow> ewah_inv e1 \<and> ewah_list e1 = ewah_list e @ replicate n x"
      "0 < n1 \<Longrightarrow> \<exists>pre m ds. sealed e1 pre m ds"
      "0 < n1 \<Longrightarrow> closed_bits 0 (ewah_blocks e1) = ewah_list e @ replicate (n - n1) x"
    using finish_block_spec by blast
  show ?thesis
  proof (cases "n1 = 0")
    case True
    then show ?thesis using f False by (simp add: ewah_append_bits_def)
  next
    case n1: False
    then obtain pre m ds where sealed: "sealed e1 pre m ds" using f(4) by auto
    have sum: "replicate (n - n1) x @ replicate n1 x = replicate n x"
      using f(2) by (simp add: replicate_append_add)
    have list: "closed_bits 0 (ewah_blocks e1) @ replicate n1 x = ewah_list e @ replicate n x"
      using f(5) n1 sum by simp
    show ?thesis
    proof (cases "n1 \<le> width")
      case True
      then show ?thesis
        using f(1) False n1 list sealed_push [OF sealed _ True fill_and_mask [where x = x] refl]
          bits_of_fill [OF True, of x]
        by (simp add: ewah_append_bits_def lsb_fill_if)
    next
      case big: False
      define c r where "c = (if n1 mod width = 0 then n1 div width - 1 else n1 div width)"
        and "r = (if n1 mod width = 0 then width else n1 mod width)"
      have quot: "n1 div width > 0" "n1 mod width = 0 \<Longrightarrow> n1 div width > 1"
        using big by (auto simp: div_greater_zero_iff)
      have c: "0 < c" "0 < r" "r \<le> width" "width * c + r = n1"
        using quot mult_div_mod_eq [of width n1] by (auto simp: c_def r_def right_diff_distrib')
      have "ewah_append_bits x n e = ewah_append_clean x c r (e1\<lparr>num_bits := num_bits e1 + n1\<rparr>)"
        using f(1) False n1 big quot c(1)
        by (cases "n1 mod width = 0") (auto simp: ewah_append_bits_def Let_def c_def r_def)
      then show ?thesis
        using append_clean_spec [OF sealed c(1-3) c(4) [symmetric], of x] list by simp
    qed
  qed
qed

end
