(* ===== verification/Ewah_Range.thy ===== *)
theory Ewah_Range
  imports Ewah_Refinement
begin

text \<open>
  Complement and iteration of the EWAH bitmap. The complement flips markers and literal blocks in
  place. The bit range is read off the rest of the block vector: at a block with \<open>d\<close> literal blocks
  still to come, \<open>suffix_bits\<close> are the bits that the range still has to yield. The theory ends with
  the instance of the bitmap interface.
\<close>

section \<open>Complement\<close>

lemma marker_toggle [simp]:
  "marker_type (m XOR msb1) \<longleftrightarrow> \<not> marker_type m"
  "marker_num_clean (m XOR msb1) = marker_num_clean m"
  "marker_num_dirty (m XOR msb1) = marker_num_dirty m"
  by (auto simp: bit_simps intro!: bit_word_eqI)

lemma flip_loop_append:
  "closed d xs \<Longrightarrow> ewah_flip_loop i (i + d) (xs @ ys)
    = ewah_flip_loop i (i + d) xs @ ewah_flip_loop (i + length xs) (i + length xs) ys"
proof (induction d xs arbitrary: i rule: closed.induct)
  case (2 d b bs)
  then show ?case using "2.IH" [of "i + 1"] by simp
next
  case (3 m bs)
  have "num_dirty (if b then m XOR msb1 else m) = num_dirty m" for b by simp
  then show ?case using "3.IH" [of "i + 1"] "3.prems" by (simp add: add_ac)
qed simp

lemma clean_bits_toggle:
  "clean_bits (if marker_num_clean m > 0 then m XOR msb1 else m) = map Not (clean_bits m)"
  by (simp add: clean_bits_def word_gt_0)

lemma flip_loop_closed:
  "closed d xs \<Longrightarrow> closed d (ewah_flip_loop i (i + d) xs)
    \<and> closed_bits d (ewah_flip_loop i (i + d) xs) = map Not (closed_bits d xs)"
proof (induction d xs arbitrary: i rule: closed.induct)
  case (2 d b bs)
  then show ?case using "2.IH" [of "i + 1"] by (simp add: bits_of_NOT)
next
  case (3 m bs)
  then show ?case
    using "3.IH" [of "i + 1"] clean_bits_toggle [of m] by (auto simp: add_ac word_gt_0)
qed simp_all

lemma length_flip_loop [simp]: "length (ewah_flip_loop i k xs) = length xs"
  by (induction i k xs rule: ewah_flip_loop.induct) simp_all

lemma flip_loop_literals: "length ds \<le> d \<Longrightarrow> ewah_flip_loop i (i + d) ds = map NOT ds"
proof (induction ds arbitrary: i d)
  case (Cons b ds)
  then obtain k where k: "d = Suc k" "length ds \<le> k" by (cases d) auto
  then show ?case using Cons.IH [OF k(2), of "i + 1"] by simp
qed simp

lemma ewah_flip_spec:
  assumes "ewah_inv e"
  shows "\<exists>e'. ewah_flip e = Some e' \<and> ewah_inv e' \<and> ewah_list e' = map Not (ewah_list e)"
  using assms
proof (cases rule: ewah_cases)
  case new
  then show ?thesis by (simp add: ewah_flip_def ewah_new_def ewah_inv_def ewah_list_def)
next
  case (active pre m ds act p)
  let ?bs = "ewah_flip_loop 0 0" and ?m = "if marker_num_clean m > 0 then m XOR msb1 else m"
  let ?act = "NOT act AND mask p"
  let ?e = "e\<lparr>ewah_blocks := ?bs pre @ ?m # map NOT ds @ [?act]\<rparr>"
  have pre: "closed 0 pre" and ds: "length ds = num_dirty m" and p: "p \<le> width" "0 < p"
    using active by (simp_all add: active_def)
  have dirty: "num_dirty ?m = num_dirty m" by simp
  have loop: "?bs (pre @ m # ds) = ?bs pre @ ?m # map NOT ds"
    using flip_loop_append [OF pre, of 0 "m # ds"]
      flip_loop_literals [of ds "num_dirty m" "Suc (length pre)"] ds
    by (simp add: add_ac)
  have seg: "closed 0 (pre @ m # ds)" using closed_segment(1) [OF pre ds] .
  have flipped: "closed_bits 0 (?bs pre @ ?m # map NOT ds) = map Not (closed_bits 0 (pre @ m # ds))"
    using flip_loop_closed [OF seg, of 0] loop by simp
  have last: "(if num_bits e mod width > 0 then NOT act AND lsb_mask (num_bits e mod width)
      else NOT act) = ?act"
    using active_partial [OF active] p by (cases "p = width") (simp_all add: lsb_mask_eq)
  have blocks: "butlast (ewah_blocks e) = pre @ m # ds" "last (ewah_blocks e) = act"
      "ewah_blocks e \<noteq> []" "length (ewah_blocks e) \<ge> 2"
    using active by (simp_all add: active_def butlast_append)
  have code: "ewah_flip e = Some ?e"
    unfolding ewah_flip_def Let_def blocks(1,2) loop last using blocks(3,4) by simp
  have new: "active ?e (?bs pre) ?m (map NOT ds) ?act p"
    using active flipped dirty flip_loop_closed [OF pre, of 0] unfolding active_def
    by (simp add: and.assoc)
  then have "ewah_inv ?e" by (auto simp: ewah_inv_def)
  moreover have "ewah_list ?e = map Not (ewah_list e)"
    unfolding active_list(1) [OF new] active_list(1) [OF active] flipped
    using p by (simp add: bits_of_mask bits_of_NOT)
  ultimately show ?thesis using code by blast
qed

section \<open>Iteration\<close>

definition suffix_ok :: "ewah \<Rightarrow> nat \<Rightarrow> nat \<Rightarrow> bool" where
  "suffix_ok e k d \<longleftrightarrow> k < length (ewah_blocks e) \<and> closed d (drop k (butlast (ewah_blocks e)))"

definition suffix_bits :: "ewah \<Rightarrow> nat \<Rightarrow> nat \<Rightarrow> bool list" where
  "suffix_bits e k d = closed_bits d (drop k (butlast (ewah_blocks e)))
     @ bits_of (active_bits (num_bits e)) (last (ewah_blocks e))"

lemma suffix_step:
  assumes "suffix_ok e k d" and "k + 1 < length (ewah_blocks e)"
  shows "drop k (butlast (ewah_blocks e)) = ewah_blocks e ! k # drop (k + 1) (butlast (ewah_blocks e))"
  using assms by (simp add: Cons_nth_drop_Suc [symmetric] nth_butlast)

lemma suffix_marker:
  assumes "suffix_ok e k 0" and "k + 1 < length (ewah_blocks e)"
  shows "suffix_ok e (k + 1) (num_dirty (ewah_blocks e ! k))"
    and "suffix_bits e k 0
      = clean_bits (ewah_blocks e ! k) @ suffix_bits e (k + 1) (num_dirty (ewah_blocks e ! k))"
  using assms suffix_step [OF assms] by (simp_all add: suffix_ok_def suffix_bits_def)

lemma suffix_literal:
  assumes "suffix_ok e k (Suc d)" and "k + 1 < length (ewah_blocks e)"
  shows "suffix_ok e (k + 1) d"
    and "suffix_bits e k (Suc d) = bits_of width (ewah_blocks e ! k) @ suffix_bits e (k + 1) d"
  using assms suffix_step [OF assms] by (simp_all add: suffix_ok_def suffix_bits_def)

lemma suffix_last:
  assumes "k + 1 = length (ewah_blocks e)"
  shows "suffix_bits e k d = bits_of (active_bits (num_bits e)) (ewah_blocks e ! k)"
proof -
  have "ewah_blocks e \<noteq> []" "length (ewah_blocks e) - 1 = k" using assms by auto
  then show ?thesis using assms by (simp add: suffix_bits_def last_conv_nth)
qed

lemma merge_spec:
  assumes "suffix_ok e (k + 1) d" and "data = 0 \<or> data = - 1"
    and "ewah_merge (ewah_blocks e) data k d len = (k', d', len')"
  shows "suffix_ok e (k' + 1) d' \<and> len \<le> len'
    \<and> replicate len (data \<noteq> 0) @ suffix_bits e (k + 1) d
      = replicate len' (data \<noteq> 0) @ suffix_bits e (k' + 1) d'"
  using assms
proof (induction "ewah_blocks e" data k d len rule: ewah_merge.induct)
  case (1 data k d len)
  let ?m = "ewah_blocks e ! (k + 1)"
  show ?case
  proof (cases "d = 0 \<and> k + 2 < length (ewah_blocks e) \<and> (marker_type ?m \<longleftrightarrow> data \<noteq> 0)")
    case True
    then have len: "k + 1 + 1 < length (ewah_blocks e)" by simp
    have ok: "suffix_ok e (k + 1) 0" using "1.prems"(1) True by simp
    note step = suffix_marker [OF ok len]
    have merge: "ewah_merge (ewah_blocks e) data (k + 1) (num_dirty ?m) (len + num_clean ?m * width) = (k', d', len')"
      using "1.prems"(3) True by (subst (asm) ewah_merge.simps) (auto simp: Let_def)
    have "suffix_ok e (k' + 1) d' \<and> len + num_clean ?m * width \<le> len'
      \<and> replicate (len + num_clean ?m * width) (data \<noteq> 0) @ suffix_bits e (k + 1 + 1) (num_dirty ?m)
      = replicate len' (data \<noteq> 0) @ suffix_bits e (k' + 1) d'"
      using True by (intro "1.hyps" step "1.prems" merge) auto
    then show ?thesis
      using True step(2) by (auto simp: clean_bits_def replicate_add mult.commute)
  next
    case False
    then have "(k', d', len') = (k, d, len)"
      using "1.prems"(3) by (subst (asm) ewah_merge.simps) (auto simp: Let_def split: if_splits)
    then show ?thesis using "1.prems" by simp
  qed
qed

definition yields :: "ewah \<Rightarrow> nat \<Rightarrow> nat \<Rightarrow> ewah_range \<Rightarrow> bool" where
  "yields e k d r \<longleftrightarrow> bits_inv (rng_bits r) \<and> 0 < bsize (rng_bits r)
    \<and> (if rng_next r + 1 = length (ewah_blocks e) then suffix_bits e k d = bits_list (rng_bits r)
       else suffix_ok e (rng_next r + 1) (rng_dirty r)
         \<and> suffix_bits e k d = bits_list (rng_bits r) @ suffix_bits e (rng_next r + 1) (rng_dirty r))"

lemma scan_spec:
  "suffix_ok e (rng_next r) (rng_dirty r) \<Longrightarrow>
    \<exists>r'. ewah_scan e r = Some r' \<and> yields e (rng_next r) (rng_dirty r) r'"
proof (induction e r rule: ewah_scan.induct)
  case (1 e r)
  let ?k = "rng_next r" and ?d = "rng_dirty r" and ?b = "ewah_blocks e ! rng_next r"
  have k: "?k < length (ewah_blocks e)" using "1.prems" by (simp add: suffix_ok_def)
  consider (last) "?k + 1 = length (ewah_blocks e)"
    | (dirty) d where "?k + 1 < length (ewah_blocks e)" "?d = Suc d"
    | (marker) "?k + 1 < length (ewah_blocks e)" "?d = 0" "num_clean ?b = 0"
    | (clean) "?k + 1 < length (ewah_blocks e)" "?d = 0" "num_clean ?b > 0"
    using k by (cases ?d) force+
  then show ?case
  proof cases
    case last
    have p: "active_bits (num_bits e) \<le> width" "0 < active_bits (num_bits e)"
      by (simp_all add: active_bits_def)
    obtain c where c: "mk_bits ?b (active_bits (num_bits e)) = Some c" "bits_inv c"
        "bsize c = active_bits (num_bits e)" "bits_list c = bits_of (active_bits (num_bits e)) ?b"
      using mk_bits_short [OF p(1), of ?b] by auto
    have "ewah_scan e r = Some (r\<lparr>rng_bits := c\<rparr>)"
      using last k c(1) unfolding active_bits_def by (subst ewah_scan.simps) (simp add: Let_def)
    then show ?thesis using last c p(2) suffix_last [OF last] by (simp add: yields_def)
  next
    case dirty
    obtain c where c: "mk_bits ?b width = Some c" "bits_inv c" "bsize c = width"
        "bits_list c = bits_of width ?b"
      using mk_bits_short [of width ?b] by auto
    have "ewah_scan e r = Some (r\<lparr>rng_dirty := d, rng_bits := c\<rparr>)"
      using dirty k c(1) by (subst ewah_scan.simps) (simp add: Let_def)
    then show ?thesis
      using dirty c suffix_literal [of e ?k d] "1.prems" by (simp add: yields_def)
  next
    case marker
    let ?r = "r\<lparr>rng_next := ?k + 1, rng_dirty := num_dirty ?b\<rparr>"
    have step: "suffix_ok e (?k + 1) (num_dirty ?b)" "suffix_bits e ?k 0 = suffix_bits e (?k + 1) (num_dirty ?b)"
      using suffix_marker [of e ?k] "1.prems" marker by (simp_all add: clean_bits_def)
    have "ewah_scan e r = ewah_scan e ?r"
      using marker k by (subst ewah_scan.simps) (simp add: Let_def)
    moreover obtain r' where "ewah_scan e ?r = Some r'" "yields e (?k + 1) (num_dirty ?b) r'"
      using "1.IH" [OF _ refl _ _ refl refl] marker k step by auto
    moreover from this(2) have "yields e ?k 0 r'"
      unfolding yields_def step(2) .
    ultimately show ?thesis using marker by auto
  next
    case clean
    let ?data = "if marker_type ?b then all_word else none_word"
    have data: "?data = 0 \<or> ?data = - 1" "(?data \<noteq> 0) = marker_type ?b" by simp_all
    obtain k' d' len' where m: "ewah_merge (ewah_blocks e) ?data ?k (num_dirty ?b) (num_clean ?b * width)
        = (k', d', len')"
      by (metis surj_pair)
    have step: "suffix_ok e (?k + 1) (num_dirty ?b)"
        "suffix_bits e ?k 0 = clean_bits ?b @ suffix_bits e (?k + 1) (num_dirty ?b)"
      using suffix_marker [of e ?k] "1.prems" clean by simp_all
    note merge = merge_spec [OF step(1) data(1) m]
    obtain c where c: "mk_bits ?data len' = Some c" "bits_inv c" "bsize c = len'"
        "bits_list c = replicate len' (marker_type ?b)"
      using mk_bits_run [OF data(1), of len'] unfolding data(2) by auto
    have "ewah_scan e r = Some \<lparr>rng_next = k', rng_dirty = d', rng_bits = c\<rparr>"
      using clean k c(1) m by (subst ewah_scan.simps) (simp add: Let_def)
    moreover have "k' + 1 < length (ewah_blocks e)" using merge by (simp add: suffix_ok_def)
    ultimately show ?thesis
      using clean c merge step(2) data(2) by (simp add: yields_def clean_bits_def mult.commute)
  qed
qed

lemma range_list_spec:
  assumes "yields e k d r" and "rng_next r < length (ewah_blocks e)"
  shows "\<exists>cs. ewah_range_list e r = Some cs \<and> range_ok cs \<and> range_nonempty cs
    \<and> range_list cs = suffix_bits e k d"
  using assms
proof (induction e r arbitrary: k d rule: ewah_range_list.induct)
  case (1 e r)
  have running: "\<not> ewah_range_done e r" using "1.prems" by (simp add: ewah_range_done_def)
  show ?case
  proof (cases "rng_next r + 1 = length (ewah_blocks e)")
    case True
    let ?r = "r\<lparr>rng_next := rng_next r + 1\<rparr>"
    have "ewah_range_next e r = Some ?r" "ewah_range_done e ?r"
      using True running by (simp_all add: ewah_range_next_def ewah_range_done_def)
    moreover from this(2) have "ewah_range_list e ?r = Some []"
      by (subst ewah_range_list.simps) simp
    ultimately have "ewah_range_list e r = Some [rng_bits r]"
      using running by (subst ewah_range_list.simps) simp
    then show ?thesis using True "1.prems" by (simp add: yields_def)
  next
    case False
    let ?r = "r\<lparr>rng_next := rng_next r + 1\<rparr>"
    have y: "bits_inv (rng_bits r)" "0 < bsize (rng_bits r)" "suffix_ok e (rng_next ?r) (rng_dirty ?r)"
        "suffix_bits e k d = bits_list (rng_bits r) @ suffix_bits e (rng_next ?r) (rng_dirty ?r)"
      using "1.prems"(1) False by (simp_all add: yields_def)
    from scan_spec [OF y(3)] obtain r' where r': "ewah_scan e ?r = Some r'"
        "yields e (rng_next ?r) (rng_dirty ?r) r'"
      by auto
    have next_eq: "ewah_range_next e r = Some r'"
      using running False r'(1) by (simp add: ewah_range_next_def Let_def)
    have less: "rng_next r' < length (ewah_blocks e)"
      using r'(2) scan_spec by (auto simp: yields_def suffix_ok_def split: if_splits)
    from "1.IH" [OF running next_eq r'(2) less] obtain cs where
      "ewah_range_list e r' = Some cs" "range_ok cs" "range_nonempty cs"
      "range_list cs = suffix_bits e (rng_next ?r) (rng_dirty ?r)" by auto
    then show ?thesis
      using running next_eq y by (subst ewah_range_list.simps) simp
  qed
qed

lemma bit_range_spec:
  assumes "ewah_inv e"
  shows "\<exists>cs. ewah_bit_range e = Some cs \<and> range_ok cs \<and> range_nonempty cs \<and> range_list cs = ewah_list e"
  using assms
proof (cases rule: ewah_cases)
  case new
  then show ?thesis
    by (simp add: ewah_bit_range_def ewah_range_new_def ewah_empty_def ewah_new_def ewah_list_def
        ewah_range_list.simps ewah_range_done_def)
next
  case (active pre m ds act p)
  let ?r = "\<lparr>rng_next = 0, rng_dirty = 0, rng_bits = empty_bits\<rparr>"
  have "suffix_ok e 0 0"
    using active closed_segment(1) [of pre ds m] by (simp add: active_def suffix_ok_def butlast_append)
  then obtain r where r: "ewah_scan e ?r = Some r" "yields e 0 0 r"
    using scan_spec [of e ?r] by auto
  have "rng_next r < length (ewah_blocks e)"
    using r(2) by (auto simp: yields_def suffix_ok_def split: if_splits)
  moreover have "suffix_bits e 0 0 = ewah_list e"
    using active by (simp add: suffix_bits_def ewah_list_def active_def)
  moreover have "\<not> ewah_empty e" using active by (simp add: ewah_empty_def active_def)
  ultimately show ?thesis
    using range_list_spec [OF r(2)] r(1) by (simp add: ewah_bit_range_def ewah_range_new_def Let_def)
qed

section \<open>The instance of the bitmap interface\<close>

lemma ewah_ops_simps [simp]:
  "bm_new ewah_ops = ewah_new" "bm_empty ewah_ops = ewah_empty" "bm_size ewah_ops = ewah_size"
  "bm_append_bit ewah_ops = ewah_append_bit" "bm_append_bits ewah_ops = ewah_append_bits"
  "bm_append_block ewah_ops = ewah_append_block" "bm_flip ewah_ops = ewah_flip"
  "bm_range ewah_ops = ewah_bit_range"
  by (simp_all add: ewah_ops_def)

end
