(* ===== verification/Binary_Eval.thy ===== *)
theory Binary_Eval
  imports Bitmap_Base
begin

text \<open>
  The bitwise operations of \<^verbatim>\<open>bitmap_algorithms.hpp\<close>: \<open>binary_eval\<close> combines two bit ranges sequence
  by sequence, \<open>nary_eval\<close> reduces many bitmaps with a priority queue. Both take the bitmap types as
  records of operations; the lemmas are proved in locales over the bitmap interface. The reference
  semantics is \<open>zip_fill\<close> on lists of bits.
\<close>

section \<open>The code\<close>

definition eval_append ::
    "'r bitmap_ops \<Rightarrow> (u64 \<Rightarrow> u64 \<Rightarrow> u64) \<Rightarrow> 'r \<Rightarrow> bits \<Rightarrow> bits \<Rightarrow> ('r \<times> bits \<times> bits) option" where
  "eval_append ops op result lhs rhs =
    (let data = op (bdata lhs) (bdata rhs) in
     if is_run lhs \<and> \<not> is_run rhs then do {
       b \<leftarrow> mk_bits data (bsize rhs);
       result \<leftarrow> append_bits_seq ops b result;
       lhs \<leftarrow> bits_drop lhs (bsize rhs);
       Some (result, lhs, empty_bits)
     } else if \<not> is_run lhs \<and> is_run rhs then do {
       b \<leftarrow> mk_bits data (bsize lhs);
       result \<leftarrow> append_bits_seq ops b result;
       rhs \<leftarrow> bits_drop rhs (bsize lhs);
       Some (result, empty_bits, rhs)
     } else do {
       let n = min (bsize lhs) (bsize rhs);
       b \<leftarrow> mk_bits data n;
       result \<leftarrow> append_bits_seq ops b result;
       lhs \<leftarrow> bits_drop lhs n;
       rhs \<leftarrow> bits_drop rhs n;
       Some (result, lhs, rhs)
     })"

definition eval_fetch :: "bits \<Rightarrow> bits list \<Rightarrow> (bits \<times> bits list) option" where
  "eval_fetch b rest =
    (if bits_empty b then
       (case rest of [] \<Rightarrow> Some (b, []) | c # cs \<Rightarrow> do { require (\<not> bits_empty c); Some (c, cs) })
     else Some (b, rest))"

lemma bits_drop_size: "bits_drop b n = Some c \<Longrightarrow> bsize c = bsize b - n"
  by (auto simp: bits_drop_def bits_slice_def bits_slice_length_def mk_bits_def require_bind_Some
      empty_bits_def Let_def split: if_splits)

lemma eval_append_size:
  assumes "eval_append ops op result lhs rhs = Some (result', lhs', rhs')"
    and "0 < bsize lhs" and "0 < bsize rhs"
  shows "bsize lhs' + bsize rhs' < bsize lhs + bsize rhs"
  using assms
  by (auto simp: eval_append_def Let_def bind_eq_Some_conv is_run_def empty_bits_def min_def
      dest!: bits_drop_size split: if_splits)

lemma eval_fetch_size:
  "eval_fetch b rest = Some (c, cs) \<Longrightarrow>
    bsize c + sum_list (map bsize cs) = bsize b + sum_list (map bsize rest)"
  by (auto simp: eval_fetch_def bits_empty_def require_bind_Some split: if_splits list.splits)

function binary_loop ::
    "'r bitmap_ops \<Rightarrow> (u64 \<Rightarrow> u64 \<Rightarrow> u64) \<Rightarrow> 'r \<Rightarrow> bits \<Rightarrow> bits list \<Rightarrow> bits \<Rightarrow> bits list
      \<Rightarrow> ('r \<times> (bits \<times> bits list) \<times> (bits \<times> bits list)) option" where
  "binary_loop ops op result lhs lrest rhs rrest =
    (if \<not> bits_empty lhs \<and> \<not> bits_empty rhs then do {
       (result, lhs, rhs) \<leftarrow> eval_append ops op result lhs rhs;
       (lhs, lrest) \<leftarrow> eval_fetch lhs lrest;
       (rhs, rrest) \<leftarrow> eval_fetch rhs rrest;
       binary_loop ops op result lhs lrest rhs rrest
     } else Some (result, (lhs, lrest), (rhs, rrest)))"
  by pat_completeness auto
termination
proof (relation "measure (\<lambda>(_, _, _, lhs, lrest, rhs, rrest).
    bsize lhs + sum_list (map bsize lrest) + (bsize rhs + sum_list (map bsize rrest)))", goal_cases)
  case (2 ops op result lhs lrest rhs rrest step result' sides lhs1 rhs1 f1 lhs2 lrest2 f2 rhs2 rrest2)
  then show ?case
    using eval_append_size [of ops op result lhs rhs result' lhs1 rhs1]
      eval_fetch_size [of lhs1 lrest lhs2 lrest2] eval_fetch_size [of rhs1 rrest rhs2 rrest2]
    by (auto simp: bits_empty_def)
qed simp

declare binary_loop.simps [simp del]

text \<open>The first sequences are fetched before the loop, without an assertion.\<close>

definition eval_first :: "bool \<Rightarrow> bits list \<Rightarrow> (bits \<times> bits list) option" where
  "eval_first none rng =
    (if none then Some (empty_bits, rng)
     else case rng of [] \<Rightarrow> None | b # bs \<Rightarrow> Some (b, bs))"

definition eval_fill :: "bool \<Rightarrow> 'r bitmap_ops \<Rightarrow> bits \<times> bits list \<Rightarrow> 'r \<Rightarrow> 'r option" where
  "eval_fill fill ops side result =
    (if fill then do {
       result \<leftarrow> (if \<not> bits_empty (fst side) then append_bits_seq ops (fst side) result else Some result);
       append_range ops (snd side) result
     } else Some result)"

definition binary_eval ::
    "bool \<Rightarrow> bool \<Rightarrow> 'l bitmap_ops \<Rightarrow> 'q bitmap_ops \<Rightarrow> 'r bitmap_ops \<Rightarrow> (u64 \<Rightarrow> u64 \<Rightarrow> u64)
      \<Rightarrow> 'l \<Rightarrow> 'q \<Rightarrow> 'r option" where
  "binary_eval fill_lhs fill_rhs lops rops ops op lhs rhs = do {
     lrange \<leftarrow> bm_range lops lhs;
     rrange \<leftarrow> bm_range rops rhs;
     (lbits, lrest) \<leftarrow> eval_first (bm_empty lops lhs) lrange;
     (rbits, rrest) \<leftarrow> eval_first (bm_empty rops rhs) rrange;
     (result, lside, rside) \<leftarrow> binary_loop ops op (bm_new ops) lbits lrest rbits rrest;
     require (bm_size ops result \<le> max (bm_size lops lhs) (bm_size rops rhs));
     result \<leftarrow> eval_fill fill_lhs ops lside result;
     result \<leftarrow> eval_fill fill_rhs ops rside result;
     let size = max (bm_size lops lhs) (bm_size rops rhs);
     require (size \<ge> bm_size ops result);
     bm_append_bits ops False (size - bm_size ops result) result
   }"

definition binary_and where
  "binary_and lops rops ops = binary_eval False False lops rops ops (\<lambda>x y. x AND y)"

definition binary_or where
  "binary_or lops rops ops = binary_eval True True lops rops ops (\<lambda>x y. x OR y)"

definition binary_xor where
  "binary_xor lops rops ops = binary_eval True True lops rops ops (\<lambda>x y. x XOR y)"

definition binary_nand where
  "binary_nand lops rops ops = binary_eval True False lops rops ops (\<lambda>x y. x AND NOT y)"

definition binary_nor where
  "binary_nor lops rops ops = binary_eval True True lops rops ops (\<lambda>x y. x OR NOT y)"

section \<open>The reference semantics\<close>

definition zip_fill :: "(bool \<Rightarrow> bool \<Rightarrow> bool) \<Rightarrow> bool \<Rightarrow> bool \<Rightarrow> bool list \<Rightarrow> bool list \<Rightarrow> bool list" where
  "zip_fill f fl fr xs ys = map2 f xs ys
     @ map ((\<and>) fl) (drop (length ys) xs) @ map ((\<and>) fr) (drop (length xs) ys)"

definition bit_at :: "bool list \<Rightarrow> nat \<Rightarrow> bool" where
  "bit_at xs i \<longleftrightarrow> i < length xs \<and> xs ! i"

lemma length_zip_fill [simp]: "length (zip_fill f fl fr xs ys) = max (length xs) (length ys)"
  by (simp add: zip_fill_def max_def min_def)

lemma nth_zip_fill:
  assumes "i < max (length xs) (length ys)"
  shows "zip_fill f fl fr xs ys ! i =
    (if i < length xs \<and> i < length ys then f (xs ! i) (ys ! i)
     else if i < length xs then fl \<and> xs ! i else fr \<and> ys ! i)"
  using assms by (auto simp: zip_fill_def nth_append min_def max_def)

lemma bit_at_zip_fill:
  "bit_at (zip_fill f fl fr xs ys) i \<longleftrightarrow>
    (if i < length xs \<and> i < length ys then f (xs ! i) (ys ! i)
     else if i < length xs then fl \<and> xs ! i else i < length ys \<and> fr \<and> ys ! i)"
  using nth_zip_fill [of i xs ys f fl fr] by (auto simp: bit_at_def)

lemma bit_at_ops:
  "bit_at (zip_fill (\<and>) False False xs ys) i \<longleftrightarrow> bit_at xs i \<and> bit_at ys i"
  "bit_at (zip_fill (\<or>) True True xs ys) i \<longleftrightarrow> bit_at xs i \<or> bit_at ys i"
  "bit_at (zip_fill (\<noteq>) True True xs ys) i \<longleftrightarrow> bit_at xs i \<noteq> bit_at ys i"
  "bit_at (zip_fill (\<lambda>x y. x \<and> \<not> y) True False xs ys) i \<longleftrightarrow> bit_at xs i \<and> \<not> bit_at ys i"
  unfolding bit_at_zip_fill by (auto simp: bit_at_def)

lemma bit_at_eqI: "length xs = length ys \<Longrightarrow> (\<And>i. bit_at xs i = bit_at ys i) \<Longrightarrow> xs = ys"
  by (rule nth_equalityI) (auto simp: bit_at_def)

section \<open>Refinement\<close>

lemma map_and_const: "map ((\<and>) c) xs = (if c then xs else replicate (length xs) False)"
  by (induction xs) simp_all

definition word_op :: "(u64 \<Rightarrow> u64 \<Rightarrow> u64) \<Rightarrow> (bool \<Rightarrow> bool \<Rightarrow> bool) \<Rightarrow> bool" where
  "word_op op f \<longleftrightarrow> (\<forall>x y i. i < width \<longrightarrow> bit (op x y) i = f (bit x i) (bit y i))"

lemma word_op_simps [simp]:
  "word_op (\<lambda>x y. x AND y) (\<and>)"
  "word_op (\<lambda>x y. x OR y) (\<or>)"
  "word_op (\<lambda>x y. x XOR y) (\<noteq>)"
  "word_op (\<lambda>x y. x AND NOT y) (\<lambda>x y. x \<and> \<not> y)"
  "word_op (\<lambda>x y. x OR NOT y) (\<lambda>x y. x \<or> \<not> y)"
  by (auto simp: word_op_def bit_simps)

lemma bits_of_word_op:
  assumes "word_op op f" and "n \<le> width"
  shows "bits_of n (op x y) = map2 f (bits_of n x) (bits_of n y)"
  using assms by (intro nth_equalityI) (simp_all add: word_op_def)

lemma word_op_const:
  assumes "word_op op f" and "x = 0 \<or> x = - 1" and "y = 0 \<or> y = - 1"
  shows "op x y = (if f (x \<noteq> 0) (y \<noteq> 0) then - 1 else 0)"
  using assms by (intro bit_word_eqI) (auto simp: word_op_def)

lemma take_bits_list:
  assumes "bits_inv b" and "n \<le> bsize b" and "n \<le> width"
  shows "take n (bits_list b) = bits_of n (bdata b)"
  using assms
  by (auto simp: bits_list_def bits_inv_def take_bits_of bits_of_zero bits_of_ones split: if_splits)

lemma map2_min:
  "n = min (length xs) (length ys) \<Longrightarrow> map2 f (take n xs) (take n ys) = map2 f xs ys"
  by (rule nth_equalityI) simp_all

lemma eval_data_spec:
  assumes "word_op op f" and "bits_inv lhs" and "bits_inv rhs"
    and "n = min (bsize lhs) (bsize rhs)"
  shows "\<exists>b. mk_bits (op (bdata lhs) (bdata rhs)) n = Some b \<and> bits_inv b
    \<and> bits_list b = map2 f (bits_list lhs) (bits_list rhs)"
proof (cases "n \<le> width")
  case True
  have le: "n \<le> bsize lhs" "n \<le> bsize rhs" using assms(4) by simp_all
  have "bits_of n (op (bdata lhs) (bdata rhs)) = map2 f (take n (bits_list lhs)) (take n (bits_list rhs))"
    by (simp only: bits_of_word_op [OF assms(1) True] take_bits_list [OF assms(2) le(1) True]
        take_bits_list [OF assms(3) le(2) True])
  also have "\<dots> = map2 f (bits_list lhs) (bits_list rhs)"
    using assms(4) by (intro map2_min) simp
  finally show ?thesis using mk_bits_short [OF True, of "op (bdata lhs) (bdata rhs)"] by auto
next
  case False
  then have run: "bsize lhs > width" "bsize rhs > width" using assms(4) by auto
  then have const: "bdata lhs = 0 \<or> bdata lhs = - 1" "bdata rhs = 0 \<or> bdata rhs = - 1"
    using assms(2,3) by (simp_all add: bits_inv_def)
  note op = word_op_const [OF assms(1) const]
  have "map2 f (bits_list lhs) (bits_list rhs) = replicate n (f (bdata lhs \<noteq> 0) (bdata rhs \<noteq> 0))"
    using run assms(4) by (simp add: bits_list_def zip_replicate)
  then show ?thesis using mk_bits_run [of "op (bdata lhs) (bdata rhs)" n] op
    by (auto split: if_splits)
qed

context appendable
begin

lemma eval_append_spec:
  assumes "word_op op f" and "bits_inv lhs" and "bits_inv rhs" and "inv result"
  shows "\<exists>result' lhs' rhs'. eval_append ops op result lhs rhs = Some (result', lhs', rhs')
    \<and> inv result' \<and> decode result' = decode result @ map2 f (bits_list lhs) (bits_list rhs)
    \<and> bits_inv lhs' \<and> bits_list lhs' = drop (bsize rhs) (bits_list lhs)
    \<and> bits_inv rhs' \<and> bits_list rhs' = drop (bsize lhs) (bits_list rhs)"
proof -
  let ?n = "min (bsize lhs) (bsize rhs)"
  obtain b where b: "mk_bits (op (bdata lhs) (bdata rhs)) ?n = Some b" "bits_inv b"
      "bits_list b = map2 f (bits_list lhs) (bits_list rhs)"
    using eval_data_spec [OF assms(1-3) refl] by auto
  obtain r where r: "append_bits_seq ops b result = Some r" "inv r" "decode r = decode result @ bits_list b"
    using append_seq [OF assms(4) b(2)] by auto
  have drop_min: "drop ?n (bits_list lhs) = drop (bsize rhs) (bits_list lhs)"
      "drop ?n (bits_list rhs) = drop (bsize lhs) (bits_list rhs)"
    by (simp_all add: min_def)
  consider (left) "is_run lhs" "\<not> is_run rhs" | (right) "\<not> is_run lhs" "is_run rhs"
    | (same) "is_run lhs = is_run rhs" by auto
  then show ?thesis
  proof cases
    case left
    then have "?n = bsize rhs" "drop (bsize lhs) (bits_list rhs) = []"
      by (simp_all add: is_run_def)
    then show ?thesis using bits_drop_spec [OF assms(2), of "bsize rhs"] left b r
      by (auto simp: eval_append_def)
  next
    case right
    then have "?n = bsize lhs" "drop (bsize rhs) (bits_list lhs) = []"
      by (simp_all add: is_run_def)
    then show ?thesis using bits_drop_spec [OF assms(3), of "bsize lhs"] right b r
      by (auto simp: eval_append_def)
  next
    case same
    then show ?thesis
      using bits_drop_spec [OF assms(2), of ?n] bits_drop_spec [OF assms(3), of ?n] b r drop_min
      by (auto simp: eval_append_def)
  qed
qed

end

definition side_ok :: "bits \<Rightarrow> bits list \<Rightarrow> bool" where
  "side_ok b rest \<longleftrightarrow> bits_inv b \<and> range_ok rest \<and> range_nonempty rest \<and> (bsize b = 0 \<longrightarrow> rest = [])"

definition side_list :: "bits \<Rightarrow> bits list \<Rightarrow> bool list" where
  "side_list b rest = bits_list b @ range_list rest"

lemma side_Nil: "side_ok b rest \<Longrightarrow> bits_empty b \<Longrightarrow> side_list b rest = []"
  by (simp add: side_ok_def side_list_def bits_empty_def)

lemma eval_fetch_spec:
  assumes "bits_inv b" and "range_ok rest" and "range_nonempty rest"
  shows "\<exists>c cs. eval_fetch b rest = Some (c, cs) \<and> side_ok c cs
    \<and> side_list c cs = bits_list b @ range_list rest"
  using assms
  by (cases rest) (auto simp: eval_fetch_def bits_empty_def side_ok_def side_list_def)

lemma eval_first_spec:
  assumes "range_ok rng" and "range_nonempty rng" and "e \<longleftrightarrow> range_list rng = []"
  shows "\<exists>b rest. eval_first e rng = Some (b, rest) \<and> side_ok b rest \<and> side_list b rest = range_list rng"
  using assms
  by (cases rng) (auto simp: eval_first_def side_ok_def side_list_def)

lemma map2_drop:
  "map2 f (xs @ xs') (ys @ ys') =
    map2 f xs ys @ map2 f (drop (length ys) xs @ xs') (drop (length xs) ys @ ys')"
  if "length xs = 0 \<longrightarrow> xs' = []" and "length ys = 0 \<longrightarrow> ys' = []"
proof (cases "length xs \<le> length ys")
  case True
  then have "ys = take (length xs) ys @ drop (length xs) ys" by simp
  then have "map2 f (xs @ xs') (ys @ ys') = map2 f (xs @ xs') (take (length xs) ys @ drop (length xs) ys @ ys')"
    by (metis append.assoc)
  also have "\<dots> = map2 f xs (take (length xs) ys) @ map2 f xs' (drop (length xs) ys @ ys')"
    using True by simp
  also have "zip xs (take (length xs) ys) = zip xs ys"
    using True by (intro nth_equalityI) simp_all
  finally show ?thesis using True by simp
next
  case False
  then have "xs = take (length ys) xs @ drop (length ys) xs" by simp
  then have "map2 f (xs @ xs') (ys @ ys') = map2 f (take (length ys) xs @ drop (length ys) xs @ xs') (ys @ ys')"
    by (metis append.assoc)
  also have "\<dots> = map2 f (take (length ys) xs) ys @ map2 f (drop (length ys) xs @ xs') ys'"
    using False by simp
  also have "zip (take (length ys) xs) ys = zip xs ys"
    using False by (intro nth_equalityI) simp_all
  finally show ?thesis using False by simp
qed

lemma drop_append_lengths:
  "drop (length (drop (length xs) ys @ ys')) (drop (length ys) xs @ xs')
    = drop (length (ys @ ys')) (xs @ xs')"
proof (cases "length xs \<le> length ys")
  case False
  then have "length ys' - (length xs - length ys) = length ys + length ys' - length xs" by simp
  then show ?thesis using False by (simp add: add.commute)
qed simp

context appendable
begin

lemma binary_loop_spec:
  assumes "word_op op f" and "side_ok lhs lrest" and "side_ok rhs rrest" and "inv result"
  shows "\<exists>result' lhs' lrest' rhs' rrest'.
    binary_loop ops op result lhs lrest rhs rrest = Some (result', (lhs', lrest'), (rhs', rrest'))
    \<and> inv result' \<and> decode result' = decode result @ map2 f (side_list lhs lrest) (side_list rhs rrest)
    \<and> side_ok lhs' lrest' \<and> side_list lhs' lrest' = drop (length (side_list rhs rrest)) (side_list lhs lrest)
    \<and> side_ok rhs' rrest' \<and> side_list rhs' rrest' = drop (length (side_list lhs lrest)) (side_list rhs rrest)"
  using assms(2-4)
proof (induction "length (side_list lhs lrest) + length (side_list rhs rrest)"
    arbitrary: result lhs lrest rhs rrest rule: less_induct)
  case less
  let ?L = "side_list lhs lrest" and ?R = "side_list rhs rrest"
  show ?case
  proof (cases "bits_empty lhs \<or> bits_empty rhs")
    case True
    then have "?L = [] \<or> ?R = []" using side_Nil less.prems by blast
    then show ?thesis using True less.prems by (subst binary_loop.simps) auto
  next
    case False
    have ok: "bits_inv lhs" "range_ok lrest" "range_nonempty lrest"
        "bits_inv rhs" "range_ok rrest" "range_nonempty rrest"
      using less.prems by (simp_all add: side_ok_def)
    have size: "0 < bsize lhs" "0 < bsize rhs" using False by (simp_all add: bits_empty_def)
    obtain r l1 q1 where step: "eval_append ops op result lhs rhs = Some (r, l1, q1)" "inv r"
        "decode r = decode result @ map2 f (bits_list lhs) (bits_list rhs)"
        "bits_inv l1" "bits_list l1 = drop (bsize rhs) (bits_list lhs)"
        "bits_inv q1" "bits_list q1 = drop (bsize lhs) (bits_list rhs)"
      using eval_append_spec [OF assms(1) ok(1,4) less.prems(3)] by auto
    obtain l ls where l: "eval_fetch l1 lrest = Some (l, ls)" "side_ok l ls"
        "side_list l ls = bits_list l1 @ range_list lrest"
      using eval_fetch_spec [OF step(4) ok(2,3)] by auto
    obtain q qs where q: "eval_fetch q1 rrest = Some (q, qs)" "side_ok q qs"
        "side_list q qs = bits_list q1 @ range_list rrest"
      using eval_fetch_spec [OF step(6) ok(5,6)] by auto
    have "length (side_list l ls) + length (side_list q qs) < length ?L + length ?R"
      using l(3) q(3) step(5,7) size by (simp add: side_list_def)
    from less.hyps [OF this l(2) q(2) step(2)] obtain r' l' ls' q' qs' where rec:
      "binary_loop ops op r l ls q qs = Some (r', (l', ls'), (q', qs'))" "inv r'"
      "decode r' = decode r @ map2 f (side_list l ls) (side_list q qs)"
      "side_ok l' ls'" "side_list l' ls' = drop (length (side_list q qs)) (side_list l ls)"
      "side_ok q' qs'" "side_list q' qs' = drop (length (side_list l ls)) (side_list q qs)"
      by auto
    have loop: "binary_loop ops op result lhs lrest rhs rrest = Some (r', (l', ls'), (q', qs'))"
      using False step(1) l(1) q(1) rec(1) by (subst binary_loop.simps) simp
    have "decode r' = decode result @ map2 f ?L ?R"
      using map2_drop [of "bits_list lhs" "range_list lrest" "bits_list rhs" "range_list rrest" f]
        size rec(3) step(3,5,7) l(3) q(3) by (simp add: side_list_def)
    moreover have "side_list l' ls' = drop (length ?R) ?L" "side_list q' qs' = drop (length ?L) ?R"
      using drop_append_lengths [of "bits_list lhs" "bits_list rhs" "range_list rrest" "range_list lrest"]
        drop_append_lengths [of "bits_list rhs" "bits_list lhs" "range_list lrest" "range_list rrest"]
        rec(5,7) step(5,7) l(3) q(3) unfolding side_list_def by simp_all
    ultimately show ?thesis using loop rec(2,4,6) by blast
  qed
qed

lemma eval_fill_spec:
  assumes "side_ok b rest" and "inv result"
  shows "\<exists>r. eval_fill fl ops (b, rest) result = Some r \<and> inv r
    \<and> decode r = decode result @ map ((\<and>) fl) (if fl then side_list b rest else [])"
proof (cases fl)
  case True
  obtain r1 where r1: "(if \<not> bits_empty b then append_bits_seq ops b result else Some result) = Some r1"
      "inv r1" "decode r1 = decode result @ bits_list b"
    using append_seq [of result b] assms by (cases "bits_empty b") (auto simp: side_ok_def bits_empty_def)
  from append_range_spec [OF r1(2), of rest] assms(1) obtain r where
    "append_range ops rest r1 = Some r" "inv r" "decode r = decode r1 @ range_list rest"
    by (auto simp: side_ok_def)
  moreover have "eval_fill fl ops (b, rest) result = append_range ops rest r1"
    unfolding eval_fill_def fst_conv snd_conv r1(1) using True by simp
  ultimately show ?thesis using True r1(3) by (simp add: side_list_def map_and_const)
qed (simp add: eval_fill_def assms)

end

text \<open>Without filling, the padding with 0s makes up for the rest of the longer side.\<close>

lemma zip_fill_pad:
  assumes "rs = (map2 f xs ys @ map ((\<and>) fl) (if fl then drop (length ys) xs else []))
    @ map ((\<and>) fr) (if fr then drop (length xs) ys else [])"
  shows "rs @ replicate (max (length xs) (length ys) - length rs) False = zip_fill f fl fr xs ys"
proof (cases "length xs \<le> length ys")
  case True
  then show ?thesis by (cases fl; cases fr) (simp_all add: assms zip_fill_def map_and_const max_def)
next
  case False
  then show ?thesis by (cases fl; cases fr) (simp_all add: assms zip_fill_def map_and_const max_def)
qed

section \<open>The bitwise operations on any bitmap type\<close>

locale bitwise = lhs: proper lops linv ldec + rhs: proper rops rinv rdec + res: appendable ops inv decode
  for lops :: "'l bitmap_ops" and linv ldec and rops :: "'q bitmap_ops" and rinv rdec
    and ops :: "'r bitmap_ops" and inv decode
begin

lemma binary_eval_spec:
  assumes op: "word_op op f" and x: "linv x" and y: "rinv y"
  shows "\<exists>z. binary_eval fl fr lops rops ops op x y = Some z \<and> inv z
    \<and> decode z = zip_fill f fl fr (ldec x) (rdec y)"
proof -
  let ?L = "ldec x" and ?R = "rdec y"
  obtain lr rr where lr: "bm_range lops x = Some lr" "range_ok lr" "range_nonempty lr" "range_list lr = ?L"
    and rr: "bm_range rops y = Some rr" "range_ok rr" "range_nonempty rr" "range_list rr = ?R"
    using lhs.obtain_proper_range [OF x] rhs.obtain_proper_range [OF y] by metis
  obtain l ls where l: "eval_first (bm_empty lops x) lr = Some (l, ls)" "side_ok l ls" "side_list l ls = ?L"
    using eval_first_spec [OF lr(2,3), of "bm_empty lops x"] lhs.empty_iff [OF x] lr(4) by auto
  obtain q qs where q: "eval_first (bm_empty rops y) rr = Some (q, qs)" "side_ok q qs" "side_list q qs = ?R"
    using eval_first_spec [OF rr(2,3), of "bm_empty rops y"] rhs.empty_iff [OF y] rr(4) by auto
  obtain r l' ls' q' qs' where loop:
    "binary_loop ops op (bm_new ops) l ls q qs = Some (r, (l', ls'), (q', qs'))" "inv r"
    "decode r = map2 f ?L ?R" "side_ok l' ls'" "side_list l' ls' = drop (length ?R) ?L"
    "side_ok q' qs'" "side_list q' qs' = drop (length ?L) ?R"
    using res.binary_loop_spec [OF op l(2) q(2) res.inv_new] l(3) q(3) by (auto simp: res.decode_new)
  obtain r1 where r1: "eval_fill fl ops (l', ls') r = Some r1" "inv r1"
      "decode r1 = map2 f ?L ?R @ map ((\<and>) fl) (if fl then drop (length ?R) ?L else [])"
    using res.eval_fill_spec [OF loop(4,2), of fl] loop(3,5) by auto
  obtain r2 where r2: "eval_fill fr ops (q', qs') r1 = Some r2" "inv r2"
      "decode r2 = decode r1 @ map ((\<and>) fr) (if fr then drop (length ?L) ?R else [])"
    using res.eval_fill_spec [OF loop(6) r1(2), of fr] loop(7) by auto
  let ?max = "max (length ?L) (length ?R)"
  obtain z where z: "bm_append_bits ops False (?max - length (decode r2)) r2 = Some z" "inv z"
      "decode z = decode r2 @ replicate (?max - length (decode r2)) False"
    using res.append_bits [OF r2(2)] by blast
  have sizes: "length (decode r) \<le> ?max" "length (decode r2) \<le> ?max"
    using loop(3) r1(3) r2(3) by (auto simp: min_def max_def)
  have "binary_eval fl fr lops rops ops op x y = Some z"
    using lr(1) rr(1) l(1) q(1) loop(1,2) r1(1,2) r2(1,2) z(1) sizes
    by (simp add: binary_eval_def lhs.size_eq [OF x] rhs.size_eq [OF y] res.size_eq)
  moreover have "decode z = zip_fill f fl fr ?L ?R"
    unfolding z(3) by (rule zip_fill_pad) (simp add: r1(3) r2(3))
  ultimately show ?thesis using z(2) by blast
qed

end

end
