(* ===== verification/Nary_Eval.thy ===== *)
theory Nary_Eval
  imports Binary_Eval "HOL-Library.Multiset"
begin

text \<open>
  The reduction of many bitmaps in \<^verbatim>\<open>bitmap_algorithms.hpp\<close>. The two smallest bitmaps are combined
  until one is left. The locale \<open>reduction\<close> states what the binary operation must satisfy for the
  result not to depend on the order: it acts on each bit position, and the aggregate of a column of
  bits is invariant under combining two of them and under permutation.
\<close>

section \<open>The code\<close>

text \<open>The queue is a \<open>std::priority_queue\<close> whose top is a bitmap of least size. Which one among
  equals is not specified: \<open>nary_run\<close> allows every choice, \<open>nary_loop\<close> takes the first.\<close>

definition is_top :: "('b \<Rightarrow> nat) \<Rightarrow> 'b list \<Rightarrow> 'b \<Rightarrow> bool" where
  "is_top sz q x \<longleftrightarrow> x \<in> set q \<and> (\<forall>y \<in> set q. sz x \<le> sz y)"

inductive nary_run ::
    "'b bitmap_ops \<Rightarrow> ('b \<Rightarrow> 'b \<Rightarrow> 'b option) \<Rightarrow> 'b list \<Rightarrow> 'b \<Rightarrow> bool" for ops op where
  nary_none: "nary_run ops op [] (bm_new ops)"
| nary_last: "nary_run ops op [x] x"
| nary_step: "is_top (bm_size ops) q lhs \<Longrightarrow> is_top (bm_size ops) (remove1 lhs q) rhs \<Longrightarrow>
    op lhs rhs = Some z \<Longrightarrow> nary_run ops op (remove1 rhs (remove1 lhs q) @ [z]) r \<Longrightarrow> nary_run ops op q r"

definition pq_top :: "('b \<Rightarrow> nat) \<Rightarrow> 'b list \<Rightarrow> 'b" where
  "pq_top sz q = hd (filter (\<lambda>x. \<forall>y \<in> set q. sz x \<le> sz y) q)"

lemma pq_top_is_top: "q \<noteq> [] \<Longrightarrow> is_top sz q (pq_top sz q)"
proof -
  assume "q \<noteq> []"
  then obtain x where "is_arg_min sz (\<lambda>x. x \<in> set q) x"
    using ex_is_arg_min_if_finite [of "set q" sz] by auto
  then have "filter (\<lambda>x. \<forall>y \<in> set q. sz x \<le> sz y) q \<noteq> []"
    by (auto simp: filter_empty_conv is_arg_min_def not_less)
  then have "pq_top sz q \<in> set (filter (\<lambda>x. \<forall>y \<in> set q. sz x \<le> sz y) q)"
    unfolding pq_top_def by (rule hd_in_set)
  then show ?thesis by (auto simp: is_top_def)
qed

function nary_eval :: "'b bitmap_ops \<Rightarrow> ('b \<Rightarrow> 'b \<Rightarrow> 'b option) \<Rightarrow> 'b list \<Rightarrow> 'b option" where
  "nary_eval ops op queue =
    (if queue = [] then Some (bm_new ops)
     else do {
       let lhs = pq_top (bm_size ops) queue;
       let queue = remove1 lhs queue;
       if queue = [] then Some lhs
       else do {
         let rhs = pq_top (bm_size ops) queue;
         let queue = remove1 rhs queue;
         z \<leftarrow> op lhs rhs;
         nary_eval ops op (queue @ [z])
       }
     })"
  by pat_completeness auto
termination
proof (relation "measure (\<lambda>(_, _, q). length q)", goal_cases)
  case (2 ops op q lhs q1 rhs q2 z)
  have "lhs \<in> set q" "rhs \<in> set q1"
    using 2 pq_top_is_top [of q "bm_size ops"] pq_top_is_top [of q1 "bm_size ops"]
    by (auto simp: is_top_def)
  moreover have "length q1 > 0" using 2 by simp
  ultimately show ?case using 2 length_pos_if_in_set [of rhs q1]
    by (simp add: length_remove1 split: if_splits)
qed simp

declare nary_eval.simps [simp del]

definition nary_and where
  "nary_and ops = nary_eval ops (binary_and ops ops ops)"

definition nary_or where
  "nary_or ops = nary_eval ops (binary_or ops ops ops)"

definition nary_xor where
  "nary_xor ops = nary_eval ops (binary_xor ops ops ops)"

section \<open>The reduction\<close>

lemma nary_eval_run: "nary_eval ops op q = Some r \<Longrightarrow> nary_run ops op q r"
proof (induction ops op q rule: nary_eval.induct)
  case (1 ops op q)
  let ?lhs = "pq_top (bm_size ops) q"
  let ?q = "remove1 ?lhs q"
  let ?rhs = "pq_top (bm_size ops) ?q"
  show ?case
  proof (cases "q = [] \<or> ?q = []")
    case True
    then show ?thesis
    proof
      assume "q = []"
      then have "r = bm_new ops" using "1.prems" by (subst (asm) nary_eval.simps) simp
      then show ?thesis using \<open>q = []\<close> by (simp add: nary_none)
    next
      assume q: "?q = []"
      show ?thesis
      proof (cases "q = []")
        case False
        then have "q = [?lhs]"
          using q pq_top_is_top [of q "bm_size ops"] by (cases q) (auto simp: is_top_def split: if_splits)
        moreover have "r = ?lhs"
          using False q "1.prems" by (subst (asm) nary_eval.simps) (simp add: Let_def)
        ultimately show ?thesis by (metis nary_last)
      next
        case True
        then have "r = bm_new ops" using "1.prems" by (subst (asm) nary_eval.simps) simp
        then show ?thesis using True by (simp add: nary_none)
      qed
    qed
  next
    case False
    then obtain z where z: "op ?lhs ?rhs = Some z" "nary_eval ops op (remove1 ?rhs ?q @ [z]) = Some r"
      using "1.prems" by (subst (asm) nary_eval.simps) (auto simp: Let_def bind_eq_Some_conv)
    have run: "nary_run ops op (remove1 ?rhs ?q @ [z]) r"
      using False z by (intro "1.IH") simp_all
    have top: "is_top (bm_size ops) q ?lhs" "is_top (bm_size ops) ?q ?rhs"
      using False by (simp_all add: pq_top_is_top)
    show ?thesis by (rule nary_step [OF top z(1) run])
  qed
qed

locale reduction = iterable ops inv decode
  for ops :: "'b bitmap_ops" and inv decode +
  fixes bop :: "'b \<Rightarrow> 'b \<Rightarrow> 'b option" and f :: "bool \<Rightarrow> bool \<Rightarrow> bool" and agg :: "bool list \<Rightarrow> bool"
  assumes bop: "inv x \<Longrightarrow> inv y \<Longrightarrow> \<exists>z. bop x y = Some z \<and> inv z
      \<and> length (decode z) = max (length (decode x)) (length (decode y))
      \<and> (\<forall>i. bit_at (decode z) i = f (bit_at (decode x) i) (bit_at (decode y) i))"
    and agg_one: "agg [a] = a"
    and agg_step: "agg (a # b # bs) = agg (f a b # bs)"
    and agg_perm: "mset as = mset bs \<Longrightarrow> agg as = agg bs"
begin

definition longest :: "'b list \<Rightarrow> nat" where
  "longest q = Max (insert 0 ((\<lambda>x. length (decode x)) ` set q))"

definition column :: "'b list \<Rightarrow> nat \<Rightarrow> bool list" where
  "column q i = map (\<lambda>x. bit_at (decode x) i) q"

lemma longest_perm: "mset p = mset q \<Longrightarrow> longest p = longest q"
  unfolding longest_def by (drule mset_eq_setD) simp

lemma longest_Cons: "longest (x # q) = max (length (decode x)) (longest q)"
proof -
  have "insert 0 ((\<lambda>x. length (decode x)) ` set (x # q))
      = insert (length (decode x)) (insert 0 ((\<lambda>x. length (decode x)) ` set q))"
    by auto
  then show ?thesis unfolding longest_def by (simp only: Max_insert finite_insert finite_imageI finite_set) simp
qed

lemma mset_split: "x \<in> set q \<Longrightarrow> mset q = add_mset x (mset (remove1 x q))"
  by simp

lemma split_tops:
  assumes "is_top sz q x" and "is_top sz (remove1 x q) y"
  shows "mset q = mset (x # y # remove1 y (remove1 x q))"
proof -
  have x: "x \<in> set q" and y: "y \<in> set (remove1 x q)" using assms by (simp_all add: is_top_def)
  show ?thesis unfolding mset_split [OF x] mset_split [OF y] by simp
qed

lemma run_spec:
  "nary_run ops bop q r \<Longrightarrow> q \<noteq> [] \<Longrightarrow> \<forall>x \<in> set q. inv x \<Longrightarrow>
    inv r \<and> length (decode r) = longest q \<and> (\<forall>i. bit_at (decode r) i = agg (column q i))"
proof (induction rule: nary_run.induct)
  case (nary_step q x y z r)
  let ?rest = "remove1 y (remove1 x q)"
  note split = split_tops [OF nary_step(1,2)]
  have "set q = set (x # y # ?rest)" using split by (metis set_mset_mset)
  then have inv: "inv x" "inv y" "\<forall>w \<in> set ?rest. inv w" using nary_step.prems(2) by auto
  from bop [OF inv(1,2)] nary_step(3) have z: "inv z"
      "length (decode z) = max (length (decode x)) (length (decode y))"
      "bit_at (decode z) i = f (bit_at (decode x) i) (bit_at (decode y) i)" for i
    by auto
  have IH: "inv r \<and> length (decode r) = longest (?rest @ [z])
      \<and> (\<forall>i. bit_at (decode r) i = agg (column (?rest @ [z]) i))"
    using z(1) inv(3) by (intro nary_step.IH) auto
  have "longest (?rest @ [z]) = longest (z # ?rest)" by (rule longest_perm) simp
  also have "\<dots> = longest (x # y # ?rest)" using z(2) by (simp add: longest_Cons)
  also have "\<dots> = longest q" using split by (intro longest_perm) simp
  finally have len: "longest (?rest @ [z]) = longest q" .
  have "agg (column (?rest @ [z]) i) = agg (column q i)" for i
  proof -
    have "agg (column (?rest @ [z]) i) = agg (column (z # ?rest) i)"
      by (rule agg_perm) (simp add: column_def)
    also have "\<dots> = agg (column (x # y # ?rest) i)"
      by (simp add: column_def z(3) agg_step)
    also have "\<dots> = agg (column q i)"
      using arg_cong [OF split, of "image_mset (\<lambda>x. bit_at (decode x) i)"]
      by (intro agg_perm) (simp add: column_def del: mset_remove1)
    finally show ?thesis .
  qed
  then show ?case using IH len by simp
qed (simp_all add: longest_Cons column_def agg_one, simp add: longest_def)

lemma eval_total:
  "\<forall>x \<in> set q. inv x \<Longrightarrow> \<exists>r. nary_eval ops bop q = Some r"
proof (induction "length q" arbitrary: q rule: less_induct)
  case less
  let ?lhs = "pq_top (bm_size ops) q"
  let ?q = "remove1 ?lhs q"
  let ?rhs = "pq_top (bm_size ops) ?q"
  show ?case
  proof (cases "q = [] \<or> ?q = []")
    case True
    then show ?thesis by (subst nary_eval.simps) (auto simp: Let_def)
  next
    case False
    then have top: "is_top (bm_size ops) q ?lhs" "is_top (bm_size ops) ?q ?rhs"
      using pq_top_is_top by auto
    note split = split_tops [OF this]
    then have "set q = set (?lhs # ?rhs # remove1 ?rhs ?q)" by (metis set_mset_mset)
    then have inv: "inv ?lhs" "inv ?rhs" "\<forall>w \<in> set (remove1 ?rhs ?q). inv w"
      using less.prems by auto
    obtain z where z: "bop ?lhs ?rhs = Some z" "inv z" using bop [OF inv(1,2)] by auto
    have "length q = length (?lhs # ?rhs # remove1 ?rhs ?q)" using split by (metis size_mset)
    then have "\<exists>r. nary_eval ops bop (remove1 ?rhs ?q @ [z]) = Some r"
      using z(2) inv(3) by (intro less.hyps) auto
    then show ?thesis using False z(1) by (subst nary_eval.simps) (simp add: Let_def)
  qed
qed

end

lemma agg_laws:
  "list_all id [a] = a" "list_all id (a # b # bs) = list_all id ((a \<and> b) # bs)"
  "mset as = mset bs \<Longrightarrow> list_all id as = list_all id bs"
  "list_ex id [a] = a" "list_ex id (a # b # bs) = list_ex id ((a \<or> b) # bs)"
  "mset as = mset bs \<Longrightarrow> list_ex id as = list_ex id bs"
  "odd (count_list [a] True) = a"
  "odd (count_list (a # b # bs) True) = odd (count_list ((a \<noteq> b) # bs) True)"
  "mset as = mset bs \<Longrightarrow> odd (count_list as True) = odd (count_list bs True)"
  by (auto simp: list_all_iff list_ex_iff count_mset dest: mset_eq_setD) (metis count_mset)+

end
