(* ===== verification/Bitmap_Query.thy ===== *)
theory Bitmap_Query
  imports Binary_Eval
begin

text \<open>
  The one-shot queries of \<^verbatim>\<open>bitmap_algorithms.hpp\<close>: \<open>rank\<close>, \<open>select\<close>, \<open>frame\<close>, \<open>any\<close>, \<open>all\<close> and
  \<open>is_subset\<close>. Each runs over the bit range of a bitmap and is related to the positions and counts of
  the list of bits that the bitmap denotes. A position is a 64-bit number, so where an answer may be
  \<open>npos\<close> the lemmas ask for at most \<open>npos\<close> bits.
\<close>

section \<open>The code\<close>

definition count_bits :: "bool \<Rightarrow> bits \<Rightarrow> nat" where
  "count_bits bv b = (if bv then rank_bits True b else bsize b - rank_bits True b)"

fun rank_range :: "bool \<Rightarrow> bits list \<Rightarrow> nat \<Rightarrow> nat \<Rightarrow> nat \<Rightarrow> nat option" where
  "rank_range bv [] i result n = Some result"
| "rank_range bv (b # bs) i result n =
    (if i \<ge> n \<and> i < n + bsize b then map_option ((+) result) (rank_bits_upto bv b (i - n))
     else rank_range bv bs i (result + count_bits bv b) (n + bsize b))"

definition bitmap_rank_upto :: "bool \<Rightarrow> 'b bitmap_ops \<Rightarrow> 'b \<Rightarrow> nat \<Rightarrow> nat option" where
  "bitmap_rank_upto bv ops bm i = do {
     require (i < bm_size ops bm);
     rng \<leftarrow> bm_range ops bm;
     rank_range bv rng i 0 0
   }"

definition bitmap_rank :: "bool \<Rightarrow> 'b bitmap_ops \<Rightarrow> 'b \<Rightarrow> nat option" where
  "bitmap_rank bv ops bm =
    (if bm_empty ops bm then Some 0 else bitmap_rank_upto bv ops bm (bm_size ops bm - 1))"

fun last_in_range :: "bits list \<Rightarrow> nat \<Rightarrow> nat \<Rightarrow> nat" where
  "last_in_range [] n d = d"
| "last_in_range (b # bs) n d =
    (let l = find_last_bits True b
     in last_in_range bs (n + bsize b) (if l \<noteq> npos then n + l else d))"

fun select_in_range :: "bool \<Rightarrow> bits list \<Rightarrow> nat \<Rightarrow> nat \<Rightarrow> nat \<Rightarrow> nat option" where
  "select_in_range bv [] i rnk n = Some npos"
| "select_in_range bv (b # bs) i rnk n =
    (let count = count_bits bv b
     in if rnk + count \<ge> i then map_option ((+) n) (select_bits bv b (i - rnk))
        else select_in_range bv bs i (rnk + count) (n + bsize b))"

definition bitmap_select :: "bool \<Rightarrow> 'b bitmap_ops \<Rightarrow> 'b \<Rightarrow> nat \<Rightarrow> nat option" where
  "bitmap_select bv ops bm i = do {
     require (i > 0);
     rng \<leftarrow> bm_range ops bm;
     if i = npos then Some (last_in_range rng 0 npos) else select_in_range bv rng i 0 0
   }"

fun frame_first :: "bool \<Rightarrow> bits list \<Rightarrow> nat \<Rightarrow> nat \<times> bits list \<times> nat" where
  "frame_first bv [] n = (npos, [], n)"
| "frame_first bv (b # bs) n =
    (let first = find_first_bits bv b
     in if first \<noteq> npos then (n + first, b # bs, n) else frame_first bv bs (n + bsize b))"

fun frame_last :: "bool \<Rightarrow> bits list \<Rightarrow> nat \<Rightarrow> nat \<Rightarrow> nat" where
  "frame_last bv [] n second = second"
| "frame_last bv (b # bs) n second =
    (let last = find_last_bits bv b
     in frame_last bv bs (n + bsize b) (if last \<noteq> npos then n + last else second))"

definition bitmap_frame :: "bool \<Rightarrow> 'b bitmap_ops \<Rightarrow> 'b \<Rightarrow> (nat \<times> nat) option" where
  "bitmap_frame bv ops bm = do {
     rng \<leftarrow> bm_range ops bm;
     let (first, rest, n) = frame_first bv rng 0;
     Some (first, frame_last bv rest n first)
   }"

fun any_in_range :: "bool \<Rightarrow> bits list \<Rightarrow> bool" where
  "any_in_range bv [] = False"
| "any_in_range bv (b # bs) =
    (if bv then (if bdata b \<noteq> 0 then True else any_in_range bv bs)
     else
       (let x = bdata b;
            x = (if bsize b < width then x OR msb_fill (width - bsize b) else x)
        in if x \<noteq> all_word then True else any_in_range bv bs))"

definition bitmap_any :: "bool \<Rightarrow> 'b bitmap_ops \<Rightarrow> 'b \<Rightarrow> bool option" where
  "bitmap_any bv ops bm =
    (if bm_empty ops bm then Some False else map_option (any_in_range bv) (bm_range ops bm))"

definition bitmap_all :: "bool \<Rightarrow> 'b bitmap_ops \<Rightarrow> 'b \<Rightarrow> bool option" where
  "bitmap_all bv ops bm = map_option Not (bitmap_any (\<not> bv) ops bm)"

definition bitmap_is_subset ::
    "'l bitmap_ops \<Rightarrow> 'q bitmap_ops \<Rightarrow> 'r bitmap_ops \<Rightarrow> 'l \<Rightarrow> 'q \<Rightarrow> bool option" where
  "bitmap_is_subset lops rops ops xs ys = do {
     d \<leftarrow> binary_nand lops rops ops xs ys;
     bitmap_all False ops d
   }"

section \<open>Ranges\<close>

lemma count_bits_eq: "bits_inv b \<Longrightarrow> count_bits bv b = count_list (bits_list b) bv"
  using count_list_bool_total [of "bits_list b"] by (cases bv) (auto simp: count_bits_def rank_bits_eq)

lemma map_add_0 [simp]: "map ((+) (0 :: nat)) xs = xs"
  by (simp add: map_idI)

lemma rank_range_eq:
  "range_ok cs \<Longrightarrow> n \<le> i \<Longrightarrow> i < n + length (range_list cs) \<Longrightarrow>
    rank_range bv cs i r n = Some (r + count_list (take (Suc (i - n)) (range_list cs)) bv)"
proof (induction cs arbitrary: r n)
  case (Cons c cs)
  show ?case
  proof (cases "i < n + bsize c")
    case True
    then have "i - n < bsize c" using Cons.prems(2) by linarith
    then show ?thesis using True Cons.prems by (simp add: rank_bits_upto_eq)
  next
    case False
    have "rank_range bv cs i (r + count_bits bv c) (n + bsize c)
        = Some (r + count_bits bv c + count_list (take (Suc (i - (n + bsize c))) (range_list cs)) bv)"
      using False Cons.prems by (intro Cons.IH) simp_all
    moreover have "Suc (i - n) - bsize c = Suc (i - (n + bsize c))" "bsize c \<le> Suc (i - n)"
      using False Cons.prems(2) by simp_all
    ultimately show ?thesis using False Cons.prems(1) by (simp add: count_bits_eq)
  qed
qed simp

lemma select_in_range_eq:
  "range_ok cs \<Longrightarrow> rnk < i \<Longrightarrow>
    select_in_range bv cs i rnk n = Some (nth_or_npos (map ((+) n) (positions bv (range_list cs))) (i - rnk))"
proof (induction cs arbitrary: rnk n)
  case (Cons c cs)
  let ?k = "count_list (bits_list c) bv"
  have count: "count_bits bv c = ?k" using Cons.prems(1) by (simp add: count_bits_eq)
  have split: "map ((+) n) (positions bv (range_list (c # cs)))
      = map ((+) n) (positions bv (bits_list c)) @ map ((+) (n + bsize c)) (positions bv (range_list cs))"
    by (simp add: positions_append o_def add.assoc)
  show ?case
  proof (cases "i \<le> rnk + ?k")
    case True
    then have k: "0 < i - rnk" "i - rnk \<le> ?k" using Cons.prems(2) by simp_all
    moreover have "?k \<le> bsize c" using count_le_length [of "bits_list c" bv] by simp
    ultimately have "select_bits bv c (i - rnk) = Some (nth_or_npos (positions bv (bits_list c)) (i - rnk))"
      using Cons.prems(1) by (intro select_bits_eq) simp_all
    then show ?thesis
      using True count k by (simp add: split nth_or_npos_append length_positions nth_or_npos_map del: range_list_simps)
  next
    case False
    then have "select_in_range bv cs i (rnk + ?k) (n + bsize c)
        = Some (nth_or_npos (map ((+) (n + bsize c)) (positions bv (range_list cs))) (i - (rnk + ?k)))"
      using Cons.prems by (intro Cons.IH) simp_all
    moreover have "\<not> i - rnk \<le> ?k" "0 < i - rnk" using False Cons.prems(2) by simp_all
    ultimately show ?thesis
      using False count
      by (simp add: split nth_or_npos_append length_positions del: range_list_simps)
  qed
qed (simp add: nth_or_npos_def)

lemma bits_find_npos:
  assumes "bits_inv c" and "0 < bsize c" and "bsize c \<le> npos"
  shows "find_first_bits bv c = npos \<longleftrightarrow> positions bv (bits_list c) = []"
    and "find_last_bits bv c = npos \<longleftrightarrow> positions bv (bits_list c) = []"
proof -
  have less: "p < npos" if "p \<in> set (positions bv (bits_list c))" for p
    using positions_less [OF that] assms(3) by simp
  show "find_first_bits bv c = npos \<longleftrightarrow> positions bv (bits_list c) = []"
    "find_last_bits bv c = npos \<longleftrightarrow> positions bv (bits_list c) = []"
    using assms(1,2) less
    by (simp_all add: find_first_bits_eq find_last_bits_eq head_or_npos_eq_npos last_or_npos_eq_npos)
qed

lemma frame_last_eq:
  "range_ok cs \<Longrightarrow> range_nonempty cs \<Longrightarrow> n + length (range_list cs) \<le> npos \<Longrightarrow>
    frame_last bv cs n d
      = (if positions bv (range_list cs) = [] then d else n + last (positions bv (range_list cs)))"
proof (induction cs arbitrary: n d)
  case (Cons c cs)
  let ?d = "if positions bv (bits_list c) = [] then d else n + last (positions bv (bits_list c))"
  have "frame_last bv (c # cs) n d = frame_last bv cs (n + bsize c) ?d"
    using Cons.prems bits_find_npos [of c bv] find_last_bits_eq [of c bv] by (simp add: Let_def)
  also have "\<dots> = (if positions bv (range_list cs) = [] then ?d
      else n + bsize c + last (positions bv (range_list cs)))"
    using Cons.prems by (intro Cons.IH) simp_all
  finally show ?case by (simp add: positions_append last_map)
qed simp

lemma last_in_range_frame: "last_in_range cs n d = frame_last True cs n d"
  by (induction cs n d rule: last_in_range.induct) (simp_all add: Let_def)

lemma frame_first_eq:
  assumes "range_ok cs" and "range_nonempty cs" and "n + length (range_list cs) \<le> npos"
  shows "\<exists>rest m. frame_first bv cs n = ((if positions bv (range_list cs) = [] then npos
      else n + hd (positions bv (range_list cs))), rest, m)
    \<and> (if positions bv (range_list cs) = [] then rest = []
       else range_ok rest \<and> range_nonempty rest \<and> m + length (range_list rest) \<le> npos
         \<and> map ((+) m) (positions bv (range_list rest)) = map ((+) n) (positions bv (range_list cs)))"
  using assms
proof (induction cs arbitrary: n)
  case (Cons c cs)
  note find = bits_find_npos(1) [of c bv] find_first_bits_eq [of c bv]
  show ?case
  proof (cases "positions bv (bits_list c) = []")
    case True
    then have "frame_first bv (c # cs) n = frame_first bv cs (n + bsize c)"
      using Cons.prems find by (simp add: Let_def)
    then show ?thesis
      using Cons.IH [of "n + bsize c"] Cons.prems True
      by (auto simp: positions_append hd_map o_def add.assoc)
  next
    case False
    then have "frame_first bv (c # cs) n = (n + hd (positions bv (bits_list c)), c # cs, n)"
      using Cons.prems find by (cases "positions bv (bits_list c)") (simp_all add: Let_def)
    then show ?thesis using Cons.prems False by (simp add: positions_append)
  qed
qed simp

lemma bdata_zero_iff: "bits_inv b \<Longrightarrow> 0 < bsize b \<Longrightarrow> bdata b = 0 \<longleftrightarrow> True \<notin> set (bits_list b)"
  by (auto simp: bits_inv_def bits_list_def set_bits_of split: if_splits)
    (metis mask_clear_bit not_le u64_zero_iff_bits)+

lemma bdata_ones_iff:
  assumes "bits_inv b" and "0 < bsize b"
  shows "(if bsize b < width then bdata b OR msb_fill (width - bsize b) else bdata b) = all_word
    \<longleftrightarrow> False \<notin> set (bits_list b)"
proof (cases "bsize b > width")
  case True
  then show ?thesis using assms by (auto simp: bits_inv_def bits_list_def)
next
  case False
  have fill: "bit (msb_fill (width - bsize b)) i \<longleftrightarrow> bsize b \<le> i \<and> i < width" for i
    unfolding bit_msb_fill using False by linarith
  have "(if bsize b < width then bdata b OR msb_fill (width - bsize b) else bdata b) = all_word
      \<longleftrightarrow> (\<forall>i < bsize b. bit (bdata b) i)"
  proof (cases "bsize b = width")
    case complete: False
    then have size: "bsize b < width" and less: "i < bsize b \<Longrightarrow> i < width" for i using False by linarith+
    then show ?thesis
      using size by (simp add: u64_ones_iff_bits bit_or_iff fill) (use less not_le in blast)
  qed (simp add: u64_ones_iff_bits)
  then show ?thesis using False by (simp add: bits_list_def set_bits_of)
qed

lemma any_in_range_eq:
  "range_ok cs \<Longrightarrow> range_nonempty cs \<Longrightarrow> any_in_range bv cs \<longleftrightarrow> bv \<in> set (range_list cs)"
proof (induction cs)
  case (Cons c cs)
  then show ?case
    using bdata_zero_iff [of c] bdata_ones_iff [of c] by (cases bv) (auto simp: Let_def)
qed simp

section \<open>Bitmaps\<close>

context iterable
begin

lemma rank_upto_spec:
  assumes "inv b" and "i < length (decode b)"
  shows "bitmap_rank_upto bv ops b i = Some (count_list (take (Suc i) (decode b)) bv)"
proof -
  obtain cs where cs: "bm_range ops b = Some cs" "range_ok cs" "range_list cs = decode b"
    using assms(1) by (rule obtain_range)
  then show ?thesis
    using assms rank_range_eq [of cs 0 i bv 0] by (simp add: bitmap_rank_upto_def size_eq)
qed

lemma rank_spec:
  assumes "inv b"
  shows "bitmap_rank bv ops b = Some (count_list (decode b) bv)"
  using assms rank_upto_spec [of b "length (decode b) - 1" bv]
  by (simp add: bitmap_rank_def empty_iff size_eq)

lemma select_spec:
  assumes "inv b" and "0 < i" and "i \<noteq> npos"
  shows "bitmap_select bv ops b i = Some (nth_or_npos (positions bv (decode b)) i)"
proof -
  obtain cs where cs: "bm_range ops b = Some cs" "range_ok cs" "range_list cs = decode b"
    using assms(1) by (rule obtain_range)
  then show ?thesis
    using assms(2,3) select_in_range_eq [of cs 0 i bv 0] by (simp add: bitmap_select_def map_add_0)
qed

end

context proper
begin

lemma select_last_spec:
  assumes "inv b" and "length (decode b) \<le> npos"
  shows "bitmap_select bv ops b npos = Some (last_or_npos (positions True (decode b)))"
proof -
  obtain cs where cs: "bm_range ops b = Some cs" "range_ok cs" "range_nonempty cs"
      "range_list cs = decode b"
    using assms(1) by (rule obtain_proper_range)
  have "0 < npos" by (simp add: npos_def)
  then show ?thesis
    using cs assms(2) frame_last_eq [of cs 0 True npos]
    by (simp add: bitmap_select_def last_in_range_frame last_or_npos_def)
qed

lemma frame_spec:
  assumes "inv b" and "length (decode b) \<le> npos"
  shows "bitmap_frame bv ops b
    = Some (head_or_npos (positions bv (decode b)), last_or_npos (positions bv (decode b)))"
proof -
  obtain cs where cs: "bm_range ops b = Some cs" "range_ok cs" "range_nonempty cs"
      "range_list cs = decode b"
    using assms(1) by (rule obtain_proper_range)
  obtain rest m where first: "frame_first bv cs 0 = (head_or_npos (positions bv (decode b)), rest, m)"
    and rest: "if positions bv (decode b) = [] then rest = []
       else range_ok rest \<and> range_nonempty rest \<and> m + length (range_list rest) \<le> npos
         \<and> map ((+) m) (positions bv (range_list rest)) = positions bv (decode b)"
    using frame_first_eq [of cs 0 bv] cs assms(2)
    by (cases "positions bv (decode b)") auto
  have "frame_last bv rest m (head_or_npos (positions bv (decode b)))
      = last_or_npos (positions bv (decode b))"
  proof (cases "positions bv (decode b) = []")
    case False
    then have ne: "positions bv (range_list rest) \<noteq> []" using rest by auto
    have "last (positions bv (decode b)) = m + last (positions bv (range_list rest))"
      using rest False last_map [OF ne, of "(+) m"] by auto
    then show ?thesis using rest False ne by (simp add: frame_last_eq)
  qed (use rest in simp)
  then show ?thesis using cs(1) first by (simp add: bitmap_frame_def)
qed

lemma any_spec:
  assumes "inv b"
  shows "bitmap_any bv ops b = Some (bv \<in> set (decode b))"
proof -
  obtain cs where cs: "bm_range ops b = Some cs" "range_ok cs" "range_nonempty cs"
      "range_list cs = decode b"
    using assms by (rule obtain_proper_range)
  then show ?thesis using assms any_in_range_eq [of cs bv] by (simp add: bitmap_any_def empty_iff)
qed

lemma all_spec: "inv b \<Longrightarrow> bitmap_all bv ops b = Some (\<forall>x \<in> set (decode b). x = bv)"
  unfolding bitmap_all_def by (cases bv) (auto simp: any_spec, metis+)

end

text \<open>The subset test needs to iterate over the result of the difference.\<close>

locale subset_test = bitwise lops linv ldec rops rinv rdec ops inv decode + diff: proper ops inv decode
  for lops :: "'l bitmap_ops" and linv ldec and rops :: "'q bitmap_ops" and rinv rdec
    and ops :: "'r bitmap_ops" and inv decode
begin

lemma is_subset_spec:
  assumes "linv x" and "rinv y"
  shows "bitmap_is_subset lops rops ops x y = Some (\<forall>i. bit_at (ldec x) i \<longrightarrow> bit_at (rdec y) i)"
proof -
  obtain z where z: "binary_nand lops rops ops x y = Some z" "inv z"
      "decode z = zip_fill (\<lambda>x y. x \<and> \<not> y) True False (ldec x) (rdec y)"
    using binary_eval_spec [OF _ assms, of "\<lambda>x y. x AND NOT y" "\<lambda>x y. x \<and> \<not> y" True False]
    unfolding binary_nand_def by auto
  have "(\<forall>b \<in> set (decode z). b = False) \<longleftrightarrow> (\<forall>i. \<not> bit_at (decode z) i)"
    by (auto simp: bit_at_def set_conv_nth)
  then show ?thesis using z by (simp add: bitmap_is_subset_def diff.all_spec bit_at_ops)
qed

end

end
