(* ===== verification/Bitwise_Range.thy ===== *)
theory Bitwise_Range
  imports Binary_Eval
begin

text \<open>
  The class \<open>bitwise_range\<close> of \<^verbatim>\<open>bitmap_algorithms.hpp\<close>: a cursor over the single bits of a bit
  range. The rest of the underlying range is a list, whose head is the current bit sequence; \<open>br_i\<close>
  is the position in it (\<open>npos\<close> at the end) and \<open>br_n\<close> the number of bits before it. \<open>br_inv xs r\<close>
  says that \<open>r\<close> is a cursor over the bits \<open>xs\<close> and \<open>br_pos r\<close> is its position, \<open>None\<close> at the end.
  Every operation refines a move on positions.
\<close>

section \<open>The code\<close>

record bitwise_range =
  br_rest :: "bits list"
  br_i :: nat
  br_n :: nat

definition br_new :: "bits list \<Rightarrow> bitwise_range" where
  "br_new rng = \<lparr>br_rest = rng, br_i = (if rng = [] then npos else 0), br_n = 0\<rparr>"

definition br_done :: "bitwise_range \<Rightarrow> bool" where
  "br_done r \<longleftrightarrow> br_rest r = [] \<and> br_i r = npos"

definition br_bits :: "bitwise_range \<Rightarrow> bits option" where
  "br_bits r = do {
     require (\<not> br_done r);
     (case br_rest r of [] \<Rightarrow> None | b # _ \<Rightarrow> Some b)
   }"

definition br_offset :: "bitwise_range \<Rightarrow> nat option" where
  "br_offset r = do { require (\<not> br_done r); Some (br_n r + br_i r) }"

definition br_value :: "bitwise_range \<Rightarrow> bool option" where
  "br_value r = do { require (\<not> br_done r); b \<leftarrow> br_bits r; bits_index b (br_i r) }"

definition br_get :: "bitwise_range \<Rightarrow> nat option" where
  "br_get r = do { require (\<not> br_done r); br_offset r }"

definition br_next :: "bitwise_range \<Rightarrow> bitwise_range option" where
  "br_next r = do {
     require (\<not> br_done r);
     let r = r\<lparr>br_i := br_i r + 1\<rparr>;
     b \<leftarrow> br_bits r;
     if br_i r = bsize b then
       let rest = tl (br_rest r)
       in Some \<lparr>br_rest = rest, br_i = (if rest = [] then npos else 0), br_n = br_n r + bsize b\<rparr>
     else Some r
   }"

fun br_next_loop :: "bits list \<Rightarrow> nat \<Rightarrow> nat \<Rightarrow> bitwise_range" where
  "br_next_loop [] k n = \<lparr>br_rest = [], br_i = npos, br_n = n\<rparr>"
| "br_next_loop (b # bs) k n =
    (if k > 0 then
       if k \<le> bsize b then \<lparr>br_rest = b # bs, br_i = k - 1, br_n = n\<rparr>
       else br_next_loop bs (k - bsize b) (n + bsize b)
     else \<lparr>br_rest = b # bs, br_i = npos, br_n = n\<rparr>)"

definition br_next_k :: "nat \<Rightarrow> bitwise_range \<Rightarrow> bitwise_range option" where
  "br_next_k k r = do {
     require (k > 0);
     require (br_i r \<noteq> npos);
     b \<leftarrow> br_bits r;
     require (\<not> bits_empty b);
     let remaining_bits = bsize b - br_i r - 1;
     if k \<le> remaining_bits then br_next (r\<lparr>br_i := br_i r + (k - 1)\<rparr>)
     else Some (br_next_loop (tl (br_rest r)) (k - remaining_bits) (br_n r + bsize b))
   }"

fun br_select_loop :: "bool \<Rightarrow> bits list \<Rightarrow> nat \<Rightarrow> bitwise_range" where
  "br_select_loop bv [] n = \<lparr>br_rest = [], br_i = npos, br_n = n\<rparr>"
| "br_select_loop bv (b # bs) n =
    (let i = find_first_bits bv b
     in if i = npos then br_select_loop bv bs (n + bsize b)
        else \<lparr>br_rest = b # bs, br_i = i, br_n = n\<rparr>)"

definition br_select :: "bool \<Rightarrow> bitwise_range \<Rightarrow> bitwise_range option" where
  "br_select bv r = do {
     require (br_i r \<noteq> npos);
     b \<leftarrow> br_bits r;
     let i = find_next_bits bv b (br_i r);
     Some (if i = npos then br_select_loop bv (tl (br_rest r)) (br_n r + bsize b) else r\<lparr>br_i := i\<rparr>)
   }"

fun br_select_k_loop :: "bool \<Rightarrow> bits list \<Rightarrow> nat \<Rightarrow> nat \<Rightarrow> bitwise_range option" where
  "br_select_k_loop bv [] k n = Some \<lparr>br_rest = [], br_i = npos, br_n = n\<rparr>"
| "br_select_k_loop bv (b # bs) k n = do {
     require (k > 0);
     i \<leftarrow> (if k \<le> bsize b then select_bits bv b k else Some npos);
     if i \<noteq> npos then Some \<lparr>br_rest = b # bs, br_i = i, br_n = n\<rparr>
     else br_select_k_loop bv bs (sub64 k (rank_bits bv b)) (n + bsize b)
   }"

definition br_select_k :: "bool \<Rightarrow> nat \<Rightarrow> bitwise_range \<Rightarrow> bitwise_range option" where
  "br_select_k bv k r = do {
     require (k > 0);
     require (br_i r \<noteq> npos);
     b \<leftarrow> br_bits r;
     prev \<leftarrow> rank_bits_upto bv b (br_i r);
     let remaining = sub64 (rank_bits bv b) prev;
     if k \<le> remaining then do {
       i \<leftarrow> select_bits bv b (prev + k);
       require (i \<noteq> npos);
       Some (r\<lparr>br_i := i\<rparr>)
     } else br_select_k_loop bv (tl (br_rest r)) (k - remaining) (br_n r + bsize b)
   }"

definition br_select_from :: "bool \<Rightarrow> nat \<Rightarrow> bitwise_range \<Rightarrow> bitwise_range option" where
  "br_select_from bv x r = do {
     require (\<not> br_done r);
     offset \<leftarrow> br_offset r;
     require (x \<ge> offset);
     r \<leftarrow> (if x > offset then br_next_k (x - offset) r else Some r);
     if br_done r then Some r
     else do {
       v \<leftarrow> br_value r;
       if v \<noteq> bv then br_select bv r else Some r
     }
   }"

section \<open>The cursor\<close>

definition br_inv :: "bool list \<Rightarrow> bitwise_range \<Rightarrow> bool" where
  "br_inv xs r \<longleftrightarrow> range_ok (br_rest r) \<and> range_nonempty (br_rest r) \<and> length xs < npos
    \<and> br_n r \<le> length xs \<and> drop (br_n r) xs = range_list (br_rest r)
    \<and> (case br_rest r of [] \<Rightarrow> br_i r = npos | b # _ \<Rightarrow> br_i r < bsize b)"

definition br_pos :: "bitwise_range \<Rightarrow> nat option" where
  "br_pos r = (if br_done r then None else Some (br_n r + br_i r))"

definition first_of :: "nat list \<Rightarrow> nat option" where
  "first_of ps = (case ps of [] \<Rightarrow> None | p # _ \<Rightarrow> Some p)"

lemma first_of_simps [simp]: "first_of [] = None" "first_of (p # ps) = Some p"
  by (simp_all add: first_of_def)

lemma first_of_append: "first_of (ps @ qs) = (if ps = [] then first_of qs else first_of ps)"
  by (cases ps) simp_all

lemma first_of_map: "first_of (map f ps) = map_option f (first_of ps)"
  by (cases ps) simp_all

lemma first_of_eq_None [simp]: "first_of ps = None \<longleftrightarrow> ps = []"
  by (cases ps) simp_all

lemma head_or_npos_first: "head_or_npos ps = (case first_of ps of None \<Rightarrow> npos | Some p \<Rightarrow> p)"
  by (cases ps) simp_all

lemma br_cases:
  assumes "br_inv xs r"
  obtains (stop) "br_rest r = []" "br_i r = npos" "br_pos r = None" "br_done r"
  | (at) b bs where "br_rest r = b # bs" "br_i r < bsize b" "br_pos r = Some (br_n r + br_i r)"
      "\<not> br_done r" "bits_inv b" "range_ok bs" "range_nonempty bs"
      "length xs = br_n r + bsize b + length (range_list bs)" "length xs < npos"
      "drop (br_n r) xs = bits_list b @ range_list bs" "drop (br_n r + bsize b) xs = range_list bs"
proof (cases "br_rest r")
  case Nil
  then show ?thesis using assms by (intro stop) (simp_all add: br_inv_def br_pos_def br_done_def)
next
  case (Cons b bs)
  have d: "drop (br_n r) xs = bits_list b @ range_list bs" using assms Cons by (simp add: br_inv_def)
  have "drop (br_n r + bsize b) xs = drop (bsize b) (drop (br_n r) xs)" by (simp add: add.commute)
  then have "drop (br_n r + bsize b) xs = range_list bs" using d by simp
  moreover have "length xs = br_n r + bsize b + length (range_list bs)"
  proof -
    have "length xs - br_n r = bsize b + length (range_list bs)"
      using arg_cong [OF d, of length] by simp
    moreover have "br_n r \<le> length xs" using assms by (simp add: br_inv_def)
    ultimately show ?thesis by linarith
  qed
  ultimately show ?thesis
    using assms Cons d by (intro at [of b bs]) (simp_all add: br_inv_def br_pos_def br_done_def)
qed

text \<open>A cursor on the rest of the range, at its first bit or at a later one.\<close>

lemma br_invI:
  assumes "range_ok (b # bs)" and "range_nonempty (b # bs)" and "length xs < npos"
    and "n \<le> length xs" and "drop n xs = range_list (b # bs)" and "i < bsize b"
  shows "br_inv xs \<lparr>br_rest = b # bs, br_i = i, br_n = n\<rparr>"
    and "br_pos \<lparr>br_rest = b # bs, br_i = i, br_n = n\<rparr> = Some (n + i)"
  using assms by (simp_all add: br_inv_def br_pos_def br_done_def)

lemma br_inv_end:
  assumes "length xs < npos" and "n = length xs"
  shows "br_inv xs \<lparr>br_rest = [], br_i = npos, br_n = n\<rparr>"
    and "br_pos \<lparr>br_rest = [], br_i = npos, br_n = n\<rparr> = None"
  using assms by (simp_all add: br_inv_def br_pos_def br_done_def)

lemma br_new_spec:
  assumes "range_ok cs" and "range_nonempty cs" and "length (range_list cs) < npos"
  shows "br_inv (range_list cs) (br_new cs)"
    and "br_pos (br_new cs) = (if range_list cs = [] then None else Some 0)"
  using assms by (cases cs; simp add: br_new_def br_inv_def br_pos_def br_done_def)+

lemma br_get_eq: "br_get r = br_pos r"
  by (simp add: br_get_def br_offset_def br_pos_def require_def)

lemma br_value_spec:
  assumes "br_inv xs r" and "br_pos r = Some p"
  shows "br_value r = Some (xs ! p) \<and> p < length xs"
  using assms(1)
proof (cases rule: br_cases)
  case (at b bs)
  have "xs ! p = drop (br_n r) xs ! br_i r"
    using at(3,8) assms(2) nth_drop [of "br_n r" xs "br_i r"] by simp
  then show ?thesis
    using at assms(2) by (simp add: br_value_def br_bits_def bits_index_eq nth_append)
qed (use assms(2) in simp)

lemma positions_split:
  assumes "n \<le> length xs" and "drop n xs = ys @ zs"
  shows "filter ((\<le>) n) (positions bv xs)
    = map ((+) n) (positions bv ys) @ map ((+) (n + length ys)) (positions bv zs)"
proof -
  have "positions bv xs = positions bv (take n xs) @ map ((+) n) (positions bv (ys @ zs))"
    using positions_append [of bv "take n xs" "ys @ zs"] assms
    by (metis append_take_drop_id length_take min_absorb2)
  moreover have "filter ((\<le>) n) (positions bv (take n xs)) = []"
    using assms(1) by (auto simp: filter_empty_conv not_le dest!: positions_less)
  ultimately show ?thesis
    by (simp add: positions_append o_def add.assoc filter_map)
qed

lemma filter_above:
  fixes m n :: nat
  assumes "m \<le> Suc n"
  shows "filter ((<) n) ps = filter ((<) n) (filter ((\<le>) m) ps)"
proof -
  have "n < x \<longleftrightarrow> m \<le> x \<and> n < x" for x using assms by linarith
  then show ?thesis by (simp add: conj_commute)
qed

section \<open>The moves\<close>

lemma br_next_loop_spec:
  assumes "range_ok bs" and "range_nonempty bs" and "length xs < npos" and "n \<le> length xs"
    and "drop n xs = range_list bs" and "0 < k"
  shows "br_inv xs (br_next_loop bs k n)
    \<and> br_pos (br_next_loop bs k n) = (if n + k - 1 < length xs then Some (n + k - 1) else None)"
  using assms
proof (induction bs k n rule: br_next_loop.induct)
  case (1 k n)
  then have "n = length xs" by simp
  with 1 show ?case by (simp add: br_inv_end)
next
  case (2 b bs k n)
  have len: "length xs = n + bsize b + length (range_list bs)"
    using arg_cong [OF "2.prems"(5), of length] "2.prems"(4) by simp
  show ?case
  proof (cases "k \<le> bsize b")
    case True
    then show ?thesis using "2.prems" br_invI [OF "2.prems"(1-5), of "k - 1"] len by simp
  next
    case False
    have "drop (n + bsize b) xs = drop (bsize b) (drop n xs)" by (simp add: add.commute)
    then have "drop (n + bsize b) xs = range_list bs" using "2.prems"(5) by simp
    then show ?thesis
      using 2 False len by simp
  qed
qed

lemma br_next_spec:
  assumes "br_inv xs r" and "br_pos r = Some p"
  shows "\<exists>r'. br_next r = Some r' \<and> br_inv xs r'
    \<and> br_pos r' = (if p + 1 < length xs then Some (p + 1) else None)"
  using assms(1)
proof (cases rule: br_cases)
  case (at b bs)
  have npos: "br_i r \<noteq> npos" "Suc (br_i r) \<noteq> npos" using at by linarith+
  have bits: "br_bits (r\<lparr>br_i := br_i r + 1\<rparr>) = Some b"
    using at by (simp add: br_bits_def br_done_def)
  show ?thesis
  proof (cases "br_i r + 1 = bsize b")
    case False
    then have "br_i r + 1 < bsize b" using at by simp
    then show ?thesis
      using at False bits assms(2) br_invI [of b bs xs "br_n r" "br_i r + 1"]
      by (simp add: br_next_def br_inv_def br_pos_def br_done_def)
  next
    case True
    let ?r = "\<lparr>br_rest = bs, br_i = if bs = [] then npos else 0, br_n = br_n r + bsize b\<rparr>"
    have "br_next r = Some ?r" using at True bits by (simp add: br_next_def)
    moreover have "br_inv xs ?r \<and> br_pos ?r = (if p + 1 < length xs then Some (p + 1) else None)"
      using at True assms(2) by (cases bs) (simp_all add: br_inv_def br_pos_def br_done_def)
    ultimately show ?thesis by blast
  qed
qed (use assms(2) in simp)

lemma br_next_k_spec:
  assumes "br_inv xs r" and "br_pos r = Some p" and "0 < k"
  shows "\<exists>r'. br_next_k k r = Some r' \<and> br_inv xs r'
    \<and> br_pos r' = (if p + k < length xs then Some (p + k) else None)"
  using assms(1)
proof (cases rule: br_cases)
  case (at b bs)
  have npos: "br_i r \<noteq> npos" using at by linarith
  have bits: "br_bits r = Some b" "\<not> bits_empty b"
    using at by (auto simp: br_bits_def br_done_def bits_empty_def)
  show ?thesis
  proof (cases "k \<le> bsize b - br_i r - 1")
    case True
    let ?r = "r\<lparr>br_i := br_i r + (k - 1)\<rparr>"
    have r: "br_inv xs ?r" "br_pos ?r = Some (p + (k - 1))"
      using at assms True by (simp_all add: br_inv_def br_pos_def br_done_def)
    have code: "br_next_k k r = br_next ?r"
      using npos bits True assms(3) by (simp add: br_next_k_def)
    have sum: "p + (k - 1) + 1 = p + k" using assms(3) by simp
    show ?thesis unfolding code using br_next_spec [OF r] unfolding sum .
  next
    case False
    let ?k = "k - (bsize b - br_i r - 1)" and ?n = "br_n r + bsize b"
    have "br_next_k k r = Some (br_next_loop bs ?k ?n)"
      using npos bits False assms(3) at(1) by (simp add: br_next_k_def)
    moreover have "?n + ?k - 1 = p + k" using False at assms(2) by simp
    ultimately show ?thesis
      using br_next_loop_spec [of bs xs ?n ?k] at False by simp
  qed
qed (use assms(2) in simp)

lemma find_first_of:
  assumes "bits_inv b" and "0 < bsize b" and "bsize b < npos"
  shows "find_first_bits bv b = npos \<longleftrightarrow> positions bv (bits_list b) = []"
    and "find_first_bits bv b \<noteq> npos \<Longrightarrow> first_of (positions bv (bits_list b)) = Some (find_first_bits bv b)"
    and "find_first_bits bv b \<noteq> npos \<Longrightarrow> find_first_bits bv b < bsize b"
proof -
  have less: "p \<in> set (positions bv (bits_list b)) \<Longrightarrow> p < bsize b" for p
    using positions_less by fastforce
  note eq = find_first_bits_eq [OF assms(1,2), of bv]
  show "find_first_bits bv b = npos \<longleftrightarrow> positions bv (bits_list b) = []"
    "find_first_bits bv b \<noteq> npos \<Longrightarrow> first_of (positions bv (bits_list b)) = Some (find_first_bits bv b)"
    "find_first_bits bv b \<noteq> npos \<Longrightarrow> find_first_bits bv b < bsize b"
    using less assms(3) unfolding eq
    by (cases "positions bv (bits_list b)"; fastforce)+
qed

lemma br_select_loop_spec:
  assumes "range_ok bs" and "range_nonempty bs" and "length xs < npos" and "n \<le> length xs"
    and "drop n xs = range_list bs"
  shows "br_inv xs (br_select_loop bv bs n)
    \<and> br_pos (br_select_loop bv bs n) = first_of (filter ((\<le>) n) (positions bv xs))"
  using assms
proof (induction bv bs n rule: br_select_loop.induct)
  case (1 bv n)
  then have "n = length xs" by simp
  moreover from this have "filter ((\<le>) n) (positions bv xs) = []"
    by (auto simp: filter_empty_conv dest: positions_less)
  ultimately show ?case using 1 by (simp add: br_inv_end)
next
  case (2 bv b bs n)
  have len: "length xs = n + bsize b + length (range_list bs)"
    using arg_cong [OF "2.prems"(5), of length] "2.prems"(4) by simp
  have split: "filter ((\<le>) n) (positions bv xs) = map ((+) n) (positions bv (bits_list b))
      @ map ((+) (n + bsize b)) (positions bv (range_list bs))"
    using positions_split [of n xs "bits_list b" "range_list bs"] "2.prems" by simp
  have b: "bits_inv b" "0 < bsize b" "bsize b < npos" using "2.prems" len by simp_all
  note find = find_first_of [OF b, of bv]
  show ?case
  proof (cases "find_first_bits bv b = npos")
    case True
    have "drop (n + bsize b) xs = drop (bsize b) (drop n xs)" by (simp add: add.commute)
    then have drop: "drop (n + bsize b) xs = range_list bs" using "2.prems"(5) by simp
    have "filter ((\<le>) (n + bsize b)) (positions bv xs) = map ((+) (n + bsize b)) (positions bv (range_list bs))"
      using positions_split [of "n + bsize b" xs "range_list bs" "[]"] drop len by simp
    then have "filter ((\<le>) (n + bsize b)) (positions bv xs) = filter ((\<le>) n) (positions bv xs)"
      using split find(1) True by simp
    then show ?thesis using "2.IH" [OF refl True] True "2.prems" drop len by simp
  next
    case False
    then have "first_of (filter ((\<le>) n) (positions bv xs)) = Some (n + find_first_bits bv b)"
      using find by (simp add: split first_of_append first_of_map)
    then show ?thesis using False "2.prems" find(3) br_invI [OF "2.prems"(1-5)] by (simp add: Let_def)
  qed
qed

lemma br_split_above:
  assumes "br_rest r = b # bs" and "br_i r < bsize b"
    and "length xs = br_n r + bsize b + length (range_list bs)"
    and "drop (br_n r) xs = bits_list b @ range_list bs"
  shows "filter ((<) (br_n r + br_i r)) (positions bv xs)
    = map ((+) (br_n r)) (filter ((<) (br_i r)) (positions bv (bits_list b)))
      @ map ((+) (br_n r + bsize b)) (positions bv (range_list bs))"
proof -
  let ?n = "br_n r" and ?p = "br_n r + br_i r"
  have "filter ((<) ?p) (positions bv xs) = filter ((<) ?p) (map ((+) ?n) (positions bv (bits_list b))
      @ map ((+) (?n + bsize b)) (positions bv (range_list bs)))"
    using filter_above [of ?n ?p "positions bv xs"]
      positions_split [of ?n xs "bits_list b" "range_list bs"] assms by simp
  moreover have "?p < ?n + bsize b + q" for q using assms(2) by simp
  ultimately show ?thesis by (simp add: filter_map o_def)
qed

lemma br_select_spec:
  assumes "br_inv xs r" and "br_pos r = Some p"
  shows "\<exists>r'. br_select bv r = Some r' \<and> br_inv xs r'
    \<and> br_pos r' = first_of (filter ((<) p) (positions bv xs))"
  using assms(1)
proof (cases rule: br_cases)
  case (at b bs)
  let ?n = "br_n r" and ?i = "br_i r"
  have npos: "?i \<noteq> npos" using at by linarith
  have bits: "br_bits r = Some b" using at by (simp add: br_bits_def)
  have p: "p = ?n + ?i" using at assms(2) by simp
  let ?ps = "filter ((<) ?i) (positions bv (bits_list b))"
  have split: "filter ((<) p) (positions bv xs) = map ((+) ?n) ?ps
      @ map ((+) (?n + bsize b)) (positions bv (range_list bs))"
    unfolding p using at by (intro br_split_above) simp_all
  have find: "find_next_bits bv b ?i = head_or_npos ?ps"
    using at by (intro find_next_bits_eq) simp_all
  have less: "q \<in> set ?ps \<Longrightarrow> q < bsize b" for q by (auto dest: positions_less)
  show ?thesis
  proof (cases ?ps)
    case Nil
    have "filter ((\<le>) (?n + bsize b)) (positions bv xs)
        = map ((+) (?n + bsize b)) (positions bv (range_list bs))"
      using positions_split [of "?n + bsize b" xs "range_list bs" "[]"] at by simp
    then have "filter ((<) p) (positions bv xs) = filter ((\<le>) (?n + bsize b)) (positions bv xs)"
      using split Nil by simp
    moreover have "br_select bv r = Some (br_select_loop bv bs (?n + bsize b))"
      using npos bits find Nil at by (simp add: br_select_def)
    ultimately show ?thesis
      using br_select_loop_spec [of bs xs "?n + bsize b" bv] at by simp
  next
    case (Cons q qs)
    then have q: "q < bsize b" using less [of q] by simp
    then have "q \<noteq> npos" using at by linarith
    then have "br_select bv r = Some (r\<lparr>br_i := q\<rparr>)"
      using npos bits find Cons by (simp add: br_select_def)
    moreover have "br_inv xs (r\<lparr>br_i := q\<rparr>)" "br_pos (r\<lparr>br_i := q\<rparr>) = Some (?n + q)"
      using at q assms(1) by (simp_all add: br_inv_def br_pos_def br_done_def)
    ultimately show ?thesis using split Cons by simp
  qed
qed (use assms(2) in simp)

lemma positions_from:
  assumes "x < length xs"
  shows "filter ((\<le>) x) (positions bv xs)
    = (if xs ! x = bv then [x] else []) @ filter ((<) x) (positions bv xs)"
proof -
  have "filter ((\<le>) x) [0..<n] = [x..<n]" for n by (induction n) auto
  then have "filter ((\<le>) x) [0..<length xs] = x # filter ((<) x) [0..<length xs]"
    using assms by (simp add: filter_less_upt upt_conv_Cons)
  from arg_cong [OF this, of "filter (\<lambda>i. xs ! i = bv)"] show ?thesis
    by (simp add: positions_def conj_commute)
qed

lemma br_select_from_spec:
  assumes "br_inv xs r" and "br_pos r = Some p" and "p \<le> x"
  shows "\<exists>r'. br_select_from bv x r = Some r' \<and> br_inv xs r'
    \<and> br_pos r' = first_of (filter ((\<le>) x) (positions bv xs))"
proof -
  have run: "\<not> br_done r" "br_offset r = Some p"
    using assms(2) by (auto simp: br_pos_def br_offset_def split: if_splits)
  obtain r1 where r1: "(if x > p then br_next_k (x - p) r else Some r) = Some r1" "br_inv xs r1"
      "br_pos r1 = (if x < length xs then Some x else None)"
  proof (cases "x > p")
    case True
    then obtain r' where "br_next_k (x - p) r = Some r'" "br_inv xs r'"
        "br_pos r' = (if x < length xs then Some x else None)"
      using br_next_k_spec [OF assms(1,2), of "x - p"] by auto
    then show ?thesis using True by (intro that [of r']) simp_all
  next
    case False
    then have "x = p" using assms(3) by simp
    then show ?thesis using assms br_value_spec [OF assms(1,2)] by (intro that [of r]) simp_all
  qed
  have code: "br_select_from bv x r = (if br_done r1 then Some r1 else do {
       v \<leftarrow> br_value r1; if v \<noteq> bv then br_select bv r1 else Some r1 })"
    using run assms(3) by (simp add: br_select_from_def r1(1) del: not_less)
  show ?thesis
  proof (cases "x < length xs")
    case False
    then have "br_done r1" using r1(3) by (simp add: br_pos_def split: if_splits)
    moreover have "filter ((\<le>) x) (positions bv xs) = []"
      using False by (auto simp: filter_empty_conv dest!: positions_less)
    ultimately show ?thesis using code r1(2,3) False by simp
  next
    case True
    then have pos: "br_pos r1 = Some x" "\<not> br_done r1" using r1(3) by (auto simp: br_pos_def split: if_splits)
    have val: "br_value r1 = Some (xs ! x)" using br_value_spec [OF r1(2) pos(1)] by simp
    have cons: "filter ((\<le>) x) (positions bv xs)
        = (if xs ! x = bv then [x] else []) @ filter ((<) x) (positions bv xs)"
      using True by (rule positions_from)
    show ?thesis
    proof (cases "xs ! x = bv")
      case True
      then show ?thesis using code pos val cons r1(2) by simp
    next
      case False
      then show ?thesis using code pos val cons br_select_spec [OF r1(2) pos(1)] by simp
    qed
  qed
qed

text \<open>The move by \<open>k\<close> occurrences, for 1-bits. For 0-bits the selection within a partial word may
  answer a position behind its end.\<close>

definition nth_of :: "nat list \<Rightarrow> nat \<Rightarrow> nat option" where
  "nth_of ps k = (if 0 < k \<and> k \<le> length ps then Some (ps ! (k - 1)) else None)"

lemma nth_of_append:
  "0 < k \<Longrightarrow> nth_of (ps @ qs) k = (if k \<le> length ps then nth_of ps k else nth_of qs (k - length ps))"
  by (auto simp: nth_of_def nth_append)

lemma nth_of_map: "nth_of (map f ps) k = map_option f (nth_of ps k)"
  by (auto simp: nth_of_def)

lemma select_one:
  assumes "bits_inv b" and "0 < k" and "k \<le> bsize b" and "bsize b < npos"
  obtains i where "select_bits True b k = Some i" "i < bsize b" "i \<noteq> npos"
      "nth_of (positions True (bits_list b)) k = Some i" "k \<le> count_list (bits_list b) True"
  | "select_bits True b k = Some npos" "count_list (bits_list b) True < k"
proof (cases "k \<le> length (positions True (bits_list b))")
  case True
  then have "positions True (bits_list b) ! (k - 1) \<in> set (positions True (bits_list b))"
    using assms(2) by (intro nth_mem) simp
  then have "positions True (bits_list b) ! (k - 1) < bsize b" by (auto dest: positions_less)
  then show ?thesis
    using True assms select_bits_eq [OF assms(1-3), of True]
    by (intro that(1) [of "positions True (bits_list b) ! (k - 1)"])
      (simp_all add: nth_or_npos_def nth_of_def length_positions)
next
  case False
  then show ?thesis
    using assms select_bits_eq [OF assms(1-3), of True] that(2)
    by (simp add: nth_or_npos_def length_positions)
qed

lemma br_select_k_loop_spec:
  assumes "range_ok bs" and "range_nonempty bs" and "length xs < npos" and "n \<le> length xs"
    and "drop n xs = range_list bs" and "0 < k"
  shows "\<exists>r. br_select_k_loop True bs k n = Some r \<and> br_inv xs r
    \<and> br_pos r = nth_of (map ((+) n) (positions True (range_list bs))) k"
  using assms
proof (induction bs arbitrary: k n)
  case Nil
  then have "n = length xs" by simp
  from br_inv_end [OF Nil.prems(3) this] show ?case by (auto simp: nth_of_def)
next
  case (Cons b bs)
  have len: "length xs = n + bsize b + length (range_list bs)"
    using arg_cong [OF Cons.prems(5), of length] Cons.prems(4) by simp
  let ?ps = "positions True (bits_list b)"
  have split: "map ((+) n) (positions True (range_list (b # bs)))
      = map ((+) n) ?ps @ map ((+) (n + bsize b)) (positions True (range_list bs))"
    by (simp add: positions_append o_def add.assoc)
  consider i where "k \<le> bsize b" "select_bits True b k = Some i" "i < bsize b" "i \<noteq> npos"
      "nth_of ?ps k = Some i" "k \<le> length ?ps"
    | "(if k \<le> bsize b then select_bits True b k else Some npos) = Some npos" "length ?ps < k"
  proof (cases "k \<le> bsize b")
    case True
    show ?thesis
      using select_one [of b k] Cons.prems True len that by (auto simp: length_positions)
  next
    case False
    then show ?thesis
      using that(2) count_le_length [of "bits_list b" True] by (simp add: length_positions)
  qed
  then show ?case
  proof cases
    case 1
    then show ?thesis
      using Cons.prems(6) br_invI [OF Cons.prems(1-5), of i]
      by (simp add: split nth_of_append nth_of_map del: range_list_simps)
  next
    case 2
    have "drop (n + bsize b) xs = drop (bsize b) (drop n xs)" by (simp add: add.commute)
    then have drop: "drop (n + bsize b) xs = range_list bs" using Cons.prems(5) by simp
    have rank: "sub64 k (rank_bits True b) = k - length ?ps"
      using 2(2) Cons.prems(1) by (simp add: rank_bits_eq length_positions)
    have "br_select_k_loop True (b # bs) k n
        = br_select_k_loop True bs (k - length ?ps) (n + bsize b)"
      using 2(1) Cons.prems(6) by (simp add: rank)
    moreover have "\<exists>r. br_select_k_loop True bs (k - length ?ps) (n + bsize b) = Some r \<and> br_inv xs r
        \<and> br_pos r = nth_of (map ((+) (n + bsize b)) (positions True (range_list bs))) (k - length ?ps)"
      using Cons.prems 2(2) len drop by (intro Cons.IH) simp_all
    ultimately show ?thesis
      using 2(2) Cons.prems(6) unfolding split by (simp add: nth_of_append)
  qed
qed

lemma filter_sorted_drop:
  "sorted_wrt (<) ps \<Longrightarrow> filter ((<) i) ps = drop (length (filter (\<lambda>j. j < Suc i) ps)) ps"
proof (induction ps)
  case (Cons p ps)
  show ?case
  proof (cases "i < p")
    case True
    then have "filter (\<lambda>j. j < Suc i) ps = []" "filter ((<) i) ps = ps"
      using Cons.prems by (auto simp: filter_empty_conv filter_id_conv)
    then show ?thesis using True by simp
  next
    case False
    then show ?thesis using Cons by simp
  qed
qed simp

lemma br_select_k_spec:
  assumes "br_inv xs r" and "br_pos r = Some p" and "0 < k"
  shows "\<exists>r'. br_select_k True k r = Some r' \<and> br_inv xs r'
    \<and> br_pos r' = nth_of (filter ((<) p) (positions True xs)) k"
  using assms(1)
proof (cases rule: br_cases)
  case (at b bs)
  let ?n = "br_n r" and ?i = "br_i r" and ?ps = "positions True (bits_list b)"
  have npos: "?i \<noteq> npos" "bsize b < npos" using at by linarith+
  have bits: "br_bits r = Some b" using at by (simp add: br_bits_def)
  have p: "p = ?n + ?i" using at assms(2) by simp
  define prev where "prev = length (filter (\<lambda>j. j < Suc ?i) ?ps)"
  have rank: "rank_bits_upto True b ?i = Some prev" "rank_bits True b = length ?ps"
    using at by (simp_all add: rank_bits_upto_eq rank_bits_eq count_list_take_positions prev_def length_positions)
  have le: "prev \<le> length ?ps" by (simp add: prev_def)
  have split: "filter ((<) p) (positions True xs) = map ((+) ?n) (drop prev ?ps)
      @ map ((+) (?n + bsize b)) (positions True (range_list bs))"
    using br_split_above [OF at(1,2,8,10)] filter_sorted_drop [OF sorted_positions] unfolding prev_def p by simp
  show ?thesis
  proof (cases "k \<le> length ?ps - prev")
    case True
    then have k: "prev + k \<le> count_list (bits_list b) True" using le by (simp add: length_positions)
    then have "prev + k \<le> bsize b" using count_le_length [of "bits_list b" True] by simp
    then obtain i where i: "select_bits True b (prev + k) = Some i" "i < bsize b" "i \<noteq> npos"
        "nth_of ?ps (prev + k) = Some i"
      using select_one [of b "prev + k"] at npos assms(3) k by (metis add_gr_0 not_le)
    have "br_select_k True k r = Some (r\<lparr>br_i := i\<rparr>)"
      using npos bits rank le True i(1,3) assms(3) by (simp add: br_select_k_def)
    moreover have "nth_of (drop prev ?ps) k = Some i"
      using i(4) le True assms(3) by (simp add: nth_of_def split: if_splits)
    moreover have "br_inv xs (r\<lparr>br_i := i\<rparr>)" "br_pos (r\<lparr>br_i := i\<rparr>) = Some (?n + i)"
      using at i(2) assms(1) by (simp_all add: br_inv_def br_pos_def br_done_def)
    ultimately show ?thesis using True assms(3) by (simp add: split nth_of_append nth_of_map)
  next
    case False
    have "br_select_k True k r = br_select_k_loop True bs (k - (length ?ps - prev)) (?n + bsize b)"
      using npos bits rank le False assms(3) at(1) by (simp add: br_select_k_def)
    moreover have "\<exists>r'. br_select_k_loop True bs (k - (length ?ps - prev)) (?n + bsize b) = Some r'
        \<and> br_inv xs r' \<and> br_pos r' = nth_of (map ((+) (?n + bsize b)) (positions True (range_list bs)))
            (k - (length ?ps - prev))"
      using at False by (intro br_select_k_loop_spec) simp_all
    ultimately show ?thesis using False assms(3) by (simp add: split nth_of_append)
  qed
qed (use assms(2) in simp)

end
