(* ===== verification/Select_Range.thy ===== *)
theory Select_Range
  imports Bitwise_Range
begin

text \<open>
  The ranges over the occurrences of one bit value in \<^verbatim>\<open>bitmap_algorithms.hpp\<close>: \<open>select_range\<close>,
  \<open>select_runs\<close> and \<open>select_with\<close>. Iterations that only end because the cursor advances are partial
  functions; the lemmas show that they end and what they yield.
\<close>

section \<open>The code\<close>

definition each_bits :: "'b bitmap_ops \<Rightarrow> 'b \<Rightarrow> bitwise_range option" where
  "each_bits ops bm = map_option br_new (bm_range ops bm)"

definition select_range_new :: "bool \<Rightarrow> bits list \<Rightarrow> bitwise_range option" where
  "select_range_new bv rng = do {
     let r = br_new rng;
     if br_done r then Some r
     else do {
       b \<leftarrow> br_bits r;
       x \<leftarrow> bits_index b 0;
       if x \<noteq> bv then br_select bv r else Some r
     }
   }"

definition select_bitmap :: "bool \<Rightarrow> 'b bitmap_ops \<Rightarrow> 'b \<Rightarrow> bitwise_range option" where
  "select_bitmap bv ops bm = bm_range ops bm \<bind> select_range_new bv"

text \<open>What a range-based \<open>for\<close> over a \<open>select_range\<close> sees.\<close>

partial_function (option) select_list :: "bool \<Rightarrow> bitwise_range \<Rightarrow> nat list option" where
  "select_list bv r =
    (if br_done r then Some []
     else do {
       p \<leftarrow> br_get r;
       r \<leftarrow> br_select bv r;
       ps \<leftarrow> select_list bv r;
       Some (p # ps)
     })"

partial_function (option) runs_loop :: "bool \<Rightarrow> nat \<Rightarrow> bitwise_range \<Rightarrow> (nat \<times> nat) list option" where
  "runs_loop bv n r =
    (if br_done r then Some []
     else do {
       first \<leftarrow> br_get r;
       r \<leftarrow> br_select (\<not> bv) r;
       if br_done r then Some [(first, n)]
       else do {
         last \<leftarrow> br_get r;
         r \<leftarrow> br_select bv r;
         rest \<leftarrow> runs_loop bv n r;
         Some ((first, last) # rest)
       }
     })"

definition select_runs :: "bool \<Rightarrow> 'b bitmap_ops \<Rightarrow> 'b \<Rightarrow> (nat \<times> nat) list option" where
  "select_runs bv ops bm = do {
     r \<leftarrow> each_bits ops bm;
     v \<leftarrow> br_value r;
     r \<leftarrow> (if v \<noteq> bv then br_select bv r else Some r);
     runs_loop bv (bm_size ops bm) r
   }"

text \<open>\<open>select_with\<close> threads the state \<open>'s\<close> of the action \<open>g\<close>, which may answer an error and then ends
  the traversal. \<open>std::lower_bound\<close> on a partitioned range skips the elements that satisfy the
  predicate.\<close>

partial_function (option) select_with_loop ::
    "('a \<Rightarrow> nat \<times> nat) \<Rightarrow> ('a \<Rightarrow> 's \<Rightarrow> 'e option \<times> 's) \<Rightarrow> bitwise_range \<Rightarrow> 'a list \<Rightarrow> 's
      \<Rightarrow> ('e option \<times> 's) option" where
  "select_with_loop f g r items s =
    (if br_done r \<or> items = [] then Some (None, s)
     else do {
       let (first, last) = f (hd items);
       p \<leftarrow> br_get r;
       r \<leftarrow> (if p < first then br_select_from True first r else Some r);
       if p < first \<and> br_done r then Some (None, s)
       else do {
         p \<leftarrow> br_get r;
         if p \<ge> first \<and> p < last then
           (case g (hd items) s of
             (Some e, s) \<Rightarrow> Some (Some e, s)
           | (None, s) \<Rightarrow> do {
               r \<leftarrow> br_select_from True last r;
               if br_done r then Some (None, s)
               else do {
                 p \<leftarrow> br_get r;
                 select_with_loop f g r (dropWhile (\<lambda>x. snd (f x) \<le> p) items) s
               }
             })
         else select_with_loop f g r (dropWhile (\<lambda>x. snd (f x) \<le> p) items) s
       }
     })"

definition select_with ::
    "'b bitmap_ops \<Rightarrow> 'b \<Rightarrow> 'a list \<Rightarrow> ('a \<Rightarrow> nat \<times> nat) \<Rightarrow> ('a \<Rightarrow> 's \<Rightarrow> 'e option \<times> 's) \<Rightarrow> 's
      \<Rightarrow> ('e option \<times> 's) option" where
  "select_with ops bm items f g s = do {
     r \<leftarrow> select_bitmap True ops bm;
     select_with_loop f g r items s
   }"

section \<open>Occurrences\<close>

lemma pos_done: "br_pos r = None \<longleftrightarrow> br_done r" "br_pos r = Some p \<Longrightarrow> \<not> br_done r"
  by (auto simp: br_pos_def split: if_splits)

lemma positions_all: "filter ((\<le>) 0) (positions bv xs) = positions bv xs"
  by simp

lemma select_range_new_spec:
  assumes "range_ok cs" and "range_nonempty cs" and "length (range_list cs) < npos"
  shows "\<exists>r. select_range_new bv cs = Some r \<and> br_inv (range_list cs) r
    \<and> br_pos r = first_of (positions bv (range_list cs))"
proof (cases "range_list cs = []")
  case True
  then show ?thesis
    using br_new_spec [OF assms] by (auto simp: select_range_new_def pos_done)
next
  case False
  let ?xs = "range_list cs" and ?r = "br_new cs"
  have r: "br_inv ?xs ?r" "br_pos ?r = Some 0" "\<not> br_done ?r"
    using br_new_spec [OF assms] False pos_done by auto
  have len: "0 < length ?xs" using False by simp
  have val: "br_bits ?r \<bind> (\<lambda>b. bits_index b 0) = Some (?xs ! 0)"
    using br_value_spec [OF r(1,2)] r(3) False assms(2)
    by (cases cs) (simp_all add: br_value_def br_new_def)
  have code: "select_range_new bv cs = (if ?xs ! 0 \<noteq> bv then br_select bv ?r else Some ?r)"
    using val r(3) by (auto simp: select_range_new_def bind_eq_Some_conv)
  have cons: "positions bv ?xs = (if ?xs ! 0 = bv then [0] else []) @ filter ((<) 0) (positions bv ?xs)"
    using positions_from [OF len, of bv] by simp
  show ?thesis
  proof (cases "?xs ! 0 = bv")
    case True
    then have "first_of (positions bv ?xs) = Some 0" by (subst cons) simp
    then show ?thesis using code True r(1,2) by simp
  next
    case False
    then have "positions bv ?xs = filter ((<) 0) (positions bv ?xs)" using cons by simp
    then show ?thesis using code False br_select_spec [OF r(1,2), of bv] by simp
  qed
qed

lemma le_Suc_less: "(\<le>) (Suc p) = (<) p"
  by (simp add: fun_eq_iff Suc_le_eq)

lemma positions_tail:
  assumes "filter ((\<le>) m) (positions bv xs) = p # ps"
  shows "filter ((<) p) (positions bv xs) = ps"
proof -
  have "m \<le> p" using arg_cong [OF assms, of set] by auto
  then have "filter ((<) p) (positions bv xs) = filter ((<) p) (filter ((\<le>) m) (positions bv xs))"
    by (intro filter_above) simp
  also have "sorted_wrt (<) (filter ((\<le>) m) (positions bv xs))"
    using sorted_positions by (rule sorted_wrt_filter)
  then have "filter ((<) p) (filter ((\<le>) m) (positions bv xs)) = ps"
    by (simp add: assms filter_id_conv)
  finally show ?thesis .
qed

lemma select_list_spec:
  assumes "br_inv xs r" and "br_pos r = first_of (filter ((\<le>) m) (positions bv xs))"
  shows "select_list bv r = Some (filter ((\<le>) m) (positions bv xs))"
  using assms
proof (induction "length (filter ((\<le>) m) (positions bv xs))" arbitrary: m r rule: less_induct)
  case less
  show ?case
  proof (cases "filter ((\<le>) m) (positions bv xs)")
    case Nil
    then show ?thesis using less.prems(2) by (subst select_list.simps) (simp add: pos_done)
  next
    case (Cons p ps)
    then have pos: "br_pos r = Some p" "\<not> br_done r" using less.prems(2) pos_done by auto
    have tail: "filter ((<) p) (positions bv xs) = ps" "filter ((\<le>) (Suc p)) (positions bv xs) = ps"
      using positions_tail [OF Cons] by (simp_all add: le_Suc_less)
    obtain r' where r': "br_select bv r = Some r'" "br_inv xs r'" "br_pos r' = first_of ps"
      using br_select_spec [OF less.prems(1) pos(1), of bv] tail(1) by auto
    have "select_list bv r' = Some ps"
      using less.hyps [of "Suc p" r'] r' Cons tail by simp
    then show ?thesis
      using pos r'(1) Cons by (subst select_list.simps) (simp add: br_get_eq)
  qed
qed

section \<open>Runs\<close>

lemma first_of_sorted:
  assumes "first_of (filter P ps) = Some q" and "sorted_wrt (<) (ps :: nat list)"
  shows "q \<in> set ps" and "P q" and "\<And>i. i \<in> set ps \<Longrightarrow> P i \<Longrightarrow> q \<le> i"
proof -
  obtain qs where qs: "filter P ps = q # qs" using assms(1) by (cases "filter P ps") auto
  then have set: "set (filter P ps) = insert q (set qs)" by simp
  then show "q \<in> set ps" "P q" by auto
  have "sorted_wrt (<) (q # qs)" unfolding qs [symmetric] by (rule sorted_wrt_filter [OF assms(2)])
  then show "q \<le> i" if "i \<in> set ps" "P i" for i
    using set that by fastforce
qed

lemma run_split:
  assumes "p \<le> q" and "q \<le> length xs" and "\<And>i. p \<le> i \<Longrightarrow> i < q \<Longrightarrow> xs ! i = bv"
  shows "filter ((\<le>) p) (positions bv xs) = [p..<q] @ filter ((\<le>) q) (positions bv xs)"
proof -
  have upt: "[0..<length xs] = [0..<p] @ [p..<q] @ [q..<length xs]"
    using upt_add_eq_append [of 0 p "length xs - p"] upt_add_eq_append [of p q "length xs - q"] assms(1,2)
    by simp
  show ?thesis
    using assms(1,3) unfolding positions_def upt by (auto simp: filter_id_conv filter_empty_conv intro!: filter_cong)
qed

definition runs_of :: "(nat \<times> nat) list \<Rightarrow> nat list" where
  "runs_of rs = concat (map (\<lambda>(a, b). [a..<b]) rs)"

definition maximal_runs :: "(nat \<times> nat) list \<Rightarrow> bool" where
  "maximal_runs rs \<longleftrightarrow> sorted_wrt (\<lambda>x y. snd x < fst y) rs \<and> (\<forall>(a, b) \<in> set rs. a < b)"

lemma runs_loop_spec:
  assumes "br_inv xs r" and "br_pos r = first_of (filter ((\<le>) m) (positions bv xs))"
  shows "\<exists>rs. runs_loop bv (length xs) r = Some rs \<and> runs_of rs = filter ((\<le>) m) (positions bv xs)
    \<and> maximal_runs rs \<and> (\<forall>(a, b) \<in> set rs. m \<le> a)"
  using assms
proof (induction "length (filter ((\<le>) m) (positions bv xs))" arbitrary: m r rule: less_induct)
  case less
  show ?case
  proof (cases "filter ((\<le>) m) (positions bv xs)")
    case Nil
    then show ?thesis
      using less.prems(2) by (subst runs_loop.simps) (simp add: pos_done runs_of_def maximal_runs_def)
  next
    case (Cons p ps)
    then have pos: "br_pos r = Some p" "\<not> br_done r" using less.prems(2) pos_done by auto
    have first: "first_of (filter ((\<le>) m) (positions bv xs)) = Some p" using Cons by simp
    have p: "p < length xs" "xs ! p = bv" "m \<le> p"
      using first_of_sorted [OF first sorted_positions] by (auto simp: set_positions)
    have from_p: "filter ((\<le>) m) (positions bv xs) = filter ((\<le>) p) (positions bv xs)"
      using Cons positions_tail [OF Cons] positions_from [OF p(1), of bv] p(2) by simp
    obtain r1 where r1: "br_select (\<not> bv) r = Some r1" "br_inv xs r1"
        "br_pos r1 = first_of (filter ((<) p) (positions (\<not> bv) xs))"
      using br_select_spec [OF less.prems(1) pos(1)] by blast
    show ?thesis
    proof (cases "br_pos r1")
      case None
      then have "filter ((<) p) (positions (\<not> bv) xs) = []" using r1(3) by simp
      then have "xs ! i = bv" if "p \<le> i" "i < length xs" for i
        using that p(2) by (cases "i = p") (auto simp: filter_empty_conv set_positions)
      then have "filter ((\<le>) m) (positions bv xs) = [p..<length xs]"
        using run_split [of p "length xs" xs bv] p(1) from_p
        by (simp add: filter_empty_conv set_positions)
      moreover have "runs_loop bv (length xs) r = Some [(p, length xs)]"
        using pos r1(1) None by (subst runs_loop.simps) (simp add: br_get_eq pos_done)
      ultimately show ?thesis using p by (simp add: runs_of_def maximal_runs_def)
    next
      case (Some q)
      then have "first_of (filter ((<) p) (positions (\<not> bv) xs)) = Some q" using r1(3) by simp
      note least = first_of_sorted [OF this sorted_positions]
      have q: "q < length xs" "xs ! q = (\<not> bv)" "p < q" using least(1,2) by (auto simp: set_positions)
      have "xs ! i = bv" if "p \<le> i" "i < q" for i
        using that least(3) [of i] p(2) q(1) by (cases "i = p") (auto simp: set_positions)
      then have split: "filter ((\<le>) m) (positions bv xs) = [p..<q] @ filter ((\<le>) q) (positions bv xs)"
        using run_split [of p q xs bv] q from_p by simp
      have after: "filter ((\<le>) q) (positions bv xs) = filter ((\<le>) (Suc q)) (positions bv xs)"
        using positions_from [OF q(1), of bv] q(2) by (simp add: le_Suc_less)
      obtain r2 where r2: "br_select bv r1 = Some r2" "br_inv xs r2"
          "br_pos r2 = first_of (filter ((\<le>) (Suc q)) (positions bv xs))"
        using br_select_spec [OF r1(2) Some, of bv] by (auto simp: le_Suc_less)
      have "length (filter ((\<le>) (Suc q)) (positions bv xs)) < length (filter ((\<le>) m) (positions bv xs))"
        using split after q(3) by simp
      from less.hyps [OF this r2(2,3)] obtain rs where rs: "runs_loop bv (length xs) r2 = Some rs"
          "runs_of rs = filter ((\<le>) (Suc q)) (positions bv xs)" "maximal_runs rs"
          "\<forall>(a, b) \<in> set rs. Suc q \<le> a"
        by blast
      have "runs_loop bv (length xs) r = Some ((p, q) # rs)"
        using pos r1(1) Some r2(1) rs(1) by (subst runs_loop.simps) (simp add: br_get_eq pos_done)
      moreover have "runs_of ((p, q) # rs) = filter ((\<le>) m) (positions bv xs)"
        using rs(2) split after by (simp add: runs_of_def)
      moreover have "maximal_runs ((p, q) # rs)" using rs(3,4) q(3) by (auto simp: maximal_runs_def)
      moreover have "\<forall>(a, b) \<in> set ((p, q) # rs). m \<le> a" using rs(4) p(3) q(3) by auto
      ultimately show ?thesis by blast
    qed
  qed
qed

section \<open>Traversal along intervals\<close>

definition hit_from :: "bool list \<Rightarrow> nat \<Rightarrow> nat \<times> nat \<Rightarrow> bool" where
  "hit_from xs m = (\<lambda>(a, b). \<exists>p \<in> set (positions True xs). m \<le> p \<and> a \<le> p \<and> p < b)"

fun act_all :: "('a \<Rightarrow> 's \<Rightarrow> 'e option \<times> 's) \<Rightarrow> 'a list \<Rightarrow> 's \<Rightarrow> 'e option \<times> 's" where
  "act_all g [] s = (None, s)"
| "act_all g (x # xs) s = (case g x s of (Some e, s) \<Rightarrow> (Some e, s) | (None, s) \<Rightarrow> act_all g xs s)"

definition disjoint_sorted :: "('a \<Rightarrow> nat \<times> nat) \<Rightarrow> 'a list \<Rightarrow> bool" where
  "disjoint_sorted f xs \<longleftrightarrow> sorted_wrt (\<lambda>x y. snd (f x) \<le> fst (f y)) xs
    \<and> (\<forall>x \<in> set xs. fst (f x) \<le> snd (f x))"

lemma disjoint_sorted_dropWhile: "disjoint_sorted f xs \<Longrightarrow> disjoint_sorted f (dropWhile P xs)"
  by (auto simp: disjoint_sorted_def sorted_wrt_dropWhile dest: set_dropWhileD)

text \<open>The cursor is at the least occurrence from \<open>m\<close> on.\<close>

definition at_least :: "bool list \<Rightarrow> nat \<Rightarrow> nat \<Rightarrow> bool" where
  "at_least xs m p \<longleftrightarrow> first_of (filter ((\<le>) m) (positions True xs)) = Some p"

lemma at_least_le: "at_least xs m p \<Longrightarrow> q \<in> set (positions True xs) \<Longrightarrow> m \<le> q \<Longrightarrow> p \<le> q"
  unfolding at_least_def by (rule first_of_sorted(3) [OF _ sorted_positions])

lemma at_least_occurs: "at_least xs m p \<Longrightarrow> p \<in> set (positions True xs) \<and> m \<le> p"
  unfolding at_least_def using first_of_sorted(1,2) [OF _ sorted_positions] by blast

lemma skip_hits:
  assumes "at_least xs m' p'" and "snd (f x) \<le> p'"
    and "\<And>y. y \<in> set ys \<Longrightarrow> hit_from xs m' (f y) \<longleftrightarrow> hit_from xs m (f y)"
  shows "filter (\<lambda>y. hit_from xs m' (f y)) (dropWhile (\<lambda>y. snd (f y) \<le> p') (x # ys))
    = filter (\<lambda>y. hit_from xs m (f y)) ys"
proof -
  have none: "\<not> hit_from xs m' (f y)" if "snd (f y) \<le> p'" for y
    using that at_least_le [OF assms(1)] by (force simp: hit_from_def split: prod.splits)
  have "filter (\<lambda>y. hit_from xs m' (f y)) (dropWhile (\<lambda>y. snd (f y) \<le> p') zs)
      = filter (\<lambda>y. hit_from xs m' (f y)) zs" for zs
    using none by (induction zs) simp_all
  then show ?thesis using assms(2,3) by (simp cong: filter_cong)
qed

lemma hit_from_later:
  assumes "m \<le> m'" and "\<And>q. q \<in> set (positions True xs) \<Longrightarrow> m \<le> q \<Longrightarrow> fst i \<le> q \<Longrightarrow> m' \<le> q"
  shows "hit_from xs m' i \<longleftrightarrow> hit_from xs m i"
proof -
  have "q \<in> set (positions True xs) \<and> fst i \<le> q \<Longrightarrow> m' \<le> q \<longleftrightarrow> m \<le> q" for q
    using assms by (meson le_trans)
  then show ?thesis unfolding hit_from_def by (cases i) auto
qed

lemma no_hits:
  assumes "filter ((\<le>) k) (positions True xs) = []" and "\<And>q. m \<le> q \<Longrightarrow> fst i \<le> q \<Longrightarrow> k \<le> q"
  shows "\<not> hit_from xs m i"
  using assms by (fastforce simp: hit_from_def filter_empty_conv split: prod.splits)

lemma select_with_loop_spec:
  assumes "br_inv xs r" and "br_pos r = first_of (filter ((\<le>) m) (positions True xs))"
    and "disjoint_sorted f items"
  shows "select_with_loop f g r items s = Some (act_all g (filter (\<lambda>x. hit_from xs m (f x)) items) s)"
  using assms
proof (induction "length items" arbitrary: items m r s rule: less_induct)
  case less
  show ?case
  proof (cases "br_done r \<or> items = []")
    case True
    then have "br_done r \<Longrightarrow> filter (\<lambda>x. hit_from xs m (f x)) items = []"
      using less.prems(2) no_hits [of m xs m] by (auto simp: filter_empty_conv simp flip: pos_done(1))
    with True have "filter (\<lambda>x. hit_from xs m (f x)) items = []" by auto
    then show ?thesis using True by (subst select_with_loop.simps) simp
  next
    case False
    then obtain x rest where items: "items = x # rest" by (cases items) auto
    obtain a b where f: "f x = (a, b)" by fastforce
    have ab: "a \<le> b" and after: "\<And>y. y \<in> set rest \<Longrightarrow> b \<le> fst (f y)"
      using less.prems(3) f by (auto simp: items disjoint_sorted_def)
    obtain p where p: "br_pos r = Some p" "\<not> br_done r"
      using False pos_done(1) by (cases "br_pos r") auto
    then have least: "at_least xs m p" using less.prems(2) by (simp add: at_least_def)
    let ?m = "max p a"
    obtain r1 where r1: "(if p < a then br_select_from True a r else Some r) = Some r1" "br_inv xs r1"
        "br_pos r1 = first_of (filter ((\<le>) ?m) (positions True xs))"
    proof (cases "p < a")
      case True
      then show ?thesis
        using br_select_from_spec [OF less.prems(1) p(1), of a True] that by (auto simp: max_def)
    next
      case False
      have "first_of (filter ((\<le>) p) (positions True xs)) = Some p"
        using at_least_occurs [OF least] positions_from [of p xs True] by (auto simp: set_positions)
      then show ?thesis using False less.prems(1) p(1) by (intro that [of r]) (simp_all add: max_def)
    qed
    have later: "hit_from xs ?m (f y) \<longleftrightarrow> hit_from xs m (f y)" if "y \<in> set rest" for y
      using at_least_occurs [OF least] at_least_le [OF least] after [OF that] ab
      by (intro hit_from_later) auto
    show ?thesis
    proof (cases "br_pos r1")
      case None
      then have none: "filter ((\<le>) ?m) (positions True xs) = []" using r1(3) by simp
      then have less_a: "p < a" using at_least_occurs [OF least] by (auto simp: filter_empty_conv)
      have "\<not> hit_from xs ?m (f y)" if "y \<in> set rest" for y
        using none by (rule no_hits) auto
      moreover have "\<not> hit_from xs m (a, b)" using less_a none by (intro no_hits [OF none]) simp
      ultimately have "filter (\<lambda>x. hit_from xs m (f x)) items = []"
        using later f by (auto simp: items filter_empty_conv)
      moreover have "select_with_loop f g r items s = Some (None, s)"
        using False less_a p(1) r1(1) None f
        by (subst select_with_loop.simps) (simp add: items br_get_eq pos_done)
      ultimately show ?thesis by simp
    next
      case (Some p1)
      then have least1: "at_least xs ?m p1" "\<not> br_done r1" using r1(3) pos_done by (simp_all add: at_least_def)
      note occ = at_least_occurs [OF least1(1)]
      have hit: "hit_from xs m (a, b) \<longleftrightarrow> p1 < b"
        using occ at_least_occurs [OF least] at_least_le [OF least] at_least_le [OF least1(1)]
        by (fastforce simp: hit_from_def)
      have loop: "select_with_loop f g r items s = (if p1 < b then (case g x s of
             (Some e, s) \<Rightarrow> Some (Some e, s)
           | (None, s) \<Rightarrow> do {
               r \<leftarrow> br_select_from True b r1;
               if br_done r then Some (None, s)
               else do {
                 p \<leftarrow> br_get r;
                 select_with_loop f g r (dropWhile (\<lambda>x. snd (f x) \<le> p) items) s
               }
             }) else select_with_loop f g r1 (dropWhile (\<lambda>x. snd (f x) \<le> p1) items) s)"
        using False p(1) r1(1) Some least1(2) f occ
        by (subst select_with_loop.simps) (simp add: items br_get_eq)
      show ?thesis
      proof (cases "p1 < b")
        case miss: False
        let ?items = "dropWhile (\<lambda>x. snd (f x) \<le> p1) items"
        have "length ?items < length items"
          using miss f length_dropWhile_le [of _ rest] by (simp add: items less_Suc_eq_le)
        from less.hyps [OF this r1(2,3) disjoint_sorted_dropWhile [OF less.prems(3)]]
        show ?thesis
          using loop miss hit f skip_hits [OF least1(1), of f x rest m] later by (simp add: items)
      next
        case True
        obtain res s' where g: "g x s = (res, s')" by fastforce
        have filter: "filter (\<lambda>x. hit_from xs m (f x)) items = x # filter (\<lambda>x. hit_from xs m (f x)) rest"
          using True hit f by (simp add: items)
        have mb: "m \<le> b" using occ True at_least_occurs [OF least] by simp
        have laterb: "hit_from xs b (f y) \<longleftrightarrow> hit_from xs m (f y)" if "y \<in> set rest" for y
          using mb after [OF that] by (intro hit_from_later) auto
        obtain r2 where r2: "br_select_from True b r1 = Some r2" "br_inv xs r2"
            "br_pos r2 = first_of (filter ((\<le>) b) (positions True xs))"
          using br_select_from_spec [OF r1(2) Some, of b True] True by auto
        show ?thesis
        proof (cases res)
          case error: (Some e)
          then show ?thesis using loop True g filter by simp
        next
          case fine: None
          show ?thesis
          proof (cases "br_pos r2")
            case None
            then have none: "filter ((\<le>) b) (positions True xs) = []" using r2(3) by simp
            have "\<not> hit_from xs b (f y)" for y using none by (rule no_hits) auto
            then have "filter (\<lambda>x. hit_from xs m (f x)) rest = []"
              using laterb by (auto simp: filter_empty_conv)
            then show ?thesis using loop True g filter fine r2(1) None by (simp add: pos_done)
          next
            case p2: (Some p2)
            then have least2: "at_least xs b p2" "\<not> br_done r2" using r2(3) pos_done by (simp_all add: at_least_def)
            have bp: "b \<le> p2" using at_least_occurs [OF least2(1)] by simp
            let ?items = "dropWhile (\<lambda>x. snd (f x) \<le> p2) items"
            have "length ?items < length items"
              using bp f length_dropWhile_le [of _ rest] by (simp add: items less_Suc_eq_le)
            from less.hyps [OF this r2(2,3) disjoint_sorted_dropWhile [OF less.prems(3)]]
            show ?thesis
              using loop True g fine filter r2(1) p2 least2(2) bp f
                skip_hits [OF least2(1), of f x rest m] laterb
              by (simp add: items br_get_eq)
          qed
        qed
      qed
    qed
  qed
qed

section \<open>Bitmaps\<close>

context proper
begin

lemma select_bitmap_spec:
  assumes "inv b" and "length (decode b) < npos"
  shows "\<exists>r. select_bitmap bv ops b = Some r \<and> br_inv (decode b) r
    \<and> br_pos r = first_of (positions bv (decode b))"
proof -
  obtain cs where cs: "bm_range ops b = Some cs" "range_ok cs" "range_nonempty cs"
      "range_list cs = decode b"
    using assms(1) by (rule obtain_proper_range)
  then show ?thesis using select_range_new_spec [of cs bv] assms(2) by (simp add: select_bitmap_def)
qed

lemma select_positions:
  assumes "inv b" and "length (decode b) < npos"
  shows "select_bitmap bv ops b \<bind> select_list bv = Some (positions bv (decode b))"
  using select_bitmap_spec [OF assms, of bv] select_list_spec [of "decode b" _ 0 bv]
  by (auto simp: positions_all)

lemma select_runs_spec:
  assumes "inv b" and "length (decode b) < npos" and "decode b \<noteq> []"
  shows "\<exists>rs. select_runs bv ops b = Some rs \<and> maximal_runs rs \<and> runs_of rs = positions bv (decode b)"
proof -
  let ?xs = "decode b"
  obtain cs where cs: "bm_range ops b = Some cs" "range_ok cs" "range_nonempty cs" "range_list cs = ?xs"
    using assms(1) by (rule obtain_proper_range)
  have r: "br_inv ?xs (br_new cs)" "br_pos (br_new cs) = Some 0"
    using br_new_spec [of cs] cs assms(2,3) by auto
  have val: "br_value (br_new cs) = Some (?xs ! 0)" using br_value_spec [OF r] by simp
  have cons: "positions bv ?xs = (if ?xs ! 0 = bv then [0] else []) @ filter ((<) 0) (positions bv ?xs)"
    using positions_from [of 0 ?xs bv] assms(3) by simp
  obtain r1 where r1: "(if ?xs ! 0 \<noteq> bv then br_select bv (br_new cs) else Some (br_new cs)) = Some r1"
      "br_inv ?xs r1" "br_pos r1 = first_of (positions bv ?xs)"
  proof (cases "?xs ! 0 = bv")
    case True
    then have "first_of (positions bv ?xs) = Some 0" by (subst cons) simp
    then show ?thesis using True r that [of "br_new cs"] by simp
  next
    case False
    then have "positions bv ?xs = filter ((<) 0) (positions bv ?xs)" using cons by simp
    then show ?thesis using False br_select_spec [OF r, of bv] that by auto
  qed
  have "select_runs bv ops b = runs_loop bv (length ?xs) r1"
    using cs(1) val r1(1) assms(1) by (simp add: select_runs_def each_bits_def size_eq)
  then show ?thesis
    using runs_loop_spec [OF r1(2), of 0 bv] r1(3) by (auto simp: positions_all)
qed

text \<open>On an empty bitmap the cursor has no value, and its accessor asserts.\<close>

lemma select_runs_empty:
  assumes "inv b" and "decode b = []"
  shows "select_runs bv ops b = None"
proof -
  obtain cs where cs: "bm_range ops b = Some cs" "range_ok cs" "range_nonempty cs"
      "range_list cs = decode b"
    using assms(1) by (rule obtain_proper_range)
  then have "cs = []" using assms(2) by (simp add: range_list_Nil_iff)
  then show ?thesis
    using cs(1) by (simp add: select_runs_def each_bits_def br_value_def br_new_def br_done_def)
qed

lemma select_with_spec:
  assumes "inv b" and "length (decode b) < npos" and "disjoint_sorted f items"
  shows "select_with ops b items f g s
    = Some (act_all g (filter (\<lambda>x. hit_from (decode b) 0 (f x)) items) s)"
proof -
  obtain r where r: "select_bitmap True ops b = Some r" "br_inv (decode b) r"
      "br_pos r = first_of (positions True (decode b))"
    using select_bitmap_spec [OF assms(1,2)] by blast
  then show ?thesis
    using select_with_loop_spec [OF r(2) _ assms(3), of 0 g s] by (simp add: select_with_def positions_all)
qed

end

end
