(* ===== verification/Ewah_Bitmap.thy ===== *)
theory Ewah_Bitmap
  imports Ewah_Range Nary_Eval Bitmap_Query Select_Range
begin

text \<open>
  The generic algorithms on EWAH bitmaps: the instances of the locales that \<open>bitmap_algorithms.hpp\<close>
  is verified in. \<open>ewah_bitmap\<close> has its own type as the result type of every bitwise operation.
\<close>

interpretation ewah: proper ewah_ops ewah_inv ewah_list
proof
  fix e :: ewah and cs
  assume e: "ewah_inv e"
  show "bm_empty ewah_ops e \<longleftrightarrow> ewah_list e = []"
    using ewah_num_bits [OF e] by (auto simp: ewah_empty_def)
  show "\<exists>cs. bm_range ewah_ops e = Some cs \<and> range_ok cs \<and> range_list cs = ewah_list e"
    and "bm_range ewah_ops e = Some cs \<Longrightarrow> range_nonempty cs"
    using bit_range_spec [OF e] by auto
qed (simp_all add: ewah_num_bits ewah_size_def ewah_append_bit_spec ewah_append_bits_spec
      ewah_append_block_spec ewah_flip_spec)

interpretation ewah_append: append_pair ewah_ops ewah_inv ewah_list ewah_ops ewah_inv ewah_list
  by unfold_locales

interpretation ewah_bitwise: bitwise ewah_ops ewah_inv ewah_list ewah_ops ewah_inv ewah_list
    ewah_ops ewah_inv ewah_list
  by unfold_locales

interpretation ewah_subset: subset_test ewah_ops ewah_inv ewah_list ewah_ops ewah_inv ewah_list
    ewah_ops ewah_inv ewah_list
  by unfold_locales

lemma ewah_op_laws:
  assumes "word_op op f" and "ewah_inv x" and "ewah_inv y"
    and "\<And>i. bit_at (zip_fill f fl fr (ewah_list x) (ewah_list y)) i
      = f (bit_at (ewah_list x) i) (bit_at (ewah_list y) i)"
  shows "\<exists>z. binary_eval fl fr ewah_ops ewah_ops ewah_ops op x y = Some z \<and> ewah_inv z
    \<and> length (ewah_list z) = max (length (ewah_list x)) (length (ewah_list y))
    \<and> (\<forall>i. bit_at (ewah_list z) i = f (bit_at (ewah_list x) i) (bit_at (ewah_list y) i))"
  using ewah_bitwise.binary_eval_spec [OF assms(1-3), of fl fr] assms(4) by auto

lemmas ewah_and_law = ewah_op_laws [OF word_op_simps(1) _ _ bit_at_ops(1), folded binary_and_def]
lemmas ewah_or_law = ewah_op_laws [OF word_op_simps(2) _ _ bit_at_ops(2), folded binary_or_def]
lemmas ewah_xor_law = ewah_op_laws [OF word_op_simps(3) _ _ bit_at_ops(3), folded binary_xor_def]

interpretation ewah_and: reduction ewah_ops ewah_inv ewah_list
    "binary_and ewah_ops ewah_ops ewah_ops" "(\<and>)" "list_all id"
  by unfold_locales (rule ewah_and_law agg_laws; assumption)+

interpretation ewah_or: reduction ewah_ops ewah_inv ewah_list
    "binary_or ewah_ops ewah_ops ewah_ops" "(\<or>)" "list_ex id"
  by unfold_locales (rule ewah_or_law agg_laws; assumption)+

interpretation ewah_xor: reduction ewah_ops ewah_inv ewah_list
    "binary_xor ewah_ops ewah_ops ewah_ops" "(\<noteq>)" "\<lambda>bs. odd (count_list bs True)"
  by unfold_locales (rule ewah_xor_law agg_laws; assumption)+

end
