(* ===== verification/Wah.thy ===== *)
theory Wah
  imports Bitmap_Base
begin

text \<open>
  The WAH bitmap of \<^verbatim>\<open>wah_bitmap.hpp\<close> and \<^verbatim>\<open>wah_bitmap.cpp\<close>. A word is a literal of 63 bits or, when
  its most significant bit is set, a fill that stands for a number of literal words of one value.
  The last word is the active one: a literal that is still being filled. \<open>wah_inv\<close> is this
  invariant and \<open>wah_list\<close> the sequence of bits. The range may end with an empty sequence, so a WAH
  bitmap is an instance of \<open>iterable\<close> but not of \<open>proper\<close>.
\<close>

section \<open>Words\<close>

definition literal_word_size :: nat where
  "literal_word_size = width - 1"

definition max_fill_words :: u64 where
  "max_fill_words = drop_bit 2 all_word"

definition fill_mask :: u64 where
  "fill_mask = drop_bit 1 msb1"

definition fill_type :: "u64 \<Rightarrow> bool" where
  "fill_type block \<longleftrightarrow> block AND fill_mask = fill_mask"

definition is_fill :: "u64 \<Rightarrow> bool" where
  "is_fill block \<longleftrightarrow> block AND msb1 \<noteq> 0"

definition is_fill_of :: "u64 \<Rightarrow> bool \<Rightarrow> bool" where
  "is_fill_of block b \<longleftrightarrow> is_fill block \<and> fill_type block = b"

definition fill_words :: "u64 \<Rightarrow> nat" where
  "fill_words block = unat (block AND drop_bit 2 all_word)"

definition make_fill :: "bool \<Rightarrow> nat \<Rightarrow> u64" where
  "make_fill b n = (msb1 OR push_bit (width - 2) (if b then 1 else 0)) OR of_nat n"

section \<open>The bitmap and its modifiers\<close>

record wah =
  wah_blocks :: "u64 list"
  num_last :: nat
  wah_bits :: nat

definition wah_new :: wah where
  "wah_new = \<lparr>wah_blocks = [], num_last = 0, wah_bits = 0\<rparr>"

definition wah_empty :: "wah \<Rightarrow> bool" where
  "wah_empty w \<longleftrightarrow> wah_bits w = 0"

definition wah_size :: "wah \<Rightarrow> nat" where
  "wah_size w = wah_bits w"

text \<open>The scope guard appends an empty active word on every path after the two assertions.\<close>

definition merge_active_word :: "wah \<Rightarrow> wah option" where
  "merge_active_word w = do {
     require (wah_blocks w \<noteq> []);
     require (num_last w = literal_word_size);
     let bs = wah_blocks w;
     let back = last bs;
     let bs' = (if \<not> all_or_none_prefix back literal_word_size then bs
       else if length bs = 1 then butlast bs @ [make_fill (back \<noteq> 0) 1]
       else
         let fill_type = (back \<noteq> none_word);
             prev = last (butlast bs)
         in if fill_type then
              if is_fill_of prev True \<and> fill_words prev < unat max_fill_words
              then butlast (butlast bs) @ [make_fill True (fill_words prev + 1)]
              else butlast bs @ [make_fill True 1]
            else
              if is_fill_of prev False \<and> fill_words prev < unat max_fill_words
              then butlast (butlast bs) @ [make_fill False (fill_words prev + 1)]
              else butlast bs @ [make_fill False 1]);
     Some (w\<lparr>wah_blocks := bs' @ [none_word], num_last := 0\<rparr>)
   }"

definition wah_begin_append :: "wah \<Rightarrow> wah option" where
  "wah_begin_append w =
    (if wah_blocks w = [] then Some (w\<lparr>wah_blocks := [none_word]\<rparr>)
     else if num_last w = literal_word_size then merge_active_word w
     else Some w)"

definition wah_append_bit :: "bool \<Rightarrow> wah \<Rightarrow> wah option" where
  "wah_append_bit x w = do {
     w \<leftarrow> wah_begin_append w;
     bs \<leftarrow> update_back (\<lambda>b. b OR push_bit (num_last w) (if x then 1 else 0)) (wah_blocks w);
     Some (w\<lparr>wah_blocks := bs, num_last := num_last w + 1, wah_bits := wah_bits w + 1\<rparr>)
   }"

function wah_max_fills :: "bool \<Rightarrow> nat \<Rightarrow> u64 list \<Rightarrow> nat \<times> u64 list" where
  "wah_max_fills x fills bs =
    (if fills > unat max_fill_words
     then wah_max_fills x (fills - unat max_fill_words) (bs @ [make_fill x (unat max_fill_words)])
     else (fills, bs))"
  by pat_completeness auto
termination
  by (relation "measure (\<lambda>(_, fills, _). fills)") (simp_all add: max_fill_words_def drop_bit_eq_div)

declare wah_max_fills.simps [simp del]

definition wah_append_fills :: "bool \<Rightarrow> nat \<Rightarrow> u64 list \<Rightarrow> u64 list" where
  "wah_append_fills x fills bs =
    (let prev = last bs;
         merge = is_fill_of prev x \<and> fill_words prev + fills \<le> unat max_fill_words;
         bs = (if merge then butlast bs @ [make_fill x (fill_words prev + fills)] else bs);
         fills = (if merge then 0 else fills);
         (fills, bs) = wah_max_fills x fills bs
     in if fills > 0 then bs @ [make_fill x fills] else bs)"

definition wah_append_bits :: "bool \<Rightarrow> nat \<Rightarrow> wah \<Rightarrow> wah option" where
  "wah_append_bits x n w =
    (if n = 0 then Some w
     else do {
       w \<leftarrow> wah_begin_append w;
       let unused = literal_word_size - num_last w;
       let inject = min unused n;
       require (inject > 0);
       bs \<leftarrow> (if x then update_back (\<lambda>b. b OR push_bit (num_last w) (lsb_fill inject)) (wah_blocks w)
             else Some (wah_blocks w));
       let w = w\<lparr>wah_blocks := bs, num_last := num_last w + inject, wah_bits := wah_bits w + inject\<rparr>;
       if n \<le> inject then Some w
       else do {
         w \<leftarrow> merge_active_word w;
         let n = n - inject;
         let bs = butlast (wah_blocks w);
         let fills = n div literal_word_size;
         let partial = n mod literal_word_size;
         require (bs \<noteq> []);
         let bs = wah_append_fills x fills bs;
         Some (w\<lparr>wah_blocks := bs @ [if partial > 0 \<and> x then lsb_mask partial else none_word],
                 num_last := partial, wah_bits := wah_bits w + n\<rparr>)
       }
     })"

definition wah_append_block :: "u64 \<Rightarrow> nat \<Rightarrow> wah \<Rightarrow> wah option" where
  "wah_append_block value bits w = do {
     require (bits > 0);
     require (bits \<le> width);
     w \<leftarrow> wah_begin_append w;
     let unused = literal_word_size - num_last w;
     let inject = min unused bits;
     require (inject > 0);
     bs \<leftarrow> update_back (\<lambda>b. b OR push_bit (num_last w) (value AND lsb_fill inject)) (wah_blocks w);
     let w = w\<lparr>wah_blocks := bs, num_last := num_last w + inject, wah_bits := wah_bits w + inject\<rparr>;
     if bits \<le> inject then Some w
     else do {
       w \<leftarrow> merge_active_word w;
       let remaining = bits - inject;
       bs \<leftarrow> update_back (\<lambda>_. drop_bit inject value AND lsb_mask remaining) (wah_blocks w);
       Some (w\<lparr>wah_blocks := bs, num_last := remaining, wah_bits := wah_bits w + remaining\<rparr>)
     }
   }"

definition wah_make :: "nat \<Rightarrow> bool \<Rightarrow> wah option" where
  "wah_make n b = wah_append_bits b n wah_new"

definition flip_block :: "u64 \<Rightarrow> u64" where
  "flip_block block = block XOR drop_bit 1 (if is_fill block then msb1 else all_word)"

definition wah_flip :: "wah \<Rightarrow> wah option" where
  "wah_flip w =
    (if wah_blocks w = [] then Some w
     else do {
       let bs = map flip_block (wah_blocks w);
       let m = push_bit (num_last w) (lsb_mask (literal_word_size - num_last w));
       bs \<leftarrow> update_back (\<lambda>b. b XOR m) bs;
       Some (w\<lparr>wah_blocks := bs\<rparr>)
     })"

definition wah_equal :: "wah \<Rightarrow> wah \<Rightarrow> bool" where
  "wah_equal x y \<longleftrightarrow> wah_blocks x = wah_blocks y \<and> wah_bits x = wah_bits y"

section \<open>The bit range\<close>

record wah_range =
  wr_begin :: nat
  wr_bits :: bits

function wah_fill_loop :: "u64 list \<Rightarrow> bool \<Rightarrow> nat \<Rightarrow> nat \<Rightarrow> nat \<times> nat" where
  "wah_fill_loop bs value k n =
    (if k + 1 < length bs \<and> is_fill_of (bs ! (k + 1)) value
     then wah_fill_loop bs value (k + 1) (n + fill_words (bs ! (k + 1)) * literal_word_size)
     else (k + 1, n))"
  by pat_completeness auto
termination by (relation "measure (\<lambda>(bs, _, k, _). length bs - k)") auto

declare wah_fill_loop.simps [simp del]

definition wah_scan :: "wah \<Rightarrow> wah_range \<Rightarrow> wah_range option" where
  "wah_scan bm r = do {
     require (wr_begin r < length (wah_blocks bm));
     let block = wah_blocks bm ! wr_begin r;
     if is_fill block then do {
       let value = fill_type block;
       let (k, n) = wah_fill_loop (wah_blocks bm) value (wr_begin r)
         (fill_words block * literal_word_size);
       b \<leftarrow> mk_bits (if value then all_word else none_word) n;
       Some \<lparr>wr_begin = k - 1, wr_bits = b\<rparr>
     } else if wr_begin r + 1 \<noteq> length (wah_blocks bm) then do {
       b \<leftarrow> mk_bits block literal_word_size;
       Some (r\<lparr>wr_bits := b\<rparr>)
     } else do {
       b \<leftarrow> mk_bits block (num_last bm);
       Some (r\<lparr>wr_bits := b\<rparr>)
     }
   }"

definition wah_range_new :: "wah \<Rightarrow> wah_range option" where
  "wah_range_new bm =
    (let r = \<lparr>wr_begin = 0, wr_bits = empty_bits\<rparr> in
     if wah_blocks bm \<noteq> [] then wah_scan bm r else Some r)"

definition wah_range_done :: "wah \<Rightarrow> wah_range \<Rightarrow> bool" where
  "wah_range_done bm r \<longleftrightarrow> wr_begin r = length (wah_blocks bm)"

definition wah_range_next :: "wah \<Rightarrow> wah_range \<Rightarrow> wah_range option" where
  "wah_range_next bm r =
    (let r = r\<lparr>wr_begin := wr_begin r + 1\<rparr> in
     if wr_begin r \<noteq> length (wah_blocks bm) then wah_scan bm r else Some r)"

definition wah_bit_range :: "wah \<Rightarrow> bits list option" where
  "wah_bit_range bm =
    wah_range_new bm \<bind> range_walk (wah_range_done bm) (wah_range_next bm) wr_bits"

definition wah_ops :: "wah bitmap_ops" where
  "wah_ops = \<lparr>bm_new = wah_new, bm_empty = wah_empty, bm_size = wah_size,
     bm_append_bit = wah_append_bit, bm_append_bits = wah_append_bits,
     bm_append_block = wah_append_block, bm_flip = wah_flip, bm_range = wah_bit_range\<rparr>"

end
