(* ===== verification/Wah_Refinement.thy ===== *)
theory Wah_Refinement
  imports Wah
begin

text \<open>
  The WAH bitmap refines lists of bits. \<open>wah_active\<close> describes a bitmap by the words before the
  active word, the active word and the number of its bits in use.
\<close>

section \<open>Words\<close>

lemma literal_size [simp]: "literal_word_size = 63"
  by (simp add: literal_word_size_def)

lemma bit_fill_mask [bit_simps]: "bit fill_mask i \<longleftrightarrow> i = 62"
  by (auto simp: fill_mask_def bit_simps)

lemma max_fill_eq: "max_fill_words = mask 62"
  by (rule bit_word_eqI) (auto simp: max_fill_words_def bit_simps)

lemma unat_max_fill: "unat max_fill_words = 2 ^ 62 - 1"
  by (simp add: max_fill_eq unat_mask)

lemma is_fill_iff: "is_fill b \<longleftrightarrow> bit b 63"
proof -
  have "bit (b AND msb1) 63 = bit b 63" by (simp add: bit_simps)
  then have "b AND msb1 = 0 \<Longrightarrow> \<not> bit b 63" by simp
  moreover have "\<not> bit b 63 \<Longrightarrow> b AND msb1 = 0" by (rule bit_word_eqI) (auto simp: bit_simps)
  ultimately show ?thesis by (auto simp: is_fill_def)
qed

lemma fill_type_iff: "fill_type b \<longleftrightarrow> bit b 62"
proof -
  have "bit (b AND fill_mask) 62 = bit b 62" and "bit fill_mask 62" by (simp_all add: bit_simps)
  then have "b AND fill_mask = fill_mask \<Longrightarrow> bit b 62" by simp
  moreover have "bit b 62 \<Longrightarrow> b AND fill_mask = fill_mask" by (rule bit_word_eqI) (auto simp: bit_simps)
  ultimately show ?thesis by (auto simp: fill_type_def)
qed

lemma of_nat_le_mask:
  assumes "n \<le> unat (mask k :: u64)"
  shows "unat (of_nat n :: u64) = n" and "(of_nat n :: u64) \<le> mask k"
proof -
  have "n < 2 ^ 64" using assms unsigned_less [of "mask k :: u64", where ?'a = nat] by simp
  then show "unat (of_nat n :: u64) = n" by (simp add: unat_of_nat take_bit_nat_eq_self)
  then show "(of_nat n :: u64) \<le> mask k" using assms by (simp add: word_le_nat_alt)
qed

lemma make_fill_fields:
  assumes "n \<le> unat max_fill_words"
  shows "is_fill (make_fill b n)" and "fill_type (make_fill b n) = b" and "fill_words (make_fill b n) = n"
proof -
  have n: "n \<le> unat (mask 62 :: u64)" using assms by (simp add: max_fill_eq)
  note bit = le_mask_bit [OF _ of_nat_le_mask(2) [OF n]]
  show "is_fill (make_fill b n)" by (simp add: is_fill_iff make_fill_def bit_simps)
  show "fill_type (make_fill b n) = b"
    using bit [of 62] by (auto simp: fill_type_iff make_fill_def bit_simps)
  have "make_fill b n AND drop_bit 2 all_word = of_nat n"
  proof (rule bit_word_eqI)
    fix i assume "i < LENGTH(64)"
    then show "bit (make_fill b n AND drop_bit 2 all_word) i = bit (of_nat n :: u64) i"
      using bit [of i] by (auto simp: make_fill_def bit_simps)
  qed
  then show "fill_words (make_fill b n) = n" by (simp add: fill_words_def of_nat_le_mask(1) [OF n])
qed

lemma fill_words_le: "fill_words b \<le> unat max_fill_words"
proof -
  have "drop_bit 2 all_word = mask 62" unfolding max_fill_words_def [symmetric] by (rule max_fill_eq)
  then have "b AND drop_bit 2 all_word \<le> mask 62"
    using le_mask_iff [of 62 "b AND mask 62"] by (simp only: and.assoc and.idem)
  then show ?thesis by (simp add: fill_words_def max_fill_eq word_le_nat_alt)
qed

lemma all_or_none_prefix_iff:
  assumes "x AND mask k = x" and "k < width"
  shows "all_or_none_prefix x k \<longleftrightarrow> x = 0 \<or> x = mask k"
proof -
  have le: "unat x \<le> 2 ^ k - 1"
    using assms le_mask_iff [of k x] by (simp add: word_le_nat_alt unat_mask)
  have "(2 :: nat) ^ k \<le> 2 ^ 63" using assms(2) by (intro power_increasing) simp_all
  then have "unat x + 1 < 2 ^ 64" using le by simp
  then have suc: "unat (x + 1) = unat x + 1" by (simp add: unat_word_ariths take_bit_nat_eq_self)
  have "unat ((x + 1) AND mask k) = (unat x + 1) mod 2 ^ k"
    unfolding take_bit_eq_mask [symmetric] unsigned_take_bit_eq suc by (rule take_bit_eq_mod)
  then have "all_or_none_prefix x k \<longleftrightarrow> (unat x + 1) mod 2 ^ k \<le> 1"
    by (simp add: all_or_none_prefix_def lsb_mask_eq word_le_nat_alt)
  also have "\<dots> \<longleftrightarrow> unat x = 0 \<or> unat x = 2 ^ k - 1"
    using le by (cases "unat x + 1 = 2 ^ k") auto
  also have "\<dots> \<longleftrightarrow> x = 0 \<or> x = mask k"
    using assms(2) by (simp add: unat_eq_0 word_unat_eq_iff [of x "mask k"] unat_mask)
  finally show ?thesis .
qed

definition word_bits :: "u64 \<Rightarrow> bool list" where
  "word_bits w = (if is_fill w then replicate (63 * fill_words w) (fill_type w) else bits_of 63 w)"

definition words_bits :: "u64 list \<Rightarrow> bool list" where
  "words_bits ws = concat (map word_bits ws)"

lemma words_bits_simps [simp]:
  "words_bits [] = []"
  "words_bits (w # ws) = word_bits w @ words_bits ws"
  "words_bits (ws @ vs) = words_bits ws @ words_bits vs"
  by (simp_all add: words_bits_def)

lemma words_bits_last: "bs \<noteq> [] \<Longrightarrow> words_bits bs = words_bits (butlast bs) @ word_bits (last bs)"
  using words_bits_simps(3) [of "butlast bs" "[last bs]"] by simp

lemma word_bits_fill: "n \<le> unat max_fill_words \<Longrightarrow> word_bits (make_fill b n) = replicate (63 * n) b"
  by (simp add: word_bits_def make_fill_fields)

lemma word_bits_fill_of: "is_fill_of w b \<Longrightarrow> word_bits w = replicate (63 * fill_words w) b"
  by (auto simp: word_bits_def is_fill_of_def)

lemma literal_not_fill: "w AND mask p = w \<Longrightarrow> p \<le> 63 \<Longrightarrow> \<not> is_fill w"
  by (simp add: is_fill_iff mask_clear_bit)

lemma word_bits_literal: "w AND mask 63 = w \<Longrightarrow> word_bits w = bits_of 63 w"
  by (simp add: word_bits_def literal_not_fill)

section \<open>The invariant\<close>

definition wah_active :: "wah \<Rightarrow> u64 list \<Rightarrow> u64 \<Rightarrow> nat \<Rightarrow> bool" where
  "wah_active w ws act p \<longleftrightarrow> wah_blocks w = ws @ [act] \<and> num_last w = p \<and> p \<le> 63
    \<and> act AND mask p = act \<and> wah_bits w = length (words_bits ws) + p"

definition wah_inv :: "wah \<Rightarrow> bool" where
  "wah_inv w \<longleftrightarrow> w = wah_new \<or> (\<exists>ws act p. wah_active w ws act p)"

definition wah_list :: "wah \<Rightarrow> bool list" where
  "wah_list w = (if wah_blocks w = [] then []
    else words_bits (butlast (wah_blocks w)) @ bits_of (num_last w) (last (wah_blocks w)))"

lemma wah_active_list: "wah_active w ws act p \<Longrightarrow> wah_list w = words_bits ws @ bits_of p act"
  by (simp add: wah_active_def wah_list_def)

lemma wah_active_inv: "wah_active w ws act p \<Longrightarrow> wah_inv w"
  by (auto simp: wah_inv_def)

lemma wah_cases:
  assumes "wah_inv w"
  obtains (new) "w = wah_new" | (active) ws act p where "wah_active w ws act p"
  using assms by (auto simp: wah_inv_def)

lemma wah_new_inv [simp]: "wah_inv wah_new" "wah_list wah_new = []"
  by (simp_all add: wah_inv_def wah_list_def wah_new_def)

lemma wah_length: "wah_inv w \<Longrightarrow> wah_bits w = length (wah_list w)"
  by (elim wah_cases) (simp_all add: wah_active_list, simp_all add: wah_new_def wah_active_def)

section \<open>Merging the active word\<close>

lemma wah_merge_spec:
  assumes "wah_active w ws act 63"
  shows "\<exists>w' ws'. merge_active_word w = Some w' \<and> wah_active w' ws' 0 0 \<and> ws' \<noteq> []
    \<and> words_bits ws' = words_bits ws @ bits_of 63 act"
proof -
  have blocks: "wah_blocks w = ws @ [act]" "num_last w = 63" and act: "act AND mask 63 = act"
    and num: "wah_bits w = length (words_bits ws) + 63"
    using assms by (simp_all add: wah_active_def)
  have fill: "all_or_none_prefix act 63 \<longleftrightarrow> act = 0 \<or> act = mask 63"
    using act by (simp add: all_or_none_prefix_iff)
  have bits: "act = 0 \<or> act = mask 63 \<Longrightarrow> bits_of 63 act = replicate 63 (act \<noteq> 0)"
    by (auto simp: bits_of_zero intro!: nth_equalityI simp: bit_simps)
  have one: "1 \<le> unat max_fill_words" by (simp add: unat_max_fill)
  have result: ?thesis if "merge_active_word w = Some (w\<lparr>wah_blocks := ws' @ [0], num_last := 0\<rparr>)"
    "ws' \<noteq> []" "words_bits ws' = words_bits ws @ bits_of 63 act" for ws'
    using that num by (intro exI [of _ "w\<lparr>wah_blocks := ws' @ [0], num_last := 0\<rparr>"] exI [of _ ws'])
      (simp add: wah_active_def)
  show ?thesis
  proof (cases "act = 0 \<or> act = mask 63")
    case False
    then show ?thesis
      using blocks fill word_bits_literal [OF act]
      by (intro result [of "ws @ [act]"]) (simp_all add: merge_active_word_def Let_def)
  next
    case True
    note homog = bits [OF True]
    let ?v = "act \<noteq> 0"
    show ?thesis
    proof (cases "ws \<noteq> [] \<and> is_fill_of (last ws) ?v \<and> fill_words (last ws) < unat max_fill_words")
      case merge: True
      let ?ws = "butlast ws @ [make_fill ?v (fill_words (last ws) + 1)]"
      have "words_bits ws = words_bits (butlast ws) @ replicate (63 * fill_words (last ws)) ?v"
        using merge words_bits_last [of ws] by (simp add: word_bits_fill_of)
      moreover have "word_bits (make_fill ?v (fill_words (last ws) + 1))
          = replicate (63 * fill_words (last ws)) ?v @ replicate 63 ?v"
        unfolding replicate_append_add using merge by (subst word_bits_fill) (simp_all add: algebra_simps)
      moreover have "merge_active_word w = Some (w\<lparr>wah_blocks := ?ws @ [0], num_last := 0\<rparr>)"
        using merge blocks fill True by (auto simp: merge_active_word_def Let_def butlast_append)
      ultimately show ?thesis using homog by (intro result [of ?ws]) simp_all
    next
      case False
      have "merge_active_word w = Some (w\<lparr>wah_blocks := (ws @ [make_fill ?v 1]) @ [0], num_last := 0\<rparr>)"
        using False blocks fill True
        by (auto simp: merge_active_word_def Let_def butlast_append)
      then show ?thesis using homog one by (intro result [of "ws @ [make_fill ?v 1]"])
          (simp_all add: word_bits_fill)
    qed
  qed
qed

lemma begin_spec:
  assumes "wah_inv w"
  obtains w' ws act p where "wah_begin_append w = Some w'" "wah_active w' ws act p" "p < 63"
    "wah_list w' = wah_list w"
  using assms
proof (cases rule: wah_cases)
  case new
  then show ?thesis
    by (intro that [of "wah_new\<lparr>wah_blocks := [0]\<rparr>" "[]" 0 0])
      (simp_all add: wah_begin_append_def wah_new_def wah_active_def wah_list_def)
next
  case (active ws act p)
  show ?thesis
  proof (cases "p = 63")
    case True
    from wah_merge_spec [OF active [unfolded this]] obtain w' ws' where
      "merge_active_word w = Some w'" "wah_active w' ws' 0 0" "words_bits ws' = words_bits ws @ bits_of 63 act"
      by auto
    then show ?thesis
      using active True wah_active_list [OF active] wah_active_list [of w' ws' 0 0]
      by (intro that [of w' ws' 0 0]) (simp_all add: wah_begin_append_def wah_active_def)
  next
    case False
    then show ?thesis using active
      by (intro that [of w ws act p]) (simp_all add: wah_begin_append_def wah_active_def)
  qed
qed

text \<open>Adding \<open>k\<close> bits to the active word.\<close>

lemma active_push:
  assumes "wah_active w ws act p" and "p + k \<le> 63" and "v AND mask k = v"
  defines "w' \<equiv> w\<lparr>wah_blocks := ws @ [act OR push_bit p v], num_last := p + k, wah_bits := wah_bits w + k\<rparr>"
  shows "wah_active w' ws (act OR push_bit p v) (p + k)"
    and "wah_list w' = wah_list w @ bits_of k v"
    and "update_back (\<lambda>b. b OR push_bit p v) (wah_blocks w) = Some (ws @ [act OR push_bit p v])"
proof -
  have act: "act AND mask p = act" using assms(1) by (simp add: wah_active_def)
  have "(act OR push_bit p v) AND mask (p + k) = act OR push_bit p v"
    using mask_clear_bit [OF act] mask_clear_bit [OF assms(3)]
    by (intro mask_clearI) (auto simp: bit_simps)
  then show *: "wah_active w' ws (act OR push_bit p v) (p + k)"
    using assms(1,2) by (simp add: wah_active_def w'_def)
  show "wah_list w' = wah_list w @ bits_of k v"
    using wah_active_list [OF *] wah_active_list [OF assms(1)] bits_of_append_clear [OF _ act, of k v] assms(2)
    by simp
  show "update_back (\<lambda>b. b OR push_bit p v) (wah_blocks w) = Some (ws @ [act OR push_bit p v])"
    using assms(1) by (simp add: wah_active_def)
qed

lemma wah_append_bit_spec:
  assumes "wah_inv w"
  shows "\<exists>w'. wah_append_bit x w = Some w' \<and> wah_inv w' \<and> wah_list w' = wah_list w @ [x]"
proof -
  obtain w1 ws act p where w1: "wah_begin_append w = Some w1" "wah_active w1 ws act p" "p < 63"
      "wah_list w1 = wah_list w"
    using begin_spec [OF assms] by blast
  have v: "(if x then 1 else 0) AND mask 1 = (if x then 1 else (0 :: u64))"
    by (auto intro!: bit_word_eqI simp: bit_simps)
  have one: "bits_of 1 (if x then 1 else 0) = [x]" by (simp add: bits_of_def)
  have "p + 1 \<le> 63" using w1(3) by simp
  note push = active_push [OF w1(2) this v]
  have "num_last w1 = p" using w1(2) by (simp add: wah_active_def)
  then show ?thesis
    using w1(1,4) push one wah_active_inv [OF push(1)] by (simp add: wah_append_bit_def)
qed

section \<open>Appending runs\<close>

lemma max_fills_spec:
  "wah_max_fills x fills bs = (fills', bs') \<Longrightarrow> fills' \<le> unat max_fill_words \<and> bs' \<noteq> [] = (bs' \<noteq> [])
    \<and> words_bits bs' @ replicate (63 * fills') x = words_bits bs @ replicate (63 * fills) x"
proof (induction x fills bs rule: wah_max_fills.induct)
  case (1 x fills bs)
  show ?case
  proof (cases "fills > unat max_fill_words")
    case True
    have "wah_max_fills x (fills - unat max_fill_words) (bs @ [make_fill x (unat max_fill_words)]) = (fills', bs')"
      using "1.prems" True by (subst (asm) wah_max_fills.simps) simp
    from "1.IH" [OF True this] show ?thesis
      using True by (simp add: word_bits_fill replicate_append_add flip: distrib_left)
  next
    case False
    then show ?thesis using "1.prems" by (subst (asm) wah_max_fills.simps) simp
  qed
qed

lemma append_fills_spec:
  assumes "bs \<noteq> []"
  shows "words_bits (wah_append_fills x fills bs) = words_bits bs @ replicate (63 * fills) x"
proof -
  define merge where "merge \<longleftrightarrow> is_fill_of (last bs) x \<and> fill_words (last bs) + fills \<le> unat max_fill_words"
  define bs1 where "bs1 = (if merge then butlast bs @ [make_fill x (fill_words (last bs) + fills)] else bs)"
  define f1 where "f1 = (if merge then 0 else fills)"
  obtain f2 bs2 where 2: "wah_max_fills x f1 bs1 = (f2, bs2)" by fastforce
  have bs: "words_bits bs = words_bits (butlast bs) @ word_bits (last bs)"
    using assms by (rule words_bits_last)
  have 1: "words_bits bs1 @ replicate (63 * f1) x = words_bits bs @ replicate (63 * fills) x"
    by (auto simp: bs1_def f1_def bs merge_def word_bits_fill word_bits_fill_of replicate_add distrib_left)
  have code: "wah_append_fills x fills bs = (if f2 > 0 then bs2 @ [make_fill x f2] else bs2)"
    using 2 unfolding wah_append_fills_def Let_def merge_def [symmetric] bs1_def [symmetric] f1_def [symmetric]
    by simp
  show ?thesis
    using max_fills_spec [OF 2] 1 unfolding code by (auto simp: word_bits_fill)
qed

lemma fill_word: "k \<le> width \<Longrightarrow> bits_of k (if x then mask k else 0) = replicate k x"
  by (auto simp: bits_of_zero intro!: nth_equalityI simp: bit_simps)

lemma wah_append_bits_spec:
  assumes "wah_inv w"
  shows "\<exists>w'. wah_append_bits x n w = Some w' \<and> wah_inv w' \<and> wah_list w' = wah_list w @ replicate n x"
proof (cases "n = 0")
  case True
  then show ?thesis using assms by (simp add: wah_append_bits_def)
next
  case False
  obtain w1 ws act p where w1: "wah_begin_append w = Some w1" "wah_active w1 ws act p" "p < 63"
      "wah_list w1 = wah_list w"
    using begin_spec [OF assms] by blast
  define k where "k = min (63 - p) n"
  have k: "0 < k" "p + k \<le> 63" using w1(3) False by (auto simp: k_def)
  let ?v = "if x then mask k else (0 :: u64)"
  have v: "?v AND mask k = ?v" by simp
  note push = active_push [OF w1(2) k(2) v]
  let ?w2 = "w1\<lparr>wah_blocks := ws @ [act OR push_bit p ?v], num_last := p + k, wah_bits := wah_bits w1 + k\<rparr>"
  have last: "num_last w1 = p" "wah_blocks w1 = ws @ [act]" using w1(2) by (simp_all add: wah_active_def)
  have fill: "(if x then update_back (\<lambda>b. b OR push_bit p (lsb_fill k)) (wah_blocks w1) else Some (wah_blocks w1))
      = Some (ws @ [act OR push_bit p ?v])"
    using push(3) k last(2) by (auto simp: lsb_fill_eq)
  have list2: "wah_list ?w2 = wah_list w @ replicate k x"
    using push(2) w1(4) fill_word [of k x] k by simp
  show ?thesis
  proof (cases "n \<le> k")
    case True
    then have nk: "n = k" "k \<le> 63 - p" by (simp_all add: k_def)
    have "wah_append_bits x n w = Some ?w2"
      using w1(1) last k(1) fill nk(2) w1(3) unfolding wah_append_bits_def nk(1)
      by (cases x) (simp_all add: Let_def)
    then show ?thesis using list2 wah_active_inv [OF push(1)] nk(1) by auto
  next
    case more: False
    then have "k = 63 - p" by (simp add: k_def)
    then have full: "p + k = 63" using w1(3) by simp
    obtain w3 ws3 where w3: "merge_active_word ?w2 = Some w3" "wah_active w3 ws3 0 0" "ws3 \<noteq> []"
        "words_bits ws3 = words_bits ws @ bits_of 63 (act OR push_bit p ?v)"
      using wah_merge_spec [OF push(1) [unfolded full]] full by auto
    let ?n = "n - k"
    let ?bs = "wah_append_fills x (?n div 63) ws3" and ?q = "?n mod 63"
    let ?w4 = "w3\<lparr>wah_blocks := ?bs @ [if ?q > 0 \<and> x then lsb_mask ?q else none_word],
                 num_last := ?q, wah_bits := wah_bits w3 + ?n\<rparr>"
    have b3: "wah_blocks w3 = ws3 @ [0]" "wah_bits w3 = length (words_bits ws3)"
      using w3(2) by (simp_all add: wah_active_def)
    have code: "wah_append_bits x n w = Some ?w4"
    proof -
      have "63 - p = k" "min k n = k" "\<not> n \<le> k" using more \<open>k = 63 - p\<close> by simp_all
      then show ?thesis
        using False w1(1) last k(1) fill w3(1,3) b3(1) unfolding wah_append_bits_def
        by (cases x) (simp_all add: Let_def)
    qed
    have tail: "(if ?q > 0 \<and> x then lsb_mask ?q else none_word) = (if x then mask ?q else 0)"
      by (auto simp: lsb_mask_eq)
    have bits: "words_bits ?bs = words_bits ws3 @ replicate (63 * (?n div 63)) x"
      using w3(3) by (rule append_fills_spec)
    have q: "?q \<le> 63" by (intro less_imp_le) simp
    have act4: "wah_active ?w4 ?bs (if x then mask ?q else 0) ?q"
      using q bits b3(2) mult_div_mod_eq [of 63 ?n] unfolding tail wah_active_def by simp
    have "wah_list ?w4 = words_bits ws3 @ replicate (63 * (?n div 63)) x @ replicate ?q x"
      using wah_active_list [OF act4] bits fill_word [of ?q x] q by simp
    also have "words_bits ws3 = wah_list w @ replicate k x"
      using w3(4) list2 wah_active_list [OF push(1)] full by simp
    also have "(wah_list w @ replicate k x) @ replicate (63 * (?n div 63)) x @ replicate ?q x
        = wah_list w @ replicate n x"
      using more by (simp add: replicate_append_add mult_div_mod_eq)
    finally show ?thesis using code wah_active_inv [OF act4] by blast
  qed
qed

lemma wah_append_block_spec:
  assumes "wah_inv w" and "0 < n" and "n \<le> width"
  shows "\<exists>w'. wah_append_block v n w = Some w' \<and> wah_inv w' \<and> wah_list w' = wah_list w @ bits_of n v"
proof -
  obtain w1 ws act p where w1: "wah_begin_append w = Some w1" "wah_active w1 ws act p" "p < 63"
      "wah_list w1 = wah_list w"
    using begin_spec [OF assms(1)] by blast
  define k where "k = min (63 - p) n"
  have k: "0 < k" "p + k \<le> 63" "k \<le> n" using w1(3) assms(2) by (auto simp: k_def)
  let ?v = "v AND mask k"
  have v: "?v AND mask k = ?v" by (simp add: and.assoc)
  note push = active_push [OF w1(2) k(2) v]
  let ?w2 = "w1\<lparr>wah_blocks := ws @ [act OR push_bit p ?v], num_last := p + k, wah_bits := wah_bits w1 + k\<rparr>"
  have last: "num_last w1 = p" using w1(2) by (simp add: wah_active_def)
  have fill: "update_back (\<lambda>b. b OR push_bit p (v AND lsb_fill k)) (wah_blocks w1)
      = Some (ws @ [act OR push_bit p ?v])"
    using push(3) k by (simp add: lsb_fill_eq)
  have list2: "wah_list ?w2 = wah_list w @ bits_of k v"
    using push(2) w1(4) by (simp add: bits_of_mask)
  show ?thesis
  proof (cases "n \<le> k")
    case True
    then have nk: "n = k" "k \<le> 63 - p" using k by (simp_all add: k_def)
    have "wah_append_block v n w = Some ?w2"
      using assms(2,3) w1(1) last k(1) fill nk(2) w1(3) unfolding wah_append_block_def nk(1)
      by (simp add: Let_def)
    then show ?thesis using list2 wah_active_inv [OF push(1)] nk(1) by auto
  next
    case more: False
    then have "k = 63 - p" by (simp add: k_def)
    then have full: "p + k = 63" using w1(3) by simp
    obtain w3 ws3 where w3: "merge_active_word ?w2 = Some w3" "wah_active w3 ws3 0 0"
        "words_bits ws3 = words_bits ws @ bits_of 63 (act OR push_bit p ?v)"
      using wah_merge_spec [OF push(1) [unfolded full]] full by auto
    let ?r = "n - k" and ?u = "drop_bit k v AND mask (n - k)"
    let ?w4 = "w3\<lparr>wah_blocks := ws3 @ [?u], num_last := ?r, wah_bits := wah_bits w3 + ?r\<rparr>"
    have b3: "wah_blocks w3 = ws3 @ [0]" "wah_bits w3 = length (words_bits ws3)"
      using w3(2) by (simp_all add: wah_active_def)
    have code: "wah_append_block v n w = Some ?w4"
    proof -
      have "63 - p = k" "min k n = k" "\<not> n \<le> k" using more k(3) \<open>k = 63 - p\<close> by simp_all
      then show ?thesis
        using assms(2,3) w1(1) last k(1) fill w3(1) b3(1) unfolding wah_append_block_def
        by (simp add: Let_def lsb_mask_eq)
    qed
    have act4: "wah_active ?w4 ws3 ?u ?r"
      using assms(3) k(1) b3(2) by (simp add: wah_active_def and.assoc)
    have "wah_list ?w4 = words_bits ws3 @ bits_of ?r (drop_bit k v)"
      using wah_active_list [OF act4] by (simp add: bits_of_mask)
    also have "words_bits ws3 = wah_list w @ bits_of k v"
      using w3(3) list2 wah_active_list [OF push(1)] full by simp
    also have "(wah_list w @ bits_of k v) @ bits_of ?r (drop_bit k v) = wah_list w @ bits_of n v"
      using bits_of_split [of k ?r v] k(3) by simp
    finally show ?thesis using code wah_active_inv [OF act4] by blast
  qed
qed

section \<open>Complement\<close>

lemma flip_block_bits: "word_bits (flip_block b) = map Not (word_bits b)"
proof (cases "is_fill b")
  case True
  have flip: "flip_block b = b XOR fill_mask" using True by (simp add: flip_block_def fill_mask_def)
  have "fill_words (b XOR fill_mask) = fill_words b"
    unfolding fill_words_def by (intro arg_cong [of _ _ unat] bit_word_eqI) (auto simp: bit_simps)
  then show ?thesis
    using True by (simp add: word_bits_def flip is_fill_iff fill_type_iff bit_simps)
next
  case False
  then have "\<not> is_fill (flip_block b)" by (simp add: flip_block_def is_fill_iff bit_simps)
  moreover have "bits_of 63 (flip_block b) = map Not (bits_of 63 b)"
    using False by (intro nth_equalityI) (auto simp: flip_block_def bit_simps)
  ultimately show ?thesis using False by (simp add: word_bits_def)
qed

lemma words_bits_flip: "words_bits (map flip_block bs) = map Not (words_bits bs)"
  by (induction bs) (simp_all add: flip_block_bits)

lemma wah_flip_spec:
  assumes "wah_inv w"
  shows "\<exists>w'. wah_flip w = Some w' \<and> wah_inv w' \<and> wah_list w' = map Not (wah_list w)"
  using assms
proof (cases rule: wah_cases)
  case new
  then show ?thesis by (simp add: wah_flip_def wah_new_def wah_inv_def wah_list_def)
next
  case (active ws act p)
  let ?act = "flip_block act XOR push_bit p (lsb_mask (63 - p))"
  let ?w = "w\<lparr>wah_blocks := map flip_block ws @ [?act]\<rparr>"
  have b: "wah_blocks w = ws @ [act]" "num_last w = p" "p \<le> 63" and act: "act AND mask p = act"
    using active by (simp_all add: wah_active_def)
  have lit: "\<not> is_fill act" using literal_not_fill [OF act b(3)] .
  have bits: "bit ?act i \<longleftrightarrow> i < p \<and> \<not> bit act i" if "i < width" for i
    using that lit b(3) mask_clear_bit [OF act, of i]
    by (cases "i = 63") (auto simp: flip_block_def lsb_mask_eq bit_simps is_fill_iff)
  have code: "wah_flip w = Some ?w" using b by (simp add: wah_flip_def)
  have new: "wah_active ?w (map flip_block ws) ?act p"
    using active bits mask_clearI [of p ?act] by (simp add: wah_active_def words_bits_flip)
  have "bits_of p ?act = map Not (bits_of p act)"
    using bits b(3) by (intro nth_equalityI) simp_all
  then have "wah_list ?w = map Not (wah_list w)"
    using wah_active_list [OF new] wah_active_list [OF active] by (simp add: words_bits_flip)
  then show ?thesis using code wah_active_inv [OF new] by blast
qed

section \<open>Iteration\<close>

definition rest_bits :: "wah \<Rightarrow> nat \<Rightarrow> bool list" where
  "rest_bits w k = words_bits (drop k (butlast (wah_blocks w))) @ bits_of (num_last w) (last (wah_blocks w))"

definition wah_yields :: "wah \<Rightarrow> nat \<Rightarrow> wah_range \<Rightarrow> bool" where
  "wah_yields w k r \<longleftrightarrow> bits_inv (wr_bits r) \<and> k \<le> wr_begin r \<and> wr_begin r < length (wah_blocks w)
    \<and> rest_bits w k = bits_list (wr_bits r)
        @ (if wr_begin r + 1 = length (wah_blocks w) then [] else rest_bits w (wr_begin r + 1))"

lemma fill_loop_spec:
  assumes "wah_active w ws act p" and "k < length ws"
    and "wah_fill_loop (wah_blocks w) v k n = (k', n')"
  shows "k < k' \<and> k' \<le> length ws
    \<and> replicate n v @ words_bits (drop (k + 1) ws) = replicate n' v @ words_bits (drop k' ws)"
  using assms(2,3)
proof (induction "wah_blocks w" v k n rule: wah_fill_loop.induct)
  case (1 v k n)
  let ?b = "wah_blocks w ! (k + 1)"
  have blocks: "wah_blocks w = ws @ [act]" and lit: "\<not> is_fill act"
    using assms(1) literal_not_fill by (auto simp: wah_active_def)
  show ?case
  proof (cases "k + 1 < length (wah_blocks w) \<and> is_fill_of ?b v")
    case True
    have less: "k + 1 < length ws"
    proof (rule ccontr)
      assume "\<not> k + 1 < length ws"
      then have "?b = act" using "1.prems"(1) True by (auto simp: blocks nth_append)
      then show False using True lit by (simp add: is_fill_of_def)
    qed
    then have b: "?b = ws ! (k + 1)" by (simp add: blocks nth_append)
    have "wah_fill_loop (wah_blocks w) v (k + 1) (n + fill_words ?b * literal_word_size) = (k', n')"
      using "1.prems"(2) True by (subst (asm) wah_fill_loop.simps) simp
    from "1.hyps" [OF True less this] less
    have "k + 1 < k'" "k' \<le> length ws"
      "replicate (n + fill_words ?b * 63) v @ words_bits (drop (k + 2) ws) = replicate n' v @ words_bits (drop k' ws)"
      by simp_all
    moreover have "words_bits (drop (k + 1) ws) = replicate (63 * fill_words ?b) v @ words_bits (drop (k + 2) ws)"
      using less True unfolding b by (simp add: word_bits_fill_of flip: Cons_nth_drop_Suc)
    ultimately show ?thesis by (simp add: replicate_add mult.commute)
  next
    case False
    then show ?thesis
      using "1.prems" by (subst (asm) wah_fill_loop.simps) auto
  qed
qed

lemma wah_scan_spec:
  assumes "wah_active w ws act p" and "wr_begin r \<le> length ws"
  shows "\<exists>r'. wah_scan w r = Some r' \<and> wah_yields w (wr_begin r) r'"
proof -
  let ?k = "wr_begin r"
  have blocks: "wah_blocks w = ws @ [act]" "num_last w = p" "p \<le> 63" and act: "act AND mask p = act"
    using assms(1) by (simp_all add: wah_active_def)
  have lit: "\<not> is_fill act" using literal_not_fill [OF act blocks(3)] .
  show ?thesis
  proof (cases "?k = length ws")
    case True
    obtain b where b: "mk_bits act p = Some b" "bits_inv b" "bits_list b = bits_of p act"
      using mk_bits_short [of p act] blocks(3) by auto
    have "wah_scan w r = Some (r\<lparr>wr_bits := b\<rparr>)"
      using True blocks lit b(1) by (simp add: wah_scan_def)
    then show ?thesis using b True blocks by (simp add: wah_yields_def rest_bits_def)
  next
    case False
    then have k: "?k < length ws" using assms(2) by simp
    then have block: "wah_blocks w ! ?k = ws ! ?k" by (simp add: blocks nth_append)
    have step: "words_bits (drop ?k ws) = word_bits (ws ! ?k) @ words_bits (drop (?k + 1) ws)"
      using k by (simp flip: Cons_nth_drop_Suc)
    show ?thesis
    proof (cases "is_fill (ws ! ?k)")
      case True
      let ?v = "fill_type (ws ! ?k)" and ?n = "fill_words (ws ! ?k) * 63"
      obtain k' n' where loop: "wah_fill_loop (wah_blocks w) ?v ?k ?n = (k', n')" by fastforce
      note fill = fill_loop_spec [OF assms(1) k loop]
      let ?x = "if ?v then all_word else none_word"
      have x: "?x = 0 \<or> ?x = - 1" "(?x \<noteq> 0) = ?v" by simp_all
      obtain b where b: "mk_bits ?x n' = Some b" "bits_inv b" "bits_list b = replicate n' ?v"
        using mk_bits_run [OF x(1), of n'] unfolding x(2) by auto
      have scan: "wah_scan w r = Some \<lparr>wr_begin = k' - 1, wr_bits = b\<rparr>"
        using True k loop b(1) block by (simp add: wah_scan_def blocks)
      have "rest_bits w ?k = bits_list b @ rest_bits w k'"
        using fill step True b(3)
        by (simp add: rest_bits_def blocks word_bits_def mult.commute)
      moreover obtain j where "k' = Suc j" "?k \<le> j" "j < length ws"
        using fill k by (cases k') auto
      ultimately show ?thesis
        using scan b(2) by (simp add: wah_yields_def blocks)
    next
      case lit: False
      obtain b where b: "mk_bits (ws ! ?k) 63 = Some b" "bits_inv b" "bits_list b = bits_of 63 (ws ! ?k)"
        using mk_bits_short [of 63 "ws ! ?k"] by auto
      have "wah_scan w r = Some (r\<lparr>wr_bits := b\<rparr>)"
        using lit k b(1) block by (simp add: wah_scan_def blocks)
      then show ?thesis
        using b step lit k by (simp add: wah_yields_def rest_bits_def blocks word_bits_def)
    qed
  qed
qed

lemma wah_walk_spec:
  assumes "wah_active w ws act p" and "wah_yields w k r"
  shows "\<exists>cs. range_walk (wah_range_done w) (wah_range_next w) wr_bits r = Some cs \<and> range_ok cs
    \<and> range_list cs = rest_bits w k"
  using assms(2)
proof (induction "length (wah_blocks w) - wr_begin r" arbitrary: k r rule: less_induct)
  case less
  have len: "length (wah_blocks w) = length ws + 1" using assms(1) by (simp add: wah_active_def)
  have r: "\<not> wah_range_done w r" "bits_inv (wr_bits r)" "wr_begin r < length (wah_blocks w)"
    using less.prems by (simp_all add: wah_yields_def wah_range_done_def)
  let ?r = "r\<lparr>wr_begin := wr_begin r + 1\<rparr>"
  show ?case
  proof (cases "wr_begin r + 1 = length (wah_blocks w)")
    case True
    then have "wah_range_next w r = Some ?r" "wah_range_done w ?r"
      by (simp_all add: wah_range_next_def wah_range_done_def)
    moreover from this(2) have "range_walk (wah_range_done w) (wah_range_next w) wr_bits ?r = Some []"
      by (subst range_walk.simps) simp
    ultimately have "range_walk (wah_range_done w) (wah_range_next w) wr_bits r = Some [wr_bits r]"
      using r(1) by (subst range_walk.simps) simp
    then show ?thesis using less.prems True by (simp add: wah_yields_def)
  next
    case False
    have "wr_begin ?r \<le> length ws" using r(3) False len by simp
    from wah_scan_spec [OF assms(1) this] obtain r' where r': "wah_scan w ?r = Some r'"
        "wah_yields w (wr_begin r + 1) r'" by auto
    have step: "wah_range_next w r = Some r'"
      using False r'(1) by (simp add: wah_range_next_def)
    have "length (wah_blocks w) - wr_begin r' < length (wah_blocks w) - wr_begin r"
      using r'(2) r(3) by (auto simp: wah_yields_def)
    from less.hyps [OF this r'(2)] obtain cs where
      "range_walk (wah_range_done w) (wah_range_next w) wr_bits r' = Some cs" "range_ok cs"
      "range_list cs = rest_bits w (wr_begin r + 1)" by auto
    then show ?thesis
      using r(1,2) step less.prems False by (subst range_walk.simps) (simp add: wah_yields_def)
  qed
qed

lemma wah_bit_range_spec:
  assumes "wah_inv w"
  shows "\<exists>cs. wah_bit_range w = Some cs \<and> range_ok cs \<and> range_list cs = wah_list w"
  using assms
proof (cases rule: wah_cases)
  case new
  then show ?thesis
    by (simp add: wah_bit_range_def wah_range_new_def wah_new_def wah_list_def range_walk.simps wah_range_done_def)
next
  case (active ws act p)
  let ?r = "\<lparr>wr_begin = 0, wr_bits = empty_bits\<rparr>"
  have ne: "wah_blocks w \<noteq> []" using active by (simp add: wah_active_def)
  obtain r where r: "wah_scan w ?r = Some r" "wah_yields w 0 r"
    using wah_scan_spec [OF active, of ?r] by auto
  have "rest_bits w 0 = wah_list w" using ne by (simp add: rest_bits_def wah_list_def)
  then show ?thesis
    using wah_walk_spec [OF active r(2)] r(1) ne by (simp add: wah_bit_range_def wah_range_new_def)
qed

section \<open>The instance of the bitmap interface\<close>

lemma wah_ops_simps [simp]:
  "bm_new wah_ops = wah_new" "bm_empty wah_ops = wah_empty" "bm_size wah_ops = wah_size"
  "bm_append_bit wah_ops = wah_append_bit" "bm_append_bits wah_ops = wah_append_bits"
  "bm_append_block wah_ops = wah_append_block" "bm_flip wah_ops = wah_flip"
  "bm_range wah_ops = wah_bit_range"
  by (simp_all add: wah_ops_def)

end
