(* ===== verification/Wah_Bitmap.thy ===== *)
theory Wah_Bitmap
  imports Wah_Refinement Binary_Eval Bitmap_Query
begin

text \<open>
  The generic code on WAH bitmaps. Appending, indexing, ranking and selecting hold for every WAH
  bitmap; the bitwise operations do not: after a whole number of words the active word is empty, the
  range ends with an empty sequence, and \<open>binary_eval\<close> asserts that no sequence but the first is
  empty. The smallest such bitmap, two words of 1s, shows it.
\<close>

interpretation wah: iterable wah_ops wah_inv wah_list
proof
  fix w :: wah
  assume w: "wah_inv w"
  show "bm_empty wah_ops w \<longleftrightarrow> wah_list w = []"
    using wah_length [OF w] by (auto simp: wah_empty_def)
qed (simp_all add: wah_length wah_size_def wah_append_bit_spec wah_append_bits_spec
      wah_append_block_spec wah_flip_spec wah_bit_range_spec)

interpretation wah_append: append_pair wah_ops wah_inv wah_list wah_ops wah_inv wah_list
  by unfold_locales

definition wah_two_fills :: wah where
  "wah_two_fills = \<lparr>wah_blocks = [make_fill True 2, 0], num_last = 0, wah_bits = 126\<rparr>"

lemma mask_63: "(mask 63 :: u64) \<noteq> 0"
  by (simp add: mask_eq_exp_minus_1)

lemma small_fill: "1 \<le> unat max_fill_words" "2 \<le> unat max_fill_words"
  by (simp_all add: unat_max_fill)

lemma two_fills_make: "wah_make 126 True = Some wah_two_fills"
proof -
  have "merge_active_word (wah_new\<lparr>wah_blocks := [mask 63], num_last := 63, wah_bits := 63\<rparr>)
      = Some (wah_new\<lparr>wah_blocks := [make_fill True 1, 0], num_last := 0, wah_bits := 63\<rparr>)"
    using mask_63 by (simp add: merge_active_word_def all_or_none_prefix_iff Let_def)
  moreover have "wah_append_fills True 1 [make_fill True 1] = [make_fill True 2]"
    using small_fill by (simp add: wah_append_fills_def is_fill_of_def make_fill_fields wah_max_fills.simps numeral_2_eq_2)
  ultimately show ?thesis
    by (simp add: wah_make_def wah_append_bits_def wah_begin_append_def lsb_fill_eq wah_new_def update_back_def
        wah_two_fills_def)
qed

lemma two_fills_range:
  "wah_bit_range wah_two_fills = Some [\<lparr>bdata = - 1, bsize = 126\<rparr>, \<lparr>bdata = 0, bsize = 0\<rparr>]"
proof -
  note fill = make_fill_fields [OF small_fill(2), of True]
  have scan: "wah_scan wah_two_fills r = Some (if wr_begin r = 0
      then \<lparr>wr_begin = 0, wr_bits = \<lparr>bdata = - 1, bsize = 126\<rparr>\<rparr> else r\<lparr>wr_bits := \<lparr>bdata = 0, bsize = 0\<rparr>\<rparr>)"
    if "wr_begin r < 2" for r
    using that fill
    by (cases "wr_begin r")
      (simp_all add: wah_scan_def wah_two_fills_def wah_fill_loop.simps is_fill_of_def is_fill_iff
        mk_bits_def all_or_none_iff)
  have blocks: "length (wah_blocks wah_two_fills) = 2" "wah_blocks wah_two_fills \<noteq> []"
    by (simp_all add: wah_two_fills_def)
  show ?thesis
    by (simp add: wah_bit_range_def wah_range_new_def blocks scan Let_def range_walk.simps
        wah_range_done_def wah_range_next_def)
qed

lemma two_fills_panic: "binary_and wah_ops wah_ops wah_ops wah_two_fills wah_two_fills = None"
proof -
  let ?b = "\<lparr>bdata = - 1, bsize = 126\<rparr> :: bits"
  obtain r where r: "append_bits_seq wah_ops ?b wah_new = Some r"
    using wah.append_seq [of wah_new ?b] by (auto simp: bits_inv_def)
  have "eval_append wah_ops (\<lambda>x y. x AND y) wah_new ?b ?b = Some (r, empty_bits, empty_bits)"
    using r by (simp add: eval_append_def is_run_def mk_bits_def all_or_none_iff bits_drop_def)
  then show ?thesis
    by (simp add: binary_and_def binary_eval_def two_fills_range eval_first_def wah_empty_def
        binary_loop.simps eval_fetch_def bits_empty_def empty_bits_def) (simp add: wah_two_fills_def)
qed

end
