(* ===== verification/Null_Bitmap.thy ===== *)
theory Null_Bitmap
  imports Bitmap_Base
begin

text \<open>
  The uncompressed bitmap of \<^verbatim>\<open>null_bitmap.hpp\<close> and \<^verbatim>\<open>null_bitmap.cpp\<close>: a bit vector lifted into a
  bitmap. Its modifiers satisfy the interface \<open>appendable\<close>. Its range is only right when the number
  of bits is a multiple of 64: the scan tests the bit behind the last partial block instead of the
  bits in it, which the example at the end shows.
\<close>

section \<open>The bitmap\<close>

type_synonym null_bitmap = bitvector

definition null_empty :: "null_bitmap \<Rightarrow> bool" where
  "null_empty b = bv_empty b"

definition null_size :: "null_bitmap \<Rightarrow> nat" where
  "null_size b = bv_size b"

definition null_append_bit :: "bool \<Rightarrow> null_bitmap \<Rightarrow> null_bitmap option" where
  "null_append_bit x b = bv_push_back x b"

definition null_append_bits :: "bool \<Rightarrow> nat \<Rightarrow> null_bitmap \<Rightarrow> null_bitmap option" where
  "null_append_bits x n b = bv_resize (bv_size b + n) x b"

definition null_append_block :: "u64 \<Rightarrow> nat \<Rightarrow> null_bitmap \<Rightarrow> null_bitmap option" where
  "null_append_block value bits b = bv_append_block value bits b"

definition null_flip :: "null_bitmap \<Rightarrow> null_bitmap option" where
  "null_flip b = Some (bv_flip b)"

definition null_make :: "nat \<Rightarrow> bool \<Rightarrow> null_bitmap option" where
  "null_make n x = null_append_bits x n bv_new"

definition null_equal :: "null_bitmap \<Rightarrow> null_bitmap \<Rightarrow> bool" where
  "null_equal x y = bv_equal x y"

section \<open>The bit range\<close>

record null_range =
  nr_block :: nat
  nr_bits :: bits

text \<open>The loop moves past the blocks equal to \<open>data\<close>, up to the last block.\<close>

function null_run :: "u64 list \<Rightarrow> u64 \<Rightarrow> nat \<Rightarrow> nat \<Rightarrow> nat \<times> nat" where
  "null_run bs data k n =
    (if k + 1 < length bs - 1 \<and> bs ! (k + 1) = data then null_run bs data (k + 1) (n + width)
     else (k + 1, n))"
  by pat_completeness auto
termination by (relation "measure (\<lambda>(bs, _, k, _). length bs - k)") auto

declare null_run.simps [simp del]

definition null_scan :: "null_bitmap \<Rightarrow> null_range \<Rightarrow> null_range option" where
  "null_scan bm r = do {
     let bs = bv_blocks bm;
     require (nr_block r < length bs);
     let last = length bs - 1;
     let block = bs ! nr_block r;
     if nr_block r = last then do {
       let partial = bv_size bm mod width;
       b \<leftarrow> mk_bits block (if partial = 0 then width else partial);
       Some (r\<lparr>nr_bits := b\<rparr>)
     } else if \<not> all_or_none block then do {
       b \<leftarrow> mk_bits block width;
       Some (r\<lparr>nr_bits := b\<rparr>)
     } else do {
       let data = block;
       let (k, n) = null_run bs data (nr_block r) width;
       let (k, n) =
         (if k = last then
            let partial = bv_size bm mod width in
            if partial > 0 then
              let m = mask_word partial in
              if bs ! k AND m = data AND m then (k + 1, n + partial) else (k, n)
            else if bs ! k = data then (k + 1, n + width) else (k, n)
          else (k, n));
       b \<leftarrow> mk_bits data n;
       Some \<lparr>nr_block = k - 1, nr_bits = b\<rparr>
     }
   }"

definition null_range_new :: "null_bitmap \<Rightarrow> null_range option" where
  "null_range_new bm =
    (let r = \<lparr>nr_block = 0, nr_bits = empty_bits\<rparr> in
     if bv_blocks bm \<noteq> [] then null_scan bm r else Some r)"

definition null_range_next :: "null_bitmap \<Rightarrow> null_range \<Rightarrow> null_range option" where
  "null_range_next bm r =
    (let r = r\<lparr>nr_block := nr_block r + 1\<rparr> in
     if nr_block r \<noteq> length (bv_blocks bm) then null_scan bm r else Some r)"

definition null_range_done :: "null_bitmap \<Rightarrow> null_range \<Rightarrow> bool" where
  "null_range_done bm r \<longleftrightarrow> nr_block r = length (bv_blocks bm)"

definition null_bit_range :: "null_bitmap \<Rightarrow> bits list option" where
  "null_bit_range bm =
    null_range_new bm \<bind> range_walk (null_range_done bm) (null_range_next bm) nr_bits"

definition null_ops :: "null_bitmap bitmap_ops" where
  "null_ops = \<lparr>bm_new = bv_new, bm_empty = null_empty, bm_size = null_size,
     bm_append_bit = null_append_bit, bm_append_bits = null_append_bits,
     bm_append_block = null_append_block, bm_flip = null_flip, bm_range = null_bit_range\<rparr>"

lemma null_ops_simps [simp]:
  "bm_new null_ops = bv_new" "bm_empty null_ops = null_empty" "bm_size null_ops = null_size"
  "bm_append_bit null_ops = null_append_bit" "bm_append_bits null_ops = null_append_bits"
  "bm_append_block null_ops = null_append_block" "bm_flip null_ops = null_flip"
  "bm_range null_ops = null_bit_range"
  by (simp_all add: null_ops_def)

interpretation null: appendable null_ops bv_inv bv_list
proof
  fix b :: null_bitmap and x n
  assume b: "bv_inv b"
  show "bm_size null_ops b = length (bv_list b)"
    using length_bv_list [OF b] by (simp add: null_size_def)
  show "bm_empty null_ops b \<longleftrightarrow> bv_list b = []"
    using length_bv_list [OF b] by (auto simp: null_empty_def bv_empty_def)
  show "\<exists>c. bm_append_bits null_ops x n b = Some c \<and> bv_inv c \<and> bv_list c = bv_list b @ replicate n x"
    using bv_resize_spec [OF b, of "bv_size b + n" x] length_bv_list [OF b]
    by (simp add: null_append_bits_def)
qed (simp_all add: null_append_bit_def bv_push_back_spec null_append_block_def bv_append_block_spec
      null_flip_def bv_flip_spec)

section \<open>The range of a whole number of blocks\<close>

definition null_rest :: "null_bitmap \<Rightarrow> nat \<Rightarrow> bool list" where
  "null_rest bm k = concat_bits (drop k (bv_blocks bm))"

definition null_yields :: "null_bitmap \<Rightarrow> nat \<Rightarrow> null_range \<Rightarrow> bool" where
  "null_yields bm k r \<longleftrightarrow> bits_inv (nr_bits r) \<and> 0 < bsize (nr_bits r) \<and> k \<le> nr_block r
    \<and> nr_block r < length (bv_blocks bm)
    \<and> null_rest bm k = bits_list (nr_bits r) @ null_rest bm (nr_block r + 1)"

lemma drop_step: "k < length bs \<Longrightarrow> concat_bits (drop k bs) = bits_of width (bs ! k) @ concat_bits (drop (k + 1) bs)"
  by (simp flip: Cons_nth_drop_Suc)

lemma null_run_spec:
  assumes "k + 1 < length bs" and "data = 0 \<or> data = - 1" and "null_run bs data k n = (k', n')"
  shows "k < k' \<and> k' < length bs \<and> n \<le> n'
    \<and> replicate n (data \<noteq> 0) @ concat_bits (drop (k + 1) bs)
      = replicate n' (data \<noteq> 0) @ concat_bits (drop k' bs)"
  using assms
proof (induction bs data k n rule: null_run.induct)
  case (1 bs data k n)
  show ?case
  proof (cases "k + 1 < length bs - 1 \<and> bs ! (k + 1) = data")
    case True
    then have run: "null_run bs data (k + 1) (n + width) = (k', n')"
      using "1.prems"(3) by (subst (asm) null_run.simps) simp
    have "bits_of width data = replicate width (data \<noteq> 0)"
      using "1.prems"(2) by (auto simp: bits_of_zero bits_of_ones)
    then have "concat_bits (drop (k + 1) bs) = replicate width (data \<noteq> 0) @ concat_bits (drop (k + 1 + 1) bs)"
      using True "1.prems"(1) drop_step [of "k + 1" bs] by simp
    moreover have "k + 1 + 1 < length bs" using True by linarith
    note IH = "1.IH" [OF True this "1.prems"(2) run]
    ultimately show ?thesis using IH by (simp add: replicate_add)
  next
    case False
    then show ?thesis using "1.prems" by (subst (asm) null_run.simps) auto
  qed
qed

lemma null_scan_spec:
  assumes "bv_size bm mod width = 0" and "nr_block r < length (bv_blocks bm)"
  shows "\<exists>r'. null_scan bm r = Some r' \<and> null_yields bm (nr_block r) r'"
proof -
  let ?bs = "bv_blocks bm" and ?k = "nr_block r"
  let ?b = "?bs ! ?k"
  have step: "null_rest bm ?k = bits_of width ?b @ null_rest bm (?k + 1)"
    using drop_step [OF assms(2)] by (simp add: null_rest_def)
  show ?thesis
  proof (cases "?k = length ?bs - 1 \<or> \<not> all_or_none ?b")
    case True
    obtain c where c: "mk_bits ?b width = Some c" "bits_inv c" "bsize c = width" "bits_list c = bits_of width ?b"
      using mk_bits_short [of width ?b] by auto
    have "null_scan bm r = Some (r\<lparr>nr_bits := c\<rparr>)"
      using True assms c(1) by (auto simp: null_scan_def Let_def)
    then show ?thesis using c assms(2) step by (simp add: null_yields_def)
  next
    case False
    then have b: "?b = 0 \<or> ?b = - 1" and k: "?k + 1 < length ?bs"
      using assms(2) by (auto simp: all_or_none_iff)
    obtain k' n' where run: "null_run ?bs ?b ?k width = (k', n')" by fastforce
    note spec = null_run_spec [OF k b run]
    have bits: "bits_of width ?b = replicate width (?b \<noteq> 0)"
      using b by (auto simp: bits_of_zero bits_of_ones)
    define merge where "merge \<longleftrightarrow> k' = length ?bs - 1 \<and> ?bs ! k' = ?b"
    define k2 where "k2 = (if merge then k' + 1 else k')"
    define n2 where "n2 = (if merge then n' + width else n')"
    have rest: "null_rest bm ?k = replicate n2 (?b \<noteq> 0) @ null_rest bm k2"
    proof -
      have "null_rest bm ?k = replicate n' (?b \<noteq> 0) @ concat_bits (drop k' ?bs)"
        using step bits spec by (simp add: null_rest_def)
      moreover have "concat_bits (drop k' ?bs) = replicate width (?b \<noteq> 0) @ concat_bits (drop (k' + 1) ?bs)"
        if merge
      proof -
        have "bits_of width (?bs ! k') = replicate width (?b \<noteq> 0)"
          using that bits unfolding merge_def by metis
        then show ?thesis using drop_step [of k' ?bs] spec by metis
      qed
      ultimately show ?thesis by (auto simp: k2_def n2_def null_rest_def replicate_add)
    qed
    obtain c where c: "mk_bits ?b n2 = Some c" "bits_inv c" "bsize c = n2" "bits_list c = replicate n2 (?b \<noteq> 0)"
      using mk_bits_run [OF b, of n2] by auto
    have "null_scan bm r = Some \<lparr>nr_block = k2 - 1, nr_bits = c\<rparr>"
      using False assms c(1) run unfolding null_scan_def Let_def k2_def n2_def merge_def
      by (auto split: if_splits)
    moreover obtain j where "k2 = Suc j" "?k \<le> j" "j < length ?bs" "0 < n2"
      using spec by (cases k2) (auto simp: k2_def n2_def split: if_splits)
    ultimately show ?thesis using c rest by (simp add: null_yields_def)
  qed
qed

lemma null_walk_spec:
  assumes "bv_size bm mod width = 0" and "null_yields bm k r"
  shows "\<exists>cs. range_walk (null_range_done bm) (null_range_next bm) nr_bits r = Some cs \<and> range_ok cs
    \<and> range_nonempty cs \<and> range_list cs = null_rest bm k"
  using assms(2)
proof (induction "length (bv_blocks bm) - nr_block r" arbitrary: k r rule: less_induct)
  case less
  have r: "\<not> null_range_done bm r" "bits_inv (nr_bits r)" "nr_block r < length (bv_blocks bm)"
    using less.prems by (simp_all add: null_yields_def null_range_done_def)
  let ?r = "r\<lparr>nr_block := nr_block r + 1\<rparr>"
  show ?case
  proof (cases "nr_block r + 1 = length (bv_blocks bm)")
    case True
    then have "null_range_next bm r = Some ?r" "null_range_done bm ?r"
      by (simp_all add: null_range_next_def null_range_done_def)
    moreover from this(2) have "range_walk (null_range_done bm) (null_range_next bm) nr_bits ?r = Some []"
      by (subst range_walk.simps) simp
    ultimately have "range_walk (null_range_done bm) (null_range_next bm) nr_bits r = Some [nr_bits r]"
      using r(1) by (subst range_walk.simps) simp
    moreover have "null_rest bm (nr_block r + 1) = []" using True by (simp add: null_rest_def)
    ultimately show ?thesis using less.prems by (simp add: null_yields_def)
  next
    case False
    then have "nr_block ?r < length (bv_blocks bm)" using r(3) by simp
    from null_scan_spec [OF assms(1) this] obtain r' where r': "null_scan bm ?r = Some r'"
        "null_yields bm (nr_block r + 1) r'" by auto
    have step: "null_range_next bm r = Some r'" using False r'(1) by (simp add: null_range_next_def)
    have "length (bv_blocks bm) - nr_block r' < length (bv_blocks bm) - nr_block r"
      using r'(2) r(3) by (auto simp: null_yields_def)
    from less.hyps [OF this r'(2)] obtain cs where
      "range_walk (null_range_done bm) (null_range_next bm) nr_bits r' = Some cs" "range_ok cs"
      "range_nonempty cs" "range_list cs = null_rest bm (nr_block r + 1)" by auto
    then show ?thesis
      using r(1,2) step less.prems by (subst range_walk.simps) (simp add: null_yields_def)
  qed
qed

lemma null_bit_range_spec:
  assumes "bv_inv bm" and "bv_size bm mod width = 0"
  shows "\<exists>cs. null_bit_range bm = Some cs \<and> range_ok cs \<and> range_nonempty cs \<and> range_list cs = bv_list bm"
proof -
  have size: "bv_size bm = width * length (bv_blocks bm)"
  proof -
    obtain k where "bv_size bm = width * k" using assms(2) by (auto simp: mod_eq_0_iff_dvd elim: dvdE)
    then show ?thesis using assms(1) bits_to_blocks_full [of k] by (simp add: bv_inv_def)
  qed
  have list: "bv_list bm = null_rest bm 0" by (simp add: bv_list_def null_rest_def size)
  let ?r = "\<lparr>nr_block = 0, nr_bits = empty_bits\<rparr>"
  show ?thesis
  proof (cases "bv_blocks bm = []")
    case True
    then show ?thesis
      using list by (simp add: null_bit_range_def null_range_new_def range_walk.simps null_range_done_def null_rest_def)
  next
    case False
    then obtain r where r: "null_scan bm ?r = Some r" "null_yields bm 0 r"
      using null_scan_spec [OF assms(2), of ?r] by auto
    then show ?thesis
      using null_walk_spec [OF assms(2) r(2)] False list
      by (simp add: null_bit_range_def null_range_new_def)
  qed
qed

text \<open>64 bits of value 0, then a 1 and a 0: the scan takes the last two bits for 0s.\<close>

definition null_mixed :: null_bitmap where
  "null_mixed = \<lparr>bv_blocks = [0, 1], bv_size = 66\<rparr>"

lemma null_mixed_made:
  "null_make 64 False \<bind> null_append_block 1 2 = Some null_mixed"
  by (simp add: null_make_def null_append_bits_def bv_resize_def bv_new_def partial_bits_def
      vec_resize_def bits_to_blocks_def null_append_block_def bv_append_block_def null_mixed_def
      lsb_fill_eq mask_eq_exp_minus_1 Let_def)

lemma null_mixed_range: "null_bit_range null_mixed = Some [\<lparr>bdata = 0, bsize = 66\<rparr>]"
  by (simp add: null_bit_range_def null_range_new_def null_mixed_def null_scan_def null_run.simps
      all_or_none_iff mask_word_def lsb1_def mk_bits_def range_walk.simps null_range_done_def
      null_range_next_def Let_def)

end
