(* ===== verification/Any_Bitmap.thy ===== *)
theory Any_Bitmap
  imports Ewah_Bitmap Wah_Bitmap Null_Bitmap
begin

text \<open>
  The type-erased bitmap of \<^verbatim>\<open>bitmap.hpp\<close> and \<^verbatim>\<open>bitmap.cpp\<close>: a variant of the three concrete
  types, EWAH by default. Every operation visits the alternative that is held. All alternatives
  satisfy \<open>appendable\<close>; a bitmap that holds the default alternative satisfies \<open>proper\<close>, and every
  operation keeps the alternative, so the generic algorithms are right for bitmaps that were made by
  the default constructor.
\<close>

datatype bitmap = Ewah_alt ewah | Null_alt null_bitmap | Wah_alt wah

definition any_new :: bitmap where
  "any_new = Ewah_alt ewah_new"

fun any_empty :: "bitmap \<Rightarrow> bool" where
  "any_empty (Ewah_alt b) = ewah_empty b"
| "any_empty (Null_alt b) = null_empty b"
| "any_empty (Wah_alt b) = wah_empty b"

fun any_size :: "bitmap \<Rightarrow> nat" where
  "any_size (Ewah_alt b) = ewah_size b"
| "any_size (Null_alt b) = null_size b"
| "any_size (Wah_alt b) = wah_size b"

fun any_append_bit :: "bool \<Rightarrow> bitmap \<Rightarrow> bitmap option" where
  "any_append_bit x (Ewah_alt b) = map_option Ewah_alt (ewah_append_bit x b)"
| "any_append_bit x (Null_alt b) = map_option Null_alt (null_append_bit x b)"
| "any_append_bit x (Wah_alt b) = map_option Wah_alt (wah_append_bit x b)"

fun any_append_bits :: "bool \<Rightarrow> nat \<Rightarrow> bitmap \<Rightarrow> bitmap option" where
  "any_append_bits x n (Ewah_alt b) = map_option Ewah_alt (ewah_append_bits x n b)"
| "any_append_bits x n (Null_alt b) = map_option Null_alt (null_append_bits x n b)"
| "any_append_bits x n (Wah_alt b) = map_option Wah_alt (wah_append_bits x n b)"

fun any_append_block :: "u64 \<Rightarrow> nat \<Rightarrow> bitmap \<Rightarrow> bitmap option" where
  "any_append_block v n (Ewah_alt b) = map_option Ewah_alt (ewah_append_block v n b)"
| "any_append_block v n (Null_alt b) = map_option Null_alt (null_append_block v n b)"
| "any_append_block v n (Wah_alt b) = map_option Wah_alt (wah_append_block v n b)"

fun any_flip :: "bitmap \<Rightarrow> bitmap option" where
  "any_flip (Ewah_alt b) = map_option Ewah_alt (ewah_flip b)"
| "any_flip (Null_alt b) = map_option Null_alt (null_flip b)"
| "any_flip (Wah_alt b) = map_option Wah_alt (wah_flip b)"

definition any_make :: "nat \<Rightarrow> bool \<Rightarrow> bitmap option" where
  "any_make n x = any_append_bits x n any_new"

text \<open>Two variants are equal if they hold the same alternative and the values are equal.\<close>

fun any_equal :: "bitmap \<Rightarrow> bitmap \<Rightarrow> bool" where
  "any_equal (Ewah_alt x) (Ewah_alt y) = ewah_equal x y"
| "any_equal (Null_alt x) (Null_alt y) = null_equal x y"
| "any_equal (Wah_alt x) (Wah_alt y) = wah_equal x y"
| "any_equal _ _ = False"

text \<open>\<open>bitmap_bit_range\<close> holds the range of the alternative and copies its current sequence.\<close>

datatype any_range = Ewah_range ewah ewah_range | Null_range null_bitmap null_range | Wah_range wah wah_range

record bitmap_range =
  br_range :: any_range
  br_current :: bits

fun range_done :: "any_range \<Rightarrow> bool" where
  "range_done (Ewah_range b r) = ewah_range_done b r"
| "range_done (Null_range b r) = null_range_done b r"
| "range_done (Wah_range b r) = wah_range_done b r"

fun range_get :: "any_range \<Rightarrow> bits" where
  "range_get (Ewah_range b r) = rng_bits r"
| "range_get (Null_range b r) = nr_bits r"
| "range_get (Wah_range b r) = wr_bits r"

fun range_next :: "any_range \<Rightarrow> any_range option" where
  "range_next (Ewah_range b r) = map_option (Ewah_range b) (ewah_range_next b r)"
| "range_next (Null_range b r) = map_option (Null_range b) (null_range_next b r)"
| "range_next (Wah_range b r) = map_option (Wah_range b) (wah_range_next b r)"

fun range_new :: "bitmap \<Rightarrow> any_range option" where
  "range_new (Ewah_alt b) = map_option (Ewah_range b) (ewah_range_new b)"
| "range_new (Null_alt b) = map_option (Null_range b) (null_range_new b)"
| "range_new (Wah_alt b) = map_option (Wah_range b) (wah_range_new b)"

definition any_range_new :: "bitmap \<Rightarrow> bitmap_range option" where
  "any_range_new bm = do {
     r \<leftarrow> range_new bm;
     Some \<lparr>br_range = r, br_current = (if \<not> range_done r then range_get r else empty_bits)\<rparr>
   }"

definition any_range_next :: "bitmap_range \<Rightarrow> bitmap_range option" where
  "any_range_next r = do {
     rng \<leftarrow> range_next (br_range r);
     Some \<lparr>br_range = rng, br_current = range_get rng\<rparr>
   }"

definition any_range_done :: "bitmap_range \<Rightarrow> bool" where
  "any_range_done r = range_done (br_range r)"

definition any_bit_range :: "bitmap \<Rightarrow> bits list option" where
  "any_bit_range bm = any_range_new bm \<bind> range_walk any_range_done any_range_next br_current"

definition any_ops :: "bitmap bitmap_ops" where
  "any_ops = \<lparr>bm_new = any_new, bm_empty = any_empty, bm_size = any_size,
     bm_append_bit = any_append_bit, bm_append_bits = any_append_bits,
     bm_append_block = any_append_block, bm_flip = any_flip, bm_range = any_bit_range\<rparr>"

lemma any_ops_simps [simp]:
  "bm_new any_ops = any_new" "bm_empty any_ops = any_empty" "bm_size any_ops = any_size"
  "bm_append_bit any_ops = any_append_bit" "bm_append_bits any_ops = any_append_bits"
  "bm_append_block any_ops = any_append_block" "bm_flip any_ops = any_flip"
  "bm_range any_ops = any_bit_range"
  by (simp_all add: any_ops_def)

section \<open>All alternatives can be modified\<close>

fun any_inv :: "bitmap \<Rightarrow> bool" where
  "any_inv (Ewah_alt b) = ewah_inv b"
| "any_inv (Null_alt b) = bv_inv b"
| "any_inv (Wah_alt b) = wah_inv b"

fun any_list :: "bitmap \<Rightarrow> bool list" where
  "any_list (Ewah_alt b) = ewah_list b"
| "any_list (Null_alt b) = bv_list b"
| "any_list (Wah_alt b) = wah_list b"

lemma lift_alternative:
  assumes "\<exists>c. r = Some c \<and> I c \<and> L c = ys"
    and "\<And>c. any_inv (K c) = I c" and "\<And>c. any_list (K c) = L c"
  shows "\<exists>c. map_option K r = Some c \<and> any_inv c \<and> any_list c = ys"
  using assms by auto

lemmas alternative_append_bit = ewah.append_bit null.append_bit wah.append_bit
lemmas alternative_append_bits = ewah.append_bits null.append_bits wah.append_bits
lemmas alternative_append_block = ewah.append_block null.append_block wah.append_block
lemmas alternative_flip = ewah.flip null.flip wah.flip

lemma any_append_bit_spec:
  "any_inv b \<Longrightarrow> \<exists>c. any_append_bit x b = Some c \<and> any_inv c \<and> any_list c = any_list b @ [x]"
  using lift_alternative [OF alternative_append_bit(1), of _ Ewah_alt]
    lift_alternative [OF alternative_append_bit(2), of _ Null_alt]
    lift_alternative [OF alternative_append_bit(3), of _ Wah_alt]
  by (cases b) simp_all

lemma any_append_bits_spec:
  "any_inv b \<Longrightarrow> \<exists>c. any_append_bits x n b = Some c \<and> any_inv c \<and> any_list c = any_list b @ replicate n x"
  using lift_alternative [OF alternative_append_bits(1), of _ Ewah_alt]
    lift_alternative [OF alternative_append_bits(2), of _ Null_alt]
    lift_alternative [OF alternative_append_bits(3), of _ Wah_alt]
  by (cases b) simp_all

lemma any_append_block_spec:
  "any_inv b \<Longrightarrow> 0 < n \<Longrightarrow> n \<le> width \<Longrightarrow>
    \<exists>c. any_append_block w n b = Some c \<and> any_inv c \<and> any_list c = any_list b @ bits_of n w"
  using lift_alternative [OF alternative_append_block(1), of _ _ Ewah_alt]
    lift_alternative [OF alternative_append_block(2), of _ _ Null_alt]
    lift_alternative [OF alternative_append_block(3), of _ _ Wah_alt]
  by (cases b) simp_all

lemma any_flip_spec:
  "any_inv b \<Longrightarrow> \<exists>c. any_flip b = Some c \<and> any_inv c \<and> any_list c = map Not (any_list b)"
  using lift_alternative [OF alternative_flip(1), of _ Ewah_alt]
    lift_alternative [OF alternative_flip(2), of _ Null_alt]
    lift_alternative [OF alternative_flip(3), of _ Wah_alt]
  by (cases b) simp_all

lemma any_size_spec:
  assumes "any_inv b"
  shows "any_size b = length (any_list b)" and "any_empty b \<longleftrightarrow> any_list b = []"
  using assms ewah.size_eq null.size_eq wah.size_eq ewah.empty_iff null.empty_iff wah.empty_iff
  by (cases b; simp)+

interpretation any: appendable any_ops any_inv any_list
  by unfold_locales
    (simp_all add: any_new_def any_size_spec any_append_bit_spec any_append_bits_spec
      any_append_block_spec any_flip_spec)

section \<open>The default alternative is proper\<close>

fun ids_inv :: "bitmap \<Rightarrow> bool" where
  "ids_inv (Ewah_alt b) = ewah_inv b"
| "ids_inv _ = False"

lemma ids_inv_any: "ids_inv b \<Longrightarrow> any_inv b"
  by (cases b) simp_all

lemma any_range_ewah [simp]:
  "any_range_done \<lparr>br_range = Ewah_range b r, br_current = c\<rparr> = ewah_range_done b r"
  "any_range_next \<lparr>br_range = Ewah_range b r, br_current = c\<rparr>
    = map_option (\<lambda>r. \<lparr>br_range = Ewah_range b r, br_current = rng_bits r\<rparr>) (ewah_range_next b r)"
  by (simp add: any_range_done_def, cases "ewah_range_next b r") (simp_all add: any_range_next_def)

lemma any_walk:
  "range_walk any_range_done any_range_next br_current \<lparr>br_range = Ewah_range b r, br_current = rng_bits r\<rparr>
    = ewah_range_list b r"
proof (induction b r rule: ewah_range_list.induct)
  case (1 b r)
  show ?case
  proof (cases "ewah_range_done b r")
    case True
    then show ?thesis by (subst range_walk.simps, subst ewah_range_list.simps) simp
  next
    case False
    show ?thesis
    proof (cases "ewah_range_next b r")
      case None
      then show ?thesis using False by (subst range_walk.simps, subst ewah_range_list.simps) simp
    next
      case (Some r')
      then show ?thesis
        using False "1.IH" [OF False Some] by (subst range_walk.simps, subst ewah_range_list.simps) simp
    qed
  qed
qed

lemma any_bit_range_ewah: "any_bit_range (Ewah_alt b) = ewah_bit_range b"
proof (cases "ewah_range_new b")
  case None
  then show ?thesis by (simp add: any_bit_range_def any_range_new_def ewah_bit_range_def)
next
  case (Some r)
  show ?thesis
  proof (cases "ewah_range_done b r")
    case True
    then show ?thesis
      using Some by (simp add: any_bit_range_def any_range_new_def ewah_bit_range_def range_walk.simps
          ewah_range_list.simps)
  next
    case False
    then show ?thesis
      using Some any_walk [of b r] by (simp add: any_bit_range_def any_range_new_def ewah_bit_range_def)
  qed
qed

lemma lift_ids:
  assumes "\<exists>c. r = Some c \<and> ewah_inv c \<and> ewah_list c = ys"
  shows "\<exists>c. map_option Ewah_alt r = Some c \<and> ids_inv c \<and> any_list c = ys"
  using assms by auto

lemma ids_cases:
  assumes "ids_inv b"
  obtains e where "b = Ewah_alt e" "ewah_inv e"
  using assms by (cases b) simp_all

lemma ids_append:
  assumes "ids_inv b"
  shows "\<exists>c. any_append_bit x b = Some c \<and> ids_inv c \<and> any_list c = any_list b @ [x]"
    and "\<exists>c. any_append_bits x n b = Some c \<and> ids_inv c \<and> any_list c = any_list b @ replicate n x"
    and "0 < k \<Longrightarrow> k \<le> width \<Longrightarrow>
      \<exists>c. any_append_block w k b = Some c \<and> ids_inv c \<and> any_list c = any_list b @ bits_of k w"
    and "\<exists>c. any_flip b = Some c \<and> ids_inv c \<and> any_list c = map Not (any_list b)"
proof -
  obtain e where e: "b = Ewah_alt e" "ewah_inv e" using assms by (rule ids_cases)
  show "\<exists>c. any_append_bit x b = Some c \<and> ids_inv c \<and> any_list c = any_list b @ [x]"
    using lift_ids [OF ewah_append_bit_spec [OF e(2)]] by (simp add: e(1))
  show "\<exists>c. any_append_bits x n b = Some c \<and> ids_inv c \<and> any_list c = any_list b @ replicate n x"
    using lift_ids [OF ewah_append_bits_spec [OF e(2)]] by (simp add: e(1))
  show "\<exists>c. any_append_block w k b = Some c \<and> ids_inv c \<and> any_list c = any_list b @ bits_of k w"
    if "0 < k" "k \<le> width"
    using lift_ids [OF ewah_append_block_spec [OF e(2) that]] by (simp add: e(1))
  show "\<exists>c. any_flip b = Some c \<and> ids_inv c \<and> any_list c = map Not (any_list b)"
    using lift_ids [OF ewah_flip_spec [OF e(2)]] by (simp add: e(1))
qed

interpretation ids: proper any_ops ids_inv any_list
proof
  fix b :: bitmap and cs
  assume b: "ids_inv b"
  show "bm_size any_ops b = length (any_list b)" "bm_empty any_ops b \<longleftrightarrow> any_list b = []"
    using any_size_spec [OF ids_inv_any [OF b]] by simp_all
  obtain e where e: "b = Ewah_alt e" "ewah_inv e" using b by (rule ids_cases)
  show "\<exists>cs. bm_range any_ops b = Some cs \<and> range_ok cs \<and> range_list cs = any_list b"
    and "bm_range any_ops b = Some cs \<Longrightarrow> range_nonempty cs"
    using bit_range_spec [OF e(2)] by (auto simp: e(1) any_bit_range_ewah)
qed (simp_all add: any_new_def ids_append)

interpretation ids_bitwise: bitwise any_ops ids_inv any_list any_ops ids_inv any_list
    any_ops ids_inv any_list
  by unfold_locales

text \<open>Bitwise operations on two different concrete types answer a type-erased bitmap.\<close>

interpretation ewah_any: bitwise ewah_ops ewah_inv ewah_list any_ops ids_inv any_list
    any_ops ids_inv any_list
  by unfold_locales

end
