(* ===== verification/Ids.thy ===== *)
theory Ids
  imports Any_Bitmap
begin

text \<open>
  ID sets of \<^verbatim>\<open>ids.hpp\<close> and \<^verbatim>\<open>ids.cpp\<close>: \<open>make_ids\<close> builds a bitmap from half-open ranges of IDs. Ranges
  behind the bits made so far are appended, others are combined with a bitwise OR.
\<close>

type_synonym id_range = "nat \<times> nat"

text \<open>The constructor of \<open>id_range\<close> from one ID.\<close>

definition id_range_single :: "nat \<Rightarrow> id_range" where
  "id_range_single i = (i, i + 1)"

definition ids_or :: "bitmap \<Rightarrow> bitmap \<Rightarrow> bitmap option" where
  "ids_or x y = binary_or any_ops any_ops any_ops x y"

fun make_ids_loop :: "id_range list \<Rightarrow> bitmap \<Rightarrow> bitmap option" where
  "make_ids_loop [] result = Some result"
| "make_ids_loop ((lo, hi) # ranges) result = do {
     require (lo < hi);
     result \<leftarrow> (if lo \<ge> any_size result then do {
         result \<leftarrow> any_append_bits False (lo - any_size result) result;
         any_append_bits True (hi - lo) result
       } else do {
         tmp \<leftarrow> any_append_bits False lo any_new;
         tmp \<leftarrow> any_append_bits True (hi - lo) tmp;
         ids_or result tmp
       });
     make_ids_loop ranges result
   }"

definition make_ids :: "id_range list \<Rightarrow> nat \<Rightarrow> bool \<Rightarrow> bitmap option" where
  "make_ids ranges min_size default_bit = do {
     result \<leftarrow> make_ids_loop ranges any_new;
     if any_size result < min_size
     then any_append_bits default_bit (min_size - any_size result) result
     else Some result
   }"

text \<open>The IDs of a table slice, given its offset and number of rows.\<close>

definition make_ids_slice :: "nat \<Rightarrow> nat \<Rightarrow> bitmap option" where
  "make_ids_slice offset rows = make_ids [(offset, offset + rows)] 0 False"

lemma bit_at_Nil [simp]: "\<not> bit_at [] i"
  by (simp add: bit_at_def)

lemma bit_at_append_replicate:
  "bit_at (xs @ replicate n b) i \<longleftrightarrow> bit_at xs i \<or> (b \<and> length xs \<le> i \<and> i < length xs + n)"
  by (auto simp: bit_at_def nth_append)

lemma ids_or_spec:
  assumes "ids_inv x" and "ids_inv y"
  shows "\<exists>z. ids_or x y = Some z \<and> ids_inv z \<and> length (any_list z) = max (length (any_list x)) (length (any_list y))
    \<and> (\<forall>i. bit_at (any_list z) i \<longleftrightarrow> bit_at (any_list x) i \<or> bit_at (any_list y) i)"
  using ids_bitwise.binary_eval_spec [OF word_op_simps(2) assms, of True True]
  by (auto simp: ids_or_def binary_or_def bit_at_ops)

definition in_ranges :: "id_range list \<Rightarrow> nat \<Rightarrow> bool" where
  "in_ranges rs i \<longleftrightarrow> (\<exists>(a, b) \<in> set rs. a \<le> i \<and> i < b)"

lemma in_ranges_simps [simp]:
  "\<not> in_ranges [] i"
  "in_ranges ((a, b) # rs) i \<longleftrightarrow> a \<le> i \<and> i < b \<or> in_ranges rs i"
  by (auto simp: in_ranges_def)

lemma make_ids_loop_spec:
  assumes "\<forall>(a, b) \<in> set rs. a < b" and "ids_inv r"
  shows "\<exists>s. make_ids_loop rs r = Some s \<and> ids_inv s
    \<and> length (any_list s) = fold max (map snd rs) (length (any_list r))
    \<and> (\<forall>i. bit_at (any_list s) i \<longleftrightarrow> bit_at (any_list r) i \<or> in_ranges rs i)"
  using assms
proof (induction rs arbitrary: r)
  case (Cons ab rs)
  obtain a b where ab: "ab = (a, b)" "a < b" using Cons.prems(1) by (cases ab) auto
  have size: "any_size r = length (any_list r)"
    using any_size_spec(1) [OF ids_inv_any [OF Cons.prems(2)]] .
  have "\<exists>s. (if a \<ge> any_size r then do {
         r \<leftarrow> any_append_bits False (a - any_size r) r;
         any_append_bits True (b - a) r
       } else do {
         tmp \<leftarrow> any_append_bits False a any_new;
         tmp \<leftarrow> any_append_bits True (b - a) tmp;
         ids_or r tmp
       }) = Some s \<and> ids_inv s \<and> length (any_list s) = max b (length (any_list r))
    \<and> (\<forall>i. bit_at (any_list s) i \<longleftrightarrow> bit_at (any_list r) i \<or> a \<le> i \<and> i < b)"
  proof (cases "a \<ge> any_size r")
    case True
    obtain r1 where r1: "any_append_bits False (a - any_size r) r = Some r1" "ids_inv r1"
        "any_list r1 = any_list r @ replicate (a - any_size r) False"
      using ids_append(2) [OF Cons.prems(2)] by blast
    obtain r2 where "any_append_bits True (b - a) r1 = Some r2" "ids_inv r2"
        "any_list r2 = any_list r1 @ replicate (b - a) True"
      using ids_append(2) [OF r1(2)] by blast
    then show ?thesis
      using True r1 ab(2) size
      by (auto simp: bit_at_append_replicate simp flip: append_assoc)
  next
    case False
    have new: "ids_inv any_new" "any_list any_new = []" by (simp_all add: any_new_def)
    obtain t1 where t1: "any_append_bits False a any_new = Some t1" "ids_inv t1"
        "any_list t1 = replicate a False"
      using ids_append(2) [OF new(1), of False a] new(2) by auto
    obtain t2 where t2: "any_append_bits True (b - a) t1 = Some t2" "ids_inv t2"
        "any_list t2 = any_list t1 @ replicate (b - a) True"
      using ids_append(2) [OF t1(2)] by blast
    have "bit_at (any_list t2) i \<longleftrightarrow> a \<le> i \<and> i < b" for i
      using t2(3) t1(3) ab(2) by (auto simp: bit_at_append_replicate) (auto simp: bit_at_def)
    then show ?thesis
      using False t1 t2 ab(2) ids_or_spec [OF Cons.prems(2) t2(2)] by (auto simp: max.commute)
  qed
  then obtain s where s: "make_ids_loop (ab # rs) r = make_ids_loop rs s" "ids_inv s"
      "length (any_list s) = max b (length (any_list r))"
      "\<forall>i. bit_at (any_list s) i \<longleftrightarrow> bit_at (any_list r) i \<or> a \<le> i \<and> i < b"
    using ab by (auto simp: bind_assoc)
  have "\<forall>(a, b) \<in> set rs. a < b" using Cons.prems(1) by simp
  from Cons.IH [OF this s(2)] show ?case using s ab by auto
qed simp

lemma make_ids_loop_empty_range:
  "(a, b) \<in> set rs \<Longrightarrow> b \<le> a \<Longrightarrow> make_ids_loop rs r = None"
proof (induction rs arbitrary: r)
  case (Cons ab rs)
  show ?case
  proof (cases "ab = (a, b)")
    case False
    then have "make_ids_loop rs s = None" for s using Cons by simp
    then show ?thesis by (cases ab) (auto simp: require_def bind_eq_None_conv split: if_splits)
  qed (use Cons.prems in simp)
qed simp

lemma make_ids_spec:
  assumes "\<forall>(a, b) \<in> set rs. a < b"
  shows "\<exists>s. make_ids rs n d = Some s \<and> ids_inv s
    \<and> length (any_list s) = max n (fold max (map snd rs) 0)
    \<and> (\<forall>i. bit_at (any_list s) i \<longleftrightarrow>
        in_ranges rs i \<or> d \<and> fold max (map snd rs) 0 \<le> i \<and> i < n)"
proof -
  obtain r where r: "make_ids_loop rs any_new = Some r" "ids_inv r"
      "length (any_list r) = fold max (map snd rs) 0" "\<forall>i. bit_at (any_list r) i \<longleftrightarrow> in_ranges rs i"
    using make_ids_loop_spec [OF assms, of any_new] by (auto simp: any_new_def)
  have size: "any_size r = length (any_list r)"
    using any_size_spec(1) [OF ids_inv_any [OF r(2)]] .
  show ?thesis
  proof (cases "any_size r < n")
    case True
    then obtain s where "any_append_bits d (n - any_size r) r = Some s" "ids_inv s"
        "any_list s = any_list r @ replicate (n - any_size r) d"
      using ids_append(2) [OF r(2)] by blast
    note s = this
    have "make_ids rs n d = Some s" using r(1) True s(1) by (simp add: make_ids_def)
    moreover have "length (any_list s) = max n (fold max (map snd rs) 0)"
      using s(3) True r(3) size by simp
    moreover have "bit_at (any_list s) i \<longleftrightarrow> in_ranges rs i \<or> d \<and> fold max (map snd rs) 0 \<le> i \<and> i < n" for i
      using s(3) True size r(3,4) by (simp add: bit_at_append_replicate)
    ultimately show ?thesis using s(2) by blast
  next
    case False
    have "make_ids rs n d = Some r" using r(1) False by (simp add: make_ids_def)
    moreover have le: "n \<le> fold max (map snd rs) 0" using False r(3) size by simp
    moreover have "length (any_list r) = max n (fold max (map snd rs) 0)"
      unfolding r(3) using le by simp
    moreover have "bit_at (any_list r) i \<longleftrightarrow> in_ranges rs i \<or> d \<and> fold max (map snd rs) 0 \<le> i \<and> i < n" for i
      using r(4) le by (meson le_trans not_le)
    ultimately show ?thesis using r(2) by blast
  qed
qed

end
