(* ===== verification/Range_Map.thy ===== *)
theory Range_Map
  imports Prelude
begin

text \<open>
  \<open>detail::range_map\<close> (\<open>range_map.hpp\<close>): a map from right-open ranges to values. The underlying
  \<open>std::map<Point, std::pair<Point, Value>>\<close> is the list of its entries in the order of their
  left endpoints; an iterator is a position in it, given by the entries before it, the entry
  itself and the entries after it (\<open>None\<close> for \<open>end()\<close>).

  The contract of a range map is the partial function \<open>rm_fun\<close> from points to values; every
  operation is shown to update it as documented, and to keep the ranges disjoint and non-empty.
  \<open>erase(l, r)\<close> does so unless the range that contains \<open>l\<close> starts at \<open>l\<close> and ends after \<open>r\<close>, or
  starts before \<open>l\<close> and ends at \<open>r\<close>; what it does there is stated as well.
\<close>

section \<open>Entries and positions\<close>

type_synonym ('p, 'v) range_map = "('p \<times> 'p \<times> 'v) list"

abbreviation rm_left :: "'p \<times> 'p \<times> 'v \<Rightarrow> 'p" where "rm_left e \<equiv> fst e"
abbreviation rm_right :: "'p \<times> 'p \<times> 'v \<Rightarrow> 'p" where "rm_right e \<equiv> fst (snd e)"
abbreviation rm_value :: "'p \<times> 'p \<times> 'v \<Rightarrow> 'v" where "rm_value e \<equiv> snd (snd e)"

text \<open>\<open>std::map::lower_bound(p)\<close> splits the entries at the first one that does not start before \<open>p\<close>.\<close>

definition rm_lower_bound ::
  "'p::linorder \<Rightarrow> ('p, 'v) range_map \<Rightarrow> ('p, 'v) range_map \<times> ('p, 'v) range_map" where
  "rm_lower_bound p m = (takeWhile (\<lambda>e. rm_left e < p) m, dropWhile (\<lambda>e. rm_left e < p) m)"

text \<open>\<open>std::map::emplace\<close>, which does not replace an entry with the same key.\<close>

fun rm_emplace :: "'p::linorder \<Rightarrow> 'p \<Rightarrow> 'v \<Rightarrow> ('p, 'v) range_map \<Rightarrow> ('p, 'v) range_map \<times> bool" where
  "rm_emplace l r v [] = ([(l, r, v)], True)"
| "rm_emplace l r v (e # m) =
    (if rm_left e < l then (let (m', b) = rm_emplace l r v m in (e # m', b))
     else if l < rm_left e then ((l, r, v) # e # m, True)
     else (e # m, False))"

text \<open>\<open>std::map::erase(i)\<close>: the entry is the only one with its key.\<close>

definition rm_erase_at :: "'p \<times> 'p \<times> 'v \<Rightarrow> ('p, 'v) range_map \<Rightarrow> ('p, 'v) range_map" where
  "rm_erase_at i m = filter (\<lambda>e. rm_left e \<noteq> rm_left i) m"

text \<open>\<open>locate(p, lb)\<close> for \<open>lb = lower_bound(p)\<close>.\<close>

definition rm_locate :: "'p::linorder \<Rightarrow> ('p, 'v) range_map
    \<Rightarrow> (('p, 'v) range_map \<times> ('p \<times> 'p \<times> 'v) \<times> ('p, 'v) range_map) option" where
  "rm_locate p m =
    (let (xs, ys) = rm_lower_bound p m
     in if ys \<noteq> [] \<and> p = rm_left (hd ys) then Some (xs, hd ys, tl ys)
        else if xs \<noteq> [] \<and> p < rm_right (last xs) then Some (butlast xs, last xs, ys)
        else None)"

section \<open>Operations\<close>

definition rm_insert :: "'p::linorder \<Rightarrow> 'p \<Rightarrow> 'v \<Rightarrow> ('p, 'v) range_map
    \<Rightarrow> (('p, 'v) range_map \<times> bool) option" where
  "rm_insert l r v m =
    (if l < r then
       (let ys = snd (rm_lower_bound l m)
        in if rm_locate l m = None \<and> (ys = [] \<or> r \<le> rm_left (hd ys))
           then Some (rm_emplace l r v m) else Some (m, False))
     else None)"

text \<open>The position that \<open>inject\<close> starts from: the lower bound of \<open>l\<close>, or the entry before it when
  there is no lower bound or the lower bound is not the first entry and starts after \<open>l\<close>.\<close>

definition rm_adjust :: "'p::linorder \<Rightarrow> ('p, 'v) range_map
    \<Rightarrow> ('p, 'v) range_map \<times> ('p \<times> 'p \<times> 'v) \<times> ('p, 'v) range_map" where
  "rm_adjust l m =
    (let (xs, ys) = rm_lower_bound l m
     in if ys = [] \<or> (xs \<noteq> [] \<and> l \<noteq> rm_left (hd ys)) then (butlast xs, last xs, ys)
        else (xs, hd ys, tl ys))"

text \<open>\<open>inject\<close>: \<open>p\<close> is the last entry of \<open>ps\<close> and \<open>n\<close> the first one of \<open>ns\<close>, if any.\<close>

definition rm_inject :: "'p::linorder \<Rightarrow> 'p \<Rightarrow> 'v \<Rightarrow> ('p, 'v) range_map
    \<Rightarrow> (('p, 'v) range_map \<times> bool) option" where
  "rm_inject l r v m =
    (if \<not> l < r then None
     else if m = [] then Some (rm_emplace l r v m)
     else
       (let (ps, i, ns) = rm_adjust l m;
            p = last ps; n = hd ns;
            fits_left = (r \<le> rm_left i \<and> (ps = [] \<or> rm_right p \<le> l));
            fits_right = (rm_right i \<le> l \<and> (ns = [] \<or> r \<le> rm_left n))
        in if fits_left then
             (let right_merge = (r = rm_left i \<and> v = rm_value i);
                  left_merge = (ps \<noteq> [] \<and> l = rm_right p \<and> v = rm_value p)
              in if left_merge \<and> right_merge then
                   Some (rm_erase_at i (butlast ps @ (rm_left p, rm_right i, rm_value p) # i # ns), True)
                 else if left_merge then
                   Some (butlast ps @ (rm_left p, r, rm_value p) # i # ns, True)
                 else if right_merge then
                   Some (rm_erase_at i (fst (rm_emplace l (rm_right i) v m)), True)
                 else Some (fst (rm_emplace l r v m), True))
           else if fits_right then
             (let right_merge = (ns \<noteq> [] \<and> r = rm_left n \<and> v = rm_value n);
                  left_merge = (l = rm_right i \<and> v = rm_value i)
              in if left_merge \<and> right_merge then
                   Some (rm_erase_at n (ps @ (rm_left i, rm_right n, rm_value i) # ns), True)
                 else if left_merge then
                   Some (ps @ (rm_left i, r, rm_value i) # ns, True)
                 else if right_merge then
                   Some (rm_erase_at n (fst (rm_emplace l (rm_right n) v m)), True)
                 else Some (fst (rm_emplace l r v m), True))
           else Some (m, False)))"

definition rm_erase_point :: "'p::linorder \<Rightarrow> ('p, 'v) range_map \<Rightarrow> ('p, 'v) range_map \<times> bool" where
  "rm_erase_point p m =
    (case rm_locate p m of None \<Rightarrow> (m, False) | Some (ps, i, ns) \<Rightarrow> (ps @ ns, True))"

text \<open>The loop of \<open>erase(l, r)\<close>; the first component of its state is \<open>next_left\<close>.\<close>

partial_function (option) rm_erase_loop ::
  "'p::linorder \<Rightarrow> 'p \<Rightarrow> 'p \<Rightarrow> ('p, 'v) range_map \<Rightarrow> ('p, 'v) range_map option" where
  "rm_erase_loop next_left l r m =
    (case (case rm_locate next_left m of
        None \<Rightarrow> (case rm_lower_bound next_left m of
            (xs, []) \<Rightarrow> None
          | (xs, y # ys) \<Rightarrow> Some (xs, y, ys))
      | Some z \<Rightarrow> Some z) of
      None \<Rightarrow> Some m
    | Some (ps, i, ns) \<Rightarrow>
        if r \<le> rm_left i then Some m
        else if l \<le> rm_left i \<and> rm_right i \<le> r then rm_erase_loop (rm_right i) l r (ps @ ns)
        else if rm_left i \<le> l \<and> r \<le> rm_right i then
          Option.bind (rm_inject r (rm_right i) (rm_value i) (ps @ (rm_left i, l, rm_value i) # ns))
            (\<lambda>mb. Some (fst mb))
        else if l \<le> rm_left i \<and> rm_left i < r then
          Some (rm_erase_at i (fst (rm_emplace r (rm_right i) (rm_value i) m)))
        else if l < rm_right i \<and> rm_right i \<le> r then
          rm_erase_loop (rm_right i) l r (ps @ (rm_left i, l, rm_value i) # ns)
        else rm_erase_loop (rm_right i) l r m)"

definition rm_erase :: "'p::linorder \<Rightarrow> 'p \<Rightarrow> ('p, 'v) range_map \<Rightarrow> ('p, 'v) range_map option" where
  "rm_erase l r m = (if r < l then Some m else rm_erase_loop l l r m)"

fun rm_erase_value :: "'v \<Rightarrow> ('p, 'v) range_map \<Rightarrow> ('p, 'v) range_map" where
  "rm_erase_value x [] = []"
| "rm_erase_value x (e # m) =
    (if rm_value e = x then rm_erase_value x m else e # rm_erase_value x m)"

definition rm_lookup :: "'p::linorder \<Rightarrow> ('p, 'v) range_map \<Rightarrow> 'v option" where
  "rm_lookup p m = (case rm_locate p m of None \<Rightarrow> None | Some (ps, i, ns) \<Rightarrow> Some (rm_value i))"

definition rm_find :: "'p::{linorder, zero} \<Rightarrow> ('p, 'v) range_map \<Rightarrow> 'p \<times> 'p \<times> 'v option" where
  "rm_find p m =
    (case rm_locate p m of
      None \<Rightarrow> (0, 0, None)
    | Some (ps, i, ns) \<Rightarrow> (rm_left i, rm_right i, Some (rm_value i)))"

section \<open>The contract: a partial function on points\<close>

fun rm_fun :: "('p::linorder, 'v) range_map \<Rightarrow> 'p \<Rightarrow> 'v option" where
  "rm_fun [] p = None"
| "rm_fun (e # m) p = (if rm_left e \<le> p \<and> p < rm_right e then Some (rm_value e) else rm_fun m p)"

definition rm_inv :: "('p::linorder, 'v) range_map \<Rightarrow> bool" where
  "rm_inv m \<longleftrightarrow> sorted_wrt (\<lambda>a b. rm_right a \<le> rm_left b) m \<and> (\<forall>e \<in> set m. rm_left e < rm_right e)"

text \<open>A range that no entry overlaps.\<close>

definition rm_free :: "'p::linorder \<Rightarrow> 'p \<Rightarrow> ('p, 'v) range_map \<Rightarrow> bool" where
  "rm_free l r m \<longleftrightarrow> (\<forall>e \<in> set m. rm_right e \<le> l \<or> r \<le> rm_left e)"

lemma rm_fun_append:
  "rm_fun (xs @ ys) p = (case rm_fun xs p of None \<Rightarrow> rm_fun ys p | Some v \<Rightarrow> Some v)"
  by (induction xs) auto

lemma rm_fun_None_iff: "rm_fun m p = None \<longleftrightarrow> (\<forall>e \<in> set m. \<not> (rm_left e \<le> p \<and> p < rm_right e))"
  by (induction m) auto

lemma rm_inv_Nil [simp]: "rm_inv []"
  by (simp add: rm_inv_def)

lemma rm_inv_append: "rm_inv (xs @ ys) \<longleftrightarrow>
    rm_inv xs \<and> rm_inv ys \<and> (\<forall>x \<in> set xs. \<forall>y \<in> set ys. rm_right x \<le> rm_left y)"
  by (auto simp: rm_inv_def sorted_wrt_append)

lemma rm_inv_Cons: "rm_inv (e # m) \<longleftrightarrow>
    rm_left e < rm_right e \<and> rm_inv m \<and> (\<forall>y \<in> set m. rm_right e \<le> rm_left y)"
  by (auto simp: rm_inv_def)

lemmas rm_inv_simps = rm_inv_append rm_inv_Cons

lemma rm_lower_bound_append:
  assumes "\<forall>e \<in> set xs. rm_left e < p" and "\<forall>e \<in> set ys. p \<le> rm_left e"
  shows "rm_lower_bound p (xs @ ys) = (xs, ys)"
proof -
  have "takeWhile (\<lambda>e. rm_left e < p) ys = []" "dropWhile (\<lambda>e. rm_left e < p) ys = ys"
    using assms(2) by (cases ys; force)+
  then show ?thesis using assms(1) by (auto simp: rm_lower_bound_def)
qed

lemma rm_split:
  assumes "rm_inv m"
  obtains xs ys where "m = xs @ ys" and "\<forall>e \<in> set xs. rm_left e < p" and "\<forall>e \<in> set ys. p \<le> rm_left e"
    and "rm_lower_bound p m = (xs, ys)"
proof
  let ?xs = "takeWhile (\<lambda>e. rm_left e < p) m" and ?ys = "dropWhile (\<lambda>e. rm_left e < p) m"
  show m: "m = ?xs @ ?ys" by simp
  show xs: "\<forall>e \<in> set ?xs. rm_left e < p" by (auto dest: set_takeWhileD)
  have inv: "rm_inv ?ys" using assms m rm_inv_append by metis
  show ys: "\<forall>e \<in> set ?ys. p \<le> rm_left e"
  proof (cases ?ys)
    case (Cons y ys')
    then have "p \<le> rm_left y" using hd_dropWhile [of "\<lambda>e. rm_left e < p" m] by auto
    then show ?thesis using inv Cons by (fastforce simp: rm_inv_Cons)
  next
    case Nil
    show ?thesis unfolding Nil by simp
  qed
  show "rm_lower_bound p m = (?xs, ?ys)" by (simp add: rm_lower_bound_def)
qed

lemma rm_emplace_append:
  assumes "\<forall>e \<in> set xs. rm_left e < l" and "\<forall>e \<in> set ys. l < rm_left e"
  shows "rm_emplace l r v (xs @ ys) = (xs @ (l, r, v) # ys, True)"
  using assms(1)
proof (induction xs)
  case Nil
  then show ?case using assms(2) by (cases ys) auto
qed (simp add: case_prod_beta)

lemma rm_locate_spec:
  assumes "rm_inv m"
  shows "(rm_locate p m = None \<and> rm_fun m p = None) \<or>
    (\<exists>xs i ys. rm_locate p m = Some (xs, i, ys) \<and> m = xs @ i # ys \<and> rm_left i \<le> p \<and> p < rm_right i)"
proof -
  obtain xs ys where m: "m = xs @ ys" "\<forall>e \<in> set xs. rm_left e < p" "\<forall>e \<in> set ys. p \<le> rm_left e"
      "rm_lower_bound p m = (xs, ys)"
    using rm_split [OF assms] .
  show ?thesis
  proof (cases "ys \<noteq> [] \<and> p = rm_left (hd ys)")
    case True
    then obtain y ys' where "ys = y # ys'" by (cases ys) auto
    with True m assms show ?thesis by (auto simp: rm_locate_def rm_inv_simps)
  next
    case hd: False
    have None: "rm_fun ys p = None"
    proof -
    have "p < rm_left e" if "e \<in> set ys" for e
    proof (cases ys)
      case (Cons y zs)
      then have "p < rm_left y" "rm_left y \<le> rm_left e"
        using hd m assms that by (auto simp: rm_inv_simps intro: order_trans less_imp_le)
      then show ?thesis by simp
    qed (use that in simp)
    then show ?thesis by (force simp: rm_fun_None_iff)
  qed
    show ?thesis
    proof (cases xs rule: rev_cases)
      case Nil
      then show ?thesis using hd m None by (auto simp: rm_locate_def)
    next
      case (snoc zs z)
      have "\<forall>e \<in> set zs. rm_right e \<le> rm_left z" using m(1) assms snoc by (auto simp: rm_inv_simps)
      moreover have z: "rm_left z < p" using m(2) snoc by simp
      ultimately have zs: "rm_fun zs p = None" by (fastforce simp: rm_fun_None_iff)
      have loc: "rm_locate p m = (if p < rm_right z then Some (zs, z, ys) else None)"
        using hd m(4) snoc by (auto simp: rm_locate_def)
      show ?thesis
      proof (cases "p < rm_right z")
        case True
        then show ?thesis using loc m(1) snoc z by fastforce
      next
        case False
        then show ?thesis using loc m(1) snoc zs None by (simp add: rm_fun_append)
      qed
    qed
  qed
qed

lemma rm_fun_member:
  assumes "rm_inv (xs @ i # ys)" and "rm_left i \<le> p" and "p < rm_right i"
  shows "rm_fun (xs @ i # ys) p = Some (rm_value i)"
proof -
  have "rm_fun xs p = None" using assms by (fastforce simp: rm_fun_None_iff rm_inv_simps)
  then show ?thesis using assms by (simp add: rm_fun_append)
qed

lemma rm_lookup_spec: "rm_inv m \<Longrightarrow> rm_lookup p m = rm_fun m p"
  using rm_locate_spec [of m p] rm_fun_member by (fastforce simp: rm_lookup_def)

lemma rm_free_append: "rm_free l r (xs @ ys) \<longleftrightarrow> rm_free l r xs \<and> rm_free l r ys"
  by (auto simp: rm_free_def)

lemma rm_add_spec:
  assumes "rm_inv (xs @ ys)" and "l < r"
    and "\<forall>e \<in> set xs. rm_right e \<le> l" and "\<forall>e \<in> set ys. r \<le> rm_left e"
  shows "rm_inv (xs @ (l, r, v) # ys)"
    and "rm_fun (xs @ (l, r, v) # ys) p = (if l \<le> p \<and> p < r then Some v else rm_fun (xs @ ys) p)"
proof -
  show "rm_inv (xs @ (l, r, v) # ys)" using assms by (fastforce simp: rm_inv_simps)
  have "l \<le> p \<Longrightarrow> p < r \<Longrightarrow> rm_fun xs p = None" using assms by (fastforce simp: rm_fun_None_iff)
  then show "rm_fun (xs @ (l, r, v) # ys) p = (if l \<le> p \<and> p < r then Some v else rm_fun (xs @ ys) p)"
    by (auto simp: rm_fun_append split: option.splits)
qed

section \<open>Insertion and injection\<close>

text \<open>Where a new range \<open>[l, r)\<close> goes, and when it overlaps nothing.\<close>

lemma rm_free_split:
  assumes "rm_inv (xs @ ys)" and "\<forall>e \<in> set xs. rm_left e < l" and "\<forall>e \<in> set ys. l \<le> rm_left e" and "l < r"
  shows "rm_free l r (xs @ ys) \<longleftrightarrow> (xs = [] \<or> rm_right (last xs) \<le> l) \<and> (ys = [] \<or> r \<le> rm_left (hd ys))"
proof -
  have "rm_free l r xs \<longleftrightarrow> xs = [] \<or> rm_right (last xs) \<le> l"
  proof (cases xs rule: rev_cases)
    case (snoc zs z)
    then have "\<forall>e \<in> set zs. rm_right e \<le> rm_left z" "rm_left z < l" "rm_left z < rm_right z"
      using assms by (auto simp: rm_inv_simps)
    then show ?thesis using snoc assms(4) by (fastforce simp: rm_free_def)
  qed (simp add: rm_free_def)
  moreover have "rm_free l r ys \<longleftrightarrow> ys = [] \<or> r \<le> rm_left (hd ys)"
  proof (cases ys)
    case (Cons y zs)
    then have "\<forall>e \<in> set zs. rm_right y \<le> rm_left e" "l \<le> rm_left y" "rm_left y < rm_right y"
      using assms by (auto simp: rm_inv_simps)
    then show ?thesis using Cons by (fastforce simp: rm_free_def)
  qed (simp add: rm_free_def)
  ultimately show ?thesis by (simp add: rm_free_append)
qed

lemma rm_free_bounds:
  assumes "rm_free l r (xs @ ys)" and "\<forall>e \<in> set xs. rm_left e < l" and "\<forall>e \<in> set ys. l \<le> rm_left e"
    and "l < r" and "rm_inv (xs @ ys)"
  shows "\<forall>e \<in> set xs. rm_right e \<le> l" and "\<forall>e \<in> set ys. r \<le> rm_left e"
proof -
  have "rm_right e \<le> l" if "e \<in> set xs" for e
  proof -
    have "rm_right e \<le> l \<or> r \<le> rm_left e" "rm_left e < l" using assms(1,2) that by (auto simp: rm_free_def)
    then show ?thesis using assms(4) by auto
  qed
  then show "\<forall>e \<in> set xs. rm_right e \<le> l" by blast
  have "r \<le> rm_left e" if "e \<in> set ys" for e
  proof -
    have "rm_right e \<le> l \<or> r \<le> rm_left e" "l \<le> rm_left e" using assms(1,3) that by (auto simp: rm_free_def)
    moreover have "rm_left e < rm_right e" using assms(5) that by (simp add: rm_inv_def)
    ultimately show ?thesis by auto
  qed
  then show "\<forall>e \<in> set ys. r \<le> rm_left e" by blast
qed

lemma rm_locate_split:
  assumes "rm_inv (xs @ ys)" and "\<forall>e \<in> set xs. rm_left e < l" and "\<forall>e \<in> set ys. l \<le> rm_left e"
  shows "rm_locate l (xs @ ys) =
    (if ys \<noteq> [] \<and> l = rm_left (hd ys) then Some (xs, hd ys, tl ys)
     else if xs \<noteq> [] \<and> l < rm_right (last xs) then Some (butlast xs, last xs, ys) else None)"
  using rm_lower_bound_append [OF assms(2,3)] by (simp add: rm_locate_def)

lemma rm_emplace_free:
  assumes "rm_inv (xs @ ys)" and "\<forall>e \<in> set xs. rm_left e < l" and "\<forall>e \<in> set ys. l \<le> rm_left e"
    and "l < r" and "rm_free l r (xs @ ys)"
  shows "rm_emplace l q v (xs @ ys) = (xs @ (l, q, v) # ys, True)"
  using assms rm_free_bounds [OF assms(5,2,3,4,1)] by (intro rm_emplace_append) fastforce+

lemma rm_insert_spec:
  assumes "rm_inv m" and "l < r"
  shows "\<exists>m'. rm_insert l r v m = Some (m', rm_free l r m) \<and> rm_inv m' \<and>
    rm_fun m' = (\<lambda>p. if rm_free l r m \<and> l \<le> p \<and> p < r then Some v else rm_fun m p)"
proof -
  obtain xs ys where m: "m = xs @ ys" "\<forall>e \<in> set xs. rm_left e < l" "\<forall>e \<in> set ys. l \<le> rm_left e"
      "rm_lower_bound l m = (xs, ys)"
    using rm_split [OF assms(1)] .
  have inv: "rm_inv (xs @ ys)" using assms m by simp
  have ins: "rm_insert l r v m = Some (if rm_free l r m then rm_emplace l r v m else (m, False))"
    using rm_locate_split [OF inv m(2,3)] rm_free_split [OF inv m(2,3) assms(2)] m assms(2)
    by (cases ys) (auto simp: rm_insert_def)
  show ?thesis
  proof (cases "rm_free l r m")
    case True
    then show ?thesis
      using ins rm_emplace_free [OF inv m(2,3) assms(2)] rm_free_bounds [OF _ m(2,3) assms(2) inv]
        rm_add_spec [OF inv assms(2)] m(1) by auto
  qed (use ins assms in auto)
qed

text \<open>\<open>inject\<close> merges the new range with its neighbours when they touch it and have its value.\<close>

definition rm_join :: "'p \<Rightarrow> 'p \<Rightarrow> 'v \<Rightarrow> ('p, 'v) range_map \<Rightarrow> ('p, 'v) range_map \<Rightarrow> ('p, 'v) range_map" where
  "rm_join l r v xs ys =
    (let left = (xs \<noteq> [] \<and> rm_right (last xs) = l \<and> rm_value (last xs) = v);
         right = (ys \<noteq> [] \<and> rm_left (hd ys) = r \<and> rm_value (hd ys) = v)
     in (if left then butlast xs else xs)
        @ (if left then rm_left (last xs) else l, if right then rm_right (hd ys) else r, v)
        # (if right then tl ys else ys))"

lemma rm_erase_at_append:
  fixes i :: "'p::linorder \<times> 'p \<times> 'v"
  assumes "\<forall>e \<in> set xs. rm_left e < rm_left i" and "\<forall>e \<in> set ys. rm_left i < rm_left e"
  shows "rm_erase_at i (xs @ i # ys) = xs @ ys"
proof -
  have "\<forall>e \<in> set xs. rm_left e \<noteq> rm_left i" "\<forall>e \<in> set ys. rm_left e \<noteq> rm_left i"
    using assms by (metis less_irrefl)+
  then show ?thesis by (simp add: rm_erase_at_def filter_id_conv)
qed

lemma rm_inv_key_less:
  assumes "rm_inv (xs @ i # ys)"
  shows "\<forall>e \<in> set xs. rm_left e < rm_left i" and "\<forall>e \<in> set ys. rm_left i < rm_left e"
proof -
  have "rm_left e < rm_left i" if "e \<in> set xs" for e
  proof -
    have "rm_left e < rm_right e" "rm_right e \<le> rm_left i"
      using assms that by (simp_all add: rm_inv_def sorted_wrt_append)
    then show ?thesis by order
  qed
  moreover have "rm_left i < rm_left e" if "e \<in> set ys" for e
    using assms that unfolding rm_inv_append rm_inv_Cons by (meson less_le_trans)
  ultimately show "\<forall>e \<in> set xs. rm_left e < rm_left i" "\<forall>e \<in> set ys. rm_left i < rm_left e"
    by blast+
qed

lemma rm_inject_join:
  assumes "rm_inv (xs @ ys)" and "\<forall>e \<in> set xs. rm_left e < l" and "\<forall>e \<in> set ys. l \<le> rm_left e" and "l < r"
  shows "rm_inject l r v (xs @ ys) =
    Some (if rm_free l r (xs @ ys) then (rm_join l r v xs ys, True) else (xs @ ys, False))"
proof -
  note free = rm_free_split [OF assms]
  note emplace = rm_emplace_free [OF assms]
  have adjust: "rm_adjust l (xs @ ys) =
      (if ys = [] \<or> (xs \<noteq> [] \<and> l \<noteq> rm_left (hd ys)) then (butlast xs, last xs, ys) else (xs, hd ys, tl ys))"
    using rm_lower_bound_append [OF assms(2,3)] by (simp add: rm_adjust_def)
  show ?thesis
  proof (cases xs rule: rev_cases)
    case xs: Nil
    show ?thesis
    proof (cases ys)
      case Nil
      then show ?thesis using xs assms(4) by (simp add: rm_inject_def rm_join_def rm_free_def)
    next
      case (Cons i ns)
      have keys: "\<forall>e \<in> set ns. rm_left i < rm_left e" and ne: "\<not> rm_right i \<le> l"
        using rm_inv_key_less [of "[]" i ns] assms(1,3) xs Cons by (auto simp: rm_inv_Cons)
      have era: "rm_left i = r \<Longrightarrow> rm_erase_at i ((l, t) # i # ns) = (l, t) # ns" for t
        using rm_erase_at_append [of "[(l, t)]" i ns] keys assms(4) by simp
      show ?thesis
        using xs Cons free emplace adjust ne assms(4) era by (auto simp: rm_inject_def rm_join_def Let_def)
    qed
  next
    case (snoc ps i)
    have i: "rm_left i < l" using assms(2) snoc by simp
    show ?thesis
    proof (cases "ys \<noteq> [] \<and> l = rm_left (hd ys)")
      case True
      then obtain y ys' where y: "ys = y # ys'" "l = rm_left y" by (cases ys) auto
      then have "rm_left y < rm_right y" using assms(1) by (simp add: rm_inv_simps)
      then have ne: "\<not> rm_right y \<le> l" "\<not> r \<le> rm_left y" using y(2) assms(4) by auto
      have nf: "\<not> rm_free l r (xs @ ys)" using free y(1) ne(2) by simp
      have adj: "rm_adjust l (xs @ ys) = (xs, y, ys')" using adjust y by simp
      show ?thesis using nf adj ne y(1) assms(4) by (simp add: rm_inject_def)
    next
      case False
      have adj: "rm_adjust l (xs @ ys) = (ps, i, ys)" using False adjust snoc by auto
      have nofit: "\<not> r \<le> rm_left i" using i assms(4) by auto
      have inv: "rm_inv (ps @ i # ys)" using assms(1) snoc by simp
      have era: "rm_erase_at n (ps @ (rm_left i, t) # n # ns) = ps @ (rm_left i, t) # ns"
          "l < rm_left n \<Longrightarrow> rm_erase_at n (ps @ i # (l, t) # n # ns) = ps @ i # (l, t) # ns"
        if "ys = n # ns" for n ns t
        using rm_inv_key_less [of "ps @ [i]" n ns] inv that
          rm_erase_at_append [of "ps @ [(rm_left i, t)]" n ns]
          rm_erase_at_append [of "ps @ [i, (l, t)]" n ns] by auto
      show ?thesis
      proof (cases ys)
        case Nil
        then show ?thesis using adj nofit free emplace snoc assms(4)
          by (auto simp: rm_inject_def rm_join_def Let_def)
      next
        case (Cons n ns)
        then show ?thesis using adj nofit free emplace snoc assms(4) era [OF Cons]
          by (auto simp: rm_inject_def rm_join_def Let_def)
      qed
    qed
  qed
qed

text \<open>Replacing a run of entries by one with the same function on points keeps the contract.\<close>

lemma rm_glue_right:
  assumes "b = c" and "a < b" and "c < d"
  shows "rm_fun ((a, b, v) # (c, d, v) # ys) p = rm_fun ((a, d, v) # ys) p"
  using assms by auto

lemma rm_fun_cong_append: "(\<And>p. rm_fun ys p = rm_fun zs p) \<Longrightarrow> rm_fun (xs @ ys) p = rm_fun (xs @ zs) p"
  by (simp add: rm_fun_append split: option.split)

lemma rm_join_cases:
  obtains (none) "rm_join l r v xs ys = xs @ (l, r, v) # ys"
  | (left) zs a where "xs = zs @ [(a, l, v)]" and "rm_join l r v xs ys = zs @ (a, r, v) # ys"
  | (right) zs b where "ys = (r, b, v) # zs" and "rm_join l r v xs ys = xs @ (l, b, v) # zs"
  | (both) zs a ws b where "xs = zs @ [(a, l, v)]" and "ys = (r, b, v) # ws"
      and "rm_join l r v xs ys = zs @ (a, b, v) # ws"
proof -
  let ?left = "xs \<noteq> [] \<and> rm_right (last xs) = l \<and> rm_value (last xs) = v"
  let ?right = "ys \<noteq> [] \<and> rm_left (hd ys) = r \<and> rm_value (hd ys) = v"
  have l: "\<exists>zs a. xs = zs @ [(a, l, v)]" if ?left using that by (cases xs rule: rev_cases) auto
  have r: "\<exists>zs b. ys = (r, b, v) # zs" if ?right using that by (cases ys) auto
  consider "\<not> ?left" "\<not> ?right" | "?left" "\<not> ?right" | "\<not> ?left" "?right" | "?left" "?right" by blast
  then show thesis
  proof cases
    case 1
    then have "rm_join l r v xs ys = xs @ (l, r, v) # ys" unfolding rm_join_def Let_def by presburger
    then show thesis by (rule none)
  next
    case 2
    then obtain zs a where xs: "xs = zs @ [(a, l, v)]" using l by blast
    moreover have "rm_join l r v xs ys = zs @ (a, r, v) # ys" using 2(2) xs by (auto simp: rm_join_def)
    ultimately show thesis by (rule left)
  next
    case 3
    then obtain zs b where ys: "ys = (r, b, v) # zs" using r by blast
    moreover have "rm_join l r v xs ys = xs @ (l, b, v) # zs" using 3(1) ys by (auto simp: rm_join_def)
    ultimately show thesis by (rule right)
  next
    case 4
    then obtain zs a ws b where eqs: "xs = zs @ [(a, l, v)]" "ys = (r, b, v) # ws" using l r by metis
    moreover have "rm_join l r v xs ys = zs @ (a, b, v) # ws" using eqs by (simp add: rm_join_def)
    ultimately show thesis by (rule both)
  qed
qed

lemma rm_join_spec:
  assumes "rm_inv (xs @ ys)" and "l < r" and "\<forall>e \<in> set xs. rm_right e \<le> l" and "\<forall>e \<in> set ys. r \<le> rm_left e"
  shows "rm_inv (rm_join l r v xs ys) \<and>
    rm_fun (rm_join l r v xs ys) = (\<lambda>p. if l \<le> p \<and> p < r then Some v else rm_fun (xs @ ys) p)"
proof -
  note inv = rm_add_spec(1) [OF assms, of v] and fn = ext [OF rm_add_spec(2) [OF assms, of v]]
  have glue: "rm_inv (zs @ (a, c, v) # ws) \<and> rm_fun (zs @ (a, c, v) # ws) = rm_fun (zs @ (a, b, v) # (b, c, v) # ws)"
    if "rm_inv (zs @ (a, b, v) # (b, c, v) # ws)" for zs a b c ws
  proof -
    have "a < b" "b < c" using that by (simp_all add: rm_inv_simps)
    then have "rm_fun (zs @ (a, c, v) # ws) = rm_fun (zs @ (a, b, v) # (b, c, v) # ws)"
      by (intro ext rm_fun_cong_append rm_glue_right [symmetric]) simp_all
    then show ?thesis using that \<open>a < b\<close> \<open>b < c\<close> by (auto simp: rm_inv_simps)
  qed
  show ?thesis
  proof (cases rule: rm_join_cases [of l r v xs ys])
    case none
    then show ?thesis using inv fn by simp
  next
    case (left zs a)
    then show ?thesis using inv fn glue [of zs a l r ys] by simp
  next
    case (right zs b)
    then show ?thesis using inv fn glue [of xs l r b zs] by simp
  next
    case (both zs a ws b)
    have 1: "rm_inv (zs @ (a, l, v) # (l, r, v) # (r, b, v) # ws)" using inv both by simp
    have 2: "rm_inv (zs @ (a, r, v) # (r, b, v) # ws)"
      and "rm_fun (zs @ (a, r, v) # (r, b, v) # ws) = rm_fun (zs @ (a, l, v) # (l, r, v) # (r, b, v) # ws)"
      using glue [OF 1] by simp_all
    then show ?thesis using fn both glue [OF 2] by simp
  qed
qed

lemma rm_inject_spec:
  assumes "rm_inv m" and "l < r"
  shows "\<exists>m'. rm_inject l r v m = Some (m', rm_free l r m) \<and> rm_inv m' \<and>
    rm_fun m' = (\<lambda>p. if rm_free l r m \<and> l \<le> p \<and> p < r then Some v else rm_fun m p)"
proof -
  obtain xs ys where m: "m = xs @ ys" "\<forall>e \<in> set xs. rm_left e < l" "\<forall>e \<in> set ys. l \<le> rm_left e"
    using rm_split [OF assms(1)] .
  have inv: "rm_inv (xs @ ys)" using assms m by simp
  show ?thesis
  proof (cases "rm_free l r m")
    case True
    then have free: "rm_free l r (xs @ ys)" using m(1) by simp
    show ?thesis unfolding m(1)
      using rm_inject_join [OF inv m(2,3) assms(2)] free
        rm_join_spec [OF inv assms(2) rm_free_bounds [OF free m(2,3) assms(2) inv]] by simp
  next
    case False
    then show ?thesis using rm_inject_join [OF inv m(2,3) assms(2)] m(1) inv by simp
  qed
qed

section \<open>Erasure\<close>

fun rm_trim :: "'p::linorder \<Rightarrow> ('p, 'v) range_map \<Rightarrow> ('p, 'v) range_map" where
  "rm_trim r [] = []"
| "rm_trim r (e # m) =
    (if r \<le> rm_left e then e # m else if rm_right e \<le> r then rm_trim r m
     else (r, rm_right e, rm_value e) # m)"

lemma rm_trim_spec:
  "rm_inv m \<Longrightarrow> rm_inv (rm_trim r m) \<and> rm_fun (rm_trim r m) = (\<lambda>p. if p < r then None else rm_fun m p)
    \<and> (\<forall>e \<in> set (rm_trim r m). r \<le> rm_left e)"
proof (induction m)
  case (Cons e m)
  have e: "rm_left e < rm_right e" "\<forall>y \<in> set m. rm_right e \<le> rm_left y" and m: "rm_inv m"
    using Cons.prems by (simp_all add: rm_inv_Cons)
  show ?case
  proof (cases "r \<le> rm_left e")
    case True
    then have "\<forall>y \<in> set m. r \<le> rm_left y" using e by (meson less_imp_le order_trans)
    moreover from this have "p < r \<Longrightarrow> rm_fun m p = None" for p by (fastforce simp: rm_fun_None_iff)
    ultimately show ?thesis using True Cons.prems by (auto simp: fun_eq_iff)
  next
    case False
    show ?thesis
    proof (cases "rm_right e \<le> r")
      case True
      then show ?thesis using False Cons.IH [OF m] by (auto simp: fun_eq_iff)
    next
      case lt: False
      then have "\<forall>y \<in> set m. r \<le> rm_left y" using e by (meson le_cases order_trans)
      moreover from this have "p < r \<Longrightarrow> rm_fun m p = None" for p by (fastforce simp: rm_fun_None_iff)
      ultimately show ?thesis using False lt e m by (auto simp: rm_inv_Cons fun_eq_iff)
    qed
  qed
qed (simp add: fun_eq_iff)

lemma rm_left_less:
  assumes "rm_inv (xs @ ys)" and "\<forall>e \<in> set xs. rm_right e \<le> nl"
  shows "\<forall>e \<in> set xs. rm_left e < nl"
proof
  fix e assume "e \<in> set xs"
  then have "rm_left e < rm_right e" "rm_right e \<le> nl" using assms by (simp_all add: rm_inv_def)
  then show "rm_left e < nl" by order
qed

lemma rm_erase_loop_trim:
  assumes "rm_inv (xs @ ys)" and "\<forall>e \<in> set xs. rm_right e \<le> nl" and "\<forall>e \<in> set ys. nl \<le> rm_left e"
    and "l \<le> nl" and "\<forall>e \<in> set ys. rm_left e = l \<longrightarrow> rm_right e \<le> r"
  shows "rm_erase_loop nl l r (xs @ ys) = Some (xs @ rm_trim r ys)"
  using assms
proof (induction ys arbitrary: nl)
  case Nil
  have xs: "\<forall>e \<in> set xs. rm_left e < nl" using rm_left_less [OF Nil.prems(1,2)] .
  have "xs = [] \<or> \<not> nl < rm_right (last xs)" using Nil.prems(2) by (auto simp: leD)
  then have "rm_locate nl xs = None" using rm_locate_split [of xs "[]" nl] xs Nil.prems(1) by auto
  then show ?case using rm_lower_bound_append [OF xs, of "[]"]
    by (simp add: rm_erase_loop.simps [of nl l r])
next
  case (Cons e ys)
  have xs: "\<forall>x \<in> set xs. rm_left x < nl" using rm_left_less [OF Cons.prems(1,2)] .
  have e: "nl \<le> rm_left e" "rm_left e < rm_right e" "l \<le> rm_left e"
    using Cons.prems(1,3,4) by (auto simp: rm_inv_simps)
  have "xs = [] \<or> \<not> nl < rm_right (last xs)" using Cons.prems(2) by (auto simp: leD)
  then have loc: "rm_locate nl (xs @ e # ys) = (if nl = rm_left e then Some (xs, e, ys) else None)"
    using rm_locate_split [OF Cons.prems(1) xs Cons.prems(3)] by auto
  have lb: "rm_lower_bound nl (xs @ e # ys) = (xs, e # ys)" by (rule rm_lower_bound_append [OF xs Cons.prems(3)])
  note step = rm_erase_loop.simps [of nl l r "xs @ e # ys"]
  show ?case
  proof (cases "r \<le> rm_left e")
    case True
    then show ?thesis using step loc lb by simp
  next
    case lt: False
    show ?thesis
    proof (cases "rm_right e \<le> r")
      case True
      have "rm_erase_loop (rm_right e) l r (xs @ ys) = Some (xs @ rm_trim r ys)"
      proof (rule Cons.IH)
        show "rm_inv (xs @ ys)" using Cons.prems(1) by (simp add: rm_inv_simps)
        show "\<forall>x \<in> set xs. rm_right x \<le> rm_right e" using Cons.prems(2) e by fastforce
        show "\<forall>y \<in> set ys. rm_right e \<le> rm_left y" using Cons.prems(1) by (simp add: rm_inv_simps)
      qed (use e Cons.prems(5) in auto)
      then show ?thesis using True lt e step loc lb by simp
    next
      case False
      have ne: "\<not> rm_left e \<le> l" using False Cons.prems(5) e(3) by auto
      have ys: "\<forall>y \<in> set ys. r < rm_left y" using Cons.prems(1) False by (fastforce simp: rm_inv_simps)
      have keys: "\<forall>x \<in> set (xs @ [e]). rm_left x < r" using xs e lt by fastforce
      have "rm_emplace r (rm_right e) (rm_value e) (xs @ e # ys)
          = (xs @ e # (r, rm_right e, rm_value e) # ys, True)"
        using rm_emplace_append [OF keys ys] by simp
      moreover have "rm_erase_at e (xs @ e # (r, rm_right e, rm_value e) # ys)
          = xs @ (r, rm_right e, rm_value e) # ys"
        using rm_inv_key_less [OF Cons.prems(1)] lt by (intro rm_erase_at_append) auto
      moreover have "rm_left e < r" using lt by simp
      ultimately show ?thesis using False e ne step loc lb by simp
    qed
  qed
qed

text \<open>The ranges for which \<open>erase(l, r)\<close> works: no entry starts at \<open>l\<close> and ends after \<open>r\<close>, and none
  that contains \<open>l\<close> inside ends at \<open>r\<close>.\<close>

definition rm_erasable :: "'p::linorder \<Rightarrow> 'p \<Rightarrow> ('p, 'v) range_map \<Rightarrow> bool" where
  "rm_erasable l r m \<longleftrightarrow> (\<forall>e \<in> set m.
    \<not> (rm_left e = l \<and> r < rm_right e) \<and> \<not> (rm_left e < l \<and> l < rm_right e \<and> rm_right e = r))"

lemma rm_erase_loop_inside:
  assumes inv: "rm_inv (zs @ i # ys)" and "rm_left i < l" and "l < rm_right i"
  shows "rm_erase_loop l l r (zs @ i # ys) =
    (if r \<le> rm_left i then Some (zs @ i # ys)
     else if r \<le> rm_right i then
       Option.bind (rm_inject r (rm_right i) (rm_value i) (zs @ (rm_left i, l, rm_value i) # ys))
         (\<lambda>mb. Some (fst mb))
     else rm_erase_loop (rm_right i) l r (zs @ (rm_left i, l, rm_value i) # ys))"
proof -
  have keys: "\<forall>e \<in> set (zs @ [i]). rm_left e < l"
    using rm_inv_key_less(1) [OF inv] assms(2) by (auto intro: less_trans)
  have later: "\<forall>e \<in> set ys. l < rm_left e"
    using inv assms(3) unfolding rm_inv_append rm_inv_Cons by (meson less_le_trans)
  then have "\<not> (ys \<noteq> [] \<and> l = rm_left (hd ys))" by (cases ys) auto
  then have "rm_locate l (zs @ i # ys) = Some (zs, i, ys)"
    using rm_locate_split [of "zs @ [i]" ys l] inv keys later assms(3) by (auto simp: less_imp_le)
  moreover have "\<not> l \<le> rm_left i" "rm_left i \<le> l" using assms(2) by auto
  moreover have "r \<le> rm_right i \<or> rm_right i \<le> r" by auto
  ultimately show ?thesis using assms(3) rm_erase_loop.simps [of l l r "zs @ i # ys"] by auto
qed

lemma rm_erase_split [consumes 1, case_names outside inside]:
  assumes "rm_inv m"
  obtains (outside) xs ys where "m = xs @ ys" and "\<forall>e \<in> set xs. rm_right e \<le> l" and "\<forall>e \<in> set ys. l \<le> rm_left e"
  | (inside) zs i ys where "m = zs @ i # ys" and "rm_left i < l" and "l < rm_right i"
proof -
  obtain xs ys where m: "m = xs @ ys" "\<forall>e \<in> set xs. rm_left e < l" "\<forall>e \<in> set ys. l \<le> rm_left e"
    using rm_split [OF assms] .
  show thesis
  proof (cases "xs = [] \<or> rm_right (last xs) \<le> l")
    case True
    have "\<forall>e \<in> set xs. rm_right e \<le> l"
    proof (cases xs rule: rev_cases)
      case (snoc zs z)
      then have "\<forall>e \<in> set zs. rm_right e \<le> rm_left z" "rm_left z < rm_right z" "rm_right z \<le> l"
        using True assms m(1) by (auto simp: rm_inv_simps)
      then show ?thesis using snoc by fastforce
    qed simp
    then show thesis using outside m by blast
  next
    case False
    then obtain zs i where "xs = zs @ [i]" by (cases xs rule: rev_cases) auto
    then show thesis using inside [of zs i ys] False m by auto
  qed
qed

lemma rm_cut_spec:
  assumes "rm_inv (zs @ i # ys)" and "rm_left i < l" and "l < rm_right i"
  shows "rm_inv (zs @ (rm_left i, l, rm_value i) # ys)"
    and "rm_fun (zs @ (rm_left i, l, rm_value i) # ys) =
      (\<lambda>p. if l \<le> p \<and> p < rm_right i then None else rm_fun (zs @ i # ys) p)"
proof -
  show "rm_inv (zs @ (rm_left i, l, rm_value i) # ys)" using assms by (auto simp: rm_inv_simps)
  show "rm_fun (zs @ (rm_left i, l, rm_value i) # ys) =
      (\<lambda>p. if l \<le> p \<and> p < rm_right i then None else rm_fun (zs @ i # ys) p)"
  proof
    fix p
    have "rm_fun zs p = None" if "l \<le> p"
      using that assms(1,2) by (fastforce simp: rm_fun_None_iff rm_inv_simps)
    moreover have "rm_fun ys p = None" if "p < rm_right i"
      using that assms(1) by (fastforce simp: rm_fun_None_iff rm_inv_simps)
    ultimately show "rm_fun (zs @ (rm_left i, l, rm_value i) # ys) p =
        (if l \<le> p \<and> p < rm_right i then None else rm_fun (zs @ i # ys) p)"
      using assms(2,3) by (auto simp: rm_fun_append split: option.split)
  qed
qed

lemma rm_erase_spec:
  assumes "rm_inv m" and "l \<le> r" and "rm_erasable l r m"
  shows "\<exists>m'. rm_erase l r m = Some m' \<and> rm_inv m' \<and>
    rm_fun m' = (\<lambda>p. if l \<le> p \<and> p < r then None else rm_fun m p)"
  using assms(1)
proof (cases rule: rm_erase_split [of m l])
  case (outside xs ys)
  have inv: "rm_inv xs" "rm_inv ys" using assms(1) outside(1) by (simp_all add: rm_inv_append)
  have "\<forall>e \<in> set ys. rm_left e = l \<longrightarrow> rm_right e \<le> r"
    using assms(3) outside(1) by (auto simp: rm_erasable_def not_le)
  then have "rm_erase l r m = Some (xs @ rm_trim r ys)"
    using rm_erase_loop_trim [of xs ys l l r] assms(1,2) outside by (simp add: rm_erase_def leD)
  moreover have "rm_inv (xs @ rm_trim r ys)"
    using inv rm_trim_spec [OF inv(2), of r] outside(2) assms(2) by (fastforce simp: rm_inv_append)
  moreover have "rm_fun (xs @ rm_trim r ys) p = (if l \<le> p \<and> p < r then None else rm_fun m p)" for p
  proof -
    have 1: "l \<le> p \<Longrightarrow> rm_fun xs p = None" using outside(2) by (fastforce simp: rm_fun_None_iff)
    have 2: "\<not> l \<le> p \<Longrightarrow> rm_fun ys p = None" using outside(3) by (fastforce simp: rm_fun_None_iff)
    show ?thesis unfolding outside(1)
      using 1 2 rm_trim_spec [OF inv(2), of r] by (auto simp: rm_fun_append split: option.split)
  qed
  ultimately show ?thesis by blast
next
  case (inside zs i ys)
  have inv: "rm_inv (zs @ i # ys)" using assms(1) inside(1) by simp
  note cut = rm_cut_spec [OF inv inside(2,3)]
  have ri: "rm_right i \<noteq> r" using assms(3) inside by (auto simp: rm_erasable_def)
  have erase: "rm_erase l r m = rm_erase_loop l l r (zs @ i # ys)" using assms(2) inside(1) by (simp add: rm_erase_def leD)
  show ?thesis
  proof (cases "r \<le> rm_right i")
    case True
    have later: "\<forall>e \<in> set ys. rm_right i \<le> rm_left e" using inv by (simp add: rm_inv_simps)
    have earlier: "\<forall>e \<in> set zs. rm_right e \<le> l" using inv inside(2) by (fastforce simp: rm_inv_simps)
    have free: "rm_free r (rm_right i) (zs @ (rm_left i, l, rm_value i) # ys)"
      using later earlier assms(2) by (auto simp: rm_free_def intro: order_trans)
    have lt: "r < rm_right i" using True ri by order
    obtain m' where m': "rm_inject r (rm_right i) (rm_value i) (zs @ (rm_left i, l, rm_value i) # ys) = Some (m', True)"
        "rm_inv m'" "rm_fun m' = (\<lambda>p. if r \<le> p \<and> p < rm_right i then Some (rm_value i)
          else rm_fun (zs @ (rm_left i, l, rm_value i) # ys) p)"
      using rm_inject_spec [OF cut(1) lt, of "rm_value i"] free by auto
    have "rm_erase l r m = Some m'"
      using erase rm_erase_loop_inside [OF inv inside(2,3), of r] m'(1) True inside(2) assms(2) by auto
    moreover have "rm_fun m' p = (if l \<le> p \<and> p < r then None else rm_fun m p)" for p
      using rm_fun_member [OF inv, of p] inside(1,2) assms(2) True by (auto simp: m'(3) cut(2))
    ultimately show ?thesis using m'(2) by blast
  next
    case False
    have ys: "rm_inv ys" "\<forall>e \<in> set ys. rm_right i \<le> rm_left e" using inv by (simp_all add: rm_inv_simps)
    let ?xs = "zs @ [(rm_left i, l, rm_value i)]"
    have earlier: "\<forall>e \<in> set ?xs. rm_right e \<le> rm_right i"
      using inv inside(2,3) by (fastforce simp: rm_inv_simps)
    have "rm_erase_loop (rm_right i) l r (?xs @ ys) = Some (?xs @ rm_trim r ys)"
      using cut(1) earlier ys(2) inside(3) by (intro rm_erase_loop_trim) (fastforce simp: less_imp_le)+
    then have "rm_erase l r m = Some (?xs @ rm_trim r ys)"
      using erase rm_erase_loop_inside [OF inv inside(2,3), of r] False inside(2) assms(2) by auto
    moreover have "rm_inv (?xs @ rm_trim r ys)"
    proof -
      have "rm_inv ?xs" using cut(1) by (simp add: rm_inv_simps)
      moreover have "rm_right x \<le> rm_left y" if "x \<in> set ?xs" "y \<in> set (rm_trim r ys)" for x y
      proof -
        have "rm_right x \<le> rm_right i" "r \<le> rm_left y" using earlier that rm_trim_spec [OF ys(1)] by blast+
        then show ?thesis using False by order
      qed
      ultimately show ?thesis using rm_trim_spec [OF ys(1), of r] by (simp only: rm_inv_append) blast
    qed
    moreover have "rm_fun (?xs @ rm_trim r ys) p = (if l \<le> p \<and> p < r then None else rm_fun m p)" for p
    proof -
      have "rm_fun (?xs @ rm_trim r ys) p =
          (if l \<le> p \<and> p < r then None else rm_fun (?xs @ ys) p)"
      proof -
        have "l \<le> p \<Longrightarrow> rm_fun ?xs p = None" "p < rm_right i \<Longrightarrow> rm_fun ys p = None"
          using rm_inv_key_less(1) [OF inv] inv inside(2,3) ys(2)
          by (fastforce simp: rm_fun_None_iff rm_inv_simps)+
        then show ?thesis using rm_trim_spec [OF ys(1), of r] False inside(3)
          by (auto simp: rm_fun_append split: option.split)
      qed
      then show ?thesis using cut(2) False inside(1) by (auto simp: fun_eq_iff)
    qed
    ultimately show ?thesis by blast
  qed
qed

text \<open>The two cases that \<open>rm_erasable\<close> excludes: a range that ends exactly at \<open>r\<close> makes \<open>inject\<close>
  assert, and one that starts exactly at \<open>l\<close> leaves the empty range \<open>[l, l)\<close> behind, whose value
  is still found at \<open>l\<close>.\<close>

lemma rm_erase_suffix_panics:
  assumes "rm_inv (zs @ (a, r, v) # ys)" and "a < l" and "l < r"
  shows "rm_erase l r (zs @ (a, r, v) # ys) = None"
proof -
  have "rm_erase_loop l l r (zs @ (a, r, v) # ys) = None"
    using rm_erase_loop_inside [OF assms(1), of l r] assms(2,3) by (simp add: rm_inject_def)
  then show ?thesis using assms(3) by (simp add: rm_erase_def)
qed

lemma rm_erase_prefix_stale:
  shows "rm_insert 0 10 v [] = Some ([(0 :: nat, 10, v)], True)"
    and "rm_erase 0 5 [(0 :: nat, 10, v)] = Some [(0, 0, v), (5, 10, v)]"
    and "rm_lookup 0 [(0 :: nat, 0, v), (5, 10, v)] = Some v"
  by (simp_all add: rm_insert_def rm_erase_def rm_erase_loop.simps rm_locate_def rm_lower_bound_def
      rm_inject_def rm_adjust_def rm_lookup_def)

section \<open>Removal of an entry, of a value, and lookup with the range\<close>

lemma rm_drop_entry:
  assumes "rm_inv (xs @ i # ys)"
  shows "rm_inv (xs @ ys)"
    and "rm_fun (xs @ ys) q = (if rm_left i \<le> q \<and> q < rm_right i then None else rm_fun (xs @ i # ys) q)"
proof -
  show "rm_inv (xs @ ys)" using assms by (simp add: rm_inv_simps)
  have "rm_left i \<le> q \<Longrightarrow> rm_fun xs q = None" "q < rm_right i \<Longrightarrow> rm_fun ys q = None"
    using assms by (fastforce simp: rm_fun_None_iff rm_inv_simps)+
  then show "rm_fun (xs @ ys) q = (if rm_left i \<le> q \<and> q < rm_right i then None else rm_fun (xs @ i # ys) q)"
    by (auto simp: rm_fun_append split: option.split)
qed

lemma rm_erase_point_spec:
  assumes "rm_inv m" and "rm_erase_point p m = (m', found)"
  shows "rm_inv m'" and "found \<longleftrightarrow> rm_fun m p \<noteq> None" and "rm_fun m' p = None"
    and "rm_fun m' q = rm_fun m q \<or> (rm_fun m' q = None \<and> rm_fun m q = rm_fun m p)"
proof -
  consider (none) "rm_locate p m = None" "rm_fun m p = None"
    | (some) xs i ys where "rm_locate p m = Some (xs, i, ys)" "m = xs @ i # ys" "rm_left i \<le> p" "p < rm_right i"
    using rm_locate_spec [OF assms(1), of p] by (elim disjE exE conjE)
  then have "rm_inv m' \<and> (found \<longleftrightarrow> rm_fun m p \<noteq> None) \<and> rm_fun m' p = None \<and>
    (rm_fun m' q = rm_fun m q \<or> (rm_fun m' q = None \<and> rm_fun m q = rm_fun m p))"
  proof cases
    case none
    then show ?thesis using assms by (auto simp: rm_erase_point_def)
  next
    case some
    have inv: "rm_inv (xs @ i # ys)" using assms(1) some(2) by simp
    have "m' = xs @ ys" "found" using assms(2) some(1) by (auto simp: rm_erase_point_def)
    then show ?thesis using rm_drop_entry [OF inv] rm_fun_member [OF inv] some by auto
  qed
  then show "rm_inv m'" "found \<longleftrightarrow> rm_fun m p \<noteq> None" "rm_fun m' p = None"
    "rm_fun m' q = rm_fun m q \<or> (rm_fun m' q = None \<and> rm_fun m q = rm_fun m p)" by blast+
qed

lemma rm_erase_value_set: "set (rm_erase_value x m) = {e \<in> set m. rm_value e \<noteq> x}"
  by (induction m) auto

lemma rm_erase_value_spec:
  "rm_inv m \<Longrightarrow> rm_inv (rm_erase_value x m) \<and>
    rm_fun (rm_erase_value x m) p = (if rm_fun m p = Some x then None else rm_fun m p)"
proof (induction m)
  case (Cons e m)
  have "rm_left e \<le> p \<Longrightarrow> p < rm_right e \<Longrightarrow> rm_fun m p = None"
    using Cons.prems by (fastforce simp: rm_fun_None_iff rm_inv_simps)
  then show ?case using Cons by (auto simp: rm_inv_Cons rm_erase_value_set)
qed simp

lemma rm_find_spec:
  assumes "rm_inv m"
  shows "rm_fun m p = None \<and> rm_find p m = (0, 0, None) \<or>
    (\<exists>l r v. rm_find p m = (l, r, Some v) \<and> l \<le> p \<and> p < r \<and> (\<forall>q. l \<le> q \<and> q < r \<longrightarrow> rm_fun m q = Some v))"
  using rm_locate_spec [OF assms, of p]
proof (elim disjE exE conjE)
  fix xs i ys
  assume loc: "rm_locate p m = Some (xs, i, ys)" and m: "m = xs @ i # ys" "rm_left i \<le> p" "p < rm_right i"
  have "\<forall>q. rm_left i \<le> q \<and> q < rm_right i \<longrightarrow> rm_fun m q = Some (rm_value i)"
    using rm_fun_member assms m(1) by metis
  then show ?thesis using loc m(2,3) by (auto simp: rm_find_def)
qed (simp add: rm_find_def)

end
