(* ===== verification/Vector_Map.thy ===== *)
theory Vector_Map
  imports Prelude
begin

text \<open>
  Associative containers over a vector: \<open>detail::vector_map\<close> and \<open>detail::vector_set\<close>, and the
  policies \<open>stable_map_policy\<close>, \<open>flat_map_policy\<close>, \<open>stable_set_policy\<close> and \<open>flat_set_policy\<close>
  that decide where an element goes and how it is found.

  A vector is a list and an iterator an index into it, with the length for \<open>end()\<close>. The template
  parameter \<open>Policy\<close> is a record of functions. What the containers need of it are the assumptions
  of the locale \<open>map_policy_laws\<close>; the four policies discharge them. The contract of a map is
  \<open>map_of\<close> of its vector, the contract of a set is the set of its elements.
\<close>

section \<open>Vectors\<close>

definition vec_insert :: "'a list \<Rightarrow> nat \<Rightarrow> 'a \<Rightarrow> 'a list" where
  "vec_insert xs i x = take i xs @ x # drop i xs"

definition vec_erase :: "'a list \<Rightarrow> nat \<Rightarrow> 'a list" where
  "vec_erase xs i = take i xs @ drop (Suc i) xs"

definition vec_erase_range :: "'a list \<Rightarrow> nat \<Rightarrow> nat \<Rightarrow> 'a list" where
  "vec_erase_range xs i j = take i xs @ drop j xs"

text \<open>\<open>std::find_if\<close>, and \<open>std::lower_bound\<close> on a range that the predicate partitions.\<close>

definition find_index :: "('a \<Rightarrow> bool) \<Rightarrow> 'a list \<Rightarrow> nat" where
  "find_index p xs = length (takeWhile (\<lambda>x. \<not> p x) xs)"

section \<open>Policies\<close>

text \<open>A policy works on the vector of elements \<open>'e\<close> with keys \<open>'k\<close>.\<close>

record ('e, 'k) policy =
  pol_add :: "'e list \<Rightarrow> 'e \<Rightarrow> 'e list \<times> nat \<times> bool"
  pol_lookup :: "'e list \<Rightarrow> 'k \<Rightarrow> nat"

record ('k, 'v) map_policy = "('k \<times> 'v, 'k) policy" +
  pol_try_emplace :: "('k \<times> 'v) list \<Rightarrow> 'k \<Rightarrow> 'v \<Rightarrow> ('k \<times> 'v) list \<times> nat \<times> bool"

subsection \<open>Maps: stable and flat\<close>

definition stable_map_lookup :: "('k \<times> 'v) list \<Rightarrow> 'k \<Rightarrow> nat" where
  "stable_map_lookup xs x = find_index (\<lambda>kvp. fst kvp = x) xs"

definition stable_map_add :: "('k \<times> 'v) list \<Rightarrow> 'k \<times> 'v \<Rightarrow> ('k \<times> 'v) list \<times> nat \<times> bool" where
  "stable_map_add xs x =
    (let i = stable_map_lookup xs (fst x)
     in if i = length xs then (vec_insert xs i x, i, True) else (xs, i, False))"

definition stable_map_try_emplace :: "('k \<times> 'v) list \<Rightarrow> 'k \<Rightarrow> 'v \<Rightarrow> ('k \<times> 'v) list \<times> nat \<times> bool" where
  "stable_map_try_emplace xs k v =
    (let it = stable_map_lookup xs k
     in if it = length xs then (vec_insert xs it (k, v), it, True) else (xs, it, False))"

definition stable_map_policy :: "('k, 'v) map_policy" where
  "stable_map_policy = \<lparr>pol_add = stable_map_add, pol_lookup = stable_map_lookup,
    pol_try_emplace = stable_map_try_emplace\<rparr>"

text \<open>The flat policy compares keys with \<open>Compare{}\<close>, here \<open>lt\<close>.\<close>

definition flat_map_add :: "('k \<Rightarrow> 'k \<Rightarrow> bool) \<Rightarrow> ('k \<times> 'v) list \<Rightarrow> 'k \<times> 'v \<Rightarrow> ('k \<times> 'v) list \<times> nat \<times> bool" where
  "flat_map_add lt xs x =
    (let i = find_index (\<lambda>y. \<not> lt (fst y) (fst x)) xs
     in if i = length xs \<or> lt (fst x) (fst (xs ! i)) then (vec_insert xs i x, i, True) else (xs, i, False))"

definition flat_map_try_emplace ::
  "('k \<Rightarrow> 'k \<Rightarrow> bool) \<Rightarrow> ('k \<times> 'v) list \<Rightarrow> 'k \<Rightarrow> 'v \<Rightarrow> ('k \<times> 'v) list \<times> nat \<times> bool" where
  "flat_map_try_emplace lt xs k v =
    (let it = find_index (\<lambda>y. \<not> lt (fst y) k) xs
     in if it = length xs \<or> lt k (fst (xs ! it)) then (vec_insert xs it (k, v), it, True) else (xs, it, False))"

definition flat_map_lookup :: "('k \<Rightarrow> 'k \<Rightarrow> bool) \<Rightarrow> ('k \<times> 'v) list \<Rightarrow> 'k \<Rightarrow> nat" where
  "flat_map_lookup lt xs k =
    (let it = find_index (\<lambda>y. \<not> lt (fst y) k) xs
     in if it \<noteq> length xs \<and> \<not> lt k (fst (xs ! it)) then it else length xs)"

definition flat_map_policy :: "('k \<Rightarrow> 'k \<Rightarrow> bool) \<Rightarrow> ('k, 'v) map_policy" where
  "flat_map_policy lt = \<lparr>pol_add = flat_map_add lt, pol_lookup = flat_map_lookup lt,
    pol_try_emplace = flat_map_try_emplace lt\<rparr>"

subsection \<open>Sets: stable and flat\<close>

definition stable_set_lookup :: "'a list \<Rightarrow> 'a \<Rightarrow> nat" where
  "stable_set_lookup xs x = find_index (\<lambda>y. y = x) xs"

definition stable_set_add :: "'a list \<Rightarrow> 'a \<Rightarrow> 'a list \<times> nat \<times> bool" where
  "stable_set_add xs x =
    (let i = stable_set_lookup xs x
     in if i = length xs then (vec_insert xs i x, i, True) else (xs, i, False))"

definition stable_set_policy :: "('a, 'a) policy" where
  "stable_set_policy = \<lparr>pol_add = stable_set_add, pol_lookup = stable_set_lookup\<rparr>"

definition flat_set_add :: "('a \<Rightarrow> 'a \<Rightarrow> bool) \<Rightarrow> 'a list \<Rightarrow> 'a \<Rightarrow> 'a list \<times> nat \<times> bool" where
  "flat_set_add lt xs x =
    (let i = find_index (\<lambda>y. \<not> lt y x) xs
     in if i = length xs \<or> lt x (xs ! i) then (vec_insert xs i x, i, True) else (xs, i, False))"

definition flat_set_lookup :: "('a \<Rightarrow> 'a \<Rightarrow> bool) \<Rightarrow> 'a list \<Rightarrow> 'a \<Rightarrow> nat" where
  "flat_set_lookup lt xs x =
    (let i = find_index (\<lambda>y. \<not> lt y x) xs
     in if i \<noteq> length xs \<and> \<not> lt x (xs ! i) then i else length xs)"

definition flat_set_policy :: "('a \<Rightarrow> 'a \<Rightarrow> bool) \<Rightarrow> ('a, 'a) policy" where
  "flat_set_policy lt = \<lparr>pol_add = flat_set_add lt, pol_lookup = flat_set_lookup lt\<rparr>"

section \<open>Operations of \<open>vector_map\<close>\<close>

definition vm_insert :: "('k, 'v) map_policy \<Rightarrow> ('k \<times> 'v) list \<Rightarrow> 'k \<times> 'v \<Rightarrow> ('k \<times> 'v) list \<times> nat \<times> bool" where
  "vm_insert pol xs x = pol_add pol xs x"

definition vm_try_emplace ::
  "('k, 'v) map_policy \<Rightarrow> ('k \<times> 'v) list \<Rightarrow> 'k \<Rightarrow> 'v \<Rightarrow> ('k \<times> 'v) list \<times> nat \<times> bool" where
  "vm_try_emplace pol xs k v = pol_try_emplace pol xs k v"

text \<open>Insertion of a range, and the constructors from an initializer list and from a range.\<close>

fun vm_insert_range :: "('k, 'v) map_policy \<Rightarrow> ('k \<times> 'v) list \<Rightarrow> ('k \<times> 'v) list \<Rightarrow> ('k \<times> 'v) list" where
  "vm_insert_range pol xs [] = xs"
| "vm_insert_range pol xs (y # ys) = vm_insert_range pol (fst (vm_insert pol xs y)) ys"

definition vm_of_list :: "('k, 'v) map_policy \<Rightarrow> ('k \<times> 'v) list \<Rightarrow> ('k \<times> 'v) list" where
  "vm_of_list pol l = vm_insert_range pol [] l"

text \<open>The hint is ignored.\<close>

definition vm_insert_hint ::
  "('k, 'v) map_policy \<Rightarrow> ('k \<times> 'v) list \<Rightarrow> nat \<Rightarrow> 'k \<times> 'v \<Rightarrow> ('k \<times> 'v) list \<times> nat" where
  "vm_insert_hint pol xs hint x = (let (ys, i, b) = vm_insert pol xs x in (ys, i))"

definition vm_find :: "('k, 'v) map_policy \<Rightarrow> ('k \<times> 'v) list \<Rightarrow> 'k \<Rightarrow> nat" where
  "vm_find pol xs x = pol_lookup pol xs x"

definition vm_contains :: "('k, 'v) map_policy \<Rightarrow> ('k \<times> 'v) list \<Rightarrow> 'k \<Rightarrow> bool" where
  "vm_contains pol xs x \<longleftrightarrow> vm_find pol xs x \<noteq> length xs"

definition vm_count :: "('k, 'v) map_policy \<Rightarrow> ('k \<times> 'v) list \<Rightarrow> 'k \<Rightarrow> nat" where
  "vm_count pol xs x = (if vm_contains pol xs x then 1 else 0)"

definition vm_erase :: "('k, 'v) map_policy \<Rightarrow> ('k \<times> 'v) list \<Rightarrow> 'k \<Rightarrow> ('k \<times> 'v) list \<times> nat" where
  "vm_erase pol xs x =
    (let it = vm_find pol xs x
     in if it = length xs then (xs, 0) else (vec_erase xs it, 1))"

text \<open>\<open>at\<close> raises \<open>std::out_of_range\<close> (\<open>None\<close>) for a missing key.\<close>

definition vm_at :: "('k, 'v) map_policy \<Rightarrow> ('k \<times> 'v) list \<Rightarrow> 'k \<Rightarrow> 'v option" where
  "vm_at pol xs key =
    (let i = vm_find pol xs key in if i = length xs then None else Some (snd (xs ! i)))"

text \<open>\<open>operator[]\<close> yields the vector and the position of the value that it refers to; a missing key
  is inserted with a value-initialized value.\<close>

definition vm_index ::
  "('k, 'v) map_policy \<Rightarrow> 'v \<Rightarrow> ('k \<times> 'v) list \<Rightarrow> 'k \<Rightarrow> ('k \<times> 'v) list \<times> nat" where
  "vm_index pol dflt xs key =
    (let i = vm_find pol xs key
     in if i \<noteq> length xs then (xs, i) else vm_insert_hint pol xs i (key, dflt))"

text \<open>\<open>m[key] = v\<close>.\<close>

definition vm_assign ::
  "('k, 'v) map_policy \<Rightarrow> 'v \<Rightarrow> ('k \<times> 'v) list \<Rightarrow> 'k \<Rightarrow> 'v \<Rightarrow> ('k \<times> 'v) list" where
  "vm_assign pol dflt xs key v =
    (let (ys, i) = vm_index pol dflt xs key in ys[i := (fst (ys ! i), v)])"

section \<open>Operations of \<open>vector_set\<close>\<close>

definition vs_insert :: "('a, 'a) policy \<Rightarrow> 'a list \<Rightarrow> 'a \<Rightarrow> 'a list \<times> nat \<times> bool" where
  "vs_insert pol xs x = pol_add pol xs x"

fun vs_insert_range :: "('a, 'a) policy \<Rightarrow> 'a list \<Rightarrow> 'a list \<Rightarrow> 'a list" where
  "vs_insert_range pol xs [] = xs"
| "vs_insert_range pol xs (y # ys) = vs_insert_range pol (fst (vs_insert pol xs y)) ys"

text \<open>\<open>std::remove\<close> moves the elements to keep to the front and leaves the old elements (moved-from)
  behind the new end that it returns; \<open>erase(x)\<close> then erases the one element at that position.\<close>

definition std_remove :: "'a \<Rightarrow> 'a list \<Rightarrow> 'a list \<times> nat" where
  "std_remove x xs =
    (let ys = filter (\<lambda>y. y \<noteq> x) xs in (ys @ drop (length ys) xs, length ys))"

definition vs_erase :: "'a list \<Rightarrow> 'a \<Rightarrow> 'a list \<times> nat" where
  "vs_erase xs x =
    (let (ys, i) = std_remove x xs
     in if i = length ys then (ys, 0) else (vec_erase ys i, 1))"

definition vs_find :: "('a, 'a) policy \<Rightarrow> 'a list \<Rightarrow> 'a \<Rightarrow> nat" where
  "vs_find pol xs x = pol_lookup pol xs x"

definition vs_contains :: "('a, 'a) policy \<Rightarrow> 'a list \<Rightarrow> 'a \<Rightarrow> bool" where
  "vs_contains pol xs x \<longleftrightarrow> vs_find pol xs x \<noteq> length xs"

definition vs_count :: "('a, 'a) policy \<Rightarrow> 'a list \<Rightarrow> 'a \<Rightarrow> nat" where
  "vs_count pol xs x = (if vs_contains pol xs x then 1 else 0)"

section \<open>What a container needs of its policy\<close>

text \<open>\<open>key\<close> reads the key of an element; \<open>ok\<close> is the invariant of the vector.\<close>

locale policy_laws =
  fixes pol :: "('e, 'k, 'z) policy_scheme" and key :: "'e \<Rightarrow> 'k" and ok :: "'e list \<Rightarrow> bool"
  assumes ok_empty: "ok []"
    and ok_distinct: "ok xs \<Longrightarrow> distinct (map key xs)"
    and ok_erase: "ok (xs @ x # ys) \<Longrightarrow> ok (xs @ ys)"
    and ok_keys: "ok xs \<Longrightarrow> map key ys = map key xs \<Longrightarrow> ok ys"
    and lookup_found: "ok xs \<Longrightarrow> k \<in> key ` set xs \<Longrightarrow>
      pol_lookup pol xs k < length xs \<and> key (xs ! pol_lookup pol xs k) = k"
    and lookup_missing: "ok xs \<Longrightarrow> k \<notin> key ` set xs \<Longrightarrow> pol_lookup pol xs k = length xs"
    and add_found: "ok xs \<Longrightarrow> key x \<in> key ` set xs \<Longrightarrow> pol_add pol xs x = (xs, pol_lookup pol xs (key x), False)"
    and add_missing: "ok xs \<Longrightarrow> key x \<notin> key ` set xs \<Longrightarrow>
      \<exists>i \<le> length xs. pol_add pol xs x = (vec_insert xs i x, i, True) \<and> ok (vec_insert xs i x)"
begin

lemma lookup_iff: "ok xs \<Longrightarrow> pol_lookup pol xs k = length xs \<longleftrightarrow> k \<notin> key ` set xs"
  using lookup_found lookup_missing by (metis less_irrefl)

lemma set_add: "ok xs \<Longrightarrow> key ` set (fst (pol_add pol xs x)) = insert (key x) (key ` set xs)"
proof (cases "key x \<in> key ` set xs")
  case False
  assume "ok xs"
  then obtain i where "i \<le> length xs" "pol_add pol xs x = (vec_insert xs i x, i, True)"
    using add_missing [OF _ False] by blast
  moreover have "set (vec_insert xs i x) = insert x (set xs)"
    unfolding vec_insert_def using set_append [of "take i xs" "drop i xs"] by auto
  ultimately show ?thesis by simp
qed (auto simp: add_found insert_absorb)

lemma ok_add: "ok xs \<Longrightarrow> ok (fst (pol_add pol xs x))"
  using add_found [of xs x] add_missing [of xs x] by (cases "key x \<in> key ` set xs") auto

lemma add_result: "ok xs \<Longrightarrow> snd (snd (pol_add pol xs x)) \<longleftrightarrow> key x \<notin> key ` set xs"
  using add_found [of xs x] add_missing [of xs x] by (cases "key x \<in> key ` set xs") auto

end

locale map_policy_laws = policy_laws pol fst ok
  for pol :: "('k, 'v) map_policy" and ok :: "('k \<times> 'v) list \<Rightarrow> bool" +
  assumes try_emplace: "pol_try_emplace pol xs k v = pol_add pol xs (k, v)"
begin

lemma map_of_add:
  assumes "ok xs"
  shows "map_of (fst (pol_add pol xs (k, v))) = (if k \<in> fst ` set xs then map_of xs else (map_of xs)(k \<mapsto> v))"
proof (cases "k \<in> fst ` set xs")
  case False
  then obtain i where i: "i \<le> length xs" "pol_add pol xs (k, v) = (vec_insert xs i (k, v), i, True)"
    using add_missing [OF assms, of "(k, v)"] by auto
  have "map_of (take i xs) k = None"
    using False by (auto simp: map_of_eq_None_iff dest: in_set_takeD)
  then have "(map_of (drop i xs))(k \<mapsto> v) ++ map_of (take i xs) = (map_of (drop i xs) ++ map_of (take i xs))(k \<mapsto> v)"
    by (auto simp: map_add_def fun_eq_iff split: option.split)
  also have "map_of (drop i xs) ++ map_of (take i xs) = map_of xs" by (simp flip: map_of_append)
  finally have eq: "(map_of (drop i xs))(k \<mapsto> v) ++ map_of (take i xs) = (map_of xs)(k \<mapsto> v)" .
  have "map_of (fst (pol_add pol xs (k, v))) = (map_of (drop i xs))(k \<mapsto> v) ++ map_of (take i xs)"
    unfolding i(2) by (simp add: vec_insert_def)
  then show ?thesis unfolding eq using False by presburger
qed (simp add: add_found assms)

lemma insert_range_spec:
  "ok xs \<Longrightarrow> ok (vm_insert_range pol xs ys) \<and> map_of (vm_insert_range pol xs ys) = map_of ys ++ map_of xs"
proof (induction ys arbitrary: xs)
  case (Cons y ys)
  obtain k v where y: "y = (k, v)" by fastforce
  have "map_of (vm_insert_range pol xs (y # ys)) = map_of ys ++ map_of (fst (pol_add pol xs (k, v)))"
    using Cons ok_add by (simp add: vm_insert_def y)
  also have "\<dots> = map_of (y # ys) ++ map_of xs"
  proof (cases "k \<in> fst ` set xs")
    case True
    then have "map_of xs k \<noteq> None" by (simp add: map_of_eq_None_iff)
    then show ?thesis using map_of_add [OF Cons.prems] True
      by (auto simp: y map_add_def fun_eq_iff split: option.split)
  next
    case False
    then have "map_of xs k = None" by (simp add: map_of_eq_None_iff)
    then show ?thesis using map_of_add [OF Cons.prems] False
      by (auto simp: y map_add_def fun_eq_iff split: option.split)
  qed
  finally have "map_of (vm_insert_range pol xs (y # ys)) = map_of (y # ys) ++ map_of xs" .
  moreover have "ok (vm_insert_range pol xs (y # ys))" using Cons ok_add by (simp add: vm_insert_def)
  ultimately show ?case by (rule conjI [rotated])
qed simp

lemma find_spec:
  assumes "ok xs"
  shows "vm_find pol xs k = length xs \<and> map_of xs k = None \<or>
    (\<exists>ys v zs. xs = ys @ (k, v) # zs \<and> vm_find pol xs k = length ys \<and> map_of xs k = Some v)"
proof (cases "k \<in> fst ` set xs")
  case True
  let ?i = "vm_find pol xs k"
  have i: "?i < length xs" "fst (xs ! ?i) = k" using lookup_found [OF assms True] by (simp_all add: vm_find_def)
  then have "xs = take ?i xs @ (k, snd (xs ! ?i)) # drop (Suc ?i) xs"
    using id_take_nth_drop [OF i(1)] by (metis prod.collapse)
  moreover have "map_of xs k = Some (snd (xs ! ?i))"
    using i ok_distinct [OF assms] by (metis map_of_eq_Some_iff nth_mem prod.collapse)
  moreover have "?i = length (take ?i xs)" using i(1) by simp
  ultimately show ?thesis by blast
qed (use lookup_missing [OF assms] in \<open>simp add: vm_find_def map_of_eq_None_iff\<close>)

lemma contains_spec: "ok xs \<Longrightarrow> vm_contains pol xs k \<longleftrightarrow> map_of xs k \<noteq> None"
  by (simp add: vm_contains_def vm_find_def lookup_iff map_of_eq_None_iff)

lemma at_spec: "ok xs \<Longrightarrow> vm_at pol xs k = map_of xs k"
  using find_spec [of xs k] by (auto simp: vm_at_def)

lemma erase_spec:
  assumes "ok xs"
  shows "\<exists>ys. vm_erase pol xs k = (ys, vm_count pol xs k) \<and> ok ys \<and> map_of ys = (map_of xs)(k := None)"
  using find_spec [OF assms, of k]
proof (elim disjE conjE exE)
  fix ys v zs
  assume *: "xs = ys @ (k, v) # zs" "vm_find pol xs k = length ys"
  have "k \<notin> fst ` set ys" "k \<notin> fst ` set zs" using ok_distinct [OF assms] *(1) by auto
  then have "map_of ys k = None" "map_of zs k = None" by (simp_all add: map_of_eq_None_iff)
  then have "map_of (ys @ zs) = (map_of xs)(k := None)"
    by (auto simp: *(1) map_add_def fun_eq_iff split: option.split)
  moreover have "ok (ys @ zs)" using assms *(1) ok_erase by simp
  moreover have "vm_erase pol xs k = (ys @ zs, vm_count pol xs k)"
    using * by (simp add: vm_erase_def vm_count_def vm_contains_def vec_erase_def)
  ultimately show ?thesis by blast
next
  assume *: "vm_find pol xs k = length xs" "map_of xs k = None"
  then have "vm_erase pol xs k = (xs, vm_count pol xs k)"
    by (simp add: vm_erase_def vm_count_def vm_contains_def)
  then show ?thesis using * assms by (auto simp: fun_upd_idem)
qed

lemma assign_spec:
  assumes "ok xs"
  shows "ok (vm_assign pol dflt xs k v) \<and> map_of (vm_assign pol dflt xs k v) = (map_of xs)(k \<mapsto> v)"
proof -
  have upd: "ok (zs[i := (fst (zs ! i), v)]) \<and> map_of (zs[i := (fst (zs ! i), v)]) = (map_of zs)(k \<mapsto> v)"
    if "ok zs" "i < length zs" "fst (zs ! i) = k" for zs i
  proof -
    let ?ws = "zs[i := (fst (zs ! i), v)]"
    have keys: "map fst ?ws = map fst zs" by (simp add: map_update list_update_same_conv that(2))
    then have ok: "ok ?ws" using ok_keys that(1) by blast
    note i = that(2,3)
    obtain as w bs where zs: "zs = as @ (k, w) # bs" "length as = i"
      using id_take_nth_drop [OF i(1)] i by (metis length_take min.absorb4 prod.collapse)
    then have "?ws = as @ (k, v) # bs" using i by (simp add: list_update_append)
    moreover have "map_of as k = None" using ok_distinct [OF that(1)] zs(1) by (simp add: map_of_eq_None_iff)
    ultimately have "map_of ?ws = (map_of zs)(k \<mapsto> v)"
      using zs by (auto simp: map_add_def fun_eq_iff split: option.split)
    then show ?thesis using ok by blast
  qed
  show ?thesis
  proof (cases "k \<in> fst ` set xs")
    case True
    then have "vm_find pol xs k < length xs" "fst (xs ! vm_find pol xs k) = k"
      using lookup_found [OF assms True] by (simp_all add: vm_find_def)
    then show ?thesis using upd [OF assms] by (simp add: vm_assign_def vm_index_def)
  next
    case False
    then obtain i where i: "i \<le> length xs" "pol_add pol xs (k, dflt) = (vec_insert xs i (k, dflt), i, True)"
        "ok (vec_insert xs i (k, dflt))"
      using add_missing [OF assms, of "(k, dflt)"] by auto
    have "vm_find pol xs k = length xs" using lookup_missing [OF assms False] by (simp add: vm_find_def)
    then have "vm_assign pol dflt xs k v = (vec_insert xs i (k, dflt))[i := (fst (vec_insert xs i (k, dflt) ! i), v)]"
      using i(2) by (simp add: vm_assign_def vm_index_def vm_insert_hint_def vm_insert_def)
    moreover have "i < length (vec_insert xs i (k, dflt))" "fst (vec_insert xs i (k, dflt) ! i) = k"
      using i(1) by (simp_all add: vec_insert_def nth_append)
    moreover have "map_of (vec_insert xs i (k, dflt)) = (map_of xs)(k \<mapsto> dflt)"
      using map_of_add [OF assms, of k dflt] i(2) False by simp
    ultimately show ?thesis using upd [OF i(3)] by simp
  qed
qed

end

locale set_policy_laws = policy_laws pol "\<lambda>x. x" ok
  for pol :: "('a, 'a) policy" and ok :: "'a list \<Rightarrow> bool"
begin

lemma set_insert_spec:
  assumes "ok xs"
  shows "\<exists>ys i. vs_insert pol xs x = (ys, i, x \<notin> set xs) \<and> ok ys \<and> set ys = insert x (set xs)"
  using set_add [OF assms, of x] ok_add [OF assms, of x] add_result [OF assms, of x]
  by (cases "pol_add pol xs x") (simp add: vs_insert_def)

lemma set_insert_range_spec: "ok xs \<Longrightarrow> ok (vs_insert_range pol xs ys) \<and> set (vs_insert_range pol xs ys) = set xs \<union> set ys"
proof (induction ys arbitrary: xs)
  case (Cons y ys)
  then show ?case using set_insert_spec [OF Cons.prems, of y] by auto
qed simp

lemma set_contains_spec: "ok xs \<Longrightarrow> vs_contains pol xs x \<longleftrightarrow> x \<in> set xs"
  using lookup_iff [of xs x] by (simp add: vs_contains_def vs_find_def)

lemma set_erase_spec:
  assumes "ok xs"
  shows "\<exists>ys. vs_erase xs x = (ys, if x \<in> set xs then 1 else 0) \<and> ok ys \<and> set ys = set xs - {x}"
proof (cases "x \<in> set xs")
  case True
  then obtain as bs where xs: "xs = as @ x # bs" by (auto dest: split_list)
  then have x: "x \<notin> set as" "x \<notin> set bs" using ok_distinct [OF assms] by auto
  then have "filter (\<lambda>y. y \<noteq> x) as = as" "filter (\<lambda>y. y \<noteq> x) bs = bs"
    by (auto simp: filter_id_conv)
  then have "filter (\<lambda>y. y \<noteq> x) xs = as @ bs" using xs by simp
  moreover have "length (drop (length (as @ bs)) xs) = 1" using xs by simp
  ultimately have "vs_erase xs x = (as @ bs, 1)"
    by (auto simp: vs_erase_def std_remove_def vec_erase_def Let_def)
  then show ?thesis using True x xs assms ok_erase by auto
next
  case False
  then have "filter (\<lambda>y. y \<noteq> x) xs = xs" by (auto simp: filter_id_conv)
  then show ?thesis using False assms by (auto simp: vs_erase_def std_remove_def)
qed

end

section \<open>The policies\<close>

lemma find_index_less: "find_index p xs < length xs \<Longrightarrow> p (xs ! find_index p xs)"
  using nth_length_takeWhile [of "\<lambda>x. \<not> p x" xs] by (simp add: find_index_def)

lemma find_index_before: "j < find_index p xs \<Longrightarrow> \<not> p (xs ! j)"
  unfolding find_index_def by (metis nth_mem set_takeWhileD takeWhile_nth)

lemma find_index_le: "find_index p xs \<le> length xs"
  by (simp add: find_index_def length_takeWhile_le)

lemma find_index_length_iff: "find_index p xs = length xs \<longleftrightarrow> (\<forall>x \<in> set xs. \<not> p x)"
proof -
  have "find_index p xs = length xs \<longleftrightarrow> takeWhile (\<lambda>x. \<not> p x) xs = xs"
    unfolding find_index_def by (metis takeWhile_eq_take take_all_iff order_refl)
  then show ?thesis by (simp add: takeWhile_eq_all_conv)
qed

lemma find_index_split:
  "takeWhile (\<lambda>x. \<not> p x) xs = take (find_index p xs) xs" "dropWhile (\<lambda>x. \<not> p x) xs = drop (find_index p xs) xs"
  unfolding find_index_def by (rule takeWhile_eq_take) (rule dropWhile_eq_drop)

lemma vec_insert_length: "vec_insert xs (length xs) x = xs @ [x]"
  by (simp add: vec_insert_def)

subsection \<open>Insertion order\<close>

definition stable_ok :: "('e \<Rightarrow> 'k) \<Rightarrow> 'e list \<Rightarrow> bool" where
  "stable_ok key xs \<longleftrightarrow> distinct (map key xs)"

lemma stable_laws:
  assumes "pol_lookup pol = (\<lambda>xs k. find_index (\<lambda>e. key e = k) xs)"
    and "pol_add pol = (\<lambda>xs x. let i = find_index (\<lambda>e. key e = key x) xs
      in if i = length xs then (vec_insert xs i x, i, True) else (xs, i, False))"
  shows "policy_laws pol key (stable_ok key)"
proof
  fix xs x
  assume "stable_ok key xs" and "key x \<notin> key ` set xs"
  moreover from this(2) have "find_index (\<lambda>e. key e = key x) xs = length xs"
    unfolding find_index_length_iff by (metis image_eqI)
  ultimately show "\<exists>i \<le> length xs. pol_add pol xs x = (vec_insert xs i x, i, True) \<and> stable_ok key (vec_insert xs i x)"
    by (auto simp: assms vec_insert_length stable_ok_def)
next
  fix xs x
  assume "key x \<in> key ` set xs"
  then have "find_index (\<lambda>e. key e = key x) xs \<noteq> length xs" by (force simp: find_index_length_iff)
  then show "pol_add pol xs x = (xs, pol_lookup pol xs (key x), False)" by (simp add: assms)
next
  fix xs k
  assume "k \<in> key ` set xs"
  then have "find_index (\<lambda>e. key e = k) xs \<noteq> length xs" by (force simp: find_index_length_iff)
  then have "find_index (\<lambda>e. key e = k) xs < length xs"
    using find_index_le by (rule le_neq_implies_less [rotated])
  then show "pol_lookup pol xs k < length xs \<and> key (xs ! pol_lookup pol xs k) = k"
    using find_index_less [of "\<lambda>e. key e = k"] by (simp add: assms)
qed (auto simp: stable_ok_def assms find_index_length_iff)

interpretation stable_map: map_policy_laws stable_map_policy "stable_ok fst"
proof -
  have "policy_laws stable_map_policy fst (stable_ok fst)"
    by (rule stable_laws) (simp_all add: stable_map_policy_def stable_map_lookup_def stable_map_add_def fun_eq_iff)
  then show "map_policy_laws stable_map_policy (stable_ok fst)"
    by (intro map_policy_laws.intro map_policy_laws_axioms.intro)
      (simp_all add: stable_map_policy_def stable_map_try_emplace_def stable_map_add_def)
qed

interpretation stable_set: set_policy_laws stable_set_policy "stable_ok (\<lambda>x. x)"
  unfolding set_policy_laws_def
  by (rule stable_laws) (simp_all add: stable_set_policy_def stable_set_lookup_def stable_set_add_def fun_eq_iff)

subsection \<open>Ascending order\<close>

definition flat_ok :: "('e \<Rightarrow> 'k::linorder) \<Rightarrow> 'e list \<Rightarrow> bool" where
  "flat_ok key xs \<longleftrightarrow> sorted_wrt (<) (map key xs)"

lemma flat_ok_append: "flat_ok key (xs @ ys) \<longleftrightarrow>
    flat_ok key xs \<and> flat_ok key ys \<and> (\<forall>x \<in> set xs. \<forall>y \<in> set ys. key x < key y)"
  by (auto simp: flat_ok_def sorted_wrt_append)

lemma flat_ok_Cons: "flat_ok key (x # xs) \<longleftrightarrow> flat_ok key xs \<and> (\<forall>y \<in> set xs. key x < key y)"
  by (auto simp: flat_ok_def)

text \<open>The position that \<open>lower_bound\<close> finds in a sorted vector.\<close>

lemma flat_split:
  assumes "flat_ok key xs"
  obtains as bs where "xs = as @ bs" and "find_index (\<lambda>e. \<not> key e < k) xs = length as"
    and "\<forall>e \<in> set as. key e < k" and "\<forall>e \<in> set bs. k \<le> key e"
proof -
  let ?i = "find_index (\<lambda>e. \<not> key e < k) xs"
  have 1: "\<forall>e \<in> set (take ?i xs). key e < k"
    using find_index_split(1) [of "\<lambda>e. \<not> key e < k" xs] by (metis (mono_tags, lifting) set_takeWhileD)
  have 2: "\<forall>e \<in> set (drop ?i xs). k \<le> key e"
  proof (cases "drop ?i xs")
    case (Cons b bs)
    then have lt: "?i < length xs" by (cases "?i < length xs") simp_all
    then have "b = xs ! ?i" using Cons by (metis hd_drop_conv_nth list.sel(1))
    then have "k \<le> key b" using find_index_less [OF lt] by simp
    moreover have "flat_ok key (b # bs)" using assms Cons flat_ok_append by (metis append_take_drop_id)
    ultimately show ?thesis unfolding Cons flat_ok_Cons by auto
  qed simp
  show thesis
  proof (rule that [OF _ _ 1 2])
    show "xs = take ?i xs @ drop ?i xs" by simp
    show "?i = length (take ?i xs)" using find_index_le [of _ xs] by (metis length_take min.absorb2)
  qed
qed

lemma flat_member:
  assumes "flat_ok key (as @ bs)" and "\<forall>e \<in> set as. key e < k" and "\<forall>e \<in> set bs. k \<le> key e"
  shows "k \<in> key ` set (as @ bs) \<longleftrightarrow> bs \<noteq> [] \<and> key (hd bs) = k"
proof (cases bs)
  case Nil
  then show ?thesis using assms(2) by force
next
  case (Cons b cs)
  have "\<forall>e \<in> set cs. key b < key e" using assms(1) Cons by (simp add: flat_ok_append flat_ok_Cons)
  moreover have "k \<le> key b" using assms(3) Cons by simp
  ultimately have "k \<notin> key ` set as" "k \<notin> key ` set cs" using assms(2) by force+
  then show ?thesis using Cons by auto
qed

lemma flat_laws:
  fixes key :: "'e \<Rightarrow> 'k::linorder"
  assumes look: "pol_lookup pol = (\<lambda>xs k. let i = find_index (\<lambda>e. \<not> key e < k) xs
      in if i \<noteq> length xs \<and> \<not> k < key (xs ! i) then i else length xs)"
    and add: "pol_add pol = (\<lambda>xs x. let i = find_index (\<lambda>e. \<not> key e < key x) xs
      in if i = length xs \<or> key x < key (xs ! i) then (vec_insert xs i x, i, True) else (xs, i, False))"
  shows "policy_laws pol key (flat_ok key)"
proof
  fix xs k
  assume ok: "flat_ok key xs" and k: "k \<in> key ` set xs"
  from ok obtain as bs where *: "xs = as @ bs" "find_index (\<lambda>e. \<not> key e < k) xs = length as"
      "\<forall>e \<in> set as. key e < k" "\<forall>e \<in> set bs. k \<le> key e"
    by (rule flat_split)
  have "bs \<noteq> []" "key (hd bs) = k" using flat_member [of key as bs k] ok k * by simp_all
  then show "pol_lookup pol xs k < length xs \<and> key (xs ! pol_lookup pol xs k) = k"
    unfolding look Let_def *(2) by (simp add: *(1) nth_append hd_conv_nth)
next
  fix xs k
  assume ok: "flat_ok key xs" and k: "k \<notin> key ` set xs"
  from ok obtain as bs where *: "xs = as @ bs" "find_index (\<lambda>e. \<not> key e < k) xs = length as"
      "\<forall>e \<in> set as. key e < k" "\<forall>e \<in> set bs. k \<le> key e"
    by (rule flat_split)
  have "bs = [] \<or> k < key (hd bs)" using flat_member [of key as bs k] ok k * by (cases bs) auto
  then show "pol_lookup pol xs k = length xs"
    unfolding look Let_def *(2) by (cases bs) (simp_all add: *(1))
next
  fix xs x
  assume ok: "flat_ok key xs" and k: "key x \<in> key ` set xs"
  from ok obtain as bs where *: "xs = as @ bs" "find_index (\<lambda>e. \<not> key e < key x) xs = length as"
      "\<forall>e \<in> set as. key e < key x" "\<forall>e \<in> set bs. key x \<le> key e"
    by (rule flat_split)
  have "bs \<noteq> []" "key (hd bs) = key x" using flat_member [of key as bs "key x"] ok k * by simp_all
  then show "pol_add pol xs x = (xs, pol_lookup pol xs (key x), False)"
    unfolding look add Let_def *(2) by (cases bs) (simp_all add: *(1))
next
  fix xs x
  assume ok: "flat_ok key xs" and k: "key x \<notin> key ` set xs"
  from ok obtain as bs where *: "xs = as @ bs" "find_index (\<lambda>e. \<not> key e < key x) xs = length as"
      "\<forall>e \<in> set as. key e < key x" "\<forall>e \<in> set bs. key x \<le> key e"
    by (rule flat_split)
  have "bs = [] \<or> key x < key (hd bs)" using flat_member [of key as bs "key x"] ok k * by (cases bs) auto
  then have "pol_add pol xs x = (vec_insert xs (length as) x, length as, True)"
    unfolding add Let_def *(2) by (cases bs) (simp_all add: *(1))
  moreover have "\<forall>e \<in> set bs. key x < key e" using *(1,4) k by (force simp: order_le_less)
  then have "flat_ok key (vec_insert xs (length as) x)"
    using ok * by (simp add: vec_insert_def flat_ok_append flat_ok_Cons)
  moreover have "length as \<le> length xs" using *(1) by simp
  ultimately show "\<exists>i \<le> length xs. pol_add pol xs x = (vec_insert xs i x, i, True) \<and> flat_ok key (vec_insert xs i x)"
    by blast
next
  fix xs
  assume "flat_ok key xs"
  then show "distinct (map key xs)" by (induction xs) (auto simp: flat_ok_Cons)
next
  fix xs x ys
  assume "flat_ok key (xs @ x # ys)"
  then show "flat_ok key (xs @ ys)" by (simp add: flat_ok_append flat_ok_Cons)
qed (simp_all add: flat_ok_def)

interpretation flat_map: map_policy_laws "flat_map_policy (<)" "flat_ok fst"
proof -
  have "policy_laws (flat_map_policy (<)) fst (flat_ok fst)"
    by (rule flat_laws) (simp_all add: flat_map_policy_def flat_map_lookup_def flat_map_add_def fun_eq_iff)
  then show "map_policy_laws (flat_map_policy (<)) (flat_ok fst)"
    by (intro map_policy_laws.intro map_policy_laws_axioms.intro)
      (simp_all add: flat_map_policy_def flat_map_try_emplace_def flat_map_add_def)
qed

interpretation flat_set: set_policy_laws "flat_set_policy (<)" "flat_ok (\<lambda>x. x)"
  unfolding set_policy_laws_def
  by (rule flat_laws) (simp_all add: flat_set_policy_def flat_set_lookup_def flat_set_add_def fun_eq_iff)

text \<open>A flat set is determined by its elements: the vector is their sorted list.\<close>

lemma flat_set_canonical:
  "flat_ok (\<lambda>x. x) xs \<Longrightarrow> xs = sorted_list_of_set (set xs)"
  by (metis flat_ok_def list.map_ident sorted_list_of_set.idem_if_sorted_distinct strict_sorted_iff)

end
