(* ===== verification/Lru_Cache.thy ===== *)
theory Lru_Cache
  imports Prelude "HOL-Library.Multiset"
begin

text \<open>
  The least-recently-used caches \<open>detail::lru_cache\<close> and \<open>detail::flat_lru_cache\<close>.

  \<open>lru_cache\<close> keeps its entries in a \<open>std::list\<close>, most recent first, and an
  \<open>std::unordered_map\<close> from keys to iterators into the list. An iterator names a node of the list,
  so a node carries an identity (\<open>lru_next\<close> is the next unused one) and the map is a list of pairs
  of a key and a node. The factory is an argument. \<open>put\<close> reads its parameter \<open>key\<close> after it was
  moved from; the argument \<open>moved\<close> is the value that a moved-from key has: the key itself for types
  whose move is a copy.

  The contract is the list of entries, most recent first: \<open>lru_put_spec\<close> and the lemmas after it.
\<close>

section \<open>The cache with a list and a map\<close>

record ('k, 'v) lru =
  lru_items :: "(nat \<times> 'k \<times> 'v) list"
  lru_index :: "('k \<times> nat) list"
  lru_max :: nat
  lru_next :: nat

text \<open>\<open>unordered_map::erase\<close> and \<open>unordered_map::operator[]\<close> with an assignment.\<close>

definition idx_erase :: "'k \<Rightarrow> ('k \<times> nat) list \<Rightarrow> ('k \<times> nat) list" where
  "idx_erase k m = filter (\<lambda>e. fst e \<noteq> k) m"

definition idx_set :: "'k \<Rightarrow> nat \<Rightarrow> ('k \<times> nat) list \<Rightarrow> ('k \<times> nat) list" where
  "idx_set k n m = (k, n) # idx_erase k m"

definition node_erase :: "nat \<Rightarrow> (nat \<times> 'k \<times> 'v) list \<Rightarrow> (nat \<times> 'k \<times> 'v) list" where
  "node_erase n xs = filter (\<lambda>e. fst e \<noteq> n) xs"

definition node_find :: "nat \<Rightarrow> (nat \<times> 'k \<times> 'v) list \<Rightarrow> (nat \<times> 'k \<times> 'v) option" where
  "node_find n xs = find (\<lambda>e. fst e = n) xs"

definition lru_new :: "nat \<Rightarrow> ('k, 'v) lru" where
  "lru_new max_size = \<lparr>lru_items = [], lru_index = [], lru_max = max_size, lru_next = 0\<rparr>"

definition lru_clear :: "('k, 'v) lru \<Rightarrow> ('k, 'v) lru" where
  "lru_clear c = c\<lparr>lru_index := [], lru_items := []\<rparr>"

text \<open>The loop of \<open>resize\<close> from \<open>new_end\<close> to the end of the list.\<close>

fun lru_trim :: "(nat \<times> 'k \<times> 'v) list \<Rightarrow> ('k, 'v) lru \<Rightarrow> ('k, 'v) lru" where
  "lru_trim [] c = c"
| "lru_trim ((n, k, v) # rest) c = lru_trim rest
    (c\<lparr>lru_index := idx_erase k (lru_index c), lru_items := node_erase n (lru_items c)\<rparr>)"

definition lru_resize :: "nat \<Rightarrow> ('k, 'v) lru \<Rightarrow> ('k, 'v) lru" where
  "lru_resize max_size c =
    (let c = (if max_size < length (lru_items c) then lru_trim (drop max_size (lru_items c)) c else c)
     in c\<lparr>lru_max := max_size\<rparr>)"

text \<open>\<open>put\<close> returns a reference into the front node; it dangles (\<open>None\<close>) when that node was evicted.\<close>

definition lru_put :: "('k \<Rightarrow> 'k) \<Rightarrow> 'k \<Rightarrow> 'v \<Rightarrow> ('k, 'v) lru \<Rightarrow> 'v option \<times> ('k, 'v) lru" where
  "lru_put moved key v c =
    (let it = map_of (lru_index c) key;
         items = (lru_next c, key, v) # lru_items c;
         (items, index) = (case it of
             None \<Rightarrow> (items, lru_index c)
           | Some n \<Rightarrow> (node_erase n items, idx_erase key (lru_index c)));
         index = idx_set (moved key) (fst (hd items)) index;
         c = c\<lparr>lru_items := items, lru_index := index, lru_next := lru_next c + 1\<rparr>
     in if lru_max c < length index then
          (if length items = 1 then None else Some v,
           c\<lparr>lru_index := idx_erase (fst (snd (last items))) index, lru_items := butlast items\<rparr>)
        else (Some v, c))"

definition lru_get_or_load ::
  "('k \<Rightarrow> 'k) \<Rightarrow> ('k \<Rightarrow> 'v) \<Rightarrow> 'k \<Rightarrow> ('k, 'v) lru \<Rightarrow> 'v option \<times> ('k, 'v) lru" where
  "lru_get_or_load moved factory key c =
    (case map_of (lru_index c) key of
      None \<Rightarrow> lru_put moved key (factory key) c
    | Some n \<Rightarrow> (case node_find n (lru_items c) of
        None \<Rightarrow> (None, c)
      | Some node \<Rightarrow> (Some (snd (snd node)), c\<lparr>lru_items := node # node_erase n (lru_items c)\<rparr>)))"

definition lru_drop :: "'k \<Rightarrow> ('k, 'v) lru \<Rightarrow> ('k, 'v) lru" where
  "lru_drop key c =
    (case map_of (lru_index c) key of
      None \<Rightarrow> c
    | Some n \<Rightarrow> c\<lparr>lru_items := node_erase n (lru_items c), lru_index := idx_erase key (lru_index c)\<rparr>)"

definition lru_eject :: "('k \<Rightarrow> 'v) \<Rightarrow> 'k \<Rightarrow> ('k, 'v) lru \<Rightarrow> 'v option \<times> ('k, 'v) lru" where
  "lru_eject factory key c =
    (case map_of (lru_index c) key of
      None \<Rightarrow> (Some (factory key), c)
    | Some n \<Rightarrow> (case node_find n (lru_items c) of
        None \<Rightarrow> (None, c)
      | Some node \<Rightarrow> (Some (snd (snd node)),
          c\<lparr>lru_items := node_erase n (lru_items c), lru_index := idx_erase key (lru_index c)\<rparr>)))"

definition lru_contains :: "'k \<Rightarrow> ('k, 'v) lru \<Rightarrow> bool" where
  "lru_contains key c \<longleftrightarrow> map_of (lru_index c) key \<noteq> None"

definition lru_size :: "('k, 'v) lru \<Rightarrow> nat" where
  "lru_size c = length (lru_index c)"

section \<open>Invariant and contract\<close>

text \<open>Nodes and keys are unique, and the map holds exactly the entries of the list.\<close>

definition lru_inv :: "('k, 'v) lru \<Rightarrow> bool" where
  "lru_inv c \<longleftrightarrow> distinct (map fst (lru_items c)) \<and> distinct (map (fst \<circ> snd) (lru_items c))
    \<and> (\<forall>e \<in> set (lru_items c). fst e < lru_next c)
    \<and> mset (lru_index c) = mset (map (\<lambda>(n, k, v). (k, n)) (lru_items c))
    \<and> length (lru_items c) \<le> lru_max c"

definition lru_entries :: "('k, 'v) lru \<Rightarrow> ('k \<times> 'v) list" where
  "lru_entries c = map snd (lru_items c)"

definition without :: "'k \<Rightarrow> ('k \<times> 'v) list \<Rightarrow> ('k \<times> 'v) list" where
  "without k xs = filter (\<lambda>e. fst e \<noteq> k) xs"

lemma filter_key_absent: "x \<notin> f ` set xs \<Longrightarrow> filter (\<lambda>e. f e \<noteq> x) xs = xs"
  by (induction xs) auto

lemma idx_of_items:
  assumes "mset ix = mset (map (\<lambda>(n, k, v). (k, n)) xs)" and "distinct (map (fst \<circ> snd) xs)"
  shows "map_of ix k = Some n \<longleftrightarrow> (\<exists>v. (n, k, v) \<in> set xs)"
    and "map_of ix k = None \<longleftrightarrow> k \<notin> set (map (fst \<circ> snd) xs)"
    and "length ix = length xs"
proof -
  have set: "set ix = (\<lambda>(n, k, v). (k, n)) ` set xs" using assms(1) by (metis mset_eq_setD set_map)
  have "mset (map fst ix) = mset (map fst (map (\<lambda>(n, k, v). (k, n)) xs))" using assms(1) by (metis mset_map)
  also have "map fst (map (\<lambda>(n, k, v). (k, n)) xs) = map (fst \<circ> snd) xs" by (simp add: case_prod_beta)
  finally have "distinct (map fst ix)" using assms(2) by (metis mset_eq_imp_distinct_iff)
  then have "map_of ix k = Some n \<longleftrightarrow> (k, n) \<in> set ix" by (rule map_of_eq_Some_iff)
  then show "map_of ix k = Some n \<longleftrightarrow> (\<exists>v. (n, k, v) \<in> set xs)" unfolding set by force
  have "fst ` set ix = set (map (fst \<circ> snd) xs)" unfolding set by force
  then show "map_of ix k = None \<longleftrightarrow> k \<notin> set (map (fst \<circ> snd) xs)" by (simp add: map_of_eq_None_iff)
  show "length ix = length xs" using assms(1) by (metis length_map size_mset)
qed

lemma idx_erase_items:
  assumes "mset ix = mset (map (\<lambda>(n, k, v). (k, n)) xs)"
  shows "mset (idx_erase k ix) = mset (map (\<lambda>(n, k, v). (k, n)) (filter (\<lambda>e. fst (snd e) \<noteq> k) xs))"
proof -
  have "mset (idx_erase k ix) = filter_mset (\<lambda>e. fst e \<noteq> k) (mset (map (\<lambda>(n, k, v). (k, n)) xs))"
    using assms by (simp add: idx_erase_def mset_filter)
  also have "\<dots> = mset (filter (\<lambda>e. fst e \<noteq> k) (map (\<lambda>(n, k, v). (k, n)) xs))" by (simp only: mset_filter)
  also have "filter (\<lambda>e. fst e \<noteq> k) (map (\<lambda>(n, k, v). (k, n)) xs)
      = map (\<lambda>(n, k, v). (k, n)) (filter (\<lambda>e. fst (snd e) \<noteq> k) xs)"
    by (induction xs) auto
  finally show ?thesis .
qed

lemma node_key:
  assumes "distinct (map fst xs)" and "distinct (map (fst \<circ> snd) xs)" and "(n, k, v) \<in> set xs"
  shows "node_erase n xs = filter (\<lambda>e. fst (snd e) \<noteq> k) xs" and "node_find n xs = Some (n, k, v)"
proof -
  obtain as bs where xs: "xs = as @ (n, k, v) # bs" using assms(3) by (meson split_list)
  have "n \<notin> fst ` set as" "n \<notin> fst ` set bs" using assms(1) by (auto simp: xs)
  moreover have "k \<notin> (fst \<circ> snd) ` set as" "k \<notin> (fst \<circ> snd) ` set bs" using assms(2) by (auto simp: xs)
  ultimately have a: "\<forall>e \<in> set as. fst e \<noteq> n \<and> fst (snd e) \<noteq> k"
    and b: "\<forall>e \<in> set bs. fst e \<noteq> n \<and> fst (snd e) \<noteq> k"
    by (metis comp_apply image_eqI)+
  show "node_erase n xs = filter (\<lambda>e. fst (snd e) \<noteq> k) xs"
    using a b by (simp add: xs node_erase_def cong: filter_cong)
  have "find (\<lambda>e. fst e = n) as = None" using a by (auto simp: find_None_iff)
  then show "node_find n xs = Some (n, k, v)"
    unfolding xs node_find_def by (induction as) (auto split: if_splits)
qed

lemma entries_filter: "map snd (filter (\<lambda>e. fst (snd e) \<noteq> k) xs) = without k (map snd xs)"
  by (induction xs) (auto simp: without_def)

lemma lru_new_inv [simp]: "lru_inv (lru_new n)" "lru_entries (lru_new n) = []"
  by (simp_all add: lru_inv_def lru_new_def lru_entries_def)

lemma lru_find_spec:
  assumes "lru_inv c"
  shows "map_of (lru_index c) k = None \<and> map_of (lru_entries c) k = None \<or>
    (\<exists>n v. map_of (lru_index c) k = Some n \<and> (n, k, v) \<in> set (lru_items c) \<and> map_of (lru_entries c) k = Some v
      \<and> node_find n (lru_items c) = Some (n, k, v)
      \<and> node_erase n (lru_items c) = filter (\<lambda>e. fst (snd e) \<noteq> k) (lru_items c))"
proof -
  have inv: "distinct (map fst (lru_items c))" "distinct (map (fst \<circ> snd) (lru_items c))"
      "mset (lru_index c) = mset (map (\<lambda>(n, k, v). (k, n)) (lru_items c))"
    using assms by (simp_all add: lru_inv_def)
  have d: "distinct (map fst (lru_entries c))" using inv(2) by (simp add: lru_entries_def comp_def)
  show ?thesis
  proof (cases "map_of (lru_index c) k")
    case None
    then have "k \<notin> fst ` set (lru_entries c)"
      using idx_of_items(2) [OF inv(3,2)] by (simp add: lru_entries_def image_image)
    then show ?thesis using None by (simp add: map_of_eq_None_iff)
  next
    case (Some n)
    then obtain v where v: "(n, k, v) \<in> set (lru_items c)" using idx_of_items(1) [OF inv(3,2)] by blast
    then have "(k, v) \<in> set (lru_entries c)" by (force simp: lru_entries_def)
    then show ?thesis using Some v d node_key [OF inv(1,2) v] by auto
  qed
qed

lemma lru_contains_spec: "lru_inv c \<Longrightarrow> lru_contains k c \<longleftrightarrow> map_of (lru_entries c) k \<noteq> None"
  using lru_find_spec [of c k] by (auto simp: lru_contains_def)

lemma lru_size_spec: "lru_inv c \<Longrightarrow> lru_size c = length (lru_entries c) \<and> lru_size c \<le> lru_max c"
  using idx_of_items(3) [of "lru_index c" "lru_items c"] by (simp add: lru_inv_def lru_size_def lru_entries_def)

text \<open>Removing the entry of a key.\<close>

lemma lru_remove:
  assumes "lru_inv c"
  shows "lru_inv (c\<lparr>lru_items := filter (\<lambda>e. fst (snd e) \<noteq> k) (lru_items c), lru_index := idx_erase k (lru_index c)\<rparr>)"
  using assms idx_erase_items [of "lru_index c" "lru_items c" k]
  by (auto simp: lru_inv_def distinct_map_filter intro: le_trans [OF length_filter_le])

lemma lru_drop_spec:
  assumes "lru_inv c"
  shows "lru_inv (lru_drop k c)" and "lru_entries (lru_drop k c) = without k (lru_entries c)"
proof -
  have "lru_inv (lru_drop k c) \<and> lru_entries (lru_drop k c) = without k (lru_entries c)"
    using lru_find_spec [OF assms, of k]
  proof (elim disjE conjE exE)
    assume "map_of (lru_index c) k = None" and none: "map_of (lru_entries c) k = None"
    moreover have "without k (lru_entries c) = lru_entries c"
      using none by (auto simp: without_def filter_id_conv map_of_eq_None_iff)
    ultimately show ?thesis using assms by (simp add: lru_drop_def)
  qed (use lru_remove [OF assms, of k] in \<open>simp add: lru_drop_def lru_entries_def entries_filter\<close>)
  then show "lru_inv (lru_drop k c)" "lru_entries (lru_drop k c) = without k (lru_entries c)" by simp_all
qed

lemma lru_eject_spec:
  assumes "lru_inv c"
  shows "lru_inv (snd (lru_eject f k c))" and "lru_entries (snd (lru_eject f k c)) = without k (lru_entries c)"
    and "fst (lru_eject f k c) = Some (case map_of (lru_entries c) k of Some v \<Rightarrow> v | None \<Rightarrow> f k)"
proof -
  have "snd (lru_eject f k c) = lru_drop k c \<and>
      fst (lru_eject f k c) = Some (case map_of (lru_entries c) k of Some v \<Rightarrow> v | None \<Rightarrow> f k)"
    using lru_find_spec [OF assms, of k] by (elim disjE conjE exE) (simp_all add: lru_eject_def lru_drop_def)
  then show "lru_inv (snd (lru_eject f k c))" "lru_entries (snd (lru_eject f k c)) = without k (lru_entries c)"
    "fst (lru_eject f k c) = Some (case map_of (lru_entries c) k of Some v \<Rightarrow> v | None \<Rightarrow> f k)"
    using lru_drop_spec [OF assms] by simp_all
qed

lemma filter_not_last:
  assumes "distinct (map f xs)" and "xs \<noteq> []"
  shows "filter (\<lambda>e. f e \<noteq> f (last xs)) xs = butlast xs"
proof -
  obtain ys y where xs: "xs = ys @ [y]" using assms(2) by (cases xs rule: rev_cases) auto
  then have "f y \<notin> f ` set ys" using assms(1) by simp
  then show ?thesis using xs by (simp add: filter_key_absent)
qed

text \<open>The state of \<open>put\<close> before the eviction.\<close>

lemma lru_put_eq:
  fixes v :: 'v and c :: "('k, 'v) lru"
  assumes "lru_inv c" and "moved k = k"
  defines "items \<equiv> (lru_next c, k, v) # filter (\<lambda>e. fst (snd e) \<noteq> k) (lru_items c)"
    and "index \<equiv> (k, lru_next c) # idx_erase k (lru_index c)"
  shows "lru_put moved k v c = (let c = c\<lparr>lru_items := items, lru_index := index, lru_next := lru_next c + 1\<rparr>
     in if lru_max c < length index then
          (if length items = 1 then None else Some v,
           c\<lparr>lru_index := idx_erase (fst (snd (last items))) index, lru_items := butlast items\<rparr>)
        else (Some v, c))"
  using lru_find_spec [OF assms(1), of k]
proof (elim disjE conjE exE)
  assume none: "map_of (lru_index c) k = None" "map_of (lru_entries c) k = None"
  then have "filter (\<lambda>e. fst (snd e) \<noteq> k) (lru_items c) = lru_items c"
    by (auto simp: filter_id_conv map_of_eq_None_iff lru_entries_def image_image)
  then show ?thesis using none assms(2) by (simp add: lru_put_def idx_set_def items_def index_def Let_def)
next
  fix n v'
  assume some: "map_of (lru_index c) k = Some n" "(n, k, v') \<in> set (lru_items c)"
    "node_erase n (lru_items c) = filter (\<lambda>e. fst (snd e) \<noteq> k) (lru_items c)"
  have "n < lru_next c" using assms(1) some(2) by (auto simp: lru_inv_def)
  then have "node_erase n ((lru_next c, k, v) # lru_items c) = items"
    using some(3) by (simp add: node_erase_def items_def)
  moreover have "idx_set k (lru_next c) (idx_erase k (lru_index c)) = index"
    by (simp add: idx_set_def idx_erase_def index_def)
  moreover have "fst (hd items) = lru_next c" by (simp add: items_def)
  ultimately show ?thesis using some(1) assms(2) by (simp add: lru_put_def Let_def)
qed

lemma lru_put_spec:
  assumes "lru_inv c" and "moved k = k" and "0 < lru_max c"
  shows "\<exists>c'. lru_put moved k v c = (Some v, c') \<and> lru_inv c' \<and> lru_max c' = lru_max c
    \<and> lru_entries c' = take (lru_max c) ((k, v) # without k (lru_entries c))"
proof -
  define items where "items = (lru_next c, k, v) # filter (\<lambda>e. fst (snd e) \<noteq> k) (lru_items c)"
  define index where "index = (k, lru_next c) # idx_erase k (lru_index c)"
  let ?c = "c\<lparr>lru_items := items, lru_index := index, lru_next := lru_next c + 1\<rparr>"
  have put: "lru_put moved k v c = (if lru_max c < length index then
          (if length items = 1 then None else Some v,
           ?c\<lparr>lru_index := idx_erase (fst (snd (last items))) index, lru_items := butlast items\<rparr>)
        else (Some v, ?c))"
    using lru_put_eq [of c moved k v, OF assms(1,2)] by (simp add: items_def index_def)
  have entries: "map snd items = (k, v) # without k (lru_entries c)"
    by (simp add: items_def lru_entries_def entries_filter)
  have shape: "distinct (map fst items)" "distinct (map (fst \<circ> snd) items)"
      "\<forall>e \<in> set items. fst e < lru_next c + 1" "mset index = mset (map (\<lambda>(n, k, v). (k, n)) items)"
    using assms(1) idx_erase_items [of "lru_index c" "lru_items c" k]
    by (auto simp: lru_inv_def items_def index_def distinct_map_filter less_Suc_eq)
  have len: "length index = length items" using shape(4) by (metis length_map size_mset)
  have bound: "length items \<le> lru_max c + 1"
  proof -
    have "length (filter (\<lambda>e. fst (snd e) \<noteq> k) (lru_items c)) \<le> length (lru_items c)" by (rule length_filter_le)
    also have "\<dots> \<le> lru_max c" using assms(1) by (simp add: lru_inv_def)
    finally show ?thesis by (simp add: items_def)
  qed
  show ?thesis
  proof (cases "lru_max c < length items")
    case True
    then have L: "length items = lru_max c + 1" using bound by simp
    then have ne: "items \<noteq> []" by auto
    have but: "butlast items = filter (\<lambda>e. fst (snd e) \<noteq> fst (snd (last items))) items"
      using filter_not_last [of "fst \<circ> snd" items] shape(2) ne by (simp add: comp_def)
    have "mset (idx_erase (fst (snd (last items))) index) = mset (map (\<lambda>(n, k, v). (k, n)) (butlast items))"
      using idx_erase_items [OF shape(4)] but by simp
    moreover have "distinct (map fst (butlast items))" "distinct (map (fst \<circ> snd) (butlast items))"
      "\<forall>e \<in> set (butlast items). fst e < lru_next c + 1"
      using shape(1-3) by (auto simp: map_butlast distinct_butlast dest: in_set_butlastD)
    ultimately have "lru_inv (?c\<lparr>lru_index := idx_erase (fst (snd (last items))) index, lru_items := butlast items\<rparr>)"
      using L by (simp add: lru_inv_def)
    moreover have "map snd (butlast items) = take (lru_max c) ((k, v) # without k (lru_entries c))"
      using L by (simp add: butlast_conv_take take_map [symmetric] flip: entries)
    ultimately show ?thesis using put True L len assms(3) by (simp add: lru_entries_def)
  next
    case False
    have "lru_inv ?c" using shape False by (simp add: lru_inv_def)
    moreover have "length ((k, v) # without k (lru_entries c)) \<le> lru_max c"
      using False entries by (metis length_map not_le)
    then have "lru_entries ?c = take (lru_max c) ((k, v) # without k (lru_entries c))"
      using entries unfolding lru_entries_def by simp
    ultimately show ?thesis using put False len by simp
  qed
qed

lemma lru_get_spec:
  assumes "lru_inv c" and "moved k = k" and "0 < lru_max c"
  shows "\<exists>v c'. lru_get_or_load moved f k c = (Some v, c') \<and> lru_inv c' \<and> lru_max c' = lru_max c
    \<and> v = (case map_of (lru_entries c) k of Some v \<Rightarrow> v | None \<Rightarrow> f k)
    \<and> lru_entries c' = take (lru_max c) ((k, v) # without k (lru_entries c))"
  using lru_find_spec [OF assms(1), of k]
proof (elim disjE conjE exE)
  fix n v
  assume some: "map_of (lru_index c) k = Some n" "(n, k, v) \<in> set (lru_items c)"
    "map_of (lru_entries c) k = Some v" "node_find n (lru_items c) = Some (n, k, v)"
    "node_erase n (lru_items c) = filter (\<lambda>e. fst (snd e) \<noteq> k) (lru_items c)"
  let ?c = "c\<lparr>lru_items := (n, k, v) # node_erase n (lru_items c)\<rparr>"
  have d: "distinct (map fst (lru_items c))" using assms(1) by (simp add: lru_inv_def)
  obtain as bs where xs: "lru_items c = as @ (n, k, v) # bs" using some(2) by (meson split_list)
  have er: "node_erase n (lru_items c) = as @ bs"
    using d unfolding xs node_erase_def by (simp add: filter_key_absent)
  have "lru_inv ?c" using assms(1) unfolding lru_inv_def er by (auto simp: xs)
  moreover have "lru_entries ?c = (k, v) # without k (lru_entries c)"
    using some(5) by (simp add: lru_entries_def entries_filter)
  moreover have "length ((k, v) # without k (lru_entries c)) \<le> lru_max c"
  proof -
    have "length ((k, v) # without k (lru_entries c)) = length (lru_items ?c)"
      using \<open>lru_entries ?c = _\<close> by (metis length_map lru_entries_def)
    also have "\<dots> \<le> lru_max c" using \<open>lru_inv ?c\<close> by (simp add: lru_inv_def)
    finally show ?thesis .
  qed
  ultimately show ?thesis using some by (simp add: lru_get_or_load_def)
next
  assume none: "map_of (lru_index c) k = None" "map_of (lru_entries c) k = None"
  then show ?thesis using lru_put_spec [of c moved k "f k", OF assms] by (simp add: lru_get_or_load_def)
qed

lemma lru_trim_spec:
  "lru_inv c \<Longrightarrow> lru_items c = ys @ xs \<Longrightarrow>
    lru_inv (lru_trim xs c) \<and> lru_items (lru_trim xs c) = ys \<and> lru_max (lru_trim xs c) = lru_max c"
proof (induction xs arbitrary: c)
  case (Cons x xs)
  obtain n k v where x: "x = (n, k, v)" by (metis surj_pair)
  have d: "distinct (map fst (lru_items c))" "distinct (map (fst \<circ> snd) (lru_items c))"
    using Cons.prems(1) by (simp_all add: lru_inv_def)
  have mem: "(n, k, v) \<in> set (lru_items c)" using Cons.prems(2) x by simp
  have items: "node_erase n (lru_items c) = ys @ xs"
    using d(1) unfolding Cons.prems(2) x node_erase_def by (simp add: filter_key_absent)
  let ?c = "c\<lparr>lru_index := idx_erase k (lru_index c), lru_items := node_erase n (lru_items c)\<rparr>"
  have "lru_inv ?c" using lru_remove [OF Cons.prems(1), of k] node_key(1) [OF d mem] by (simp add: lru_inv_def)
  moreover have "lru_items ?c = ys @ xs" using items by simp
  ultimately show ?case using Cons.IH [of ?c] x by simp
qed simp

lemma lru_resize_spec:
  assumes "lru_inv c"
  shows "lru_inv (lru_resize n c)" and "lru_entries (lru_resize n c) = take n (lru_entries c)"
    and "lru_max (lru_resize n c) = n"
proof -
  have "lru_items c = take n (lru_items c) @ drop n (lru_items c)" by simp
  note trim = lru_trim_spec [OF assms this]
  show "lru_inv (lru_resize n c)" "lru_entries (lru_resize n c) = take n (lru_entries c)"
    using trim assms by (auto simp: lru_resize_def lru_inv_def lru_entries_def take_map)
  show "lru_max (lru_resize n c) = n" by (simp add: lru_resize_def)
qed

lemma lru_clear_spec: "lru_inv (lru_clear c)" "lru_entries (lru_clear c) = []" "lru_max (lru_clear c) = lru_max c"
  by (simp_all add: lru_inv_def lru_clear_def lru_entries_def)

text \<open>What the reads of a moved-from key and of an evicted node do: with a key type that is changed by
  a move, the map gets the moved-from key, so that the inserted key is not found; with a maximum size
  of zero, the returned reference dangles.\<close>

lemma lru_put_moved_key:
  assumes "0 < n"
  shows "lru_contains q (snd (lru_put (\<lambda>_. m) k v (lru_new n))) \<longleftrightarrow> q = m"
  using assms by (auto simp: lru_put_def lru_new_def lru_contains_def idx_set_def idx_erase_def)

lemma lru_put_zero: "fst (lru_put moved k v (lru_new 0)) = None"
  by (simp add: lru_put_def lru_new_def idx_set_def idx_erase_def Let_def)

section \<open>The cache with a vector\<close>

text \<open>\<open>flat_lru_cache\<close> keeps the most recently used element at the back of a vector and finds an element
  with the predicate that \<open>pred\<close> makes from a key; \<open>fac\<close> is the factory.\<close>

record 'a flat_lru =
  fl_elements :: "'a list"
  fl_size :: nat

definition flat_new :: "nat \<Rightarrow> 'a flat_lru" where
  "flat_new n = \<lparr>fl_elements = [], fl_size = n\<rparr>"

definition flat_contains :: "('k \<Rightarrow> 'a \<Rightarrow> bool) \<Rightarrow> 'k \<Rightarrow> 'a flat_lru \<Rightarrow> bool" where
  "flat_contains pred key c \<longleftrightarrow> snd (split_first (pred key) (fl_elements c)) \<noteq> []"

text \<open>\<open>add\<close> evicts the front element when the cache is full; a full cache with no element has no
  front (\<open>None\<close>).\<close>

definition flat_add :: "'a \<Rightarrow> 'a flat_lru \<Rightarrow> ('a \<times> 'a flat_lru) option" where
  "flat_add x c =
    (if length (fl_elements c) < fl_size c then Some (x, c\<lparr>fl_elements := fl_elements c @ [x]\<rparr>)
     else (case fl_elements c of
       [] \<Rightarrow> None
     | y # ys \<Rightarrow> let rotated = ys @ [y] in Some (x, c\<lparr>fl_elements := butlast rotated @ [x]\<rparr>)))"

definition flat_get_or_add ::
  "('k \<Rightarrow> 'a \<Rightarrow> bool) \<Rightarrow> ('k \<Rightarrow> 'a) \<Rightarrow> 'k \<Rightarrow> 'a flat_lru \<Rightarrow> ('a \<times> 'a flat_lru) option" where
  "flat_get_or_add pred fac key c =
    (case split_first (pred key) (fl_elements c) of
      (xs, []) \<Rightarrow> flat_add (fac key) c
    | (xs, y # ys) \<Rightarrow>
        let elements = (if ys \<noteq> [] then xs @ ys @ [y] else fl_elements c)
        in Some (last elements, c\<lparr>fl_elements := elements\<rparr>))"

definition flat_resize :: "nat \<Rightarrow> 'a flat_lru \<Rightarrow> 'a flat_lru" where
  "flat_resize n c =
    (if n < length (fl_elements c)
     then \<lparr>fl_elements = drop (length (fl_elements c) - n) (fl_elements c), fl_size = n\<rparr>
     else c\<lparr>fl_size := n\<rparr>)"

definition flat_inv :: "'a flat_lru \<Rightarrow> bool" where
  "flat_inv c \<longleftrightarrow> length (fl_elements c) \<le> fl_size c"

lemma flat_contains_spec: "flat_contains pred k c \<longleftrightarrow> (\<exists>x \<in> set (fl_elements c). pred k x)"
  by (cases rule: split_first_cases [of "pred k" "fl_elements c"]) (auto simp: flat_contains_def)

lemma flat_add_spec:
  assumes "flat_inv c" and "0 < fl_size c"
  shows "\<exists>c'. flat_add x c = Some (x, c') \<and> flat_inv c' \<and> fl_size c' = fl_size c
    \<and> fl_elements c' = drop (length (fl_elements c) + 1 - fl_size c) (fl_elements c @ [x])"
proof (cases "length (fl_elements c) < fl_size c")
  case True
  then show ?thesis by (simp add: flat_add_def flat_inv_def)
next
  case False
  then have len: "length (fl_elements c) = fl_size c" using assms(1) by (simp add: flat_inv_def)
  then obtain y ys where "fl_elements c = y # ys" using assms(2) by (cases "fl_elements c") auto
  then show ?thesis using len by (auto simp: flat_add_def flat_inv_def)
qed

lemma flat_get_spec:
  assumes "flat_inv c" and "0 < fl_size c" and "pred k (fac k)"
  shows "\<exists>x c'. flat_get_or_add pred fac k c = Some (x, c') \<and> flat_inv c' \<and> fl_size c' = fl_size c
    \<and> pred k x \<and> last (fl_elements c') = x \<and> fl_elements c' \<noteq> []
    \<and> (if flat_contains pred k c then mset (fl_elements c') = mset (fl_elements c)
       else x = fac k \<and> fl_elements c' = drop (length (fl_elements c) + 1 - fl_size c) (fl_elements c @ [x]))"
proof (cases rule: split_first_cases [of "pred k" "fl_elements c"])
  case none
  then have "\<not> flat_contains pred k c" by (simp add: flat_contains_def)
  moreover have "flat_get_or_add pred fac k c = flat_add (fac k) c" using none(1) by (simp add: flat_get_or_add_def)
  moreover have "drop (length (fl_elements c) + 1 - fl_size c) (fl_elements c @ [fac k]) \<noteq> []"
    using assms(2) by simp
  ultimately show ?thesis using flat_add_spec [OF assms(1,2), of "fac k"] assms(3) by (auto simp: last_drop)
next
  case (some as y bs)
  then have "flat_contains pred k c" by (simp add: flat_contains_def)
  then show ?thesis using some assms(1) by (auto simp: flat_get_or_add_def flat_inv_def Let_def)
qed

lemma flat_resize_spec:
  "flat_inv (flat_resize n c)" "fl_size (flat_resize n c) = n"
  "fl_elements (flat_resize n c) = drop (length (fl_elements c) - n) (fl_elements c)"
  by (auto simp: flat_resize_def flat_inv_def)

end
