(* ===== verification/Bitvector_Iter.thy ===== *)
theory Bitvector_Iter
  imports Bitvector
begin

text \<open>
  The random-access iterators of \<open>bitvector\<close> (\<open>detail::bitvector_iterator\<close>): a position in the bit
  vector, a 64-bit unsigned integer. Traversals from \<open>begin()\<close> to \<open>end()\<close> and in reverse are shown to
  visit the bits in order, for vectors whose size is a valid position.
\<close>

section \<open>Positions\<close>

definition bvi_default :: nat where
  "bvi_default = npos"

definition bvi_begin :: "bitvector \<Rightarrow> nat" where
  "bvi_begin v = 0"

definition bvi_end :: "bitvector \<Rightarrow> nat" where
  "bvi_end v = bv_size v"

definition bvi_equals :: "nat \<Rightarrow> nat \<Rightarrow> bool" where
  "bvi_equals i j \<longleftrightarrow> i = j"

definition bvi_increment :: "nat \<Rightarrow> nat option" where
  "bvi_increment i = do { require (i \<noteq> npos); Some (i + 1) }"

text \<open>Decrementing position zero wraps around to \<open>npos\<close>.\<close>

definition bvi_decrement :: "nat \<Rightarrow> nat option" where
  "bvi_decrement i = do { require (i \<noteq> npos); Some (sub64 i 1) }"

definition bvi_advance :: "nat \<Rightarrow> nat \<Rightarrow> nat" where
  "bvi_advance n i = (i + n) mod 2 ^ 64"

definition bvi_distance_to :: "nat \<Rightarrow> nat \<Rightarrow> nat" where
  "bvi_distance_to i other = sub64 other i"

definition bvi_dereference :: "bitvector \<Rightarrow> nat \<Rightarrow> bool option" where
  "bvi_dereference v i = do {
     require (\<not> bv_empty v);
     require (i < bv_size v);
     bv_index v i
   }"

text \<open>\<open>std::reverse_iterator\<close> refers to the position before its base.\<close>

definition bvi_rbegin :: "bitvector \<Rightarrow> nat" where
  "bvi_rbegin v = bvi_end v"

definition bvi_rend :: "bitvector \<Rightarrow> nat" where
  "bvi_rend v = bvi_begin v"

definition bvi_reverse_dereference :: "bitvector \<Rightarrow> nat \<Rightarrow> bool option" where
  "bvi_reverse_dereference v i = bvi_decrement i \<bind> bvi_dereference v"

definition bv_swap :: "bitvector \<Rightarrow> bitvector \<Rightarrow> bitvector \<times> bitvector" where
  "bv_swap x y =
    (\<lparr>bv_blocks = bv_blocks y, bv_size = bv_size y\<rparr>, \<lparr>bv_blocks = bv_blocks x, bv_size = bv_size x\<rparr>)"

section \<open>Traversals\<close>

text \<open>\<open>for (i = first; i != last; step(i)) use(*i)\<close>, as the list of the values that are used.\<close>

partial_function (option) bvi_traverse ::
  "(nat \<Rightarrow> nat option) \<Rightarrow> (nat \<Rightarrow> bool option) \<Rightarrow> nat \<Rightarrow> nat \<Rightarrow> bool list option" where
  "bvi_traverse step use i j =
    (if bvi_equals i j then Some []
     else Option.bind (use i) (\<lambda>x. Option.bind (step i) (\<lambda>i'.
       Option.bind (bvi_traverse step use i' j) (\<lambda>xs. Some (x # xs)))))"

definition bv_forward :: "bitvector \<Rightarrow> bool list option" where
  "bv_forward v = bvi_traverse bvi_increment (bvi_dereference v) (bvi_begin v) (bvi_end v)"

definition bv_backward :: "bitvector \<Rightarrow> bool list option" where
  "bv_backward v = bvi_traverse bvi_decrement (bvi_reverse_dereference v) (bvi_rbegin v) (bvi_rend v)"

lemma bvi_dereference_spec:
  "bv_inv v \<Longrightarrow> i < bv_size v \<Longrightarrow> bvi_dereference v i = Some (bv_list v ! i)"
  by (simp add: bvi_dereference_def bv_empty_def bv_index_spec)

lemma bv_forward_from:
  assumes "bv_inv v" and "bv_size v \<le> npos" and "i \<le> bv_size v"
  shows "bvi_traverse bvi_increment (bvi_dereference v) i (bv_size v) = Some (drop i (bv_list v))"
  using assms(3)
proof (induction "bv_size v - i" arbitrary: i)
  case 0
  then show ?case using length_bv_list [OF assms(1)] by (simp add: bvi_traverse.simps bvi_equals_def)
next
  case (Suc n)
  then have i: "i < bv_size v" by simp
  then have "bvi_traverse bvi_increment (bvi_dereference v) (Suc i) (bv_size v) = Some (drop (Suc i) (bv_list v))"
    using Suc.hyps(2) by (intro Suc.hyps(1)) auto
  moreover have "drop i (bv_list v) = bv_list v ! i # drop (Suc i) (bv_list v)"
    using i length_bv_list [OF assms(1)] by (simp add: Cons_nth_drop_Suc)
  ultimately show ?case using i assms(1,2)
    by (simp add: bvi_traverse.simps [of _ _ i] bvi_equals_def bvi_dereference_spec bvi_increment_def)
qed

lemma bv_forward_spec: "bv_inv v \<Longrightarrow> bv_size v \<le> npos \<Longrightarrow> bv_forward v = Some (bv_list v)"
  by (simp add: bv_forward_def bvi_begin_def bvi_end_def bv_forward_from)

lemma bv_backward_from:
  assumes "bv_inv v" and "bv_size v < npos" and "i \<le> bv_size v"
  shows "bvi_traverse bvi_decrement (bvi_reverse_dereference v) i 0 = Some (rev (take i (bv_list v)))"
  using assms(3)
proof (induction i)
  case 0
  then show ?case by (simp add: bvi_traverse.simps bvi_equals_def)
next
  case (Suc i)
  have dec: "bvi_decrement (Suc i) = Some i" using Suc.prems assms(2) by (simp add: bvi_decrement_def)
  have "rev (take (Suc i) (bv_list v)) = bv_list v ! i # rev (take i (bv_list v))"
    using Suc.prems length_bv_list [OF assms(1)] by (simp add: take_Suc_conv_app_nth)
  then show ?case using Suc dec assms(1)
    by (simp add: bvi_traverse.simps [of _ _ "Suc i"] bvi_equals_def bvi_reverse_dereference_def bvi_dereference_spec)
qed

lemma bv_backward_spec: "bv_inv v \<Longrightarrow> bv_size v < npos \<Longrightarrow> bv_backward v = Some (rev (bv_list v))"
  using bv_backward_from [of v "bv_size v"] length_bv_list [of v]
  by (simp add: bv_backward_def bvi_rbegin_def bvi_rend_def bvi_begin_def bvi_end_def)

text \<open>Advancing by the distance reaches the other iterator.\<close>

lemma bvi_advance_distance:
  assumes "i < 2 ^ 64" and "j < 2 ^ 64"
  shows "bvi_advance (bvi_distance_to i j) i = j"
  using assms by (simp add: bvi_advance_def bvi_distance_to_def sub64_def)

lemma bv_swap_spec: "bv_swap x y = (y, x)"
  by (simp add: bv_swap_def)

end
