(* ===== verification/Bitmap_Serialization.thy ===== *)
theory Bitmap_Serialization
  imports Any_Bitmap
begin

text \<open>
  The FlatBuffers representation of bitmaps: \<open>pack\<close> and \<open>unpack\<close> of \<^verbatim>\<open>ewah_bitmap.cpp\<close>,
  \<^verbatim>\<open>null_bitmap.cpp\<close>, \<^verbatim>\<open>wah_bitmap.cpp\<close> and \<^verbatim>\<open>bitmap.cpp\<close>. A table of the schema \<^verbatim>\<open>bitmap.fbs\<close>
  is a record of its fields, a union a datatype with a constructor for every tag, for the tag \<open>NONE\<close>
  and for a tag outside the schema. \<open>unpack\<close> takes the bitmap that it overwrites and returns it with
  the error, if any; \<open>None\<close> stands for \<open>__builtin_unreachable\<close>.
\<close>

section \<open>Tables\<close>

record fbs_bit_vector =
  fv_blocks :: "u64 list"
  fv_size :: nat

record fbs_ewah =
  fe_blocks :: "u64 list"
  fe_last_marker :: nat
  fe_num_bits :: nat

record fbs_null =
  fn_bit_vector :: fbs_bit_vector

record fbs_wah =
  fw_blocks :: "u64 list"
  fw_num_last :: nat
  fw_num_bits :: nat

datatype fbs_bitmap = Fbs_none | Fbs_ewah fbs_ewah | Fbs_null fbs_null | Fbs_wah fbs_wah | Fbs_other nat

section \<open>Concrete bitmaps\<close>

definition ewah_pack :: "ewah \<Rightarrow> fbs_ewah" where
  "ewah_pack from =
    \<lparr>fe_blocks = ewah_blocks from, fe_last_marker = last_marker from, fe_num_bits = num_bits from\<rparr>"

definition ewah_unpack :: "fbs_ewah \<Rightarrow> ewah \<Rightarrow> caf_error option \<times> ewah" where
  "ewah_unpack from to =
    (let to = to\<lparr>ewah_blocks := []\<rparr>;
         to = to\<lparr>ewah_blocks := ewah_blocks to @ fe_blocks from\<rparr>;
         to = to\<lparr>last_marker := fe_last_marker from\<rparr>
     in (None, to\<lparr>num_bits := fe_num_bits from\<rparr>))"

definition null_pack :: "null_bitmap \<Rightarrow> fbs_null" where
  "null_pack from = \<lparr>fn_bit_vector = \<lparr>fv_blocks = bv_blocks from, fv_size = bv_size from\<rparr>\<rparr>"

definition null_unpack :: "fbs_null \<Rightarrow> null_bitmap \<Rightarrow> caf_error option \<times> null_bitmap" where
  "null_unpack from to =
    (let to = to\<lparr>bv_blocks := []\<rparr>;
         to = to\<lparr>bv_blocks := bv_blocks to @ fv_blocks (fn_bit_vector from)\<rparr>
     in (None, to\<lparr>bv_size := fv_size (fn_bit_vector from)\<rparr>))"

definition wah_pack :: "wah \<Rightarrow> fbs_wah" where
  "wah_pack from = \<lparr>fw_blocks = wah_blocks from, fw_num_last = num_last from, fw_num_bits = wah_bits from\<rparr>"

definition wah_unpack :: "fbs_wah \<Rightarrow> wah \<Rightarrow> caf_error option \<times> wah" where
  "wah_unpack from to =
    (let to = to\<lparr>wah_blocks := []\<rparr>;
         to = to\<lparr>wah_blocks := wah_blocks to @ fw_blocks from\<rparr>;
         to = to\<lparr>num_last := fw_num_last from\<rparr>
     in (None, to\<lparr>wah_bits := fw_num_bits from\<rparr>))"

section \<open>Type-erased bitmaps\<close>

fun any_pack :: "bitmap \<Rightarrow> fbs_bitmap" where
  "any_pack (Ewah_alt b) = Fbs_ewah (ewah_pack b)"
| "any_pack (Null_alt b) = Fbs_null (null_pack b)"
| "any_pack (Wah_alt b) = Fbs_wah (wah_pack b)"

text \<open>\<open>do_unpack\<close> unpacks into a fresh concrete bitmap and assigns it only when there is no error.\<close>

definition do_unpack :: "('b \<Rightarrow> bitmap) \<Rightarrow> caf_error option \<times> 'b \<Rightarrow> bitmap \<Rightarrow> caf_error option \<times> bitmap" where
  "do_unpack alt r to = (case fst r of Some err \<Rightarrow> (Some err, to) | None \<Rightarrow> (None, alt (snd r)))"

fun any_unpack :: "fbs_bitmap \<Rightarrow> bitmap \<Rightarrow> (caf_error option \<times> bitmap) option" where
  "any_unpack Fbs_none to = Some (Some (Logic_error ''invalid tenzir.fbs.Bitmap type''), to)"
| "any_unpack (Fbs_ewah f) to = Some (do_unpack Ewah_alt (ewah_unpack f ewah_new) to)"
| "any_unpack (Fbs_null f) to = Some (do_unpack Null_alt (null_unpack f bv_new) to)"
| "any_unpack (Fbs_wah f) to = Some (do_unpack Wah_alt (wah_unpack f wah_new) to)"
| "any_unpack (Fbs_other tag) to = None"

section \<open>Round trips\<close>

lemma ewah_unpack_pack: "ewah_unpack (ewah_pack b) to = (None, b)"
  by (simp add: ewah_unpack_def ewah_pack_def)

lemma null_unpack_pack: "null_unpack (null_pack b) to = (None, b)"
  by (simp add: null_unpack_def null_pack_def)

lemma wah_unpack_pack: "wah_unpack (wah_pack b) to = (None, b)"
  by (simp add: wah_unpack_def wah_pack_def)

lemma any_unpack_pack: "any_unpack (any_pack b) to = Some (None, b)"
  by (cases b) (simp_all add: ewah_unpack_pack null_unpack_pack wah_unpack_pack do_unpack_def)

text \<open>Only the tag \<open>NONE\<close> is an error, and an error leaves the target as it was.\<close>

lemma any_unpack_error:
  assumes "any_unpack f to = Some (Some err, to')"
  shows "f = Fbs_none \<and> to' = to"
  using assms by (cases f) (auto simp: do_unpack_def ewah_unpack_def null_unpack_def wah_unpack_def Let_def)

end
