(* ===== verification/Container_Properties.thy ===== *)
theory Container_Properties
  imports Ids Wah_Bitmap Range_Map Vector_Map Lru_Cache Bitvector_Iter Bitmap_Serialization
begin

text \<open>
  What the bitmaps, bit vectors, ID sets, maps and caches promise: one theorem per operation or group of
  operations, each with its application to a concrete input.
\<close>

section \<open>Samples for the witnesses\<close>

lemma ewah_of_bits: "\<exists>x. ewah_inv x \<and> ewah_list x = bs"
proof (induction bs rule: rev_induct)
  case Nil
  then show ?case using ewah_new_inv by blast
next
  case (snoc b bs)
  then show ?case using ewah_append_bit_spec by metis
qed

lemma wah_of_bits: "\<exists>x. wah_inv x \<and> wah_list x = bs"
proof (induction bs rule: rev_induct)
  case Nil
  then show ?case using wah_new_inv by blast
next
  case (snoc b bs)
  then show ?case using wah_append_bit_spec by metis
qed

section \<open>EWAH bitmaps\<close>

text \<open>C32: appending a run of \<open>n\<close> equal bits to an EWAH bitmap never fails an assertion, keeps the
  encoding invariant, and appends exactly these bits to the sequence that the blocks encode. This
  covers the completion of the last block, its integration, and the creation of markers.\<close>

theorem ewah_append_bits_correct:
  assumes "ewah_inv e"
  shows "\<exists>e'. ewah_append_bits x n e = Some e' \<and> ewah_inv e' \<and> ewah_size e' = ewah_size e + n
    \<and> ewah_list e' = ewah_list e @ replicate n x"
  using ewah.append_bits [OF assms, of x n] ewah.size_eq assms by auto

theorem ewah_append_bits_witness:
  "\<exists>e'. ewah_append_bits True 200 ewah_new = Some e' \<and> ewah_list e' = replicate 200 True"
  using ewah_append_bits_correct [of ewah_new True 200] by auto

text \<open>Appending a block of \<open>n\<close> bits, which may straddle the last block, keeps the invariant and
  appends the \<open>n\<close> least significant bits of the value.\<close>

theorem ewah_append_block_correct:
  assumes "ewah_inv e" and "0 < n" and "n \<le> width"
  shows "\<exists>e'. ewah_append_block v n e = Some e' \<and> ewah_inv e' \<and> ewah_list e' = ewah_list e @ bits_of n v"
  using ewah.append_block [OF assms] by simp

theorem ewah_append_block_witness:
  "\<exists>e'. ewah_append_block 5 4 ewah_new = Some e' \<and> ewah_list e' = bits_of 4 5"
  using ewah_append_block_correct [of ewah_new 4 5] by auto

text \<open>C33: iterating over an EWAH bitmap, with its merging of compatible markers, never fails an
  assertion and yields well-formed non-empty bit sequences whose concatenation is the sequence of
  bits that was appended.\<close>

theorem ewah_range_correct:
  assumes "ewah_inv e"
  shows "\<exists>cs. ewah_bit_range e = Some cs \<and> range_ok cs \<and> range_nonempty cs \<and> range_list cs = ewah_list e"
  using ewah.obtain_proper_range [OF assms] by simp metis

theorem ewah_range_witness:
  "\<exists>e cs. ewah_list e = [True, False] \<and> ewah_bit_range e = Some cs \<and> range_list cs = [True, False]"
  using ewah_of_bits [of "[True, False]"] ewah_range_correct by metis

text \<open>The bitwise AND of two EWAH bitmaps succeeds; its result has the length of the longer
  operand and a bit is set in it exactly if it is set in both operands.\<close>

theorem ewah_and_correct:
  assumes "ewah_inv x" and "ewah_inv y"
  shows "\<exists>z. binary_and ewah_ops ewah_ops ewah_ops x y = Some z \<and> ewah_inv z
    \<and> length (ewah_list z) = max (length (ewah_list x)) (length (ewah_list y))
    \<and> (\<forall>i. bit_at (ewah_list z) i \<longleftrightarrow> bit_at (ewah_list x) i \<and> bit_at (ewah_list y) i)"
  using ewah_and_law [OF assms] .

theorem ewah_and_witness:
  "\<exists>x y z. ewah_list x = [True, True] \<and> ewah_list y = [False, True, True]
    \<and> binary_and ewah_ops ewah_ops ewah_ops x y = Some z \<and> bit_at (ewah_list z) 1"
proof -
  obtain x y where xy: "ewah_inv x" "ewah_list x = [True, True]" "ewah_inv y" "ewah_list y = [False, True, True]"
    using ewah_of_bits by metis
  obtain z where z: "binary_and ewah_ops ewah_ops ewah_ops x y = Some z"
      "\<forall>i. bit_at (ewah_list z) i \<longleftrightarrow> bit_at (ewah_list x) i \<and> bit_at (ewah_list y) i"
    using ewah_and_correct [OF xy(1,3)] by blast
  have "bit_at (ewah_list z) 1" using z(2) xy by (simp add: bit_at_def)
  with xy z(1) show ?thesis by blast
qed

text \<open>C34: the bitwise OR, with the rest of the longer operand appended.\<close>

theorem ewah_or_correct:
  assumes "ewah_inv x" and "ewah_inv y"
  shows "\<exists>z. binary_or ewah_ops ewah_ops ewah_ops x y = Some z \<and> ewah_inv z
    \<and> length (ewah_list z) = max (length (ewah_list x)) (length (ewah_list y))
    \<and> (\<forall>i. bit_at (ewah_list z) i \<longleftrightarrow> bit_at (ewah_list x) i \<or> bit_at (ewah_list y) i)"
  using ewah_or_law [OF assms] .

theorem ewah_or_witness:
  "\<exists>x y z. ewah_list x = [True] \<and> ewah_list y = [False, False, True]
    \<and> binary_or ewah_ops ewah_ops ewah_ops x y = Some z \<and> bit_at (ewah_list z) 2"
proof -
  obtain x y where xy: "ewah_inv x" "ewah_list x = [True]" "ewah_inv y" "ewah_list y = [False, False, True]"
    using ewah_of_bits by metis
  obtain z where z: "binary_or ewah_ops ewah_ops ewah_ops x y = Some z"
      "\<forall>i. bit_at (ewah_list z) i \<longleftrightarrow> bit_at (ewah_list x) i \<or> bit_at (ewah_list y) i"
    using ewah_or_correct [OF xy(1,3)] by blast
  have "bit_at (ewah_list z) 2" using z(2) xy by (simp add: bit_at_def)
  with xy z(1) show ?thesis by blast
qed

text \<open>The difference \<open>x - y\<close> (called NAND in the code) of two EWAH bitmaps, with the rest of a longer
  left operand appended.\<close>

theorem ewah_difference_correct:
  assumes "ewah_inv x" and "ewah_inv y"
  shows "\<exists>z. binary_nand ewah_ops ewah_ops ewah_ops x y = Some z \<and> ewah_inv z
    \<and> length (ewah_list z) = max (length (ewah_list x)) (length (ewah_list y))
    \<and> (\<forall>i. bit_at (ewah_list z) i \<longleftrightarrow> bit_at (ewah_list x) i \<and> \<not> bit_at (ewah_list y) i)"
  using ewah_op_laws [OF word_op_simps(4) assms bit_at_ops(4), folded binary_nand_def] by blast

theorem ewah_difference_witness:
  "\<exists>x y z. ewah_list x = [True, True] \<and> ewah_list y = [True]
    \<and> binary_nand ewah_ops ewah_ops ewah_ops x y = Some z \<and> bit_at (ewah_list z) 1 \<and> \<not> bit_at (ewah_list z) 0"
proof -
  obtain x y where xy: "ewah_inv x" "ewah_list x = [True, True]" "ewah_inv y" "ewah_list y = [True]"
    using ewah_of_bits by metis
  obtain z where z: "binary_nand ewah_ops ewah_ops ewah_ops x y = Some z"
      "\<forall>i. bit_at (ewah_list z) i \<longleftrightarrow> bit_at (ewah_list x) i \<and> \<not> bit_at (ewah_list y) i"
    using ewah_difference_correct [OF xy(1,3)] by blast
  have "bit_at (ewah_list z) 1" "\<not> bit_at (ewah_list z) 0"
    using z(2) [rule_format, of 1] z(2) [rule_format, of 0] xy by (simp_all add: bit_at_def)
  with xy z(1) show ?thesis by blast
qed

text \<open>C35: \<open>nary_or\<close> returns for every list of EWAH bitmaps, and whichever of several equally long bitmaps
  the priority queue hands out first, the result has the length of the longest bitmap and the union
  of the 1-bits.\<close>

theorem nary_or_correct:
  assumes "q \<noteq> []" and "\<forall>x \<in> set q. ewah_inv x"
  shows "(\<exists>r. nary_or ewah_ops q = Some r) \<and>
    (\<forall>r. nary_run ewah_ops (binary_or ewah_ops ewah_ops ewah_ops) q r \<longrightarrow> ewah_inv r
      \<and> length (ewah_list r) = Max (insert 0 ((\<lambda>x. length (ewah_list x)) ` set q))
      \<and> (\<forall>i. bit_at (ewah_list r) i \<longleftrightarrow> (\<exists>x \<in> set q. bit_at (ewah_list x) i)))"
  using ewah_or.eval_total [OF assms(2)] ewah_or.run_spec [OF _ assms]
  by (simp add: nary_or_def ewah_or.longest_def ewah_or.column_def list_ex_iff)

theorem nary_or_witness:
  "\<exists>x r. ewah_list x = [True] \<and> nary_or ewah_ops [x, x] = Some r \<and> bit_at (ewah_list r) 0"
proof -
  obtain x where x: "ewah_inv x" "ewah_list x = [True]" using ewah_of_bits by metis
  then have q: "[x, x] \<noteq> []" "\<forall>y \<in> set [x, x]. ewah_inv y" by simp_all
  obtain r where r: "nary_or ewah_ops [x, x] = Some r" using nary_or_correct [OF q] by blast
  then have "nary_run ewah_ops (binary_or ewah_ops ewah_ops ewah_ops) [x, x] r"
    by (simp add: nary_or_def nary_eval_run)
  then have "bit_at (ewah_list r) 0 \<longleftrightarrow> (\<exists>y \<in> set [x, x]. bit_at (ewah_list y) 0)"
    using nary_or_correct [OF q] by blast
  then have "bit_at (ewah_list r) 0" using x(2) by (simp add: bit_at_def)
  with x r show ?thesis by blast
qed

text \<open>Flipping an EWAH bitmap complements every bit, keeps the invariant, and never touches the
  unused bits of the last block or a marker's counters.\<close>

theorem ewah_flip_correct:
  assumes "ewah_inv e"
  shows "\<exists>e'. ewah_flip e = Some e' \<and> ewah_inv e' \<and> ewah_list e' = map Not (ewah_list e)"
  using ewah.flip [OF assms] by simp

theorem ewah_flip_witness:
  "\<exists>e e'. ewah_list e = replicate 200 True \<and> ewah_flip e = Some e' \<and> ewah_list e' = replicate 200 False"
proof -
  obtain e where e: "ewah_inv e" "ewah_list e = replicate 200 True" using ewah_of_bits by metis
  with ewah_flip_correct [OF e(1)] show ?thesis by auto
qed

text \<open>The rank of a bit value up to and including position \<open>i\<close> is the number of its occurrences in
  the first \<open>i + 1\<close> bits.\<close>

theorem rank_correct:
  assumes "ewah_inv b" and "i < length (ewah_list b)"
  shows "bitmap_rank_upto bv ewah_ops b i = Some (count_list (take (Suc i) (ewah_list b)) bv)"
  by (rule ewah.rank_upto_spec [OF assms])

theorem rank_witness:
  "\<exists>b. ewah_list b = [True, False, True] \<and> bitmap_rank_upto True ewah_ops b 2 = Some 2"
proof -
  obtain b where b: "ewah_inv b" "ewah_list b = [True, False, True]" using ewah_of_bits by metis
  then show ?thesis using rank_correct [of b 2 True] by auto
qed

text \<open>Selecting the \<open>i\<close>-th occurrence of a bit value yields its position, or \<open>npos\<close> if there are
  fewer occurrences.\<close>

theorem select_correct:
  assumes "ewah_inv b" and "0 < i" and "i \<noteq> npos"
  shows "bitmap_select bv ewah_ops b i =
    Some (if i \<le> length (positions bv (ewah_list b)) then positions bv (ewah_list b) ! (i - 1) else npos)"
  using ewah.select_spec [OF assms, of bv] assms(2) by (simp add: nth_or_npos_def)

theorem select_witness:
  "\<exists>b. ewah_list b = [False, True, False] \<and> bitmap_select True ewah_ops b 1 = Some 1"
proof -
  obtain b where b: "ewah_inv b" "ewah_list b = [False, True, False]" using ewah_of_bits by metis
  have "positions True [False, True, False] = [1]" by (simp add: positions_def)
  then show ?thesis using b select_correct [of b 1 True] by (auto simp: npos_def)
qed

text \<open>Selecting the last bit with \<open>npos\<close> yields the last 1-bit also when 0-bits are asked for.\<close>

theorem select_last_ignores_bit:
  assumes "ewah_inv b" and "length (ewah_list b) \<le> npos"
  shows "bitmap_select False ewah_ops b npos = bitmap_select True ewah_ops b npos \<and>
    bitmap_select False ewah_ops b npos = Some (last_or_npos (positions True (ewah_list b)))"
  using ewah.select_last_spec [OF assms] by simp_all

theorem select_last_witness:
  "\<exists>b. ewah_list b = [True, False] \<and> bitmap_select False ewah_ops b npos = Some 0"
proof -
  obtain b where b: "ewah_inv b" "ewah_list b = [True, False]" using ewah_of_bits by metis
  have "positions True [True, False] = [0]" by (simp add: positions_def)
  then show ?thesis using b select_last_ignores_bit [of b] by (auto simp: npos_def last_or_npos_def)
qed

text \<open>C36: \<open>select_range\<close> over a bitmap visits exactly the positions of the selected bit value, in
  ascending order, and ends.\<close>

theorem select_positions_correct:
  assumes "ewah_inv b" and "length (ewah_list b) < npos"
  shows "select_bitmap bv ewah_ops b \<bind> select_list bv = Some (positions bv (ewah_list b))"
  by (rule ewah.select_positions [OF assms])

theorem select_positions_witness:
  "\<exists>b. ewah_list b = [True, False, True] \<and> select_bitmap True ewah_ops b \<bind> select_list True = Some [0, 2]"
proof -
  obtain b where b: "ewah_inv b" "ewah_list b = [True, False, True]" using ewah_of_bits by metis
  have "positions True [True, False, True] = [0, 2]" by (simp add: positions_def upt_rec)
  then show ?thesis using b select_positions_correct [of b True] by (auto simp: npos_def)
qed

text \<open>\<open>select_runs\<close> partitions the positions of a bit value into maximal runs; on an empty bitmap it
  fails an assertion instead of yielding no run.\<close>

theorem select_runs_correct:
  assumes "ewah_inv b" and "length (ewah_list b) < npos"
  shows "if ewah_list b = [] then select_runs bv ewah_ops b = None
    else \<exists>rs. select_runs bv ewah_ops b = Some rs \<and> maximal_runs rs \<and> runs_of rs = positions bv (ewah_list b)"
  using ewah.select_runs_spec [OF assms, of bv] ewah.select_runs_empty [OF assms(1), of bv] by simp

theorem select_runs_witness:
  "select_runs True ewah_ops ewah_new = None \<and>
   (\<exists>b rs. ewah_list b = [True, True] \<and> select_runs True ewah_ops b = Some rs \<and> runs_of rs = [0, 1])"
proof -
  obtain b where b: "ewah_inv b" "ewah_list b = [True, True]" using ewah_of_bits by metis
  have "positions True [True, True] = [0, 1]" by (simp add: positions_def upt_rec)
  then show ?thesis
    using b select_runs_correct [of b True] select_runs_correct [of ewah_new True] by (auto simp: npos_def)
qed

text \<open>\<open>select_with\<close> applies the function, in order, to exactly the items whose range holds a 1-bit
  of the bitmap, each once, and stops at the first error that it returns.\<close>

theorem select_with_correct:
  assumes "ewah_inv b" and "length (ewah_list b) < npos" and "disjoint_sorted f items"
  shows "select_with ewah_ops b items f g s
    = Some (act_all g (filter (\<lambda>x. hit_from (ewah_list b) 0 (f x)) items) s)"
  by (rule ewah.select_with_spec [OF assms])

theorem select_with_witness:
  "\<exists>b. ewah_list b = [False, True] \<and>
    select_with ewah_ops b [(0, 1), (1, 2)] (\<lambda>x. x) (\<lambda>x s. (None :: nat option, s @ [x])) [] = Some (None, [(1, 2)])"
proof -
  obtain b where b: "ewah_inv b" "ewah_list b = [False, True]" using ewah_of_bits by metis
  have "disjoint_sorted (\<lambda>x. x) [(0, 1), (1, 2)]" by (simp add: disjoint_sorted_def)
  with b show ?thesis
    using select_with_correct [of b "\<lambda>x. x" "[(0, 1), (1, 2)]" "\<lambda>x s. (None :: nat option, s @ [x])" "[]"]
    by (auto simp: npos_def hit_from_def positions_def)
qed

text \<open>Moving a bitwise range forward by \<open>k\<close> bits reaches position \<open>p + k\<close>, or the end if there
  is none, across the boundaries of the bit sequences.\<close>

theorem bitwise_next_correct:
  assumes "br_inv xs r" and "br_pos r = Some p" and "0 < k"
  shows "\<exists>r'. br_next_k k r = Some r' \<and> br_inv xs r' \<and> br_pos r' = (if p + k < length xs then Some (p + k) else None)"
  by (rule br_next_k_spec [OF assms])

theorem bitwise_next_witness:
  "\<exists>r r'. br_inv (replicate 100 True) r \<and> br_next_k 99 r = Some r' \<and> br_pos r' = Some 99"
proof -
  let ?b = "\<lparr>bdata = - 1, bsize = 100\<rparr> :: bits"
  have list: "range_list [?b] = replicate 100 True" by (simp add: bits_list_def)
  have "range_ok [?b]" "range_nonempty [?b]" by (simp_all add: bits_inv_def)
  then have "br_inv (range_list [?b]) (br_new [?b])" "br_pos (br_new [?b]) = Some 0"
    using br_new_spec [of "[?b]"] unfolding list by (simp_all add: npos_def)
  then have "br_inv (replicate 100 True) (br_new [?b])" "br_pos (br_new [?b]) = Some 0"
    by (simp_all only: list)
  then show ?thesis using bitwise_next_correct [of "replicate 100 True" "br_new [?b]" 0 99] by auto
qed

text \<open>Appending to a WAH bitmap never fails an assertion, keeps the invariant (there is always an
  active word at the end, all others are literals or fills), and appends exactly the bits.\<close>

theorem wah_append_correct:
  assumes "wah_inv w"
  shows "(\<exists>w'. wah_append_bits x n w = Some w' \<and> wah_inv w' \<and> wah_list w' = wah_list w @ replicate n x)
    \<and> (0 < k \<and> k \<le> width \<longrightarrow>
      (\<exists>w'. wah_append_block v k w = Some w' \<and> wah_inv w' \<and> wah_list w' = wah_list w @ bits_of k v))"
  using wah.append_bits [OF assms, of x n] wah.append_block [OF assms, of k v] by simp_all

theorem wah_append_witness:
  "(\<exists>w. wah_append_bits True 1000 wah_new = Some w \<and> wah_list w = replicate 1000 True) \<and>
   (\<exists>w. wah_append_block 5 3 wah_new = Some w \<and> wah_list w = bits_of 3 5)"
  using wah_append_correct [of wah_new True 1000 3 5] by auto

text \<open>Iterating over a WAH bitmap yields the bits that were appended.\<close>

theorem wah_range_correct:
  assumes "wah_inv w"
  shows "\<exists>cs. wah_bit_range w = Some cs \<and> range_ok cs \<and> range_list cs = wah_list w"
  using wah.range_spec [OF assms] by simp

theorem wah_range_witness:
  "\<exists>w cs. wah_list w = [True, False] \<and> wah_bit_range w = Some cs \<and> range_list cs = [True, False]"
proof -
  obtain w where w: "wah_inv w" "wah_list w = [True, False]" using wah_of_bits by metis
  then show ?thesis using wah_range_correct [OF w(1)] by auto
qed

text \<open>The range of a WAH bitmap that holds a whole number of words ends with an empty sequence, on
  which the bitwise operations fail an assertion: the AND of the bitmap of 126 ones with itself
  does.\<close>

theorem wah_bitwise_panics:
  "\<exists>w. wah_make 126 True = Some w \<and> wah_inv w \<and> wah_list w = replicate 126 True
    \<and> binary_and wah_ops wah_ops wah_ops w w = None"
proof -
  have "\<exists>w. wah_make 126 True = Some w \<and> wah_inv w \<and> wah_list w = replicate 126 True"
    using wah.append_bits [of wah_new True 126] by (simp add: wah_make_def)
  then show ?thesis using two_fills_make two_fills_panic by auto
qed

text \<open>The range of an uncompressed bitmap merges a last partial block into a preceding run when bit
  number \<open>partial\<close> of both agrees, a bit that does not belong to the bitmap: 64 zeros followed by a
  one and a zero are reported as 66 zeros.\<close>

theorem null_range_drops_bit:
  "\<exists>b cs. null_make 64 False \<bind> null_append_block 1 2 = Some b \<and> bv_list b ! 64
    \<and> null_bit_range b = Some cs \<and> \<not> range_list cs ! 64"
proof -
  have "bv_list null_mixed ! 64" by (simp add: null_mixed_def bv_list_def nth_append bits_of_def)
  then show ?thesis using null_mixed_made null_mixed_range by (auto simp: bits_list_def)
qed

text \<open>An uncompressed bitmap of a whole number of blocks is iterated correctly.\<close>

theorem null_range_correct:
  assumes "bv_inv b" and "bv_size b mod width = 0"
  shows "\<exists>cs. null_bit_range b = Some cs \<and> range_ok cs \<and> range_nonempty cs \<and> range_list cs = bv_list b"
  by (rule null_bit_range_spec [OF assms])

theorem null_range_witness:
  "\<exists>cs. null_bit_range (bv_make 128 True) = Some cs \<and> range_list cs = replicate 128 True"
proof -
  have "bv_size (bv_make 128 True) mod width = 0" by (simp add: bv_make_def)
  from null_range_correct [OF bv_make_spec(1) this] show ?thesis by (metis bv_make_spec(2))
qed

text \<open>C37: \<open>make_ids\<close> sets exactly the IDs of the given ranges (in any order, overlapping or not), and
  pads the result to the minimum size with the default bit; it panics on an empty range.\<close>

theorem make_ids_correct:
  "((\<forall>(a, b) \<in> set rs. a < b) \<longrightarrow> (\<exists>s. make_ids rs n d = Some s \<and> ids_inv s
      \<and> length (any_list s) = max n (fold max (map snd rs) 0)
      \<and> (\<forall>i. bit_at (any_list s) i \<longleftrightarrow> in_ranges rs i \<or> d \<and> fold max (map snd rs) 0 \<le> i \<and> i < n)))
    \<and> ((\<exists>(a, b) \<in> set rs. b \<le> a) \<longrightarrow> make_ids rs n d = None)"
  using make_ids_spec [of rs n d] make_ids_loop_empty_range [of _ _ rs any_new] by (auto simp: make_ids_def)

theorem make_ids_witness:
  "(\<exists>s. make_ids [(20, 22), (10, 12)] 0 False = Some s \<and> bit_at (any_list s) 11 \<and> \<not> bit_at (any_list s) 12) \<and>
   make_ids_slice 7 0 = None"
proof
  have "\<forall>(a, b) \<in> set [(20, 22), (10, 12 :: nat)]. a < (b :: nat)" by simp
  from make_ids_correct [of "[(20, 22), (10, 12)]" 0 False] this obtain s where "make_ids [(20, 22), (10, 12)] 0 False = Some s"
    "\<forall>i. bit_at (any_list s) i \<longleftrightarrow> in_ranges [(20, 22), (10, 12)] i" by auto
  then show "\<exists>s. make_ids [(20, 22), (10, 12)] 0 False = Some s \<and> bit_at (any_list s) 11 \<and> \<not> bit_at (any_list s) 12"
    by auto
  show "make_ids_slice 7 0 = None" by (simp add: make_ids_slice_def make_ids_correct [of "[(7, 7)]"])
qed

text \<open>C38: a bitmap of any of the three types survives serialization: unpacking what was packed gives the
  same bitmap, whatever the target held; the only error is a missing union value, and it leaves the
  target unchanged.\<close>

theorem pack_unpack_correct:
  "any_unpack (any_pack b) to = Some (None, b) \<and>
    (any_unpack f to = Some (Some err, to') \<longrightarrow> f = Fbs_none \<and> to' = to)"
  using any_unpack_pack any_unpack_error by blast

theorem pack_unpack_witness:
  "any_unpack Fbs_none any_new = Some (Some (Logic_error ''invalid tenzir.fbs.Bitmap type''), any_new)"
proof -
  obtain err to' where "any_unpack Fbs_none any_new = Some (Some err, to')" by auto
  with pack_unpack_correct [of any_new any_new Fbs_none err to'] show ?thesis by auto
qed

text \<open>Resizing a bit vector keeps its first bits and fills up with copies of the given value,
  whatever the unused bits of the last block were.\<close>

theorem bv_resize_correct:
  assumes "bv_inv v"
  shows "\<exists>w. bv_resize n x v = Some w \<and> bv_inv w \<and> bv_list w = take n (bv_list v) @ replicate (n - bv_size v) x"
  by (rule bv_resize_spec [OF assms])

theorem bv_resize_witness:
  "\<exists>w. bv_resize 70 True bv_new = Some w \<and> bv_list w = replicate 70 True"
proof -
  have "bv_size bv_new = 0" by (simp add: bv_new_def)
  then show ?thesis using bv_resize_correct [OF bv_new_spec(1), of 70 True] by auto
qed

text \<open>The rank of a bit vector is the number of occurrences of the bit value; the unused bits of the
  last block do not count.\<close>

theorem bv_rank_correct:
  assumes "bv_inv v"
  shows "bv_rank x v = Some (count_list (bv_list v) x)"
  by (rule bv_rank_spec [OF assms])

theorem bv_rank_witness: "bv_rank False (bv_make 70 False) = Some 70"
  using bv_rank_correct [of "bv_make 70 False" False] by (simp add: bv_make_spec count_list_replicate)

text \<open>\<open>operator==\<close> decides equality of bit vectors whose size is not a multiple of the block size;
  for the others it ignores the last block: the vectors of 64 zeros and of 64 ones are equal.\<close>

theorem bv_equal_correct:
  "(bv_inv v \<and> bv_inv w \<and> bv_size v mod width \<noteq> 0 \<longrightarrow> (bv_equal v w \<longleftrightarrow> bv_list v = bv_list w))
    \<and> bv_equal (bv_make 64 False) (bv_make 64 True)"
  using bv_equal_partial by (intro conjI impI, blast, simp add: bv_equal_def bv_make_def bits_to_blocks_def partial_bits_def lsb_mask_eq)

theorem bv_equal_witness: "\<not> bv_equal (bv_make 3 True) (bv_make 3 False)"
proof -
  have "bv_size (bv_make 3 True) mod width \<noteq> 0" by (simp add: bv_make_def)
  with bv_equal_correct [of "bv_make 3 True" "bv_make 3 False"] show ?thesis
    by (simp add: bv_make_spec)
qed

text \<open>Forward and reverse iteration over a bit vector visits its bits in order and in reverse
  order.\<close>

theorem bv_iteration_correct:
  assumes "bv_inv v" and "bv_size v < npos"
  shows "bv_forward v = Some (bv_list v) \<and> bv_backward v = Some (rev (bv_list v))"
  using bv_forward_spec [OF assms(1)] bv_backward_spec [OF assms] assms(2) by simp_all

theorem bv_iteration_witness: "bv_forward (bv_make 70 True) = Some (replicate 70 True)"
proof -
  have "bv_size (bv_make 70 True) < npos" by (simp add: bv_make_def npos_def)
  from bv_iteration_correct [OF bv_make_spec(1) this] show ?thesis by (simp only: bv_make_spec(2))
qed

text \<open>Slicing a bit sequence, literal or run, yields exactly the requested bits and keeps the
  class invariant.\<close>

theorem bits_slice_correct:
  assumes "bits_inv b" and "off + n \<le> bsize b"
  shows "\<exists>c. bits_slice_length b off n = Some c \<and> bits_inv c \<and> bsize c = n \<and> bits_list c = take n (drop off (bits_list b))"
  by (rule bits_slice_length_spec [OF assms])

theorem bits_slice_witness:
  "\<exists>c. bits_slice_length \<lparr>bdata = - 1, bsize = 100\<rparr> 90 10 = Some c \<and> bits_list c = replicate 10 True"
proof -
  let ?b = "\<lparr>bdata = - 1, bsize = 100\<rparr> :: bits"
  have "bits_inv ?b" "90 + 10 \<le> bsize ?b" "bits_list ?b = replicate 100 True"
    by (simp_all add: bits_inv_def bits_list_def)
  then show ?thesis using bits_slice_correct [of ?b 90 10] by auto
qed

text \<open>\<open>select\<close> on a block finds the position of the \<open>i\<close>-th occurrence of a bit, \<open>npos\<close> if there
  is none.\<close>

theorem select_word_correct:
  assumes "0 < i"
  shows "select_word b x i = nth_or_npos (positions b (bits_of width x)) i"
  by (rule select_word_eq [OF assms])

theorem select_word_witness: "select_word True 0 1 = npos"
  using select_word_correct [of 1 True 0] by (simp add: bits_of_zero positions_replicate nth_or_npos_def)

section \<open>Containers\<close>

text \<open>C39: \<open>range_map::inject\<close> succeeds exactly if the new range overlaps no entry; it then maps the
  points of the range to the value and leaves all others alone, and the merging with touching entries
  of the same value keeps the entries sorted, disjoint and non-empty.\<close>

theorem range_map_inject_correct:
  assumes "rm_inv m" and "l < r"
  shows "\<exists>m'. rm_inject l r v m = Some (m', rm_free l r m) \<and> rm_inv m'
    \<and> (\<forall>p. rm_lookup p m' = (if rm_free l r m \<and> l \<le> p \<and> p < r then Some v else rm_lookup p m))"
  using rm_inject_spec [OF assms, of v] rm_lookup_spec assms(1) by metis

theorem range_map_inject_witness:
  "\<exists>m'. rm_inject 5 10 ''a'' [(0 :: nat, 5, ''a'')] = Some (m', True) \<and> rm_lookup 7 m' = Some ''a''"
proof -
  have "rm_inv [(0 :: nat, 5, ''a'')]" "rm_free 5 10 [(0 :: nat, 5, ''a'')]" by (simp_all add: rm_inv_Cons rm_free_def)
  then show ?thesis using range_map_inject_correct [of "[(0 :: nat, 5, ''a'')]" 5 10 "''a''"] by auto
qed

text \<open>\<open>range_map::erase(l, r)\<close> returns and removes exactly the points of \<open>[l, r)\<close>, cutting the
  entries at both ends, provided no entry starts at \<open>l\<close> and reaches beyond \<open>r\<close>, and none with \<open>l\<close> in
  its interior ends at \<open>r\<close>.\<close>

theorem range_map_erase_correct:
  assumes "rm_inv m" and "l \<le> r" and "rm_erasable l r m"
  shows "\<exists>m'. rm_erase l r m = Some m' \<and> rm_inv m'
    \<and> (\<forall>p. rm_lookup p m' = (if l \<le> p \<and> p < r then None else rm_lookup p m))"
  using rm_erase_spec [OF assms] rm_lookup_spec assms(1) by metis

theorem range_map_erase_witness:
  "\<exists>m'. rm_erase 4 6 [(0 :: nat, 10, ''a'')] = Some m' \<and> rm_lookup 5 m' = None \<and> rm_lookup 6 m' = Some ''a''"
proof -
  let ?m = "[(0 :: nat, 10, ''a'')]"
  have inv: "rm_inv ?m" "rm_erasable 4 6 ?m" by (simp_all add: rm_inv_Cons rm_erasable_def)
  have "rm_lookup 6 ?m = Some ''a''" using rm_lookup_spec [OF inv(1), of 6] by simp
  then show ?thesis using range_map_erase_correct [OF inv(1) _ inv(2)] by fastforce
qed

text \<open>In the two excluded cases \<open>erase\<close> is wrong: erasing the rest of an entry from an inner point
  on fails the assertion of \<open>inject\<close>; erasing a proper prefix of an entry leaves an empty range behind
  and the first point still mapped.\<close>

theorem range_map_erase_defects:
  "(rm_inv (zs @ (a, r, v) # ys) \<and> a < l \<and> l < r \<longrightarrow> rm_erase l r (zs @ (a, r, v) # ys) = None)
    \<and> (\<exists>m'. rm_erase 0 5 [(0 :: nat, 10, w)] = Some m' \<and> \<not> rm_inv m' \<and> rm_lookup 0 m' = Some w)"
  using rm_erase_suffix_panics [of zs a r v ys l] rm_erase_prefix_stale(2,3) [of w] by (auto simp: rm_inv_Cons)

theorem range_map_defects_witness: "rm_erase 5 10 [(0 :: nat, 10, ''a'')] = None"
  using range_map_erase_defects [of "[]" "0 :: nat" 10 "''a''" "[]" 5 "''a''"] by (simp add: rm_inv_Cons)

text \<open>A flat map is a partial function: \<open>at\<close> reads it, assignment through \<open>operator[]\<close> updates it,
  \<open>erase\<close> removes a key and reports whether it was there, and insertion does not overwrite; all keep
  the keys distinct and in ascending order.\<close>

theorem flat_map_correct:
  fixes xs :: "('k::linorder \<times> 'v) list"
  assumes "flat_ok fst xs"
  shows "vm_at (flat_map_policy (<)) xs k = map_of xs k
    \<and> (flat_ok fst (vm_assign (flat_map_policy (<)) d xs k v)
      \<and> map_of (vm_assign (flat_map_policy (<)) d xs k v) = (map_of xs)(k \<mapsto> v))
    \<and> (\<exists>ys. vm_erase (flat_map_policy (<)) xs k = (ys, vm_count (flat_map_policy (<)) xs k)
      \<and> flat_ok fst ys \<and> map_of ys = (map_of xs)(k := None))
    \<and> flat_ok fst (vm_insert_range (flat_map_policy (<)) xs ys)
      \<and> map_of (vm_insert_range (flat_map_policy (<)) xs ys) = map_of ys ++ map_of xs"
  using assms by (intro conjI flat_map.at_spec flat_map.assign_spec flat_map.erase_spec flat_map.insert_range_spec)

theorem flat_map_witness:
  "vm_at (flat_map_policy (<)) [(1 :: nat, ''a''), (3, ''b'')] 3 = Some ''b'' \<and>
   map_of (vm_assign (flat_map_policy (<)) ''x'' [(1 :: nat, ''a''), (3, ''b'')] 2 ''c'') 2 = Some ''c''"
proof -
  have "flat_ok fst [(1 :: nat, ''a''), (3, ''b'')]" by (simp add: flat_ok_def)
  note vm = flat_map_correct [OF this]
  show ?thesis using vm [of 3 "''x''"] vm [of 2 "''x''" "''c''"] by simp
qed

text \<open>A stable map, which keeps the insertion order, has the same contract.\<close>

theorem stable_map_correct:
  assumes "stable_ok fst xs"
  shows "vm_at stable_map_policy xs k = map_of xs k
    \<and> (stable_ok fst (vm_assign stable_map_policy d xs k v)
      \<and> map_of (vm_assign stable_map_policy d xs k v) = (map_of xs)(k \<mapsto> v))
    \<and> (\<exists>ys. vm_erase stable_map_policy xs k = (ys, vm_count stable_map_policy xs k)
      \<and> stable_ok fst ys \<and> map_of ys = (map_of xs)(k := None))"
  using assms by (intro conjI stable_map.at_spec stable_map.assign_spec stable_map.erase_spec)

theorem stable_map_witness: "vm_at stable_map_policy [(3 :: nat, ''b''), (1, ''a'')] 1 = Some ''a''"
proof -
  have "stable_ok fst [(3 :: nat, ''b''), (1, ''a'')]" by (simp add: stable_ok_def)
  from stable_map_correct [OF this] show ?thesis by simp
qed

text \<open>A flat set is the sorted list of its elements; insertion, membership and erasure are those of
  sets, although \<open>erase\<close> removes only one element after \<open>std::remove\<close>.\<close>

theorem flat_set_correct:
  fixes xs :: "'a::linorder list"
  assumes "flat_ok (\<lambda>x. x) xs"
  shows "(\<exists>i. vs_insert (flat_set_policy (<)) xs x = (sorted_list_of_set (insert x (set xs)), i, x \<notin> set xs))
    \<and> (vs_contains (flat_set_policy (<)) xs x \<longleftrightarrow> x \<in> set xs)
    \<and> vs_erase xs x = (sorted_list_of_set (set xs - {x}), if x \<in> set xs then 1 else 0)"
  using flat_set.set_insert_spec [OF assms, of x] flat_set.set_contains_spec [OF assms, of x]
    flat_set.set_erase_spec [OF assms, of x] flat_set_canonical
  by metis

theorem flat_set_witness:
  "vs_erase [1 :: nat, 2, 5] 2 = ([1, 5], 1) \<and> vs_contains (flat_set_policy (<)) [1 :: nat, 2, 5] 5"
proof -
  have ok: "flat_ok (\<lambda>x. x) [1 :: nat, 2, 5]" by (simp add: flat_ok_def)
  have "{Suc 0, 2, 5} - {2} = {1, 5 :: nat}" by auto
  then have "vs_erase [1 :: nat, 2, 5] 2 = ([1, 5], 1)" using flat_set_correct [OF ok, of 2] by simp
  then show ?thesis using flat_set_correct [OF ok, of 5] by simp
qed

text \<open>C40: the LRU cache, for keys that a move does not change and a positive maximum size: a lookup
  returns the cached value or loads it, moves the entry to the front, evicts only the least recently
  used entry, and keeps the list and the hash map in agreement.\<close>

theorem lru_get_correct:
  assumes "lru_inv c" and "moved k = k" and "0 < lru_max c"
  shows "\<exists>v c'. lru_get_or_load moved f k c = (Some v, c') \<and> lru_inv c' \<and> lru_max c' = lru_max c
    \<and> v = (case map_of (lru_entries c) k of Some v \<Rightarrow> v | None \<Rightarrow> f k)
    \<and> lru_entries c' = take (lru_max c) ((k, v) # without k (lru_entries c))"
  by (rule lru_get_spec [of c moved k f, OF assms])

theorem lru_get_witness:
  "\<exists>c. lru_get_or_load (\<lambda>k. k) Suc 7 (lru_new 2) = (Some 8, c) \<and> lru_entries c = [(7, 8)]"
proof -
  have size: "lru_max (lru_new 2 :: (nat, nat) lru) = 2" by (simp add: lru_new_def)
  then have "0 < lru_max (lru_new 2 :: (nat, nat) lru)" by simp
  from lru_get_correct [of "lru_new 2" "\<lambda>k. k" 7 Suc, OF lru_new_inv(1) refl this]
  show ?thesis by (auto simp: without_def size)
qed

text \<open>\<open>lru_cache::put\<close> reads its key after moving it: for a key type that a move changes, a new
  entry is filed under the moved-from key and not found under its own; for a maximum size of zero the
  returned reference dangles.\<close>

theorem lru_put_defects:
  "(0 < n \<longrightarrow> (lru_contains q (snd (lru_put (\<lambda>_. m) k v (lru_new n))) \<longleftrightarrow> q = m))
    \<and> fst (lru_put moved k v (lru_new 0)) = None"
  using lru_put_moved_key [of n q m k v] lru_put_zero [of moved k v] by blast

theorem lru_put_defects_witness:
  "\<not> lru_contains ''key'' (snd (lru_put (\<lambda>_. []) ''key'' (1 :: nat) (lru_new 2)))"
  using lru_put_defects [of 2 "''key''" "[]" "''key''" "1 :: nat"] by simp

text \<open>The vector-based LRU cache returns an element for the key at its back, reorders its elements
  when the key is cached, and otherwise adds the new element and drops the front one when it is
  full.\<close>

theorem flat_lru_correct:
  assumes "flat_inv c" and "0 < fl_size c" and "pred k (f k)"
  shows "\<exists>x c'. flat_get_or_add pred f k c = Some (x, c') \<and> flat_inv c' \<and> fl_size c' = fl_size c
    \<and> pred k x \<and> last (fl_elements c') = x \<and> fl_elements c' \<noteq> []
    \<and> (if flat_contains pred k c then mset (fl_elements c') = mset (fl_elements c)
       else x = f k \<and> fl_elements c' = drop (length (fl_elements c) + 1 - fl_size c) (fl_elements c @ [x]))"
  by (rule flat_get_spec [of c pred k f, OF assms])

theorem flat_lru_witness:
  "\<exists>c. flat_get_or_add (=) (\<lambda>k. k) 3 \<lparr>fl_elements = [1 :: nat, 2], fl_size = 2\<rparr> = Some (3, c) \<and> fl_elements c = [2, 3]"
  using flat_lru_correct [of "\<lparr>fl_elements = [1 :: nat, 2], fl_size = 2\<rparr>" "(=)" 3 "\<lambda>k. k"]
  by (auto simp: flat_inv_def flat_contains_spec)

end
