(* ===== verification/Ip_Subnet.thy ===== *)
theory Ip_Subnet
  imports Prelude
begin

text \<open>
  IP addresses and subnets (\<open>ip.hpp\<close>, \<open>ip.cpp\<close>, \<open>subnet.hpp\<close>, \<open>subnet.cpp\<close>). An address is an array
  of 16 bytes in network byte order, an IPv4 address the one with the v4-mapped prefix. The reference
  semantics reads an address as a list of 128 bits, most significant first: masking keeps a prefix of
  it, comparison compares prefixes, and a subnet denotes the addresses that share its prefix.

  The words that \<open>mask\<close> combines with the bytes through a reinterpreted pointer are converted to
  network order before, so their effect on the bytes does not depend on the endianness of the host;
  it is written here as the bytes of the words, most significant first.
\<close>

type_synonym byte = "8 word"
type_synonym ip = "byte list"

section \<open>Addresses\<close>

definition v4_mapped_prefix :: "byte list" where
  "v4_mapped_prefix = replicate 10 0 @ [0xff, 0xff]"

definition ip_v4 :: "byte list \<Rightarrow> ip" where
  "ip_v4 bytes = v4_mapped_prefix @ bytes"

definition ip_zero :: ip where
  "ip_zero = replicate 16 0"

definition is_v4 :: "ip \<Rightarrow> bool" where
  "is_v4 x \<longleftrightarrow> take 12 x = v4_mapped_prefix"

definition is_v6 :: "ip \<Rightarrow> bool" where
  "is_v6 x \<longleftrightarrow> \<not> is_v4 x"

definition is_loopback :: "ip \<Rightarrow> bool" where
  "is_loopback x \<longleftrightarrow> (if is_v4 x then x ! 12 = 127 else x = replicate 15 0 @ [1])"

definition is_broadcast :: "ip \<Rightarrow> bool" where
  "is_broadcast x \<longleftrightarrow> is_v4 x \<and> x ! 12 = 0xff \<and> x ! 13 = 0xff \<and> x ! 14 = 0xff \<and> x ! 15 = 0xff"

definition is_multicast :: "ip \<Rightarrow> bool" where
  "is_multicast x \<longleftrightarrow> (if is_v4 x then x ! 12 = 224 else x ! 0 = 0xff)"

definition bitmask32 :: "nat \<Rightarrow> 32 word" where
  "bitmask32 bottom_bits = (if bottom_bits \<ge> 32 then 0xffffffff else push_bit bottom_bits 1 - 1)"

definition network_bytes :: "32 word \<Rightarrow> byte list" where
  "network_bytes w = map (\<lambda>j. ucast (drop_bit (24 - 8 * j) w)) [0..<4]"

definition ip_mask :: "nat \<Rightarrow> ip \<Rightarrow> ip \<times> bool" where
  "ip_mask top_bits_to_keep x =
    (if top_bits_to_keep > 128 then (x, False)
     else
       let quot = top_bits_to_keep div 32;
           rem = top_bits_to_keep mod 32;
           m = replicate 4 (0xffffffff :: 32 word);
           m = (if quot < 4 then m[quot := m ! quot AND NOT (bitmask32 (32 - rem))] else m);
           m = map (\<lambda>i. if quot < i then 0 else m ! i) [0..<4]
       in (map2 (AND) x (concat (map network_bytes m)), True))"

definition ip_and :: "ip \<Rightarrow> ip \<Rightarrow> ip" where
  "ip_and x y = map2 (AND) x y"

definition ip_or :: "ip \<Rightarrow> ip \<Rightarrow> ip" where
  "ip_or x y = map2 (OR) x y"

definition ip_xor :: "ip \<Rightarrow> ip \<Rightarrow> ip" where
  "ip_xor x y =
    (if is_v4 x \<or> is_v4 y then take 12 x @ map2 (XOR) (drop 12 x) (drop 12 y)
     else map2 (XOR) x y)"

text \<open>The loop of \<open>compare\<close> walks both addresses while more than a byte is left to compare.\<close>

definition msb_fill8 :: "nat \<Rightarrow> byte" where
  "msb_fill8 i = push_bit (8 - i) (NOT 0)"

function ip_compare_loop :: "nat \<Rightarrow> byte list \<Rightarrow> byte list \<Rightarrow> bool option" where
  "ip_compare_loop k xs ys =
    (case (xs, ys) of
       (x # xs, y # ys) \<Rightarrow>
         if k > 8 then (if x \<noteq> y then Some False else ip_compare_loop (k - 8) xs ys)
         else Some (x AND msb_fill8 k = y AND msb_fill8 k)
     | _ \<Rightarrow> None)"
  by pat_completeness auto
termination by (relation "measure fst") auto

declare ip_compare_loop.simps [simp del]

definition ip_compare :: "ip \<Rightarrow> ip \<Rightarrow> nat \<Rightarrow> bool option" where
  "ip_compare x y k = do {
     require (k \<le> 128);
     if k = 0 then Some True else ip_compare_loop k x y
   }"

text \<open>Arrays of bytes are compared lexicographically.\<close>

fun bytes_less :: "byte list \<Rightarrow> byte list \<Rightarrow> bool" where
  "bytes_less xs [] = False"
| "bytes_less [] (y # ys) = True"
| "bytes_less (x # xs) (y # ys) = (x < y \<or> x = y \<and> bytes_less xs ys)"

definition ip_less :: "ip \<Rightarrow> ip \<Rightarrow> bool" where
  "ip_less x y = bytes_less x y"

section \<open>Subnets\<close>

record subnet =
  sn_network :: ip
  sn_length :: nat

definition subnet_new :: subnet where
  "subnet_new = \<lparr>sn_network = ip_zero, sn_length = 0\<rparr>"

definition subnet_initialize :: "subnet \<Rightarrow> subnet \<times> bool" where
  "subnet_initialize s =
    (if sn_length s > 128 then (s, False)
     else (s\<lparr>sn_network := fst (ip_mask (sn_length s) (sn_network s))\<rparr>, True))"

definition subnet_make :: "ip \<Rightarrow> nat \<Rightarrow> subnet" where
  "subnet_make addr n =
    (let (s, ok) = subnet_initialize \<lparr>sn_network = addr, sn_length = n\<rparr>
     in if \<not> ok then s\<lparr>sn_network := ip_zero, sn_length := 0\<rparr> else s)"

definition subnet_contains_ip :: "subnet \<Rightarrow> ip \<Rightarrow> bool option" where
  "subnet_contains_ip s addr = ip_compare addr (sn_network s) (sn_length s)"

definition subnet_contains_subnet :: "subnet \<Rightarrow> subnet \<Rightarrow> bool option" where
  "subnet_contains_subnet s other =
    (if sn_length s \<le> sn_length other then subnet_contains_ip s (sn_network other) else Some False)"

definition subnet_less :: "subnet \<Rightarrow> subnet \<Rightarrow> bool" where
  "subnet_less x y \<longleftrightarrow> ip_less (sn_network x) (sn_network y)
    \<or> \<not> ip_less (sn_network y) (sn_network x) \<and> sn_length x < sn_length y"

section \<open>Addresses as bit sequences\<close>

definition byte_bits :: "byte \<Rightarrow> bool list" where
  "byte_bits b = map (\<lambda>i. bit b (7 - i)) [0..<8]"

definition ip_bits :: "byte list \<Rightarrow> bool list" where
  "ip_bits x = concat (map byte_bits x)"

lemma length_byte_bits [simp]: "length (byte_bits b) = 8"
  by (simp add: byte_bits_def)

lemma length_ip_bits [simp]: "length (ip_bits x) = 8 * length x"
  by (induction x) (simp_all add: ip_bits_def)

lemma nth_byte_bits [simp]: "i < 8 \<Longrightarrow> byte_bits b ! i = bit b (7 - i)"
  by (simp add: byte_bits_def)

lemma ip_bits_Cons [simp]: "ip_bits (b # x) = byte_bits b @ ip_bits x"
  by (simp add: ip_bits_def)

lemma ip_bits_Nil [simp]: "ip_bits [] = []"
  by (simp add: ip_bits_def)

lemma nth_ip_bits: "i < 8 * length x \<Longrightarrow> ip_bits x ! i = bit (x ! (i div 8)) (7 - i mod 8)"
proof (induction x arbitrary: i)
  case (Cons b x)
  show ?case
  proof (cases "i < 8")
    case True
    then show ?thesis by (simp add: nth_append)
  next
    case False
    then have "i div 8 = Suc ((i - 8) div 8)" "i mod 8 = (i - 8) mod 8" by (simp_all add: le_div_geq le_mod_geq)
    then show ?thesis using False Cons by (simp add: nth_append)
  qed
qed simp

lemma byte_bits_inject: "byte_bits a = byte_bits b \<longleftrightarrow> a = b"
proof
  assume eq: "byte_bits a = byte_bits b"
  show "a = b"
  proof (rule bit_word_eqI)
    fix n
    assume "n < LENGTH(8)"
    then show "bit a n = bit b n"
      using arg_cong [OF eq, of "\<lambda>l. l ! (7 - n)"] by simp
  qed
qed simp

lemma ip_bits_inject: "length x = length y \<Longrightarrow> ip_bits x = ip_bits y \<longleftrightarrow> x = y"
  by (induction x y rule: list_induct2) (auto simp: byte_bits_inject)

section \<open>Masking\<close>

lemma ffffffff_eq: "(0xffffffff :: 32 word) = mask 32"
  by (simp add: mask_eq_exp_minus_1)

lemma bit_bitmask32: "bit (bitmask32 n) i \<longleftrightarrow> i < n \<and> i < 32"
proof (cases "n < 32")
  case True
  then have "bitmask32 n = mask n" by (simp add: bitmask32_def mask_eq_exp_minus_1 push_bit_eq_mult)
  then show ?thesis using True by (auto simp: bit_mask_iff)
next
  case False
  then show ?thesis by (auto simp: bitmask32_def ffffffff_eq bit_mask_iff)
qed

lemma length_network_bytes [simp]: "length (network_bytes w) = 4"
  by (simp add: network_bytes_def)

lemma nth_concat_blocks:
  "\<forall>b \<in> set bs. length b = n \<Longrightarrow> 0 < n \<Longrightarrow> i < n * length bs \<Longrightarrow> concat bs ! i = bs ! (i div n) ! (i mod n)"
proof (induction bs arbitrary: i)
  case (Cons b bs)
  then show ?case
    by (cases "i < n") (auto simp: nth_append le_div_geq le_mod_geq)
qed simp

lemma bit_network_bytes: "j < 4 \<Longrightarrow> l < 8 \<Longrightarrow> bit (network_bytes w ! j) l \<longleftrightarrow> bit w (24 - 8 * j + l)"
  by (auto simp: network_bytes_def bit_simps)

lemma length_concat_network [simp]: "length (concat (map network_bytes ms)) = 4 * length ms"
  by (induction ms) simp_all

lemma bit_concat_network:
  assumes "i < 32 * length ms"
  shows "bit (concat (map network_bytes ms) ! (i div 8)) (7 - i mod 8) \<longleftrightarrow> bit (ms ! (i div 32)) (31 - i mod 32)"
proof -
  have eq: "i div 8 div 4 = i div 32" using div_mult2_eq [of i 8 4] by simp
  have "i mod 32 = 8 * (i div 8 mod 4) + i mod 8" using mod_mult2_eq [of i 8 4] by simp
  moreover have "i mod 8 < 8" "i div 8 mod 4 < 4" by simp_all
  ultimately have pos: "24 - 8 * (i div 8 mod 4) + (7 - i mod 8) = 31 - i mod 32" by linarith
  have "concat (map network_bytes ms) ! (i div 8) = map network_bytes ms ! (i div 8 div 4) ! (i div 8 mod 4)"
    using assms by (intro nth_concat_blocks) (auto simp: less_mult_imp_div_less)
  also have "\<dots> = network_bytes (ms ! (i div 32)) ! (i div 8 mod 4)"
    unfolding eq using assms by (intro arg_cong2 [of _ _ _ _ nth] nth_map) (auto simp: less_mult_imp_div_less)
  finally show ?thesis using bit_network_bytes [of "i div 8 mod 4" "7 - i mod 8" "ms ! (i div 32)"] pos by simp
qed

definition mask_words :: "nat \<Rightarrow> 32 word list" where
  "mask_words k = (let m = replicate 4 0xffffffff;
      m = (if k div 32 < 4 then m[k div 32 := m ! (k div 32) AND NOT (bitmask32 (32 - k mod 32))] else m)
    in map (\<lambda>i. if k div 32 < i then 0 else m ! i) [0..<4])"

lemma length_mask_words [simp]: "length (mask_words k) = 4"
  by (simp add: mask_words_def Let_def)

lemma bit_mask_words:
  assumes "i < 128"
  shows "bit (mask_words k ! (i div 32)) (31 - i mod 32) \<longleftrightarrow> i < k"
proof -
  define q where "q = i div 32"
  have q: "q < 4" using assms by (simp add: q_def)
  have "bit (mask_words k ! q) (31 - i mod 32) \<longleftrightarrow> q < k div 32 \<or> q = k div 32 \<and> 32 - k mod 32 \<le> 31 - i mod 32"
    using q by (auto simp: mask_words_def Let_def nth_list_update ffffffff_eq bit_mask_iff bit_bitmask32 bit_and_iff bit_not_iff)
  also have "\<dots> \<longleftrightarrow> i < k"
  proof -
    have "i = 32 * q + i mod 32" "k = 32 * (k div 32) + k mod 32" "i mod 32 < 32" "k mod 32 < 32"
      by (simp_all add: q_def)
    then show ?thesis by (cases q "k div 32" rule: linorder_cases) linarith+
  qed
  finally show ?thesis by (simp add: q_def)
qed

lemma ip_mask_eq: "k \<le> 128 \<Longrightarrow> fst (ip_mask k x) = map2 (AND) x (concat (map network_bytes (mask_words k)))"
  unfolding ip_mask_def mask_words_def Let_def by (simp only: if_False linorder_not_less [symmetric] fst_conv not_not)

lemma length_ip_mask [simp]: "length x = 16 \<Longrightarrow> length (fst (ip_mask k x)) = 16"
  by (cases "k \<le> 128") (simp_all add: ip_mask_eq, simp add: ip_mask_def)

lemma ip_mask_bit:
  assumes "length x = 16" and "k \<le> 128" and "i < 128"
  shows "ip_bits (fst (ip_mask k x)) ! i \<longleftrightarrow> i < k \<and> ip_bits x ! i"
proof -
  have len: "length (fst (ip_mask k x)) = 16" using assms(1) by simp
  have "ip_bits (fst (ip_mask k x)) ! i = bit (fst (ip_mask k x) ! (i div 8)) (7 - i mod 8)"
    using assms(3) len by (intro nth_ip_bits) simp
  also have "fst (ip_mask k x) ! (i div 8) = x ! (i div 8) AND concat (map network_bytes (mask_words k)) ! (i div 8)"
    using assms by (simp add: ip_mask_eq)
  finally show ?thesis
    using assms bit_concat_network [of i "mask_words k"] bit_mask_words [of i k] nth_ip_bits [of i x]
    by (auto simp: bit_and_iff)
qed

lemma ip_mask_spec:
  assumes "length x = 16" and "k \<le> 128"
  shows "ip_bits (fst (ip_mask k x)) = take k (ip_bits x) @ replicate (128 - k) False"
  using assms by (intro nth_equalityI) (auto simp: ip_mask_bit nth_append)

section \<open>Comparison of prefixes\<close>

lemma bit_msb_fill8: "bit (msb_fill8 k) i \<longleftrightarrow> 8 - k \<le> i \<and> i < 8"
  by (auto simp: msb_fill8_def bit_push_bit_iff bit_not_iff bit_mask_iff)

lemma take_byte_bits:
  assumes "k \<le> 8"
  shows "x AND msb_fill8 k = y AND msb_fill8 k \<longleftrightarrow> take k (byte_bits x) = take k (byte_bits y)"
proof
  assume eq: "x AND msb_fill8 k = y AND msb_fill8 k"
  show "take k (byte_bits x) = take k (byte_bits y)"
  proof (rule nth_equalityI)
    fix i
    assume "i < length (take k (byte_bits x))"
    then have i: "i < k" "i < 8" by simp_all
    then have "8 - k \<le> 7 - i" "7 - i < 8" by linarith+
    then have "bit (msb_fill8 k) (7 - i)" unfolding bit_msb_fill8 by blast
    then show "take k (byte_bits x) ! i = take k (byte_bits y) ! i"
      using i arg_cong [OF eq, of "\<lambda>w. bit w (7 - i)"] by (simp add: bit_and_iff)
  qed simp
next
  assume eq: "take k (byte_bits x) = take k (byte_bits y)"
  show "x AND msb_fill8 k = y AND msb_fill8 k"
  proof (rule bit_word_eqI)
    fix n
    assume n: "n < LENGTH(8)"
    show "bit (x AND msb_fill8 k) n = bit (y AND msb_fill8 k) n"
    proof (cases "8 - k \<le> n")
      case True
      have "7 - (7 - n) = n" using n by simp
      then show ?thesis using arg_cong [OF eq, of "\<lambda>l. l ! (7 - n)"] n True assms
        by (simp add: bit_and_iff)
    next
      case False
      then show ?thesis by (simp add: bit_and_iff bit_msb_fill8)
    qed
  qed
qed

lemma ip_compare_loop_spec:
  "length xs = length ys \<Longrightarrow> 0 < k \<Longrightarrow> k \<le> 8 * length xs \<Longrightarrow>
    ip_compare_loop k xs ys = Some (take k (ip_bits xs) = take k (ip_bits ys))"
proof (induction xs ys arbitrary: k rule: list_induct2)
  case (Cons x xs y ys)
  show ?case
  proof (cases "8 < k")
    case True
    have "take k (ip_bits (x # xs)) = byte_bits x @ take (k - 8) (ip_bits xs)"
      "take k (ip_bits (y # ys)) = byte_bits y @ take (k - 8) (ip_bits ys)" using True by simp_all
    moreover have "ip_compare_loop (k - 8) xs ys = Some (take (k - 8) (ip_bits xs) = take (k - 8) (ip_bits ys))"
      using Cons True by simp
    ultimately show ?thesis using True by (subst ip_compare_loop.simps) (simp add: byte_bits_inject)
  next
    case False
    then show ?thesis by (subst ip_compare_loop.simps) (simp add: take_byte_bits)
  qed
qed simp

lemma ip_compare_spec:
  assumes "length x = 16" and "length y = 16" and "k \<le> 128"
  shows "ip_compare x y k = Some (take k (ip_bits x) = take k (ip_bits y))"
  using assms ip_compare_loop_spec [of x y k] by (simp add: ip_compare_def)

section \<open>The addresses of a subnet\<close>

definition subnet_ok :: "subnet \<Rightarrow> bool" where
  "subnet_ok s \<longleftrightarrow> length (sn_network s) = 16 \<and> sn_length s \<le> 128
    \<and> drop (sn_length s) (ip_bits (sn_network s)) = replicate (128 - sn_length s) False"

definition subnet_hosts :: "subnet \<Rightarrow> ip set" where
  "subnet_hosts s = {x. length x = 16 \<and> take (sn_length s) (ip_bits x) = take (sn_length s) (ip_bits (sn_network s))}"

lemma subnet_make_ok:
  assumes "length x = 16"
  shows "subnet_ok (subnet_make x n)"
    and "n \<le> 128 \<Longrightarrow> sn_length (subnet_make x n) = n
      \<and> subnet_hosts (subnet_make x n) = {y. length y = 16 \<and> take n (ip_bits y) = take n (ip_bits x)}"
proof -
  have zero: "ip_bits ip_zero = replicate 128 False"
    by (rule nth_equalityI) (auto simp: ip_zero_def nth_ip_bits)
  show "subnet_ok (subnet_make x n)"
  proof (cases "n \<le> 128")
    case True
    then show ?thesis using assms ip_mask_spec [OF assms True]
      by (simp add: subnet_make_def subnet_initialize_def subnet_ok_def)
  next
    case False
    have "length ip_zero = 16" by (simp add: ip_zero_def)
    then show ?thesis using False zero by (simp add: subnet_make_def subnet_initialize_def subnet_ok_def)
  qed
  show "sn_length (subnet_make x n) = n
      \<and> subnet_hosts (subnet_make x n) = {y. length y = 16 \<and> take n (ip_bits y) = take n (ip_bits x)}" if "n \<le> 128"
    using that assms ip_mask_spec [OF assms that] by (simp add: subnet_make_def subnet_initialize_def subnet_hosts_def)
qed

lemma subnet_contains_ip_spec:
  assumes "subnet_ok s" and "length x = 16"
  shows "subnet_contains_ip s x = Some (x \<in> subnet_hosts s)"
  using assms ip_compare_spec [of x "sn_network s" "sn_length s"]
  by (simp add: subnet_contains_ip_def subnet_ok_def subnet_hosts_def)

lemma network_in_hosts: "subnet_ok s \<Longrightarrow> sn_network s \<in> subnet_hosts s"
  by (simp add: subnet_ok_def subnet_hosts_def)

text \<open>The last address of a subnet sets all bits after the prefix.\<close>

definition last_host :: "subnet \<Rightarrow> ip" where
  "last_host s = map2 (\<lambda>b m. b OR NOT m) (sn_network s) (concat (map network_bytes (mask_words (sn_length s))))"

lemma last_host_bits:
  assumes "subnet_ok s" and "i < 128"
  shows "ip_bits (last_host s) ! i \<longleftrightarrow> sn_length s \<le> i \<or> ip_bits (sn_network s) ! i"
proof -
  have len: "length (sn_network s) = 16" "length (last_host s) = 16"
    using assms by (simp_all add: subnet_ok_def last_host_def)
  have "ip_bits (last_host s) ! i = bit (last_host s ! (i div 8)) (7 - i mod 8)"
    using assms(2) len by (intro nth_ip_bits) simp
  also have "last_host s ! (i div 8)
      = sn_network s ! (i div 8) OR NOT (concat (map network_bytes (mask_words (sn_length s))) ! (i div 8))"
    using assms(2) len by (simp add: last_host_def)
  finally show ?thesis
    using assms len bit_concat_network [of i "mask_words (sn_length s)"] bit_mask_words [of i "sn_length s"]
      nth_ip_bits [of i "sn_network s"]
    by (auto simp: bit_or_iff bit_not_iff)
qed

lemma last_host_in_hosts:
  assumes "subnet_ok s"
  shows "last_host s \<in> subnet_hosts s"
proof -
  have len: "length (sn_network s) = 16" "length (last_host s) = 16" "sn_length s \<le> 128"
    using assms by (simp_all add: subnet_ok_def last_host_def)
  then have "take (sn_length s) (ip_bits (last_host s)) = take (sn_length s) (ip_bits (sn_network s))"
    using assms last_host_bits [OF assms] by (intro nth_equalityI) auto
  then show ?thesis using len by (simp add: subnet_hosts_def)
qed

lemma hosts_subset_length:
  assumes "subnet_ok s" and "subnet_ok t" and sub: "subnet_hosts t \<subseteq> subnet_hosts s"
  shows "sn_length s \<le> sn_length t"
proof (rule ccontr)
  assume "\<not> ?thesis"
  then have lt: "sn_length t < sn_length s" by simp
  then have i: "sn_length t < 128" using assms(1) by (simp add: subnet_ok_def)
  have same: "ip_bits x ! sn_length t = ip_bits (sn_network s) ! sn_length t" if "x \<in> subnet_hosts t" for x
  proof -
    have "take (sn_length s) (ip_bits x) = take (sn_length s) (ip_bits (sn_network s))"
      using sub that by (auto simp: subnet_hosts_def)
    then show ?thesis using lt by (metis nth_take)
  qed
  have "ip_bits (sn_network t) ! sn_length t = drop (sn_length t) (ip_bits (sn_network t)) ! 0"
    using assms(2) i by (subst nth_drop) (simp_all add: subnet_ok_def)
  also have "drop (sn_length t) (ip_bits (sn_network t)) ! 0 = False"
    using assms(2) i unfolding subnet_ok_def by simp
  finally have "\<not> ip_bits (sn_network t) ! sn_length t" by simp
  moreover have "ip_bits (last_host t) ! sn_length t" using last_host_bits [OF assms(2) i] by simp
  ultimately show False
    using same [OF network_in_hosts [OF assms(2)]] same [OF last_host_in_hosts [OF assms(2)]] by simp
qed

lemma subnet_contains_subnet_spec:
  assumes "subnet_ok s" and "subnet_ok t"
  shows "subnet_contains_subnet s t = Some (subnet_hosts t \<subseteq> subnet_hosts s)"
proof (cases "sn_length s \<le> sn_length t")
  case True
  have "sn_network t \<in> subnet_hosts s \<longleftrightarrow> subnet_hosts t \<subseteq> subnet_hosts s"
  proof
    assume "sn_network t \<in> subnet_hosts s"
    then have net: "take (sn_length s) (ip_bits (sn_network t)) = take (sn_length s) (ip_bits (sn_network s))"
      by (simp add: subnet_hosts_def)
    have cut: "take (sn_length s) bs = take (sn_length s) (take (sn_length t) bs)" for bs :: "bool list"
      using True by (simp add: min_def)
    show "subnet_hosts t \<subseteq> subnet_hosts s"
    proof
      fix x
      assume "x \<in> subnet_hosts t"
      then have "length x = 16" "take (sn_length t) (ip_bits x) = take (sn_length t) (ip_bits (sn_network t))"
        by (simp_all add: subnet_hosts_def)
      then show "x \<in> subnet_hosts s" using net cut by (metis (mono_tags, lifting) mem_Collect_eq subnet_hosts_def)
    qed
  next
    assume "subnet_hosts t \<subseteq> subnet_hosts s"
    then show "sn_network t \<in> subnet_hosts s" using network_in_hosts [OF assms(2)] by blast
  qed
  then show ?thesis using True assms subnet_contains_ip_spec [of s "sn_network t"]
    by (simp add: subnet_contains_subnet_def subnet_ok_def)
next
  case False
  then show ?thesis using hosts_subset_length [OF assms] by (auto simp: subnet_contains_subnet_def)
qed

end
