(* ===== verification/Relational_Operator.thy ===== *)
theory Relational_Operator
  imports Prelude
begin

text \<open>The relational operators of predicates (\<open>operator.hpp\<close>, \<open>operator.cpp\<close>), their negation and
  the operator that results from exchanging the operands.\<close>

datatype relational_operator =
  Op_in | Op_not_in | Op_ni | Op_not_ni | Equal | Not_equal | Less | Less_equal | Greater | Greater_equal

fun is_negated :: "relational_operator \<Rightarrow> bool" where
  "is_negated Equal = False"
| "is_negated Less = False"
| "is_negated Less_equal = False"
| "is_negated Greater = False"
| "is_negated Greater_equal = False"
| "is_negated Op_in = False"
| "is_negated Op_ni = False"
| "is_negated Op_not_ni = True"
| "is_negated Op_not_in = True"
| "is_negated Not_equal = True"

fun negate :: "relational_operator \<Rightarrow> relational_operator" where
  "negate Equal = Not_equal"
| "negate Not_equal = Equal"
| "negate Less = Greater_equal"
| "negate Less_equal = Greater"
| "negate Greater = Less_equal"
| "negate Greater_equal = Less"
| "negate Op_in = Op_not_in"
| "negate Op_not_in = Op_in"
| "negate Op_ni = Op_not_ni"
| "negate Op_not_ni = Op_ni"

fun flip_op :: "relational_operator \<Rightarrow> relational_operator" where
  "flip_op Equal = Equal"
| "flip_op Not_equal = Not_equal"
| "flip_op Less = Greater"
| "flip_op Less_equal = Greater_equal"
| "flip_op Greater = Less"
| "flip_op Greater_equal = Less_equal"
| "flip_op Op_in = Op_ni"
| "flip_op Op_not_in = Op_not_ni"
| "flip_op Op_ni = Op_in"
| "flip_op Op_not_ni = Op_not_in"

lemma negate_involutive [simp]: "negate (negate op) = op"
  by (cases op) simp_all

lemma flip_involutive [simp]: "flip_op (flip_op op) = op"
  by (cases op) simp_all

lemma negate_flip: "negate (flip_op op) = flip_op (negate op)"
  by (cases op) simp_all

end
