(* ===== verification/Data_Value.thy ===== *)
theory Data_Value
  imports Ip_Subnet Relational_Operator
begin

text \<open>
  Dynamically typed values (\<open>data.hpp\<close>) with their comparison and the evaluation of a predicate on
  two of them (\<open>evaluate\<close> in \<open>data.cpp\<close>).

  The alternatives of the variant are the constructors, in the order of \<open>data::types\<close>. Signed
  integers, durations and time points are only compared, so they are integers; a double is its 64-bit
  pattern, compared by the rules of IEEE 754. Maps and records are the vectors of their entries. A
  pattern is a regular expression with its case option, as \<open>pattern::make\<close> returns it; whether it
  matches a whole string (\<open>match\<close>) or a part of it (\<open>search\<close>) is decided by RE2 and is a parameter.
\<close>

section \<open>Values\<close>

record pattern =
  pat_string :: string
  pat_case_insensitive :: bool

datatype data =
    Null
  | Bool bool
  | Int64 int
  | UInt64 nat
  | Double u64
  | Duration int
  | Time int
  | Str string
  | Pat pattern
  | Ip ip
  | Subnet subnet
  | Enumeration nat
  | List_data "data list"
  | Map_data "(data \<times> data) list"
  | Record_data "(string \<times> data) list"
  | Blob "byte list"

fun data_index :: "data \<Rightarrow> nat" where
  "data_index Null = 0"
| "data_index (Bool _) = 1"
| "data_index (Int64 _) = 2"
| "data_index (UInt64 _) = 3"
| "data_index (Double _) = 4"
| "data_index (Duration _) = 5"
| "data_index (Time _) = 6"
| "data_index (Str _) = 7"
| "data_index (Pat _) = 8"
| "data_index (Ip _) = 9"
| "data_index (Subnet _) = 10"
| "data_index (Enumeration _) = 11"
| "data_index (List_data _) = 12"
| "data_index (Map_data _) = 13"
| "data_index (Record_data _) = 14"
| "data_index (Blob _) = 15"

section \<open>Doubles\<close>

text \<open>The value of a double as a key whose order is that of the doubles; NaN has none, and both zeros
  have the same.\<close>

definition double_key :: "u64 \<Rightarrow> int option" where
  "double_key d =
    (let magnitude = uint (d AND mask 63)
     in if magnitude > 0x7ff0000000000000 then None
        else Some (if bit d 63 then - magnitude else magnitude))"

definition double_eq :: "u64 \<Rightarrow> u64 \<Rightarrow> bool" where
  "double_eq x y \<longleftrightarrow> double_key x \<noteq> None \<and> double_key x = double_key y"

definition double_less :: "u64 \<Rightarrow> u64 \<Rightarrow> bool" where
  "double_less x y \<longleftrightarrow> (case (double_key x, double_key y) of (Some i, Some j) \<Rightarrow> i < j | _ \<Rightarrow> False)"

section \<open>Comparison\<close>

fun string_less :: "string \<Rightarrow> string \<Rightarrow> bool" where
  "string_less xs [] = False"
| "string_less [] (y # ys) = True"
| "string_less (x # xs) (y # ys) =
    (of_char x < (of_char y :: nat) \<or> of_char x = (of_char y :: nat) \<and> string_less xs ys)"

text \<open>The three-way comparison of pattern views stops at the end of the shorter string and then
  compares the case options only; its characters are of type \<open>char\<close>, which is signed.\<close>

definition signed_char :: "char \<Rightarrow> int" where
  "signed_char c = (if of_char c < (128 :: int) then of_char c else of_char c - 256)"

fun pattern_string_less :: "string \<Rightarrow> string \<Rightarrow> bool \<Rightarrow> bool" where
  "pattern_string_less (x # xs) (y # ys) tie =
    (if signed_char x < signed_char y then True
     else if signed_char x > signed_char y then False
     else pattern_string_less xs ys tie)"
| "pattern_string_less xs ys tie = tie"

definition pattern_less :: "pattern \<Rightarrow> pattern \<Rightarrow> bool" where
  "pattern_less x y = pattern_string_less (pat_string x) (pat_string y)
    (\<not> pat_case_insensitive x \<and> pat_case_insensitive y)"

text \<open>Equality and order of variants compare the alternatives first. The comparison of two values
  that are not containers:\<close>

definition leaf_eq :: "data \<Rightarrow> data \<Rightarrow> bool" where
  "leaf_eq x y = (case (x, y) of (Double d, Double e) \<Rightarrow> double_eq d e | _ \<Rightarrow> x = y)"

definition leaf_less :: "data \<Rightarrow> data \<Rightarrow> bool" where
  "leaf_less x y =
    (if data_index x \<noteq> data_index y then data_index x < data_index y
     else case (x, y) of
       (Bool a, Bool b) \<Rightarrow> \<not> a \<and> b
     | (Int64 i, Int64 j) \<Rightarrow> i < j
     | (UInt64 i, UInt64 j) \<Rightarrow> i < j
     | (Double d, Double e) \<Rightarrow> double_less d e
     | (Duration i, Duration j) \<Rightarrow> i < j
     | (Time i, Time j) \<Rightarrow> i < j
     | (Str s, Str t) \<Rightarrow> string_less s t
     | (Pat s, Pat t) \<Rightarrow> pattern_less s t
     | (Ip a, Ip b) \<Rightarrow> ip_less a b
     | (Subnet a, Subnet b) \<Rightarrow> subnet_less a b
     | (Enumeration i, Enumeration j) \<Rightarrow> i < j
     | (Blob a, Blob b) \<Rightarrow> bytes_less a b
     | _ \<Rightarrow> False)"

fun un_list :: "data \<Rightarrow> data list option" where
  "un_list (List_data xs) = Some xs"
| "un_list _ = None"

fun un_map :: "data \<Rightarrow> (data \<times> data) list option" where
  "un_map (Map_data xs) = Some xs"
| "un_map _ = None"

fun un_record :: "data \<Rightarrow> (string \<times> data) list option" where
  "un_record (Record_data xs) = Some xs"
| "un_record _ = None"

lemma un_Some [dest!]:
  "un_list x = Some xs \<Longrightarrow> x = List_data xs"
  "un_map x = Some ms \<Longrightarrow> x = Map_data ms"
  "un_record x = Some rs \<Longrightarrow> x = Record_data rs"
  by (cases x; simp)+

lemmas un_Some' [dest!] = un_Some [OF sym]

text \<open>Containers are compared lexicographically, and two elements of which neither is less count as
  equivalent.\<close>

function (sequential) data_eq :: "data \<Rightarrow> data \<Rightarrow> bool"
  and list_eq :: "data list \<Rightarrow> data list \<Rightarrow> bool"
  and map_eq :: "(data \<times> data) list \<Rightarrow> (data \<times> data) list \<Rightarrow> bool"
  and record_eq :: "(string \<times> data) list \<Rightarrow> (string \<times> data) list \<Rightarrow> bool"
where
  "data_eq x y =
    (case un_list x of Some xs \<Rightarrow> (case un_list y of Some ys \<Rightarrow> list_eq xs ys | None \<Rightarrow> False)
     | None \<Rightarrow>
     case un_map x of Some xs \<Rightarrow> (case un_map y of Some ys \<Rightarrow> map_eq xs ys | None \<Rightarrow> False)
     | None \<Rightarrow>
     case un_record x of Some xs \<Rightarrow> (case un_record y of Some ys \<Rightarrow> record_eq xs ys | None \<Rightarrow> False)
     | None \<Rightarrow> leaf_eq x y)"
| "list_eq [] ys = (ys = [])"
| "list_eq (x # xs) ys = (case ys of [] \<Rightarrow> False | y # ys \<Rightarrow> data_eq x y \<and> list_eq xs ys)"
| "map_eq [] ys = (ys = [])"
| "map_eq ((j, x) # xs) ys = (case ys of [] \<Rightarrow> False | (k, y) # ys \<Rightarrow> data_eq j k \<and> data_eq x y \<and> map_eq xs ys)"
| "record_eq [] ys = (ys = [])"
| "record_eq ((j, x) # xs) ys = (case ys of [] \<Rightarrow> False | (k, y) # ys \<Rightarrow> j = k \<and> data_eq x y \<and> record_eq xs ys)"
  by pat_completeness auto
termination
  by (relation "measure (\<lambda>z. case z of
      Inl (Inl (x, y)) \<Rightarrow> size x
    | Inl (Inr (xs, ys)) \<Rightarrow> size_list size xs
    | Inr (Inl (xs, ys)) \<Rightarrow> size_list (size_prod size size) xs
    | Inr (Inr (xs, ys)) \<Rightarrow> size_list (size_prod (\<lambda>_. 0) size) xs)") auto

function (sequential) data_less :: "data \<Rightarrow> data \<Rightarrow> bool"
  and list_less :: "data list \<Rightarrow> data list \<Rightarrow> bool"
  and map_less :: "(data \<times> data) list \<Rightarrow> (data \<times> data) list \<Rightarrow> bool"
  and record_less :: "(string \<times> data) list \<Rightarrow> (string \<times> data) list \<Rightarrow> bool"
where
  "data_less x y =
    (case (un_list x, un_list y) of (Some xs, Some ys) \<Rightarrow> list_less xs ys
     | _ \<Rightarrow>
     case (un_map x, un_map y) of (Some xs, Some ys) \<Rightarrow> map_less xs ys
     | _ \<Rightarrow>
     case (un_record x, un_record y) of (Some xs, Some ys) \<Rightarrow> record_less xs ys
     | _ \<Rightarrow> leaf_less x y)"
| "list_less xs [] = False"
| "list_less [] (y # ys) = True"
| "list_less (x # xs) (y # ys) = (if data_less x y then True else if data_less y x then False else list_less xs ys)"
| "map_less xs [] = False"
| "map_less [] (y # ys) = True"
| "map_less ((j, x) # xs) ((k, y) # ys) =
    (if data_less j k then True else if data_less k j then False
     else if data_less x y then True else if data_less y x then False else map_less xs ys)"
| "record_less xs [] = False"
| "record_less [] (y # ys) = True"
| "record_less ((j, x) # xs) ((k, y) # ys) =
    (if string_less j k then True else if string_less k j then False
     else if data_less x y then True else if data_less y x then False else record_less xs ys)"
  by pat_completeness auto
termination
  by (relation "measure (\<lambda>z. case z of
      Inl (Inl (x, y)) \<Rightarrow> size x + size y
    | Inl (Inr (xs, ys)) \<Rightarrow> size_list size xs + size_list size ys
    | Inr (Inl (xs, ys)) \<Rightarrow> size_list (size_prod size size) xs + size_list (size_prod size size) ys
    | Inr (Inr (xs, ys)) \<Rightarrow> size_list (size_prod (\<lambda>_. 0) size) xs + size_list (size_prod (\<lambda>_. 0) size) ys)") auto

declare data_eq.simps [simp del] data_less.simps [simp del]

lemma data_eq_simps [simp]:
  "data_eq (List_data xs) (List_data ys) = list_eq xs ys"
  "data_eq (Map_data ms) (Map_data ns) = map_eq ms ns"
  "data_eq (Record_data rs) (Record_data ss) = record_eq rs ss"
  by (simp_all add: data_eq.simps)

section \<open>Evaluation of predicates\<close>

record regex_engine =
  full_match :: "pattern \<Rightarrow> string \<Rightarrow> bool"
  partial_match :: "pattern \<Rightarrow> string \<Rightarrow> bool"

definition str_contains :: "string \<Rightarrow> string \<Rightarrow> bool" where
  "str_contains haystack needle \<longleftrightarrow>
    (\<exists>i \<in> set [0..<Suc (length haystack)]. take (length needle) (drop i haystack) = needle)"

definition eval_string_and_pattern :: "regex_engine \<Rightarrow> data \<Rightarrow> data \<Rightarrow> bool option" where
  "eval_string_and_pattern rx x y =
    (case (x, y) of
       (Str s, Pat p) \<Rightarrow> Some (full_match rx p s)
     | (Pat p, Str s) \<Rightarrow> Some (full_match rx p s)
     | _ \<Rightarrow> None)"

definition eval_in :: "regex_engine \<Rightarrow> data \<Rightarrow> data \<Rightarrow> bool" where
  "eval_in rx x y =
    (case y of
       List_data ys \<Rightarrow> list_ex (\<lambda>z. data_eq z x) ys
     | Str t \<Rightarrow> (case x of Str s \<Rightarrow> str_contains t s | _ \<Rightarrow> False)
     | Pat p \<Rightarrow> (case x of Str s \<Rightarrow> partial_match rx p s | _ \<Rightarrow> False)
     | Subnet n \<Rightarrow> (case x of
           Ip a \<Rightarrow> subnet_contains_ip n a = Some True
         | Subnet m \<Rightarrow> subnet_contains_subnet n m = Some True
         | _ \<Rightarrow> False)
     | _ \<Rightarrow> False)"

text \<open>\<open>data\<close> is totally ordered by the template of \<open>operators.hpp\<close>: the other comparisons are defined
  by \<open>==\<close> and \<open><\<close>.\<close>

fun evaluate :: "regex_engine \<Rightarrow> data \<Rightarrow> relational_operator \<Rightarrow> data \<Rightarrow> bool" where
  "evaluate rx lhs Op_in rhs = eval_in rx lhs rhs"
| "evaluate rx lhs Op_not_in rhs = (\<not> eval_in rx lhs rhs)"
| "evaluate rx lhs Op_ni rhs = eval_in rx rhs lhs"
| "evaluate rx lhs Op_not_ni rhs = (\<not> eval_in rx rhs lhs)"
| "evaluate rx lhs Equal rhs = (case eval_string_and_pattern rx lhs rhs of Some b \<Rightarrow> b | None \<Rightarrow> data_eq lhs rhs)"
| "evaluate rx lhs Not_equal rhs = (case eval_string_and_pattern rx lhs rhs of Some b \<Rightarrow> \<not> b | None \<Rightarrow> \<not> data_eq lhs rhs)"
| "evaluate rx lhs Less rhs = data_less lhs rhs"
| "evaluate rx lhs Less_equal rhs = (\<not> data_less rhs lhs)"
| "evaluate rx lhs Greater rhs = data_less rhs lhs"
| "evaluate rx lhs Greater_equal rhs = (\<not> data_less lhs rhs)"

section \<open>Equality is a congruence\<close>

lemma double_eq_sym: "double_eq x y \<longleftrightarrow> double_eq y x"
  unfolding double_eq_def by metis

lemma leaf_eq_cases: "leaf_eq x y \<longleftrightarrow> (\<exists>d e. x = Double d \<and> y = Double e \<and> double_eq d e) \<or> (\<forall>d. x \<noteq> Double d) \<and> x = y"
  by (auto simp: leaf_eq_def split: data.splits)

lemma leaf_eq_sym: "leaf_eq x y \<longleftrightarrow> leaf_eq y x"
  by (auto simp: leaf_eq_cases double_eq_sym)

lemma data_eq_leaf: "un_list x = None \<Longrightarrow> un_map x = None \<Longrightarrow> un_record x = None \<Longrightarrow> data_eq x y = leaf_eq x y"
  by (simp add: data_eq.simps)

lemma data_cases:
  obtains (list) xs where "x = List_data xs" | (map) ms where "x = Map_data ms" | (rec) rs where "x = Record_data rs"
  | (leaf) "un_list x = None" "un_map x = None" "un_record x = None"
  by (cases x) auto

lemma data_eq_container:
  "data_eq (List_data xs) y \<longleftrightarrow> (\<exists>ys. y = List_data ys \<and> list_eq xs ys)"
  "data_eq (Map_data ms) y \<longleftrightarrow> (\<exists>ns. y = Map_data ns \<and> map_eq ms ns)"
  "data_eq (Record_data rs) y \<longleftrightarrow> (\<exists>ss. y = Record_data ss \<and> record_eq rs ss)"
  by (auto simp: data_eq.simps split: option.splits)

lemma leaf_eq_leaf:
  assumes "leaf_eq x y" and "un_list x = None" "un_map x = None" "un_record x = None"
  shows "un_list y = None" "un_map y = None" "un_record y = None"
  using assms by (auto simp: leaf_eq_cases)

lemma list_eq_Cons: "list_eq (x # xs) ys \<longleftrightarrow> (\<exists>z zs. ys = z # zs \<and> data_eq x z \<and> list_eq xs zs)"
  by (auto split: list.splits)

lemma map_eq_Cons: "map_eq ((j, x) # xs) ys \<longleftrightarrow> (\<exists>k z zs. ys = (k, z) # zs \<and> data_eq j k \<and> data_eq x z \<and> map_eq xs zs)"
  by (auto split: list.splits)

lemma record_eq_Cons: "record_eq ((j, x) # xs) ys \<longleftrightarrow> (\<exists>z zs. ys = (j, z) # zs \<and> data_eq x z \<and> record_eq xs zs)"
  by (auto split: list.splits)

lemma data_eq_symD: "data_eq x y \<Longrightarrow> data_eq y x"
  and list_eq_symD: "list_eq xs ys \<Longrightarrow> list_eq ys xs"
  and map_eq_symD: "map_eq ms ns \<Longrightarrow> map_eq ns ms"
  and record_eq_symD: "record_eq rs ss \<Longrightarrow> record_eq ss rs"
proof (induction x y and xs ys and ms ns and rs ss rule: data_eq_list_eq_map_eq_record_eq.induct)
  case (1 x y)
  show ?case
  proof (cases x rule: data_cases)
    case leaf
    then have "leaf_eq x y" using 1 by (simp add: data_eq_leaf)
    then show ?thesis using leaf_eq_leaf [OF _ leaf] by (simp add: data_eq_leaf leaf_eq_sym)
  qed (use 1 in \<open>auto simp: data_eq_container\<close>)
qed (auto simp: list_eq_Cons map_eq_Cons record_eq_Cons simp del: list_eq.simps(2) map_eq.simps(2) record_eq.simps(2))

lemma double_eq_trans: "double_eq x y \<Longrightarrow> double_eq y z \<Longrightarrow> double_eq x z"
  unfolding double_eq_def by metis

lemma data_eq_trans: "data_eq x y \<Longrightarrow> data_eq y z \<Longrightarrow> data_eq x z"
  and list_eq_trans: "list_eq xs ys \<Longrightarrow> list_eq ys zs \<Longrightarrow> list_eq xs zs"
  and map_eq_trans: "map_eq ms ns \<Longrightarrow> map_eq ns os \<Longrightarrow> map_eq ms os"
  and record_eq_trans: "record_eq rs ss \<Longrightarrow> record_eq ss ts \<Longrightarrow> record_eq rs ts"
proof (induction x y and xs ys and ms ns and rs ss arbitrary: z and zs and os and ts
    rule: data_eq_list_eq_map_eq_record_eq.induct)
  case (1 x y)
  show ?case
  proof (cases x rule: data_cases)
    case leaf
    then have xy: "leaf_eq x y" using 1 by (simp add: data_eq_leaf)
    then have "leaf_eq y z" using 1 leaf_eq_leaf [OF xy leaf] by (simp add: data_eq_leaf)
    with xy have "leaf_eq x z" by (auto simp: leaf_eq_cases intro: double_eq_trans)
    then show ?thesis using leaf by (simp add: data_eq_leaf)
  qed (use 1 in \<open>auto simp: data_eq_container\<close>)
qed (auto simp: list_eq_Cons map_eq_Cons record_eq_Cons simp del: list_eq.simps(2) map_eq.simps(2) record_eq.simps(2))

lemma data_eq_cong: "data_eq x y \<Longrightarrow> data_eq z x = data_eq z y" "data_eq x y \<Longrightarrow> data_eq x z = data_eq y z"
  by (blast intro: data_eq_trans data_eq_symD)+

lemma leaf_eqE:
  assumes "leaf_eq x y"
  obtains d e where "x = Double d" "y = Double e" "double_eq d e" | "x = y"
  using assms by (auto simp: leaf_eq_cases)

lemma leaf_less_cong:
  assumes "leaf_eq x y"
  shows "leaf_less x z = leaf_less y z \<and> leaf_less z x = leaf_less z y"
  using assms
proof (cases rule: leaf_eqE)
  case (1 d e)
  then show ?thesis by (cases z) (simp_all add: leaf_less_def double_less_def double_eq_def)
qed simp

lemma data_eq_index: "data_eq x y \<Longrightarrow> data_index x = data_index y"
  by (cases x rule: data_cases) (auto simp: data_eq_container data_eq_leaf leaf_eq_cases)

lemma data_less_leaf:
  assumes "un_list x = None" "un_map x = None" "un_record x = None"
  shows "data_less x y = leaf_less x y" "data_less y x = leaf_less y x"
  using assms by (simp_all add: data_less.simps split: option.splits)

lemma data_less_container [simp]:
  "data_less (List_data xs) (List_data ys) = list_less xs ys"
  "data_less (Map_data ms) (Map_data ns) = map_less ms ns"
  "data_less (Record_data rs) (Record_data ss) = record_less rs ss"
  by (simp_all add: data_less.simps)

lemma data_less_index: "data_index x \<noteq> data_index y \<Longrightarrow> data_less x y \<longleftrightarrow> data_index x < data_index y"
  by (cases x rule: data_cases; cases y rule: data_cases)
    (auto simp: data_less.simps leaf_less_def split: option.splits)

lemma data_less_cong: "data_eq x y \<Longrightarrow> \<forall>z. data_less x z = data_less y z \<and> data_less z x = data_less z y"
  and list_less_cong: "list_eq xs ys \<Longrightarrow> \<forall>zs. list_less xs zs = list_less ys zs \<and> list_less zs xs = list_less zs ys"
  and map_less_cong: "map_eq ms ns \<Longrightarrow> \<forall>os. map_less ms os = map_less ns os \<and> map_less os ms = map_less os ns"
  and record_less_cong: "record_eq rs ss \<Longrightarrow> \<forall>ts. record_less rs ts = record_less ss ts \<and> record_less ts rs = record_less ts ss"
proof (induction x y and xs ys and ms ns and rs ss rule: data_eq_list_eq_map_eq_record_eq.induct)
  case (1 x y)
  note same = data_eq_index [OF "1.prems"]
  show ?case
  proof
    fix z
    show "data_less x z = data_less y z \<and> data_less z x = data_less z y"
    proof (cases "data_index z = data_index x")
      case False
      then show ?thesis using same data_less_index [of x z] data_less_index [of y z]
          data_less_index [of z x] data_less_index [of z y] by metis
    next
      case idx: True
      show ?thesis
      proof (cases x rule: data_cases)
        case leaf
        then have "leaf_eq x y" using 1 by (simp add: data_eq_leaf)
        then show ?thesis using leaf leaf_eq_leaf [OF _ leaf] by (simp add: data_less_leaf leaf_less_cong)
      next
        case (list xs)
        with idx obtain zs where "z = List_data zs" by (cases z) auto
        with 1 list show ?thesis by (auto simp: data_eq_container)
      next
        case (map xs)
        with idx obtain zs where "z = Map_data zs" by (cases z) auto
        with 1 map show ?thesis by (auto simp: data_eq_container)
      next
        case (rec xs)
        with idx obtain zs where "z = Record_data zs" by (cases z) auto
        with 1 rec show ?thesis by (auto simp: data_eq_container)
      qed
    qed
  qed
next
  case (3 x xs ys)
  then obtain y ys' where ys: "ys = y # ys'" "data_eq x y" "list_eq xs ys'" by (auto split: list.splits)
  with 3 have IH: "\<And>z. data_less x z = data_less y z" "\<And>z. data_less z x = data_less z y"
    "\<And>z. list_less xs z = list_less ys' z" "\<And>z. list_less z xs = list_less z ys'" by auto
  have "list_less (x # xs) zs = list_less (y # ys') zs \<and> list_less zs (x # xs) = list_less zs (y # ys')" for zs
    by (cases zs) (simp_all add: IH)
  then show ?case using ys by simp
next
  case (5 j x xs ys)
  then obtain k y ys' where ys: "ys = (k, y) # ys'" "data_eq j k" "data_eq x y" "map_eq xs ys'"
    by (auto split: list.splits)
  with 5 have IH: "\<And>z. data_less j z = data_less k z" "\<And>z. data_less z j = data_less z k"
    "\<And>z. data_less x z = data_less y z" "\<And>z. data_less z x = data_less z y"
    "\<And>z. map_less xs z = map_less ys' z" "\<And>z. map_less z xs = map_less z ys'" by auto
  have "map_less ((j, x) # xs) zs = map_less ((k, y) # ys') zs \<and> map_less zs ((j, x) # xs) = map_less zs ((k, y) # ys')" for zs
  proof (cases zs)
    case (Cons p os)
    then show ?thesis by (cases p) (simp only: map_less.simps IH simp_thms)
  qed simp
  then show ?case using ys by simp
next
  case (7 j x xs ys)
  then obtain y ys' where ys: "ys = (j, y) # ys'" "data_eq x y" "record_eq xs ys'"
    by (auto split: list.splits)
  with 7 have IH: "\<And>z. data_less x z = data_less y z" "\<And>z. data_less z x = data_less z y"
    "\<And>z. record_less xs z = record_less ys' z" "\<And>z. record_less z xs = record_less z ys'" by auto
  have "record_less ((j, x) # xs) zs = record_less ((j, y) # ys') zs \<and> record_less zs ((j, x) # xs) = record_less zs ((j, y) # ys')" for zs
  proof (cases zs)
    case (Cons p os)
    then show ?thesis by (cases p) (simp only: record_less.simps IH simp_thms)
  qed simp
  then show ?case using ys by simp
qed simp_all

section \<open>Negated and flipped operators\<close>

lemma evaluate_negate: "evaluate rx x (negate op) y \<longleftrightarrow> \<not> evaluate rx x op y"
  by (cases op) (auto split: option.splits)

lemma string_and_pattern_sym: "eval_string_and_pattern rx x y = eval_string_and_pattern rx y x"
  by (auto simp: eval_string_and_pattern_def split: data.splits)

lemma evaluate_flip: "evaluate rx y (flip_op op) x \<longleftrightarrow> evaluate rx x op y"
  using string_and_pattern_sym [of rx x y] data_eq_symD [of x y] data_eq_symD [of y x]
  by (cases op) (auto split: option.splits)

lemma list_ex_data_eq: "list_eq xs ys \<Longrightarrow> list_ex (\<lambda>w. data_eq w z) xs = list_ex (\<lambda>w. data_eq w z) ys"
proof (induction xs arbitrary: ys)
  case (Cons x xs)
  then obtain y ys' where ys: "ys = y # ys'" "data_eq x y" "list_eq xs ys'" by (auto split: list.splits)
  then show ?case using Cons.IH data_eq_cong(2) [OF ys(2), of z] by simp
qed simp

lemma eval_in_other:
  "eval_in rx (List_data xs) z = (case z of List_data ys \<Rightarrow> list_ex (\<lambda>w. data_eq w (List_data xs)) ys | _ \<Rightarrow> False)"
  "eval_in rx (Map_data ms) z = (case z of List_data ys \<Rightarrow> list_ex (\<lambda>w. data_eq w (Map_data ms)) ys | _ \<Rightarrow> False)"
  "eval_in rx (Record_data rs) z = (case z of List_data ys \<Rightarrow> list_ex (\<lambda>w. data_eq w (Record_data rs)) ys | _ \<Rightarrow> False)"
  "eval_in rx (Double d) z = (case z of List_data ys \<Rightarrow> list_ex (\<lambda>w. data_eq w (Double d)) ys | _ \<Rightarrow> False)"
  "eval_in rx z (List_data xs) = list_ex (\<lambda>w. data_eq w z) xs"
  "eval_in rx z (Map_data ms) = False"
  "eval_in rx z (Record_data rs) = False"
  "eval_in rx z (Double d) = False"
  by (simp_all add: eval_in_def split: data.split)

lemma eval_in_cong:
  assumes "data_eq x y"
  shows "eval_in rx x z = eval_in rx y z" "eval_in rx z x = eval_in rx z y"
proof -
  have "eval_in rx x z = eval_in rx y z \<and> eval_in rx z x = eval_in rx z y"
  proof (cases x rule: data_cases)
    case leaf
    with assms have "leaf_eq x y" by (simp add: data_eq_leaf)
    then show ?thesis
      using data_eq_cong(1) [OF assms] by (cases rule: leaf_eqE) (simp_all add: eval_in_other split: data.splits)
  qed (use assms data_eq_cong(1) [OF assms] list_ex_data_eq in \<open>auto simp: data_eq_container eval_in_other split: data.splits\<close>)
  then show "eval_in rx x z = eval_in rx y z" "eval_in rx z x = eval_in rx z y" by blast+
qed

lemma string_and_pattern_cong:
  assumes "data_eq x y"
  shows "eval_string_and_pattern rx x z = eval_string_and_pattern rx y z"
proof (cases x rule: data_cases)
  case leaf
  with assms have "leaf_eq x y" by (simp add: data_eq_leaf)
  then show ?thesis by (cases rule: leaf_eqE) (simp_all add: eval_string_and_pattern_def)
qed (use assms in \<open>auto simp: data_eq_container eval_string_and_pattern_def\<close>)

text \<open>Equal data cannot be told apart by a predicate.\<close>

lemma evaluate_cong:
  assumes "data_eq x y"
  shows "evaluate rx x op z = evaluate rx y op z" "evaluate rx z op x = evaluate rx z op y"
proof -
  show l: "evaluate rx x op z = evaluate rx y op z" for op
    using assms eval_in_cong [OF assms, of rx z] data_less_cong [OF assms] data_eq_cong [OF assms, of z]
      string_and_pattern_cong [OF assms, of rx z]
    by (cases op) (auto split: option.splits)
  show "evaluate rx z op x = evaluate rx z op y"
    using l [of "flip_op op"] by (simp add: evaluate_flip)
qed

end
