(* ===== verification/Type_Model.thy ===== *)
theory Type_Model
  imports Data_Value
begin

text \<open>
  Types (\<open>type.hpp\<close>, \<open>type.cpp\<close>). A type is a FlatBuffers table of \<open>type.fbs\<close>; the constructors are the
  alternatives of the union \<open>fbs::type::Type\<close>, with nested tables for the nested types. The bytes of a
  table are determined by its contents, so types are equal (\<open>operator==\<close> compares bytes) if their
  tables have the same contents. A string of length 0 stands for a name that is not set, which the
  constructor never writes otherwise. The fields of an enumeration are a vector sorted by the key.
\<close>

section \<open>The representation\<close>

datatype ty =
    Null_type
  | Bool_type
  | Int64_type
  | UInt64_type
  | Double_type
  | Duration_type
  | Time_type
  | String_type
  | Ip_type
  | Subnet_type
  | Enumeration_type "(string \<times> nat) list"
  | List_type ty
  | Map_type ty ty
  | Record_type "(string \<times> ty) list"
  | Enriched_type ty string "(string \<times> string) list"
  | Blob_type

type_synonym fields = "(string \<times> ty) list"

text \<open>\<open>resolve_transparent\<close> steps through the enriched types; \<open>match\<close> on a type sees the result.\<close>

fun resolve_transparent :: "ty \<Rightarrow> ty" where
  "resolve_transparent (Enriched_type nested _ _) = resolve_transparent nested"
| "resolve_transparent root = root"

definition has_type :: "ty \<Rightarrow> bool" where
  "has_type t \<longleftrightarrow> resolve_transparent t \<noteq> Null_type"

definition as_record :: "ty \<Rightarrow> fields option" where
  "as_record t = (case resolve_transparent t of Record_type fs \<Rightarrow> Some fs | _ \<Rightarrow> None)"

section \<open>Names and attributes\<close>

fun type_name :: "ty \<Rightarrow> string" where
  "type_name (Enriched_type nested name _) = (if name \<noteq> [] then name else type_name nested)"
| "type_name root = []"

fun type_attribute :: "ty \<Rightarrow> string \<Rightarrow> string option" where
  "type_attribute (Enriched_type nested _ attributes) key =
    (case map_of attributes key of Some v \<Rightarrow> Some v | None \<Rightarrow> type_attribute nested key)"
| "type_attribute root key = None"

fun has_attributes :: "ty \<Rightarrow> bool" where
  "has_attributes (Enriched_type nested _ attributes) \<longleftrightarrow> attributes \<noteq> [] \<or> has_attributes nested"
| "has_attributes root \<longleftrightarrow> False"

fun type_attributes :: "bool \<Rightarrow> ty \<Rightarrow> (string \<times> string) list" where
  "type_attributes recurse (Enriched_type nested _ attributes) =
    attributes @ (if recurse then type_attributes recurse nested else [])"
| "type_attributes recurse root = []"

text \<open>The constructor keeps one enriched layer: the nested type is stripped of its own, whose name and
  attributes are used where the arguments leave them out.\<close>

fun add_attributes :: "(string \<times> string) list \<Rightarrow> (string \<times> string) list \<Rightarrow> (string \<times> string) list" where
  "add_attributes attributes [] = attributes"
| "add_attributes attributes ((key, v) # rest) =
    (if key \<in> fst ` set attributes then add_attributes attributes rest
     else add_attributes (attributes @ [(key, v)]) rest)"

fun key_insert :: "string \<times> string \<Rightarrow> (string \<times> string) list \<Rightarrow> (string \<times> string) list" where
  "key_insert a [] = [a]"
| "key_insert a (b # bs) = (if string_less (fst b) (fst a) then b # key_insert a bs else a # b # bs)"

definition key_sort :: "(string \<times> string) list \<Rightarrow> (string \<times> string) list" where
  "key_sort xs = foldr key_insert xs []"

definition make_type :: "string \<Rightarrow> ty \<Rightarrow> (string \<times> string) list \<Rightarrow> ty" where
  "make_type name nested attributes =
    (if name = [] \<and> attributes = [] then nested
     else Enriched_type (resolve_transparent nested) (if name = [] then type_name nested else name)
       (key_sort (add_attributes attributes (type_attributes True nested))))"

section \<open>Stripping all metadata\<close>

text \<open>\<open>prune\<close> does not handle maps: its branch for them is unreachable.\<close>

lemma size_transparent: "size (resolve_transparent t) \<le> size t"
  by (induction t rule: resolve_transparent.induct) auto

lemma size_transparentD:
  "resolve_transparent t = List_type u \<Longrightarrow> size u < size t"
  "resolve_transparent t = Map_type u v \<Longrightarrow> size u < size t \<and> size v < size t"
  "resolve_transparent t = Record_type fs \<Longrightarrow> size_list (size_prod (\<lambda>_. 0) size) fs < size t"
  using size_transparent [of t] by auto

function prune_type :: "ty \<Rightarrow> ty option" and prune_fields :: "fields \<Rightarrow> fields option" where
  "prune_type t =
    (case resolve_transparent t of
       List_type u \<Rightarrow> map_option List_type (prune_type u)
     | Map_type _ _ \<Rightarrow> None
     | Record_type fs \<Rightarrow> map_option Record_type (prune_fields fs)
     | u \<Rightarrow> Some u)"
| "prune_fields [] = Some []"
| "prune_fields ((n, t) # fs) =
    (case prune_type t of None \<Rightarrow> None | Some u \<Rightarrow> map_option ((#) (n, u)) (prune_fields fs))"
  by pat_completeness auto
termination
  by (relation "measure (\<lambda>z. case z of Inl t \<Rightarrow> size t | Inr fs \<Rightarrow> size_list (size_prod (\<lambda>_. 0) size) fs)")
    (auto dest: size_transparentD)

section \<open>Congruence and compatibility\<close>

definition type_is_container :: "ty \<Rightarrow> bool" where
  "type_is_container t =
    (case resolve_transparent t of List_type _ \<Rightarrow> True | Map_type _ _ \<Rightarrow> True | Record_type _ \<Rightarrow> True | _ \<Rightarrow> False)"

text \<open>Two types are congruent if they are equal up to metadata and the names of fields. The null type
  is congruent to every type.\<close>

function congruent :: "ty \<Rightarrow> ty \<Rightarrow> bool" and congruent_fields :: "fields \<Rightarrow> fields \<Rightarrow> bool" where
  "congruent x y =
    (case resolve_transparent x of
       Enumeration_type xf \<Rightarrow> (case resolve_transparent y of
           Enumeration_type yf \<Rightarrow> map snd xf = map snd yf
         | u \<Rightarrow> u = Null_type)
     | List_type xv \<Rightarrow> (case resolve_transparent y of List_type yv \<Rightarrow> congruent xv yv | u \<Rightarrow> u = Null_type)
     | Map_type xk xv \<Rightarrow> (case resolve_transparent y of
           Map_type yk yv \<Rightarrow> congruent xk yk \<and> congruent xv yv
         | u \<Rightarrow> u = Null_type)
     | Record_type xf \<Rightarrow> (case resolve_transparent y of
           Record_type yf \<Rightarrow> congruent_fields xf yf
         | u \<Rightarrow> u = Null_type)
     | Null_type \<Rightarrow> True
     | t \<Rightarrow> resolve_transparent y = t \<or> resolve_transparent y = Null_type)"
| "congruent_fields [] ys \<longleftrightarrow> ys = []"
| "congruent_fields ((_, t) # xs) ys =
    (case ys of [] \<Rightarrow> False | (_, u) # ys \<Rightarrow> congruent t u \<and> congruent_fields xs ys)"
  by pat_completeness auto
termination
  by (relation "measure (\<lambda>z. case z of Inl (x, y) \<Rightarrow> size x
      | Inr (xs, ys) \<Rightarrow> size_list (size_prod (\<lambda>_. 0) size) xs)")
    (auto dest: size_transparentD)

declare prune_type.simps [simp del] congruent.simps [simp del]

definition enum_resolve :: "(string \<times> nat) list \<Rightarrow> string \<Rightarrow> nat option" where
  "enum_resolve fs key = map_of fs key"

definition enum_field :: "(string \<times> nat) list \<Rightarrow> nat \<Rightarrow> string" where
  "enum_field fs key = (case map_of (map prod.swap fs) key of Some name \<Rightarrow> name | None \<Rightarrow> [])"

lemma map_of_size [termination_simp]:
  "map_of rs n = Some d \<Longrightarrow> size d < Suc (size_list (size_prod (\<lambda>_. 0) size) rs)"
  by (induction rs) (auto split: if_splits)

function congruent_data :: "ty \<Rightarrow> data \<Rightarrow> bool"
  and congruent_list :: "fields \<Rightarrow> data list \<Rightarrow> bool"
  and congruent_record :: "fields \<Rightarrow> (string \<times> data) list \<Rightarrow> bool"
where
  "congruent_data x y =
    (case resolve_transparent x of
       Record_type fs \<Rightarrow> (case y of
           List_data ys \<Rightarrow> length fs = length ys \<and> congruent_list fs ys
         | Record_data rs \<Rightarrow> length fs = length rs \<and> congruent_record fs rs
         | _ \<Rightarrow> False)
     | Enumeration_type fs \<Rightarrow> (case y of Str s \<Rightarrow> enum_resolve fs s \<noteq> None | _ \<Rightarrow> False)
     | Bool_type \<Rightarrow> (case y of Bool _ \<Rightarrow> True | _ \<Rightarrow> False)
     | Int64_type \<Rightarrow> (case y of Int64 _ \<Rightarrow> True | _ \<Rightarrow> False)
     | UInt64_type \<Rightarrow> (case y of UInt64 _ \<Rightarrow> True | _ \<Rightarrow> False)
     | Double_type \<Rightarrow> (case y of Double _ \<Rightarrow> True | _ \<Rightarrow> False)
     | Duration_type \<Rightarrow> (case y of Duration _ \<Rightarrow> True | _ \<Rightarrow> False)
     | Time_type \<Rightarrow> (case y of Time _ \<Rightarrow> True | _ \<Rightarrow> False)
     | String_type \<Rightarrow> (case y of Str _ \<Rightarrow> True | Pat _ \<Rightarrow> True | _ \<Rightarrow> False)
     | Ip_type \<Rightarrow> (case y of Ip _ \<Rightarrow> True | _ \<Rightarrow> False)
     | Subnet_type \<Rightarrow> (case y of Subnet _ \<Rightarrow> True | _ \<Rightarrow> False)
     | List_type _ \<Rightarrow> (case y of List_data _ \<Rightarrow> True | _ \<Rightarrow> False)
     | Map_type _ _ \<Rightarrow> (case y of Map_data _ \<Rightarrow> True | _ \<Rightarrow> False)
     | _ \<Rightarrow> False)"
| "congruent_list [] ys \<longleftrightarrow> True"
| "congruent_list ((_, t) # fs) ys = (case ys of [] \<Rightarrow> True | y # ys \<Rightarrow> congruent_data t y \<and> congruent_list fs ys)"
| "congruent_record [] rs \<longleftrightarrow> True"
| "congruent_record ((n, t) # fs) rs =
    (case map_of rs n of Some y \<Rightarrow> congruent_data t y \<and> congruent_record fs rs | None \<Rightarrow> False)"
  by pat_completeness auto
termination
  by (relation "measure (\<lambda>z. case z of Inl (x, y) \<Rightarrow> size x
      | Inr (Inl (fs, ys)) \<Rightarrow> size_list (size_prod (\<lambda>_. 0) size) fs
      | Inr (Inr (fs, rs)) \<Rightarrow> size_list (size_prod (\<lambda>_. 0) size) fs)")
    (auto dest: size_transparentD)

declare congruent_data.simps [simp del]

definition data_is_container :: "data \<Rightarrow> bool" where
  "data_is_container x = (case x of List_data _ \<Rightarrow> True | Map_data _ \<Rightarrow> True | Record_data _ \<Rightarrow> True | _ \<Rightarrow> False)"

definition numeric_pair :: "ty \<Rightarrow> data \<Rightarrow> bool" where
  "numeric_pair x y \<longleftrightarrow> resolve_transparent x \<in> {Int64_type, UInt64_type, Double_type}
    \<and> (case y of Int64 _ \<Rightarrow> True | UInt64 _ \<Rightarrow> True | Double _ \<Rightarrow> True | _ \<Rightarrow> False)"

fun compatible :: "ty \<Rightarrow> relational_operator \<Rightarrow> data \<Rightarrow> bool" where
  "compatible lhs op rhs =
    (if op \<in> {Equal, Not_equal} then
       \<not> has_type lhs \<or> rhs = Null \<or> numeric_pair lhs rhs
       \<or> resolve_transparent lhs = String_type \<and> (case rhs of Pat _ \<Rightarrow> True | _ \<Rightarrow> False)
       \<or> congruent_data lhs rhs
     else if op \<in> {Less, Less_equal, Greater, Greater_equal} then
       congruent_data lhs rhs \<or> numeric_pair lhs rhs
     else if op \<in> {Op_in, Op_not_in} then
       (case resolve_transparent lhs of
          String_type \<Rightarrow> (case rhs of Str _ \<Rightarrow> True | _ \<Rightarrow> data_is_container rhs)
        | Ip_type \<Rightarrow> (case rhs of Subnet _ \<Rightarrow> True | _ \<Rightarrow> data_is_container rhs)
        | Subnet_type \<Rightarrow> (case rhs of Subnet _ \<Rightarrow> True | _ \<Rightarrow> data_is_container rhs)
        | _ \<Rightarrow> data_is_container rhs)
     else
       (case rhs of
          Str _ \<Rightarrow> resolve_transparent lhs = String_type \<or> type_is_container lhs
        | Ip _ \<Rightarrow> resolve_transparent lhs = Subnet_type \<or> type_is_container lhs
        | Subnet _ \<Rightarrow> resolve_transparent lhs = Subnet_type \<or> type_is_container lhs
        | _ \<Rightarrow> type_is_container lhs))"

definition compatible_flipped :: "data \<Rightarrow> relational_operator \<Rightarrow> ty \<Rightarrow> bool" where
  "compatible_flipped lhs op rhs = compatible rhs (flip_op op) lhs"

function is_subset :: "ty \<Rightarrow> ty \<Rightarrow> bool" and subset_fields :: "fields \<Rightarrow> fields \<Rightarrow> bool"
  and subset_field :: "string \<Rightarrow> ty \<Rightarrow> fields \<Rightarrow> bool"
where
  "is_subset x y =
    (case as_record x of
       Some sub \<Rightarrow> (case as_record y of Some super \<Rightarrow> subset_fields sub super | None \<Rightarrow> congruent x y)
     | None \<Rightarrow> congruent x y)"
| "subset_fields [] super \<longleftrightarrow> True"
| "subset_fields ((n, t) # sub) super \<longleftrightarrow>
    subset_field n t super \<and> n \<in> fst ` set super \<and> subset_fields sub super"
| "subset_field n t [] \<longleftrightarrow> True"
| "subset_field n t ((m, u) # super) \<longleftrightarrow> (n = m \<longrightarrow> is_subset t u) \<and> subset_field n t super"
  by pat_completeness auto
termination
  by (relation "measure (\<lambda>z. case z of Inl (x, y) \<Rightarrow> size x + size y
      | Inr (Inl (xs, ys)) \<Rightarrow> size_list (size_prod (\<lambda>_. 0) size) xs + size_list (size_prod (\<lambda>_. 0) size) ys
      | Inr (Inr (n, t, ys)) \<Rightarrow> size t + size_list (size_prod (\<lambda>_. 0) size) ys)")
    (auto simp: as_record_def dest!: size_transparentD split: ty.splits)

declare is_subset.simps [simp del]

section \<open>Type checking and inference\<close>

text \<open>Without the expensive assertions a list or a map is checked by its first element only. The loop over the
  fields of a record gives up at a field whose value checks (the call of \<^verbatim>\<open>type_check\<close> in it is not negated).\<close>

function type_check :: "ty \<Rightarrow> data \<Rightarrow> bool" and type_check_record :: "fields \<Rightarrow> (string \<times> data) list \<Rightarrow> bool" where
  "type_check x y =
    (if y = Null then True
     else case resolve_transparent x of
       Enumeration_type fs \<Rightarrow> (case y of Enumeration u \<Rightarrow> enum_field fs u \<noteq> [] | _ \<Rightarrow> False)
     | List_type vt \<Rightarrow> (case y of List_data ys \<Rightarrow> (case ys of [] \<Rightarrow> True | d # _ \<Rightarrow> type_check vt d) | _ \<Rightarrow> False)
     | Map_type kt vt \<Rightarrow> (case y of
           Map_data ms \<Rightarrow> (case ms of [] \<Rightarrow> True | (k, d) # _ \<Rightarrow> type_check kt k \<and> type_check vt d)
         | _ \<Rightarrow> False)
     | Record_type fs \<Rightarrow> (case y of Record_data rs \<Rightarrow> length rs = length fs \<and> type_check_record fs rs | _ \<Rightarrow> False)
     | Bool_type \<Rightarrow> (case y of Bool _ \<Rightarrow> True | _ \<Rightarrow> False)
     | Int64_type \<Rightarrow> (case y of Int64 _ \<Rightarrow> True | _ \<Rightarrow> False)
     | UInt64_type \<Rightarrow> (case y of UInt64 _ \<Rightarrow> True | _ \<Rightarrow> False)
     | Double_type \<Rightarrow> (case y of Double _ \<Rightarrow> True | _ \<Rightarrow> False)
     | Duration_type \<Rightarrow> (case y of Duration _ \<Rightarrow> True | _ \<Rightarrow> False)
     | Time_type \<Rightarrow> (case y of Time _ \<Rightarrow> True | _ \<Rightarrow> False)
     | String_type \<Rightarrow> (case y of Str _ \<Rightarrow> True | _ \<Rightarrow> False)
     | Ip_type \<Rightarrow> (case y of Ip _ \<Rightarrow> True | _ \<Rightarrow> False)
     | Subnet_type \<Rightarrow> (case y of Subnet _ \<Rightarrow> True | _ \<Rightarrow> False)
     | Blob_type \<Rightarrow> (case y of Blob _ \<Rightarrow> True | _ \<Rightarrow> False)
     | _ \<Rightarrow> False)"
| "type_check_record [] rs \<longleftrightarrow> True"
| "type_check_record ((n, t) # fs) rs =
    (case rs of [] \<Rightarrow> True | (k, v) # rs \<Rightarrow> n = k \<and> \<not> type_check t v \<and> type_check_record fs rs)"
  by pat_completeness auto
termination
  by (relation "measure (\<lambda>z. case z of Inl (x, y) \<Rightarrow> size x
      | Inr (fs, rs) \<Rightarrow> size_list (size_prod (\<lambda>_. 0) size) fs)")
    (auto dest: size_transparentD)

declare type_check.simps [simp del]

function infer :: "data \<Rightarrow> ty option"
  and infer_elements :: "data list \<Rightarrow> ty option"
  and infer_rest :: "ty \<Rightarrow> data list \<Rightarrow> ty option"
  and infer_record :: "(string \<times> data) list \<Rightarrow> fields option"
where
  "infer value = (case value of
      Null \<Rightarrow> Some Null_type
    | Bool _ \<Rightarrow> Some Bool_type
    | Int64 _ \<Rightarrow> Some Int64_type
    | UInt64 _ \<Rightarrow> Some UInt64_type
    | Double _ \<Rightarrow> Some Double_type
    | Duration _ \<Rightarrow> Some Duration_type
    | Time _ \<Rightarrow> Some Time_type
    | Str _ \<Rightarrow> Some String_type
    | Pat _ \<Rightarrow> Some String_type
    | Ip _ \<Rightarrow> Some Ip_type
    | Subnet _ \<Rightarrow> Some Subnet_type
    | Enumeration _ \<Rightarrow> None
    | List_data xs \<Rightarrow> map_option List_type (infer_elements xs)
    | Map_data ms \<Rightarrow> (case (infer_elements (map fst ms), infer_elements (map snd ms)) of
          (Some k, Some v) \<Rightarrow> Some (Map_type k v)
        | _ \<Rightarrow> None)
    | Record_data rs \<Rightarrow> map_option Record_type (infer_record rs)
    | Blob _ \<Rightarrow> Some Blob_type)"
| "infer_elements [] = Some Null_type"
| "infer_elements (x # xs) =
    (case infer x of None \<Rightarrow> None | Some t \<Rightarrow> if has_type t then infer_rest t xs else infer_elements xs)"
| "infer_rest t [] = Some t"
| "infer_rest t (x # xs) =
    (case infer x of None \<Rightarrow> None | Some u \<Rightarrow> if has_type u \<and> u \<noteq> t then None else infer_rest t xs)"
| "infer_record [] = Some []"
| "infer_record ((n, x) # rs) =
    (case infer x of None \<Rightarrow> None | Some t \<Rightarrow> map_option ((#) (n, t)) (infer_record rs))"
  by pat_completeness auto

lemma size_map_components:
  "size_list size (map fst ms) \<le> size_list (size_prod size size) ms"
  "size_list size (map snd ms) \<le> size_list (size_prod size size) ms"
  by (induction ms) auto

termination infer
  using size_map_components
  by (relation "measure (\<lambda>z. case z of
      Inl (Inl x) \<Rightarrow> size x
    | Inl (Inr xs) \<Rightarrow> size_list size xs
    | Inr (Inl (t, xs)) \<Rightarrow> size_list size xs
    | Inr (Inr rs) \<Rightarrow> size_list (size_prod (\<lambda>_. 0) size) rs)") (auto simp: less_Suc_eq_le le_SucI)

declare infer.simps [simp del]

section \<open>Properties\<close>

lemma transparent_idem [simp]: "resolve_transparent (resolve_transparent t) = resolve_transparent t"
  by (induction t rule: resolve_transparent.induct) auto

lemma transparent_not_enriched [simp]: "resolve_transparent t \<noteq> Enriched_type u n as"
  by (induction t rule: resolve_transparent.induct) auto

lemma type_name_transparent [simp]: "type_name (resolve_transparent t) = []"
  by (induction t rule: resolve_transparent.induct) auto

lemma type_attribute_transparent [simp]: "type_attribute (resolve_transparent t) key = None"
  by (induction t rule: resolve_transparent.induct) auto

lemma transparent_make_type [simp]: "resolve_transparent (make_type n t as) = resolve_transparent t"
  by (simp add: make_type_def)

lemma map_of_add_attributes: "map_of (add_attributes as bs) = map_of bs ++ map_of as"
proof (induction as bs rule: add_attributes.induct)
  case (2 as key v rest)
  show ?case
  proof (cases "key \<in> fst ` set as")
    case True
    then have "key \<in> dom (map_of as)" by (simp add: dom_map_of_conv_image_fst)
    with 2 True show ?thesis by (auto simp: map_add_def fun_eq_iff split: option.split)
  next
    case False
    then have "map_of as key = None" by (simp add: map_of_eq_None_iff)
    with 2 False show ?thesis by (auto simp: map_add_def fun_eq_iff split: option.split)
  qed
qed simp

lemma type_attributes_map_of: "map_of (type_attributes True t) = type_attribute t"
  by (induction t) (auto simp: fun_eq_iff map_add_def split: option.splits)

lemma map_of_key_insert: "fst a \<notin> fst ` set bs \<Longrightarrow> map_of (key_insert a bs) = map_of (a # bs)"
  by (induction bs) (auto simp: fun_upd_twist)

lemma set_key_insert [simp]: "set (key_insert a bs) = insert a (set bs)"
  by (induction bs) auto

lemma set_key_sort [simp]: "set (key_sort bs) = set bs"
  by (induction bs) (auto simp: key_sort_def)

lemma map_of_key_sort: "distinct (map fst bs) \<Longrightarrow> map_of (key_sort bs) = map_of bs"
proof (induction bs)
  case (Cons b bs)
  have "fst b \<notin> fst ` set (key_sort bs)" using Cons.prems by simp
  then show ?case using Cons map_of_key_insert [of b "key_sort bs"] by (simp add: key_sort_def)
qed (simp add: key_sort_def)

lemma distinct_add_attributes:
  "distinct (map fst as) \<Longrightarrow> distinct (map fst (add_attributes as bs))"
  by (induction as bs rule: add_attributes.induct) auto

lemma make_type_name: "type_name (make_type n t as) = (if n = [] then type_name t else n)"
  by (simp add: make_type_def)

text \<open>The attributes of the arguments take precedence over those of the nested type.\<close>

lemma make_type_attribute:
  assumes "distinct (map fst as)"
  shows "type_attribute (make_type n t as) k = (case map_of as k of Some v \<Rightarrow> Some v | None \<Rightarrow> type_attribute t k)"
proof (cases "n = [] \<and> as = []")
  case False
  then have "type_attribute (make_type n t as) k = map_of (add_attributes as (type_attributes True t)) k"
    using map_of_key_sort [OF distinct_add_attributes [OF assms]]
    unfolding make_type_def if_not_P [OF False] by (simp split: option.split)
  then show ?thesis by (simp add: map_of_add_attributes type_attributes_map_of map_add_def split: option.split)
qed (simp add: make_type_def)

lemma congruent_transparent: "congruent (resolve_transparent t) u = congruent t u"
  by (simp only: congruent.simps [of "resolve_transparent t" u] congruent.simps [of t u] transparent_idem)

lemma congruent_transparent': "congruent t (resolve_transparent u) = congruent t u"
  by (simp only: congruent.simps [of t "resolve_transparent u"] congruent.simps [of t u] transparent_idem)

lemma congruent_Null [simp]: "resolve_transparent u = Null_type \<Longrightarrow> congruent t u"
  by (cases "resolve_transparent t") (simp_all add: congruent.simps [of t u])

lemma congruent_sym: "congruent x y \<Longrightarrow> congruent y x"
  and congruent_fields_sym: "congruent_fields xs ys \<Longrightarrow> congruent_fields ys xs"
proof (induction x y and xs ys rule: congruent_congruent_fields.induct)
  case (1 x y)
  show ?case
  proof (cases "resolve_transparent x = Null_type \<or> resolve_transparent y = Null_type")
    case True
    then show ?thesis
    proof
      assume "resolve_transparent y = Null_type"
      then show ?thesis by (simp add: congruent.simps [of y x])
    qed simp
  next
    case False
    show ?thesis
    proof (cases "resolve_transparent x")
      case (Enumeration_type xf)
      with "1.prems" False show ?thesis by (cases "resolve_transparent y") (simp_all add: congruent.simps [of x y] congruent.simps [of y x])
    next
      case (List_type xv)
      with "1.prems" False obtain yv where y: "resolve_transparent y = List_type yv" and c: "congruent xv yv"
        by (cases "resolve_transparent y") (simp_all add: congruent.simps [of x y])
      have "congruent yv xv" using "1.IH" List_type y c by blast
      then show ?thesis by (simp add: congruent.simps [of y x] List_type y)
    next
      case (Map_type xk xv)
      with "1.prems" False obtain yk yv where y: "resolve_transparent y = Map_type yk yv" and c: "congruent xk yk \<and> congruent xv yv"
        by (cases "resolve_transparent y") (simp_all add: congruent.simps [of x y])
      have "congruent yk xk \<and> congruent yv xv" using "1.IH" Map_type y c by blast
      then show ?thesis by (simp add: congruent.simps [of y x] Map_type y)
    next
      case (Record_type xf)
      with "1.prems" False obtain yf where y: "resolve_transparent y = Record_type yf" and c: "congruent_fields xf yf"
        by (cases "resolve_transparent y") (simp_all add: congruent.simps [of x y])
      have "congruent_fields yf xf" using "1.IH" Record_type y c by blast
      then show ?thesis by (simp add: congruent.simps [of y x] Record_type y)
    qed (insert "1.prems" False, simp add: congruent.simps [of x y], simp add: congruent.simps [of y x])+
  qed
qed (auto split: list.splits)

lemma congruent_fields_refl_if: "\<forall>p \<in> set fs. congruent (snd p) (snd p) \<Longrightarrow> congruent_fields fs fs"
  by (induction fs) auto

lemma congruent_refl: "congruent t t"
proof (induction t)
  case (Enriched_type t n as)
  then show ?case using congruent_transparent [of "Enriched_type t n as"] congruent_transparent' [of _ "Enriched_type t n as"]
      congruent_transparent [of t] congruent_transparent' [of _ t] by simp
next
  case (Record_type fs)
  have "congruent_fields fs fs" using Record_type by (intro congruent_fields_refl_if) (fastforce simp: snds.simps)
  then show ?case by (simp add: congruent.simps)
qed (simp_all add: congruent.simps)

text \<open>Patterns are inferred to be strings.\<close>

fun pattern_free :: "data \<Rightarrow> bool" where
  "pattern_free (Pat _) = False"
| "pattern_free (List_data xs) = (\<forall>x \<in> set xs. pattern_free x)"
| "pattern_free (Map_data ms) = (\<forall>(k, v) \<in> set ms. pattern_free k \<and> pattern_free v)"
| "pattern_free (Record_data rs) = (\<forall>(n, v) \<in> set rs. pattern_free v)"
| "pattern_free _ = True"

lemma infer_null: "infer x = Some t \<Longrightarrow> \<not> has_type t \<Longrightarrow> x = Null"
  by (cases x) (auto simp: infer.simps has_type_def split: option.splits)

lemma infer_rest_same: "infer_rest t xs = Some u \<Longrightarrow> u = t"
  by (induction xs) (auto split: option.splits if_splits)

lemma infer_elements_first: "infer_elements (x # xs) = Some t \<Longrightarrow> x = Null \<or> infer x = Some t"
  by (auto dest: infer_null infer_rest_same split: option.splits if_splits)

lemma type_check_Null [simp]: "type_check t Null"
  by (simp add: type_check.simps)

text \<open>Values that are no records, and whose elements are none.\<close>

fun record_free :: "data \<Rightarrow> bool" where
  "record_free (Record_data rs) \<longleftrightarrow> rs = []"
| "record_free (List_data xs) = (\<forall>x \<in> set xs. record_free x)"
| "record_free (Map_data ms) = (\<forall>(k, v) \<in> set ms. record_free k \<and> record_free v)"
| "record_free _ = True"

lemma infer_type_check: "infer d = Some t \<Longrightarrow> pattern_free d \<Longrightarrow> record_free d \<Longrightarrow> type_check t d"
proof (induction d arbitrary: t)
  case (List_data xs)
  then obtain u where u: "t = List_type u" "infer_elements xs = Some u" by (auto simp: infer.simps)
  have "type_check u x" if "xs = x # ys" for x ys
    using that u infer_elements_first [of x ys u] List_data.IH [of x u] List_data.prems(2,3) by auto
  then show ?case by (cases xs) (simp_all add: u type_check.simps [of "List_type u"])
next
  case (Map_data ms)
  then obtain k v where t: "t = Map_type k v" "infer_elements (map fst ms) = Some k" "infer_elements (map snd ms) = Some v"
    by (auto simp: infer.simps split: option.splits)
  show ?case
  proof (cases ms)
    case Nil
    then show ?thesis by (simp add: t type_check.simps [of "Map_type k v"])
  next
    case (Cons m ms')
    obtain a b where m: "m = (a, b)" by (cases m)
    have "a = Null \<or> infer a = Some k" "b = Null \<or> infer b = Some v"
      using t infer_elements_first [of a "map fst ms'" k] infer_elements_first [of b "map snd ms'" v]
      unfolding Cons m by simp_all
    moreover have "pattern_free a" "pattern_free b" "record_free a" "record_free b"
      using Map_data.prems(2,3) by (auto simp: Cons m)
    ultimately have "type_check k a" "type_check v b"
      using Map_data.IH [of m] unfolding Cons m by auto
    then show ?thesis by (simp add: t Cons m type_check.simps [of "Map_type k v"])
  qed
next
  case (Record_data rs)
  then show ?case by (auto simp: infer.simps type_check.simps [of "Record_type []"])
qed (auto simp: infer.simps type_check.simps)

text \<open>A record is rejected as soon as one of its values checks.\<close>

lemma infer_record_rejected:
  assumes "infer_record rs = Some fs" and "rs \<noteq> []" and "list_all (\<lambda>(n, v). pattern_free v \<and> record_free v) rs"
  shows "\<not> type_check_record fs rs"
proof (cases rs)
  case (Cons r rs')
  obtain n v where r: "r = (n, v)" by (cases r)
  then obtain t fs' where "infer v = Some t" "fs = (n, t) # fs'" using assms(1) Cons by (auto split: option.splits)
  then show ?thesis using infer_type_check [of v t] assms(3) Cons r by simp
qed (use assms(2) in simp)

end
