(* ===== verification/Table_Slice.thy ===== *)
theory Table_Slice
  imports Type_Model Prelude
begin

text \<open>
  Table slices (\<open>table_slice.hpp\<close>, \<open>table_slice.cpp\<close>): batches of events of one schema, the unit that the
  pipelines and the storage engine pass around. The chunk of a slice with its Arrow record batch is the
  contents \<open>encoded\<close>; the rows are opaque here. A default-constructed or moved-from slice has no chunk.
  The lemmas relate every operation to the rows of its arguments.
\<close>

section \<open>Table slices\<close>

record 'r encoded =
  enc_schema :: ty
  enc_rows :: "'r list"
  enc_import_time :: int

text \<open>The offset in the ID space is not part of the chunk; an ID is a 64-bit number and the largest is
  invalid.\<close>

record 'r table_slice =
  ts_chunk :: "'r encoded option"
  ts_offset :: u64

definition invalid_id :: u64 where
  "invalid_id = - 1"

definition ts_new :: "'r table_slice" where
  "ts_new = \<lparr>ts_chunk = None, ts_offset = invalid_id\<rparr>"

text \<open>The constructor from a record batch and a schema.\<close>

definition ts_make :: "'r list \<Rightarrow> ty \<Rightarrow> 'r table_slice" where
  "ts_make xs schema =
    \<lparr>ts_chunk = Some \<lparr>enc_schema = schema, enc_rows = xs, enc_import_time = 0\<rparr>, ts_offset = invalid_id\<rparr>"

definition ts_events :: "'r table_slice \<Rightarrow> 'r list" where
  "ts_events s = (case ts_chunk s of None \<Rightarrow> [] | Some e \<Rightarrow> enc_rows e)"

definition ts_rows :: "'r table_slice \<Rightarrow> nat" where
  "ts_rows s = length (ts_events s)"

definition ts_schema :: "'r table_slice \<Rightarrow> ty" where
  "ts_schema s = (case ts_chunk s of None \<Rightarrow> Null_type | Some e \<Rightarrow> enc_schema e)"

definition ts_import_time :: "'r table_slice \<Rightarrow> int" where
  "ts_import_time s = (case ts_chunk s of None \<Rightarrow> 0 | Some e \<Rightarrow> enc_import_time e)"

text \<open>Setting the import time of a slice without a chunk is unreachable code.\<close>

definition ts_set_import_time :: "int \<Rightarrow> 'r table_slice \<Rightarrow> 'r table_slice option" where
  "ts_set_import_time t s =
    (if t = ts_import_time s then Some s
     else case ts_chunk s of
       None \<Rightarrow> None
     | Some e \<Rightarrow> Some (s\<lparr>ts_chunk := Some (e\<lparr>enc_import_time := t\<rparr>)\<rparr>))"

definition ts_moved_from :: "'r table_slice \<Rightarrow> 'r table_slice" where
  "ts_moved_from s = s\<lparr>ts_chunk := None, ts_offset := invalid_id\<rparr>"

section \<open>Operations\<close>

text \<open>The offset of a part is computed without a test for an invalid one.\<close>

definition subslice :: "'r table_slice \<Rightarrow> nat \<Rightarrow> nat \<Rightarrow> 'r table_slice option" where
  "subslice s begin_row end_row = do {
     require (begin_row \<le> end_row);
     require (end_row \<le> ts_rows s);
     if begin_row = 0 \<and> end_row = ts_rows s then Some s
     else if begin_row = end_row then Some ts_new
     else ts_set_import_time (ts_import_time s)
       ((ts_make (take (end_row - begin_row) (drop begin_row (ts_events s))) (ts_schema s))
          \<lparr>ts_offset := ts_offset s + of_nat begin_row\<rparr>)
   }"

definition head_rows :: "'r table_slice \<Rightarrow> nat \<Rightarrow> 'r table_slice option" where
  "head_rows s n = subslice s 0 (min (ts_rows s) n)"

definition tail_rows :: "'r table_slice \<Rightarrow> nat \<Rightarrow> 'r table_slice option" where
  "tail_rows s n = subslice s (ts_rows s - min (ts_rows s) n) (ts_rows s)"

definition split_slice :: "'r table_slice \<Rightarrow> nat \<Rightarrow> ('r table_slice \<times> 'r table_slice) option" where
  "split_slice s partition_point =
    (if ts_rows s = 0 then Some (ts_new, ts_new)
     else if partition_point = 0 then Some (ts_new, s)
     else if ts_rows s \<le> partition_point then Some (s, ts_new)
     else do {
       lhs \<leftarrow> head_rows s partition_point;
       rhs \<leftarrow> tail_rows s (ts_rows s - partition_point);
       Some (lhs, rhs)
     })"

text \<open>The loop of the split of a vector; the slices before the current one are put in front on the way
  back.\<close>

fun split_slices :: "'r table_slice list \<Rightarrow> nat \<Rightarrow> ('r table_slice list \<times> 'r table_slice list) option" where
  "split_slices [] partition_point = Some ([], [])"
| "split_slices (s # events) partition_point =
    (if partition_point = ts_rows s then Some ([s], events)
     else if partition_point < ts_rows s then do {
       (split_lhs, split_rhs) \<leftarrow> split_slice s partition_point;
       Some ([split_lhs], split_rhs # events)
     } else do {
       (lhs, rhs) \<leftarrow> split_slices events (partition_point - ts_rows s);
       Some (s # lhs, rhs)
     })"

definition rows_of :: "'r table_slice list \<Rightarrow> nat" where
  "rows_of slices = fold (\<lambda>s result. result + ts_rows s) slices 0"

definition concatenate :: "'r table_slice list \<Rightarrow> 'r table_slice option" where
  "concatenate slices =
    (case filter (\<lambda>s. ts_rows s \<noteq> 0) slices of
       [] \<Rightarrow> Some ts_new
     | [s] \<Rightarrow> Some s
     | s # rest \<Rightarrow> do {
         require (list_all (\<lambda>x. ts_schema x = ts_schema s) (s # rest));
         ts_set_import_time (ts_import_time s)
           ((ts_make (concat (map ts_events (s # rest))) (ts_schema s))\<lparr>ts_offset := ts_offset s\<rparr>)
       })"

section \<open>Rows\<close>

lemma nths_map_nth: "nths xs A = map ((!) xs) (filter (\<lambda>i. i \<in> A) [0..<length xs])"
proof (induction xs rule: rev_induct)
  case (snoc x xs)
  have "map ((!) (xs @ [x])) (filter (\<lambda>i. i \<in> A) [0..<length xs]) = map ((!) xs) (filter (\<lambda>i. i \<in> A) [0..<length xs])"
    by (simp add: nth_append)
  then show ?case using snoc by (simp add: nths_append nth_append)
qed simp

text \<open>The events of a sequence of slices, in order.\<close>

definition events_of :: "'r table_slice list \<Rightarrow> 'r list" where
  "events_of ss = concat (map ts_events ss)"

lemma events_of_simps [simp]:
  "events_of [] = []" "events_of (s # ss) = ts_events s @ events_of ss"
  "events_of (ss @ ts) = events_of ss @ events_of ts"
  by (simp_all add: events_of_def)

lemma ts_simps [simp]:
  "ts_events ts_new = []" "ts_rows ts_new = 0" "ts_schema ts_new = Null_type"
  "ts_events (ts_make xs t) = xs" "ts_schema (ts_make xs t) = t" "ts_import_time (ts_make xs t) = 0"
  "ts_events (s\<lparr>ts_offset := i\<rparr>) = ts_events s" "ts_schema (s\<lparr>ts_offset := i\<rparr>) = ts_schema s"
  "ts_import_time (s\<lparr>ts_offset := i\<rparr>) = ts_import_time s"
  "ts_events (ts_moved_from s) = []" "ts_rows (ts_moved_from s) = 0"
  by (simp_all add: ts_new_def ts_make_def ts_events_def ts_rows_def ts_schema_def ts_import_time_def ts_moved_from_def)

lemma ts_rows_0 [simp]: "ts_rows s = 0 \<longleftrightarrow> ts_events s = []"
  by (simp add: ts_rows_def)

lemma length_events [simp]: "length (ts_events s) = ts_rows s"
  by (simp add: ts_rows_def)

lemma ts_rows_eq: "ts_events s = xs \<Longrightarrow> ts_rows s = length xs"
  by (simp add: ts_rows_def)

lemma set_import_time:
  fixes xs :: "'r list"
  shows "\<exists>r. ts_set_import_time t ((ts_make xs schema)\<lparr>ts_offset := i\<rparr>) = Some r \<and> ts_events r = xs
    \<and> ts_schema r = schema \<and> ts_import_time r = t \<and> ts_offset r = i"
  by (auto simp: ts_set_import_time_def ts_make_def ts_events_def ts_schema_def ts_import_time_def)

text \<open>What a part has in common with the slice that it was taken from.\<close>

definition part_of :: "'r table_slice \<Rightarrow> 'r table_slice \<Rightarrow> bool" where
  "part_of r s \<longleftrightarrow> ts_events r = []
    \<or> ts_events s \<noteq> [] \<and> ts_schema r = ts_schema s \<and> ts_import_time r = ts_import_time s"

lemma part_of_refl [simp]: "part_of s s"
  by (simp add: part_of_def)

lemma part_of_new [simp]: "part_of ts_new s"
  by (simp add: part_of_def)

lemma part_of_trans: "part_of x y \<Longrightarrow> part_of y z \<Longrightarrow> part_of x z"
  by (auto simp: part_of_def)

lemma subslice_spec:
  assumes "b \<le> e" and "e \<le> ts_rows s"
  shows "\<exists>r. subslice s b e = Some r \<and> ts_events r = take (e - b) (drop b (ts_events s)) \<and> part_of r s
    \<and> (b < e \<longrightarrow> ts_offset r = ts_offset s + of_nat b)"
  using assms set_import_time [where t = "ts_import_time s" and xs = "take (e - b) (drop b (ts_events s))" and schema = "ts_schema s"
      and i = "ts_offset s + of_nat b"]
  by (auto simp: subslice_def require_def part_of_def)

lemma subslice_rows:
  "b \<le> e \<Longrightarrow> e \<le> ts_rows s \<Longrightarrow> subslice s b e = Some r \<Longrightarrow> ts_rows r = e - b"
  using subslice_spec [of b e s] by (auto dest!: ts_rows_eq)

lemma subslice_out_of_range: "\<not> (b \<le> e \<and> e \<le> ts_rows s) \<Longrightarrow> subslice s b e = None"
  by (auto simp: subslice_def require_def)

lemma head_rows_spec: "\<exists>r. head_rows s n = Some r \<and> ts_events r = take n (ts_events s) \<and> part_of r s"
  using subslice_spec [of 0 "min (ts_rows s) n" s] by (auto simp: head_rows_def min_def split: if_splits)

lemma tail_rows_spec:
  "\<exists>r. tail_rows s n = Some r \<and> ts_events r = drop (ts_rows s - n) (ts_events s) \<and> part_of r s"
  using subslice_spec [of "ts_rows s - min (ts_rows s) n" "ts_rows s" s] by (auto simp: tail_rows_def min_def)

lemma split_slice_spec:
  "\<exists>l r. split_slice s n = Some (l, r) \<and> ts_events l = take n (ts_events s) \<and> ts_events r = drop n (ts_events s)
    \<and> part_of l s \<and> part_of r s"
proof (cases "0 < n \<and> n < ts_rows s")
  case True
  then show ?thesis
    using head_rows_spec [of s n] tail_rows_spec [of s "ts_rows s - n"]
    by (auto simp: split_slice_def simp del: ts_rows_0)
qed (auto simp: split_slice_def part_of_def)

lemma split_slices_spec:
  "\<exists>l r. split_slices ss n = Some (l, r) \<and> events_of l = take n (events_of ss) \<and> events_of r = drop n (events_of ss)
    \<and> (\<forall>x \<in> set l \<union> set r. \<exists>s \<in> set ss. part_of x s)"
proof (induction ss n rule: split_slices.induct)
  case (2 s ss n)
  show ?case
  proof (cases n "ts_rows s" rule: linorder_cases)
    case less
    then show ?thesis using split_slice_spec [of s n] by (fastforce simp: part_of_def)
  next
    case equal
    then show ?thesis by (auto simp: part_of_def)
  next
    case greater
    then show ?thesis using 2 by (fastforce simp: part_of_def)
  qed
qed simp

lemma rows_of_eq: "rows_of ss = length (events_of ss)"
proof -
  have "fold (\<lambda>s result. result + ts_rows s) ss n = n + length (events_of ss)" for n
    by (induction ss arbitrary: n) simp_all
  then show ?thesis by (simp add: rows_of_def)
qed

lemma events_of_filter: "events_of (filter (\<lambda>s. ts_rows s \<noteq> 0) ss) = events_of ss"
  by (induction ss) simp_all

text \<open>Concatenation keeps the rows; the offset and the import time are those of the first slice with rows.\<close>

lemma concatenate_spec:
  assumes "\<forall>s \<in> set ss. ts_events s \<noteq> [] \<longrightarrow> ts_schema s = t"
  shows "\<exists>r. concatenate ss = Some r \<and> ts_events r = events_of ss \<and> (ts_events r \<noteq> [] \<longrightarrow> ts_schema r = t)"
proof (cases "filter (\<lambda>s. ts_rows s \<noteq> 0) ss")
  case Nil
  then have "events_of ss = []" using events_of_filter [of ss] by simp
  then show ?thesis using Nil by (simp add: concatenate_def)
next
  case (Cons s rest)
  have s: "\<forall>x \<in> set (s # rest). ts_schema x = t" using assms unfolding Cons [symmetric] by simp
  have ev: "events_of ss = events_of (s # rest)" using events_of_filter [of ss] Cons by metis
  show ?thesis
  proof (cases rest)
    case Nil
    then show ?thesis using Cons s ev by (auto simp: concatenate_def)
  next
    case (Cons x xs)
    have "list_all (\<lambda>x. ts_schema x = ts_schema s) (s # rest)" using s by (auto simp: list_all_iff)
    then show ?thesis
      using \<open>filter _ ss = s # rest\<close> Cons s ev
        set_import_time [where t = "ts_import_time s" and xs = "events_of (s # rest)" and schema = "ts_schema s"
          and i = "ts_offset s"]
      by (auto simp: concatenate_def require_def events_of_def)
  qed
qed

end
