(* ===== verification/Record_Leaves.thy ===== *)
theory Record_Leaves
  imports Type_Model
begin

text \<open>
  The fields of nested records (\<open>record_type\<close> in \<open>type.cpp\<close>). Every traversal of the leaves is a loop
  over two stacks, the offset \<open>index\<close> and the records \<open>history\<close>, which always have the same height; a
  cursor is the stack of their pairs, with the innermost record (\<open>back()\<close>) first. The loops are
  compared with one recursive list of the leaves.
\<close>

section \<open>Cursors\<close>

type_synonym cursor = "(fields \<times> nat) list"

definition index_of :: "cursor \<Rightarrow> nat list" where
  "index_of c = rev (map snd c)"

fun bump :: "cursor \<Rightarrow> cursor" where
  "bump [] = []"
| "bump ((fs, p) # c) = (fs, Suc p) # c"

abbreviation fields_size :: "fields \<Rightarrow> nat" where
  "fields_size \<equiv> size_list (size_prod (\<lambda>_. 0) size)"

fun cursor_size :: "cursor \<Rightarrow> nat" where
  "cursor_size [] = 0"
| "cursor_size ((fs, p) # c) =
    Suc (fields_size (drop p fs)) + (\<Sum>(gs, q) \<leftarrow> c. Suc (fields_size (drop (Suc q) gs)))"

lemma cursor_size_bump: "cursor_size (bump c) < cursor_size ((fs, p) # c)"
  by (cases c rule: bump.cases) auto

lemma fields_size_drop: "p < length fs \<Longrightarrow> fields_size (drop p fs) = Suc (Suc (size (snd (fs ! p)))) + fields_size (drop (Suc p) fs)"
  by (cases "fs ! p") (simp add: Cons_nth_drop_Suc [symmetric])

lemma cursor_size_step: "p < length fs \<Longrightarrow> cursor_size ((fs, Suc p) # c) < cursor_size ((fs, p) # c)"
  by (simp add: fields_size_drop)

lemma as_record_size: "as_record t = Some gs \<Longrightarrow> fields_size gs < size t"
  by (auto simp: as_record_def dest: size_transparentD split: ty.splits)

lemma cursor_size_push:
  "p < length fs \<Longrightarrow> as_record (snd (fs ! p)) = Some gs \<Longrightarrow> cursor_size ((gs, 0) # (fs, p) # c) < cursor_size ((fs, p) # c)"
  by (auto dest!: as_record_size simp: fields_size_drop)

lemmas cursor_decreases = cursor_size_bump cursor_size_step cursor_size_push

declare cursor_size.simps(2) [simp del]

section \<open>The operations\<close>

type_synonym leaf = "nat list \<times> string \<times> ty"

function leaves_loop :: "cursor \<Rightarrow> leaf list" where
  "leaves_loop [] = []"
| "leaves_loop ((fs, p) # c) =
    (if p \<ge> length fs then leaves_loop (bump c)
     else case as_record (snd (fs ! p)) of
       None \<Rightarrow> (index_of ((fs, p) # c), fs ! p) # leaves_loop ((fs, Suc p) # c)
     | Some gs \<Rightarrow> leaves_loop ((gs, 0) # (fs, p) # c))"
  by pat_completeness auto
termination by (relation "measure cursor_size") (auto simp: cursor_decreases)

definition record_leaves :: "fields \<Rightarrow> leaf list" where
  "record_leaves fs = leaves_loop [(fs, 0)]"

function num_leaves_loop :: "cursor \<Rightarrow> nat \<Rightarrow> nat" where
  "num_leaves_loop [] n = n"
| "num_leaves_loop ((fs, p) # c) n =
    (if p \<ge> length fs then num_leaves_loop (bump c) n
     else case as_record (snd (fs ! p)) of
       None \<Rightarrow> num_leaves_loop ((fs, Suc p) # c) (Suc n)
     | Some gs \<Rightarrow> num_leaves_loop ((gs, 0) # (fs, p) # c) n)"
  by pat_completeness auto
termination by (relation "measure (cursor_size \<circ> fst)") (auto simp: cursor_decreases)

definition num_leaves :: "fields \<Rightarrow> nat" where
  "num_leaves fs = num_leaves_loop [(fs, 0)] 0"

text \<open>None is the failed assertion that the index is in bounds.\<close>

function resolve_flat_index_loop :: "nat \<Rightarrow> nat \<Rightarrow> cursor \<Rightarrow> nat list option" where
  "resolve_flat_index_loop flat_index current [] = None"
| "resolve_flat_index_loop flat_index current ((fs, p) # c) =
    (if p \<ge> length fs then resolve_flat_index_loop flat_index current (bump c)
     else case as_record (snd (fs ! p)) of
       None \<Rightarrow>
         if current = flat_index then Some (index_of ((fs, p) # c))
         else resolve_flat_index_loop flat_index (Suc current) ((fs, Suc p) # c)
     | Some gs \<Rightarrow> resolve_flat_index_loop flat_index current ((gs, 0) # (fs, p) # c))"
  by pat_completeness auto
termination by (relation "measure (\<lambda>(_, _, c). cursor_size c)") (auto simp: cursor_decreases)

definition resolve_flat_index :: "fields \<Rightarrow> nat \<Rightarrow> nat list option" where
  "resolve_flat_index fs flat_index = resolve_flat_index_loop flat_index 0 [(fs, 0)]"

text \<open>Offsets are ordered lexicographically.\<close>

fun offset_le :: "nat list \<Rightarrow> nat list \<Rightarrow> bool" where
  "offset_le [] ys = True"
| "offset_le (x # xs) [] = False"
| "offset_le (x # xs) (y # ys) = (x < y \<or> x = y \<and> offset_le xs ys)"

function flat_index_loop :: "nat list \<Rightarrow> cursor \<Rightarrow> nat \<Rightarrow> nat option" where
  "flat_index_loop index [] n = None"
| "flat_index_loop index ((fs, p) # c) n =
    (let current = index_of ((fs, p) # c) in
     if \<not> offset_le current index then None
     else if p \<ge> length fs then (if c = [] then None else flat_index_loop index (bump c) n)
     else case as_record (snd (fs ! p)) of
       None \<Rightarrow> if index = current then Some n else flat_index_loop index ((fs, Suc p) # c) (Suc n)
     | Some gs \<Rightarrow> if index = current then None else flat_index_loop index ((gs, 0) # (fs, p) # c) n)"
  by pat_completeness auto
termination by (relation "measure (\<lambda>(_, c, _). cursor_size c)") (auto simp: cursor_decreases)

definition flat_index :: "fields \<Rightarrow> nat list \<Rightarrow> nat option" where
  "flat_index fs index = (if index = [] then None else flat_index_loop index [(fs, 0)] 0)"

fun field_at :: "fields \<Rightarrow> nat list \<Rightarrow> (string \<times> ty) option" where
  "field_at fs [] = None"
| "field_at fs [i] = (if i < length fs then Some (fs ! i) else None)"
| "field_at fs (i # index) =
    (if i < length fs then
       (case as_record (snd (fs ! i)) of Some gs \<Rightarrow> field_at gs index | None \<Rightarrow> None)
     else None)"

fun key_at :: "fields \<Rightarrow> nat list \<Rightarrow> string option" where
  "key_at fs [] = None"
| "key_at fs [i] = (if i < length fs then Some (fst (fs ! i)) else None)"
| "key_at fs (i # index) =
    (if i < length fs then
       (case as_record (snd (fs ! i)) of
          Some gs \<Rightarrow> map_option (\<lambda>key. fst (fs ! i) @ ''.'' @ key) (key_at gs index)
        | None \<Rightarrow> None)
     else None)"

section \<open>The list of leaves\<close>

function leaf_list :: "nat \<Rightarrow> fields \<Rightarrow> leaf list" where
  "leaf_list i [] = []"
| "leaf_list i (f # fs) =
    (case as_record (snd f) of
       None \<Rightarrow> [([i], f)]
     | Some gs \<Rightarrow> map (map_prod ((#) i) id) (leaf_list 0 gs)) @ leaf_list (Suc i) fs"
  by pat_completeness auto
termination
proof (relation "measure (\<lambda>(_, fs). fields_size fs)", goal_cases)
  case (2 i f fs gs)
  then show ?case by (cases f) (auto dest: as_record_size)
next
  case (3 i f fs)
  then show ?case by (cases f) auto
qed simp

function pending_leaves :: "cursor \<Rightarrow> leaf list" where
  "pending_leaves [] = []"
| "pending_leaves ((fs, p) # c) =
    map (map_prod ((@) (index_of c)) id) (leaf_list p (drop p fs)) @ pending_leaves (bump c)"
  by pat_completeness auto
termination by (relation "measure cursor_size") (auto simp: cursor_decreases)

lemma index_of_Cons [simp]: "index_of ((fs, p) # c) = index_of c @ [p]"
  by (simp add: index_of_def)

lemma leaf_list_drop:
  "p \<ge> length fs \<Longrightarrow> leaf_list p (drop p fs) = []"
  "p < length fs \<Longrightarrow> as_record (snd (fs ! p)) = None
    \<Longrightarrow> leaf_list p (drop p fs) = ([p], fs ! p) # leaf_list (Suc p) (drop (Suc p) fs)"
  "p < length fs \<Longrightarrow> as_record (snd (fs ! p)) = Some gs
    \<Longrightarrow> leaf_list p (drop p fs) = map (map_prod ((#) p) id) (leaf_list 0 gs) @ leaf_list (Suc p) (drop (Suc p) fs)"
  by (simp_all add: Cons_nth_drop_Suc [symmetric])

text \<open>The three moves of a cursor.\<close>

lemma pending_exit: "p \<ge> length fs \<Longrightarrow> pending_leaves ((fs, p) # c) = pending_leaves (bump c)"
  by (simp add: leaf_list_drop)

lemma pending_leaf:
  "p < length fs \<Longrightarrow> as_record (snd (fs ! p)) = None
    \<Longrightarrow> pending_leaves ((fs, p) # c) = (index_of ((fs, p) # c), fs ! p) # pending_leaves ((fs, Suc p) # c)"
  by (simp add: leaf_list_drop)

lemma pending_enter:
  "p < length fs \<Longrightarrow> as_record (snd (fs ! p)) = Some gs
    \<Longrightarrow> pending_leaves ((fs, p) # c) = pending_leaves ((gs, 0) # (fs, p) # c)"
  by (simp add: leaf_list_drop comp_def map_prod_def case_prod_unfold)

lemmas pending_moves = pending_exit pending_leaf pending_enter

declare pending_leaves.simps(2) [simp del]

section \<open>The traversals visit the leaves in order\<close>

lemma leaves_loop_pending: "leaves_loop c = pending_leaves c"
  by (induction c rule: leaves_loop.induct) (simp_all add: pending_moves split: option.split)

lemma record_leaves_list: "record_leaves fs = leaf_list 0 fs"
  by (simp add: record_leaves_def leaves_loop_pending pending_leaves.simps map_prod_def index_of_def)

lemma num_leaves_pending: "num_leaves_loop c n = n + length (pending_leaves c)"
  by (induction c n rule: num_leaves_loop.induct) (simp_all add: pending_moves split: option.split)

lemma num_leaves_leaves: "num_leaves fs = length (record_leaves fs)"
  by (simp add: num_leaves_def num_leaves_pending record_leaves_def leaves_loop_pending)

lemma resolve_flat_index_pending:
  "n \<le> i \<Longrightarrow> resolve_flat_index_loop i n c
    = (if i < n + length (pending_leaves c) then Some (fst (pending_leaves c ! (i - n))) else None)"
proof (induction i n c rule: resolve_flat_index_loop.induct)
  case (2 i n fs p c)
  then show ?case
    by (cases "p \<ge> length fs"; cases "as_record (snd (fs ! p))")
      (auto simp: pending_moves nth_Cons' Suc_diff_Suc not_le)
qed simp

lemma resolve_flat_index_leaves:
  "resolve_flat_index fs i = (if i < num_leaves fs then Some (fst (record_leaves fs ! i)) else None)"
  using resolve_flat_index_pending [of 0 i "[(fs, 0)]"]
  by (simp add: resolve_flat_index_def num_leaves_leaves record_leaves_def leaves_loop_pending
      del: resolve_flat_index_loop.simps)

section \<open>Offsets of leaves\<close>

lemma leaf_list_index: "(index, f') \<in> set (leaf_list i fs) \<Longrightarrow> \<exists>j js. index = j # js \<and> i \<le> j"
proof (induction i fs arbitrary: index rule: leaf_list.induct)
  case (2 i g fs)
  then consider "index = [i]" | js where "index = i # js" | "(index, f') \<in> set (leaf_list (Suc i) fs)"
    by (auto split: option.splits)
  then show ?case
  proof cases
    case 3
    then have "\<exists>j js. index = j # js \<and> Suc i \<le> j" by (rule "2.IH"(2))
    then show ?thesis using Suc_leD by blast
  qed auto
qed simp

lemma offset_le_append: "offset_le (xs @ ys) (xs @ zs) = offset_le ys zs"
  by (induction xs) auto

lemma leaf_list_field:
  "(index, f) \<in> set (leaf_list i fs) \<Longrightarrow> field_at (us @ fs) index = Some f" if "i = length us"
  using that
proof (induction i fs arbitrary: us index rule: leaf_list.induct)
  case (2 i g fs)
  show ?case
  proof (cases "(index, f) \<in> set (leaf_list (Suc i) fs)")
    case True
    then show ?thesis using "2.IH"(2) [of index "us @ [g]"] "2.prems" by simp
  next
    case False
    show ?thesis
    proof (cases "as_record (snd g)")
      case None
      then show ?thesis using 2 False by (auto simp: nth_append)
    next
      case (Some gs)
      with 2 False obtain js where js: "index = i # js" "(js, f) \<in> set (leaf_list 0 gs)" by auto
      then have "field_at gs js = Some f" using "2.IH"(1) [OF Some, of js "[]"] by simp
      moreover obtain j ks where "js = j # ks" using leaf_list_index [OF js(2)] by blast
      ultimately show ?thesis using js Some "2.prems" by (simp add: nth_append)
    qed
  qed
qed simp

lemma record_leaves_field: "(index, f) \<in> set (record_leaves fs) \<Longrightarrow> field_at fs index = Some f"
  using leaf_list_field [where i = 0 and us = "[]" and fs = fs and index = index and f = f] by (simp add: record_leaves_list)

lemma leaf_list_distinct: "distinct (map fst (leaf_list i fs))"
proof (induction i fs rule: leaf_list.induct)
  case (2 i g fs)
  have "index \<notin> fst ` set (leaf_list (Suc i) fs)" if "index = i # js" for index js
    using that leaf_list_index by fastforce
  then show ?case using 2 by (cases "as_record (snd g)") (auto simp: distinct_map inj_on_def)
qed simp

lemma offset_le_next: "offset_le (us @ [Suc q]) index \<Longrightarrow> offset_le (us @ q # vs) index"
  by (induction us index rule: offset_le.induct) (auto split: list.splits elim: offset_le.elims)

lemma pending_ge: "(index, f) \<in> set (pending_leaves c) \<Longrightarrow> c \<noteq> [] \<Longrightarrow> offset_le (index_of c) index"
proof (induction c rule: pending_leaves.induct)
  case (2 fs p c)
  show ?case
  proof (cases "(index, f) \<in> set (pending_leaves (bump c))")
    case True
    then obtain gs q c' where c: "c = (gs, q) # c'" by (cases c rule: bump.cases) auto
    then have "offset_le (index_of c' @ [Suc q]) index" using 2 True by simp
    then show ?thesis by (simp add: c offset_le_next)
  next
    case False
    then obtain js where "index = index_of c @ js" "(js, f) \<in> set (leaf_list p (drop p fs))"
      using "2.prems" by (auto simp: pending_leaves.simps)
    then show ?thesis using leaf_list_index by (fastforce simp: offset_le_append)
  qed
qed simp

lemma offset_le_shorter: "\<not> offset_le (xs @ [x]) xs"
  by (induction xs) auto

lemma flat_index_pending:
  "flat_index_loop index c n = Some i \<longleftrightarrow>
    (\<exists>k < length (pending_leaves c). i = n + k \<and> index = fst (pending_leaves c ! k)
      \<and> (\<forall>l < k. index \<noteq> fst (pending_leaves c ! l)))"
proof (induction index c n rule: flat_index_loop.induct)
  case (2 index fs p c n)
  show ?case
  proof (cases "offset_le (index_of ((fs, p) # c)) index")
    case False
    then have "index \<notin> fst ` set (pending_leaves ((fs, p) # c))" using pending_ge by fastforce
    then have "\<forall>k < length (pending_leaves ((fs, p) # c)). index \<noteq> fst (pending_leaves ((fs, p) # c) ! k)"
      using nth_mem by blast
    then show ?thesis using False by auto
  next
    case le: True
    show ?thesis
    proof (cases "p \<ge> length fs")
      case True
      then show ?thesis using 2 le by (cases "c = []") (simp_all add: pending_exit)
    next
      case less: False
      show ?thesis
      proof (cases "as_record (snd (fs ! p))")
        case None
        show ?thesis
        proof (cases "index = index_of ((fs, p) # c)")
          case True
          then show ?thesis using le less None by (auto simp: pending_leaf nth_Cons' )
        next
          case False
          then have "flat_index_loop index ((fs, p) # c) n = flat_index_loop index ((fs, Suc p) # c) (Suc n)"
            using le less None by simp
          then show ?thesis using False less None "2.IH"(2) [OF refl] le
            by (simp add: pending_leaf Ex_less_Suc2 All_less_Suc2)
        qed
      next
        case (Some gs)
        have "index \<notin> fst ` set (pending_leaves ((fs, p) # c))" if "index = index_of ((fs, p) # c)"
        proof
          assume "index \<in> fst ` set (pending_leaves ((fs, p) # c))"
          then have "offset_le (index_of ((gs, 0) # (fs, p) # c)) index"
            using pending_ge [of index _ "(gs, 0) # (fs, p) # c"] less Some by (auto simp: pending_enter simp del: index_of_Cons)
          then show False using that offset_le_shorter [of "index_of c @ [p]" 0] by simp
        qed
        then have nomatch: "index = index_of ((fs, p) # c)
            \<Longrightarrow> \<forall>k < length (pending_leaves ((fs, p) # c)). index \<noteq> fst (pending_leaves ((fs, p) # c) ! k)"
          using nth_mem by blast
        show ?thesis
        proof (cases "index = index_of ((fs, p) # c)")
          case True
          then show ?thesis using nomatch le less Some by auto
        next
          case False
          then show ?thesis using "2.IH"(3) [OF refl] le less Some by (simp add: pending_enter)
        qed
      qed
    qed
  qed
qed simp

lemma flat_index_leaves:
  "flat_index fs index = Some i \<longleftrightarrow> i < num_leaves fs \<and> fst (record_leaves fs ! i) = index"
proof (cases "index = []")
  case True
  have "fst (record_leaves fs ! i) \<noteq> []" if "i < num_leaves fs"
  proof -
    obtain js f where e: "record_leaves fs ! i = (js, f)" by (cases "record_leaves fs ! i")
    then have "(js, f) \<in> set (leaf_list 0 fs)"
      using that nth_mem [of i "record_leaves fs"] by (simp add: num_leaves_leaves record_leaves_list)
    then show ?thesis using leaf_list_index [of js f 0 fs] e by auto
  qed
  then show ?thesis using True by (auto simp: flat_index_def)
next
  case False
  have "distinct (map fst (record_leaves fs))" by (simp add: record_leaves_list leaf_list_distinct)
  then have uniq: "\<forall>l < k. fst (record_leaves fs ! k) \<noteq> fst (record_leaves fs ! l)" if "k < num_leaves fs" for k
    using that by (auto simp: num_leaves_leaves distinct_conv_nth)
  then show ?thesis
    using False by (auto simp: flat_index_def flat_index_pending num_leaves_leaves record_leaves_def leaves_loop_pending
        simp del: flat_index_loop.simps)
qed

lemma flat_index_roundtrip:
  "flat_index fs index = Some i \<longleftrightarrow> resolve_flat_index fs i = Some index"
  by (auto simp: flat_index_leaves resolve_flat_index_leaves)

section \<open>Keys\<close>

text \<open>\<open>resolve_key\<close> without a schema name: the cursor carries the part of the key that is left.\<close>

type_synonym key_cursor = "(fields \<times> string \<times> nat) list"

fun key_bump :: "key_cursor \<Rightarrow> key_cursor" where
  "key_bump [] = []"
| "key_bump ((fs, key, p) # c) = (fs, key, Suc p) # c"

definition key_index :: "key_cursor \<Rightarrow> nat list" where
  "key_index c = rev (map (snd \<circ> snd) c)"

definition plain_cursor :: "key_cursor \<Rightarrow> cursor" where
  "plain_cursor c = map (\<lambda>(fs, key, p). (fs, p)) c"

lemma plain_cursor_simps [simp]:
  "plain_cursor [] = []" "plain_cursor ((fs, key, p) # c) = (fs, p) # plain_cursor c"
  "plain_cursor (key_bump c) = bump (plain_cursor c)"
  by (simp_all add: plain_cursor_def) (cases c rule: key_bump.cases; simp)

definition strip_prefix :: "string \<Rightarrow> string \<Rightarrow> string option" where
  "strip_prefix pre s = (if take (length pre) s = pre then Some (drop (length pre) s) else None)"

function resolve_key_loop :: "key_cursor \<Rightarrow> nat list option" where
  "resolve_key_loop [] = None"
| "resolve_key_loop ((fs, key, p) # c) =
    (if p \<ge> length fs \<or> key = [] then resolve_key_loop (key_bump c)
     else if key = fst (fs ! p) then Some (key_index ((fs, key, p) # c))
     else case as_record (snd (fs ! p)) of
       None \<Rightarrow> resolve_key_loop ((fs, key, Suc p) # c)
     | Some gs \<Rightarrow>
         (case strip_prefix (fst (fs ! p) @ ''.'') key of
            Some rest \<Rightarrow> resolve_key_loop ((gs, rest, 0) # (fs, key, p) # c)
          | None \<Rightarrow> resolve_key_loop ((fs, key, Suc p) # c)))"
  by pat_completeness auto
termination by (relation "measure (cursor_size \<circ> plain_cursor)") (auto simp: cursor_decreases)

definition resolve_key :: "fields \<Rightarrow> string \<Rightarrow> nat list option" where
  "resolve_key fs key = resolve_key_loop [(fs, key, 0)]"

function key_find :: "nat \<Rightarrow> fields \<Rightarrow> string \<Rightarrow> nat list option" where
  "key_find i [] key = None"
| "key_find i (f # fs) key =
    (if key = [] then None
     else if key = fst f then Some [i]
     else case as_record (snd f) of
       None \<Rightarrow> key_find (Suc i) fs key
     | Some gs \<Rightarrow>
         (case strip_prefix (fst f @ ''.'') key of
            None \<Rightarrow> key_find (Suc i) fs key
          | Some rest \<Rightarrow>
              (case key_find 0 gs rest of
                 Some index \<Rightarrow> Some (i # index)
               | None \<Rightarrow> key_find (Suc i) fs key)))"
  by pat_completeness auto

lemma fields_size_Cons: "fields_size fs < fields_size (f # fs)"
  "as_record (snd f) = Some gs \<Longrightarrow> fields_size gs < fields_size (f # fs)"
  by (cases f; auto dest: as_record_size)+

termination key_find
  by (relation "measure (\<lambda>(_, fs, _). fields_size fs)") (simp_all only: in_measure prod.case wf_measure fields_size_Cons)

function pending_key :: "key_cursor \<Rightarrow> nat list option" where
  "pending_key [] = None"
| "pending_key ((fs, key, p) # c) =
    (case key_find p (drop p fs) key of
       Some index \<Rightarrow> Some (key_index c @ index)
     | None \<Rightarrow> pending_key (key_bump c))"
  by pat_completeness auto
termination by (relation "measure (cursor_size \<circ> plain_cursor)") (auto simp: cursor_decreases)

lemma key_index_simps [simp]: "key_index [] = []" "key_index ((fs, key, p) # c) = key_index c @ [p]"
  by (simp_all add: key_index_def)

lemma key_find_empty [simp]: "key_find i fs [] = None"
  by (cases fs) auto

lemma key_find_drop:
  "p < length fs \<Longrightarrow> key_find p (drop p fs) key = key_find p (fs ! p # drop (Suc p) fs) key"
  by (simp add: Cons_nth_drop_Suc)

lemma resolve_key_pending: "resolve_key_loop c = pending_key c"
proof (induction c rule: resolve_key_loop.induct)
  case (2 fs key p c)
  show ?case
  proof (cases "p \<ge> length fs \<or> key = [] \<or> key = fst (fs ! p)")
    case True
    then show ?thesis using "2.IH"(1) by (cases "p \<ge> length fs \<or> key = []") (auto simp: key_find_drop)
  next
    case False
    then show ?thesis
      using "2.IH"(2-4) by (cases "as_record (snd (fs ! p))"; cases "strip_prefix (fst (fs ! p) @ ''.'') key")
        (simp_all add: key_find_drop split: option.splits)
  qed
qed simp

lemma resolve_key_find: "resolve_key fs key = key_find 0 fs key"
  by (simp add: resolve_key_def resolve_key_pending split: option.split)

lemma strip_prefix_Some: "strip_prefix pre s = Some rest \<longleftrightarrow> s = pre @ rest"
  by (auto simp: strip_prefix_def) (metis append_take_drop_id)

lemma key_find_cases:
  assumes "key_find i (f # fs) key = Some index"
  obtains (hit) "key = fst f" "index = [i]"
  | (enter) gs rest idx where "as_record (snd f) = Some gs" "key = fst f @ ''.'' @ rest" "key_find 0 gs rest = Some idx" "index = i # idx"
  | (later) "key_find (Suc i) fs key = Some index"
proof (cases "key = fst f")
  case True
  then show ?thesis using assms hit by (auto split: if_splits)
next
  case False
  then have key: "key \<noteq> []" using assms by auto
  show ?thesis
  proof (cases "as_record (snd f)")
    case None
    then show ?thesis using assms key False later by simp
  next
    case (Some gs)
    show ?thesis
    proof (cases "strip_prefix (fst f @ ''.'') key")
      case None
      then show ?thesis using assms key False Some later by simp
    next
      case (Some rest)
      then show ?thesis
        using assms key False \<open>as_record (snd f) = Some gs\<close> enter [of gs rest] later
          strip_prefix_Some [of "fst f @ ''.''" key rest]
        by (cases "key_find 0 gs rest") simp_all
    qed
  qed
qed

lemma key_find_None:
  assumes "key_find i (f # fs) key = None" and "key \<noteq> []"
  shows "key \<noteq> fst f" and "key_find (Suc i) fs key = None"
    and "as_record (snd f) = Some gs \<Longrightarrow> key = fst f @ ''.'' @ rest \<Longrightarrow> key_find 0 gs rest = None"
  using assms strip_prefix_Some [of "fst f @ ''.''" key rest] by (auto split: if_splits option.splits)

lemma key_find_sound: "key_find i fs key = Some index \<Longrightarrow> length us = i \<Longrightarrow> key_at (us @ fs) index = Some key"
proof (induction fs arbitrary: i key us index rule: measure_induct_rule [of fields_size])
  case (less fs)
  show ?case
  proof (cases fs)
    case (Cons f fs')
    from less.prems(1) [unfolded Cons] show ?thesis
    proof (cases rule: key_find_cases)
      case hit
      then show ?thesis using Cons less.prems(2) by (simp add: nth_append)
    next
      case (enter gs rest idx)
      then have "key_at ([] @ gs) idx = Some rest"
        using less.IH [of gs 0 rest idx "[]"] fields_size_Cons(2) Cons by simp
      moreover from this obtain j js where "idx = j # js" by (cases idx) auto
      ultimately show ?thesis using enter Cons less.prems by (simp add: nth_append)
    next
      case later
      then have "key_at ((us @ [f]) @ fs') index = Some key"
        using less.IH [of fs' "Suc i" key index "us @ [f]"] fields_size_Cons(1) Cons less.prems(2) by simp
      then show ?thesis by (simp add: Cons)
    qed
  qed (use less.prems in simp)
qed

lemma key_at_named: "key_at fs index = Some [] \<Longrightarrow> field_at fs index = Some g \<Longrightarrow> fst g = []"
  by (cases "(fs, index)" rule: field_at.cases) (auto split: if_splits option.splits)

lemma key_find_complete:
  "key_at (us @ fs) index = Some key \<Longrightarrow> field_at (us @ fs) index = Some g \<Longrightarrow> fst g \<noteq> []
    \<Longrightarrow> length us = i \<Longrightarrow> i \<le> hd index \<Longrightarrow> key_find i fs key \<noteq> None"
proof (induction fs arbitrary: i key us index rule: measure_induct_rule [of fields_size])
  case (less fs)
  obtain j js where index: "index = j # js" using less.prems(1) by (cases index) auto
  have key: "key \<noteq> []" using key_at_named less.prems by blast
  have j: "j < length (us @ fs)" using less.prems(1) index by (cases js) (auto split: if_splits)
  then obtain f fs' where fs: "fs = f # fs'" using less.prems(4,5) index by (cases fs) auto
  show ?case
  proof
    assume "key_find i fs key = None"
    note no = key_find_None [OF this [unfolded fs] key]
    show False
    proof (cases "j = i")
      case True
      then have f: "(us @ fs) ! j = f" using less.prems(4) fs by (simp add: nth_append)
      then obtain k ks where js: "js = k # ks" using less.prems(1) no(1) index j by (cases js) auto
      then obtain gs rest where g: "as_record (snd f) = Some gs" "key = fst f @ ''.'' @ rest"
        "key_at gs js = Some rest" "field_at gs js = Some g"
      proof (cases "as_record (snd f)")
        case None
        then show ?thesis using less.prems(1) index f j js by simp
      next
        case (Some gs)
        then show ?thesis using that [of gs] less.prems(1,2) index f j js by auto
      qed
      have sub: "fields_size gs < fields_size fs" using fields_size_Cons(2) [OF g(1)] unfolding fs .
      have "key_find 0 gs rest \<noteq> None"
        by (rule less.IH [OF sub, where us = "[]" and index = js and key = rest and i = 0, unfolded append_Nil,
              OF g(3,4) less.prems(3) list.size(3) le0])
      then show False using no(3) [OF g(1,2)] by simp
    next
      case False
      then have "Suc i \<le> hd index" using less.prems(5) index by simp
      moreover have sub: "fields_size fs' < fields_size fs" unfolding fs by (rule fields_size_Cons(1))
      moreover have "(us @ [f]) @ fs' = us @ fs" "length (us @ [f]) = Suc i" using less.prems(4) by (simp_all add: fs)
      ultimately have "key_find (Suc i) fs' key \<noteq> None"
        using less.IH [OF sub, where us = "us @ [f]" and index = index and key = key and i = "Suc i"] less.prems(1-3) by metis
      then show False using no(2) by simp
    qed
  qed
qed

text \<open>\<open>resolve_key\<close> yields an offset with this key if there is one.\<close>

lemma resolve_key_sound: "resolve_key fs key = Some index \<Longrightarrow> key_at fs index = Some key"
  using key_find_sound [of 0 fs key index "[]"] by (simp only: resolve_key_find append_Nil list.size)

lemma resolve_key_complete:
  "key_at fs index = Some key \<Longrightarrow> field_at fs index = Some g \<Longrightarrow> fst g \<noteq> [] \<Longrightarrow> resolve_key fs key \<noteq> None"
  using key_find_complete [of "[]" fs index key g 0] by (simp add: resolve_key_find)

end
