(* ===== verification/Expression.thy ===== *)
theory Expression
  imports Record_Leaves
begin

text \<open>
  Query expressions (\<open>expression.hpp\<close>, \<open>expression.cpp\<close>) and the visitors that rewrite them
  (\<open>expression_visitors.cpp\<close>): a visitor is one recursive function with a clause per alternative of
  the node. The constructor of an expression asserts that a connective is not empty; \<open>expr_ok\<close> states
  this for every node, and the rewritings are shown to keep it.
\<close>

section \<open>Expressions\<close>

datatype meta_kind = Schema | Schema_id | Import_time | Internal

datatype operand =
    Meta_extractor meta_kind
  | Field_extractor string
  | Type_extractor ty
  | Data_extractor ty nat
  | Data data

record predicate =
  pred_lhs :: operand
  pred_op :: relational_operator
  pred_rhs :: operand

datatype expression =
    None_expr
  | Conjunction "expression list"
  | Disjunction "expression list"
  | Negation expression
  | Predicate predicate

text \<open>Equality compares the alternatives and then their contents; only data are compared by an
  equality of their own.\<close>

definition operand_eq :: "operand \<Rightarrow> operand \<Rightarrow> bool" where
  "operand_eq x y = (case x of Data d \<Rightarrow> (case y of Data e \<Rightarrow> data_eq d e | _ \<Rightarrow> False) | _ \<Rightarrow> x = y)"

definition predicate_eq :: "predicate \<Rightarrow> predicate \<Rightarrow> bool" where
  "predicate_eq x y \<longleftrightarrow>
    operand_eq (pred_lhs x) (pred_lhs y) \<and> pred_op x = pred_op y \<and> operand_eq (pred_rhs x) (pred_rhs y)"

fun expr_eq :: "expression \<Rightarrow> expression \<Rightarrow> bool" and exprs_eq :: "expression list \<Rightarrow> expression list \<Rightarrow> bool" where
  "expr_eq None_expr y \<longleftrightarrow> y = None_expr"
| "expr_eq (Conjunction xs) y = (case y of Conjunction ys \<Rightarrow> exprs_eq xs ys | _ \<Rightarrow> False)"
| "expr_eq (Disjunction xs) y = (case y of Disjunction ys \<Rightarrow> exprs_eq xs ys | _ \<Rightarrow> False)"
| "expr_eq (Negation x) y = (case y of Negation z \<Rightarrow> expr_eq x z | _ \<Rightarrow> False)"
| "expr_eq (Predicate p) y = (case y of Predicate q \<Rightarrow> predicate_eq p q | _ \<Rightarrow> False)"
| "exprs_eq [] ys \<longleftrightarrow> ys = []"
| "exprs_eq (x # xs) ys = (case ys of [] \<Rightarrow> False | y # ys \<Rightarrow> expr_eq x y \<and> exprs_eq xs ys)"

fun expr_ok :: "expression \<Rightarrow> bool" where
  "expr_ok None_expr = True"
| "expr_ok (Conjunction xs) \<longleftrightarrow> xs \<noteq> [] \<and> (\<forall>x \<in> set xs. expr_ok x)"
| "expr_ok (Disjunction xs) \<longleftrightarrow> xs \<noteq> [] \<and> (\<forall>x \<in> set xs. expr_ok x)"
| "expr_ok (Negation x) \<longleftrightarrow> expr_ok x"
| "expr_ok (Predicate p) = True"

section \<open>Positions\<close>

text \<open>The offset of the root is \<open>[0]\<close>; \<open>at\<close> compares its first component only if it is the only one.\<close>

definition child_at :: "expression \<Rightarrow> nat \<Rightarrow> expression option" where
  "child_at e i = (case e of
      Conjunction xs \<Rightarrow> if i < length xs then Some (xs ! i) else None
    | Disjunction xs \<Rightarrow> if i < length xs then Some (xs ! i) else None
    | Negation x \<Rightarrow> if i = 0 then Some x else None
    | _ \<Rightarrow> None)"

fun descend :: "expression \<Rightarrow> nat list \<Rightarrow> expression option" where
  "descend e [] = Some e"
| "descend e (i # is') = (case child_at e i of None \<Rightarrow> None | Some x \<Rightarrow> descend x is')"

fun expr_at :: "expression \<Rightarrow> nat list \<Rightarrow> expression option" where
  "expr_at e [] = None"
| "expr_at e [i] = (if i = 0 then Some e else None)"
| "expr_at e (_ # is') = descend e is'"

text \<open>The labeler visits the nodes in preorder, with the offset of each.\<close>

fun labels :: "nat list \<Rightarrow> expression \<Rightarrow> (nat list \<times> expression) list"
  and labels_from :: "nat list \<Rightarrow> nat \<Rightarrow> expression list \<Rightarrow> (nat list \<times> expression) list" where
  "labels off None_expr = [(off, None_expr)]"
| "labels off (Conjunction xs) = (off, Conjunction xs) # labels_from off 0 xs"
| "labels off (Disjunction xs) = (off, Disjunction xs) # labels_from off 0 xs"
| "labels off (Negation x) = (off, Negation x) # labels (off @ [0]) x"
| "labels off (Predicate p) = [(off, Predicate p)]"
| "labels_from off i [] = []"
| "labels_from off i (x # xs) = labels (off @ [i]) x @ labels_from off (Suc i) xs"

definition label_nodes :: "expression \<Rightarrow> (nat list \<times> expression) list" where
  "label_nodes e = labels [0] e"

section \<open>Rewriting\<close>

fun for_each_predicate :: "(predicate \<Rightarrow> 'e + expression) \<Rightarrow> expression \<Rightarrow> 'e + expression"
  and for_each_in :: "(predicate \<Rightarrow> 'e + expression) \<Rightarrow> expression list \<Rightarrow> 'e + expression list" where
  "for_each_predicate f None_expr = Inr None_expr"
| "for_each_predicate f (Conjunction xs) = (case for_each_in f xs of Inl e \<Rightarrow> Inl e | Inr ys \<Rightarrow> Inr (Conjunction ys))"
| "for_each_predicate f (Disjunction xs) = (case for_each_in f xs of Inl e \<Rightarrow> Inl e | Inr ys \<Rightarrow> Inr (Disjunction ys))"
| "for_each_predicate f (Negation x) = (case for_each_predicate f x of Inl e \<Rightarrow> Inl e | Inr y \<Rightarrow> Inr (Negation y))"
| "for_each_predicate f (Predicate p) = f p"
| "for_each_in f [] = Inr []"
| "for_each_in f (x # xs) = (case for_each_predicate f x of
      Inl e \<Rightarrow> Inl e
    | Inr y \<Rightarrow> (case for_each_in f xs of Inl e \<Rightarrow> Inl e | Inr ys \<Rightarrow> Inr (y # ys)))"

text \<open>A connective with one operand is replaced by the operand.\<close>

definition connective :: "(expression list \<Rightarrow> expression) \<Rightarrow> expression list \<Rightarrow> expression" where
  "connective C xs = (if length xs = 1 then hd xs else C xs)"

fun prune_meta :: "expression \<Rightarrow> expression" and prune_meta_operands :: "expression list \<Rightarrow> expression list" where
  "prune_meta None_expr = None_expr"
| "prune_meta (Conjunction xs) =
    (let pruned = prune_meta_operands xs in if pruned = [] then None_expr else connective Conjunction pruned)"
| "prune_meta (Disjunction xs) =
    (let pruned = prune_meta_operands xs in if pruned = [] then None_expr else connective Disjunction pruned)"
| "prune_meta (Negation x) = (let y = prune_meta x in if y = None_expr then y else Negation y)"
| "prune_meta (Predicate p) =
    (case (pred_lhs p, pred_rhs p) of
       (Meta_extractor _, _) \<Rightarrow> None_expr
     | (_, Meta_extractor _) \<Rightarrow> None_expr
     | _ \<Rightarrow> Predicate p)"
| "prune_meta_operands [] = []"
| "prune_meta_operands (x # xs) =
    (let y = prune_meta x in (if y = None_expr then [] else [y]) @ prune_meta_operands xs)"

function hoist :: "expression \<Rightarrow> expression"
  and hoist_conjunction :: "expression list \<Rightarrow> expression list"
  and hoist_disjunction :: "expression list \<Rightarrow> expression list"
  and hoist_all :: "expression list \<Rightarrow> expression list" where
  "hoist None_expr = None_expr"
| "hoist (Conjunction xs) = connective Conjunction (hoist_conjunction xs)"
| "hoist (Disjunction xs) = connective Disjunction (hoist_disjunction xs)"
| "hoist (Negation x) = Negation (hoist x)"
| "hoist (Predicate p) = Predicate p"
| "hoist_conjunction [] = []"
| "hoist_conjunction (x # xs) =
    (case x of Conjunction inner \<Rightarrow> hoist_all inner | _ \<Rightarrow> [hoist x]) @ hoist_conjunction xs"
| "hoist_disjunction [] = []"
| "hoist_disjunction (x # xs) =
    (case x of Disjunction inner \<Rightarrow> hoist_all inner | _ \<Rightarrow> [hoist x]) @ hoist_disjunction xs"
| "hoist_all [] = []"
| "hoist_all (x # xs) = hoist x # hoist_all xs"
  by pat_completeness auto
termination
  by (relation "measure (\<lambda>z. case z of Inl (Inl x) \<Rightarrow> size x | Inl (Inr xs) \<Rightarrow> size_list size xs
      | Inr (Inl xs) \<Rightarrow> size_list size xs | Inr (Inr xs) \<Rightarrow> size_list size xs)") auto

definition is_extractor :: "operand \<Rightarrow> bool" where
  "is_extractor x = (case x of Data _ \<Rightarrow> False | _ \<Rightarrow> True)"

definition align_predicate :: "predicate \<Rightarrow> predicate" where
  "align_predicate p =
    (if is_extractor (pred_lhs p) \<or> \<not> is_extractor (pred_rhs p) then p
     else \<lparr>pred_lhs = pred_rhs p, pred_op = flip_op (pred_op p), pred_rhs = pred_lhs p\<rparr>)"

fun align :: "expression \<Rightarrow> expression" where
  "align None_expr = None_expr"
| "align (Conjunction xs) = Conjunction (map align xs)"
| "align (Disjunction xs) = Disjunction (map align xs)"
| "align (Negation x) = Negation (align x)"
| "align (Predicate p) = Predicate (align_predicate p)"

fun denegate :: "bool \<Rightarrow> expression \<Rightarrow> expression" where
  "denegate neg None_expr = None_expr"
| "denegate neg (Conjunction xs) = (if neg then Disjunction else Conjunction) (map (denegate neg) xs)"
| "denegate neg (Disjunction xs) = (if neg then Conjunction else Disjunction) (map (denegate neg) xs)"
| "denegate neg (Negation x) =
    (case x of Negation y \<Rightarrow> denegate neg y | _ \<Rightarrow> denegate (\<not> neg) x)"
| "denegate neg (Predicate p) = Predicate (p\<lparr>pred_op := (if neg then negate (pred_op p) else pred_op p)\<rparr>)"

text \<open>The deduplicator keeps the first of the equal operands; it expects negations to be gone.\<close>

fun dedup :: "expression \<Rightarrow> expression" and dedup_operands :: "expression list \<Rightarrow> expression list \<Rightarrow> expression list" where
  "dedup None_expr = None_expr"
| "dedup (Conjunction xs) = Conjunction (dedup_operands [] xs)"
| "dedup (Disjunction xs) = Disjunction (dedup_operands [] xs)"
| "dedup (Negation x) = dedup x"
| "dedup (Predicate p) = Predicate p"
| "dedup_operands result [] = result"
| "dedup_operands result (x # xs) =
    (let p = dedup x in
     dedup_operands (if list_ex (\<lambda>r. expr_eq r p) result then result else result @ [p]) xs)"

definition normalize :: "expression \<Rightarrow> expression" where
  "normalize expr = hoist (dedup (denegate False (align (hoist expr))))"

section \<open>Validation\<close>

text \<open>The operator of the predicate that is being visited is a member of the visitor; here it is an
  argument. Only the kind of the error is kept.\<close>

definition validate_meta :: "meta_kind \<Rightarrow> relational_operator \<Rightarrow> data \<Rightarrow> caf_error + unit" where
  "validate_meta kind op d =
    (if kind \<in> {Schema, Schema_id} \<and> \<not> (case d of Str _ \<Rightarrow> True | Pat _ \<Rightarrow> True | _ \<Rightarrow> False)
     then Inl (Syntax_error ''schema meta extractor'')
     else if kind = Import_time \<and> (\<not> (case d of Time _ \<Rightarrow> True | _ \<Rightarrow> False)
       \<or> op \<notin> {Less, Less_equal, Greater, Greater_equal})
     then Inl (Syntax_error ''import_time'')
     else Inr ())"

definition validate_predicate :: "predicate \<Rightarrow> caf_error + unit" where
  "validate_predicate p =
    (case (pred_lhs p, pred_rhs p) of
       (Meta_extractor kind, Data d) \<Rightarrow> validate_meta kind (pred_op p) d
     | (Type_extractor t, Data d) \<Rightarrow>
         if \<not> has_type t \<or> compatible t (pred_op p) d then Inr ()
         else Inl (Syntax_error ''type extractor type check failure'')
     | (Field_extractor _, Data _) \<Rightarrow> Inr ()
     | _ \<Rightarrow> Inl (Syntax_error ''incompatible predicate operands''))"

fun validate :: "expression \<Rightarrow> caf_error + unit" and validate_all :: "expression list \<Rightarrow> caf_error + unit" where
  "validate None_expr = Inl (Syntax_error ''null expression is invalid'')"
| "validate (Conjunction xs) = validate_all xs"
| "validate (Disjunction xs) = validate_all xs"
| "validate (Negation x) = validate x"
| "validate (Predicate p) = validate_predicate p"
| "validate_all [] = Inr ()"
| "validate_all (x # xs) = (case validate x of Inl e \<Rightarrow> Inl e | Inr _ \<Rightarrow> validate_all xs)"

definition normalize_and_validate :: "expression \<Rightarrow> caf_error + expression" where
  "normalize_and_validate expr =
    (let expr = normalize expr in case validate expr of Inl e \<Rightarrow> Inl e | Inr _ \<Rightarrow> Inr expr)"

section \<open>Expressions keep their shape\<close>

lemma connective_simps [simp]: "connective C [x] = x" "connective C [] = C []" "connective C (x # y # zs) = C (x # y # zs)"
  by (simp_all add: connective_def)

lemma connective_ok:
  assumes "xs \<noteq> []" and "\<forall>x \<in> set xs. P x" and "P (C xs)"
  shows "P (connective C xs)"
  using assms by (cases xs) (auto simp: connective_def)

lemma hoist_all_map: "hoist_all xs = map hoist xs"
  by (induction xs) auto

lemma hoist_conjunction_set:
  "y \<in> set (hoist_conjunction xs) \<Longrightarrow> \<exists>x \<in> set xs. y = hoist x \<or> (\<exists>inner. x = Conjunction inner \<and> y \<in> hoist ` set inner)"
  by (induction xs) (auto simp: hoist_all_map split: expression.splits)

lemma hoist_disjunction_set:
  "y \<in> set (hoist_disjunction xs) \<Longrightarrow> \<exists>x \<in> set xs. y = hoist x \<or> (\<exists>inner. x = Disjunction inner \<and> y \<in> hoist ` set inner)"
  by (induction xs) (auto simp: hoist_all_map split: expression.splits)

lemma hoist_operands_nonempty:
  "\<forall>x \<in> set xs. expr_ok x \<Longrightarrow> xs \<noteq> [] \<Longrightarrow> hoist_conjunction xs \<noteq> [] \<and> hoist_disjunction xs \<noteq> []"
  by (cases xs) (auto simp: hoist_all_map split: expression.splits)

text \<open>Every rewriting maps the operands of a connective; what holds for the results of the operands and
  is kept by the connective holds for the result. The induction for \<open>hoist\<close> is done once:\<close>

lemma hoist_induct [case_names None_expr Conjunction Disjunction Negation Predicate]:
  assumes "P None_expr"
    and "\<And>xs. (\<And>x. size x < size (Conjunction xs) \<Longrightarrow> P x) \<Longrightarrow> P (Conjunction xs)"
    and "\<And>xs. (\<And>x. size x < size (Disjunction xs) \<Longrightarrow> P x) \<Longrightarrow> P (Disjunction xs)"
    and "\<And>x. P x \<Longrightarrow> P (Negation x)" and "\<And>p. P (Predicate p)"
  shows "P e"
proof (induction e rule: measure_induct_rule [of size])
  case (less e)
  then show ?case using assms by (cases e) auto
qed

lemma size_operand: "x \<in> set xs \<Longrightarrow> size x < size (Conjunction xs) \<and> size x < size (Disjunction xs)"
  by (induction xs) auto

lemma size_inner: "Conjunction ys \<in> set xs \<Longrightarrow> y \<in> set ys \<Longrightarrow> size y < size (Conjunction xs)"
  "Disjunction ys \<in> set xs \<Longrightarrow> y \<in> set ys \<Longrightarrow> size y < size (Disjunction xs)"
  using size_operand [of y ys] size_operand [of _ xs] by (meson less_trans)+

lemma hoist_operands_all:
  assumes "\<And>x. size x < size (Conjunction xs) \<Longrightarrow> Q x \<Longrightarrow> P (hoist x)" and "\<forall>x \<in> set xs. Q x"
    and "\<And>ys. Q (Conjunction ys) \<Longrightarrow> \<forall>y \<in> set ys. Q y" and "\<And>ys. Q (Disjunction ys) \<Longrightarrow> \<forall>y \<in> set ys. Q y"
  shows "\<forall>y \<in> set (hoist_conjunction xs). P y" "\<forall>y \<in> set (hoist_disjunction xs). P y"
proof -
  have IH: "size x < size (Disjunction xs) \<Longrightarrow> Q x \<Longrightarrow> P (hoist x)" for x using assms(1) by simp
  show "\<forall>y \<in> set (hoist_conjunction xs). P y"
  proof
    fix y
    assume "y \<in> set (hoist_conjunction xs)"
    then obtain x where x: "x \<in> set xs" "y = hoist x \<or> (\<exists>inner. x = Conjunction inner \<and> y \<in> hoist ` set inner)"
      by (auto dest!: hoist_conjunction_set)
    from x(2) show "P y"
    proof
      assume "y = hoist x"
      then show ?thesis using assms(1) [of x] assms(2) size_operand [of x xs] x(1) by simp
    next
      assume "\<exists>inner. x = Conjunction inner \<and> y \<in> hoist ` set inner"
      then obtain inner z where z: "x = Conjunction inner" "z \<in> set inner" "y = hoist z" by blast
      have "Q (Conjunction inner)" using assms(2) x(1) z(1) by simp
      then have "Q z" using assms(3) z(2) by simp
      with assms(1) [OF size_inner(1)] x(1) z show ?thesis by simp
    qed
  qed
  show "\<forall>y \<in> set (hoist_disjunction xs). P y"
  proof
    fix y
    assume "y \<in> set (hoist_disjunction xs)"
    then obtain x where x: "x \<in> set xs" "y = hoist x \<or> (\<exists>inner. x = Disjunction inner \<and> y \<in> hoist ` set inner)"
      by (auto dest!: hoist_disjunction_set)
    from x(2) show "P y"
    proof
      assume "y = hoist x"
      then show ?thesis using IH [of x] assms(2) size_operand [of x xs] x(1) by simp
    next
      assume "\<exists>inner. x = Disjunction inner \<and> y \<in> hoist ` set inner"
      then obtain inner z where z: "x = Disjunction inner" "z \<in> set inner" "y = hoist z" by blast
      have "Q (Disjunction inner)" using assms(2) x(1) z(1) by simp
      then have "Q z" using assms(4) z(2) by simp
      with IH [OF size_inner(2)] x(1) z show ?thesis by simp
    qed
  qed
qed

lemma hoist_ok: "expr_ok e \<Longrightarrow> expr_ok (hoist e)"
proof (induction e rule: hoist_induct)
  case (Conjunction xs)
  then have "\<forall>y \<in> set (hoist_conjunction xs). expr_ok y" by (intro hoist_operands_all [where Q = expr_ok]) auto
  moreover have "hoist_conjunction xs \<noteq> []" using Conjunction.prems hoist_operands_nonempty by auto
  ultimately show ?case by (auto intro: connective_ok)
next
  case (Disjunction xs)
  then have "\<forall>y \<in> set (hoist_disjunction xs). expr_ok y" by (intro hoist_operands_all [where Q = expr_ok]) auto
  moreover have "hoist_disjunction xs \<noteq> []" using Disjunction.prems hoist_operands_nonempty by auto
  ultimately show ?case by (auto intro: connective_ok)
qed simp_all

lemma align_ok [simp]: "expr_ok (align e) = expr_ok e"
  by (induction e) auto

lemma denegate_ok: "expr_ok e \<Longrightarrow> expr_ok (denegate n e)"
  by (induction n e rule: denegate.induct) (auto split: expression.splits)

lemma dedup_operands_nonempty: "result \<noteq> [] \<or> xs \<noteq> [] \<Longrightarrow> dedup_operands result xs \<noteq> []"
proof (induction xs arbitrary: result)
  case (Cons x xs)
  show ?case using Cons.IH [of result] Cons.IH [of "result @ [dedup x]"] by (cases result) (simp_all add: Let_def)
qed simp

lemma dedup_operands_set: "set (dedup_operands result xs) \<subseteq> set result \<union> dedup ` set xs"
  by (induction xs arbitrary: result) (fastforce simp: Let_def split: if_splits)+

lemma dedup_ok: "expr_ok e \<Longrightarrow> expr_ok (dedup e)"
proof (induction e)
  case (Conjunction xs)
  then show ?case using dedup_operands_set [of "[]" xs] dedup_operands_nonempty [of "[]" xs] by auto
next
  case (Disjunction xs)
  then show ?case using dedup_operands_set [of "[]" xs] dedup_operands_nonempty [of "[]" xs] by auto
qed simp_all

lemma normalize_ok: "expr_ok e \<Longrightarrow> expr_ok (normalize e)"
  by (simp add: normalize_def hoist_ok dedup_ok denegate_ok)

section \<open>Normalization keeps the meaning\<close>

text \<open>The meaning of an expression for one event: \<open>env\<close> gives the value of an extractor.\<close>

definition operand_value :: "(operand \<Rightarrow> data) \<Rightarrow> operand \<Rightarrow> data" where
  "operand_value env x = (case x of Data d \<Rightarrow> d | _ \<Rightarrow> env x)"

definition holds :: "regex_engine \<Rightarrow> (operand \<Rightarrow> data) \<Rightarrow> predicate \<Rightarrow> bool" where
  "holds rx env p = evaluate rx (operand_value env (pred_lhs p)) (pred_op p) (operand_value env (pred_rhs p))"

fun expr_holds :: "(predicate \<Rightarrow> bool) \<Rightarrow> expression \<Rightarrow> bool" where
  "expr_holds h None_expr = False"
| "expr_holds h (Conjunction xs) = (\<forall>x \<in> set xs. expr_holds h x)"
| "expr_holds h (Disjunction xs) = (\<exists>x \<in> set xs. expr_holds h x)"
| "expr_holds h (Negation x) = (\<not> expr_holds h x)"
| "expr_holds h (Predicate p) = h p"

fun none_free :: "expression \<Rightarrow> bool" where
  "none_free None_expr = False"
| "none_free (Conjunction xs) = (\<forall>x \<in> set xs. none_free x)"
| "none_free (Disjunction xs) = (\<forall>x \<in> set xs. none_free x)"
| "none_free (Negation x) = none_free x"
| "none_free (Predicate p) = True"

lemma connective_holds [simp]:
  "expr_holds h (connective Conjunction xs) = (\<forall>x \<in> set xs. expr_holds h x)"
  "expr_holds h (connective Disjunction xs) = (\<exists>x \<in> set xs. expr_holds h x)"
  by (cases xs; cases "tl xs"; simp)+

lemma hoist_conjunction_holds:
  "(\<And>x. size x < size (Conjunction xs) \<Longrightarrow> expr_holds h (hoist x) = expr_holds h x)
    \<Longrightarrow> (\<forall>y \<in> set (hoist_conjunction xs). expr_holds h y) = (\<forall>x \<in> set xs. expr_holds h x)"
proof (induction xs)
  case (Cons x xs)
  have IH: "(\<forall>y \<in> set (hoist_conjunction xs). expr_holds h y) = (\<forall>x \<in> set xs. expr_holds h x)"
    by (rule Cons.IH) (simp add: Cons.prems)
  have x: "expr_holds h (hoist x) = expr_holds h x" by (simp add: Cons.prems)
  show ?case
  proof (cases x)
    case (Conjunction inner)
    have "expr_holds h (hoist y) = expr_holds h y" if "y \<in> set inner" for y
      using that size_operand [of y inner] by (intro Cons.prems) (simp add: Conjunction)
    then show ?thesis using IH by (auto simp: Conjunction hoist_all_map)
  qed (use IH x in simp_all)
qed simp

lemma hoist_disjunction_holds:
  "(\<And>x. size x < size (Disjunction xs) \<Longrightarrow> expr_holds h (hoist x) = expr_holds h x)
    \<Longrightarrow> (\<exists>y \<in> set (hoist_disjunction xs). expr_holds h y) = (\<exists>x \<in> set xs. expr_holds h x)"
proof (induction xs)
  case (Cons x xs)
  have IH: "(\<exists>y \<in> set (hoist_disjunction xs). expr_holds h y) = (\<exists>x \<in> set xs. expr_holds h x)"
    by (rule Cons.IH) (simp add: Cons.prems)
  have x: "expr_holds h (hoist x) = expr_holds h x" by (simp add: Cons.prems)
  show ?case
  proof (cases x)
    case (Disjunction inner)
    have "expr_holds h (hoist y) = expr_holds h y" if "y \<in> set inner" for y
      using that size_operand [of y inner] by (intro Cons.prems) (simp add: Disjunction)
    then show ?thesis using IH by (auto simp: Disjunction hoist_all_map)
  qed (use IH x in simp_all)
qed simp

lemma hoist_holds: "expr_holds h (hoist e) = expr_holds h e"
  by (induction e rule: hoist_induct) (simp_all add: hoist_conjunction_holds hoist_disjunction_holds del: expression.size)

lemma align_predicate_holds: "holds rx env (align_predicate p) = holds rx env p"
  by (simp add: holds_def align_predicate_def evaluate_flip)

lemma align_holds: "expr_holds (holds rx env) (align e) = expr_holds (holds rx env) e"
  by (induction e) (auto simp: align_predicate_holds)

lemma denegate_holds:
  "none_free e \<Longrightarrow> expr_holds (holds rx env) (denegate n e) = (n \<noteq> expr_holds (holds rx env) e)"
  by (induction n e rule: denegate.induct) (auto simp: holds_def evaluate_negate split: expression.splits)

lemma operand_eqE:
  assumes "operand_eq x y"
  obtains "x = y" | d e where "x = Data d" "y = Data e" "data_eq d e"
  using assms by (cases x; cases y) (auto simp: operand_eq_def)

lemma operand_cong:
  assumes "operand_eq x y"
  shows "evaluate rx (operand_value env x) op z = evaluate rx (operand_value env y) op z"
    and "evaluate rx z op (operand_value env x) = evaluate rx z op (operand_value env y)"
  using assms by (cases rule: operand_eqE; simp add: operand_value_def evaluate_cong)+

lemma holds_cong: "predicate_eq p q \<Longrightarrow> holds rx env p = holds rx env q"
  by (simp add: holds_def predicate_eq_def operand_cong(1) [of "pred_lhs p" "pred_lhs q"] operand_cong(2) [of "pred_rhs p" "pred_rhs q"])

lemma expr_eq_holds: "expr_eq x y \<Longrightarrow> expr_holds (holds rx env) x = expr_holds (holds rx env) y"
  and exprs_eq_holds: "exprs_eq xs ys \<Longrightarrow> (\<forall>x \<in> set xs. expr_holds (holds rx env) x) = (\<forall>y \<in> set ys. expr_holds (holds rx env) y)
    \<and> (\<exists>x \<in> set xs. expr_holds (holds rx env) x) = (\<exists>y \<in> set ys. expr_holds (holds rx env) y)"
proof (induction x y and xs ys rule: expr_eq_exprs_eq.induct)
  case (2 xs y)
  then show ?case by (cases y) simp_all
next
  case (3 xs y)
  then show ?case by (cases y) simp_all
next
  case (4 x y)
  then show ?case by (cases y) simp_all
next
  case (5 p y)
  then show ?case by (cases y) (simp_all add: holds_cong)
next
  case (7 x xs ys)
  then show ?case by (cases ys) auto
qed simp_all

fun negation_free :: "expression \<Rightarrow> bool" where
  "negation_free (Conjunction xs) = (\<forall>x \<in> set xs. negation_free x)"
| "negation_free (Disjunction xs) = (\<forall>x \<in> set xs. negation_free x)"
| "negation_free (Negation x) = False"
| "negation_free _ = True"

lemma dedup_operands_holds:
  assumes "\<forall>x \<in> set xs. expr_holds (holds rx env) (dedup x) = expr_holds (holds rx env) x"
  shows "(\<forall>y \<in> set (dedup_operands result xs). expr_holds (holds rx env) y)
      = (\<forall>x \<in> set result \<union> set xs. expr_holds (holds rx env) x) \<and>
    (\<exists>y \<in> set (dedup_operands result xs). expr_holds (holds rx env) y)
      = (\<exists>x \<in> set result \<union> set xs. expr_holds (holds rx env) x)"
  using assms
proof (induction xs arbitrary: result)
  case (Cons x xs)
  show ?case
  proof (cases "list_ex (\<lambda>r. expr_eq r (dedup x)) result")
    case True
    then obtain r where "r \<in> set result" "expr_holds (holds rx env) r = expr_holds (holds rx env) x"
      using expr_eq_holds [of _ "dedup x"] Cons.prems by (auto simp: list_ex_iff)
    then show ?thesis using True Cons by (auto simp: Let_def)
  next
    case False
    then show ?thesis using Cons.IH [of "result @ [dedup x]"] Cons.prems by (simp add: Let_def Bex_def Ball_def) blast
  qed
qed simp

lemma dedup_holds: "negation_free e \<Longrightarrow> expr_holds (holds rx env) (dedup e) = expr_holds (holds rx env) e"
proof (induction e)
  case (Conjunction xs)
  then show ?case using dedup_operands_holds [of xs rx env "[]"] by simp
next
  case (Disjunction xs)
  then show ?case using dedup_operands_holds [of xs rx env "[]"] by simp
qed simp_all

lemma denegate_negation_free: "negation_free (denegate n e)"
  by (induction n e rule: denegate.induct) (auto split: expression.splits)

lemma align_none_free [simp]: "none_free (align e) = none_free e"
  by (induction e) auto

lemma connective_none_free:
  "none_free (connective Conjunction xs) = (\<forall>x \<in> set xs. none_free x)"
  "none_free (connective Disjunction xs) = (\<forall>x \<in> set xs. none_free x)"
  by (cases xs; cases "tl xs"; simp)+

lemma hoist_none_free: "none_free e \<Longrightarrow> none_free (hoist e)"
proof (induction e rule: hoist_induct)
  case (Conjunction xs)
  then have "\<forall>y \<in> set (hoist_conjunction xs). none_free y" by (intro hoist_operands_all [where Q = none_free]) auto
  then show ?case by (simp add: connective_none_free)
next
  case (Disjunction xs)
  then have "\<forall>y \<in> set (hoist_disjunction xs). none_free y" by (intro hoist_operands_all [where Q = none_free]) auto
  then show ?case by (simp add: connective_none_free)
qed simp_all

text \<open>The deduplicator runs after the denegator, so its dropping of negations does no harm.\<close>

lemma normalize_holds: "none_free e \<Longrightarrow> expr_holds (holds rx env) (normalize e) = expr_holds (holds rx env) e"
  by (simp add: normalize_def hoist_holds dedup_holds denegate_negation_free denegate_holds hoist_none_free align_holds)

section \<open>The normal form\<close>

fun normal_form :: "expression \<Rightarrow> bool" where
  "normal_form None_expr = True"
| "normal_form (Conjunction xs) \<longleftrightarrow> length xs \<noteq> 1 \<and> (\<forall>x \<in> set xs. normal_form x)"
| "normal_form (Disjunction xs) \<longleftrightarrow> length xs \<noteq> 1 \<and> (\<forall>x \<in> set xs. normal_form x)"
| "normal_form (Negation x) = False"
| "normal_form (Predicate p) \<longleftrightarrow> is_extractor (pred_lhs p) \<or> \<not> is_extractor (pred_rhs p)"

fun aligned :: "expression \<Rightarrow> bool" where
  "aligned (Conjunction xs) = (\<forall>x \<in> set xs. aligned x)"
| "aligned (Disjunction xs) = (\<forall>x \<in> set xs. aligned x)"
| "aligned (Negation x) = aligned x"
| "aligned (Predicate p) = (is_extractor (pred_lhs p) \<or> \<not> is_extractor (pred_rhs p))"
| "aligned None_expr = True"

lemma align_aligned: "aligned (align e)"
  by (induction e) (auto simp: align_predicate_def)

lemma denegate_aligned: "aligned e \<Longrightarrow> aligned (denegate n e)"
  by (induction n e rule: denegate.induct) (auto split: expression.splits)

lemma dedup_aligned: "aligned e \<Longrightarrow> aligned (dedup e)"
proof (induction e)
  case (Conjunction xs)
  then show ?case using dedup_operands_set [of "[]" xs] by auto
next
  case (Disjunction xs)
  then show ?case using dedup_operands_set [of "[]" xs] by auto
qed simp_all

lemma dedup_negation_free: "negation_free e \<Longrightarrow> negation_free (dedup e)"
proof (induction e)
  case (Conjunction xs)
  then show ?case using dedup_operands_set [of "[]" xs] by auto
next
  case (Disjunction xs)
  then show ?case using dedup_operands_set [of "[]" xs] by auto
qed simp_all

lemma hoist_normal_form: "aligned e \<Longrightarrow> negation_free e \<Longrightarrow> normal_form (hoist e)"
proof (induction e rule: hoist_induct)
  case (Conjunction xs)
  then have "\<forall>y \<in> set (hoist_conjunction xs). normal_form y"
    by (intro hoist_operands_all [where Q = "\<lambda>x. aligned x \<and> negation_free x"]) auto
  then show ?case by (cases "hoist_conjunction xs"; cases "tl (hoist_conjunction xs)") auto
next
  case (Disjunction xs)
  then have "\<forall>y \<in> set (hoist_disjunction xs). normal_form y"
    by (intro hoist_operands_all [where Q = "\<lambda>x. aligned x \<and> negation_free x"]) auto
  then show ?case by (cases "hoist_disjunction xs"; cases "tl (hoist_disjunction xs)") auto
qed simp_all

lemma normalize_normal_form: "normal_form (normalize e)"
  by (simp add: normalize_def hoist_normal_form dedup_aligned denegate_aligned align_aligned
      dedup_negation_free denegate_negation_free)

section \<open>Offsets and nodes\<close>

lemma labels_descend:
  "(i, x) \<in> set (labels off e) \<longleftrightarrow> (\<exists>js. i = off @ js \<and> descend e js = Some x)"
  "(i, x) \<in> set (labels_from off n es) \<longleftrightarrow>
    (\<exists>k < length es. \<exists>js. i = off @ (n + k) # js \<and> descend (es ! k) js = Some x)"
proof (induction off e and off n es arbitrary: i and i rule: labels_labels_from.induct)
  case (2 off xs)
  show ?case (is "?l = (\<exists>js. ?P js)")
  proof -
    have "(\<exists>js. ?P js) \<longleftrightarrow> ?P [] \<or> (\<exists>k js. ?P (k # js))" by (metis list.exhaust)
    then show ?thesis using 2 by (auto simp: child_at_def split: if_splits)
  qed
next
  case (3 off xs)
  show ?case (is "?l = (\<exists>js. ?P js)")
  proof -
    have "(\<exists>js. ?P js) \<longleftrightarrow> ?P [] \<or> (\<exists>k js. ?P (k # js))" by (metis list.exhaust)
    then show ?thesis using 3 by (auto simp: child_at_def split: if_splits)
  qed
next
  case (4 off y)
  show ?case (is "?l = (\<exists>js. ?P js)")
  proof -
    have "(\<exists>js. ?P js) \<longleftrightarrow> ?P [] \<or> (\<exists>k js. ?P (k # js))" by (metis list.exhaust)
    then show ?thesis using 4 by (auto simp: child_at_def split: if_splits)
  qed
next
  case (7 off n y ys)
  show ?case (is "?l = (\<exists>k < length (y # ys). ?P k)")
  proof -
    have "(\<exists>k < length (y # ys). ?P k) \<longleftrightarrow> ?P 0 \<or> (\<exists>k < length ys. ?P (Suc k))"
      by (simp add: Ex_less_Suc2)
    then show ?thesis using 7 by simp
  qed
next
  case (1 off)
  then show ?case by (auto simp: child_at_def elim!: descend.elims)
next
  case (5 off p)
  then show ?case by (auto simp: child_at_def elim!: descend.elims)
qed simp

lemma label_nodes_at: "(0 # js, x) \<in> set (label_nodes e) \<longleftrightarrow> expr_at e (0 # js) = Some x"
  by (cases js) (simp_all add: label_nodes_def labels_descend)

lemma label_nodes_root: "(i, x) \<in> set (label_nodes e) \<Longrightarrow> \<exists>js. i = 0 # js"
  by (auto simp: label_nodes_def labels_descend)

section \<open>Equality of expressions\<close>

fun self_equal :: "expression \<Rightarrow> bool" where
  "self_equal (Conjunction xs) = (\<forall>x \<in> set xs. self_equal x)"
| "self_equal (Disjunction xs) = (\<forall>x \<in> set xs. self_equal x)"
| "self_equal (Negation x) = self_equal x"
| "self_equal (Predicate p) = predicate_eq p p"
| "self_equal None_expr = True"

lemma exprs_eq_refl: "\<forall>x \<in> set xs. expr_eq x x \<Longrightarrow> exprs_eq xs xs"
  by (induction xs) auto

lemma expr_eq_refl: "self_equal e \<Longrightarrow> expr_eq e e"
  by (induction e) (auto intro: exprs_eq_refl)

lemma hoist_smaller: "hoist e = e \<or> size (hoist e) < size e"
  and hoist_conjunction_smaller: "hoist_conjunction xs = xs \<or> size_list size (hoist_conjunction xs) < size_list size xs"
  and hoist_disjunction_smaller: "hoist_disjunction xs = xs \<or> size_list size (hoist_disjunction xs) < size_list size xs"
  and hoist_all_smaller: "hoist_all xs = xs \<or> size_list size (hoist_all xs) < size_list size xs"
proof (induction e and xs and xs and xs rule: hoist_hoist_conjunction_hoist_disjunction_hoist_all.induct)
  case (2 xs)
  have "size (connective Conjunction (hoist_conjunction xs)) < size (Conjunction xs)
    \<or> connective Conjunction (hoist_conjunction xs) = Conjunction (hoist_conjunction xs)"
    if "size_list size (hoist_conjunction xs) \<le> size_list size xs"
    using that by (cases "hoist_conjunction xs"; cases "tl (hoist_conjunction xs)") auto
  then show ?case using 2 by auto
next
  case (3 xs)
  have "size (connective Disjunction (hoist_disjunction xs)) < size (Disjunction xs)
    \<or> connective Disjunction (hoist_disjunction xs) = Disjunction (hoist_disjunction xs)"
    if "size_list size (hoist_disjunction xs) \<le> size_list size xs"
    using that by (cases "hoist_disjunction xs"; cases "tl (hoist_disjunction xs)") auto
  then show ?case using 3 by auto
next
  case (7 x xs)
  have size_append: "size_list size (us @ vs) = size_list size us + size_list size vs" for us vs :: "expression list"
    by (induction us) auto
  show ?case
  proof (cases x)
    case (Conjunction inner)
    then show ?thesis using "7.IH" size_append by auto
  qed (use "7.IH" in auto)
next
  case (9 x xs)
  have size_append: "size_list size (us @ vs) = size_list size us + size_list size vs" for us vs :: "expression list"
    by (induction us) auto
  show ?case
  proof (cases x)
    case (Disjunction inner)
    then show ?thesis using "9.IH" size_append by auto
  qed (use "9.IH" in auto)
qed auto

end
