(* ===== verification/Field_Resolution.thy ===== *)
theory Field_Resolution
  imports Record_Leaves
begin

text \<open>
  The offsets of the leaves of a record that a name in a query refers to (\<open>type.cpp\<close>): a field extractor
  names a suffix of the path to a leaf, possibly with a suffix of the schema name before it
  (\<open>resolve_key_suffix\<close>), a type extractor a type or an alias (\<open>resolve_type_extractor\<close>). A generator is the list
  of what it yields. The keys that can still be matched are kept with every record that is open.
\<close>

section \<open>Suffixes of keys\<close>

text \<open>The comparison from the end: the name ends with the key, and a dot or nothing comes before it.\<close>

definition suffix_matches :: "string \<Rightarrow> string \<Rightarrow> bool" where
  "suffix_matches key name \<longleftrightarrow>
    length key \<le> length name \<and> drop (length name - length key) name = key
    \<and> (length key = length name \<or> name ! (length name - length key - 1) = CHR ''.'')"

text \<open>The rests of the key after the suffixes of the schema name that start at a dot.\<close>

function schema_keys :: "string \<Rightarrow> string \<Rightarrow> string list" where
  "schema_keys key prefix =
    (if prefix = [] then []
     else (case strip_prefix (prefix @ ''.'') key of Some rest \<Rightarrow> [rest] | None \<Rightarrow> [])
       @ (case dropWhile (\<lambda>c. c \<noteq> CHR ''.'') prefix of [] \<Rightarrow> [] | _ # prefix' \<Rightarrow> schema_keys key prefix'))"
  by pat_completeness auto
termination
proof (relation "measure (length \<circ> snd)")
  fix prefix :: string and c :: char and prefix' :: string
  assume "dropWhile (\<lambda>c. c \<noteq> CHR ''.'') prefix = c # prefix'"
  then have "length (c # prefix') \<le> length prefix" using length_dropWhile_le [of "\<lambda>c. c \<noteq> CHR ''.''" prefix] by simp
  then show "((key, prefix'), key, prefix) \<in> measure (length \<circ> snd)" for key :: string by simp
qed simp

declare schema_keys.simps [simp del]

type_synonym suffix_cursor = "(fields \<times> string list \<times> nat) list"

fun suffix_bump :: "suffix_cursor \<Rightarrow> suffix_cursor" where
  "suffix_bump [] = []"
| "suffix_bump ((fs, keys, p) # c) = (fs, keys, Suc p) # c"

definition suffix_index :: "suffix_cursor \<Rightarrow> nat list" where
  "suffix_index c = rev (map (snd \<circ> snd) c)"

definition suffix_plain :: "suffix_cursor \<Rightarrow> cursor" where
  "suffix_plain c = map (\<lambda>(fs, keys, p). (fs, p)) c"

lemma suffix_plain_simps [simp]:
  "suffix_plain [] = []" "suffix_plain ((fs, keys, p) # c) = (fs, p) # suffix_plain c"
  "suffix_plain (suffix_bump c) = bump (suffix_plain c)"
  by (simp_all add: suffix_plain_def) (cases c rule: suffix_bump.cases; simp)

text \<open>Inside a record the keys of the outermost record are valid again, and also the rest of every key
  that starts with the name of the field.\<close>

definition next_keys :: "string list \<Rightarrow> string list \<Rightarrow> string \<Rightarrow> string list" where
  "next_keys base keys name = base @ List.map_filter (strip_prefix (name @ ''.'')) keys"

function suffix_loop :: "string list \<Rightarrow> suffix_cursor \<Rightarrow> nat list list" where
  "suffix_loop base [] = []"
| "suffix_loop base ((fs, keys, p) # c) =
    (if p \<ge> length fs then suffix_loop base (suffix_bump c)
     else case as_record (snd (fs ! p)) of
       None \<Rightarrow>
         (if list_ex (\<lambda>key. suffix_matches key (fst (fs ! p))) keys then [suffix_index ((fs, keys, p) # c)] else [])
         @ suffix_loop base ((fs, keys, Suc p) # c)
     | Some gs \<Rightarrow> suffix_loop base ((gs, next_keys base keys (fst (fs ! p)), 0) # (fs, keys, p) # c))"
  by pat_completeness auto
termination by (relation "measure (\<lambda>(base, c). cursor_size (suffix_plain c))") (auto simp: cursor_decreases)

definition resolve_key_suffix :: "fields \<Rightarrow> string \<Rightarrow> string \<Rightarrow> nat list list" where
  "resolve_key_suffix fs key prefix =
    (if key = [] then []
     else let base = key # schema_keys key prefix in suffix_loop base [(fs, base, 0)])"

section \<open>Type extractors\<close>

text \<open>The kind of a basic type by its name in a query. Aliases are looked through from the outside; an
  alias of a record, a list or a map yields nothing.\<close>

definition basic_type_name :: "ty \<Rightarrow> string option" where
  "basic_type_name t =
    (case t of
       Bool_type \<Rightarrow> Some ''bool'' | Int64_type \<Rightarrow> Some ''int64'' | UInt64_type \<Rightarrow> Some ''uint64''
     | Double_type \<Rightarrow> Some ''double'' | Duration_type \<Rightarrow> Some ''duration'' | Time_type \<Rightarrow> Some ''time''
     | String_type \<Rightarrow> Some ''string'' | Blob_type \<Rightarrow> Some ''blob'' | Ip_type \<Rightarrow> Some ''ip''
     | Subnet_type \<Rightarrow> Some ''subnet'' | Enumeration_type _ \<Rightarrow> Some ''enumeration'' | _ \<Rightarrow> None)"

fun extracts_type :: "string \<Rightarrow> bool \<Rightarrow> ty \<Rightarrow> bool" where
  "extracts_type extractor matched (Enriched_type u n as) = extracts_type extractor (matched \<or> n = extractor) u"
| "extracts_type extractor matched t =
    (case basic_type_name t of None \<Rightarrow> False | Some name \<Rightarrow> matched \<or> extractor = name)"

function type_extractor_loop :: "string \<Rightarrow> cursor \<Rightarrow> nat list list" where
  "type_extractor_loop extractor [] = []"
| "type_extractor_loop extractor ((fs, p) # c) =
    (if p \<ge> length fs then type_extractor_loop extractor (bump c)
     else case as_record (snd (fs ! p)) of
       None \<Rightarrow>
         (if extracts_type extractor False (snd (fs ! p)) then [index_of ((fs, p) # c)] else [])
         @ type_extractor_loop extractor ((fs, Suc p) # c)
     | Some gs \<Rightarrow> type_extractor_loop extractor ((gs, 0) # (fs, p) # c))"
  by pat_completeness auto
termination by (relation "measure (cursor_size \<circ> snd)") (auto simp: cursor_decreases)

definition resolve_type_extractor :: "fields \<Rightarrow> string \<Rightarrow> nat list list" where
  "resolve_type_extractor fs extractor =
    (case extractor of
       [] \<Rightarrow> []
     | c # rest \<Rightarrow> if c \<noteq> CHR '':'' \<or> rest = [] then [] else type_extractor_loop rest [(fs, 0)])"

lemma type_extractor_pending:
  "type_extractor_loop extractor c =
    map fst (filter (\<lambda>l. extracts_type extractor False (snd (snd l))) (pending_leaves c))"
proof (induction extractor c rule: type_extractor_loop.induct)
  case (2 extractor fs p c)
  show ?case
  proof (cases "p \<ge> length fs")
    case True
    then show ?thesis using 2 by (simp add: pending_exit)
  next
    case False
    then show ?thesis
      using 2 by (cases "as_record (snd (fs ! p))") (simp_all add: pending_moves)
  qed
qed simp

lemma resolve_type_extractor_leaves:
  "resolve_type_extractor fs (CHR '':'' # name) =
    (if name = [] then []
     else map fst (filter (\<lambda>l. extracts_type name False (snd (snd l))) (record_leaves fs)))"
  by (simp add: resolve_type_extractor_def type_extractor_pending record_leaves_def leaves_loop_pending)

section \<open>Which leaves a key refers to\<close>

text \<open>The end of a name, from a dot on or all of it.\<close>

definition suffix_at_dot :: "string \<Rightarrow> string \<Rightarrow> bool" where
  "suffix_at_dot x y \<longleftrightarrow> y = x \<or> (\<exists>p. y = p @ ''.'' @ x)"

lemma suffix_matches_iff: "suffix_matches key name \<longleftrightarrow> suffix_at_dot key name"
proof
  assume "suffix_at_dot key name"
  then show "suffix_matches key name" by (auto simp: suffix_at_dot_def suffix_matches_def nth_append)
next
  assume s: "suffix_matches key name"
  show "suffix_at_dot key name"
  proof (cases "length key = length name")
    case False
    let ?n = "length name - length key - 1"
    have "name = take ?n name @ name ! ?n # drop (Suc ?n) name"
      using s False by (intro id_take_nth_drop) (auto simp: suffix_matches_def)
    moreover have "Suc ?n = length name - length key" "name ! ?n = CHR ''.''" "drop (length name - length key) name = key"
      using s False by (auto simp: suffix_matches_def)
    ultimately have "name = take ?n name @ ''.'' @ key" by simp
    then show ?thesis unfolding suffix_at_dot_def by blast
  qed (use s in \<open>simp add: suffix_matches_def suffix_at_dot_def\<close>)
qed

lemma suffix_at_dot_length: "suffix_at_dot x y \<Longrightarrow> length x \<le> length y"
  by (auto simp: suffix_at_dot_def)

lemma behind_dot_Cons: "(\<exists>p. x # xs = p @ ''.'' @ s) \<longleftrightarrow> x = CHR ''.'' \<and> s = xs \<or> (\<exists>p. xs = p @ ''.'' @ s)"
proof -
  have "x # xs = p @ ''.'' @ s \<longleftrightarrow> p = [] \<and> x = CHR ''.'' \<and> s = xs \<or> (\<exists>p'. p = x # p' \<and> xs = p' @ ''.'' @ s)" for p
    by (cases p) auto
  then show ?thesis by blast
qed

lemma behind_dot_dropWhile:
  "(\<exists>p. xs = p @ ''.'' @ s) \<longleftrightarrow> (\<exists>c ys. dropWhile (\<lambda>c. c \<noteq> CHR ''.'') xs = c # ys \<and> suffix_at_dot s ys)"
proof (induction xs)
  case (Cons x xs)
  then show ?case unfolding behind_dot_Cons suffix_at_dot_def by (cases "x = CHR ''.''") (auto simp del: append_Cons append.simps)
qed simp

lemma suffix_at_dot_dropWhile:
  "suffix_at_dot s xs \<longleftrightarrow> s = xs \<or> (\<exists>c ys. dropWhile (\<lambda>c. c \<noteq> CHR ''.'') xs = c # ys \<and> suffix_at_dot s ys)"
  using behind_dot_dropWhile [of xs s] suffix_at_dot_def [of s xs] by blast

lemma strip_prefix_iff: "strip_prefix pre s = Some rest \<longleftrightarrow> s = pre @ rest"
  unfolding strip_prefix_def by (metis append_take_drop_id append_eq_conv_conj option.distinct(1) option.inject)

lemma schema_keys_set:
  "rest \<in> set (schema_keys key prefix) \<longleftrightarrow> (\<exists>s. s \<noteq> [] \<and> suffix_at_dot s prefix \<and> key = s @ ''.'' @ rest)"
proof (induction key prefix rule: schema_keys.induct)
  case (1 key prefix)
  show ?case
  proof (cases "prefix = []")
    case True
    then show ?thesis by (simp add: schema_keys.simps suffix_at_dot_def)
  next
    case False
    have "(rest \<in> set (case strip_prefix (prefix @ ''.'') key of Some rest \<Rightarrow> [rest] | None \<Rightarrow> [])) \<longleftrightarrow> key = prefix @ ''.'' @ rest"
      using strip_prefix_iff [of "prefix @ ''.''" key rest] by (cases "strip_prefix (prefix @ ''.'') key") auto
    moreover have "set (schema_keys key prefix) = set (case strip_prefix (prefix @ ''.'') key of Some rest \<Rightarrow> [rest] | None \<Rightarrow> [])
        \<union> set (case dropWhile (\<lambda>c. c \<noteq> CHR ''.'') prefix of [] \<Rightarrow> [] | _ # ys \<Rightarrow> schema_keys key ys)"
      using False by (subst schema_keys.simps) (simp only: if_False set_append)
    ultimately have keys: "rest \<in> set (schema_keys key prefix) \<longleftrightarrow> key = prefix @ ''.'' @ rest
        \<or> rest \<in> set (case dropWhile (\<lambda>c. c \<noteq> CHR ''.'') prefix of [] \<Rightarrow> [] | _ # ys \<Rightarrow> schema_keys key ys)"
      by (simp only: Un_iff)
    show ?thesis
    proof (cases "dropWhile (\<lambda>c. c \<noteq> CHR ''.'') prefix")
      case Nil
      then have eq: "suffix_at_dot s prefix \<longleftrightarrow> s = prefix" for s
        using suffix_at_dot_dropWhile [of s prefix] by (metis list.distinct(1))
      have "rest \<in> set (schema_keys key prefix) \<longleftrightarrow> key = prefix @ ''.'' @ rest"
        unfolding keys Nil by simp
      then show ?thesis unfolding eq using False by blast
    next
      case (Cons c ys)
      have eq: "suffix_at_dot s prefix \<longleftrightarrow> s = prefix \<or> suffix_at_dot s ys" for s
        using suffix_at_dot_dropWhile [of s prefix] Cons by (metis list.inject)
      have "rest \<in> set (schema_keys key prefix) \<longleftrightarrow> key = prefix @ ''.'' @ rest \<or> rest \<in> set (schema_keys key ys)"
        unfolding keys Cons by simp
      then show ?thesis unfolding eq 1 [OF False Cons] using False by blast
    qed
  qed
qed

fun names_at :: "fields \<Rightarrow> nat list \<Rightarrow> string list" where
  "names_at fs [] = []"
| "names_at fs (i # index) =
    (if i < length fs then
       fst (fs ! i) # (case as_record (snd (fs ! i)) of Some gs \<Rightarrow> names_at gs index | None \<Rightarrow> [])
     else [])"

text \<open>A key spells the names of a path, of which it may leave out the beginning of the last one.\<close>

fun path_match :: "string \<Rightarrow> string list \<Rightarrow> bool" where
  "path_match key [] = False"
| "path_match key [n] = suffix_matches key n"
| "path_match key (n # ns) = (case strip_prefix (n @ ''.'') key of None \<Rightarrow> False | Some rest \<Rightarrow> path_match rest ns)"

fun keys_match :: "string list \<Rightarrow> string list \<Rightarrow> string list \<Rightarrow> bool" where
  "keys_match base keys [] = False"
| "keys_match base keys [n] = list_ex (\<lambda>key. suffix_matches key n) keys"
| "keys_match base keys (n # ns) = keys_match base (next_keys base keys n) ns"

function suffix_list :: "string list \<Rightarrow> string list \<Rightarrow> nat \<Rightarrow> fields \<Rightarrow> nat list list" where
  "suffix_list base keys i [] = []"
| "suffix_list base keys i (f # fs) =
    (case as_record (snd f) of
       None \<Rightarrow> if list_ex (\<lambda>key. suffix_matches key (fst f)) keys then [[i]] else []
     | Some gs \<Rightarrow> map ((#) i) (suffix_list base (next_keys base keys (fst f)) 0 gs)) @ suffix_list base keys (Suc i) fs"
  by pat_completeness auto
termination
proof (relation "measure (\<lambda>(_, _, _, fs). fields_size fs)", goal_cases)
  case (2 base keys i f fs gs)
  then show ?case using fields_size_Cons(2) by simp
next
  case (3 base keys i f fs)
  then show ?case using fields_size_Cons(1) by simp
qed simp

function suffix_pending :: "string list \<Rightarrow> suffix_cursor \<Rightarrow> nat list list" where
  "suffix_pending base [] = []"
| "suffix_pending base ((fs, keys, p) # c) =
    map ((@) (suffix_index c)) (suffix_list base keys p (drop p fs)) @ suffix_pending base (suffix_bump c)"
  by pat_completeness auto
termination by (relation "measure (\<lambda>(base, c). cursor_size (suffix_plain c))") (auto simp: cursor_decreases)

lemma suffix_index_simps [simp]: "suffix_index [] = []" "suffix_index ((fs, keys, p) # c) = suffix_index c @ [p]"
  by (simp_all add: suffix_index_def)

lemma suffix_loop_pending: "suffix_loop base c = suffix_pending base c"
proof (induction base c rule: suffix_loop.induct)
  case (2 base fs keys p c)
  show ?case
  proof (cases "p \<ge> length fs")
    case True
    then show ?thesis using 2 by simp
  next
    case False
    then have "drop p fs = fs ! p # drop (Suc p) fs" by (simp add: Cons_nth_drop_Suc)
    then show ?thesis
      using 2 False by (cases "as_record (snd (fs ! p))") (simp_all add: comp_def)
  qed
qed simp

lemma resolve_key_suffix_list:
  "resolve_key_suffix fs key prefix =
    (if key = [] then [] else suffix_list (key # schema_keys key prefix) (key # schema_keys key prefix) 0 fs)"
  by (simp add: resolve_key_suffix_def Let_def suffix_loop_pending map_idI)

lemma leaf_list_Cons_set:
  "(index, g) \<in> set (leaf_list i (f # fs)) \<longleftrightarrow>
    (as_record (snd f) = None \<and> index = [i] \<and> g = f)
    \<or> (\<exists>gs js. as_record (snd f) = Some gs \<and> index = i # js \<and> (js, g) \<in> set (leaf_list 0 gs))
    \<or> (index, g) \<in> set (leaf_list (Suc i) fs)"
  by (cases "as_record (snd f)") (auto intro: rev_image_eqI)

lemma suffix_list_set:
  "index \<in> set (suffix_list base keys i fs) \<longleftrightarrow>
    (\<exists>f. (index, f) \<in> set (leaf_list i fs)) \<and> keys_match base keys (names_at (us @ fs) index)" if "length us = i"
  using that
proof (induction base keys i fs arbitrary: us index rule: suffix_list.induct)
  case (1 base keys i)
  then show ?case by simp
next
  case (2 base keys i f fs)
  have tail: "index \<in> set (suffix_list base keys (Suc i) fs) \<longleftrightarrow>
    (\<exists>g. (index, g) \<in> set (leaf_list (Suc i) fs)) \<and> keys_match base keys (names_at (us @ f # fs) index)"
    using "2.IH"(2) [of "us @ [f]" index] "2.prems" by simp
  have later: "hd index \<noteq> i" if "(index, g) \<in> set (leaf_list (Suc i) fs)" for g
    using leaf_list_index [OF that] by auto
  show ?case
  proof (cases "as_record (snd f)")
    case None
    then show ?thesis using tail later "2.prems" by (cases f) (auto simp: leaf_list_Cons_set simp del: leaf_list.simps)
  next
    case (Some gs)
    have head: "js \<in> set (suffix_list base (next_keys base keys (fst f)) 0 gs) \<longleftrightarrow>
      (\<exists>g. (js, g) \<in> set (leaf_list 0 gs)) \<and> keys_match base (next_keys base keys (fst f)) (names_at gs js)" for js
      using "2.IH"(1) [OF Some, of "[]" js] by simp
    have names: "keys_match base keys (names_at (us @ f # fs) (i # js)) =
        keys_match base (next_keys base keys (fst f)) (names_at gs js)" if js: "(js, g) \<in> set (leaf_list 0 gs)" for js g
    proof -
      obtain j js' where "js = j # js'" using leaf_list_index [OF js] by blast
      moreover have "field_at gs js = Some g" using js record_leaves_field [of js g gs] by (simp add: record_leaves_list)
      then have "hd js < length gs" using calculation by (cases js') (auto split: if_splits)
      ultimately have "names_at gs js \<noteq> []" by simp
      then show ?thesis using Some "2.prems" by (cases "names_at gs js") (simp_all add: nth_append)
    qed
    have "i # js \<in> set (map ((#) i) (suffix_list base (next_keys base keys (fst f)) 0 gs)) \<longleftrightarrow>
      (\<exists>g. (js, g) \<in> set (leaf_list 0 gs)) \<and> keys_match base keys (names_at (us @ f # fs) (i # js))" for js
    proof -
      have "i # js \<in> set (map ((#) i) L) \<longleftrightarrow> js \<in> set L" for L by auto
      then show ?thesis using head [of js] names [of js] by blast
    qed
    note mem = this
    have step: "index \<in> set (suffix_list base keys i (f # fs)) \<longleftrightarrow>
      index \<in> set (map ((#) i) (suffix_list base (next_keys base keys (fst f)) 0 gs))
      \<or> index \<in> set (suffix_list base keys (Suc i) fs)"
      using Some by simp
    show ?thesis
    proof (cases "\<exists>js. index = i # js")
      case True
      then obtain js where "index = i # js" by blast
      then show ?thesis
        unfolding step tail leaf_list_Cons_set using mem [of js] later Some by auto
    next
      case False
      then show ?thesis unfolding step tail leaf_list_Cons_set using Some by auto
    qed
  qed
qed

lemma bex_map_filter:
  "(\<exists>y \<in> set (List.map_filter f xs). P y) \<longleftrightarrow> (\<exists>x \<in> set xs. case f x of None \<Rightarrow> False | Some y \<Rightarrow> P y)"
  by (induction xs) (auto simp: map_filter_simps split: option.split)

lemma ex_less_first: "(\<exists>i < n. P i) \<longleftrightarrow> (0 < n \<and> P 0) \<or> (\<exists>i \<in> {1..<n}. P (i :: nat))"
  by (metis One_nat_def Suc_leI atLeastLessThan_iff bot_nat_0.not_eq_extremum gr_implies_not0)

lemma keys_match_path:
  "keys_match base keys ns \<longleftrightarrow>
    (\<exists>key \<in> set keys. path_match key ns) \<or> (\<exists>b \<in> set base. \<exists>i \<in> {1..<length ns}. path_match b (drop i ns))"
proof (induction base keys ns rule: keys_match.induct)
  case (3 base keys n n' ns)
  have range: "{1..<length (n # n' # ns)} = insert 1 (Suc ` {1..<length (n' # ns)})"
    by (auto simp: image_Suc_atLeastLessThan)
  have shift: "(\<exists>i \<in> {1..<length (n # n' # ns)}. path_match b (drop i (n # n' # ns))) \<longleftrightarrow>
    path_match b (n' # ns) \<or> (\<exists>i \<in> {1..<length (n' # ns)}. path_match b (drop i (n' # ns)))" for b
    unfolding range by (simp only: bex_simps One_nat_def drop_Suc_Cons drop_0)
  have rest: "(\<exists>key \<in> set (next_keys base keys n). path_match key (n' # ns)) \<longleftrightarrow>
    (\<exists>b \<in> set base. path_match b (n' # ns)) \<or> (\<exists>key \<in> set keys. path_match key (n # n' # ns))"
    by (simp add: next_keys_def bex_Un bex_map_filter)
  show ?case unfolding keys_match.simps "3.IH" rest shift by blast
qed (auto simp: list_ex_iff)

text \<open>The offsets are the ones of the leaves such that the key, or its rest after a suffix of the schema
  name, spells the end of the path.\<close>

lemma resolve_key_suffix_spec:
  "index \<in> set (resolve_key_suffix fs key prefix) \<longleftrightarrow>
    key \<noteq> [] \<and> (\<exists>f. (index, f) \<in> set (record_leaves fs)) \<and>
    (\<exists>b \<in> set (key # schema_keys key prefix). \<exists>i < length (names_at fs index). path_match b (drop i (names_at fs index)))"
proof (cases "key = []")
  case True
  then show ?thesis by (simp add: resolve_key_suffix_def)
next
  case False
  let ?base = "key # schema_keys key prefix" and ?ns = "names_at fs index"
  have first: "(\<exists>i < length ?ns. path_match b (drop i ?ns)) \<longleftrightarrow>
    path_match b ?ns \<or> (\<exists>i \<in> {1..<length ?ns}. path_match b (drop i ?ns))" for b
    unfolding ex_less_first by (cases ?ns) simp_all
  have "index \<in> set (resolve_key_suffix fs key prefix) \<longleftrightarrow>
    (\<exists>f. (index, f) \<in> set (record_leaves fs)) \<and> keys_match ?base ?base ?ns"
    using suffix_list_set [of "[]" 0 index ?base ?base fs] False
    by (simp only: resolve_key_suffix_list record_leaves_list if_False append_Nil list.size)
  then show ?thesis unfolding keys_match_path first using False by blast
qed

text \<open>What a name in a query means for a leaf: the name, or the rest of it after an end of the name of the schema,
  spells the end of the path to the leaf.\<close>

definition names_leaf :: "string \<Rightarrow> string \<Rightarrow> string list \<Rightarrow> bool" where
  "names_leaf key schema_name path \<longleftrightarrow> key \<noteq> [] \<and>
    (\<exists>i < length path. path_match key (drop i path)
      \<or> (\<exists>s rest. s \<noteq> [] \<and> suffix_at_dot s schema_name \<and> key = s @ ''.'' @ rest \<and> path_match rest (drop i path)))"

lemma resolve_key_suffix_names:
  "index \<in> set (resolve_key_suffix fs key prefix) \<longleftrightarrow>
    index \<in> fst ` set (record_leaves fs) \<and> names_leaf key prefix (names_at fs index)"
  unfolding resolve_key_suffix_spec names_leaf_def
  by (simp add: schema_keys_set Bex_def image_iff) (blast)

end
