(* ===== verification/Tailor.thy ===== *)
theory Tailor
  imports Expression Field_Resolution
begin

text \<open>
  Tailoring an expression to a schema (\<open>type_resolver\<close>, \<open>matcher\<close> in \<open>expression_visitors.cpp\<close>, \<open>tailor\<close> in
  \<open>expression.cpp\<close>): field and type extractors are replaced by the columns of the schema they refer to.
  The schema is given by its name and its fields. Failing assertions are the outer None.
\<close>

section \<open>The type resolver\<close>

text \<open>Several columns are combined such that a negated operator asks for all of them.\<close>

definition combine_columns :: "relational_operator \<Rightarrow> predicate list \<Rightarrow> expression" where
  "combine_columns op ps =
    (if ps = [] then None_expr
     else if length ps = 1 then Predicate (hd ps)
     else if is_negated op then Conjunction (map Predicate ps)
     else Disjunction (map Predicate ps))"

definition type_columns :: "(ty \<Rightarrow> bool) \<Rightarrow> fields \<Rightarrow> relational_operator \<Rightarrow> data \<Rightarrow> predicate list" where
  "type_columns f fs op x =
    map (\<lambda>(i, l). \<lparr>pred_lhs = Data_extractor (snd (snd l)) i, pred_op = op, pred_rhs = Data x\<rparr>)
      (filter (\<lambda>(i, l). f (snd (snd l))) (enumerate 0 (record_leaves fs)))"

definition resolve_extractor :: "(ty \<Rightarrow> bool) \<Rightarrow> fields \<Rightarrow> relational_operator \<Rightarrow> data \<Rightarrow> expression" where
  "resolve_extractor f fs op x = combine_columns op (type_columns f fs op x)"

definition type_matches :: "ty \<Rightarrow> relational_operator \<Rightarrow> data \<Rightarrow> ty \<Rightarrow> bool" where
  "type_matches extractor op d t =
    (if \<not> has_type extractor then type_name t = type_name extractor \<and> compatible t op d
     else congruent t extractor)"

definition data_extractor_at :: "fields \<Rightarrow> nat list \<Rightarrow> operand option" where
  "data_extractor_at fs index =
    (case (field_at fs index, flat_index fs index) of
       (Some f, Some i) \<Rightarrow> Some (Data_extractor (snd f) i)
     | _ \<Rightarrow> None)"

fun field_columns :: "fields \<Rightarrow> relational_operator \<Rightarrow> data \<Rightarrow> nat list list \<Rightarrow> predicate list option" where
  "field_columns fs op d [] = Some []"
| "field_columns fs op d (index # rest) =
    (case field_at fs index of
       None \<Rightarrow> None
     | Some f \<Rightarrow>
         if \<not> compatible (snd f) op d then field_columns fs op d rest
         else case (data_extractor_at fs index, field_columns fs op d rest) of
           (Some x, Some ps) \<Rightarrow> Some (\<lparr>pred_lhs = x, pred_op = op, pred_rhs = Data d\<rparr> # ps)
         | _ \<Rightarrow> None)"

definition resolve_field :: "string \<Rightarrow> fields \<Rightarrow> string \<Rightarrow> relational_operator \<Rightarrow> data \<Rightarrow> expression option" where
  "resolve_field name fs key op d =
    map_option (combine_columns op) (field_columns fs op d (resolve_key_suffix fs key name))"

definition resolve_predicate :: "string \<Rightarrow> fields \<Rightarrow> predicate \<Rightarrow> expression option" where
  "resolve_predicate name fs p =
    (case (pred_lhs p, pred_rhs p) of
       (Type_extractor t, Data d) \<Rightarrow> Some (resolve_extractor (type_matches t (pred_op p) d) fs (pred_op p) d)
     | (Data d, Type_extractor t) \<Rightarrow> Some (resolve_extractor (type_matches t (pred_op p) d) fs (pred_op p) d)
     | (Field_extractor key, Data d) \<Rightarrow> resolve_field name fs key (pred_op p) d
     | (Data d, Field_extractor key) \<Rightarrow> resolve_field name fs key (pred_op p) d
     | _ \<Rightarrow> Some (Predicate p))"

text \<open>An operand without a column makes a conjunction vanish and is left out of a disjunction.\<close>

fun type_resolver :: "string \<Rightarrow> fields \<Rightarrow> expression \<Rightarrow> expression option"
  and resolve_conjunction :: "string \<Rightarrow> fields \<Rightarrow> expression list \<Rightarrow> expression list option option"
  and resolve_disjunction :: "string \<Rightarrow> fields \<Rightarrow> expression list \<Rightarrow> expression list option" where
  "type_resolver name fs None_expr = Some None_expr"
| "type_resolver name fs (Conjunction xs) =
    (case resolve_conjunction name fs xs of
       None \<Rightarrow> None
     | Some None \<Rightarrow> Some None_expr
     | Some (Some ys) \<Rightarrow> Some (if ys = [] then None_expr else connective Conjunction ys))"
| "type_resolver name fs (Disjunction xs) =
    (case resolve_disjunction name fs xs of
       None \<Rightarrow> None
     | Some ys \<Rightarrow> Some (if ys = [] then None_expr else connective Disjunction ys))"
| "type_resolver name fs (Negation x) =
    (case type_resolver name fs x of
       None \<Rightarrow> None
     | Some y \<Rightarrow> Some (if y = None_expr then None_expr else Negation y))"
| "type_resolver name fs (Predicate p) = resolve_predicate name fs p"
| "resolve_conjunction name fs [] = Some (Some [])"
| "resolve_conjunction name fs (x # xs) =
    (case type_resolver name fs x of
       None \<Rightarrow> None
     | Some y \<Rightarrow>
         if y = None_expr then Some None
         else map_option (map_option ((#) y)) (resolve_conjunction name fs xs))"
| "resolve_disjunction name fs [] = Some []"
| "resolve_disjunction name fs (x # xs) =
    (case type_resolver name fs x of
       None \<Rightarrow> None
     | Some y \<Rightarrow> map_option (if y = None_expr then id else (#) y) (resolve_disjunction name fs xs))"

text \<open>An error is the inner None.\<close>

definition tailor :: "expression \<Rightarrow> ty \<Rightarrow> expression option option" where
  "tailor e schema =
    (case as_record schema of
       None \<Rightarrow> None
     | Some fs \<Rightarrow>
         if e = None_expr then Some None
         else map_option (\<lambda>r. if r = None_expr then None else Some r) (type_resolver (type_name schema) fs e))"

section \<open>The matcher\<close>

text \<open>Whether a resolved expression can match a schema at all. The fingerprint of a type is a parameter.\<close>

fun matches_type :: "regex_engine \<Rightarrow> (ty \<Rightarrow> string) \<Rightarrow> ty \<Rightarrow> expression \<Rightarrow> bool option"
  and matches_all :: "regex_engine \<Rightarrow> (ty \<Rightarrow> string) \<Rightarrow> ty \<Rightarrow> expression list \<Rightarrow> bool option"
  and matches_any :: "regex_engine \<Rightarrow> (ty \<Rightarrow> string) \<Rightarrow> ty \<Rightarrow> expression list \<Rightarrow> bool option" where
  "matches_type engine fingerprint t None_expr = Some False"
| "matches_type engine fingerprint t (Conjunction xs) = matches_all engine fingerprint t xs"
| "matches_type engine fingerprint t (Disjunction xs) = matches_any engine fingerprint t xs"
| "matches_type engine fingerprint t (Negation x) = matches_type engine fingerprint t x"
| "matches_type engine fingerprint t (Predicate p) =
    (let meta = (\<lambda>kind d. case kind of
         Schema \<Rightarrow> (case d of Str _ \<Rightarrow> Some (evaluate engine d (pred_op p) (Str (type_name t))) | _ \<Rightarrow> None)
       | Schema_id \<Rightarrow> (case d of Str _ \<Rightarrow> Some (evaluate engine d (pred_op p) (Str (fingerprint t))) | _ \<Rightarrow> None)
       | _ \<Rightarrow> Some False)
     in case (pred_lhs p, pred_rhs p) of
          (Meta_extractor kind, Data d) \<Rightarrow> meta kind d
        | (Data d, Meta_extractor kind) \<Rightarrow> meta kind d
        | (Data_extractor _ _, Data _) \<Rightarrow> Some True
        | (Data _, Data_extractor _ _) \<Rightarrow> Some True
        | _ \<Rightarrow> Some False)"
| "matches_all engine fingerprint t [] = Some True"
| "matches_all engine fingerprint t (x # xs) =
    (case matches_type engine fingerprint t x of
       None \<Rightarrow> None
     | Some b \<Rightarrow> if b then matches_all engine fingerprint t xs else Some False)"
| "matches_any engine fingerprint t [] = Some False"
| "matches_any engine fingerprint t (x # xs) =
    (case matches_type engine fingerprint t x of
       None \<Rightarrow> None
     | Some b \<Rightarrow> if b then Some True else matches_any engine fingerprint t xs)"

section \<open>What tailoring yields\<close>

declare compatible.simps [simp del]

definition column_predicate :: "relational_operator \<Rightarrow> data \<Rightarrow> leaf \<Rightarrow> nat \<Rightarrow> predicate" where
  "column_predicate op d l i = \<lparr>pred_lhs = Data_extractor (snd (snd l)) i, pred_op = op, pred_rhs = Data d\<rparr>"

text \<open>The columns, numbered like the leaves, whose leaf satisfies a condition.\<close>

definition columns_where :: "fields \<Rightarrow> (leaf \<Rightarrow> bool) \<Rightarrow> nat set" where
  "columns_where fs P = {i. i < num_leaves fs \<and> P (record_leaves fs ! i)}"

lemma combine_columns_holds:
  "expr_holds h (combine_columns op ps) \<longleftrightarrow>
    ps \<noteq> [] \<and> (if is_negated op then \<forall>p \<in> set ps. h p else \<exists>p \<in> set ps. h p)"
  by (cases ps; cases "tl ps") (auto simp: combine_columns_def)

lemma combine_columns_None: "combine_columns op ps = None_expr \<longleftrightarrow> ps = []"
  by (simp add: combine_columns_def)

lemma type_columns_set:
  "set (type_columns f fs op x) =
    (\<lambda>i. column_predicate op x (record_leaves fs ! i) i) ` columns_where fs (\<lambda>l. f (snd (snd l)))"
  by (force simp: type_columns_def columns_where_def column_predicate_def num_leaves_leaves in_set_enumerate_eq image_iff)

lemma data_extractor_at_leaf:
  assumes "(index, f) \<in> set (record_leaves fs)"
  shows "\<exists>i < num_leaves fs. record_leaves fs ! i = (index, f) \<and> data_extractor_at fs index = Some (Data_extractor (snd f) i)"
proof -
  obtain i where "i < num_leaves fs" "record_leaves fs ! i = (index, f)"
    using assms by (auto simp: in_set_conv_nth num_leaves_leaves)
  then show ?thesis
    using record_leaves_field [OF assms] flat_index_leaves [of fs index i] by (auto simp: data_extractor_at_def)
qed

lemma leaf_unique:
  assumes "i < num_leaves fs" and "record_leaves fs ! i = (index, f)" and "(index, g) \<in> set (record_leaves fs)"
  shows "g = f"
proof -
  have "(index, f) \<in> set (record_leaves fs)" using assms(1,2) nth_mem by (fastforce simp: num_leaves_leaves)
  then show ?thesis using record_leaves_field [OF assms(3)] record_leaves_field [of index f fs] by simp
qed

lemma field_columns_spec:
  "\<forall>index \<in> set is'. index \<in> fst ` set (record_leaves fs) \<Longrightarrow>
    \<exists>ps. field_columns fs op d is' = Some ps \<and> set ps =
      (\<lambda>i. column_predicate op d (record_leaves fs ! i) i) `
        columns_where fs (\<lambda>l. fst l \<in> set is' \<and> compatible (snd (snd l)) op d)"
proof (induction is')
  case Nil
  then show ?case by (simp add: columns_where_def)
next
  case (Cons index is')
  let ?C = "\<lambda>is'. columns_where fs (\<lambda>l. fst l \<in> set is' \<and> compatible (snd (snd l)) op d)"
  obtain f where f: "(index, f) \<in> set (record_leaves fs)" using Cons.prems by auto
  obtain i where i: "i < num_leaves fs" "record_leaves fs ! i = (index, f)"
    "data_extractor_at fs index = Some (Data_extractor (snd f) i)"
    using data_extractor_at_leaf [OF f] by blast
  have only: "fst (record_leaves fs ! j) = index \<longleftrightarrow> j = i" if "j < num_leaves fs" for j
    using that i(1,2) flat_index_leaves [of fs index j] flat_index_leaves [of fs index i] by auto
  note only = only only [unfolded eq_commute [of "fst _" index]]
  obtain ps where ps: "field_columns fs op d is' = Some ps"
    "set ps = (\<lambda>i. column_predicate op d (record_leaves fs ! i) i) ` ?C is'"
  proof -
    have "\<forall>index \<in> set is'. index \<in> fst ` set (record_leaves fs)" using Cons.prems by simp
    from Cons.IH [OF this] show ?thesis using that by blast
  qed
  show ?case
  proof (cases "compatible (snd f) op d")
    case True
    have "?C (index # is') = insert i (?C is')"
      unfolding columns_where_def set_eq_iff by (auto simp: only i(1,2) True)
    then show ?thesis using True ps i record_leaves_field [OF f] by (simp add: column_predicate_def)
  next
    case False
    have "?C (index # is') = ?C is'"
      unfolding columns_where_def set_eq_iff by (auto simp: only i(1,2) False)
    then show ?thesis using False ps record_leaves_field [OF f] by simp
  qed
qed

text \<open>A predicate on a field asks the compatible columns that the key refers to.\<close>

definition field_leaf :: "string \<Rightarrow> fields \<Rightarrow> string \<Rightarrow> relational_operator \<Rightarrow> data \<Rightarrow> leaf \<Rightarrow> bool" where
  "field_leaf name fs key op d l \<longleftrightarrow> fst l \<in> set (resolve_key_suffix fs key name) \<and> compatible (snd (snd l)) op d"

lemma resolve_field_spec:
  "\<exists>ps. resolve_field name fs key op d = Some (combine_columns op ps) \<and>
    set ps = (\<lambda>i. column_predicate op d (record_leaves fs ! i) i) ` columns_where fs (field_leaf name fs key op d)"
proof -
  have "\<forall>index \<in> set (resolve_key_suffix fs key name). index \<in> fst ` set (record_leaves fs)"
  proof
    fix index
    assume "index \<in> set (resolve_key_suffix fs key name)"
    then obtain f where "(index, f) \<in> set (record_leaves fs)" using resolve_key_suffix_spec by blast
    then show "index \<in> fst ` set (record_leaves fs)" by (rule image_eqI [rotated]) simp
  qed
  from field_columns_spec [OF this, of op d]
  obtain ps where "field_columns fs op d (resolve_key_suffix fs key name) = Some ps"
    "set ps = (\<lambda>i. column_predicate op d (record_leaves fs ! i) i) ` columns_where fs (field_leaf name fs key op d)"
    unfolding field_leaf_def by blast
  then show ?thesis by (intro exI [of _ ps]) (simp add: resolve_field_def)
qed

lemma resolve_predicate_returns: "resolve_predicate name fs p \<noteq> None"
proof -
  have "resolve_field name fs key op d \<noteq> None" for key op d
    using resolve_field_spec [of name fs key op d] by auto
  then show ?thesis by (auto simp: resolve_predicate_def simp del: not_None_eq split: operand.splits)
qed

text \<open>No assertion of the resolver fails, whatever the names in the expression.\<close>

lemma type_resolver_returns:
  "type_resolver name fs e \<noteq> None" "resolve_conjunction name fs xs \<noteq> None" "resolve_disjunction name fs xs \<noteq> None"
  by (induction name fs e and name fs xs and name fs xs
      rule: type_resolver_resolve_conjunction_resolve_disjunction.induct)
    (auto simp: resolve_predicate_returns [unfolded not_None_eq] split: option.split)

lemma tailor_returns: "as_record schema = Some fs \<Longrightarrow> tailor e schema \<noteq> None"
  using type_resolver_returns(1) [of "type_name schema" fs e] by (auto simp: tailor_def)

text \<open>For expressions without negations, the result means what the predicates mean, with each of them
  replaced by the columns it refers to. A predicate that refers to no column is false.\<close>

definition resolved_holds :: "(predicate \<Rightarrow> bool) \<Rightarrow> string \<Rightarrow> fields \<Rightarrow> predicate \<Rightarrow> bool" where
  "resolved_holds h name fs p = (case resolve_predicate name fs p of None \<Rightarrow> False | Some r \<Rightarrow> expr_holds h r)"

lemma connective_None: "C ys \<noteq> None_expr \<Longrightarrow> \<forall>y \<in> set ys. y \<noteq> None_expr \<Longrightarrow> ys \<noteq> [] \<Longrightarrow> connective C ys \<noteq> None_expr"
  by (cases ys) (auto simp: connective_def)

lemma type_resolver_holds:
  "negation_free e \<Longrightarrow> expr_ok e \<Longrightarrow> type_resolver name fs e = Some r \<Longrightarrow> expr_holds h r = expr_holds (resolved_holds h name fs) e"
  "\<forall>x \<in> set xs. negation_free x \<and> expr_ok x \<Longrightarrow> resolve_conjunction name fs xs = Some ys \<Longrightarrow>
    (case ys of None \<Rightarrow> False | Some zs \<Rightarrow> (\<forall>z \<in> set zs. expr_holds h z)) = (\<forall>x \<in> set xs. expr_holds (resolved_holds h name fs) x)
    \<and> (xs \<noteq> [] \<longrightarrow> ys \<noteq> Some [])"
  "\<forall>x \<in> set xs. negation_free x \<and> expr_ok x \<Longrightarrow> resolve_disjunction name fs xs = Some us \<Longrightarrow>
    (\<exists>z \<in> set us. expr_holds h z) = (\<exists>x \<in> set xs. expr_holds (resolved_holds h name fs) x)"
proof (induction name fs e and name fs xs and name fs xs arbitrary: r and ys and us
      rule: type_resolver_resolve_conjunction_resolve_disjunction.induct)
  case (2 name fs xs)
  then show ?case by (auto split: option.splits if_splits)
next
  case (3 name fs xs)
  then show ?case by (auto split: option.splits if_splits)
next
  case (5 name fs p)
  then show ?case by (simp add: resolved_holds_def)
next
  case (7 name fs x xs)
  obtain y where y: "type_resolver name fs x = Some y" using "7.prems"(2) by (auto split: option.splits)
  have x: "expr_holds h y = expr_holds (resolved_holds h name fs) x" using "7.IH"(1) y "7.prems"(1) by simp
  show ?case
  proof (cases "y = None_expr")
    case True
    then show ?thesis using x y "7.prems"(2) by simp
  next
    case False
    then obtain zs where zs: "resolve_conjunction name fs xs = Some zs" "ys = map_option ((#) y) zs"
      using "7.prems"(2) y by (auto split: option.splits)
    have "(case zs of None \<Rightarrow> False | Some zs \<Rightarrow> \<forall>z \<in> set zs. expr_holds h z) =
      (\<forall>x \<in> set xs. expr_holds (resolved_holds h name fs) x)"
      using "7.IH"(2) [OF y False _ zs(1)] "7.prems"(1) by simp
    then show ?thesis using x zs(2) by (cases zs) auto
  qed
next
  case (9 name fs x xs)
  then show ?case by (auto split: option.splits if_splits)
qed simp_all

text \<open>The same in terms of the columns, without the resolver: an extractor stands for the columns that it names and
  whose type can be compared, a negated operator asks for all of them, the others for one. A predicate with its
  extractor on the right is read as if it were on the left, with the same operator.\<close>

definition columns_hold :: "(predicate \<Rightarrow> bool) \<Rightarrow> fields \<Rightarrow> relational_operator \<Rightarrow> data \<Rightarrow> (leaf \<Rightarrow> bool) \<Rightarrow> bool" where
  "columns_hold h fs op d P \<longleftrightarrow> columns_where fs P \<noteq> {} \<and>
    (if is_negated op then (\<forall>i \<in> columns_where fs P. h (column_predicate op d (record_leaves fs ! i) i))
     else (\<exists>i \<in> columns_where fs P. h (column_predicate op d (record_leaves fs ! i) i)))"

definition type_holds :: "(predicate \<Rightarrow> bool) \<Rightarrow> fields \<Rightarrow> ty \<Rightarrow> relational_operator \<Rightarrow> data \<Rightarrow> bool" where
  "type_holds h fs t op d = columns_hold h fs op d (\<lambda>l.
    if has_type t then congruent (snd (snd l)) t else type_name (snd (snd l)) = type_name t \<and> compatible (snd (snd l)) op d)"

definition field_holds :: "(predicate \<Rightarrow> bool) \<Rightarrow> string \<Rightarrow> fields \<Rightarrow> string \<Rightarrow> relational_operator \<Rightarrow> data \<Rightarrow> bool" where
  "field_holds h name fs key op d = columns_hold h fs op d (\<lambda>l.
    names_leaf key name (names_at fs (fst l)) \<and> compatible (snd (snd l)) op d)"

definition schema_holds :: "(predicate \<Rightarrow> bool) \<Rightarrow> string \<Rightarrow> fields \<Rightarrow> predicate \<Rightarrow> bool" where
  "schema_holds h name fs p =
    (case (pred_lhs p, pred_rhs p) of
       (Type_extractor t, Data d) \<Rightarrow> type_holds h fs t (pred_op p) d
     | (Data d, Type_extractor t) \<Rightarrow> type_holds h fs t (pred_op p) d
     | (Field_extractor key, Data d) \<Rightarrow> field_holds h name fs key (pred_op p) d
     | (Data d, Field_extractor key) \<Rightarrow> field_holds h name fs key (pred_op p) d
     | _ \<Rightarrow> h p)"

lemma combined_columns_hold:
  assumes "set ps = (\<lambda>i. column_predicate op d (record_leaves fs ! i) i) ` columns_where fs P"
  shows "expr_holds h (combine_columns op ps) = columns_hold h fs op d P"
proof -
  have "ps \<noteq> [] \<longleftrightarrow> columns_where fs P \<noteq> {}" using assms by auto
  then show ?thesis using assms by (auto simp: combine_columns_holds columns_hold_def)
qed

lemma columns_hold_cong:
  assumes "\<And>l. l \<in> set (record_leaves fs) \<Longrightarrow> P l = Q l"
  shows "columns_hold h fs op d P = columns_hold h fs op d Q"
proof -
  have "columns_where fs P = columns_where fs Q"
    unfolding columns_where_def num_leaves_leaves using assms [OF nth_mem] by blast
  then show ?thesis by (simp add: columns_hold_def)
qed

lemma resolved_field_holds: "(case resolve_field name fs key op d of None \<Rightarrow> False | Some r \<Rightarrow> expr_holds h r) = field_holds h name fs key op d"
proof -
  obtain ps where ps: "resolve_field name fs key op d = Some (combine_columns op ps)"
    "set ps = (\<lambda>i. column_predicate op d (record_leaves fs ! i) i) ` columns_where fs (field_leaf name fs key op d)"
    using resolve_field_spec by blast
  have "field_leaf name fs key op d l \<longleftrightarrow> names_leaf key name (names_at fs (fst l)) \<and> compatible (snd (snd l)) op d"
    if "l \<in> set (record_leaves fs)" for l
    using that by (auto simp: field_leaf_def resolve_key_suffix_names)
  then have "columns_hold h fs op d (field_leaf name fs key op d) = field_holds h name fs key op d"
    unfolding field_holds_def by (rule columns_hold_cong)
  then show ?thesis using combined_columns_hold [OF ps(2), of h] ps(1) by simp
qed

lemma resolved_type_holds: "expr_holds h (resolve_extractor (type_matches t op d) fs op d) = type_holds h fs t op d"
  unfolding resolve_extractor_def combined_columns_hold [OF type_columns_set] type_holds_def type_matches_def
  by (rule columns_hold_cong) simp

lemma resolved_holds_eq: "resolved_holds h name fs = schema_holds h name fs"
  by (rule ext) (simp add: resolved_holds_def schema_holds_def resolve_predicate_def resolved_field_holds resolved_type_holds
      split: operand.split)

end
