(* ===== verification/Evaluate.thy ===== *)
theory Evaluate
  imports Table_Slice Tailor Ids Select_Range
begin

text \<open>
  The evaluation of an expression on a table slice (\<open>evaluate.cpp\<close>) and the selection of the events that
  match it (\<open>select\<close>, \<open>filter\<close>, \<open>count_matching\<close> in \<open>table_slice.cpp\<close>). The result is an ID set: the bit
  of an event is at its row plus the offset of the slice. Every part of an expression is evaluated for the
  events that are still in question.

  A row of a slice is the list of its leaves, null for a missing value. How one cell is compared with a
  value is resolved by the overloads of \<open>cell_evaluator\<close> and the implicit conversions of C++ between the
  alternatives; it is an argument, and only the negated operators are defined by it. Everything else is
  shown to be right for every such comparison.
\<close>

section \<open>Cells and columns\<close>

text \<open>The left operand is a view of a value; the fingerprint of a schema is a string of its own, which other
  overloads accept.\<close>

datatype cell = View data | Owned_string string

type_synonym cell_comparison = "relational_operator \<Rightarrow> cell \<Rightarrow> data \<Rightarrow> bool"

definition cell_evaluate :: "cell_comparison \<Rightarrow> relational_operator \<Rightarrow> cell \<Rightarrow> data \<Rightarrow> bool" where
  "cell_evaluate cmp op lhs rhs =
    (case op of
       Not_equal \<Rightarrow> \<not> cmp Equal lhs rhs
     | Op_not_in \<Rightarrow> \<not> cmp Op_in lhs rhs
     | Op_not_ni \<Rightarrow> \<not> cmp Op_ni lhs rhs
     | _ \<Rightarrow> cmp op lhs rhs)"

text \<open>The loop of the column evaluators: \<open>keep\<close> answers the bit of a value, or nothing to go on with the
  next event. Reading outside of the array is undefined behaviour.\<close>

fun column_loop :: "(data \<Rightarrow> bool option) \<Rightarrow> nat \<Rightarrow> data list \<Rightarrow> nat list \<Rightarrow> bitmap \<Rightarrow> bitmap option" where
  "column_loop keep offset array [] result = Some result"
| "column_loop keep offset array (i # is') result = do {
     require (i \<ge> offset);
     let row = i - offset;
     require (row < length array);
     case keep (array ! row) of
       None \<Rightarrow> column_loop keep offset array is' result
     | Some b \<Rightarrow> do {
         result \<leftarrow> any_append_bits False (i - any_size result) result;
         result \<leftarrow> any_append_bits b 1 result;
         column_loop keep offset array is' result
       }
   }"

definition column_ids :: "(data \<Rightarrow> bool option) \<Rightarrow> nat \<Rightarrow> data list \<Rightarrow> bitmap \<Rightarrow> bitmap option" where
  "column_ids keep offset array selection = do {
     is' \<leftarrow> select_bitmap True any_ops selection \<bind> select_list True;
     result \<leftarrow> column_loop keep offset array is' any_new;
     any_append_bits False (offset + length array - any_size result) result
   }"

definition keep_compared :: "cell_comparison \<Rightarrow> relational_operator \<Rightarrow> data \<Rightarrow> data \<Rightarrow> bool option" where
  "keep_compared cmp op rhs v = (if v = Null then None else Some (cell_evaluate cmp op (View v) rhs))"

definition keep_null :: "data \<Rightarrow> bool option" where
  "keep_null v = (if v \<noteq> Null then None else Some True)"

definition keep_not_null :: "data \<Rightarrow> bool option" where
  "keep_not_null v = (if v = Null then None else Some True)"

definition column_evaluate ::
  "cell_comparison \<Rightarrow> relational_operator \<Rightarrow> ty \<Rightarrow> nat \<Rightarrow> data list \<Rightarrow> data \<Rightarrow> bitmap \<Rightarrow> bitmap option" where
  "column_evaluate cmp op t offset array rhs selection =
    (case rhs of
       Null \<Rightarrow>
         (case op of
            Equal \<Rightarrow> column_ids keep_null offset array selection
          | Not_equal \<Rightarrow> column_ids keep_not_null offset array selection
          | _ \<Rightarrow> any_make (offset + length array) False)
     | Str s \<Rightarrow>
         (case resolve_transparent t of
            Enumeration_type fs \<Rightarrow>
              (case enum_resolve fs s of
                 Some key \<Rightarrow> column_ids (keep_compared cmp op (Enumeration key)) offset array selection
               | None \<Rightarrow> any_make (offset + length array) False)
          | _ \<Rightarrow> column_ids (keep_compared cmp op rhs) offset array selection)
     | _ \<Rightarrow> column_ids (keep_compared cmp op rhs) offset array selection)"

section \<open>Predicates\<close>

type_synonym row = "data list"

record eval_env =
  ev_compare :: cell_comparison
  ev_fingerprint :: "ty \<Rightarrow> string"

definition evaluate_meta_extractor ::
  "eval_env \<Rightarrow> row table_slice \<Rightarrow> meta_kind \<Rightarrow> relational_operator \<Rightarrow> data \<Rightarrow> bool" where
  "evaluate_meta_extractor env s kind op rhs =
    (let lhs = (case kind of
         Schema \<Rightarrow> View (Str (type_name (ts_schema s)))
       | Schema_id \<Rightarrow> Owned_string (ev_fingerprint env (ts_schema s))
       | Import_time \<Rightarrow> View (Time (ts_import_time s))
       | Internal \<Rightarrow> View (Bool (type_attribute (ts_schema s) ''internal'' \<noteq> None)))
     in cell_evaluate (ev_compare env) op lhs rhs)"

text \<open>\<open>offset::get\<close> on a slice: the type of the field and its array. The arrays of a slice are those of the
  leaves, in their order.\<close>

definition column_at :: "row table_slice \<Rightarrow> nat list \<Rightarrow> (ty \<times> data list) option" where
  "column_at s index =
    (if ts_rows s = 0 then None
     else do {
       fs \<leftarrow> as_record (ts_schema s);
       f \<leftarrow> field_at fs index;
       i \<leftarrow> flat_index fs index;
       Some (snd f, map (\<lambda>row. row ! i) (ts_events s))
     })"

definition evaluate_predicate ::
  "eval_env \<Rightarrow> row table_slice \<Rightarrow> nat \<Rightarrow> predicate \<Rightarrow> bitmap \<Rightarrow> bitmap option" where
  "evaluate_predicate env s offset p selection =
    (case (pred_lhs p, pred_rhs p) of
       (Meta_extractor kind, Data rhs) \<Rightarrow> do {
         some \<leftarrow> bitmap_any True any_ops selection;
         if \<not> some then Some selection
         else if evaluate_meta_extractor env s kind (pred_op p) rhs then Some selection
         else any_make (offset + ts_rows s) False
       }
     | (Data_extractor _ column, Data rhs) \<Rightarrow> do {
         some \<leftarrow> bitmap_any True any_ops selection;
         if \<not> some then any_make (offset + ts_rows s) False
         else do {
           fs \<leftarrow> as_record (ts_schema s);
           index \<leftarrow> resolve_flat_index fs column;
           (t, array) \<leftarrow> column_at s index;
           column_evaluate (ev_compare env) (pred_op p) t offset array rhs selection
         }
       }
     | _ \<Rightarrow> None)"

section \<open>Expressions\<close>

definition ids_and :: "bitmap \<Rightarrow> bitmap \<Rightarrow> bitmap option" where
  "ids_and x y = binary_and any_ops any_ops any_ops x y"

definition ids_xor :: "bitmap \<Rightarrow> bitmap \<Rightarrow> bitmap option" where
  "ids_xor x y = binary_xor any_ops any_ops any_ops x y"

fun evaluate_expression :: "eval_env \<Rightarrow> row table_slice \<Rightarrow> nat \<Rightarrow> expression \<Rightarrow> bitmap \<Rightarrow> bitmap option"
  and evaluate_conjunction :: "eval_env \<Rightarrow> row table_slice \<Rightarrow> nat \<Rightarrow> expression list \<Rightarrow> bitmap \<Rightarrow> bitmap option"
  and evaluate_disjunction ::
    "eval_env \<Rightarrow> row table_slice \<Rightarrow> nat \<Rightarrow> expression list \<Rightarrow> bitmap \<Rightarrow> bitmap \<Rightarrow> bitmap option" where
  "evaluate_expression env s offset None_expr selection = any_make (offset + ts_rows s) False"
| "evaluate_expression env s offset (Negation x) selection = do {
     r \<leftarrow> evaluate_expression env s offset x selection;
     ids_xor selection r
   }"
| "evaluate_expression env s offset (Conjunction xs) selection = evaluate_conjunction env s offset xs selection"
| "evaluate_expression env s offset (Disjunction xs) selection =
    evaluate_disjunction env s offset xs selection selection"
| "evaluate_expression env s offset (Predicate p) selection = evaluate_predicate env s offset p selection"
| "evaluate_conjunction env s offset [] selection = Some selection"
| "evaluate_conjunction env s offset (x # xs) selection = do {
     some \<leftarrow> bitmap_any True any_ops selection;
     if \<not> some then Some selection
     else do {
       selection \<leftarrow> evaluate_expression env s offset x selection;
       evaluate_conjunction env s offset xs selection
     }
   }"
| "evaluate_disjunction env s offset [] selection mask' = do {
     n \<leftarrow> bitmap_not any_ops mask';
     ids_and selection n
   }"
| "evaluate_disjunction env s offset (x # xs) selection mask' = do {
     some \<leftarrow> bitmap_any True any_ops mask';
     if \<not> some then Some selection
     else do {
       r \<leftarrow> evaluate_expression env s offset x mask';
       n \<leftarrow> bitmap_not any_ops r;
       mask' \<leftarrow> ids_and mask' n;
       evaluate_disjunction env s offset xs selection mask'
     }
   }"

text \<open>The hints outside of the slice are ignored; no hints at all stand for every event.\<close>

fun hint_loop :: "nat \<Rightarrow> nat \<Rightarrow> nat list \<Rightarrow> bitmap \<Rightarrow> bitmap option" where
  "hint_loop offset end_id [] selection = Some selection"
| "hint_loop offset end_id (hint # hints) selection =
    (if hint < offset then hint_loop offset end_id hints selection
     else if hint \<ge> end_id then Some selection
     else do {
       selection \<leftarrow> any_append_bits False (hint - any_size selection) selection;
       selection \<leftarrow> any_append_bits True 1 selection;
       hint_loop offset end_id hints selection
     })"

definition slice_offset :: "'r table_slice \<Rightarrow> nat" where
  "slice_offset s = (if ts_offset s = invalid_id then 0 else unat (ts_offset s))"

definition evaluate_slice :: "eval_env \<Rightarrow> expression \<Rightarrow> row table_slice \<Rightarrow> bitmap \<Rightarrow> bitmap option" where
  "evaluate_slice env expr s hints = do {
     let offset = slice_offset s;
     let num_rows = ts_rows s;
     selection \<leftarrow> any_append_bits False offset any_new;
     selection \<leftarrow>
       (if any_empty hints then any_append_bits True num_rows selection
        else do {
          is' \<leftarrow> select_bitmap True any_ops hints \<bind> select_list True;
          selection \<leftarrow> hint_loop offset (offset + num_rows) is' selection;
          any_append_bits False (offset + num_rows - any_size selection) selection
        });
     require (any_size selection = offset + num_rows);
     result \<leftarrow> evaluate_expression env s offset expr selection;
     require (any_size result = offset + num_rows);
     Some result
   }"

section \<open>Selecting events\<close>

text \<open>\<open>select\<close> yields the maximal runs of the events that match; the empty expression matches every event
  here.\<close>

fun runs_to_slices :: "'r table_slice \<Rightarrow> nat \<Rightarrow> (nat \<times> nat) list \<Rightarrow> 'r table_slice list option" where
  "runs_to_slices s offset [] = Some []"
| "runs_to_slices s offset ((a, b) # runs) = do {
     r \<leftarrow> subslice s (a - offset) (b - offset);
     rest \<leftarrow> runs_to_slices s offset runs;
     Some (r # rest)
   }"

definition select_events :: "eval_env \<Rightarrow> row table_slice \<Rightarrow> expression \<Rightarrow> bitmap \<Rightarrow> row table_slice list option" where
  "select_events env s expr hints =
    (if ts_rows s = 0 then Some []
     else do {
       let offset = slice_offset s;
       slice_ids \<leftarrow> make_ids [(offset, offset + ts_rows s)] 0 False;
       selection \<leftarrow> (if \<not> any_empty hints then ids_and slice_ids hints else Some slice_ids);
       some \<leftarrow> bitmap_any True any_ops selection;
       if \<not> some then Some []
       else do {
         tailored \<leftarrow> (if expr = None_expr then Some (Some None_expr) else tailor expr (ts_schema s));
         case tailored of
           None \<Rightarrow> Some []
         | Some tailored_expr \<Rightarrow> do {
             selection \<leftarrow> (if expr = None_expr then Some selection else evaluate_slice env tailored_expr s selection);
             some \<leftarrow> bitmap_any True any_ops selection;
             if \<not> some then Some []
             else do {
               n \<leftarrow> bitmap_rank True any_ops selection;
               if n = ts_rows s then Some [s]
               else do {
                 runs \<leftarrow> select_runs True any_ops selection;
                 runs_to_slices s offset runs
               }
             }
           }
       }
     })"

definition filter_slice ::
  "eval_env \<Rightarrow> row table_slice \<Rightarrow> expression \<Rightarrow> bitmap \<Rightarrow> row table_slice option option" where
  "filter_slice env s expr hints =
    (if ts_rows s = 0 then Some None
     else do {
       selected \<leftarrow> select_events env s expr hints;
       if selected = [] then Some None
       else map_option Some (concatenate selected)
     })"

definition filter_by_expression :: "eval_env \<Rightarrow> row table_slice \<Rightarrow> expression \<Rightarrow> row table_slice option option" where
  "filter_by_expression env s expr = filter_slice env s expr any_new"

definition filter_by_ids :: "eval_env \<Rightarrow> row table_slice \<Rightarrow> bitmap \<Rightarrow> row table_slice option option" where
  "filter_by_ids env s hints = filter_slice env s None_expr hints"

text \<open>Counting evaluates the expression that it was given, not the one that it has tailored.\<close>

fun count_loop :: "nat \<Rightarrow> nat \<Rightarrow> nat list \<Rightarrow> nat" where
  "count_loop offset end_id [] = 0"
| "count_loop offset end_id (i # is') =
    (if i < offset then count_loop offset end_id is'
     else if i \<ge> end_id then 0
     else Suc (count_loop offset end_id is'))"

definition count_matching :: "eval_env \<Rightarrow> row table_slice \<Rightarrow> expression \<Rightarrow> bitmap \<Rightarrow> nat option" where
  "count_matching env s expr hints =
    (if ts_rows s = 0 then Some 0
     else do {
       let offset = slice_offset s;
       if expr_eq expr None_expr then do {
         is' \<leftarrow> select_bitmap True any_ops hints \<bind> select_list True;
         Some (count_loop offset (offset + ts_rows s) is')
       } else do {
         tailored_expr \<leftarrow> tailor expr (ts_schema s);
         if tailored_expr = None then Some 0
         else evaluate_slice env expr s hints \<bind> bitmap_rank True any_ops
       }
     })"

text \<open>The extraction of a store: the events of its slices that match.\<close>

fun store_extract :: "eval_env \<Rightarrow> row table_slice list \<Rightarrow> expression \<Rightarrow> row table_slice list option" where
  "store_extract env [] expr = Some []"
| "store_extract env (s # slices) expr = do {
     filtered_slice \<leftarrow> filter_by_expression env s expr;
     rest \<leftarrow> store_extract env slices expr;
     Some (case filtered_slice of None \<Rightarrow> rest | Some f \<Rightarrow> f # rest)
   }"

definition store_count :: "eval_env \<Rightarrow> row table_slice list \<Rightarrow> expression \<Rightarrow> bitmap \<Rightarrow> nat option list" where
  "store_count env slices expr selection = map (\<lambda>s. count_matching env s expr selection) slices"


section \<open>ID sets as predicates\<close>

text \<open>An ID set with \<open>n\<close> bits, of which those that satisfy \<open>P\<close> are set.\<close>

definition denotes :: "bitmap \<Rightarrow> nat \<Rightarrow> (nat \<Rightarrow> bool) \<Rightarrow> bool" where
  "denotes b n P \<longleftrightarrow> ids_inv b \<and> any_list b = map P [0..<n]"

lemma denotes_cong: "denotes b n P \<Longrightarrow> (\<And>i. i < n \<Longrightarrow> P i = Q i) \<Longrightarrow> denotes b n Q"
  by (simp add: denotes_def)

lemma denotes_size: "denotes b n P \<Longrightarrow> any_size b = n" "denotes b n P \<Longrightarrow> any_empty b \<longleftrightarrow> n = 0"
  using any_size_spec [OF ids_inv_any] by (auto simp: denotes_def)

lemma denotes_new: "denotes any_new 0 P"
  by (simp add: denotes_def any_new_def)

lemma denotes_append:
  assumes "denotes b n P" and "\<And>i. n \<le> i \<Longrightarrow> i < n + k \<Longrightarrow> P i = x"
  shows "\<exists>c. any_append_bits x k b = Some c \<and> denotes c (n + k) P"
proof -
  have "map P [0..<n + k] = map P [0..<n] @ map P [n..<n + k]"
    using upt_add_eq_append [of 0 n k] by simp
  also have "map P [n..<n + k] = replicate k x" using assms(2) by (intro nth_equalityI) simp_all
  finally have eq: "map P [0..<n + k] = map P [0..<n] @ replicate k x" .
  have b: "ids_inv b" "any_list b = map P [0..<n]" using assms(1) by (simp_all add: denotes_def)
  obtain c where "any_append_bits x k b = Some c" "ids_inv c" "any_list c = any_list b @ replicate k x"
    using ids_append(2) [OF b(1)] by blast
  then show ?thesis unfolding denotes_def eq using b(2) by simp
qed

lemma denotes_upto:
  "denotes b m P \<Longrightarrow> m \<le> n \<Longrightarrow> (\<And>i. m \<le> i \<Longrightarrow> i < n \<Longrightarrow> P i = x) \<Longrightarrow>
    \<exists>c. any_append_bits x (n - any_size b) b = Some c \<and> denotes c n P"
  using denotes_append [of b m P "n - m" x] denotes_size by fastforce

lemma denotes_make: "\<exists>c. any_make n x = Some c \<and> denotes c n (\<lambda>i. x)"
  using denotes_append [OF denotes_new, of n "\<lambda>i. x" x] by (simp add: any_make_def)

lemma zip_fill_map: "zip_fill f fl fr (map P [0..<n]) (map Q [0..<n]) = map (\<lambda>i. f (P i) (Q i)) [0..<n]"
  by (rule nth_equalityI) (simp_all add: nth_zip_fill)

lemma denotes_and:
  "denotes x n P \<Longrightarrow> denotes y n Q \<Longrightarrow> \<exists>z. ids_and x y = Some z \<and> denotes z n (\<lambda>i. P i \<and> Q i)"
  using ids_bitwise.binary_eval_spec [OF word_op_simps(1), of x y False False]
  by (auto simp: denotes_def ids_and_def binary_and_def zip_fill_map)

lemma denotes_xor:
  "denotes x n P \<Longrightarrow> denotes y n Q \<Longrightarrow> \<exists>z. ids_xor x y = Some z \<and> denotes z n (\<lambda>i. P i \<noteq> Q i)"
  using ids_bitwise.binary_eval_spec [OF word_op_simps(3), of x y True True]
  by (auto simp: denotes_def ids_xor_def binary_xor_def zip_fill_map)

lemma denotes_not: "denotes x n P \<Longrightarrow> \<exists>z. bitmap_not any_ops x = Some z \<and> denotes z n (\<lambda>i. \<not> P i)"
  using ids.not_spec [of x] by (auto simp: denotes_def comp_def)

lemma denotes_any: "denotes x n P \<Longrightarrow> bitmap_any True any_ops x = Some (\<exists>i < n. P i)"
  using ids.any_spec [of x True] by (auto simp: denotes_def)

lemma positions_map_upt: "positions True (map P [0..<n]) = filter P [0..<n]"
  unfolding positions_def by (rule filter_cong) simp_all

lemma denotes_select:
  "denotes x n P \<Longrightarrow> n < npos \<Longrightarrow> select_bitmap True any_ops x \<bind> select_list True = Some (filter P [0..<n])"
  using ids.select_positions [of x True] by (simp add: denotes_def positions_map_upt del: bind_eq_Some_conv)

lemma denotes_rank: "denotes x n P \<Longrightarrow> bitmap_rank True any_ops x = Some (length (filter P [0..<n]))"
  using ids.rank_spec [of x True] by (simp add: denotes_def count_list_eq_length_filter comp_def)

section \<open>Columns and predicates\<close>

text \<open>The bitmaps grow by appending: \<open>P\<close> is what the result means, and the bits behind what was made so
  far are those of the events still to come.\<close>

lemma column_loop_spec:
  assumes "denotes result k P" and "sorted_wrt (<) is'" and "\<forall>i \<in> set is'. k \<le> i \<and> offset \<le> i \<and> i < offset + length array"
    and "\<And>i. k \<le> i \<Longrightarrow> P i \<longleftrightarrow> i \<in> set is' \<and> keep (array ! (i - offset)) = Some True" and "k \<le> offset + length array"
  shows "\<exists>r k'. column_loop keep offset array is' result = Some r \<and> denotes r k' P \<and> k' \<le> offset + length array
    \<and> (\<forall>i \<ge> k'. \<not> P i)"
  using assms
proof (induction is' arbitrary: result k)
  case Nil
  then show ?case by auto
next
  case (Cons i is')
  have i: "k \<le> i" "offset \<le> i" "i < offset + length array" using Cons.prems(3) by auto
  show ?case
  proof (cases "keep (array ! (i - offset))")
    case None
    have "\<exists>r k'. column_loop keep offset array is' result = Some r \<and> denotes r k' P \<and> k' \<le> offset + length array
      \<and> (\<forall>i \<ge> k'. \<not> P i)"
    proof (rule Cons.IH)
      show "P j \<longleftrightarrow> j \<in> set is' \<and> keep (array ! (j - offset)) = Some True" if "k \<le> j" for j
        using Cons.prems(4) [OF that] None by auto
    qed (use Cons.prems in auto)
    then show ?thesis using i None by (simp add: require_def less_diff_conv2)
  next
    case (Some b)
    have "P j = False" if "k \<le> j" "j < i" for j
      using Cons.prems(2,4) that by auto
    then obtain r1 where r1: "any_append_bits False (i - any_size result) result = Some r1" "denotes r1 i P"
      using denotes_upto [OF Cons.prems(1) i(1)] by blast
    have "P i = b" using Cons.prems(4) [of i] i Some by auto
    then obtain r2 where r2: "any_append_bits b 1 r1 = Some r2" "denotes r2 (i + 1) P"
      using denotes_append [OF r1(2), of 1 b] by (metis add.commute le_antisym less_Suc_eq_le plus_1_eq_Suc)
    have "\<exists>r k'. column_loop keep offset array is' r2 = Some r \<and> denotes r k' P \<and> k' \<le> offset + length array
      \<and> (\<forall>i \<ge> k'. \<not> P i)"
      using r2(2)
    proof (rule Cons.IH)
      show "P j \<longleftrightarrow> j \<in> set is' \<and> keep (array ! (j - offset)) = Some True" if "i + 1 \<le> j" for j
        using Cons.prems(4) [of j] that i by auto
    qed (use Cons.prems i in auto)
    then show ?thesis using i Some r1(1) r2(1) by (simp add: require_def less_diff_conv2)
  qed
qed

lemma column_ids_spec:
  assumes "denotes selection (offset + length array) P" and "offset + length array < npos"
    and "\<And>i. P i \<Longrightarrow> offset \<le> i"
  shows "\<exists>r. column_ids keep offset array selection = Some r
    \<and> denotes r (offset + length array) (\<lambda>i. P i \<and> keep (array ! (i - offset)) = Some True)"
proof -
  let ?n = "offset + length array" and ?Q = "\<lambda>i. i < offset + length array \<and> P i \<and> keep (array ! (i - offset)) = Some True"
  have "\<exists>r k'. column_loop keep offset array (filter P [0..<?n]) any_new = Some r \<and> denotes r k' ?Q \<and> k' \<le> ?n
      \<and> (\<forall>i \<ge> k'. \<not> ?Q i)"
    by (rule column_loop_spec [OF denotes_new]) (use assms(3) in \<open>auto simp: sorted_wrt_filter\<close>)
  then obtain r k where r: "column_loop keep offset array (filter P [0..<?n]) any_new = Some r" "denotes r k ?Q"
      "k \<le> ?n" "\<forall>i \<ge> k. \<not> ?Q i"
    by blast
  obtain c where "any_append_bits False (?n - any_size r) r = Some c" "denotes c ?n ?Q"
    using denotes_upto [OF r(2,3), of False] r(4) by blast
  moreover from this(2) have "denotes c ?n (\<lambda>i. P i \<and> keep (array ! (i - offset)) = Some True)"
    by (rule denotes_cong) simp
  ultimately show ?thesis
    using denotes_select [OF assms(1,2)] r(1) by (simp add: column_ids_def)
qed

text \<open>Whether a predicate holds for a row: a missing value is only equal to null, and nothing else is said
  about it.\<close>

definition value_holds :: "cell_comparison \<Rightarrow> relational_operator \<Rightarrow> ty \<Rightarrow> data \<Rightarrow> data \<Rightarrow> bool" where
  "value_holds cmp op t v rhs =
    (if rhs = Null then (op = Equal \<and> v = Null) \<or> (op = Not_equal \<and> v \<noteq> Null)
     else v \<noteq> Null \<and>
       (case rhs of
          Str s \<Rightarrow>
            (case resolve_transparent t of
               Enumeration_type fs \<Rightarrow>
                 (case enum_resolve fs s of
                    Some key \<Rightarrow> cell_evaluate cmp op (View v) (Enumeration key)
                  | None \<Rightarrow> False)
             | _ \<Rightarrow> cell_evaluate cmp op (View v) rhs)
        | _ \<Rightarrow> cell_evaluate cmp op (View v) rhs))"

lemma column_plain:
  assumes "rhs \<noteq> Null" and "\<And>s fs. rhs = Str s \<Longrightarrow> resolve_transparent t \<noteq> Enumeration_type fs"
  shows "column_evaluate cmp op t offset array rhs selection = column_ids (keep_compared cmp op rhs) offset array selection"
    and "value_holds cmp op t v rhs \<longleftrightarrow> v \<noteq> Null \<and> cell_evaluate cmp op (View v) rhs"
  using assms by (cases rhs; cases "resolve_transparent t"; simp add: column_evaluate_def value_holds_def)+

lemma column_evaluate_spec:
  assumes "denotes selection (offset + length array) P" and "offset + length array < npos"
    and "\<And>i. P i \<Longrightarrow> offset \<le> i"
  shows "\<exists>r. column_evaluate cmp op t offset array rhs selection = Some r
    \<and> denotes r (offset + length array) (\<lambda>i. P i \<and> value_holds cmp op t (array ! (i - offset)) rhs)"
proof -
  note ids = column_ids_spec [OF assms]
  have none: "\<exists>r. any_make (offset + length array) False = Some r
      \<and> denotes r (offset + length array) (\<lambda>i. P i \<and> Q i)" if "\<And>i. \<not> Q i" for Q
    using denotes_make [of "offset + length array" False] that by (auto intro: denotes_cong)
  have null_keep: "keep_null v = Some True \<longleftrightarrow> v = Null" "keep_not_null v = Some True \<longleftrightarrow> v \<noteq> Null" for v
    by (simp_all add: keep_null_def keep_not_null_def)
  have compared: "keep_compared cmp op x v = Some True \<longleftrightarrow> v \<noteq> Null \<and> cell_evaluate cmp op (View v) x" for x v
    by (simp add: keep_compared_def)
  consider (null) "rhs = Null" | (enum) s fs where "rhs = Str s" "resolve_transparent t = Enumeration_type fs"
    | (plain) "rhs \<noteq> Null" "\<And>s fs. rhs = Str s \<Longrightarrow> resolve_transparent t \<noteq> Enumeration_type fs"
    by blast
  then show ?thesis
  proof cases
    case null
    show ?thesis
    proof (cases "op = Equal \<or> op = Not_equal")
      case True
      then show ?thesis
        using ids [of keep_null] ids [of keep_not_null] null by (auto simp: column_evaluate_def value_holds_def null_keep)
    next
      case False
      then show ?thesis
        using none [of "\<lambda>i. value_holds cmp op t (array ! (i - offset)) rhs"] null
        by (cases op) (simp_all add: column_evaluate_def value_holds_def)
    qed
  next
    case enum
    show ?thesis
    proof (cases "enum_resolve fs s")
      case None
      then show ?thesis
        using none [of "\<lambda>i. value_holds cmp op t (array ! (i - offset)) rhs"] enum
        by (simp add: column_evaluate_def value_holds_def)
    next
      case (Some key)
      then show ?thesis
        using enum ids [of "keep_compared cmp op (Enumeration key)"]
        by (simp add: column_evaluate_def value_holds_def compared)
    qed
  next
    case plain
    show ?thesis using ids [of "keep_compared cmp op rhs"] by (simp add: column_plain [OF plain] compared)
  qed
qed


fun bound_predicate :: "fields \<Rightarrow> predicate \<Rightarrow> bool" where
  "bound_predicate fs p =
    (case (pred_lhs p, pred_rhs p) of
       (Meta_extractor _, Data _) \<Rightarrow> True
     | (Data_extractor _ c, Data _) \<Rightarrow> c < num_leaves fs
     | _ \<Rightarrow> False)"

fun bound_expression :: "fields \<Rightarrow> expression \<Rightarrow> bool" where
  "bound_expression fs None_expr = True"
| "bound_expression fs (Conjunction xs) = (\<forall>x \<in> set xs. bound_expression fs x)"
| "bound_expression fs (Disjunction xs) = (\<forall>x \<in> set xs. bound_expression fs x)"
| "bound_expression fs (Negation x) = bound_expression fs x"
| "bound_expression fs (Predicate p) = bound_predicate fs p"

definition row_predicate :: "eval_env \<Rightarrow> row table_slice \<Rightarrow> fields \<Rightarrow> row \<Rightarrow> predicate \<Rightarrow> bool" where
  "row_predicate env s fs row p =
    (case (pred_lhs p, pred_rhs p) of
       (Meta_extractor kind, Data rhs) \<Rightarrow> evaluate_meta_extractor env s kind (pred_op p) rhs
     | (Data_extractor _ c, Data rhs) \<Rightarrow>
         value_holds (ev_compare env) (pred_op p) (snd (snd (record_leaves fs ! c))) (row ! c) rhs
     | _ \<Rightarrow> False)"

text \<open>The bit of the ID \<open>i\<close>, for a row of the slice at the offset.\<close>

definition row_holds :: "eval_env \<Rightarrow> row table_slice \<Rightarrow> fields \<Rightarrow> nat \<Rightarrow> expression \<Rightarrow> nat \<Rightarrow> bool" where
  "row_holds env s fs offset e i = expr_holds (row_predicate env s fs (ts_events s ! (i - offset))) e"

lemma column_at_leaf:
  assumes "as_record (ts_schema s) = Some fs" and "c < num_leaves fs" and "ts_rows s \<noteq> 0"
  shows "resolve_flat_index fs c = Some (fst (record_leaves fs ! c))"
    and "column_at s (fst (record_leaves fs ! c))
      = Some (snd (snd (record_leaves fs ! c)), map (\<lambda>row. row ! c) (ts_events s))"
proof -
  show res: "resolve_flat_index fs c = Some (fst (record_leaves fs ! c))"
    using assms(2) by (simp add: resolve_flat_index_leaves)
  then have flat: "flat_index fs (fst (record_leaves fs ! c)) = Some c" by (simp add: flat_index_roundtrip)
  have "record_leaves fs ! c \<in> set (record_leaves fs)" using assms(2) by (simp add: num_leaves_leaves)
  then have "field_at fs (fst (record_leaves fs ! c)) = Some (snd (record_leaves fs ! c))"
    by (intro record_leaves_field) (simp add: prod_eq_iff)
  then show "column_at s (fst (record_leaves fs ! c))
      = Some (snd (snd (record_leaves fs ! c)), map (\<lambda>row. row ! c) (ts_events s))"
    using assms(1,3) flat by (simp add: column_at_def)
qed

lemma evaluate_predicate_spec:
  assumes schema: "as_record (ts_schema s) = Some fs" and size: "offset + ts_rows s < npos"
    and sel: "denotes selection (offset + ts_rows s) P" "\<And>i. P i \<Longrightarrow> offset \<le> i" and bound: "bound_predicate fs p"
  shows "\<exists>r. evaluate_predicate env s offset p selection = Some r
    \<and> denotes r (offset + ts_rows s) (\<lambda>i. P i \<and> row_predicate env s fs (ts_events s ! (i - offset)) p)"
proof -
  let ?n = "offset + ts_rows s"
  have none: "\<exists>r. any_make ?n False = Some r \<and> denotes r ?n (\<lambda>i. P i \<and> Q i)" if "\<And>i. i < ?n \<Longrightarrow> \<not> (P i \<and> Q i)" for Q
    using denotes_make [of ?n False] that by (auto intro: denotes_cong)
  consider (meta) kind rhs where "pred_lhs p = Meta_extractor kind" "pred_rhs p = Data rhs"
    | (data) t c rhs where "pred_lhs p = Data_extractor t c" "pred_rhs p = Data rhs" "c < num_leaves fs"
    using bound by (auto split: operand.splits)
  then show ?thesis
  proof cases
    case meta
    have same: "denotes selection ?n (\<lambda>i. P i \<and> Q)" if "(\<exists>i < ?n. P i) \<longrightarrow> Q" for Q
      using sel(1) that by (auto intro: denotes_cong)
    show ?thesis
    proof (cases "(\<exists>i < ?n. P i) \<longrightarrow> evaluate_meta_extractor env s kind (pred_op p) rhs")
      case True
      then have "evaluate_predicate env s offset p selection = Some selection"
        using meta denotes_any [OF sel(1)] by (simp add: evaluate_predicate_def)
      then show ?thesis using same [OF True] meta by (simp add: row_predicate_def)
    next
      case False
      then show ?thesis
        using meta denotes_any [OF sel(1)] none [of "\<lambda>i. row_predicate env s fs (ts_events s ! (i - offset)) p"]
        by (simp add: evaluate_predicate_def row_predicate_def)
    qed
  next
    case data
    show ?thesis
    proof (cases "\<exists>i < ?n. P i")
      case True
      then have rows: "ts_rows s \<noteq> 0" using sel(2) by force
      let ?t = "snd (snd (record_leaves fs ! c))" and ?array = "map (\<lambda>row. row ! c) (ts_events s)"
      obtain r where r: "column_evaluate (ev_compare env) (pred_op p) ?t offset ?array rhs selection = Some r"
          "denotes r ?n (\<lambda>i. P i \<and> value_holds (ev_compare env) (pred_op p) ?t (?array ! (i - offset)) rhs)"
        using column_evaluate_spec [of selection offset ?array P "ev_compare env" "pred_op p" ?t rhs] sel size by auto
      have "denotes r ?n (\<lambda>i. P i \<and> row_predicate env s fs (ts_events s ! (i - offset)) p)"
      proof (rule denotes_cong [OF r(2)])
        fix i
        assume "i < ?n"
        have "?array ! (i - offset) = ts_events s ! (i - offset) ! c" if "P i"
          using \<open>i < ?n\<close> sel(2) [OF that] by (simp add: less_diff_conv2 add.commute)
        then show "(P i \<and> value_holds (ev_compare env) (pred_op p) ?t (?array ! (i - offset)) rhs)
            = (P i \<and> row_predicate env s fs (ts_events s ! (i - offset)) p)"
          using data by (auto simp: row_predicate_def)
      qed
      then show ?thesis
        using True data r(1) denotes_any [OF sel(1)] schema column_at_leaf [OF schema data(3) rows]
        by (simp add: evaluate_predicate_def)
    next
      case False
      then show ?thesis
        using data denotes_any [OF sel(1)] none [of "\<lambda>i. row_predicate env s fs (ts_events s ! (i - offset)) p"]
        by (simp add: evaluate_predicate_def)
    qed
  qed
qed

text \<open>What holds for the operands of a connective holds for the loops over them.\<close>

definition evaluates :: "eval_env \<Rightarrow> row table_slice \<Rightarrow> nat \<Rightarrow> expression \<Rightarrow> (nat \<Rightarrow> bool) \<Rightarrow> bool" where
  "evaluates env s offset e H \<longleftrightarrow>
    (\<forall>selection P. denotes selection (offset + ts_rows s) P \<longrightarrow> (\<forall>i. P i \<longrightarrow> offset \<le> i) \<longrightarrow>
      (\<exists>r. evaluate_expression env s offset e selection = Some r
        \<and> denotes r (offset + ts_rows s) (\<lambda>i. P i \<and> H i)))"

lemma evaluatesD:
  "evaluates env s offset e H \<Longrightarrow> denotes selection (offset + ts_rows s) P \<Longrightarrow> (\<And>i. P i \<Longrightarrow> offset \<le> i) \<Longrightarrow>
    \<exists>r. evaluate_expression env s offset e selection = Some r \<and> denotes r (offset + ts_rows s) (\<lambda>i. P i \<and> H i)"
  by (simp add: evaluates_def)

lemma evaluate_conjunction_spec:
  assumes "\<forall>x \<in> set xs. evaluates env s offset x (H x)" and "denotes selection (offset + ts_rows s) P"
    and "\<And>i. P i \<Longrightarrow> offset \<le> i"
  shows "\<exists>r. evaluate_conjunction env s offset xs selection = Some r
    \<and> denotes r (offset + ts_rows s) (\<lambda>i. P i \<and> (\<forall>x \<in> set xs. H x i))"
  using assms
proof (induction xs arbitrary: selection P)
  case (Cons x xs)
  show ?case
  proof (cases "\<exists>i < offset + ts_rows s. P i")
    case True
    obtain r where r: "evaluate_expression env s offset x selection = Some r"
        "denotes r (offset + ts_rows s) (\<lambda>i. P i \<and> H x i)"
      using evaluatesD [OF _ Cons.prems(2,3), of env x "H x"] Cons.prems(1) by auto
    have "\<exists>r'. evaluate_conjunction env s offset xs r = Some r'
        \<and> denotes r' (offset + ts_rows s) (\<lambda>i. (P i \<and> H x i) \<and> (\<forall>x \<in> set xs. H x i))"
      using Cons.prems(1,3) by (intro Cons.IH r(2)) auto
    then show ?thesis using True r(1) denotes_any [OF Cons.prems(2)] by (simp add: conj_assoc)
  next
    case False
    then have "denotes selection (offset + ts_rows s) (\<lambda>i. P i \<and> (\<forall>y \<in> set (x # xs). H y i))"
      using Cons.prems(2) by (auto intro: denotes_cong)
    then show ?thesis using False denotes_any [OF Cons.prems(2)] by simp
  qed
qed simp

lemma evaluate_disjunction_spec:
  assumes "\<forall>x \<in> set xs. evaluates env s offset x (H x)" and "denotes selection (offset + ts_rows s) P"
    and "\<And>i. P i \<Longrightarrow> offset \<le> i" and "denotes m (offset + ts_rows s) (\<lambda>i. P i \<and> \<not> Q i)"
  shows "\<exists>r. evaluate_disjunction env s offset xs selection m = Some r
    \<and> denotes r (offset + ts_rows s) (\<lambda>i. P i \<and> (Q i \<or> (\<exists>x \<in> set xs. H x i)))"
  using assms
proof (induction xs arbitrary: m Q)
  case Nil
  obtain k where k: "bitmap_not any_ops m = Some k" "denotes k (offset + ts_rows s) (\<lambda>i. \<not> (P i \<and> \<not> Q i))"
    using denotes_not [OF Nil.prems(4)] by blast
  obtain z where "ids_and selection k = Some z" "denotes z (offset + ts_rows s) (\<lambda>i. P i \<and> \<not> (P i \<and> \<not> Q i))"
    using denotes_and [OF Nil.prems(2) k(2)] by blast
  then show ?case using k(1) by (auto elim: denotes_cong)
next
  case (Cons x xs)
  show ?case
  proof (cases "\<exists>i < offset + ts_rows s. P i \<and> \<not> Q i")
    case True
    have "\<exists>r. evaluate_expression env s offset x m = Some r
        \<and> denotes r (offset + ts_rows s) (\<lambda>i. (P i \<and> \<not> Q i) \<and> H x i)"
      using Cons.prems(1,3) by (intro evaluatesD [OF _ Cons.prems(4)]) auto
    then obtain r0 where r0: "evaluate_expression env s offset x m = Some r0"
        "denotes r0 (offset + ts_rows s) (\<lambda>i. (P i \<and> \<not> Q i) \<and> H x i)"
      by blast
    obtain k where k: "bitmap_not any_ops r0 = Some k"
        "denotes k (offset + ts_rows s) (\<lambda>i. \<not> ((P i \<and> \<not> Q i) \<and> H x i))"
      using denotes_not [OF r0(2)] by blast
    obtain z where z: "ids_and m k = Some z"
        "denotes z (offset + ts_rows s) (\<lambda>i. (P i \<and> \<not> Q i) \<and> \<not> ((P i \<and> \<not> Q i) \<and> H x i))"
      using denotes_and [OF Cons.prems(4) k(2)] by blast
    note r = r0(1) k(1) z(1)
    have z': "denotes z (offset + ts_rows s) (\<lambda>i. P i \<and> \<not> (Q i \<or> H x i))"
      using z(2) by (rule denotes_cong) blast
    have "\<exists>r'. evaluate_disjunction env s offset xs selection z = Some r'
        \<and> denotes r' (offset + ts_rows s) (\<lambda>i. P i \<and> ((Q i \<or> H x i) \<or> (\<exists>x \<in> set xs. H x i)))"
      using Cons.prems(1-3) by (intro Cons.IH z') auto
    moreover have "evaluate_disjunction env s offset (x # xs) selection m = evaluate_disjunction env s offset xs selection z"
      using True r denotes_any [OF Cons.prems(4)] by simp
    ultimately show ?thesis by (simp add: disj_assoc)
  next
    case False
    then have "denotes selection (offset + ts_rows s) (\<lambda>i. P i \<and> (Q i \<or> (\<exists>y \<in> set (x # xs). H y i)))"
      using Cons.prems(2) by (auto intro: denotes_cong)
    then show ?thesis using False denotes_any [OF Cons.prems(4)] by simp
  qed
qed

lemma evaluate_expression_spec:
  assumes schema: "as_record (ts_schema s) = Some fs" and size: "offset + ts_rows s < npos"
    and bound: "bound_expression fs e"
  shows "evaluates env s offset e (row_holds env s fs offset e)"
  using bound
proof (induction e)
  case None_expr
  have "\<exists>r. any_make (offset + ts_rows s) False = Some r \<and> denotes r (offset + ts_rows s) (\<lambda>i. False)"
    by (rule denotes_make)
  then show ?case by (simp add: evaluates_def row_holds_def)
next
  case (Conjunction xs)
  then have "\<forall>x \<in> set xs. evaluates env s offset x (row_holds env s fs offset x)" by auto
  then show ?case using evaluate_conjunction_spec [of xs env s offset "row_holds env s fs offset"]
    by (simp add: evaluates_def row_holds_def)
next
  case (Disjunction xs)
  then have "\<forall>x \<in> set xs. evaluates env s offset x (row_holds env s fs offset x)" by auto
  then show ?case using evaluate_disjunction_spec [of xs env s offset "row_holds env s fs offset" _ _ _ "\<lambda>i. False"]
    by (simp add: evaluates_def row_holds_def)
next
  case (Negation x)
  then have x: "evaluates env s offset x (row_holds env s fs offset x)" by simp
  show ?case
    unfolding evaluates_def
  proof (intro allI impI)
    fix selection P
    assume sel: "denotes selection (offset + ts_rows s) P" and "\<forall>i. P i \<longrightarrow> offset \<le> i"
    then obtain r where r: "evaluate_expression env s offset x selection = Some r"
        "denotes r (offset + ts_rows s) (\<lambda>i. P i \<and> row_holds env s fs offset x i)"
      using evaluatesD [OF x sel] by blast
    obtain z where z: "ids_xor selection r = Some z"
        "denotes z (offset + ts_rows s) (\<lambda>i. P i \<noteq> (P i \<and> row_holds env s fs offset x i))"
      using denotes_xor [OF sel r(2)] by blast
    have "denotes z (offset + ts_rows s) (\<lambda>i. P i \<and> row_holds env s fs offset (Negation x) i)"
      using z(2) by (rule denotes_cong) (auto simp: row_holds_def)
    then show "\<exists>r. evaluate_expression env s offset (Negation x) selection = Some r
        \<and> denotes r (offset + ts_rows s) (\<lambda>i. P i \<and> row_holds env s fs offset (Negation x) i)"
      using r(1) z(1) by simp
  qed
next
  case (Predicate p)
  then show ?case using evaluate_predicate_spec [OF schema size] by (simp add: evaluates_def row_holds_def)
qed


section \<open>Slices\<close>

lemma hint_loop_spec:
  assumes "denotes selection k P" and "sorted_wrt (<) is'" and "\<forall>i \<in> set is'. i < offset \<or> k \<le> i"
    and "\<And>i. k \<le> i \<Longrightarrow> P i \<longleftrightarrow> i \<in> set is' \<and> i < end_id" and "offset \<le> k" and "k \<le> end_id"
  shows "\<exists>r k'. hint_loop offset end_id is' selection = Some r \<and> denotes r k' P \<and> k' \<le> end_id \<and> (\<forall>i \<ge> k'. \<not> P i)"
  using assms
proof (induction is' arbitrary: selection k)
  case Nil
  then show ?case by auto
next
  case (Cons i is')
  consider (before) "i < offset" | (behind) "\<not> i < offset" "i \<ge> end_id" | (inside) "\<not> i < offset" "i < end_id" by linarith
  then show ?case
  proof cases
    case before
    then have "P j \<longleftrightarrow> j \<in> set is' \<and> j < end_id" if "k \<le> j" for j
      using Cons.prems(4) [OF that] Cons.prems(5) that by auto
    then show ?thesis using before Cons.prems Cons.IH [of selection k] by simp
  next
    case behind
    then have "\<not> P j" if "k \<le> j" for j
      using Cons.prems(2,4) that by fastforce
    then show ?thesis using behind Cons.prems by auto
  next
    case inside
    then have i: "k \<le> i" using Cons.prems(3) by auto
    have "P j = False" if "k \<le> j" "j < i" for j
      using Cons.prems(2,4) that by fastforce
    then obtain r1 where r1: "any_append_bits False (i - any_size selection) selection = Some r1" "denotes r1 i P"
      using denotes_upto [OF Cons.prems(1) i] by blast
    have "P i = True" using Cons.prems(4) [OF i] inside by simp
    then obtain r2 where r2: "any_append_bits True 1 r1 = Some r2" "denotes r2 (i + 1) P"
      using denotes_append [OF r1(2), of 1 True] by (metis add.commute le_antisym less_Suc_eq_le plus_1_eq_Suc)
    have "\<exists>r k'. hint_loop offset end_id is' r2 = Some r \<and> denotes r k' P \<and> k' \<le> end_id \<and> (\<forall>i \<ge> k'. \<not> P i)"
      using r2(2)
    proof (rule Cons.IH)
      show "P j \<longleftrightarrow> j \<in> set is' \<and> j < end_id" if "i + 1 \<le> j" for j
        using Cons.prems(4) [of j] that i by auto
    qed (use Cons.prems inside i in auto)
    then show ?thesis using inside r1(1) r2(1) by simp
  qed
qed

text \<open>Whether the hints leave an event in question.\<close>

definition hinted :: "bitmap \<Rightarrow> nat \<Rightarrow> bool" where
  "hinted hints i \<longleftrightarrow> any_empty hints \<or> bit_at (any_list hints) i"

lemma denotes_bit_at: "ids_inv b \<Longrightarrow> denotes b (length (any_list b)) (bit_at (any_list b))"
proof -
  have "map (bit_at xs) [0..<length xs] = xs" for xs :: "bool list"
    by (rule nth_equalityI) (simp_all add: bit_at_def)
  then show "ids_inv b \<Longrightarrow> ?thesis" by (simp add: denotes_def)
qed

lemma evaluate_slice_spec:
  assumes schema: "as_record (ts_schema s) = Some fs" and size: "slice_offset s + ts_rows s < npos"
    and bound: "bound_expression fs e" and hints: "ids_inv hints" "length (any_list hints) < npos"
  shows "\<exists>r. evaluate_slice env e s hints = Some r \<and> denotes r (slice_offset s + ts_rows s)
    (\<lambda>i. slice_offset s \<le> i \<and> hinted hints i \<and> row_holds env s fs (slice_offset s) e i)"
proof -
  let ?o = "slice_offset s" and ?n = "slice_offset s + ts_rows s"
  let ?P = "\<lambda>i. ?o \<le> i \<and> i < ?n \<and> hinted hints i"
  obtain s0 where s0: "any_append_bits False ?o any_new = Some s0" "denotes s0 ?o ?P"
    using denotes_append [OF denotes_new, of ?o ?P False] by auto
  have empty: "any_empty hints \<longleftrightarrow> any_list hints = []" using denotes_size(2) [OF denotes_bit_at [OF hints(1)]] by simp
  have "\<exists>sel. (if any_empty hints then any_append_bits True (ts_rows s) s0
      else do {
        is' \<leftarrow> select_bitmap True any_ops hints \<bind> select_list True;
        selection \<leftarrow> hint_loop ?o ?n is' s0;
        any_append_bits False (?n - any_size selection) selection
      }) = Some sel \<and> denotes sel ?n ?P"
  proof (cases "any_empty hints")
    case True
    then show ?thesis using denotes_append [OF s0(2), of "ts_rows s" True] by (simp add: hinted_def)
  next
    case False
    let ?is = "filter (bit_at (any_list hints)) [0..<length (any_list hints)]"
    have "\<exists>r k'. hint_loop ?o ?n ?is s0 = Some r \<and> denotes r k' ?P \<and> k' \<le> ?n \<and> (\<forall>i \<ge> k'. \<not> ?P i)"
      by (rule hint_loop_spec [OF s0(2)]) (use False in \<open>auto simp: sorted_wrt_filter hinted_def bit_at_def\<close>)
    then obtain r k where r: "hint_loop ?o ?n ?is s0 = Some r" "denotes r k ?P" "k \<le> ?n" "\<forall>i \<ge> k. \<not> ?P i" by blast
    obtain c where "any_append_bits False (?n - any_size r) r = Some c" "denotes c ?n ?P"
      using denotes_upto [OF r(2,3), of False] r(4) by blast
    then show ?thesis using False r(1) denotes_select [OF denotes_bit_at [OF hints(1)] hints(2)] by simp
  qed
  then obtain sel where sel: "(if any_empty hints then any_append_bits True (ts_rows s) s0
      else do {
        is' \<leftarrow> select_bitmap True any_ops hints \<bind> select_list True;
        selection \<leftarrow> hint_loop ?o ?n is' s0;
        any_append_bits False (?n - any_size selection) selection
      }) = Some sel" "denotes sel ?n ?P"
    by blast
  obtain r where r: "evaluate_expression env s ?o e sel = Some r"
      "denotes r ?n (\<lambda>i. ?P i \<and> row_holds env s fs ?o e i)"
    using evaluatesD [OF evaluate_expression_spec [OF schema size bound] sel(2)] by auto
  have "evaluate_slice env e s hints = Some r"
    using s0(1) sel r denotes_size(1) [OF sel(2)] denotes_size(1) [OF r(2)]
    by (simp add: evaluate_slice_def Let_def require_def)
  moreover have "denotes r ?n (\<lambda>i. ?o \<le> i \<and> hinted hints i \<and> row_holds env s fs ?o e i)"
    using r(2) by (rule denotes_cong) auto
  ultimately show ?thesis by blast
qed

section \<open>Selections\<close>

lemma runs_to_slices_spec:
  assumes "\<forall>(a, b) \<in> set rs. offset \<le> a \<and> a \<le> b \<and> b \<le> offset + ts_rows s"
  shows "\<exists>ss. runs_to_slices s offset rs = Some ss \<and> events_of ss = map (\<lambda>i. ts_events s ! (i - offset)) (runs_of rs)
    \<and> (\<forall>x \<in> set ss. part_of x s)"
  using assms
proof (induction rs)
  case (Cons ab rs)
  obtain a b where ab: "ab = (a, b)" "offset \<le> a" "a \<le> b" "b \<le> offset + ts_rows s" using Cons.prems by (cases ab) auto
  obtain r where r: "subslice s (a - offset) (b - offset) = Some r" "part_of r s"
      "ts_events r = take (b - offset - (a - offset)) (drop (a - offset) (ts_events s))"
  proof -
    have "a - offset \<le> b - offset" "b - offset \<le> ts_rows s" using ab by auto
    from subslice_spec [OF this] show ?thesis using that by blast
  qed
  have "ts_events r = map (\<lambda>i. ts_events s ! (i - offset)) [a..<b]"
    unfolding r(3) using ab by (intro nth_equalityI) auto
  then show ?case using Cons ab(1) r(1,2) by (auto simp: runs_of_def)
qed (simp add: runs_of_def)

text \<open>What is done with a selection within the slice.\<close>

lemma selection_to_slices:
  assumes sel: "denotes sel m P" and m: "m < npos" and P: "\<And>i. P i \<Longrightarrow> offset \<le> i \<and> i < offset + ts_rows s"
    and some: "\<exists>i < m. P i"
  shows "\<exists>n rs ss. bitmap_rank True any_ops sel = Some n \<and> select_runs True any_ops sel = Some rs
    \<and> (n = ts_rows s \<longrightarrow> filter P [0..<m] = [offset..<offset + ts_rows s])
    \<and> runs_to_slices s offset rs = Some ss \<and> events_of ss = map (\<lambda>i. ts_events s ! (i - offset)) (filter P [0..<m])
    \<and> (\<forall>x \<in> set ss. part_of x s) \<and> ss \<noteq> []"
proof -
  have inv: "ids_inv sel" "any_list sel = map P [0..<m]" using sel by (simp_all add: denotes_def)
  obtain rs where rs: "select_runs True any_ops sel = Some rs" "maximal_runs rs" "runs_of rs = filter P [0..<m]"
    using ids.select_runs_spec [of sel True] inv m some by (auto simp: positions_map_upt)
  have "offset \<le> a \<and> a \<le> b \<and> b \<le> offset + ts_rows s" if "(a, b) \<in> set rs" for a b
  proof -
    have "a < b" using rs(2) that by (auto simp: maximal_runs_def)
    then have "a \<in> set [a..<b]" "b - 1 \<in> set [a..<b]" by auto
    then have "a \<in> set (runs_of rs)" "b - 1 \<in> set (runs_of rs)"
      unfolding runs_of_def set_concat set_map using that by blast+
    then show ?thesis using P [of a] P [of "b - 1"] \<open>a < b\<close> unfolding rs(3) by auto
  qed
  then obtain ss where ss: "runs_to_slices s offset rs = Some ss"
      "events_of ss = map (\<lambda>i. ts_events s ! (i - offset)) (filter P [0..<m])" "\<forall>x \<in> set ss. part_of x s"
    using runs_to_slices_spec [of rs offset s] rs(3) by auto
  have "filter P [0..<m] \<noteq> []" using some by (auto simp: filter_empty_conv)
  then have "ss \<noteq> []" using ss(2) by auto
  moreover have "filter P [0..<m] = [offset..<offset + ts_rows s]" if "length (filter P [0..<m]) = ts_rows s"
  proof (rule sorted_distinct_set_unique)
    have "set (filter P [0..<m]) \<subseteq> set [offset..<offset + ts_rows s]" using P by auto
    moreover have "card (set (filter P [0..<m])) = card (set [offset..<offset + ts_rows s])"
      using that distinct_card [of "filter P [0..<m]"] by simp
    ultimately show "set (filter P [0..<m]) = set [offset..<offset + ts_rows s]"
      using card_subset_eq by (metis finite_set)
  qed (simp_all add: sorted_wrt_filter)
  ultimately show ?thesis using denotes_rank [OF sel] rs(1) ss by blast
qed


lemma rows_of_selection:
  assumes "\<And>i. i < m \<Longrightarrow> P i \<longleftrightarrow> offset \<le> i \<and> i < offset + length xs \<and> Q (i - offset)" and "offset + length xs \<le> m"
  shows "map (\<lambda>i. xs ! (i - offset)) (filter P [0..<m]) = nths xs {j. Q j}"
proof -
  have "[0..<m] = [0..<offset] @ [offset..<offset + length xs] @ [offset + length xs..<m]"
    using assms(2) upt_add_eq_append [of 0 offset "length xs"]
      upt_add_eq_append [of 0 "offset + length xs" "m - (offset + length xs)"] by simp
  also have "filter P \<dots> = filter P [offset..<offset + length xs]"
    using assms by (auto simp: filter_empty_conv)
  also have "\<dots> = map (\<lambda>i. i + offset) (filter Q [0..<length xs])"
  proof -
    have "[offset..<offset + length xs] = map (\<lambda>i. i + offset) [0..<length xs]" by (simp add: map_add_upt add.commute)
    then have "filter P [offset..<offset + length xs] = map (\<lambda>i. i + offset) (filter (\<lambda>i. P (i + offset)) [0..<length xs])"
      by (simp add: filter_map comp_def)
    also have "filter (\<lambda>i. P (i + offset)) [0..<length xs] = filter Q [0..<length xs]"
      using assms by (intro filter_cong) auto
    finally show ?thesis .
  qed
  finally show ?thesis by (simp add: nths_map_nth comp_def)
qed

text \<open>The rows of a slice that are asked for and satisfy a condition.\<close>

definition selected_rows :: "'r table_slice \<Rightarrow> bitmap \<Rightarrow> ('r \<Rightarrow> bool) \<Rightarrow> 'r list" where
  "selected_rows s hints H = nths (ts_events s) {j. hinted hints (slice_offset s + j) \<and> H (ts_events s ! j)}"

definition fits :: "row table_slice \<Rightarrow> bitmap \<Rightarrow> bool" where
  "fits s hints \<longleftrightarrow> slice_offset s + ts_rows s < npos \<and> ids_inv hints \<and> length (any_list hints) < npos"

lemma initial_selection:
  assumes "fits s hints" and "ts_rows s \<noteq> 0"
  shows "\<exists>ids sel m. make_ids [(slice_offset s, slice_offset s + ts_rows s)] 0 False = Some ids
    \<and> (if \<not> any_empty hints then ids_and ids hints else Some ids) = Some sel
    \<and> denotes sel m (\<lambda>i. slice_offset s \<le> i \<and> i < slice_offset s + ts_rows s \<and> hinted hints i)
    \<and> slice_offset s + ts_rows s \<le> m \<and> m < npos"
proof -
  let ?n = "slice_offset s + ts_rows s"
  have hints: "ids_inv hints" "length (any_list hints) < npos" "?n < npos" using assms(1) by (simp_all add: fits_def)
  have empty: "any_empty hints \<longleftrightarrow> any_list hints = []" using denotes_size(2) [OF denotes_bit_at [OF hints(1)]] by simp
  obtain ids where ids: "make_ids [(slice_offset s, ?n)] 0 False = Some ids" "ids_inv ids" "length (any_list ids) = ?n"
      "\<forall>i. bit_at (any_list ids) i \<longleftrightarrow> slice_offset s \<le> i \<and> i < ?n"
    using make_ids_spec [of "[(slice_offset s, ?n)]" 0 False] assms(2) by auto
  have "\<exists>sel. (if \<not> any_empty hints then ids_and ids hints else Some ids) = Some sel \<and> ids_inv sel
      \<and> ?n \<le> length (any_list sel) \<and> length (any_list sel) < npos
      \<and> (\<forall>i. bit_at (any_list sel) i \<longleftrightarrow> slice_offset s \<le> i \<and> i < ?n \<and> hinted hints i)"
  proof (cases "any_empty hints")
    case True
    then show ?thesis using ids hints(3) by (auto simp: hinted_def)
  next
    case False
    then show ?thesis
      using ids_bitwise.binary_eval_spec [OF word_op_simps(1) ids(2) hints(1), of False False] ids(3,4) hints(2,3)
      by (auto simp: ids_and_def binary_and_def bit_at_ops hinted_def)
  qed
  then obtain sel where sel: "(if \<not> any_empty hints then ids_and ids hints else Some ids) = Some sel" "ids_inv sel"
      "?n \<le> length (any_list sel)" "length (any_list sel) < npos"
      "\<forall>i. bit_at (any_list sel) i \<longleftrightarrow> slice_offset s \<le> i \<and> i < ?n \<and> hinted hints i"
    by blast
  have "denotes sel (length (any_list sel)) (\<lambda>i. slice_offset s \<le> i \<and> i < ?n \<and> hinted hints i)"
    using denotes_bit_at [OF sel(2)] by (rule denotes_cong) (use sel(5) in blast)
  then show ?thesis using ids(1) sel(1,3,4) by blast
qed

text \<open>Whether a row satisfies the expression that tailoring yields.\<close>

definition tailored_holds :: "eval_env \<Rightarrow> row table_slice \<Rightarrow> fields \<Rightarrow> expression \<Rightarrow> expression option \<Rightarrow> row \<Rightarrow> bool" where
  "tailored_holds env s fs e t r =
    (if e = None_expr then True
     else case t of None \<Rightarrow> False | Some te \<Rightarrow> expr_holds (row_predicate env s fs r) te)"

lemma select_events_spec:
  assumes schema: "as_record (ts_schema s) = Some fs" and fits: "fits s hints"
    and t: "e \<noteq> None_expr \<Longrightarrow> tailor e (ts_schema s) = Some t" and bound: "\<And>te. t = Some te \<Longrightarrow> bound_expression fs te"
    and H: "H = tailored_holds env s fs e t"
  shows "\<exists>ss. select_events env s e hints = Some ss \<and> events_of ss = selected_rows s hints H
    \<and> (\<forall>x \<in> set ss. part_of x s) \<and> (ss = [] \<longleftrightarrow> selected_rows s hints H = [])"
proof (cases "ts_rows s = 0")
  case True
  then have "selected_rows s hints H = []" by (simp add: selected_rows_def)
  then show ?thesis using True by (simp add: select_events_def)
next
  case False
  let ?o = "slice_offset s" and ?n = "slice_offset s + ts_rows s"
  let ?S = "\<lambda>i. ?o \<le> i \<and> i < ?n \<and> hinted hints i"
  let ?H = "\<lambda>i. ?S i \<and> H (ts_events s ! (i - ?o))"
  obtain ids sel m where ids: "make_ids [(?o, ?n)] 0 False = Some ids"
      "(if \<not> any_empty hints then ids_and ids hints else Some ids) = Some sel"
    and sel: "denotes sel m ?S" "?n \<le> m" "m < npos"
    using initial_selection [OF fits False] by blast
  have rows: "map (\<lambda>i. ts_events s ! (i - ?o)) (filter ?H [0..<k]) = selected_rows s hints H" if "?n \<le> k" for k
    unfolding selected_rows_def by (rule rows_of_selection) (use that in auto)
  have none: "selected_rows s hints H = []" if "\<And>i. i < ?n \<Longrightarrow> \<not> ?H i"
  proof -
    have "filter ?H [0..<?n] = []" using that by (auto simp: filter_empty_conv)
    then show ?thesis using rows [of ?n] by simp
  qed
  have finish: "\<exists>ss. (do {
        some \<leftarrow> bitmap_any True any_ops sel';
        if \<not> some then Some []
        else do {
          n \<leftarrow> bitmap_rank True any_ops sel';
          if n = ts_rows s then Some [s]
          else do { runs \<leftarrow> select_runs True any_ops sel'; runs_to_slices s ?o runs }
        }
      }) = Some ss \<and> events_of ss = selected_rows s hints H \<and> (\<forall>x \<in> set ss. part_of x s)
        \<and> (ss = [] \<longleftrightarrow> selected_rows s hints H = [])"
    if d: "denotes sel' k ?H" and k: "?n \<le> k" "k < npos" for sel' k
  proof (cases "\<exists>i < k. ?H i")
    case True
    obtain n rs ss where r: "bitmap_rank True any_ops sel' = Some n" "select_runs True any_ops sel' = Some rs"
        "n = ts_rows s \<longrightarrow> filter ?H [0..<k] = [?o..<?n]" "runs_to_slices s ?o rs = Some ss"
        "events_of ss = map (\<lambda>i. ts_events s ! (i - ?o)) (filter ?H [0..<k])" "\<forall>x \<in> set ss. part_of x s"
      using selection_to_slices [OF d k(2) _ True, of ?o s] by auto
    have ne: "selected_rows s hints H \<noteq> []"
      using True unfolding rows [OF k(1), symmetric] by (auto simp: filter_empty_conv)
    then have "ss \<noteq> []" using r(5) rows [OF k(1)] by auto
    moreover have "ts_events s = selected_rows s hints H" if "n = ts_rows s"
    proof -
      have "map (\<lambda>i. ts_events s ! (i - ?o)) [?o..<?n] = ts_events s" by (rule nth_equalityI) auto
      then show ?thesis using r(3) that rows [OF k(1)] by simp
    qed
    ultimately show ?thesis using True denotes_any [OF d] r rows [OF k(1)] ne by auto
  next
    case False
    then have "selected_rows s hints H = []" using none k(1) by auto
    then show ?thesis using False denotes_any [OF d] by simp
  qed
  show ?thesis
  proof (cases "\<exists>i < m. ?S i")
    case no: False
    then have "selected_rows s hints H = []" using none sel(2) by auto
    then show ?thesis using False no ids denotes_any [OF sel(1)] by (simp add: select_events_def Let_def)
  next
    case some: True
    show ?thesis
    proof (cases "e = None_expr")
      case True
      then have "denotes sel m ?H" using sel(1) by (simp add: H tailored_holds_def)
      from finish [OF this sel(2,3)] show ?thesis
        using False True some ids denotes_any [OF sel(1)] by (simp add: select_events_def Let_def)
    next
      case e: False
      show ?thesis
      proof (cases t)
        case None
        then have "selected_rows s hints H = []" using e by (intro none) (simp add: H tailored_holds_def)
        then show ?thesis
          using False None e some ids t denotes_any [OF sel(1)] by (simp add: select_events_def Let_def)
      next
        case (Some te)
        have "ids_inv sel" "length (any_list sel) = m" using sel(1) by (simp_all add: denotes_def)
        then obtain r where r: "evaluate_slice env te s sel = Some r"
            "denotes r ?n (\<lambda>i. ?o \<le> i \<and> hinted sel i \<and> row_holds env s fs ?o te i)"
          using evaluate_slice_spec [OF schema _ bound [OF Some], of sel env] fits sel(3) by (auto simp: fits_def)
        have "hinted sel i = ?S i" if "i < ?n" for i
        proof -
          have "any_list sel = map ?S [0..<m]" "\<not> any_empty sel"
            using sel(1,2) False denotes_size(2) [OF sel(1)] by (auto simp: denotes_def)
          then show ?thesis using that sel(2) by (simp add: hinted_def bit_at_def)
        qed
        then have "denotes r ?n ?H"
          using r(2) e Some by (elim denotes_cong) (auto simp: H tailored_holds_def row_holds_def)
        from finish [OF this] show ?thesis
          using False Some e some ids t r(1) fits denotes_any [OF sel(1)] by (simp add: select_events_def Let_def fits_def)
      qed
    qed
  qed
qed


lemma filter_slice_spec:
  assumes "as_record (ts_schema s) = Some fs" and "fits s hints"
    and "e \<noteq> None_expr \<Longrightarrow> tailor e (ts_schema s) = Some t" and "\<And>te. t = Some te \<Longrightarrow> bound_expression fs te"
  shows "\<exists>result. filter_slice env s e hints = Some result
    \<and> (case result of None \<Rightarrow> [] | Some f \<Rightarrow> ts_events f) = selected_rows s hints (tailored_holds env s fs e t)
    \<and> (\<forall>f. result = Some f \<longrightarrow> ts_events f \<noteq> [] \<and> ts_schema f = ts_schema s)"
proof (cases "ts_rows s = 0")
  case True
  then show ?thesis by (simp add: filter_slice_def selected_rows_def)
next
  case False
  let ?R = "selected_rows s hints (tailored_holds env s fs e t)"
  obtain ss where ss: "select_events env s e hints = Some ss" "events_of ss = ?R" "\<forall>x \<in> set ss. part_of x s"
      "ss = [] \<longleftrightarrow> ?R = []"
    using select_events_spec [OF assms refl] by blast
  obtain r where r: "concatenate ss = Some r" "ts_events r = ?R" "?R \<noteq> [] \<longrightarrow> ts_schema r = ts_schema s"
  proof -
    have "\<forall>x \<in> set ss. ts_events x \<noteq> [] \<longrightarrow> ts_schema x = ts_schema s" using ss(3) by (auto simp: part_of_def)
    from concatenate_spec [OF this] show ?thesis using that ss(2) by auto
  qed
  show ?thesis using False ss r by (cases "ss = []") (auto simp: filter_slice_def)
qed

section \<open>Queries\<close>

text \<open>The predicates that a normalized and validated query consists of.\<close>

definition queryable_predicate :: "predicate \<Rightarrow> bool" where
  "queryable_predicate p =
    (case (pred_lhs p, pred_rhs p) of
       (Meta_extractor _, Data _) \<Rightarrow> True
     | (Field_extractor _, Data _) \<Rightarrow> True
     | (Type_extractor _, Data _) \<Rightarrow> True
     | _ \<Rightarrow> False)"

fun queryable :: "expression \<Rightarrow> bool" where
  "queryable None_expr = True"
| "queryable (Conjunction xs) = (\<forall>x \<in> set xs. queryable x)"
| "queryable (Disjunction xs) = (\<forall>x \<in> set xs. queryable x)"
| "queryable (Negation x) = queryable x"
| "queryable (Predicate p) = queryable_predicate p"

lemma combine_columns_bound: "\<forall>p \<in> set ps. bound_predicate fs p \<Longrightarrow> bound_expression fs (combine_columns op ps)"
  by (cases ps) (auto simp: combine_columns_def simp del: bound_predicate.simps)

lemma connective_bound: "\<forall>x \<in> set xs. bound_expression fs x \<Longrightarrow> bound_expression fs (C []) \<Longrightarrow>
    (\<And>ys. \<forall>y \<in> set ys. bound_expression fs y \<Longrightarrow> bound_expression fs (C ys)) \<Longrightarrow> bound_expression fs (connective C xs)"
  by (cases xs; cases "tl xs") auto

lemma column_predicate_bound: "bound_predicate fs (column_predicate op d l i) \<longleftrightarrow> i < num_leaves fs"
  by (simp add: column_predicate_def)

lemma resolve_predicate_bound:
  assumes "queryable_predicate p" and "resolve_predicate name fs p = Some r"
  shows "bound_expression fs r"
proof -
  have field: "bound_expression fs r'" if res: "resolve_field name fs key op d = Some r'" for key op d r'
  proof -
    obtain ps where "r' = combine_columns op ps"
        "set ps = (\<lambda>i. column_predicate op d (record_leaves fs ! i) i) ` columns_where fs (field_leaf name fs key op d)"
      using resolve_field_spec [of name fs key op d] res by auto
    moreover have "\<forall>i \<in> columns_where fs (field_leaf name fs key op d).
        bound_predicate fs (column_predicate op d (record_leaves fs ! i) i)"
      by (simp add: columns_where_def column_predicate_bound del: bound_predicate.simps)
    ultimately show ?thesis using combine_columns_bound [of ps fs op] by (simp del: bound_predicate.simps)
  qed
  have type: "bound_expression fs (resolve_extractor f fs op d)" for f op d
    by (auto intro!: combine_columns_bound simp: resolve_extractor_def type_columns_set columns_where_def
        column_predicate_bound simp del: bound_predicate.simps)
  show ?thesis
    using assms field type by (auto simp: queryable_predicate_def resolve_predicate_def split: operand.splits)
qed

lemma type_resolver_bound:
  "queryable e \<Longrightarrow> type_resolver name fs e = Some r \<Longrightarrow> bound_expression fs r"
  "\<forall>x \<in> set xs. queryable x \<Longrightarrow> resolve_conjunction name fs xs = Some (Some ys) \<Longrightarrow> \<forall>y \<in> set ys. bound_expression fs y"
  "\<forall>x \<in> set xs. queryable x \<Longrightarrow> resolve_disjunction name fs xs = Some us \<Longrightarrow> \<forall>y \<in> set us. bound_expression fs y"
proof (induction name fs e and name fs xs and name fs xs arbitrary: r and ys and us
    rule: type_resolver_resolve_conjunction_resolve_disjunction.induct)
  case (2 name fs xs)
  then show ?case by (auto split: option.splits if_splits intro!: connective_bound)
next
  case (3 name fs xs)
  then show ?case by (auto split: option.splits if_splits intro!: connective_bound)
next
  case (5 name fs p)
  then show ?case by (simp add: resolve_predicate_bound)
next
  case (7 name fs x xs)
  then show ?case by (fastforce split: option.splits if_splits)
next
  case (9 name fs x xs)
  then show ?case by (fastforce split: option.splits if_splits)
qed (auto split: option.splits if_splits)

text \<open>The whole path of a query on one slice: tailoring, evaluation and cutting out the rows. A row is kept
  if the query holds for it, with every name standing for the columns that it refers to.\<close>

definition query_holds :: "eval_env \<Rightarrow> row table_slice \<Rightarrow> fields \<Rightarrow> expression \<Rightarrow> row \<Rightarrow> bool" where
  "query_holds env s fs e r =
    expr_holds (resolved_holds (row_predicate env s fs r) (type_name (ts_schema s)) fs) e"

lemma tailor_query:
  assumes "as_record (ts_schema s) = Some fs" and "negation_free e" and "expr_ok e" and "queryable e" and "e \<noteq> None_expr"
  shows "\<exists>t. tailor e (ts_schema s) = Some t \<and> (\<forall>te. t = Some te \<longrightarrow> bound_expression fs te)
    \<and> tailored_holds env s fs e t = query_holds env s fs e"
proof -
  obtain r where r: "type_resolver (type_name (ts_schema s)) fs e = Some r" using type_resolver_returns(1) by blast
  note holds = type_resolver_holds(1) [OF assms(2,3) r]
  show ?thesis
    using assms(1,5) r type_resolver_bound(1) [OF assms(4) r]
    by (cases "r = None_expr") (auto simp: tailor_def tailored_holds_def query_holds_def fun_eq_iff holds [symmetric])
qed

lemma count_loop_eq:
  "sorted_wrt (<) is' \<Longrightarrow> count_loop offset end_id is' = length (filter (\<lambda>i. offset \<le> i \<and> i < end_id) is')"
proof (induction is')
  case (Cons i is')
  then show ?case by (auto simp: filter_empty_conv intro!: filter_False [symmetric])
qed simp

end
