(* ===== verification/Slice_Operator.thy ===== *)
theory Slice_Operator
  imports Table_Slice
begin

text \<open>
  The pipeline operator \<open>slice\<close> (\<^verbatim>\<open>builtins/operators/slice.cpp\<close>), which also stands behind \<open>head\<close>, \<open>tail\<close>
  and \<open>reverse\<close>: it keeps the events from one position to another, counted from the front or from the
  back, and then every n-th of them. An operator is a generator; it is the function from the slices that it
  consumes to those that it yields, empty ones included. Positions and counts are of type \<open>int64_t\<close>; the
  arithmetic on them does not overflow for fewer than \<open>2 ^ 63\<close> events and arguments above the smallest
  number. The reference is the selection on the list of all events, however they are cut into slices.
\<close>

section \<open>The operator\<close>

definition clamp :: "int \<Rightarrow> int \<Rightarrow> int \<Rightarrow> int" where
  "clamp v lo hi = (if v < lo then lo else if hi < v then hi else v)"

fun positive_positive_loop :: "int \<Rightarrow> int \<Rightarrow> int \<Rightarrow> 'r table_slice list \<Rightarrow> 'r table_slice list option" where
  "positive_positive_loop lo hi offset [] = Some []"
| "positive_positive_loop lo hi offset (s # input) =
    (let rows = int (ts_rows s) in
     if rows = 0 then map_option ((#) ts_new) (positive_positive_loop lo hi offset input)
     else do {
       let clamped_begin = clamp (lo - offset) 0 rows;
       let clamped_end = clamp (hi - offset) 0 rows;
       let offset = offset + rows;
       result \<leftarrow> subslice s (nat clamped_begin) (nat clamped_end);
       if offset \<ge> hi then Some [result]
       else map_option ((#) result) (positive_positive_loop lo hi offset input)
     })"

definition positive_begin_positive_end :: "'r table_slice list \<Rightarrow> int \<Rightarrow> int \<Rightarrow> 'r table_slice list option" where
  "positive_begin_positive_end input lo hi = do {
     require (lo \<ge> 0);
     require (hi \<ge> 0);
     if hi \<le> lo then Some []
     else map_option ((#) ts_new) (positive_positive_loop lo hi 0 input)
   }"

fun positive_negative_loop ::
  "int \<Rightarrow> int \<Rightarrow> int \<Rightarrow> 'r table_slice list \<Rightarrow> int \<Rightarrow> 'r table_slice list \<Rightarrow> 'r table_slice list option" where
  "positive_negative_loop lo hi offset buffer num_buffered [] =
    (if num_buffered \<le> - hi then Some [] else None)"
| "positive_negative_loop lo hi offset buffer num_buffered (s # input) =
    (let rows = int (ts_rows s) in
     if rows = 0 then map_option ((#) ts_new) (positive_negative_loop lo hi offset buffer num_buffered input)
     else do {
       let clamped_begin = clamp (lo - offset) 0 rows;
       let offset = offset + rows;
       result \<leftarrow> subslice s (nat clamped_begin) (nat rows);
       if ts_rows result = 0 then positive_negative_loop lo hi offset buffer num_buffered input
       else do {
         let num_buffered = num_buffered + int (ts_rows result);
         let buffer = buffer @ [result];
         if num_buffered > - hi then do {
           (lhs, rhs) \<leftarrow> split_slices buffer (nat (num_buffered + hi));
           let num_buffered = fold (\<lambda>s n. n - int (ts_rows s)) lhs num_buffered;
           map_option ((@) lhs) (positive_negative_loop lo hi offset rhs num_buffered input)
         } else positive_negative_loop lo hi offset buffer num_buffered input
       }
     })"

definition positive_begin_negative_end :: "'r table_slice list \<Rightarrow> int \<Rightarrow> int \<Rightarrow> 'r table_slice list option" where
  "positive_begin_negative_end input lo hi = do {
     require (lo \<ge> 0);
     require (hi \<le> 0);
     map_option ((#) ts_new) (positive_negative_loop lo hi 0 [] 0 input)
   }"

text \<open>The first loop answers what it yields, the buffer and the number of rows that it has seen. It asks
  for the rows of \<open>result\<close> after that was moved into the buffer.\<close>

fun negative_positive_fill ::
  "int \<Rightarrow> int \<Rightarrow> 'r table_slice list \<Rightarrow> 'r table_slice list \<Rightarrow>
    ('r table_slice list \<times> 'r table_slice list \<times> int) option" where
  "negative_positive_fill hi offset buffer [] = Some ([], buffer, offset)"
| "negative_positive_fill hi offset buffer (s # input) =
    (let rows = int (ts_rows s) in
     if rows = 0
     then map_option (\<lambda>(ys, st). (ts_new # ys, st)) (negative_positive_fill hi offset buffer input)
     else do {
       let clamped_end = clamp (hi - offset) 0 rows;
       let offset = offset + rows;
       result \<leftarrow> subslice s 0 (nat clamped_end);
       let buffer = buffer @ [result];
       let result = ts_moved_from result;
       if ts_rows result = 0 then Some ([], buffer, offset)
       else negative_positive_fill hi offset buffer input
     })"

fun negative_positive_drain :: "int \<Rightarrow> int \<Rightarrow> 'r table_slice list \<Rightarrow> 'r table_slice list option" where
  "negative_positive_drain lo offset [] = Some []"
| "negative_positive_drain lo offset (s # buffer) = do {
     let rows = int (ts_rows s);
     let clamped_begin = clamp (lo - offset) 0 rows;
     let offset = offset + rows;
     if clamped_begin \<ge> rows then negative_positive_drain lo offset buffer
     else do {
       result \<leftarrow> subslice s (nat clamped_begin) (nat rows);
       map_option (if ts_rows result > 0 then (#) result else id) (negative_positive_drain lo offset buffer)
     }
   }"

definition negative_begin_positive_end :: "'r table_slice list \<Rightarrow> int \<Rightarrow> int \<Rightarrow> 'r table_slice list option" where
  "negative_begin_positive_end input lo hi = do {
     require (lo \<le> 0);
     require (hi \<ge> 0);
     (ys, buffer, offset) \<leftarrow> negative_positive_fill hi 0 [] input;
     let lo = offset + lo;
     if lo \<ge> offset then Some (ts_new # ys)
     else map_option (\<lambda>zs. ts_new # ys @ zs) (negative_positive_drain lo 0 buffer)
   }"

fun negative_negative_fill ::
  "int \<Rightarrow> 'r table_slice list \<Rightarrow> 'r table_slice list \<Rightarrow> 'r table_slice list \<times> 'r table_slice list \<times> int" where
  "negative_negative_fill offset buffer [] = ([], buffer, offset)"
| "negative_negative_fill offset buffer (s # input) =
    (let rows = int (ts_rows s) in
     if rows = 0 then (case negative_negative_fill offset buffer input of (ys, st) \<Rightarrow> (ts_new # ys, st))
     else negative_negative_fill (offset + rows) (buffer @ [s]) input)"

fun negative_negative_drain :: "int \<Rightarrow> int \<Rightarrow> int \<Rightarrow> 'r table_slice list \<Rightarrow> 'r table_slice list option" where
  "negative_negative_drain lo hi offset [] = Some []"
| "negative_negative_drain lo hi offset (s # buffer) = do {
     let rows = int (ts_rows s);
     let clamped_begin = clamp (lo - offset) 0 rows;
     let clamped_end = clamp (hi - offset) 0 rows;
     let offset = offset + rows;
     if clamped_begin \<ge> rows then negative_negative_drain lo hi offset buffer
     else do {
       result \<leftarrow> subslice s (nat clamped_begin) (nat clamped_end);
       if ts_rows result = 0 then Some []
       else map_option ((#) result) (negative_negative_drain lo hi offset buffer)
     }
   }"

definition negative_begin_negative_end :: "'r table_slice list \<Rightarrow> int \<Rightarrow> int \<Rightarrow> 'r table_slice list option" where
  "negative_begin_negative_end input lo hi = do {
     require (lo \<le> 0);
     require (hi \<le> 0);
     if hi \<le> lo then Some []
     else (case negative_negative_fill 0 [] input of
       (ys, buffer, offset) \<Rightarrow>
         map_option (\<lambda>zs. ts_new # ys @ zs) (negative_negative_drain (offset + lo) (offset + hi) 0 buffer))
   }"

record slice_operator =
  sl_begin :: "int option"
  sl_end :: "int option"
  sl_stride :: "int option"

definition value_or :: "'a option \<Rightarrow> 'a \<Rightarrow> 'a" where
  "value_or x d = (case x of None \<Rightarrow> d | Some v \<Rightarrow> v)"

definition slice_range :: "slice_operator \<Rightarrow> 'r table_slice list \<Rightarrow> 'r table_slice list option" where
  "slice_range x input =
    (if sl_begin x = None \<and> sl_end x = None then Some input
     else if value_or (sl_begin x) 0 \<ge> 0 then
       (if sl_end x \<noteq> None \<and> the (sl_end x) \<ge> 0
        then positive_begin_positive_end input (value_or (sl_begin x) 0) (the (sl_end x))
        else positive_begin_negative_end input (value_or (sl_begin x) 0) (value_or (sl_end x) 0))
     else if sl_end x \<noteq> None \<and> the (sl_end x) \<ge> 0
     then negative_begin_positive_end input (the (sl_begin x)) (the (sl_end x))
     else negative_begin_negative_end input (the (sl_begin x)) (value_or (sl_end x) 0))"

text \<open>The rows that a stride takes from one slice.\<close>

function stride_from :: "nat \<Rightarrow> nat \<Rightarrow> nat \<Rightarrow> nat list" where
  "stride_from i rows k = (if i < rows \<and> 0 < k then i # stride_from (i + k) rows k else [])"
  by pat_completeness auto
termination
  by (relation "measure (\<lambda>(i, rows, k). rows - i)") auto

declare stride_from.simps [simp del]

definition take_rows :: "'r table_slice \<Rightarrow> nat list \<Rightarrow> 'r table_slice" where
  "take_rows s is' = ts_make (map ((!) (ts_events s)) is') (ts_schema s)"

fun positive_stride_loop :: "nat \<Rightarrow> nat \<Rightarrow> 'r table_slice list \<Rightarrow> 'r table_slice list" where
  "positive_stride_loop k offset [] = []"
| "positive_stride_loop k offset (s # input) =
    (if ts_rows s = 0 then ts_new # positive_stride_loop k offset input
     else take_rows s (stride_from (offset mod k) (ts_rows s) k) # positive_stride_loop k (offset + ts_rows s) input)"

definition positive_stride :: "'r table_slice list \<Rightarrow> int \<Rightarrow> 'r table_slice list option" where
  "positive_stride input stride = do {
     require (stride > 0);
     Some (positive_stride_loop (nat stride) 0 input)
   }"

fun negative_stride_loop :: "nat \<Rightarrow> nat \<Rightarrow> 'r table_slice list \<Rightarrow> 'r table_slice list" where
  "negative_stride_loop k offset [] = []"
| "negative_stride_loop k offset (s # buffer) =
    (if ts_rows s = 0 then ts_new # negative_stride_loop k offset buffer
     else take_rows s (map (\<lambda>i. ts_rows s - i - 1) (stride_from (offset mod k) (ts_rows s) k))
       # negative_stride_loop k (offset + ts_rows s) buffer)"

text \<open>An empty slice is yielded for every empty slice of the input, before the assertion.\<close>

definition negative_stride :: "'r table_slice list \<Rightarrow> int \<Rightarrow> 'r table_slice list option" where
  "negative_stride input stride = do {
     let buffer = filter (\<lambda>s. ts_rows s \<noteq> 0) input;
     require (stride < 0);
     Some (map (\<lambda>_. ts_new) (filter (\<lambda>s. ts_rows s = 0) input)
       @ negative_stride_loop (nat (- stride)) 0 (rev buffer))
   }"

definition slice_stride :: "slice_operator \<Rightarrow> 'r table_slice list \<Rightarrow> 'r table_slice list option" where
  "slice_stride x input =
    (if value_or (sl_stride x) 1 = 1 then Some input
     else if the (sl_stride x) > 0 then positive_stride input (the (sl_stride x))
     else negative_stride input (the (sl_stride x)))"

definition run_slice :: "slice_operator \<Rightarrow> 'r table_slice list \<Rightarrow> 'r table_slice list option" where
  "run_slice x input = slice_range x input \<bind> slice_stride x"

text \<open>Whether the operator is removed from a pipeline whose order of events matters or not.\<close>

definition slice_removed :: "slice_operator \<Rightarrow> bool \<Rightarrow> bool" where
  "slice_removed x unordered =
    (let nop_slice = value_or (sl_begin x) 0 = 0 \<and> sl_end x = None;
         reverse = value_or (sl_stride x) 1 = - 1;
         nop_stride = value_or (sl_stride x) 1 = 1 \<or> unordered \<and> reverse
     in nop_slice \<and> nop_stride)"

definition make_reverse :: slice_operator where
  "make_reverse = \<lparr>sl_begin = None, sl_end = None, sl_stride = Some (- 1)\<rparr>"

definition make_head :: "int \<Rightarrow> slice_operator" where
  "make_head n = \<lparr>sl_begin = None, sl_end = Some n, sl_stride = None\<rparr>"

definition make_tail :: "int \<Rightarrow> slice_operator" where
  "make_tail n = \<lparr>sl_begin = Some (- n), sl_end = None, sl_stride = None\<rparr>"

section \<open>Parts of lists\<close>

text \<open>The elements from position \<open>a\<close> to before position \<open>b\<close>.\<close>

definition part :: "int \<Rightarrow> int \<Rightarrow> 'a list \<Rightarrow> 'a list" where
  "part a b xs = drop (nat a) (take (nat b) xs)"

lemma part_Nil [simp]: "part a b [] = []"
  by (simp add: part_def)

lemma part_empty: "b \<le> 0 \<Longrightarrow> part a b xs = []" "b \<le> a \<Longrightarrow> part a b xs = []"
  by (simp_all add: part_def)

lemma part_append: "part a b (xs @ ys) = part a b xs @ part (a - int (length xs)) (b - int (length xs)) ys"
proof -
  have n: "nat (b - int (length xs)) = nat b - length xs" "nat (a - int (length xs)) = nat a - length xs" by simp_all
  show ?thesis
  proof (cases "nat b \<le> length xs")
    case True
    then show ?thesis by (simp add: part_def)
  next
    case False
    then show ?thesis unfolding part_def n by simp
  qed
qed

lemma part_whole: "int (length xs) \<le> b \<Longrightarrow> part a b xs = drop (nat a) xs"
  by (simp add: part_def)

lemma clamp_range: "0 \<le> n \<Longrightarrow> 0 \<le> clamp v 0 n \<and> clamp v 0 n \<le> n"
  by (simp add: clamp_def)

lemma clamp_mono: "0 \<le> n \<Longrightarrow> a \<le> b \<Longrightarrow> clamp a 0 n \<le> clamp b 0 n"
  by (simp add: clamp_def)

lemma part_clamp: "part (clamp a 0 (int (length xs))) (clamp b 0 (int (length xs))) xs = part a b xs"
proof -
  have "take (nat (clamp b 0 (int (length xs)))) xs = take (nat b) xs" by (simp add: clamp_def)
  moreover have "drop (nat (clamp a 0 (int (length xs)))) (take (nat b) xs) = drop (nat a) (take (nat b) xs)"
    by (simp add: clamp_def)
  ultimately show ?thesis by (simp add: part_def)
qed

text \<open>A part between clamped bounds is what the code takes from one slice.\<close>

lemma subslice_part:
  assumes "a \<le> b"
  shows "\<exists>r. subslice s (nat (clamp a 0 (int (ts_rows s)))) (nat (clamp b 0 (int (ts_rows s)))) = Some r
    \<and> ts_events r = part a b (ts_events s) \<and> part_of r s"
proof -
  let ?n = "int (ts_rows s)"
  have le: "nat (clamp a 0 ?n) \<le> nat (clamp b 0 ?n)" "nat (clamp b 0 ?n) \<le> ts_rows s"
    using clamp_mono [of ?n a b] clamp_range [of ?n b] assms by auto
  have "part a b (ts_events s) = take (nat (clamp b 0 ?n) - nat (clamp a 0 ?n)) (drop (nat (clamp a 0 ?n)) (ts_events s))"
    using part_clamp [of a "ts_events s" b] by (simp add: part_def drop_take)
  then show ?thesis using subslice_spec [OF le] by auto
qed

lemma subslice_upto:
  "\<exists>r. subslice s 0 (nat (clamp b 0 (int (ts_rows s)))) = Some r \<and> ts_events r = part 0 b (ts_events s) \<and> part_of r s"
proof -
  let ?k = "nat (clamp b 0 (int (ts_rows s)))"
  have "?k \<le> ts_rows s" using clamp_range [of "int (ts_rows s)" b] by auto
  moreover have "part 0 b (ts_events s) = take ?k (ts_events s)"
    using part_clamp [of 0 "ts_events s" b] by (simp add: part_def clamp_def)
  ultimately show ?thesis using subslice_spec [of 0 ?k s] by auto
qed

lemma subslice_from:
  "\<exists>r. subslice s (nat (clamp a 0 (int (ts_rows s)))) (nat (int (ts_rows s))) = Some r
    \<and> ts_events r = drop (nat a) (ts_events s) \<and> part_of r s"
proof (cases "a \<le> int (ts_rows s)")
  case True
  have "clamp (int (ts_rows s)) 0 (int (ts_rows s)) = int (ts_rows s)" by (simp add: clamp_def)
  then show ?thesis using subslice_part [OF True, of s] by (simp add: part_whole)
next
  case False
  then have "clamp a 0 (int (ts_rows s)) = int (ts_rows s)" by (simp add: clamp_def)
  then show ?thesis using False subslice_spec [of "ts_rows s" "ts_rows s" s] by auto
qed


section \<open>Every range selects a part of the events\<close>

text \<open>The slices that an operator yields are parts of slices that it consumed.\<close>

definition parts_of :: "'r table_slice list \<Rightarrow> 'r table_slice list \<Rightarrow> bool" where
  "parts_of ys ss \<longleftrightarrow> (\<forall>y \<in> set ys. ts_events y = [] \<or> (\<exists>s \<in> set ss. part_of y s))"

lemma parts_of_simps [simp]:
  "parts_of [] ss" "parts_of (ts_new # ys) ss \<longleftrightarrow> parts_of ys ss"
  "parts_of (xs @ ys) ss \<longleftrightarrow> parts_of xs ss \<and> parts_of ys ss"
  by (auto simp: parts_of_def)

lemma parts_of_Cons: "parts_of ys ss \<Longrightarrow> parts_of ys (s # ss)"
  "part_of y s \<Longrightarrow> parts_of ys ss \<Longrightarrow> parts_of (y # ys) (s # ss)"
  by (auto simp: parts_of_def)

lemma parts_of_trans:
  assumes "parts_of ys xs" and "parts_of xs ss"
  shows "parts_of ys ss"
  unfolding parts_of_def
proof
  fix y
  assume "y \<in> set ys"
  then consider "ts_events y = []" | x where "x \<in> set xs" "part_of y x" using assms(1) by (auto simp: parts_of_def)
  then show "ts_events y = [] \<or> (\<exists>s \<in> set ss. part_of y s)"
  proof cases
    case 2
    then show ?thesis using assms(2) part_of_trans [of y x] by (auto simp: parts_of_def part_of_def)
  qed simp
qed

lemma parts_of_subset: "set ys \<subseteq> set ss \<Longrightarrow> parts_of ys ss"
  unfolding parts_of_def by (meson part_of_refl subsetD)

lemma parts_of_mono: "parts_of ys ss \<Longrightarrow> set ss \<subseteq> set ts \<Longrightarrow> parts_of ys ts"
  by (auto simp: parts_of_def)

lemma positive_positive_loop_spec:
  assumes "lo < hi"
  shows "\<exists>ys. positive_positive_loop lo hi offset ss = Some ys \<and> parts_of ys ss
    \<and> events_of ys = part (lo - offset) (hi - offset) (events_of ss)"
proof (induction ss arbitrary: offset)
  case (Cons s ss)
  let ?n = "int (ts_rows s)"
  obtain ys where ys: "positive_positive_loop lo hi (offset + ?n) ss = Some ys" "parts_of ys ss"
      "events_of ys = part (lo - offset - ?n) (hi - offset - ?n) (events_of ss)"
    using Cons.IH [of "offset + ?n"] by (auto simp: algebra_simps)
  show ?case
  proof (cases "ts_rows s = 0")
    case True
    then have "?n = 0" by linarith
    note ys' = ys [unfolded this]
    show ?thesis using True ys' by (auto simp: parts_of_Cons)
  next
    case False
    obtain r where r: "subslice s (nat (clamp (lo - offset) 0 ?n)) (nat (clamp (hi - offset) 0 ?n)) = Some r"
        "ts_events r = part (lo - offset) (hi - offset) (ts_events s)" "part_of r s"
      using subslice_part [of "lo - offset" "hi - offset" s] assms by auto
    show ?thesis
    proof (cases "offset + ?n \<ge> hi")
      case True
      then have "part (lo - offset - ?n) (hi - offset - ?n) (events_of ss) = []" by (simp add: part_empty)
      then show ?thesis using False True r by (simp add: part_append parts_of_Cons)
    next
      case not_done: False
      then show ?thesis using False r ys by (simp add: part_append parts_of_Cons)
    qed
  qed
qed simp

lemma positive_begin_positive_end_spec:
  assumes "0 \<le> lo" and "0 \<le> hi"
  shows "\<exists>ys. positive_begin_positive_end ss lo hi = Some ys \<and> parts_of ys ss
    \<and> events_of ys = part lo hi (events_of ss)"
  using assms positive_positive_loop_spec [of lo hi 0 ss]
  by (auto simp: positive_begin_positive_end_def require_def part_empty)

lemma fold_minus_rows: "fold (\<lambda>s n. n - int (ts_rows s)) ss n = n - int (length (events_of ss))"
  by (induction ss arbitrary: n) simp_all

text \<open>The events that are held back or still to come, without the last ones.\<close>

definition but_last :: "int \<Rightarrow> 'a list \<Rightarrow> 'a list" where
  "but_last hi xs = take (length xs - nat (- hi)) xs"

lemma but_last_append: "nat (- hi) \<le> length ys \<Longrightarrow> but_last hi (xs @ ys) = xs @ but_last hi ys"
  by (simp add: but_last_def)

lemma positive_negative_loop_spec:
  assumes "hi \<le> 0" and "num = int (length (events_of buffer))" and "num \<le> - hi"
  shows "\<exists>ys. positive_negative_loop lo hi offset buffer num ss = Some ys \<and> parts_of ys (buffer @ ss)
    \<and> events_of ys = but_last hi (events_of buffer @ drop (nat (lo - offset)) (events_of ss))"
  using assms(2,3)
proof (induction ss arbitrary: offset buffer num)
  case Nil
  then show ?case by (simp add: but_last_def)
next
  case (Cons s ss)
  let ?n = "int (ts_rows s)"
  have off: "nat (lo - (offset + ?n)) = nat (lo - offset) - ts_rows s" by simp
  show ?case
  proof (cases "ts_rows s = 0")
    case True
    then show ?thesis using Cons.IH [OF Cons.prems, of offset] by (auto simp: parts_of_def)
  next
    case False
    obtain r where r: "subslice s (nat (clamp (lo - offset) 0 ?n)) (nat ?n) = Some r"
        "ts_events r = drop (nat (lo - offset)) (ts_events s)" "part_of r s"
      using subslice_from by blast
    let ?num = "num + int (ts_rows r)" and ?buffer = "buffer @ [r]"
    have num: "?num = int (length (events_of ?buffer))" using Cons.prems(1) by simp
    have all: "events_of buffer @ drop (nat (lo - offset)) (events_of (s # ss))
        = events_of ?buffer @ drop (nat (lo - (offset + ?n))) (events_of ss)"
      unfolding off using r(2) by simp
    consider (empty) "ts_rows r = 0" | (full) "ts_rows r \<noteq> 0" "?num > - hi" | (more) "ts_rows r \<noteq> 0" "\<not> ?num > - hi"
      by blast
    then show ?thesis
    proof cases
      case empty
      then have "positive_negative_loop lo hi offset buffer num (s # ss)
          = positive_negative_loop lo hi (offset + ?n) buffer num ss" and "events_of ?buffer = events_of buffer"
        using False r(1) by simp_all
      then show ?thesis
        unfolding all using Cons.IH [OF Cons.prems, of "offset + ?n"] by (auto simp: parts_of_def)
    next
      case full
      let ?k = "nat (?num + hi)"
      obtain lhs rhs where split: "split_slices ?buffer ?k = Some (lhs, rhs)"
          "events_of lhs = take ?k (events_of ?buffer)" "events_of rhs = drop ?k (events_of ?buffer)"
          "\<forall>x \<in> set lhs \<union> set rhs. \<exists>s \<in> set ?buffer. part_of x s"
        using split_slices_spec [of ?buffer ?k] by blast
      have k: "?k \<le> length (events_of ?buffer)" "int (length (events_of rhs)) = - hi"
        using num full(2) assms(1) split(3) by auto
      let ?num' = "fold (\<lambda>s n. n - int (ts_rows s)) lhs ?num"
      have num': "?num' = int (length (events_of rhs))"
        using num split(2,3) k(1) by (simp add: fold_minus_rows)
      from Cons.IH [OF num', of "offset + ?n"] k(2)
      obtain ys where ys: "positive_negative_loop lo hi (offset + ?n) rhs ?num' ss = Some ys" "parts_of ys (rhs @ ss)"
          "events_of ys = but_last hi (events_of rhs @ drop (nat (lo - (offset + ?n))) (events_of ss))"
        using num' by auto
      have "positive_negative_loop lo hi offset buffer num (s # ss) = Some (lhs @ ys)"
        using False r(1) full split(1) ys(1) by simp
      moreover have "events_of (lhs @ ys)
          = but_last hi (events_of buffer @ drop (nat (lo - offset)) (events_of (s # ss)))"
        unfolding all using ys(3) split(2,3) k(2)
          but_last_append [of hi "events_of rhs @ drop (nat (lo - (offset + ?n))) (events_of ss)" "events_of lhs"]
        by (simp del: append_assoc events_of_simps add: append_assoc [symmetric]) simp
      moreover have "parts_of (lhs @ ys) (buffer @ s # ss)"
      proof -
        have "parts_of [r] (buffer @ s # ss)" using r(3) by (auto simp: parts_of_def)
        then have "parts_of ?buffer (buffer @ s # ss)" by (auto intro: parts_of_subset)
        moreover have "parts_of (lhs @ rhs) ?buffer" using split(4) by (auto simp: parts_of_def)
        ultimately have "parts_of (lhs @ rhs) (buffer @ s # ss)" using parts_of_trans by blast
        moreover have "parts_of ss (buffer @ s # ss)" by (auto intro: parts_of_subset)
        ultimately have "parts_of lhs (buffer @ s # ss)" and "parts_of (rhs @ ss) (buffer @ s # ss)" by simp_all
        moreover from this(2) ys(2) have "parts_of ys (buffer @ s # ss)" using parts_of_trans by blast
        ultimately show ?thesis by simp
      qed
      ultimately show ?thesis by blast
    next
      case more
      then have code: "positive_negative_loop lo hi offset buffer num (s # ss)
          = positive_negative_loop lo hi (offset + ?n) ?buffer ?num ss"
        using False r(1) by simp
      have le: "?num \<le> - hi" using more(2) by simp
      have "parts_of [r] (buffer @ s # ss)" using r(3) by (auto simp: parts_of_def)
      moreover have "parts_of (buffer @ ss) (buffer @ s # ss)" by (rule parts_of_subset) auto
      ultimately have "parts_of (?buffer @ ss) (buffer @ s # ss)" by (simp add: parts_of_def)
      then show ?thesis
        unfolding code all using Cons.IH [OF num le, of "offset + ?n"] parts_of_trans by blast
    qed
  qed
qed

lemma positive_begin_negative_end_spec:
  assumes "0 \<le> lo" and "hi \<le> 0"
  shows "\<exists>ys. positive_begin_negative_end ss lo hi = Some ys \<and> parts_of ys ss
    \<and> events_of ys = but_last hi (drop (nat lo) (events_of ss))"
  using assms positive_negative_loop_spec [of hi 0 "[]" lo 0 ss]
  by (auto simp: positive_begin_negative_end_def require_def)


lemma negative_negative_fill_spec:
  "\<exists>ys kept. negative_negative_fill offset buffer ss = (ys, buffer @ kept, offset + int (length (events_of ss)))
    \<and> events_of ys = [] \<and> events_of kept = events_of ss \<and> (\<forall>s \<in> set kept. ts_rows s \<noteq> 0) \<and> set kept \<subseteq> set ss"
proof (induction ss arbitrary: offset buffer)
  case (Cons s ss)
  show ?case
  proof (cases "ts_rows s = 0")
    case True
    then show ?thesis using Cons.IH [of offset buffer] by auto
  next
    case False
    then show ?thesis using Cons.IH [of "offset + int (ts_rows s)" "buffer @ [s]"] by (auto simp: algebra_simps)
  qed
qed simp

lemma negative_negative_drain_spec:
  assumes "lo < hi"
  shows "\<exists>ys. negative_negative_drain lo hi offset ss = Some ys \<and> parts_of ys ss
    \<and> events_of ys = part (lo - offset) (hi - offset) (events_of ss)"
proof (induction ss arbitrary: offset)
  case (Cons s ss)
  let ?n = "int (ts_rows s)"
  obtain ys where ys: "negative_negative_drain lo hi (offset + ?n) ss = Some ys" "parts_of ys ss"
      "events_of ys = part (lo - offset - ?n) (hi - offset - ?n) (events_of ss)"
    using Cons.IH [of "offset + ?n"] by (auto simp: algebra_simps)
  show ?case
  proof (cases "clamp (lo - offset) 0 ?n \<ge> ?n")
    case True
    then have "part (lo - offset) (hi - offset) (ts_events s) = []"
      by (auto simp: part_def clamp_def ts_rows_def simp del: length_events split: if_splits)
    then show ?thesis using True ys by (auto simp: part_append parts_of_Cons)
  next
    case False
    obtain r where r: "subslice s (nat (clamp (lo - offset) 0 ?n)) (nat (clamp (hi - offset) 0 ?n)) = Some r"
        "ts_events r = part (lo - offset) (hi - offset) (ts_events s)" "part_of r s"
      using subslice_part [of "lo - offset" "hi - offset" s] assms by auto
    show ?thesis
    proof (cases "ts_rows r = 0")
      case True
      have "part (lo - offset) (hi - offset) (ts_events s) = []" using True r(2) by simp
      then have "length (take (nat (hi - offset)) (ts_events s)) \<le> nat (lo - offset)" by (simp add: part_def)
      then have "hi - offset \<le> 0" using False assms by (auto simp: clamp_def min_def split: if_splits)
      then have "part (lo - offset) (hi - offset) (events_of (s # ss)) = []" by (rule part_empty)
      then show ?thesis using False True r(1) by simp
    next
      case nonempty: False
      then show ?thesis using False r ys by (simp add: part_append parts_of_Cons)
    qed
  qed
qed simp

lemma negative_begin_negative_end_spec:
  assumes "lo \<le> 0" and "hi \<le> 0"
  shows "\<exists>ys. negative_begin_negative_end ss lo hi = Some ys \<and> parts_of ys ss
    \<and> events_of ys = part (int (length (events_of ss)) + lo) (int (length (events_of ss)) + hi) (events_of ss)"
proof (cases "hi \<le> lo")
  case True
  then show ?thesis using assms by (simp add: negative_begin_negative_end_def require_def part_empty)
next
  case False
  let ?n = "int (length (events_of ss))"
  obtain ys kept where fill: "negative_negative_fill 0 [] ss = (ys, kept, ?n)" "events_of ys = []"
      "events_of kept = events_of ss" "set kept \<subseteq> set ss"
    using negative_negative_fill_spec [of 0 "[]" ss] by auto
  obtain zs where zs: "negative_negative_drain (?n + lo) (?n + hi) 0 kept = Some zs" "parts_of zs kept"
      "events_of zs = part (?n + lo) (?n + hi) (events_of kept)"
    using negative_negative_drain_spec [of "?n + lo" "?n + hi" 0 kept] False by auto
  have "parts_of ys ss" using fill(2) by (auto simp: parts_of_def events_of_def)
  moreover have "parts_of zs ss" using zs(2) fill(4) parts_of_mono by blast
  ultimately show ?thesis
    using assms False fill zs by (simp add: negative_begin_negative_end_def require_def)
qed

text \<open>With a position from the back and an end from the front, the fill stops after the first slice with
  events: only that slice is ever looked at.\<close>

definition first_batch :: "'r table_slice list \<Rightarrow> 'r list" where
  "first_batch ss = (case filter (\<lambda>s. ts_rows s \<noteq> 0) ss of [] \<Rightarrow> [] | s # _ \<Rightarrow> ts_events s)"

lemma negative_positive_fill_spec:
  "\<exists>ys kept. negative_positive_fill hi 0 [] ss = Some (ys, kept, int (length (first_batch ss)))
    \<and> events_of ys = [] \<and> events_of kept = part 0 hi (first_batch ss) \<and> parts_of kept ss"
proof (induction ss)
  case (Cons s ss)
  show ?case
  proof (cases "ts_rows s = 0")
    case True
    then show ?thesis using Cons.IH by (auto simp: first_batch_def parts_of_Cons)
  next
    case False
    then show ?thesis using subslice_upto [of s hi] by (auto simp: first_batch_def parts_of_def)
  qed
qed (simp add: first_batch_def)

lemma negative_positive_drain_spec:
  "\<exists>ys. negative_positive_drain lo offset ss = Some ys \<and> parts_of ys ss
    \<and> events_of ys = drop (nat (lo - offset)) (events_of ss)"
proof (induction ss arbitrary: offset)
  case (Cons s ss)
  let ?n = "int (ts_rows s)"
  have "nat (lo - (offset + ?n)) = nat (lo - offset) - ts_rows s" by simp
  with Cons.IH [of "offset + ?n"] obtain ys where ys: "negative_positive_drain lo (offset + ?n) ss = Some ys"
      "parts_of ys ss" "events_of ys = drop (nat (lo - offset) - ts_rows s) (events_of ss)"
    by auto
  obtain r where r: "subslice s (nat (clamp (lo - offset) 0 ?n)) (nat ?n) = Some r"
      "ts_events r = drop (nat (lo - offset)) (ts_events s)" "part_of r s"
    using subslice_from by blast
  show ?case
  proof (cases "clamp (lo - offset) 0 ?n \<ge> ?n")
    case True
    then have "ts_rows s \<le> nat (lo - offset)" by (auto simp: clamp_def split: if_splits)
    then show ?thesis using True ys by (simp add: parts_of_Cons)
  next
    case False
    then show ?thesis using ys r by (auto simp: parts_of_Cons)
  qed
qed simp

lemma negative_begin_positive_end_spec:
  assumes "lo \<le> 0" and "0 \<le> hi"
  shows "\<exists>ys. negative_begin_positive_end ss lo hi = Some ys \<and> parts_of ys ss
    \<and> events_of ys = part (int (length (first_batch ss)) + lo) hi (first_batch ss)"
proof -
  let ?n = "int (length (first_batch ss))"
  obtain ys kept where fill: "negative_positive_fill hi 0 [] ss = Some (ys, kept, ?n)"
      "events_of ys = []" "events_of kept = part 0 hi (first_batch ss)" "parts_of kept ss"
    using negative_positive_fill_spec by blast
  have ys: "parts_of ys ss" using fill(2) by (auto simp: parts_of_def events_of_def)
  show ?thesis
  proof (cases "lo = 0")
    case True
    then have "part (?n + lo) hi (first_batch ss) = []" by (simp add: part_def)
    then show ?thesis using assms True fill(1,2) ys by (simp add: negative_begin_positive_end_def require_def)
  next
    case False
    obtain zs where zs: "negative_positive_drain (?n + lo) 0 kept = Some zs" "parts_of zs kept"
        "events_of zs = drop (nat (?n + lo)) (events_of kept)"
      using negative_positive_drain_spec [of "?n + lo" 0 kept] by auto
    have "parts_of zs ss" using zs(2) fill(4) parts_of_trans by blast
    then show ?thesis
      using assms False fill zs ys by (simp add: negative_begin_positive_end_def require_def part_def)
  qed
qed


section \<open>Strides\<close>

text \<open>Every \<open>k\<close>-th element, beginning with the first.\<close>

definition every :: "nat \<Rightarrow> 'a list \<Rightarrow> 'a list" where
  "every k xs = nths xs {i. k dvd i}"

lemma set_stride_from:
  "0 < k \<Longrightarrow> set (stride_from i n k) = {j. i \<le> j \<and> j < n \<and> k dvd j - i} \<and> sorted_wrt (<) (stride_from i n k)"
proof (induction i n k rule: stride_from.induct)
  case (1 i n k)
  show ?case
  proof (cases "i < n")
    case True
    have IH: "set (stride_from (i + k) n k) = {j. i + k \<le> j \<and> j < n \<and> k dvd j - (i + k)}"
        "sorted_wrt (<) (stride_from (i + k) n k)"
      using "1.IH" True "1.prems" by simp_all
    have "i + k \<le> j \<and> k dvd j - (i + k) \<longleftrightarrow> i < j \<and> k dvd j - i" for j
    proof (cases "i + k \<le> j")
      case True
      then have "k dvd j - i \<longleftrightarrow> k dvd j - (i + k) + k" by simp
      then show ?thesis using True "1.prems" by (simp only: dvd_add_triv_right_iff) simp
    next
      case False
      then show ?thesis by (auto dest: dvd_imp_le)
    qed
    then have "set (stride_from (i + k) n k) = {j. i < j \<and> j < n \<and> k dvd j - i}" using IH(1) by blast
    moreover have "stride_from i n k = i # stride_from (i + k) n k"
      using True "1.prems" by (subst stride_from.simps) simp
    moreover have "{j. i \<le> j \<and> j < n \<and> k dvd j - i} = insert i {j. i < j \<and> j < n \<and> k dvd j - i}"
      using True by auto
    ultimately show ?thesis using IH(2) by simp
  next
    case False
    then have "stride_from i n k = []" by (subst stride_from.simps) simp
    then show ?thesis using False by auto
  qed
qed

lemma stride_from_filter:
  assumes "0 < k"
  shows "stride_from (offset mod k) n k = filter (\<lambda>i. i mod k = offset mod k) [0..<n]"
proof (rule sorted_distinct_set_unique)
  note stride = set_stride_from [OF assms, of "offset mod k" n]
  have "offset mod k \<le> j \<and> k dvd j - offset mod k \<longleftrightarrow> j mod k = offset mod k" for j
  proof (cases "offset mod k \<le> j")
    case True
    then show ?thesis using assms by (metis mod_eq_dvd_iff_nat mod_mod_trivial)
  next
    case False
    then have "j < k" using mod_less_divisor [OF assms, of offset] by linarith
    then show ?thesis using False by simp
  qed
  then show "set (stride_from (offset mod k) n k) = set (filter (\<lambda>i. i mod k = offset mod k) [0..<n])"
    using stride by auto
  show "sorted (stride_from (offset mod k) n k)" "distinct (stride_from (offset mod k) n k)"
    using stride by (auto simp: strict_sorted_iff)
qed (simp_all add: sorted_wrt_filter)

lemma take_rows_events: "ts_events (take_rows s is') = map ((!) (ts_events s)) is'"
  by (simp add: take_rows_def)

lemma positive_stride_part:
  "0 < k \<Longrightarrow> ts_events (take_rows s (stride_from (offset mod k) (ts_rows s) k))
    = nths (ts_events s) {i. i mod k = offset mod k}"
  by (simp add: take_rows_events stride_from_filter nths_map_nth)

lemma map_nth_rev: "map (\<lambda>i. xs ! (length xs - i - 1)) (filter P [0..<length xs]) = map ((!) (rev xs)) (filter P [0..<length xs])"
  by (auto simp: rev_nth)

lemma negative_stride_part:
  "0 < k \<Longrightarrow> ts_events (take_rows s (map (\<lambda>i. ts_rows s - i - 1) (stride_from (offset mod k) (ts_rows s) k)))
    = nths (rev (ts_events s)) {i. i mod k = offset mod k}"
  using map_nth_rev [of "ts_events s" "\<lambda>i. i mod k = offset mod k"]
  by (simp add: take_rows_events stride_from_filter nths_map_nth comp_def)

text \<open>The position in a slice at which the stride continues should make up for the rows before it; the
  code takes the remainder of the number of rows before it. The two agree if twice that number is a multiple
  of the stride.\<close>

lemma every_append:
  assumes "0 < k" and "k dvd 2 * length xs"
  shows "every k (xs @ ys) = every k xs @ nths ys {i. i mod k = length xs mod k}"
proof -
  have "k dvd i + length xs \<longleftrightarrow> i mod k = length xs mod k" for i
  proof -
    have "int k dvd 2 * int (length xs)" using assms(2) by (metis int_dvd_int_iff of_nat_mult of_nat_numeral)
    then have "int k dvd int i + int (length xs) \<longleftrightarrow> int k dvd int i + int (length xs) - 2 * int (length xs)"
      by (metis dvd_diff_left_iff)
    also have "int i + int (length xs) - 2 * int (length xs) = int i - int (length xs)" by simp
    also have "int k dvd int i - int (length xs) \<longleftrightarrow> int i mod int k = int (length xs) mod int k"
      by (simp add: mod_eq_dvd_iff)
    also have "\<dots> \<longleftrightarrow> i mod k = length xs mod k" by (metis of_nat_eq_iff of_nat_mod)
    also have "int k dvd int i + int (length xs) \<longleftrightarrow> k dvd i + length xs" by (metis int_dvd_int_iff of_nat_add)
    finally show ?thesis .
  qed
  then show ?thesis by (simp add: every_def nths_append)
qed

definition even_batches :: "nat \<Rightarrow> 'r table_slice list \<Rightarrow> bool" where
  "even_batches k ss \<longleftrightarrow> (\<forall>s \<in> set ss. k dvd 2 * ts_rows s)"

lemma even_batches_small [simp]: "even_batches 1 ss" "even_batches 2 ss"
  by (simp_all add: even_batches_def)

lemma positive_stride_loop_spec:
  assumes "0 < k" and "even_batches k ss" and "k dvd 2 * length xs"
  shows "every k xs @ events_of (positive_stride_loop k (length xs) ss) = every k (xs @ events_of ss)"
  using assms(2,3)
proof (induction ss arbitrary: xs)
  case (Cons s ss)
  show ?case
  proof (cases "ts_rows s = 0")
    case True
    then show ?thesis using Cons by (simp add: even_batches_def)
  next
    case False
    have "k dvd 2 * length (xs @ ts_events s)" using Cons.prems by (simp add: even_batches_def distrib_left)
    then have "every k (xs @ ts_events s) @ events_of (positive_stride_loop k (length (xs @ ts_events s)) ss)
        = every k ((xs @ ts_events s) @ events_of ss)"
      using Cons.prems(1) by (intro Cons.IH) (simp_all add: even_batches_def)
    then show ?thesis
      using False every_append [OF assms(1) Cons.prems(2), of "ts_events s"] by (simp add: positive_stride_part [OF assms(1)])
  qed
qed simp

lemma negative_stride_loop_spec:
  assumes "0 < k" and "even_batches k ss" and "k dvd 2 * length xs"
  shows "every k xs @ events_of (negative_stride_loop k (length xs) ss)
    = every k (xs @ concat (map (\<lambda>s. rev (ts_events s)) ss))"
  using assms(2,3)
proof (induction ss arbitrary: xs)
  case (Cons s ss)
  show ?case
  proof (cases "ts_rows s = 0")
    case True
    then show ?thesis using Cons by (simp add: even_batches_def)
  next
    case False
    have "k dvd 2 * length (xs @ rev (ts_events s))" using Cons.prems by (simp add: even_batches_def distrib_left)
    then have "every k (xs @ rev (ts_events s)) @ events_of (negative_stride_loop k (length (xs @ rev (ts_events s))) ss)
        = every k ((xs @ rev (ts_events s)) @ concat (map (\<lambda>s. rev (ts_events s)) ss))"
      using Cons.prems(1) by (intro Cons.IH) (simp_all add: even_batches_def)
    then show ?thesis
      using False every_append [OF assms(1) Cons.prems(2), of "rev (ts_events s)"]
      by (simp add: negative_stride_part [OF assms(1), simplified])
  qed
qed simp

lemma concat_rev_events: "concat (map (\<lambda>s. rev (ts_events s)) (rev ss)) = rev (events_of ss)"
  by (simp add: events_of_def rev_concat rev_map comp_def)

lemma every_Nil [simp]: "every k [] = []"
  by (simp add: every_def)

lemma every_1 [simp]: "every (Suc 0) xs = xs"
  by (simp add: every_def nths_all)

text \<open>What a stride selects from all events.\<close>

definition stride_spec :: "int \<Rightarrow> 'a list \<Rightarrow> 'a list" where
  "stride_spec k xs = (if k > 0 then every (nat k) xs else every (nat (- k)) (rev xs))"

lemma slice_stride_spec:
  assumes "value_or (sl_stride x) 1 = k" and "k \<noteq> 0" and "even_batches (nat \<bar>k\<bar>) ss"
  shows "\<exists>ys. slice_stride x ss = Some ys \<and> events_of ys = stride_spec k (events_of ss)"
proof -
  consider "k = 1" | "k > 0" "k \<noteq> 1" "sl_stride x = Some k" | "k < 0" "sl_stride x = Some k"
    using assms(1,2) by (cases "sl_stride x"; cases k "0 :: int" rule: linorder_cases; cases "k = 1") (auto simp: value_or_def)
  then show ?thesis
  proof cases
    case 1
    then show ?thesis using assms(1) by (simp add: slice_stride_def stride_spec_def)
  next
    case 2
    then show ?thesis
      using assms positive_stride_loop_spec [of "nat k" ss "[]"]
      by (simp add: slice_stride_def value_or_def positive_stride_def require_def stride_spec_def)
  next
    case 3
    let ?kept = "filter (\<lambda>s. ts_rows s \<noteq> 0) ss"
    have "even_batches (nat (- k)) (rev ?kept)" using assms(3) 3 by (auto simp: even_batches_def)
    moreover have "events_of (map (\<lambda>_. ts_new) xs) = []" for xs :: "'a table_slice list" by (induction xs) simp_all
    moreover have "events_of ?kept = events_of ss" by (rule events_of_filter)
    ultimately show ?thesis
      using 3 assms(1) negative_stride_loop_spec [of "nat (- k)" "rev ?kept" "[]"]
      by (simp add: slice_stride_def value_or_def negative_stride_def require_def stride_spec_def
          concat_rev_events del: ts_rows_0 neq0_conv)
  qed
qed


section \<open>The whole operator\<close>

definition position_in :: "'a list \<Rightarrow> int \<Rightarrow> int" where
  "position_in xs i = (if i < 0 then int (length xs) + i else i)"

definition range_spec :: "int option \<Rightarrow> int option \<Rightarrow> 'a list \<Rightarrow> 'a list" where
  "range_spec b e xs =
    part (position_in xs (value_or b 0)) (case e of None \<Rightarrow> int (length xs) | Some i \<Rightarrow> position_in xs i) xs"

lemma but_last_drop: "0 \<le> lo \<Longrightarrow> hi \<le> 0 \<Longrightarrow> but_last hi (drop (nat lo) xs) = part lo (int (length xs) + hi) xs"
proof -
  assume "0 \<le> lo" "hi \<le> 0"
  then have "nat (int (length xs) + hi) = length xs - nat (- hi)" by simp
  then show ?thesis by (simp add: but_last_def part_def drop_take add.commute)
qed

definition mixed_range :: "slice_operator \<Rightarrow> bool" where
  "mixed_range x \<longleftrightarrow> value_or (sl_begin x) 0 < 0 \<and> value_or (sl_end x) (- 1) \<ge> 0"

lemma slice_range_spec:
  assumes "\<not> mixed_range x"
  shows "\<exists>ys. slice_range x ss = Some ys \<and> parts_of ys ss
    \<and> events_of ys = range_spec (sl_begin x) (sl_end x) (events_of ss)"
proof -
  let ?lo = "value_or (sl_begin x) 0" and ?n = "int (length (events_of ss))"
  consider (all) "sl_begin x = None" "sl_end x = None"
    | (pp) hi where "\<not> (sl_begin x = None \<and> sl_end x = None)" "?lo \<ge> 0" "sl_end x = Some hi" "hi \<ge> 0"
    | (pn) "\<not> (sl_begin x = None \<and> sl_end x = None)" "?lo \<ge> 0" "\<not> (\<exists>hi \<ge> 0. sl_end x = Some hi)"
    | (nn) lo where "sl_begin x = Some lo" "lo < 0" "\<not> (\<exists>hi \<ge> 0. sl_end x = Some hi)"
    by atomize_elim (use assms in \<open>cases "sl_begin x"; cases "sl_end x";
      auto simp: value_or_def mixed_range_def not_le\<close>)
  then show ?thesis
  proof cases
    case all
    then show ?thesis
      by (auto simp: slice_range_def range_spec_def value_or_def position_in_def part_def intro: parts_of_subset)
  next
    case pp
    then show ?thesis
      using positive_begin_positive_end_spec [of ?lo hi ss] by (auto simp: slice_range_def range_spec_def position_in_def)
  next
    case pn
    then have "value_or (sl_end x) 0 \<le> 0" by (cases "sl_end x") (auto simp: value_or_def)
    then show ?thesis
      using pn positive_begin_negative_end_spec [of ?lo "value_or (sl_end x) 0" ss]
        but_last_drop [of ?lo "value_or (sl_end x) 0" "events_of ss"]
      by (cases "sl_end x") (auto simp: slice_range_def range_spec_def position_in_def value_or_def)
  next
    case nn
    then have "value_or (sl_end x) 0 \<le> 0" by (cases "sl_end x") (auto simp: value_or_def)
    then show ?thesis
      using nn negative_begin_negative_end_spec [of lo "value_or (sl_end x) 0" ss]
      by (cases "sl_end x") (auto simp: slice_range_def range_spec_def position_in_def value_or_def)
  qed
qed

lemma slice_range_mixed:
  assumes "sl_begin x = Some lo" and "lo < 0" and "sl_end x = Some hi" and "0 \<le> hi"
  shows "\<exists>ys. slice_range x ss = Some ys \<and> parts_of ys ss
    \<and> events_of ys = range_spec (Some lo) (Some hi) (first_batch ss)"
  using negative_begin_positive_end_spec [of lo hi ss] assms
  by (auto simp: slice_range_def value_or_def range_spec_def position_in_def)

lemma even_batches_parts: "\<bar>k\<bar> \<in> {1, 2} \<Longrightarrow> even_batches (nat \<bar>k\<bar>) ss"
proof -
  assume "\<bar>k\<bar> \<in> {1, 2}"
  then have "nat \<bar>k\<bar> = 1 \<or> nat \<bar>k\<bar> = 2" by auto
  then show ?thesis unfolding even_batches_def by (elim disjE) simp_all
qed


text \<open>Zero events from the back are \<open>- 0\<close>, which is a begin that counts from the front.\<close>

lemma tail_zero: "\<exists>ys. run_slice (make_tail 0) ss = Some ys \<and> events_of ys = events_of ss"
proof -
  have "\<not> mixed_range (make_tail 0)" by (simp add: mixed_range_def make_tail_def value_or_def)
  from slice_range_spec [OF this] obtain ys where "slice_range (make_tail 0) ss = Some ys"
      "events_of ys = range_spec (sl_begin (make_tail 0)) (sl_end (make_tail 0)) (events_of ss)" by blast
  then show ?thesis
    by (auto simp: run_slice_def slice_stride_def make_tail_def value_or_def range_spec_def position_in_def part_def)
qed

end
