(* ===== verification/Batch_Operator.thy ===== *)
theory Batch_Operator
  imports Table_Slice "HOL-Library.Multiset"
begin

text \<open>
  The pipeline operator \<open>batch\<close> (\<^verbatim>\<open>builtins/operators/batch.cpp\<close>): it collects events of one schema until
  there are as many as the limit, or until a timeout. The clock is read at the start of every round and when
  a buffer is created; its readings come with the input. An unordered map is the list of its entries; a new
  entry is put at the end.
\<close>

section \<open>The operator\<close>

record 'r buffer_entry =
  be_events :: "'r table_slice list"
  be_num_buffered :: nat
  be_last_yield :: int

type_synonym 'r buffers = "(ty \<times> 'r buffer_entry) list"

record batch_operator =
  bo_limit :: nat
  bo_timeout :: int
  bo_ordered :: bool

text \<open>The loop over the buffers erases those that have timed out; it then steps over the entry after.\<close>

fun check_timeouts :: "batch_operator \<Rightarrow> int \<Rightarrow> 'r buffers \<Rightarrow> ('r table_slice list \<times> 'r buffers) option" where
  "check_timeouts op now [] = Some ([], [])"
| "check_timeouts op now (x # xs) =
    (if now - be_last_yield (snd x) > bo_timeout op then do {
       require (be_num_buffered (snd x) < bo_limit op);
       y \<leftarrow> concatenate (be_events (snd x));
       case xs of
         [] \<Rightarrow> Some ([y], [])
       | z # zs \<Rightarrow> do {
           (ys, rest) \<leftarrow> check_timeouts op now zs;
           Some (y # ys, z # rest)
         }
     } else do {
       (ys, rest) \<leftarrow> check_timeouts op now xs;
       Some (ys, x # rest)
     })"

text \<open>Yielding until the buffer is below the limit; for a limit of 0 this never ends.\<close>

partial_function (option) flush_loop ::
  "nat \<Rightarrow> int \<Rightarrow> 'r buffer_entry \<Rightarrow> ('r table_slice list \<times> 'r buffer_entry) option" where
  "flush_loop limit now entry =
    (if be_num_buffered entry \<ge> limit then do {
       (lhs, rhs) \<leftarrow> split_slices (be_events entry) limit;
       result \<leftarrow> concatenate lhs;
       (ys, entry) \<leftarrow> flush_loop limit now
         (entry\<lparr>be_num_buffered := be_num_buffered entry - ts_rows result, be_last_yield := now, be_events := rhs\<rparr>);
       Some (result # ys, entry)
     } else Some ([], entry))"

text \<open>The entry of a schema is created if there is none.\<close>

definition emplace_buffer :: "ty \<Rightarrow> int \<Rightarrow> 'r buffers \<Rightarrow> 'r buffers" where
  "emplace_buffer t created bs =
    (if t \<in> fst ` set bs then bs
     else bs @ [(t, \<lparr>be_events = [], be_num_buffered = 0, be_last_yield = created\<rparr>)])"

fun flush_buffer ::
  "nat \<Rightarrow> int \<Rightarrow> 'r table_slice \<Rightarrow> 'r buffers \<Rightarrow> ('r table_slice list \<times> 'r buffers) option" where
  "flush_buffer limit now s [] = None"
| "flush_buffer limit now s ((t, e) # bs) =
    (if t = ts_schema s then do {
       (ys, e) \<leftarrow> flush_loop limit now
         (e\<lparr>be_num_buffered := be_num_buffered e + ts_rows s, be_events := be_events e @ [s]\<rparr>);
       Some (ys, if be_num_buffered e = 0 then bs else (t, e) # bs)
     } else do {
       (ys, bs) \<leftarrow> flush_buffer limit now s bs;
       Some (ys, (t, e) # bs)
     })"

definition schema_change ::
  "batch_operator \<Rightarrow> 'r table_slice \<Rightarrow> 'r buffers \<Rightarrow> ('r table_slice list \<times> 'r buffers) option" where
  "schema_change op s bs =
    (if bo_ordered op \<and> bs \<noteq> [] \<and> fst (hd bs) \<noteq> ts_schema s then do {
       require (length bs = 1);
       let entry = snd (hd bs);
       require (be_num_buffered entry < bo_limit op);
       y \<leftarrow> concatenate (be_events entry);
       Some ([y], [])
     } else Some ([], bs))"

type_synonym 'r tick = "'r table_slice \<times> int \<times> int"

definition batch_step :: "batch_operator \<Rightarrow> 'r tick \<Rightarrow> 'r buffers \<Rightarrow> ('r table_slice list \<times> 'r buffers) option" where
  "batch_step op tick bs = (case tick of (s, now, created) \<Rightarrow> do {
     (timed, bs) \<leftarrow> check_timeouts op now bs;
     if ts_rows s = 0 then Some (timed @ [ts_new], bs)
     else do {
       (changed, bs) \<leftarrow> schema_change op s bs;
       (full, bs) \<leftarrow> flush_buffer (bo_limit op) now s (emplace_buffer (ts_schema s) created bs);
       Some (timed @ changed @ full, bs)
     }
   })"

fun concatenate_all :: "'r buffer_entry list \<Rightarrow> 'r table_slice list option" where
  "concatenate_all [] = Some []"
| "concatenate_all (e # es) = do {
     y \<leftarrow> concatenate (be_events e);
     ys \<leftarrow> concatenate_all es;
     Some (y # ys)
   }"

text \<open>At the end the rest is yielded, sorted by the last yield; the sort is an argument.\<close>

fun batch_loop ::
  "('r buffer_entry list \<Rightarrow> 'r buffer_entry list) \<Rightarrow> batch_operator \<Rightarrow> 'r tick list \<Rightarrow> 'r buffers
    \<Rightarrow> 'r table_slice list option" where
  "batch_loop sorted_by op [] bs = concatenate_all (sorted_by (map snd bs))"
| "batch_loop sorted_by op (tick # input) bs = do {
     (ys, bs) \<leftarrow> batch_step op tick bs;
     rest \<leftarrow> batch_loop sorted_by op input bs;
     Some (ys @ rest)
   }"

definition run_batch ::
  "('r buffer_entry list \<Rightarrow> 'r buffer_entry list) \<Rightarrow> batch_operator \<Rightarrow> 'r tick list \<Rightarrow> 'r table_slice list option" where
  "run_batch sorted_by op input = batch_loop sorted_by op input []"

section \<open>Events by schema\<close>

text \<open>The events of one schema in a sequence of slices and in the buffers.\<close>

definition events_with :: "ty \<Rightarrow> 'r table_slice list \<Rightarrow> 'r list" where
  "events_with t ss = events_of (filter (\<lambda>s. ts_schema s = t) ss)"

fun buffered :: "ty \<Rightarrow> 'r buffers \<Rightarrow> 'r list" where
  "buffered t [] = []"
| "buffered t ((u, e) # bs) = (if u = t then events_of (be_events e) else []) @ buffered t bs"

definition all_buffered :: "'r buffers \<Rightarrow> 'r list" where
  "all_buffered bs = concat (map (\<lambda>(t, e). events_of (be_events e)) bs)"

lemma events_with_simps [simp]:
  "events_with t [] = []" "events_with t (ss @ us) = events_with t ss @ events_with t us"
  "events_with t (s # ss) = (if ts_schema s = t then ts_events s else []) @ events_with t ss"
  by (simp_all add: events_with_def)

lemma all_buffered_simps [simp]:
  "all_buffered [] = []" "all_buffered ((t, e) # bs) = events_of (be_events e) @ all_buffered bs"
  by (simp_all add: all_buffered_def)

text \<open>A buffer holds events of its schema, fewer than the limit.\<close>

definition homogeneous :: "ty \<Rightarrow> 'r buffer_entry \<Rightarrow> bool" where
  "homogeneous t e \<longleftrightarrow> (\<forall>s \<in> set (be_events e). ts_events s \<noteq> [] \<longrightarrow> ts_schema s = t)
    \<and> be_num_buffered e = length (events_of (be_events e))"

definition buffer_ok :: "nat \<Rightarrow> ty \<times> 'r buffer_entry \<Rightarrow> bool" where
  "buffer_ok limit x \<longleftrightarrow> homogeneous (fst x) (snd x) \<and> 0 < be_num_buffered (snd x) \<and> be_num_buffered (snd x) < limit"

definition buffers_ok :: "batch_operator \<Rightarrow> 'r buffers \<Rightarrow> bool" where
  "buffers_ok op bs \<longleftrightarrow> (\<forall>x \<in> set bs. buffer_ok (bo_limit op) x) \<and> distinct (map fst bs)
    \<and> (bo_ordered op \<longrightarrow> length bs \<le> 1)"

text \<open>The slices that are yielded, and what they say of the events that were buffered.\<close>

definition batch_sizes :: "nat \<Rightarrow> 'r table_slice list \<Rightarrow> bool" where
  "batch_sizes limit ys \<longleftrightarrow> (\<forall>y \<in> set ys. ts_rows y \<le> limit)"

lemma batch_sizes_simps [simp]:
  "batch_sizes limit []" "batch_sizes limit (y # ys) \<longleftrightarrow> ts_rows y \<le> limit \<and> batch_sizes limit ys"
  "batch_sizes limit (xs @ ys) \<longleftrightarrow> batch_sizes limit xs \<and> batch_sizes limit ys"
  by (auto simp: batch_sizes_def)

lemma concatenate_homogeneous:
  assumes "\<forall>s \<in> set ss. ts_events s \<noteq> [] \<longrightarrow> ts_schema s = t"
  shows "\<exists>y. concatenate ss = Some y \<and> ts_events y = events_of ss
    \<and> (\<forall>u. events_with u [y] = (if u = t then events_of ss else []))"
proof -
  obtain y where y: "concatenate ss = Some y" "ts_events y = events_of ss" "ts_events y \<noteq> [] \<longrightarrow> ts_schema y = t"
    using concatenate_spec [OF assms] by blast
  have "events_with u [y] = (if u = t then ts_events y else [])" for u
    using y(3) by (cases "ts_events y = []") simp_all
  then show ?thesis using y(1,2) by simp
qed

lemma concatenate_buffer:
  assumes "homogeneous t e"
  shows "\<exists>y. concatenate (be_events e) = Some y \<and> ts_events y = events_of (be_events e)
    \<and> ts_rows y = be_num_buffered e \<and> (\<forall>u. events_with u [y] = (if u = t then events_of (be_events e) else []))"
proof -
  have e: "\<forall>s \<in> set (be_events e). ts_events s \<noteq> [] \<longrightarrow> ts_schema s = t"
    "be_num_buffered e = length (events_of (be_events e))"
    using assms by (simp_all add: homogeneous_def)
  from concatenate_homogeneous [OF e(1)] show ?thesis unfolding e(2) by (metis ts_rows_eq)
qed

lemma buffered_notin: "t \<notin> fst ` set bs \<Longrightarrow> buffered t bs = []"
  by (induction t bs rule: buffered.induct) auto

lemma buffered_append [simp]: "buffered t (bs @ cs) = buffered t bs @ buffered t cs"
  by (induction t bs rule: buffered.induct) auto

section \<open>Every step keeps the events\<close>

lemma check_timeouts_spec:
  assumes "\<forall>x \<in> set bs. buffer_ok (bo_limit op) x" and "distinct (map fst bs)"
  shows "\<exists>ys cs. check_timeouts op now bs = Some (ys, cs) \<and> batch_sizes (bo_limit op) ys
    \<and> set cs \<subseteq> set bs \<and> distinct (map fst cs) \<and> length cs \<le> length bs
    \<and> (\<forall>t. events_with t ys @ buffered t cs = buffered t bs)
    \<and> (length bs \<le> 1 \<longrightarrow> events_of ys @ all_buffered cs = all_buffered bs)"
  using assms
proof (induction op now bs rule: check_timeouts.induct)
  case (2 op now x xs)
  obtain t e where x: "x = (t, e)" "homogeneous t e" "be_num_buffered e < bo_limit op"
    using "2.prems"(1) by (cases x) (auto simp: buffer_ok_def)
  obtain y where y: "concatenate (be_events e) = Some y" "ts_events y = events_of (be_events e)"
      "ts_rows y = be_num_buffered e" "\<And>u. events_with u [y] = (if u = t then events_of (be_events e) else [])"
    using concatenate_buffer [OF x(2)] by blast
  show ?case
  proof (cases "now - be_last_yield e > bo_timeout op")
    case True
    show ?thesis
    proof (cases xs)
      case Nil
      then show ?thesis using True x y by (simp add: require_def)
    next
      case (Cons z zs)
      obtain u f where z: "z = (u, f)" by (cases z)
      obtain ys cs where rec: "check_timeouts op now zs = Some (ys, cs)" "batch_sizes (bo_limit op) ys"
          "set cs \<subseteq> set zs" "distinct (map fst cs)" "length cs \<le> length zs"
          "\<forall>t. events_with t ys @ buffered t cs = buffered t zs"
        using "2.IH"(1) [of "()" y z zs] "2.prems" True x y(1) Cons by (auto simp: require_def)
      have u: "u \<notin> fst ` set zs" "u \<notin> fst ` set cs" using "2.prems"(2) Cons z rec(3) by auto
      then have "events_with u ys = []" using rec(6) [rule_format, of u] by (simp add: buffered_notin)
      then have "events_with v (y # ys) @ buffered v (z # cs) = buffered v (x # xs)" for v
        using rec(6) [rule_format, of v] y(4) [of v] x(1) Cons z u by (auto simp: buffered_notin split: if_splits)
      then show ?thesis
        using True x y(1,3) rec Cons z u(2) by (auto simp: require_def)
    qed
  next
    case False
    obtain ys cs where rec: "check_timeouts op now xs = Some (ys, cs)" "batch_sizes (bo_limit op) ys"
        "set cs \<subseteq> set xs" "distinct (map fst cs)" "length cs \<le> length xs"
        "\<forall>t. events_with t ys @ buffered t cs = buffered t xs"
      using "2.IH"(2) "2.prems" False x by auto
    have t: "t \<notin> fst ` set xs" "t \<notin> fst ` set cs" using "2.prems"(2) x rec(3) by auto
    then have none: "events_with t ys = []" using rec(6) [rule_format, of t] by (simp add: buffered_notin)
    have "events_with v ys @ buffered v (x # cs) = buffered v (x # xs)" for v
      using rec(6) [rule_format, of v] x(1) t none by (auto simp: buffered_notin)
    then show ?thesis using False x rec t(2) by auto
  qed
qed simp


lemma flush_loop_spec:
  assumes "homogeneous t e" and "0 < limit"
  shows "\<exists>ys f. flush_loop limit now e = Some (ys, f) \<and> batch_sizes limit ys \<and> homogeneous t f
    \<and> be_num_buffered f < limit \<and> (\<forall>u. events_with u ys = (if u = t then events_of ys else []))
    \<and> events_of ys @ events_of (be_events f) = events_of (be_events e)"
  using assms(1)
proof (induction "be_num_buffered e" arbitrary: e rule: less_induct)
  case less
  show ?case
  proof (cases "be_num_buffered e \<ge> limit")
    case True
    obtain lhs rhs where split: "split_slices (be_events e) limit = Some (lhs, rhs)"
        "events_of lhs = take limit (events_of (be_events e))" "events_of rhs = drop limit (events_of (be_events e))"
        "\<forall>x \<in> set lhs \<union> set rhs. \<exists>s \<in> set (be_events e). part_of x s"
      using split_slices_spec [of "be_events e" limit] by blast
    have schema: "\<forall>x \<in> set lhs \<union> set rhs. ts_events x \<noteq> [] \<longrightarrow> ts_schema x = t"
      using split(4) less.prems by (force simp: homogeneous_def part_of_def)
    obtain y where y: "concatenate lhs = Some y" "ts_events y = events_of lhs"
        "\<forall>u. events_with u [y] = (if u = t then events_of lhs else [])"
      using concatenate_homogeneous [of lhs t] schema by auto
    have rows: "ts_rows y = limit" using y(2) split(2) True less.prems by (simp add: ts_rows_eq homogeneous_def)
    let ?e = "e\<lparr>be_num_buffered := be_num_buffered e - ts_rows y, be_last_yield := now, be_events := rhs\<rparr>"
    have "homogeneous t ?e" using less.prems schema split(3) rows by (auto simp: homogeneous_def)
    moreover have "be_num_buffered ?e < be_num_buffered e" using rows True assms(2) by simp
    ultimately obtain ys f where f: "flush_loop limit now ?e = Some (ys, f)" "batch_sizes limit ys" "homogeneous t f"
        "be_num_buffered f < limit" "\<forall>u. events_with u ys = (if u = t then events_of ys else [])"
        "events_of ys @ events_of (be_events f) = events_of rhs"
      using less.hyps [of ?e] by auto
    have "flush_loop limit now e = Some (y # ys, f)"
      using True split(1) y(1) f(1) by (subst flush_loop.simps) simp
    moreover have "events_with u (y # ys) = (if u = t then events_of (y # ys) else [])" for u
      using y(2) y(3) [rule_format, of u] f(5) by (auto split: if_splits)
    moreover have "events_of (y # ys) @ events_of (be_events f) = events_of (be_events e)"
      using y(2) split(2,3) f(6) by simp
    ultimately show ?thesis using f(2-4) rows by (intro exI [of _ "y # ys"] exI [of _ f]) simp
  next
    case False
    then show ?thesis using less.prems by (subst flush_loop.simps) simp
  qed
qed

lemma flush_buffer_spec:
  assumes "\<forall>x \<in> set bs. homogeneous (fst x) (snd x) \<and> be_num_buffered (snd x) < limit"
    and "\<forall>x \<in> set bs. fst x \<noteq> ts_schema s \<longrightarrow> 0 < be_num_buffered (snd x)"
    and "distinct (map fst bs)" and "ts_schema s \<in> fst ` set bs" and "0 < limit"
  shows "\<exists>ys cs. flush_buffer limit now s bs = Some (ys, cs) \<and> batch_sizes limit ys
    \<and> (\<forall>x \<in> set cs. buffer_ok limit x) \<and> fst ` set cs \<subseteq> fst ` set bs \<and> distinct (map fst cs) \<and> length cs \<le> length bs
    \<and> (\<forall>u. events_with u ys = (if u = ts_schema s then events_of ys else []))
    \<and> (\<forall>u. events_with u ys @ buffered u cs = buffered u bs @ events_with u [s])
    \<and> (length bs \<le> 1 \<longrightarrow> events_of ys @ all_buffered cs = all_buffered bs @ ts_events s)"
  using assms(1-4)
proof (induction bs)
  case (Cons x bs)
  obtain t e where x: "x = (t, e)" "homogeneous t e" using Cons.prems(1) by (cases x) auto
  show ?case
  proof (cases "t = ts_schema s")
    case True
    let ?e = "e\<lparr>be_num_buffered := be_num_buffered e + ts_rows s, be_events := be_events e @ [s]\<rparr>"
    have "homogeneous t ?e" using x(2) True by (auto simp: homogeneous_def)
    from flush_loop_spec [OF this assms(5), of now]
    obtain ys f where f: "flush_loop limit now ?e = Some (ys, f)" "batch_sizes limit ys" "homogeneous t f"
        "be_num_buffered f < limit" "\<forall>u. events_with u ys = (if u = t then events_of ys else [])"
        "events_of ys @ events_of (be_events f) = events_of (be_events e) @ ts_events s"
      by auto
    let ?cs = "if be_num_buffered f = 0 then bs else (t, f) # bs"
    have code: "flush_buffer limit now s (x # bs) = Some (ys, ?cs)" using True x(1) f(1) by simp
    have t: "t \<notin> fst ` set bs" using Cons.prems(3) x(1) by auto
    have empty: "events_of (be_events f) = []" if "be_num_buffered f = 0" using f(3) that by (simp add: homogeneous_def)
    have "\<forall>y \<in> set bs. buffer_ok limit y" using Cons.prems(1,2) t True by (force simp: buffer_ok_def)
    then have ok: "\<forall>y \<in> set ?cs. buffer_ok limit y" using f(3,4) by (auto simp: buffer_ok_def)
    have "events_with u ys @ buffered u ?cs = buffered u (x # bs) @ events_with u [s]" for u
      using f(5,6) t True x(1) empty by (auto simp: buffered_notin)
    moreover have "events_of ys @ all_buffered ?cs = all_buffered (x # bs) @ ts_events s" if "length (x # bs) \<le> 1"
      using that f(6) x(1) empty by auto
    ultimately show ?thesis
      unfolding code using ok f(2,5) True Cons.prems(3) x(1)
      by (intro exI [of _ ys] exI [of _ ?cs]) auto
  next
    case False
    then have "ts_schema s \<in> fst ` set bs" using Cons.prems(4) x(1) by auto
    then obtain ys cs where rec: "flush_buffer limit now s bs = Some (ys, cs)" "batch_sizes limit ys"
        "\<forall>x \<in> set cs. buffer_ok limit x" "fst ` set cs \<subseteq> fst ` set bs" "distinct (map fst cs)" "length cs \<le> length bs"
        "\<forall>u. events_with u ys = (if u = ts_schema s then events_of ys else [])"
        "\<forall>u. events_with u ys @ buffered u cs = buffered u bs @ events_with u [s]"
      using Cons.IH Cons.prems by auto
    have code: "flush_buffer limit now s (x # bs) = Some (ys, x # cs)" using False x(1) rec(1) by simp
    have "\<forall>y \<in> set (x # cs). buffer_ok limit y" using rec(3) Cons.prems(1,2) x False by (auto simp: buffer_ok_def)
    moreover have "events_with u ys @ buffered u (x # cs) = buffered u (x # bs) @ events_with u [s]" for u
      using rec(7) [rule_format, of u] rec(8) [rule_format, of u] False x(1) by (auto split: if_splits)
    moreover have "\<not> length (x # bs) \<le> 1" using \<open>ts_schema s \<in> fst ` set bs\<close> by (cases bs) auto
    moreover have "distinct (map fst (x # cs))" using rec(4,5) Cons.prems(3) x(1) by auto
    ultimately show ?thesis
      unfolding code using rec(2,4,6,7) by (intro exI [of _ ys] exI [of _ "x # cs"]) auto
  qed
qed simp

lemma schema_change_spec:
  assumes "buffers_ok op bs"
  shows "\<exists>ys cs. schema_change op s bs = Some (ys, cs) \<and> batch_sizes (bo_limit op) ys \<and> buffers_ok op cs
    \<and> (\<forall>t. events_with t ys @ buffered t cs = buffered t bs)
    \<and> (bo_ordered op \<longrightarrow> events_of ys @ all_buffered cs = all_buffered bs \<and> (cs = [] \<or> fst (hd cs) = ts_schema s))"
proof (cases "bo_ordered op \<and> bs \<noteq> [] \<and> fst (hd bs) \<noteq> ts_schema s")
  case True
  then obtain t e where bs: "bs = [(t, e)]" using assms by (cases bs; cases "tl bs") (auto simp: buffers_ok_def)
  have e: "homogeneous t e" "be_num_buffered e < bo_limit op" using assms bs by (auto simp: buffers_ok_def buffer_ok_def)
  obtain y where "concatenate (be_events e) = Some y" "ts_events y = events_of (be_events e)"
      "ts_rows y = be_num_buffered e" "\<forall>u. events_with u [y] = (if u = t then events_of (be_events e) else [])"
    using concatenate_buffer [OF e(1)] by blast
  then show ?thesis using True bs e(2) by (auto simp: schema_change_def require_def buffers_ok_def)
next
  case False
  then show ?thesis using assms by (auto simp: schema_change_def)
qed

lemma emplace_buffer_spec:
  "buffered t (emplace_buffer u created bs) = buffered t bs" "all_buffered (emplace_buffer u created bs) = all_buffered bs"
  "u \<in> fst ` set (emplace_buffer u created bs)"
  "distinct (map fst bs) \<Longrightarrow> distinct (map fst (emplace_buffer u created bs))"
  "x \<in> set (emplace_buffer u created bs) \<Longrightarrow> x \<in> set bs \<or> fst x = u \<and> be_events (snd x) = [] \<and> be_num_buffered (snd x) = 0"
  by (auto simp: emplace_buffer_def all_buffered_def split: if_splits)

lemma batch_step_spec:
  assumes "buffers_ok op bs" and "0 < bo_limit op"
  shows "\<exists>ys cs. batch_step op (s, now, created) bs = Some (ys, cs) \<and> batch_sizes (bo_limit op) ys \<and> buffers_ok op cs
    \<and> (\<forall>t. events_with t ys @ buffered t cs = buffered t bs @ events_with t [s])
    \<and> (bo_ordered op \<longrightarrow> events_of ys @ all_buffered cs = all_buffered bs @ ts_events s)"
proof -
  obtain y1 b1 where 1: "check_timeouts op now bs = Some (y1, b1)" "batch_sizes (bo_limit op) y1"
      "set b1 \<subseteq> set bs" "distinct (map fst b1)" "length b1 \<le> length bs"
      "\<forall>t. events_with t y1 @ buffered t b1 = buffered t bs"
      "length bs \<le> 1 \<longrightarrow> events_of y1 @ all_buffered b1 = all_buffered bs"
    using check_timeouts_spec [of bs op now] assms(1) unfolding buffers_ok_def by blast
  have ok1: "buffers_ok op b1" using 1(3-5) assms(1) by (auto simp: buffers_ok_def)
  show ?thesis
  proof (cases "ts_rows s = 0")
    case True
    then have "ts_events s = []" by simp
    then show ?thesis
      using True 1 ok1 assms(1) by (intro exI [of _ "y1 @ [ts_new]"] exI [of _ b1]) (auto simp: batch_step_def buffers_ok_def)
  next
    case False
    obtain y2 b2 where 2: "schema_change op s b1 = Some (y2, b2)" "batch_sizes (bo_limit op) y2" "buffers_ok op b2"
        "\<forall>t. events_with t y2 @ buffered t b2 = buffered t b1"
        "bo_ordered op \<longrightarrow> events_of y2 @ all_buffered b2 = all_buffered b1 \<and> (b2 = [] \<or> fst (hd b2) = ts_schema s)"
      using schema_change_spec [OF ok1, of s] by blast
    let ?b = "emplace_buffer (ts_schema s) created b2"
    have one: "length ?b \<le> 1" if "bo_ordered op"
      using that 2(3,5) by (cases b2) (auto simp: emplace_buffer_def buffers_ok_def)
    have b: "\<forall>x \<in> set ?b. homogeneous (fst x) (snd x) \<and> be_num_buffered (snd x) < bo_limit op"
      "\<forall>x \<in> set ?b. fst x \<noteq> ts_schema s \<longrightarrow> 0 < be_num_buffered (snd x)"
      using 2(3) assms(2) by (auto dest!: emplace_buffer_spec(5) simp: buffers_ok_def buffer_ok_def homogeneous_def)
    have d: "distinct (map fst ?b)" using 2(3) by (intro emplace_buffer_spec(4)) (simp add: buffers_ok_def)
    obtain y3 b3 where 3: "flush_buffer (bo_limit op) now s ?b = Some (y3, b3)" "batch_sizes (bo_limit op) y3"
        "\<forall>x \<in> set b3. buffer_ok (bo_limit op) x" "distinct (map fst b3)" "length b3 \<le> length ?b"
        "\<forall>u. events_with u y3 @ buffered u b3 = buffered u ?b @ events_with u [s]"
        "length ?b \<le> 1 \<longrightarrow> events_of y3 @ all_buffered b3 = all_buffered ?b @ ts_events s"
      using flush_buffer_spec [OF b d emplace_buffer_spec(3) assms(2), of now] by blast
    have "batch_step op (s, now, created) bs = Some (y1 @ y2 @ y3, b3)"
      using False 1(1) 2(1) 3(1) by (simp add: batch_step_def)
    moreover have "buffers_ok op b3" using 3(3-5) one by (auto simp: buffers_ok_def)
    moreover have "events_with t (y1 @ y2 @ y3) @ buffered t b3 = buffered t bs @ events_with t [s]" for t
    proof -
      have "events_with t y3 @ buffered t b3 = buffered t b2 @ events_with t [s]"
        using 3(6) by (simp add: emplace_buffer_spec(1))
      then show ?thesis using 1(6) 2(4) by (metis append.assoc events_with_simps(2))
    qed
    moreover have "events_of (y1 @ y2 @ y3) @ all_buffered b3 = all_buffered bs @ ts_events s" if "bo_ordered op"
    proof -
      have "events_of y3 @ all_buffered b3 = all_buffered b2 @ ts_events s"
        using 3(7) one [OF that] by (simp add: emplace_buffer_spec(2))
      moreover have "length bs \<le> 1" using that assms(1) by (simp add: buffers_ok_def)
      ultimately show ?thesis using 1(7) 2(5) that by (metis append.assoc events_of_simps(3))
    qed
    ultimately show ?thesis using 1(2) 2(2) 3(2) by auto
  qed
qed


section \<open>The whole operator\<close>

text \<open>What \<open>std::ranges::sort\<close> promises.\<close>

definition sorts_buffers :: "('r buffer_entry list \<Rightarrow> 'r buffer_entry list) \<Rightarrow> bool" where
  "sorts_buffers f \<longleftrightarrow> (\<forall>es. mset (f es) = mset es \<and> sorted (map be_last_yield (f es)))"

lemma permuted_keys: "mset es = mset (map snd bs) \<Longrightarrow> \<exists>cs. mset cs = mset bs \<and> map snd cs = es"
proof (induction es arbitrary: bs)
  case (Cons e es)
  have "e \<in> set (map snd bs)" using Cons.prems by (metis list.set_intros(1) mset_eq_setD)
  then obtain x where x: "x \<in> set bs" "snd x = e" by auto
  then have "image_mset snd (mset bs) = add_mset e (image_mset snd (mset (remove1 x bs)))"
    by (metis image_mset_add_mset insert_DiffM mset_remove1 set_mset_mset)
  then have "mset es = mset (map snd (remove1 x bs))" using Cons.prems by simp
  then obtain cs where "mset cs = mset (remove1 x bs)" "map snd cs = es" using Cons.IH by blast
  then show ?case using x by (intro exI [of _ "x # cs"]) simp
qed simp

lemma buffered_map_of: "distinct (map fst bs) \<Longrightarrow>
    buffered t bs = (case map_of bs t of None \<Rightarrow> [] | Some e \<Rightarrow> events_of (be_events e))"
  by (induction t bs rule: buffered.induct) (auto simp: buffered_notin image_iff split: option.splits dest: map_of_SomeD)

lemma buffered_permuted:
  assumes "mset cs = mset bs" and "distinct (map fst bs)"
  shows "buffered t cs = buffered t bs"
proof -
  have "distinct (map fst cs)" using assms by (metis mset_eq_imp_distinct_iff mset_map)
  moreover have "set cs = set bs" using assms(1) by (rule mset_eq_setD)
  ultimately have "map_of cs = map_of bs" using assms(2) by (simp add: map_of_inject_set)
  then show ?thesis using \<open>distinct (map fst cs)\<close> assms(2) by (simp add: buffered_map_of)
qed

lemma concatenate_all_spec:
  assumes "\<forall>x \<in> set bs. buffer_ok limit x"
  shows "\<exists>ys. concatenate_all (map snd bs) = Some ys \<and> batch_sizes limit ys \<and> (\<forall>t. events_with t ys = buffered t bs)
    \<and> events_of ys = all_buffered bs"
  using assms
proof (induction bs)
  case (Cons x bs)
  obtain t e where x: "x = (t, e)" by (cases x)
  have e: "homogeneous t e" "be_num_buffered e \<le> limit" using Cons.prems x by (auto simp: buffer_ok_def)
  obtain y where y: "concatenate (be_events e) = Some y" "ts_events y = events_of (be_events e)"
      "ts_rows y = be_num_buffered e" "\<forall>u. events_with u [y] = (if u = t then events_of (be_events e) else [])"
    using concatenate_buffer [OF e(1)] by blast
  obtain ys where ys: "concatenate_all (map snd bs) = Some ys" "batch_sizes limit ys"
      "\<forall>t. events_with t ys = buffered t bs" "events_of ys = all_buffered bs"
    using Cons by auto
  have "events_with u (y # ys) = buffered u (x # bs)" for u
    using y(4) [rule_format, of u] ys(3) x by simp
  then show ?case using x y(1-3) ys e(2) by (intro exI [of _ "y # ys"]) simp
qed simp

lemma batch_loop_spec:
  assumes "buffers_ok op bs" and "0 < bo_limit op" and "sorts_buffers f"
  shows "\<exists>ys. batch_loop f op input bs = Some ys \<and> batch_sizes (bo_limit op) ys
    \<and> (\<forall>t. events_with t ys = buffered t bs @ events_with t (map fst input))
    \<and> (bo_ordered op \<longrightarrow> events_of ys = all_buffered bs @ events_of (map fst input))"
  using assms(1)
proof (induction input arbitrary: bs)
  case Nil
  obtain cs where cs: "mset cs = mset bs" "map snd cs = f (map snd bs)"
    using permuted_keys [of "f (map snd bs)" bs] assms(3) by (auto simp: sorts_buffers_def)
  have "\<forall>x \<in> set cs. buffer_ok (bo_limit op) x" using Nil mset_eq_setD [OF cs(1)] by (simp add: buffers_ok_def)
  from concatenate_all_spec [OF this] obtain ys where ys: "concatenate_all (f (map snd bs)) = Some ys"
      "batch_sizes (bo_limit op) ys" "\<forall>t. events_with t ys = buffered t cs" "events_of ys = all_buffered cs"
    unfolding cs(2) by blast
  have "cs = bs" if "length bs \<le> 1" using that cs(1) by (cases bs; cases "tl bs") auto
  then show ?case
    using ys Nil buffered_permuted [OF cs(1)] by (auto simp: buffers_ok_def)
next
  case (Cons tick input)
  obtain s now created where tick: "tick = (s, now, created)" by (cases tick)
  obtain ys cs where step: "batch_step op tick bs = Some (ys, cs)" "batch_sizes (bo_limit op) ys" "buffers_ok op cs"
      "\<forall>t. events_with t ys @ buffered t cs = buffered t bs @ events_with t [s]"
      "bo_ordered op \<longrightarrow> events_of ys @ all_buffered cs = all_buffered bs @ ts_events s"
    using batch_step_spec [OF Cons.prems assms(2), of s now created] tick by blast
  obtain zs where rest: "batch_loop f op input cs = Some zs" "batch_sizes (bo_limit op) zs"
      "\<forall>t. events_with t zs = buffered t cs @ events_with t (map fst input)"
      "bo_ordered op \<longrightarrow> events_of zs = all_buffered cs @ events_of (map fst input)"
    using Cons.IH [OF step(3)] by blast
  have "events_with t (ys @ zs) = buffered t bs @ events_with t (map fst (tick # input))" for t
  proof -
    have "events_with t (ys @ zs) = (events_with t ys @ buffered t cs) @ events_with t (map fst input)"
      using rest(3) by simp
    also have "\<dots> = buffered t bs @ events_with t (map fst (tick # input))" unfolding step(4) [rule_format] tick by simp
    finally show ?thesis .
  qed
  moreover have "events_of (ys @ zs) = all_buffered bs @ events_of (map fst (tick # input))" if "bo_ordered op"
  proof -
    have "events_of (ys @ zs) = (events_of ys @ all_buffered cs) @ events_of (map fst input)" using rest(4) that by simp
    then show ?thesis using step(5) that tick by simp
  qed
  ultimately show ?case using step(1,2) rest(1,2) by auto
qed

end
