(* ===== verification/Deduplicate.thy ===== *)
theory Deduplicate
  imports Table_Slice
begin

text \<open>
  The pipeline operator \<open>deduplicate\<close> (\<^verbatim>\<open>builtins/operators/deduplicate.cpp\<close>): an event is dropped if as
  many events with the same values as the limit were kept, unless the last of them is too far behind or too
  long ago. The projection of a slice to the fields that are compared works on Arrow arrays and is an
  argument, like the sorted and flattened record that a projected row is stored as. The clock is read at
  several places; its readings come with the input. Stale matches are erased now and then, which is shown
  to be invisible.
\<close>

section \<open>The operator\<close>

record configuration =
  dd_limit :: int
  dd_distance :: int
  dd_timeout :: int
  dd_project_only :: bool

record dedup_match =
  mt_count :: int
  mt_last_row_number :: int
  mt_last_time :: int

type_synonym 'k match_store = "'k \<Rightarrow> dedup_match option"

definition new_match :: "int \<Rightarrow> dedup_match" where
  "new_match t = \<lparr>mt_count = 0, mt_last_row_number = 0, mt_last_time = t\<rparr>"

text \<open>A match that has not been seen within the timeout or the distance starts again.\<close>

definition refresh_match :: "configuration \<Rightarrow> int \<Rightarrow> int \<Rightarrow> dedup_match \<Rightarrow> dedup_match" where
  "refresh_match cfg now row_number m =
    (let m = (if now - mt_last_time m > dd_timeout cfg then m\<lparr>mt_count := 0\<rparr> else m);
         m = m\<lparr>mt_last_time := now\<rparr>;
         m = (if row_number - mt_last_row_number m > dd_distance cfg then m\<lparr>mt_count := 0\<rparr> else m)
     in m\<lparr>mt_last_row_number := row_number\<rparr>)"

text \<open>One event: whether it is kept and the new store.\<close>

definition visit_row :: "configuration \<Rightarrow> int \<Rightarrow> 'k \<Rightarrow> 'k match_store \<times> int \<Rightarrow> bool \<times> 'k match_store \<times> int" where
  "visit_row cfg now key st =
    (let (matches, row_number) = st;
         m = refresh_match cfg now row_number (case matches key of None \<Rightarrow> new_match now | Some m \<Rightarrow> m)
     in if mt_count m \<ge> dd_limit cfg then (False, matches(key \<mapsto> m), row_number + 1)
        else (True, matches(key \<mapsto> m\<lparr>mt_count := mt_count m + 1\<rparr>), row_number + 1))"

text \<open>The rows of one slice; \<open>start\<close> is the first row that was not yielded yet.\<close>

fun dedup_rows ::
  "configuration \<Rightarrow> int \<Rightarrow> 'r table_slice \<Rightarrow> 'k list \<Rightarrow> nat \<Rightarrow> nat \<Rightarrow> 'k match_store \<times> int \<Rightarrow>
    ('r table_slice list \<times> 'k match_store \<times> int) option" where
  "dedup_rows cfg now s [] row start st = do {
     y \<leftarrow> subslice s start (ts_rows s);
     Some ([y], st)
   }"
| "dedup_rows cfg now s (key # keys) row start st =
    (case visit_row cfg now key st of (keep, st) \<Rightarrow>
       if keep then dedup_rows cfg now s keys (Suc row) start st
       else do {
         y \<leftarrow> subslice s start row;
         (ys, st) \<leftarrow> dedup_rows cfg now s keys (Suc row) (Suc row) st;
         Some (y # ys, st)
       })"

definition stale_match :: "configuration \<Rightarrow> int \<Rightarrow> int \<Rightarrow> dedup_match \<Rightarrow> bool" where
  "stale_match cfg now row_number m \<longleftrightarrow>
    row_number - mt_last_row_number m > dd_distance cfg \<or> now - mt_last_time m > dd_timeout cfg"

definition int64_max :: int where
  "int64_max = 2 ^ 63 - 1"

definition cleanup_matches :: "configuration \<Rightarrow> int \<Rightarrow> int \<Rightarrow> 'k match_store \<Rightarrow> 'k match_store" where
  "cleanup_matches cfg now row_number matches =
    (if dd_distance cfg = int64_max \<and> dd_limit cfg = int64_max then matches
     else (\<lambda>k. case matches k of
       None \<Rightarrow> None
     | Some m \<Rightarrow> if stale_match cfg now row_number m then None else Some m))"

text \<open>What comes with a slice: the time of its deduplication, the time that decides on the cleanup, the
  time of the cleanup, and whether too many projections are cached.\<close>

record 'r dedup_tick =
  dt_slice :: "'r table_slice"
  dt_now :: int
  dt_check_time :: int
  dt_cleanup_time :: int
  dt_many_projections :: bool

record 'k dedup_state =
  ds_matches :: "'k match_store"
  ds_row_number :: int
  ds_last_cleanup_row :: int
  ds_last_cleanup_time :: int

definition needs_cleanup :: "configuration \<Rightarrow> 'r dedup_tick \<Rightarrow> 'k dedup_state \<Rightarrow> bool" where
  "needs_cleanup cfg t st \<longleftrightarrow>
    dt_check_time t - ds_last_cleanup_time st
      > (if dd_timeout cfg \<ge> 0 then dd_timeout cfg div 2 else - ((- dd_timeout cfg) div 2))
    \<or> ds_row_number st - ds_last_cleanup_row st > dd_distance cfg \<or> dt_many_projections t"

text \<open>The inner \<open>None\<close> of the projection is an error that ends the operator.\<close>

fun dedup_loop ::
  "('r table_slice \<Rightarrow> 'r table_slice option) \<Rightarrow> ('r \<Rightarrow> 'k) \<Rightarrow> configuration \<Rightarrow> 'r dedup_tick list \<Rightarrow> 'k dedup_state \<Rightarrow>
    'r table_slice list option" where
  "dedup_loop project key cfg [] st = Some []"
| "dedup_loop project key cfg (t # input) st =
    (let s = dt_slice t in
     if ts_rows s = 0 then map_option ((#) ts_new) (dedup_loop project key cfg input st)
     else case project s of
       None \<Rightarrow> Some []
     | Some projected \<Rightarrow>
         if dd_project_only cfg then map_option ((#) projected) (dedup_loop project key cfg input st)
         else do {
           (ys, matches, row_number) \<leftarrow> dedup_rows cfg (dt_now t) s (map key (ts_events projected)) 0 0
             (ds_matches st, ds_row_number st);
           let ys = filter (\<lambda>y. ts_rows y > 0) ys;
           let st = st\<lparr>ds_matches := matches, ds_row_number := row_number\<rparr>;
           if needs_cleanup cfg t st then do {
             let st = st\<lparr>ds_matches := cleanup_matches cfg (dt_cleanup_time t) row_number matches,
               ds_last_cleanup_time := dt_check_time t, ds_last_cleanup_row := row_number\<rparr>;
             zs \<leftarrow> dedup_loop project key cfg input st;
             Some (ys @ ts_new # zs)
           } else map_option ((@) ys) (dedup_loop project key cfg input st)
         })"

definition run_deduplicate ::
  "('r table_slice \<Rightarrow> 'r table_slice option) \<Rightarrow> ('r \<Rightarrow> 'k) \<Rightarrow> configuration \<Rightarrow> int \<Rightarrow> 'r dedup_tick list \<Rightarrow>
    'r table_slice list option" where
  "run_deduplicate project key cfg start_time input =
    dedup_loop project key cfg input
      \<lparr>ds_matches = Map.empty, ds_row_number = 0, ds_last_cleanup_row = 0, ds_last_cleanup_time = start_time\<rparr>"

section \<open>The reference\<close>

text \<open>The same decisions for a sequence of events, one after another and without any cleanup.\<close>

fun dedup_spec :: "configuration \<Rightarrow> ('k \<times> 'r \<times> int) list \<Rightarrow> 'k match_store \<times> int \<Rightarrow> 'r list" where
  "dedup_spec cfg [] st = []"
| "dedup_spec cfg ((key, e, now) # events) st =
    (case visit_row cfg now key st of (keep, st) \<Rightarrow> (if keep then (#) e else id) (dedup_spec cfg events st))"

fun dedup_state_after :: "configuration \<Rightarrow> ('k \<times> 'r \<times> int) list \<Rightarrow> 'k match_store \<times> int \<Rightarrow> 'k match_store \<times> int" where
  "dedup_state_after cfg [] st = st"
| "dedup_state_after cfg ((key, e, now) # events) st = dedup_state_after cfg events (snd (visit_row cfg now key st))"

lemma dedup_spec_append:
  "dedup_spec cfg (xs @ ys) st = dedup_spec cfg xs st @ dedup_spec cfg ys (dedup_state_after cfg xs st)"
  by (induction cfg xs st rule: dedup_spec.induct) (auto split: prod.split)

text \<open>The rows of one slice are yielded in the pieces between those that are dropped.\<close>

lemma dedup_rows_spec:
  assumes "length keys = ts_rows s - row" and "start \<le> row" and "row \<le> ts_rows s"
  shows "\<exists>ys. dedup_rows cfg now s keys row start st
      = Some (ys, dedup_state_after cfg (zip keys (map (\<lambda>e. (e, now)) (drop row (ts_events s)))) st)
    \<and> events_of ys = take (row - start) (drop start (ts_events s))
        @ dedup_spec cfg (zip keys (map (\<lambda>e. (e, now)) (drop row (ts_events s)))) st
    \<and> (\<forall>y \<in> set ys. part_of y s)"
  using assms
proof (induction keys arbitrary: row start st)
  case Nil
  then show ?case using subslice_spec [of start "ts_rows s" s] by (auto simp: le_antisym)
next
  case (Cons key keys)
  obtain keep st' where v: "visit_row cfg now key st = (keep, st')" by (cases "visit_row cfg now key st")
  have row: "row < ts_rows s" using Cons.prems(1) by auto
  have drop: "drop row (ts_events s) = ts_events s ! row # drop (Suc row) (ts_events s)"
    using row by (simp add: Cons_nth_drop_Suc)
  have len: "length keys = ts_rows s - Suc row" using Cons.prems(1) by simp
  show ?case
  proof (cases keep)
    case True
    have "take (Suc row - start) (drop start (ts_events s)) = take (row - start) (drop start (ts_events s)) @ [ts_events s ! row]"
      using row Cons.prems(2) by (simp add: Suc_diff_le take_Suc_conv_app_nth)
    then show ?thesis
      using Cons.IH [OF len, of start st'] row Cons.prems(2) v True drop by auto
  next
    case False
    obtain y where "subslice s start row = Some y" "ts_events y = take (row - start) (drop start (ts_events s))" "part_of y s"
      using subslice_spec [of start row s] row Cons.prems(2) by auto
    then show ?thesis
      using Cons.IH [OF len, of "Suc row" st'] row v False drop by auto
  qed
qed

section \<open>The cleanup is invisible\<close>

text \<open>The store of the code knows less than the one without a cleanup: what is missing is stale.\<close>

definition forgets :: "configuration \<Rightarrow> int \<Rightarrow> int \<Rightarrow> 'k match_store \<Rightarrow> 'k match_store \<Rightarrow> bool" where
  "forgets cfg now row_number ms full \<longleftrightarrow>
    (\<forall>k. ms k = full k \<or> ms k = None \<and> (\<exists>m. full k = Some m \<and> stale_match cfg now row_number m))"

lemma forgets_later:
  "forgets cfg now row_number ms full \<Longrightarrow> now \<le> now' \<Longrightarrow> row_number \<le> row_number' \<Longrightarrow> forgets cfg now' row_number' ms full"
  unfolding forgets_def stale_match_def by (meson diff_right_mono less_le_trans)

lemma visit_row_forgets:
  assumes "forgets cfg now row_number ms full" and "visit_row cfg now key (ms, row_number) = (keep, ms', row_number')"
  shows "\<exists>full'. visit_row cfg now key (full, row_number) = (keep, full', row_number + 1) \<and> row_number' = row_number + 1
    \<and> forgets cfg now (row_number + 1) ms' full'"
proof -
  let ?m = "\<lambda>s. refresh_match cfg now row_number (case s key of None \<Rightarrow> new_match now | Some m \<Rightarrow> m)"
  have same: "?m ms = ?m full"
  proof -
    consider "ms key = full key" | m where "ms key = None" "full key = Some m" "stale_match cfg now row_number m"
      using assms(1) by (auto simp: forgets_def)
    then show ?thesis
      by cases (auto simp: refresh_match_def new_match_def stale_match_def Let_def)
  qed
  have later: "forgets cfg now (row_number + 1) (ms(key \<mapsto> x)) (full(key \<mapsto> x))" for x
    using forgets_later [OF assms(1), of now "row_number + 1"] by (auto simp: forgets_def)
  show ?thesis
    using assms(2) same later by (auto simp: visit_row_def Let_def split: if_splits)
qed

lemma forgets_run:
  assumes "forgets cfg now row_number ms full" and "\<forall>x \<in> set xs. snd (snd x) = now"
  shows "dedup_spec cfg xs (ms, row_number) = dedup_spec cfg xs (full, row_number)
    \<and> (\<exists>ms' full'. dedup_state_after cfg xs (ms, row_number) = (ms', row_number + int (length xs))
      \<and> dedup_state_after cfg xs (full, row_number) = (full', row_number + int (length xs))
      \<and> forgets cfg now (row_number + int (length xs)) ms' full')"
  using assms
proof (induction xs arbitrary: row_number ms full)
  case (Cons x xs)
  obtain key e where x: "x = (key, e, now)" using Cons.prems(2) by (cases x) auto
  obtain keep ms1 r1 where v: "visit_row cfg now key (ms, row_number) = (keep, ms1, r1)"
    by (cases "visit_row cfg now key (ms, row_number)") auto
  obtain full1 where f: "visit_row cfg now key (full, row_number) = (keep, full1, row_number + 1)" "r1 = row_number + 1"
      "forgets cfg now (row_number + 1) ms1 full1"
    using visit_row_forgets [OF Cons.prems(1) v] by blast
  show ?case using Cons.IH [OF f(3)] Cons.prems(2) x v f(1,2) by (auto simp: add.assoc add.left_commute)
qed simp

lemma cleanup_forgets: "forgets cfg now row_number (cleanup_matches cfg now row_number ms) ms"
  by (auto simp: forgets_def cleanup_matches_def split: option.split)

lemma forgets_trans:
  "forgets cfg now row_number as bs \<Longrightarrow> forgets cfg now row_number bs cs \<Longrightarrow> forgets cfg now row_number as cs"
  unfolding forgets_def by metis

text \<open>The events with their keys and times, as far as the projection succeeds.\<close>

fun keyed_events ::
  "('r table_slice \<Rightarrow> 'r table_slice option) \<Rightarrow> ('r \<Rightarrow> 'k) \<Rightarrow> 'r dedup_tick list \<Rightarrow> ('k \<times> 'r \<times> int) list" where
  "keyed_events project key [] = []"
| "keyed_events project key (t # input) =
    (if ts_rows (dt_slice t) = 0 then keyed_events project key input
     else case project (dt_slice t) of
       None \<Rightarrow> []
     | Some projected \<Rightarrow>
         zip (map key (ts_events projected)) (map (\<lambda>e. (e, dt_now t)) (ts_events (dt_slice t)))
           @ keyed_events project key input)"

definition clock_ok :: "'r dedup_tick list \<Rightarrow> bool" where
  "clock_ok input \<longleftrightarrow> sorted_wrt (\<lambda>t u. dt_now t \<le> dt_now u \<and> dt_cleanup_time t \<le> dt_now u) input"

definition keeps_rows :: "('r table_slice \<Rightarrow> 'r table_slice option) \<Rightarrow> bool" where
  "keeps_rows project \<longleftrightarrow> (\<forall>s p. project s = Some p \<longrightarrow> ts_rows p = ts_rows s)"

lemma events_of_nonempty: "events_of (filter (\<lambda>y. ts_rows y > 0) ys) = events_of ys"
  using events_of_filter [of ys] by (simp del: ts_rows_0)

lemma dedup_loop_spec:
  assumes "keeps_rows project" and "\<not> dd_project_only cfg" and "clock_ok input"
    and "\<forall>t \<in> set input. forgets cfg (dt_now t) (ds_row_number st) (ds_matches st) full"
  shows "\<exists>ys. dedup_loop project key cfg input st = Some ys
    \<and> events_of ys = dedup_spec cfg (keyed_events project key input) (full, ds_row_number st)"
  using assms(3,4)
proof (induction input arbitrary: st full)
  case (Cons t input)
  let ?s = "dt_slice t"
  have clock: "clock_ok input" "\<forall>u \<in> set input. dt_now t \<le> dt_now u \<and> dt_cleanup_time t \<le> dt_now u"
    using Cons.prems(1) by (simp_all add: clock_ok_def)
  show ?case
  proof (cases "ts_rows ?s = 0")
    case True
    then show ?thesis using Cons.IH [OF clock(1), of st full] Cons.prems(2) by (auto simp: Let_def)
  next
    case False
    show ?thesis
    proof (cases "project ?s")
      case None
      then show ?thesis using False by simp
    next
      case (Some projected)
      let ?xs = "zip (map key (ts_events projected)) (map (\<lambda>e. (e, dt_now t)) (ts_events ?s))"
      have len: "length (map key (ts_events projected)) = ts_rows ?s" using assms(1) Some by (simp add: keeps_rows_def)
      obtain ys where ys: "dedup_rows cfg (dt_now t) ?s (map key (ts_events projected)) 0 0 (ds_matches st, ds_row_number st)
            = Some (ys, dedup_state_after cfg ?xs (ds_matches st, ds_row_number st))"
          "events_of ys = dedup_spec cfg ?xs (ds_matches st, ds_row_number st)"
        using dedup_rows_spec [of "map key (ts_events projected)" ?s 0 0 cfg "dt_now t" "(ds_matches st, ds_row_number st)"]
            len by auto
      have now: "\<forall>x \<in> set ?xs. snd (snd x) = dt_now t" by (auto dest!: set_zip_rightD)
      have f0: "forgets cfg (dt_now t) (ds_row_number st) (ds_matches st) full" using Cons.prems(2) by simp
      let ?r = "ds_row_number st + int (length ?xs)"
      obtain ms full1 where run: "dedup_spec cfg ?xs (ds_matches st, ds_row_number st) = dedup_spec cfg ?xs (full, ds_row_number st)"
          "dedup_state_after cfg ?xs (ds_matches st, ds_row_number st) = (ms, ?r)"
          "dedup_state_after cfg ?xs (full, ds_row_number st) = (full1, ?r)" "forgets cfg (dt_now t) ?r ms full1"
        using forgets_run [OF f0 now] by blast
      let ?st = "st\<lparr>ds_matches := ms, ds_row_number := ?r\<rparr>"
      let ?st' = "?st\<lparr>ds_matches := cleanup_matches cfg (dt_cleanup_time t) ?r ms,
        ds_last_cleanup_time := dt_check_time t, ds_last_cleanup_row := ?r\<rparr>"
      have later: "forgets cfg (dt_now u) ?r ms full1" if "u \<in> set input" for u
        using forgets_later [OF run(4)] clock(2) that by auto
      have clean: "forgets cfg (dt_now u) ?r (cleanup_matches cfg (dt_cleanup_time t) ?r ms) full1" if "u \<in> set input" for u
      proof -
        have "forgets cfg (dt_now u) ?r (cleanup_matches cfg (dt_cleanup_time t) ?r ms) ms"
          using forgets_later [OF cleanup_forgets] clock(2) that by blast
        then show ?thesis using later [OF that] by (rule forgets_trans)
      qed
      obtain z1 where z1: "dedup_loop project key cfg input ?st = Some z1"
          "events_of z1 = dedup_spec cfg (keyed_events project key input) (full1, ?r)"
        using Cons.IH [OF clock(1), of ?st full1] later by auto
      obtain z2 where z2: "dedup_loop project key cfg input ?st' = Some z2"
          "events_of z2 = dedup_spec cfg (keyed_events project key input) (full1, ?r)"
        using Cons.IH [OF clock(1), of ?st' full1] clean by auto
      have spec: "dedup_spec cfg (keyed_events project key (t # input)) (full, ds_row_number st)
          = events_of ys @ dedup_spec cfg (keyed_events project key input) (full1, ?r)"
        using False Some ys(2) run(1,3) by (simp add: dedup_spec_append)
      show ?thesis
      proof (cases "needs_cleanup cfg t ?st")
        case True
        then have "dedup_loop project key cfg (t # input) st = Some (filter (\<lambda>y. ts_rows y > 0) ys @ ts_new # z2)"
          using False Some assms(2) ys(1) run(2) z2(1) by (simp add: Let_def)
        then show ?thesis using spec z2(2) by (simp add: events_of_nonempty)
      next
        case no: False
        then have "dedup_loop project key cfg (t # input) st = Some (filter (\<lambda>y. ts_rows y > 0) ys @ z1)"
          using False Some assms(2) ys(1) run(2) z1(1) by (simp add: Let_def)
        then show ?thesis using spec z1(2) by (simp add: events_of_nonempty)
      qed
    qed
  qed
qed simp


section \<open>Without a timeout and a distance\<close>

text \<open>The first \<open>n\<close> events of every key; \<open>seen\<close> are the keys of the events before.\<close>

fun first_events :: "nat \<Rightarrow> 'k list \<Rightarrow> ('k \<times> 'r \<times> int) list \<Rightarrow> 'r list" where
  "first_events n seen [] = []"
| "first_events n seen ((key, e, now) # xs) =
    (if count_list seen key < n then (#) e else id) (first_events n (key # seen) xs)"

definition counts :: "nat \<Rightarrow> int \<Rightarrow> 'k list \<Rightarrow> 'k match_store \<Rightarrow> bool" where
  "counts n t0 seen ms \<longleftrightarrow> (\<forall>k. case ms k of
      None \<Rightarrow> count_list seen k = 0
    | Some m \<Rightarrow> mt_count m = int (min n (count_list seen k)) \<and> t0 \<le> mt_last_time m \<and> 0 \<le> mt_last_row_number m)"

lemma dedup_spec_first:
  assumes "dd_limit cfg = int n" and "counts n t0 seen ms" and "\<forall>(k, e, now) \<in> set xs. t0 \<le> now \<and> now - t0 \<le> dd_timeout cfg"
    and "0 \<le> row_number" and "row_number + int (length xs) \<le> dd_distance cfg"
  shows "dedup_spec cfg xs (ms, row_number) = first_events n seen xs"
  using assms(2-)
proof (induction xs arbitrary: seen ms row_number)
  case (Cons x xs)
  obtain key e now where x: "x = (key, e, now)" "t0 \<le> now" "now - t0 \<le> dd_timeout cfg"
    using Cons.prems(2) by (cases x) auto
  let ?m = "refresh_match cfg now row_number (case ms key of None \<Rightarrow> new_match now | Some m \<Rightarrow> m)"
  have m: "mt_count ?m = int (min n (count_list seen key))" "mt_last_time ?m = now" "mt_last_row_number ?m = row_number"
  proof -
    show "mt_last_time ?m = now" "mt_last_row_number ?m = row_number" by (simp_all add: refresh_match_def Let_def)
    show "mt_count ?m = int (min n (count_list seen key))"
    proof (cases "ms key")
      case None
      then have "count_list seen key = 0" using Cons.prems(1)[unfolded counts_def, THEN spec, of key] by simp
      then show ?thesis using None by (simp add: refresh_match_def new_match_def Let_def)
    next
      case (Some m)
      then have "mt_count m = int (min n (count_list seen key))" "t0 \<le> mt_last_time m" "0 \<le> mt_last_row_number m"
        using Cons.prems(1)[unfolded counts_def, THEN spec, of key] by simp_all
      then show ?thesis using Some x Cons.prems(4) by (simp add: refresh_match_def Let_def)
    qed
  qed
  have next_counts: "counts n t0 (key # seen) (ms(key \<mapsto> m'))"
    if "mt_count m' = int (min n (Suc (count_list seen key)))" "mt_last_time m' = now" "mt_last_row_number m' = row_number" for m'
    unfolding counts_def
  proof
    fix k
    show "case (ms(key \<mapsto> m')) k of None \<Rightarrow> count_list (key # seen) k = 0
        | Some m \<Rightarrow> mt_count m = int (min n (count_list (key # seen) k)) \<and> t0 \<le> mt_last_time m \<and> 0 \<le> mt_last_row_number m"
      using Cons.prems(1)[unfolded counts_def, THEN spec, of k] Cons.prems(3) x(2) that by (cases "key = k") (simp_all split: option.splits)
  qed
  show ?case
  proof (cases "count_list seen key < n")
    case True
    let ?m' = "?m\<lparr>mt_count := mt_count ?m + 1\<rparr>"
    have visit: "visit_row cfg now key (ms, row_number) = (True, ms(key \<mapsto> ?m'), row_number + 1)"
      using True m(1) assms(1) by (simp add: visit_row_def Let_def)
    have "counts n t0 (key # seen) (ms(key \<mapsto> ?m'))"
      by (rule next_counts) (use True m in simp_all)
    then have "dedup_spec cfg xs (ms(key \<mapsto> ?m'), row_number + 1) = first_events n (key # seen) xs"
      by (rule Cons.IH) (use Cons.prems in simp_all)
    then show ?thesis using True by (simp add: x(1) visit del: fun_upd_apply)
  next
    case False
    have visit: "visit_row cfg now key (ms, row_number) = (False, ms(key \<mapsto> ?m), row_number + 1)"
      using False m(1) assms(1) by (simp add: visit_row_def Let_def)
    have "counts n t0 (key # seen) (ms(key \<mapsto> ?m))"
      by (rule next_counts) (use False m in simp_all)
    then have "dedup_spec cfg xs (ms(key \<mapsto> ?m), row_number + 1) = first_events n (key # seen) xs"
      by (rule Cons.IH) (use Cons.prems in simp_all)
    then show ?thesis using False by (simp add: x(1) visit del: fun_upd_apply)
  qed
qed simp

end
