(* ===== verification/Pipeline_Properties.thy ===== *)
theory Pipeline_Properties
  imports Evaluate Slice_Operator Batch_Operator Deduplicate
begin

text \<open>
  What queries on table slices and the operators on streams of slices promise: one theorem per operation or
  group of operations, each with its application to a concrete input.
\<close>

section \<open>Samples for the witnesses\<close>

definition sample_events :: "row table_slice" where
  "sample_events = ts_make [[Int64 1], [Null], [Int64 2]] (Enriched_type (Record_type [(''a'', Int64_type)]) ''s'' [])"

definition query_env :: eval_env where
  "query_env = \<lparr>ev_compare = (\<lambda>op c d. op = Equal \<and> c = View d), ev_fingerprint = (\<lambda>t. [])\<rparr>"

definition field_query :: "int \<Rightarrow> expression" where
  "field_query i = Predicate \<lparr>pred_lhs = Field_extractor ''a'', pred_op = Equal, pred_rhs = Data (Int64 i)\<rparr>"

definition numbers :: "nat list \<Rightarrow> nat table_slice" where
  "numbers xs = ts_make xs (Enriched_type (Record_type [(''n'', UInt64_type)]) ''s'' [])"

lemma numbers_simps [simp]: "ts_events (numbers xs) = xs" "ts_rows (numbers xs) = length xs"
  using length_events [of "numbers xs"] by (simp_all add: numbers_def del: length_events)

section \<open>Queries on slices\<close>



lemma sample_events_simps:
  "as_record (ts_schema sample_events) = Some [(''a'', Int64_type)]"
  "slice_offset sample_events + ts_rows sample_events < npos"
  "filter (query_holds query_env sample_events [(''a'', Int64_type)] (field_query 2)) (ts_events sample_events)
    = [[Int64 2]]"
proof -
  show "as_record (ts_schema sample_events) = Some [(''a'', Int64_type)]" by code_simp
  have "slice_offset sample_events + ts_rows sample_events = 3" by code_simp
  then show "slice_offset sample_events + ts_rows sample_events < npos" by (simp add: npos_def)
  show "filter (query_holds query_env sample_events [(''a'', Int64_type)] (field_query 2)) (ts_events sample_events)
    = [[Int64 2]]" by code_simp
qed







text \<open>C28: counting tailors the query to the schema and then evaluates the query as it was given; for a predicate
  on a field that the slice has, this is an assertion.\<close>

theorem count_matching_panics:
  assumes "tailor (Predicate p) (ts_schema s) = Some (Some te)" and "pred_lhs p = Field_extractor key" and "ts_rows s \<noteq> 0"
  shows "count_matching env s (Predicate p) hints = None"
proof -
  have "evaluate_predicate env s offset p selection = None" for offset selection
    using assms(2) by (simp add: evaluate_predicate_def)
  then have "evaluate_slice env (Predicate p) s hints = None"
    by (auto simp: evaluate_slice_def Let_def require_def intro!: Option.bind_cong [of _ _ _ "\<lambda>_. None", THEN trans])
  then show ?thesis using assms(1,3) by (simp add: count_matching_def Let_def)
qed

theorem count_matching_panics_witness: "count_matching query_env sample_events (field_query 2) any_new = None"
proof -
  let ?p = "\<lparr>pred_lhs = Field_extractor ''a'', pred_op = Equal, pred_rhs = Data (Int64 2)\<rparr>"
  have "tailor (Predicate ?p) (ts_schema sample_events)
      = Some (Some (Predicate \<lparr>pred_lhs = Data_extractor Int64_type 0, pred_op = Equal, pred_rhs = Data (Int64 2)\<rparr>))"
    by code_simp
  moreover have "ts_rows sample_events \<noteq> 0" by code_simp
  ultimately show ?thesis
    using count_matching_panics [of ?p sample_events _ "''a''" query_env any_new] by (simp add: field_query_def)
qed

text \<open>C29: pushing a negation into a predicate changes what it says of missing values: no predicate but the
  comparison with null holds for them, so the negation holds, but the predicate with the negated operator does not.
  The evaluation of a slice sets the bit of such a row for the one and not for the other.\<close>

theorem negation_on_null:
  assumes "pred_lhs p = Data_extractor t c" and "pred_rhs p = Data d" and "d \<noteq> Null" and "r ! c = Null"
  shows "expr_holds (row_predicate env s fs r) (Negation (Predicate p))
    \<and> \<not> expr_holds (row_predicate env s fs r) (normalize (Negation (Predicate p)))
    \<and> (\<forall>i. as_record (ts_schema s) = Some fs \<and> slice_offset s + ts_rows s < npos \<and> c < num_leaves fs
          \<and> i < ts_rows s \<and> ts_events s ! i = r \<longrightarrow>
        (\<exists>x y. evaluate_slice env (Negation (Predicate p)) s any_new = Some x \<and> any_list x ! (slice_offset s + i)
          \<and> evaluate_slice env (normalize (Negation (Predicate p))) s any_new = Some y \<and> \<not> any_list y ! (slice_offset s + i)))"
proof (intro conjI allI impI)
  have "align_predicate p = p" using assms(1) by (simp add: align_predicate_def is_extractor_def)
  then have n: "normalize (Negation (Predicate p)) = Predicate (p\<lparr>pred_op := negate (pred_op p)\<rparr>)"
    by (simp add: normalize_def)
  show rows: "expr_holds (row_predicate env s fs r) (Negation (Predicate p))"
    "\<not> expr_holds (row_predicate env s fs r) (normalize (Negation (Predicate p)))"
    using assms by (simp_all add: n row_predicate_def value_holds_def)
  fix i
  assume i: "as_record (ts_schema s) = Some fs \<and> slice_offset s + ts_rows s < npos \<and> c < num_leaves fs
    \<and> i < ts_rows s \<and> ts_events s ! i = r"
  have bit: "\<exists>x. evaluate_slice env e s any_new = Some x \<and> any_list x ! (slice_offset s + i) = expr_holds (row_predicate env s fs r) e"
    if "bound_expression fs e" for e
  proof -
    have new: "ids_inv any_new" "any_list any_new = []" using denotes_new by (auto simp: denotes_def)
    moreover have pos: "0 < npos" using i by (auto simp: npos_def)
    ultimately have "hinted any_new j" for j using denotes_size(2) [OF denotes_new] by (simp add: hinted_def)
    then show ?thesis
      using evaluate_slice_spec [of s fs e any_new env] that i new pos by (auto simp: denotes_def row_holds_def)
  qed
  have "bound_expression fs (Negation (Predicate p))" "bound_expression fs (normalize (Negation (Predicate p)))"
    using i assms(1,2) by (simp_all add: n)
  from bit [OF this(1)] bit [OF this(2)] rows
  show "\<exists>x y. evaluate_slice env (Negation (Predicate p)) s any_new = Some x \<and> any_list x ! (slice_offset s + i)
    \<and> evaluate_slice env (normalize (Negation (Predicate p))) s any_new = Some y \<and> \<not> any_list y ! (slice_offset s + i)"
    by blast
qed

theorem negation_on_null_witness:
  "\<exists>x y. evaluate_slice query_env (Negation (Predicate \<lparr>pred_lhs = Data_extractor Int64_type 0, pred_op = Equal, pred_rhs = Data (Int64 2)\<rparr>))
      sample_events any_new = Some x \<and> any_list x ! (slice_offset sample_events + 1)
    \<and> evaluate_slice query_env (normalize (Negation (Predicate \<lparr>pred_lhs = Data_extractor Int64_type 0, pred_op = Equal,
        pred_rhs = Data (Int64 2)\<rparr>))) sample_events any_new = Some y \<and> \<not> any_list y ! (slice_offset sample_events + 1)"
proof -
  have "num_leaves [(''a'', Int64_type)] = 1" "1 < ts_rows sample_events" "ts_events sample_events ! 1 = [Null]" by code_simp+
  then show ?thesis
    by (intro negation_on_null [of _ Int64_type 0 "Int64 2" "[Null]" query_env sample_events "[(''a'', Int64_type)]",
          THEN conjunct2, THEN conjunct2, rule_format])
      (use sample_events_simps(1,2) in simp_all)
qed

section \<open>Operators on streams of slices\<close>

text \<open>C10: unless its begin counts from the back and its end from the front, and with a stride of 1, -1, 2 or -2,
  \<open>slice\<close> never fails and keeps the events from its begin to its end, of these every other one or all, in their order or
  the reverse, however the events are cut into slices.\<close>

theorem slice_operator_correct:
  assumes "\<not> mixed_range x" and "\<bar>value_or (sl_stride x) 1\<bar> \<in> {1, 2}"
  shows "\<exists>ys. run_slice x ss = Some ys
    \<and> events_of ys = stride_spec (value_or (sl_stride x) 1) (range_spec (sl_begin x) (sl_end x) (events_of ss))"
proof -
  obtain ys where ys: "slice_range x ss = Some ys" "events_of ys = range_spec (sl_begin x) (sl_end x) (events_of ss)"
    using slice_range_spec [OF assms(1)] by blast
  have "value_or (sl_stride x) 1 \<noteq> 0" using assms(2) by auto
  then show ?thesis using slice_stride_spec [OF refl _ even_batches_parts [OF assms(2), of ys]] ys by (simp add: run_slice_def)
qed

theorem slice_operator_correct_witness:
  "\<exists>ys. run_slice \<lparr>sl_begin = Some 1, sl_end = Some (- 1), sl_stride = Some (- 2)\<rparr> [numbers [1, 2, 3], numbers [4, 5, 6]] = Some ys
    \<and> events_of ys = [5, 3]"
proof -
  have "range_spec (Some 1) (Some (- 1)) [1, 2, 3, 4, 5, 6 :: nat] = [2, 3, 4, 5]" by code_simp
  moreover have "stride_spec (- 2) [2, 3, 4, 5 :: nat] = [5, 3]"
    by (simp add: stride_spec_def every_def nths_map_nth upt_rec)
  ultimately show ?thesis
    using slice_operator_correct [of "\<lparr>sl_begin = Some 1, sl_end = Some (- 1), sl_stride = Some (- 2)\<rparr>"
        "[numbers [1, 2, 3], numbers [4, 5, 6]]"]
    by (simp add: mixed_range_def value_or_def)
qed

text \<open>C30: with a stride \<open>k\<close> of three or more the events that \<open>slice\<close> keeps depend on how they are cut into slices. Of a
  slice with one row, followed by a slice with \<open>k\<close> rows, it keeps the first row and then the second of the \<open>k\<close> rows; of
  the same events in one slice it keeps the first row and the last.\<close>

theorem slice_depends_on_batches:
  assumes "3 \<le> k" and "ts_events s = [x]" and "ts_events t = ys" and "length ys = k" and "ts_events u = x # ys"
    and "op = \<lparr>sl_begin = None, sl_end = None, sl_stride = Some (int k)\<rparr>"
  shows "map_option events_of (run_slice op [s, t]) = Some [x, ys ! 1]
    \<and> map_option events_of (run_slice op [u]) = Some [x, ys ! (k - 1)]"
proof -
  have rows: "ts_rows s = 1" "ts_rows t = k" "ts_rows u = Suc k"
    using assms length_events [of s] length_events [of t] length_events [of u] by simp_all
  have "stride_from 0 1 k = [0]" "stride_from 1 k k = [1]" "stride_from 0 (Suc k) k = [0, k]"
    using assms(1) by (simp_all add: stride_from.simps)
  moreover have "(x # ys) ! k = ys ! (k - 1)" using assms(1) by (cases k) simp_all
  ultimately show ?thesis
    using assms rows by (simp add: run_slice_def slice_range_def slice_stride_def value_or_def positive_stride_def require_def
        take_rows_events)
qed

theorem slice_depends_on_batches_witness:
  "map_option events_of (run_slice \<lparr>sl_begin = None, sl_end = None, sl_stride = Some 3\<rparr> [numbers [0], numbers [1, 2, 3]])
      = Some [0, 2]
    \<and> map_option events_of (run_slice \<lparr>sl_begin = None, sl_end = None, sl_stride = Some 3\<rparr> [numbers [0, 1, 2, 3]])
      = Some [0, 3]"
  using slice_depends_on_batches [of 3 "numbers [0]" 0 "numbers [1, 2, 3]" "[1, 2, 3]" "numbers [0, 1, 2, 3]"] by simp

text \<open>C31: with a begin that counts from the back and an end that counts from the front \<open>slice\<close> only looks at the
  first slice that is not empty.\<close>

theorem slice_looks_at_first_batch:
  assumes "sl_begin x = Some lo" and "lo < 0" and "sl_end x = Some hi" and "0 \<le> hi" and "sl_stride x = None"
  shows "\<exists>ys. run_slice x ss = Some ys \<and> events_of ys = range_spec (Some lo) (Some hi) (first_batch ss)"
  using slice_range_mixed [OF assms(1-4), of ss] assms(5) by (auto simp: run_slice_def slice_stride_def value_or_def)

theorem slice_looks_at_first_batch_witness:
  "\<exists>ys. run_slice \<lparr>sl_begin = Some (- 3), sl_end = Some 2, sl_stride = None\<rparr> [numbers [1, 2], numbers [3, 4]] = Some ys
    \<and> events_of ys = [1, 2] \<and> range_spec (Some (- 3)) (Some 2) (events_of [numbers [1, 2], numbers [3, 4]]) = [2]"
proof -
  have "range_spec (Some (- 3)) (Some 2) [1, 2 :: nat] = [1, 2]" "range_spec (Some (- 3)) (Some 2) [1, 2, 3, 4 :: nat] = [2]"
    by code_simp+
  then show ?thesis
    using slice_looks_at_first_batch [of "\<lparr>sl_begin = Some (- 3), sl_end = Some 2, sl_stride = None\<rparr>" "- 3" 2
        "[numbers [1, 2], numbers [3, 4]]"]
    by (simp add: first_batch_def)
qed

text \<open>C11: \<open>batch\<close> with a positive limit always returns; it yields no slice above the limit, keeps the order of the
  events of every schema, and keeps the order of all events if it has to.\<close>

theorem batch_correct:
  assumes "0 < bo_limit op" and "sorts_buffers f"
  shows "\<exists>ys. run_batch f op input = Some ys \<and> batch_sizes (bo_limit op) ys
    \<and> (\<forall>t. events_with t ys = events_with t (map fst input))
    \<and> (bo_ordered op \<longrightarrow> events_of ys = events_of (map fst input))"
  using batch_loop_spec [OF _ assms, of "[]" input] by (simp add: run_batch_def buffers_ok_def)

theorem batch_correct_witness:
  "\<exists>ys. run_batch (sort_key be_last_yield) \<lparr>bo_limit = 2, bo_timeout = 10, bo_ordered = True\<rparr>
      [(numbers [1, 2, 3], 0, 0), (numbers [4], 20, 20)] = Some ys
    \<and> batch_sizes 2 ys \<and> events_of ys = [1, 2, 3, 4]"
proof -
  have "sorts_buffers (sort_key be_last_yield)" by (simp add: sorts_buffers_def)
  then show ?thesis
    using batch_correct [of "\<lparr>bo_limit = 2, bo_timeout = 10, bo_ordered = True\<rparr>" "sort_key be_last_yield"
        "[(numbers [1, 2, 3], 0, 0), (numbers [4], 20, 20)]"] by auto
qed

text \<open>C12: \<open>deduplicate\<close> yields what deciding event by event would, without ever erasing a match: the cleanup is
  invisible, and cutting a slice at the dropped events loses nothing.\<close>

theorem deduplicate_correct:
  assumes "keeps_rows project" and "\<not> dd_project_only cfg" and "clock_ok input"
  shows "\<exists>ys. run_deduplicate project key cfg start_time input = Some ys
    \<and> events_of ys = dedup_spec cfg (keyed_events project key input) (Map.empty, 0)"
  using dedup_loop_spec [OF assms, of "\<lparr>ds_matches = Map.empty, ds_row_number = 0, ds_last_cleanup_row = 0,
      ds_last_cleanup_time = start_time\<rparr>" Map.empty key]
  by (simp add: run_deduplicate_def forgets_def)

definition sample_ticks :: "nat dedup_tick list" where
  "sample_ticks = map (\<lambda>(xs, now). \<lparr>dt_slice = numbers xs, dt_now = now, dt_check_time = now, dt_cleanup_time = now,
     dt_many_projections = False\<rparr>) [([1, 1, 2], 0), ([1, 2], 5), ([1, 1], 20)]"

theorem deduplicate_correct_witness:
  "\<exists>ys. run_deduplicate Some id \<lparr>dd_limit = 1, dd_distance = 100, dd_timeout = 10, dd_project_only = False\<rparr> 0 sample_ticks
      = Some ys \<and> events_of ys = [1, 2, 1]"
proof -
  let ?cfg = "\<lparr>dd_limit = 1, dd_distance = 100, dd_timeout = 10, dd_project_only = False\<rparr>"
  have "dedup_spec ?cfg (keyed_events Some id sample_ticks) (Map.empty, 0) = [1, 2, 1]"
    by (simp add: sample_ticks_def visit_row_def refresh_match_def new_match_def)
  then show ?thesis
    using deduplicate_correct [of Some ?cfg sample_ticks id 0] by (simp add: keeps_rows_def clock_ok_def sample_ticks_def)
qed

lemma keyed_events_times: "(k, e, now) \<in> set (keyed_events project key input) \<Longrightarrow> \<exists>t \<in> set input. now = dt_now t"
  by (induction input) (auto split: if_splits option.splits dest: set_zip_rightD)

text \<open>C13: as long as the timeout and the distance do not strike, \<open>deduplicate\<close> yields the first events of every key,
  as many as its limit.\<close>

theorem deduplicate_first:
  assumes "keeps_rows project" and "\<not> dd_project_only cfg" and "clock_ok input" and "dd_limit cfg = int n"
    and "\<forall>t \<in> set input. t0 \<le> dt_now t \<and> dt_now t - t0 \<le> dd_timeout cfg"
    and "int (length (keyed_events project key input)) \<le> dd_distance cfg"
  shows "\<exists>ys. run_deduplicate project key cfg start_time input = Some ys
    \<and> events_of ys = first_events n [] (keyed_events project key input)"
proof -
  have "\<forall>(k, e, now) \<in> set (keyed_events project key input). t0 \<le> now \<and> now - t0 \<le> dd_timeout cfg"
    using assms(5) keyed_events_times [of _ _ _ project key input] by fastforce
  moreover have "counts n t0 [] Map.empty" by (simp add: counts_def)
  ultimately have "dedup_spec cfg (keyed_events project key input) (Map.empty, 0) = first_events n [] (keyed_events project key input)"
    by (intro dedup_spec_first [OF assms(4)]) (use assms(6) in simp_all)
  then show ?thesis
    using dedup_loop_spec [OF assms(1-3), of "\<lparr>ds_matches = Map.empty, ds_row_number = 0, ds_last_cleanup_row = 0,
        ds_last_cleanup_time = start_time\<rparr>" Map.empty key]
    by (simp add: run_deduplicate_def forgets_def)
qed

theorem deduplicate_first_witness:
  "\<exists>ys. run_deduplicate Some id \<lparr>dd_limit = 2, dd_distance = 100, dd_timeout = 100, dd_project_only = False\<rparr> 0 sample_ticks
      = Some ys \<and> events_of ys = [1, 1, 2, 2]"
proof -
  let ?cfg = "\<lparr>dd_limit = 2, dd_distance = 100, dd_timeout = 100, dd_project_only = False\<rparr>"
  have "keyed_events Some id sample_ticks = [(1, 1, 0), (1, 1, 0), (2, 2, 0), (1, 1, 5), (2, 2, 5), (1, 1, 20), (1, 1, 20)]"
    by (simp add: sample_ticks_def)
  then show ?thesis
    using deduplicate_first [of Some ?cfg sample_ticks 2 0 id 0] by (simp add: keeps_rows_def clock_ok_def sample_ticks_def)
qed

end
