(* ===== verification/Tokens.thy ===== *)
theory Tokens
  imports Prelude
begin

text \<open>
  The lexer of TQL (\<^verbatim>\<open>tql2/tokens.cpp\<close>) over the parser combinators of \<^verbatim>\<open>concept/parseable\<close>. A combinator without
  an attribute is a matcher: it answers the input that is left, or that there is no match; it may also not return,
  as the loop of a repetition does for a parser that succeeds without consuming. Alternatives are ordered, repetition
  is greedy, and a parser that fails leaves the input where it was. A character is a byte; the classes are those
  of the C locale, in which no byte above 127 is in any class.
\<close>

section \<open>Tokens\<close>

datatype (plugins only: code) token_kind =
    Tk_identifier | Tk_dollar_ident
  | Tk_this | Tk_if | Tk_else | Tk_match | Tk_not | Tk_and | Tk_or | Tk_underscore | Tk_let | Tk_in | Tk_meta
  | Tk_reserved_keyword
  | Tk_scalar | Tk_true | Tk_false | Tk_null | Tk_raw_string | Tk_string | Tk_ip | Tk_subnet | Tk_datetime
  | Tk_dot | Tk_dot_question_mark | Tk_plus | Tk_minus | Tk_slash | Tk_star | Tk_equal_equal | Tk_bang_equal
  | Tk_less | Tk_less_equal | Tk_greater | Tk_greater_equal | Tk_at | Tk_equal | Tk_comma | Tk_colon
  | Tk_single_quote | Tk_fat_arrow | Tk_pipe | Tk_dot_dot_dot | Tk_colon_colon
  | Tk_lpar | Tk_rpar | Tk_lbrace | Tk_rbrace | Tk_lbracket | Tk_rbracket
  | Tk_newline | Tk_whitespace
  | Tk_delim_comment | Tk_line_comment
  | Tk_error

record token =
  tok_kind :: token_kind
  tok_end :: nat

section \<open>Matchers\<close>

text \<open>\<open>None\<close> is a matcher that does not return, \<open>Some None\<close> one that does not match.\<close>

type_synonym matcher = "string \<Rightarrow> string option option"

fun m_char :: "(char \<Rightarrow> bool) \<Rightarrow> matcher" where
  "m_char P [] = Some None"
| "m_char P (c # s) = Some (if P c then Some s else None)"

fun m_lit :: "string \<Rightarrow> matcher" where
  "m_lit [] s = Some (Some s)"
| "m_lit (x # xs) s = (case s of [] \<Rightarrow> Some None | c # s \<Rightarrow> if c = x then m_lit xs s else Some None)"

definition m_seq :: "matcher \<Rightarrow> matcher \<Rightarrow> matcher" where
  "m_seq p q s = (case p s of None \<Rightarrow> None | Some None \<Rightarrow> Some None | Some (Some r) \<Rightarrow> q r)"

definition m_alt :: "matcher \<Rightarrow> matcher \<Rightarrow> matcher" where
  "m_alt p q s = (case p s of None \<Rightarrow> None | Some None \<Rightarrow> q s | Some (Some r) \<Rightarrow> Some (Some r))"

definition m_opt :: "matcher \<Rightarrow> matcher" where
  "m_opt p s = (case p s of None \<Rightarrow> None | Some None \<Rightarrow> Some (Some s) | Some (Some r) \<Rightarrow> Some (Some r))"

definition m_not :: "matcher \<Rightarrow> matcher" where
  "m_not p s = (case p s of None \<Rightarrow> None | Some None \<Rightarrow> Some (Some s) | Some (Some r) \<Rightarrow> Some None)"

definition m_diff :: "matcher \<Rightarrow> matcher \<Rightarrow> matcher" where
  "m_diff p q s = (case q s of None \<Rightarrow> None | Some None \<Rightarrow> p s | Some (Some r) \<Rightarrow> Some None)"

definition m_when :: "bool \<Rightarrow> matcher \<Rightarrow> matcher" where
  "m_when b p s = (if b then p s else Some None)"

text \<open>The loop of the repetition goes on as long as the parser succeeds, whether it consumes or not.\<close>

partial_function (option) m_many :: "matcher \<Rightarrow> matcher" where
  "m_many p s = (case p s of None \<Rightarrow> None | Some None \<Rightarrow> Some (Some s) | Some (Some r) \<Rightarrow> m_many p r)"

declare m_many.simps [code]

definition m_plus :: "matcher \<Rightarrow> matcher" where
  "m_plus p s = (case p s of None \<Rightarrow> None | Some None \<Rightarrow> Some None | Some (Some r) \<Rightarrow> m_many p r)"

fun m_choice :: "matcher list \<Rightarrow> matcher" where
  "m_choice [] s = Some None"
| "m_choice (p # ps) s = m_alt p (m_choice ps) s"

fun m_sequence :: "matcher list \<Rightarrow> matcher" where
  "m_sequence [] s = Some (Some s)"
| "m_sequence (p # ps) s = m_seq p (m_sequence ps) s"

section \<open>Character classes\<close>

definition in_range :: "nat \<Rightarrow> nat \<Rightarrow> char \<Rightarrow> bool" where
  "in_range a b c \<longleftrightarrow> a \<le> of_char c \<and> of_char c \<le> b"

definition c_digit :: "char \<Rightarrow> bool" where
  "c_digit c \<longleftrightarrow> in_range 48 57 c"

definition c_alpha :: "char \<Rightarrow> bool" where
  "c_alpha c \<longleftrightarrow> in_range 65 90 c \<or> in_range 97 122 c"

definition c_alnum :: "char \<Rightarrow> bool" where
  "c_alnum c \<longleftrightarrow> c_alpha c \<or> c_digit c"

definition c_xdigit :: "char \<Rightarrow> bool" where
  "c_xdigit c \<longleftrightarrow> c_digit c \<or> in_range 65 70 c \<or> in_range 97 102 c"

definition c_space :: "char \<Rightarrow> bool" where
  "c_space c \<longleftrightarrow> in_range 9 13 c \<or> c = CHR '' ''"

abbreviation newline_char :: char where
  "newline_char \<equiv> CHR 0x0A"

abbreviation quote_char :: char where
  "quote_char \<equiv> CHR 0x22"

abbreviation backslash_char :: char where
  "backslash_char \<equiv> CHR 0x5C"

section \<open>The tokens' parsers\<close>

definition is_continue_ident :: "char \<Rightarrow> bool" where
  "is_continue_ident c \<longleftrightarrow> c_alnum c \<or> c = CHR ''_''"

definition is_start_ident :: "char \<Rightarrow> bool" where
  "is_start_ident c \<longleftrightarrow> c_alpha c \<or> c = CHR ''_''"

definition m_any :: matcher where
  "m_any = m_char (\<lambda>_. True)"

definition m_is :: "char \<Rightarrow> matcher" where
  "m_is c = m_char (\<lambda>d. d = c)"

definition m_identifier :: matcher where
  "m_identifier = m_seq (m_char is_start_ident) (m_many (m_char is_continue_ident))"

definition m_digits :: matcher where
  "m_digits = m_plus (m_char c_digit)"

definition m_digit_us :: matcher where
  "m_digit_us = m_many (m_char (\<lambda>c. c_digit c \<or> c = CHR ''_''))"

definition m_ipv4 :: matcher where
  "m_ipv4 = m_sequence [m_digits, m_is CHR ''.'', m_digits, m_plus (m_seq (m_is CHR ''.'') m_digits)]"

definition m_ipv6 :: matcher where
  "m_ipv6 = (let xdigits = m_many (m_char c_xdigit) in
    m_sequence [xdigits, m_is CHR '':'', xdigits, m_is CHR '':'', xdigits,
      m_many (m_alt (m_seq (m_is CHR ''.'') m_digits) (m_seq (m_is CHR '':'') xdigits))])"

definition m_ip :: "bool \<Rightarrow> matcher" where
  "m_ip ipv6_enabled = m_alt m_ipv4 (m_when ipv6_enabled m_ipv6)"

definition m_datetime :: matcher where
  "m_datetime = m_sequence [m_digits, m_is CHR ''-'', m_digits, m_is CHR ''-'', m_digits,
    m_many (m_char (\<lambda>c. c_alnum c \<or> c = CHR '':'' \<or> c = CHR ''+'' \<or> c = CHR ''-'')),
    m_opt (m_seq (m_is CHR ''.'') m_digits),
    m_opt (m_alt (m_is CHR ''Z'') (m_seq (m_char (\<lambda>c. c = CHR ''+'' \<or> c = CHR ''-'')) m_digits))]"

definition m_scalar :: matcher where
  "m_scalar = m_sequence [m_char c_digit, m_digit_us,
    m_opt (m_sequence [m_is CHR ''.'', m_char c_digit, m_digit_us]), m_opt m_identifier]"

definition m_string_body :: matcher where
  "m_string_body = m_many (m_alt (m_seq (m_is backslash_char) m_any) (m_diff m_any (m_is quote_char)))"

definition m_until :: "string \<Rightarrow> matcher" where
  "m_until stop = m_many (m_diff m_any (m_lit stop))"

definition m_spaces :: matcher where
  "m_spaces = m_char (\<lambda>c. c_space c \<and> c \<noteq> newline_char)"

definition m_whitespace :: "bool \<Rightarrow> matcher" where
  "m_whitespace at_start = m_alt
    (m_plus (m_alt m_spaces (m_sequence [m_is backslash_char, m_many m_spaces, m_is newline_char])))
    (m_when at_start (m_seq (m_lit ''#!'') (m_until [newline_char])))"

definition m_keyword :: "string \<Rightarrow> matcher" where
  "m_keyword k = m_seq (m_lit k) (m_not (m_char is_continue_ident))"

definition punctuation :: "(string \<times> token_kind) list" where
  "punctuation =
    [(''=>'', Tk_fat_arrow), (''=='', Tk_equal_equal), (''!='', Tk_bang_equal), (''>='', Tk_greater_equal),
     (''<='', Tk_less_equal), (''>'', Tk_greater), (''<'', Tk_less), (''+'', Tk_plus), (''-'', Tk_minus),
     (''*'', Tk_star), (''/'', Tk_slash), (''='', Tk_equal), (''|'', Tk_pipe), (''...'', Tk_dot_dot_dot),
     (''.?'', Tk_dot_question_mark), (''.'', Tk_dot), (''('', Tk_lpar), ('')'', Tk_rpar), (''{'', Tk_lbrace),
     (''}'', Tk_rbrace), (''['', Tk_lbracket), ('']'', Tk_rbracket), ('','', Tk_comma), (''::'', Tk_colon_colon),
     ('':'', Tk_colon), ([CHR 0x27], Tk_single_quote), ([newline_char], Tk_newline)]"

definition keyword_tokens :: "(string \<times> token_kind) list" where
  "keyword_tokens =
    [(''and'', Tk_and), (''else'', Tk_else), (''false'', Tk_false), (''if'', Tk_if), (''in'', Tk_in),
     (''let'', Tk_let), (''match'', Tk_match), (''meta'', Tk_meta), (''not'', Tk_not), (''null'', Tk_null),
     (''or'', Tk_or), (''this'', Tk_this), (''true'', Tk_true)]"

definition reserved_words :: "string list" where
  "reserved_words = [''self'', ''is'', ''as'', ''use'', ''return'', ''def'', ''function'', ''fn'', ''meta'',
     ''super'', ''for'', ''while'', ''mod'', ''module'']"

text \<open>The alternatives in the order in which they are tried. The reserved words are one parser: the test
  after the word does not go back to a longer one.\<close>

definition token_parsers :: "bool \<Rightarrow> bool \<Rightarrow> (matcher \<times> token_kind) list" where
  "token_parsers ipv6_enabled at_start =
    [(m_sequence [m_ip ipv6_enabled, m_lit ''/'', m_many (m_char c_digit)], Tk_subnet),
     (m_ip ipv6_enabled, Tk_ip),
     (m_datetime, Tk_datetime),
     (m_scalar, Tk_scalar),
     (m_sequence [m_is quote_char, m_string_body, m_is quote_char], Tk_string),
     (m_seq (m_is quote_char) m_string_body, Tk_error),
     (m_sequence [m_lit [CHR ''r'', quote_char], m_until [quote_char], m_is quote_char], Tk_raw_string),
     (m_seq (m_lit [CHR ''r'', quote_char]) (m_until [quote_char]), Tk_error),
     (m_sequence [m_lit [CHR ''r'', CHR ''#'', quote_char], m_until [quote_char, CHR ''#''],
        m_lit [quote_char, CHR ''#'']], Tk_raw_string),
     (m_seq (m_lit [CHR ''r'', CHR ''#'', quote_char]) (m_until [quote_char, CHR ''#'']), Tk_error),
     (m_seq (m_lit ''//'') (m_until [newline_char]), Tk_line_comment),
     (m_sequence [m_lit ''/*'', m_until ''*/'', m_lit ''*/''], Tk_delim_comment),
     (m_seq (m_lit ''/*'') (m_until ''*/''), Tk_error),
     (m_is CHR ''@'', Tk_at)]
    @ map (\<lambda>(x, k). (m_lit x, k)) punctuation
    @ map (\<lambda>(x, k). (m_keyword x, k)) keyword_tokens
    @ [(m_seq (m_choice (map m_lit reserved_words)) (m_not (m_char is_continue_ident)), Tk_reserved_keyword),
       (m_seq (m_is CHR ''$'') m_identifier, Tk_dollar_ident),
       (m_seq (m_is CHR ''_'') (m_not (m_char is_continue_ident)), Tk_underscore),
       (m_identifier, Tk_identifier),
       (m_whitespace at_start, Tk_whitespace)]"

fun first_match :: "(matcher \<times> token_kind) list \<Rightarrow> string \<Rightarrow> (token_kind \<times> string) option option" where
  "first_match [] s = Some None"
| "first_match ((p, k) # ps) s =
    (case p s of None \<Rightarrow> None | Some None \<Rightarrow> first_match ps s | Some (Some r) \<Rightarrow> Some (Some (k, r)))"

definition parse_token :: "bool \<Rightarrow> bool \<Rightarrow> string \<Rightarrow> (token_kind \<times> string) option option" where
  "parse_token ipv6_enabled at_start s = first_match (token_parsers ipv6_enabled at_start) s"


section \<open>Every token consumes input\<close>

text \<open>A matcher is a parser if it returns and what it leaves is a rest of its input, and consumes if it is a
  proper one.\<close>

definition is_suffix :: "string \<Rightarrow> string \<Rightarrow> bool" where
  "is_suffix r s \<longleftrightarrow> (\<exists>t. s = t @ r)"

definition matches :: "matcher \<Rightarrow> bool" where
  "matches p \<longleftrightarrow> (\<forall>s. p s \<noteq> None \<and> (\<forall>r. p s = Some (Some r) \<longrightarrow> is_suffix r s))"

definition consumes :: "matcher \<Rightarrow> bool" where
  "consumes p \<longleftrightarrow> (\<forall>s. p s \<noteq> None \<and> (\<forall>r. p s = Some (Some r) \<longrightarrow> is_suffix r s \<and> length r < length s))"

named_theorems matcher_intros

lemma is_suffix_refl [simp]: "is_suffix s s"
  by (simp add: is_suffix_def)

lemma is_suffix_Cons [simp]: "is_suffix s (c # s)"
  by (simp add: is_suffix_def)

lemma is_suffix_trans: "is_suffix r s \<Longrightarrow> is_suffix s t \<Longrightarrow> is_suffix r t"
  by (auto simp: is_suffix_def)

lemma is_suffix_length: "is_suffix r s \<Longrightarrow> length r \<le> length s"
  by (auto simp: is_suffix_def)

lemma matchesE:
  assumes "matches p"
  obtains "p s = Some None" | r where "p s = Some (Some r)" "is_suffix r s" "length r \<le> length s"
  using assms is_suffix_length [of _ s] unfolding matches_def by (cases "p s"; cases "the (p s)") auto

lemma consumesE:
  assumes "consumes p"
  obtains "p s = Some None" | r where "p s = Some (Some r)" "is_suffix r s" "length r < length s"
  using assms unfolding consumes_def by (cases "p s"; cases "the (p s)") auto

lemma consumes_matches: "consumes p \<Longrightarrow> matches p"
  unfolding consumes_def matches_def by blast

lemma m_char_consumes [matcher_intros]: "consumes (m_char P)"
proof -
  have "m_char P s \<noteq> None \<and> (\<forall>r. m_char P s = Some (Some r) \<longrightarrow> is_suffix r s \<and> length r < length s)" for s
    by (cases s) auto
  then show ?thesis unfolding consumes_def by blast
qed

lemma m_char_matches [matcher_intros]: "matches (m_char P)"
  by (rule consumes_matches [OF m_char_consumes])

lemma m_lit_returns: "m_lit x s \<noteq> None"
  by (induction x arbitrary: s) (auto split: list.splits)

lemma m_lit_rest: "m_lit x s = Some (Some r) \<Longrightarrow> s = x @ r"
  by (induction x arbitrary: s) (auto split: list.splits if_splits)

lemma m_lit_matches [matcher_intros]: "matches (m_lit x)"
  unfolding matches_def is_suffix_def using m_lit_returns m_lit_rest by blast

lemma m_lit_Cons_consumes [matcher_intros]: "consumes (m_lit (c # x))"
  unfolding consumes_def is_suffix_def using m_lit_returns [of "c # x"] m_lit_rest [of "c # x"] by fastforce

lemma m_seq_returns: "m_seq p q s \<noteq> None \<longleftrightarrow> p s \<noteq> None \<and> (\<forall>t. p s = Some (Some t) \<longrightarrow> q t \<noteq> None)"
  by (auto simp: m_seq_def split: option.splits)

lemma m_seq_rest: "m_seq p q s = Some (Some r) \<longleftrightarrow> (\<exists>t. p s = Some (Some t) \<and> q t = Some (Some r))"
  by (auto simp: m_seq_def split: option.splits)

lemma m_seq_matches [matcher_intros]: "matches p \<Longrightarrow> matches q \<Longrightarrow> matches (m_seq p q)"
  unfolding matches_def m_seq_returns m_seq_rest by (meson is_suffix_trans)

lemma m_seq_consumes [matcher_intros]: "consumes p \<Longrightarrow> matches q \<Longrightarrow> consumes (m_seq p q)"
  unfolding matches_def consumes_def m_seq_returns m_seq_rest by (meson is_suffix_trans is_suffix_length le_less_trans)

lemma m_seq_consumes_right: "matches p \<Longrightarrow> consumes q \<Longrightarrow> consumes (m_seq p q)"
  unfolding matches_def consumes_def m_seq_returns m_seq_rest by (meson is_suffix_trans is_suffix_length less_le_trans)

lemma m_alt_matches [matcher_intros]: "matches p \<Longrightarrow> matches q \<Longrightarrow> matches (m_alt p q)"
  by (auto simp: matches_def m_alt_def split: option.splits)

lemma m_alt_consumes [matcher_intros]: "consumes p \<Longrightarrow> consumes q \<Longrightarrow> consumes (m_alt p q)"
  by (auto simp: consumes_def m_alt_def split: option.splits)

lemma m_opt_matches [matcher_intros]: "matches p \<Longrightarrow> matches (m_opt p)"
  by (auto simp: matches_def m_opt_def split: option.splits)

lemma m_not_matches [matcher_intros]: "matches p \<Longrightarrow> matches (m_not p)"
  by (auto simp: matches_def m_not_def split: option.splits)

lemma m_diff_matches [matcher_intros]: "matches p \<Longrightarrow> matches q \<Longrightarrow> matches (m_diff p q)"
  by (auto simp: matches_def m_diff_def split: option.splits)

lemma m_diff_consumes [matcher_intros]: "consumes p \<Longrightarrow> matches q \<Longrightarrow> consumes (m_diff p q)"
  by (auto simp: consumes_def matches_def m_diff_def split: option.splits)

lemma m_when_consumes [matcher_intros]: "consumes p \<Longrightarrow> consumes (m_when b p)"
  by (auto simp: consumes_def m_when_def)

text \<open>A repetition returns because the parser that it repeats consumes.\<close>

lemma m_many_matches [matcher_intros]:
  assumes p: "consumes p"
  shows "matches (m_many p)"
proof -
  have "m_many p s \<noteq> None \<and> (\<forall>r. m_many p s = Some (Some r) \<longrightarrow> is_suffix r s)" for s
  proof (induction s rule: length_induct)
    case (1 s)
    show ?case
      by (rule consumesE [OF p, of s]; use 1 in \<open>auto simp: m_many.simps [of p s] intro: is_suffix_trans\<close>)
  qed
  then show ?thesis by (simp add: matches_def)
qed

text \<open>A repetition of a parser that succeeds without consuming does not return.\<close>

lemma m_many_stuck:
  assumes "p s = Some (Some s)"
  shows "m_many p s = None"
proof -
  have "\<not> (q = p \<and> t = s)" if "m_many q t = Some y" for q t y
    by (rule m_many.raw_induct [OF _ that, where P = "\<lambda>q t y. \<not> (q = p \<and> t = s)"]) (use assms in fastforce)
  then show ?thesis by (cases "m_many p s") blast+
qed

lemma m_plus_consumes [matcher_intros]: "consumes p \<Longrightarrow> consumes (m_plus p)"
  using m_seq_consumes [OF _ m_many_matches, of p p] by (simp add: m_seq_def m_plus_def consumes_def)

lemma m_sequence_matches [matcher_intros]:
  "matches (m_sequence [])" "matches p \<Longrightarrow> matches (m_sequence ps) \<Longrightarrow> matches (m_sequence (p # ps))"
  using m_seq_matches [of p "m_sequence ps"] by (simp_all add: matches_def)

lemma m_sequence_consumes [matcher_intros]:
  "consumes p \<Longrightarrow> matches (m_sequence ps) \<Longrightarrow> consumes (m_sequence (p # ps))"
  using m_seq_consumes [of p "m_sequence ps"] by (simp add: consumes_def)

lemma m_sequence_consumes_right: "matches p \<Longrightarrow> consumes (m_sequence ps) \<Longrightarrow> consumes (m_sequence (p # ps))"
  using m_seq_consumes_right [of p "m_sequence ps"] by (simp add: consumes_def)

lemma m_choice_consumes [matcher_intros]:
  "consumes (m_choice [])" "consumes p \<Longrightarrow> consumes (m_choice ps) \<Longrightarrow> consumes (m_choice (p # ps))"
proof -
  show "consumes (m_choice [])" by (simp add: consumes_def)
  have "m_choice (p # ps) = m_alt p (m_choice ps)" by (rule ext) simp
  then show "consumes p \<Longrightarrow> consumes (m_choice ps) \<Longrightarrow> consumes (m_choice (p # ps))" by (simp add: m_alt_consumes)
qed

lemma basic_consumes [matcher_intros]:
  "consumes m_any" "consumes (m_is c)" "consumes m_digits" "consumes m_identifier" "consumes m_spaces"
  unfolding m_any_def m_is_def m_digits_def m_identifier_def m_spaces_def by (intro matcher_intros)+

lemma basic_matches [matcher_intros]:
  "matches m_any" "matches (m_is c)" "matches m_digits" "matches m_identifier" "matches m_spaces" "matches m_digit_us"
  "matches (m_until x)" "matches m_string_body"
proof -
  show "matches m_any" "matches (m_is c)" "matches m_digits" "matches m_identifier" "matches m_spaces"
    by (intro consumes_matches basic_consumes)+
  show "matches m_digit_us" "matches (m_until x)" "matches m_string_body"
    unfolding m_digit_us_def m_until_def m_string_body_def m_any_def m_is_def by (intro matcher_intros)+
qed

lemma m_ip_consumes [matcher_intros]: "consumes (m_ip b)"
proof -
  have "consumes m_ipv4" unfolding m_ipv4_def by (intro matcher_intros consumes_matches [OF m_plus_consumes])
  moreover have "consumes m_ipv6"
    unfolding m_ipv6_def Let_def
    by (rule m_sequence_consumes_right, (intro matcher_intros), rule m_sequence_consumes, (intro matcher_intros)+)
  ultimately show ?thesis unfolding m_ip_def by (intro matcher_intros)
qed

lemma token_parsers_consume: "\<forall>(p, k) \<in> set (token_parsers b a). consumes p"
proof -
  have kw: "consumes (m_keyword (c # x))" for c x unfolding m_keyword_def by (intro matcher_intros)
  have "\<forall>(x, k) \<in> set punctuation. consumes (m_lit x)" by (simp add: punctuation_def matcher_intros)
  moreover have "\<forall>(x, k) \<in> set keyword_tokens. consumes (m_keyword x)" by (simp add: keyword_tokens_def kw)
  moreover have "consumes m_datetime" unfolding m_datetime_def by (intro matcher_intros)
  moreover have "consumes m_scalar" unfolding m_scalar_def by (intro matcher_intros)
  moreover have "consumes (m_whitespace a)" unfolding m_whitespace_def by (intro matcher_intros)
  moreover have "consumes (m_seq (m_choice (map m_lit reserved_words)) (m_not (m_char is_continue_ident)))"
    unfolding reserved_words_def list.map by (intro matcher_intros)
  ultimately show ?thesis
    unfolding token_parsers_def by (auto intro!: matcher_intros)
qed


section \<open>The lexer\<close>

lemma first_match_consumes:
  "\<forall>(p, k) \<in> set ps. consumes p \<Longrightarrow>
    first_match ps s = Some None \<or> (\<exists>k r. first_match ps s = Some (Some (k, r)) \<and> is_suffix r s \<and> length r < length s)"
proof (induction ps s rule: first_match.induct)
  case (2 p k ps s)
  then have "consumes p" by simp
  then show ?case by (rule consumesE [of p s]) (use 2 in auto)
qed simp

lemma parse_token_consumes:
  "parse_token b a s = Some None \<or> (\<exists>k r. parse_token b a s = Some (Some (k, r)) \<and> is_suffix r s \<and> length r < length s)"
  unfolding parse_token_def by (rule first_match_consumes [OF token_parsers_consume])

lemma parse_token_shorter: "parse_token b a s = Some (Some (k, r)) \<Longrightarrow> length r < length s"
  using parse_token_consumes [of b a s] by auto

text \<open>The last token is extended if it is an error, too. An IPv6 address is not tried after an identifier or
  a double colon; it would be mistaken for a path.\<close>

definition push_error :: "token list \<Rightarrow> nat \<Rightarrow> token list" where
  "push_error result end_pos =
    (if result = [] \<or> tok_kind (last result) \<noteq> Tk_error
     then result @ [\<lparr>tok_kind = Tk_error, tok_end = end_pos\<rparr>]
     else butlast result @ [(last result)\<lparr>tok_end := end_pos\<rparr>])"

function tokenize_loop :: "nat \<Rightarrow> bool \<Rightarrow> string \<Rightarrow> token list \<Rightarrow> token list option" where
  "tokenize_loop content_size ipv6_enabled current result =
    (if current = [] then Some result
     else case parse_token ipv6_enabled (result = []) current of
       None \<Rightarrow> None
     | Some (Some (kind, rest)) \<Rightarrow>
         tokenize_loop content_size (kind \<noteq> Tk_identifier \<and> kind \<noteq> Tk_colon_colon) rest
           (result @ [\<lparr>tok_kind = kind, tok_end = content_size - length rest\<rparr>])
     | Some None \<Rightarrow> tokenize_loop content_size True (tl current) (push_error result (content_size - length (tl current))))"
  by pat_completeness auto
termination
  by (relation "measure (\<lambda>(content_size, b, current, result). length current)") (auto dest: parse_token_shorter)

declare tokenize_loop.simps [simp del]

definition tokenize_permissive :: "string \<Rightarrow> token list option" where
  "tokenize_permissive content = tokenize_loop (length content) True content []"

text \<open>The diagnostics name the range of every error token.\<close>

fun error_tokens :: "nat \<Rightarrow> token list \<Rightarrow> (nat \<times> nat) list" where
  "error_tokens begin_pos [] = []"
| "error_tokens begin_pos (t # ts) =
    (if tok_kind t = Tk_error then [(begin_pos, tok_end t)] else []) @ error_tokens (tok_end t) ts"

definition verify_tokens :: "token list \<Rightarrow> (nat \<times> nat) list + unit" where
  "verify_tokens ts = (if error_tokens 0 ts = [] then Inr () else Inl (error_tokens 0 ts))"

text \<open>The test for valid UTF-8 is a function of Arrow.\<close>

datatype lexer_error = Invalid_utf8 | Could_not_parse "(nat \<times> nat) list"

definition tokenize :: "(string \<Rightarrow> bool) \<Rightarrow> string \<Rightarrow> (lexer_error + token list) option" where
  "tokenize valid_utf8 content =
    (if \<not> valid_utf8 content then Some (Inl Invalid_utf8)
     else case tokenize_permissive content of
       None \<Rightarrow> None
     | Some tokens \<Rightarrow> (case verify_tokens tokens of
         Inl es \<Rightarrow> Some (Inl (Could_not_parse es))
       | Inr _ \<Rightarrow> Some (Inr tokens)))"

section \<open>No character is lost\<close>

text \<open>The texts of the tokens; every token is as long as it is from the end of the one before.\<close>

fun token_texts :: "nat \<Rightarrow> string \<Rightarrow> token list \<Rightarrow> string list" where
  "token_texts begin_pos s [] = []"
| "token_texts begin_pos s (t # ts) =
    take (tok_end t - begin_pos) s # token_texts (tok_end t) (drop (tok_end t - begin_pos) s) ts"

fun ends_ok :: "nat \<Rightarrow> token list \<Rightarrow> nat \<Rightarrow> bool" where
  "ends_ok begin_pos [] end_pos \<longleftrightarrow> begin_pos = end_pos"
| "ends_ok begin_pos (t # ts) end_pos \<longleftrightarrow> begin_pos < tok_end t \<and> ends_ok (tok_end t) ts end_pos"

lemma ends_ok_append: "ends_ok b (ts @ us) e \<longleftrightarrow> (\<exists>k. ends_ok b ts k \<and> ends_ok k us e)"
  by (induction ts arbitrary: b) auto

lemma push_error_ends: "ends_ok 0 result k \<Longrightarrow> k < m \<Longrightarrow> ends_ok 0 (push_error result m) m"
  by (cases result rule: rev_cases) (auto simp: push_error_def ends_ok_append)

lemma tokenize_loop_ends:
  "length current \<le> content_size \<Longrightarrow> ends_ok 0 result (content_size - length current) \<Longrightarrow>
    \<exists>ts. tokenize_loop content_size b current result = Some ts \<and> ends_ok 0 ts content_size"
proof (induction content_size b current result rule: tokenize_loop.induct)
  case (1 content_size b current result)
  show ?case
  proof (cases "current = []")
    case True
    then show ?thesis using "1.prems" by (simp add: tokenize_loop.simps)
  next
    case False
    consider "parse_token b (result = []) current = Some None"
      | kind rest where "parse_token b (result = []) current = Some (Some (kind, rest))" "length rest < length current"
      using parse_token_consumes by blast
    then show ?thesis
    proof cases
      case 1
      have "content_size - length current < content_size - length (tl current)" using False "1.prems"(1) by (cases current) auto
      then show ?thesis
        using False 1 "1.IH"(1) [OF False 1 refl] "1.prems" push_error_ends by (subst tokenize_loop.simps) auto
    next
      case 2
      have "ends_ok 0 (result @ [\<lparr>tok_kind = kind, tok_end = content_size - length rest\<rparr>]) (content_size - length rest)"
        unfolding ends_ok_append using "1.prems" 2(2) by (intro exI [of _ "content_size - length current"]) auto
      then show ?thesis
        using False 2 "1.IH"(2) [OF False 2(1) refl refl] "1.prems"(1)
        by (subst tokenize_loop.simps) simp
    qed
  qed
qed

lemma token_texts_concat: "ends_ok b ts e \<Longrightarrow> length s = e - b \<Longrightarrow> concat (token_texts b s ts) = s \<and> [] \<notin> set (token_texts b s ts)"
proof (induction b s ts rule: token_texts.induct)
  case (2 b s t ts)
  have "tok_end t \<le> e" using "2.prems"(1) by (induction ts arbitrary: t b) (auto, fastforce)
  then show ?case using 2 by auto
qed simp

lemma tokenize_permissive_ends: "\<exists>ts. tokenize_permissive s = Some ts \<and> ends_ok 0 ts (length s)"
  unfolding tokenize_permissive_def by (rule tokenize_loop_ends) simp_all

text \<open>The ranges of the diagnostics are those of the error tokens.\<close>

lemma ends_ok_le: "ends_ok b ts e \<Longrightarrow> b \<le> e"
  by (induction ts arbitrary: b) fastforce+

lemma error_tokens_ranges: "ends_ok b ts e \<Longrightarrow> list_all (\<lambda>(x, y). x < y \<and> y \<le> e) (error_tokens b ts)"
  by (induction b ts rule: error_tokens.induct) (auto dest: ends_ok_le)

lemma error_tokens_Nil: "error_tokens b ts = [] \<longleftrightarrow> Tk_error \<notin> tok_kind ` set ts"
  by (induction b ts rule: error_tokens.induct) auto

section \<open>What the lexer promises\<close>

text \<open>C14: tokenizing returns for every input, although a repetition loops on a parser that does not consume. It
  fails for invalid UTF-8, or names non-empty ranges of the input that are no tokens; otherwise no token is an error
  or empty, and the texts of the tokens, put together, are the input.\<close>

theorem tokenize_correct:
  "\<exists>answer. tokenize valid_utf8 s = Some answer \<and>
    (case answer of
       Inl Invalid_utf8 \<Rightarrow> \<not> valid_utf8 s
     | Inl (Could_not_parse es) \<Rightarrow> valid_utf8 s \<and> es \<noteq> [] \<and> list_all (\<lambda>(x, y). x < y \<and> y \<le> length s) es
     | Inr ts \<Rightarrow> valid_utf8 s \<and> Tk_error \<notin> tok_kind ` set ts \<and> [] \<notin> set (token_texts 0 s ts)
         \<and> concat (token_texts 0 s ts) = s)"
proof -
  obtain ts where ts: "tokenize_permissive s = Some ts" "ends_ok 0 ts (length s)" using tokenize_permissive_ends by blast
  show ?thesis
    using ts(1) token_texts_concat [OF ts(2), of s] error_tokens_ranges [OF ts(2)] error_tokens_Nil [of 0 ts]
    by (simp add: tokenize_def verify_tokens_def)
qed

text \<open>The word \<open>module\<close> is reserved, but the choice of the reserved words settles for \<open>mod\<close>.\<close>

lemma module_is_an_identifier: "map_option (map tok_kind) (tokenize_permissive ''module fn'') = Some [Tk_identifier, Tk_whitespace, Tk_reserved_keyword]"
  by code_simp

end
