(* ===== verification/Lookup_Result.thy ===== *)
theory Lookup_Result
  imports Prelude
begin

text \<open>
  The result of a catalog lookup (\<open>catalog.hpp\<close>, \<open>partition_synopsis.hpp\<close>): for every schema the
  query expression tailored to it and the partitions that may hold matching events. The types of
  schemas \<open>'t\<close> and of expressions \<open>'e\<close> are parameters here: the queue never looks into them.

  A \<open>uuid\<close> is 16 bytes compared lexicographically, that is, a 128-bit number. A time point is a
  count of nanoseconds that is only compared, so it is an integer. An unordered map is the list of
  its entries in the order in which an iteration would visit them, with distinct keys.
\<close>

type_synonym uuid = "128 word"

record 't partition_info =
  pi_uuid :: uuid
  pi_events :: nat
  pi_max_import_time :: int
  pi_schema :: 't
  pi_version :: nat

record ('t, 'e) candidate_info =
  ci_exp :: 'e
  ci_infos :: "'t partition_info list"

type_synonym ('t, 'e) catalog_lookup_result = "('t \<times> ('t, 'e) candidate_info) list"

definition clr_size :: "('t, 'e) catalog_lookup_result \<Rightarrow> nat" where
  "clr_size r = fold (\<lambda>c i. i + length (ci_infos (snd c))) r 0"

text \<open>The result is empty when it has no schema, whether or not a schema has a partition.\<close>

definition clr_empty :: "('t, 'e) catalog_lookup_result \<Rightarrow> bool" where
  "clr_empty r \<longleftrightarrow> r = []"

text \<open>The partitions in the order of a nested iteration, with the schema they are listed under.\<close>

definition clr_partitions :: "('t, 'e) catalog_lookup_result \<Rightarrow> ('t \<times> uuid) list" where
  "clr_partitions r = concat (map (\<lambda>(t, c). map (\<lambda>p. (t, pi_uuid p)) (ci_infos c)) r)"

lemma clr_size_fold: "fold (\<lambda>c i. i + length (ci_infos (snd c))) r n = n + length (clr_partitions r)"
  by (induction r arbitrary: n) (auto simp: clr_partitions_def)

lemma clr_size_eq: "clr_size r = length (clr_partitions r)"
  by (simp add: clr_size_def clr_size_fold)

end
