(* ===== verification/Query_Queue.thy ===== *)
theory Query_Queue
  imports Lookup_Result "HOL-Library.AList" "HOL-Library.Multiset"
begin

text \<open>
  The queue of the index for pending queries and the partitions they still have to visit
  (\<open>query_queue.hpp\<close>, \<open>query_queue.cpp\<close>). A query has a number of candidate partitions; the client
  requests them in batches, and the queue hands out a partition together with the queries that have
  requested more partitions than were scheduled for them. An entry whose queries have all exhausted
  their batch is parked in the list of inactive partitions until a client asks for more.

  \<open>std::sort\<close> is an argument: any function that sorts by \<open>operator<\<close> will do, whatever it does to
  equivalent entries. The counters of a query are 32-bit, priorities 64-bit words.
\<close>

type_synonym u32 = "32 word"

section \<open>State\<close>

text \<open>The members of a query context that the index sets and the queue reads.\<close>

record 'e query_context =
  qc_id :: uuid
  qc_expr :: 'e
  qc_priority :: u64

record ('t, 'e, 'a) query_state =
  qs_contexts :: "('t \<times> 'e query_context) list"
  qs_client :: 'a
  candidate_partitions :: u32
  requested_partitions :: u32
  scheduled_partitions :: u32
  completed_partitions :: u32

record 't queue_entry =
  e_partition :: uuid
  e_schema :: 't
  e_priority :: u64
  e_queries :: "uuid list"
  e_erased :: bool

record ('t, 'e, 'a) query_queue =
  qq_queries :: "(uuid \<times> ('t, 'e, 'a) query_state) list"
  qq_partitions :: "'t queue_entry list"
  qq_inactive :: "'t queue_entry list"

definition qq_new :: "('t, 'e, 'a) query_queue" where
  "qq_new = \<lparr>qq_queries = [], qq_partitions = [], qq_inactive = []\<rparr>"

definition entry_less :: "'t queue_entry \<Rightarrow> 't queue_entry \<Rightarrow> bool" where
  "entry_less x y \<longleftrightarrow> e_priority x < e_priority y
    \<or> e_priority x = e_priority y \<and> length (e_queries x) < length (e_queries y)"

definition sorts_entries :: "('t queue_entry list \<Rightarrow> 't queue_entry list) \<Rightarrow> bool" where
  "sorts_entries srt \<longleftrightarrow> (\<forall>xs. mset (srt xs) = mset xs \<and> sorted_wrt (\<lambda>x y. \<not> entry_less y x) (srt xs))"

section \<open>Observers\<close>

definition qq_num_partitions :: "('t, 'e, 'a) query_queue \<Rightarrow> nat" where
  "qq_num_partitions q = length (qq_partitions q) + length (qq_inactive q)"

definition qq_num_queries :: "('t, 'e, 'a) query_queue \<Rightarrow> nat" where
  "qq_num_queries q = length (qq_queries q)"

definition qq_has_work :: "('t, 'e, 'a) query_queue \<Rightarrow> bool" where
  "qq_has_work q \<longleftrightarrow> qq_partitions q \<noteq> []"

definition qq_reachable :: "uuid \<Rightarrow> ('t, 'e, 'a) query_queue \<Rightarrow> bool" where
  "qq_reachable qid q \<longleftrightarrow>
    (\<exists>e \<in> set (qq_partitions q). qid \<in> set (e_queries e)) \<or> (\<exists>e \<in> set (qq_inactive q). qid \<in> set (e_queries e))"

text \<open>\<open>create_query_id\<close> draws random identifiers, here a stream given as a function from the next position on,
  until one is not in use; that it returns depends on the stream.\<close>

partial_function (option) qq_create_query_id :: "(nat \<Rightarrow> uuid) \<Rightarrow> nat \<Rightarrow> ('t, 'e, 'a) query_queue \<Rightarrow> uuid option" where
  "qq_create_query_id random i q =
    (if map_of (qq_queries q) (random i) \<noteq> None then qq_create_query_id random (i + 1) q else Some (random i))"

declare qq_create_query_id.simps [code]

lemma qq_create_query_id_returns:
  "map_of (qq_queries q) (random (i + n)) = None \<Longrightarrow> \<forall>k < n. map_of (qq_queries q) (random (i + k)) \<noteq> None
    \<Longrightarrow> qq_create_query_id random i q = Some (random (i + n))"
proof (induction n arbitrary: i)
  case 0
  then show ?case by (simp add: qq_create_query_id.simps)
next
  case (Suc n)
  have "qq_create_query_id random (i + 1) q = Some (random (i + 1 + n))"
  proof (rule Suc.IH)
    show "map_of (qq_queries q) (random (i + 1 + n)) = None" using Suc.prems(1) by simp
    show "\<forall>k < n. map_of (qq_queries q) (random (i + 1 + k)) \<noteq> None" using Suc.prems(2) by (metis Suc_less_eq add.assoc plus_1_eq_Suc)
  qed
  then show ?case using Suc.prems(2) by (subst qq_create_query_id.simps) auto
qed

lemma qq_create_query_id_unused:
  assumes "qq_create_query_id random i q = Some u"
  shows "map_of (qq_queries q) u = None"
  by (rule qq_create_query_id.raw_induct [OF _ assms, where P = "\<lambda>random i q u. map_of (qq_queries q) u = None"])
    (auto split: if_splits)

section \<open>Modifiers\<close>

text \<open>One candidate partition: it joins its entry among the active ones, or its inactive entry, which
  then becomes active, or gets a new entry.\<close>

definition entry_add :: "uuid \<Rightarrow> u64 \<Rightarrow> 't queue_entry \<Rightarrow> 't queue_entry" where
  "entry_add qid prio e = e\<lparr>e_priority := e_priority e + prio, e_queries := e_queries e @ [qid]\<rparr>"

definition qq_add_candidate ::
    "uuid \<Rightarrow> u64 \<Rightarrow> 't \<times> uuid \<Rightarrow> 't queue_entry list \<times> 't queue_entry list
      \<Rightarrow> ('t queue_entry list \<times> 't queue_entry list) option" where
  "qq_add_candidate qid prio cand ls =
    (let (ps, iq) = ls in
     case split_first (\<lambda>e. e_partition e = snd cand) ps of
       (xs, e # ys) \<Rightarrow> do {
         require (snd cand \<notin> e_partition ` set iq);
         Some (xs @ entry_add qid prio e # ys, iq)
       }
     | (_, []) \<Rightarrow> (case split_first (\<lambda>e. e_partition e = snd cand) iq of
         (xs, e # ys) \<Rightarrow> Some (ps @ [entry_add qid prio e], xs @ ys)
       | (_, []) \<Rightarrow> Some (ps @ [\<lparr>e_partition = snd cand, e_schema = fst cand, e_priority = prio,
            e_queries = [qid], e_erased = False\<rparr>], iq)))"

fun qq_add_candidates ::
    "uuid \<Rightarrow> u64 \<Rightarrow> ('t \<times> uuid) list \<Rightarrow> 't queue_entry list \<times> 't queue_entry list
      \<Rightarrow> ('t queue_entry list \<times> 't queue_entry list) option" where
  "qq_add_candidates qid prio [] ls = Some ls"
| "qq_add_candidates qid prio (cand # cands) ls = do {
     ls \<leftarrow> qq_add_candidate qid prio cand ls;
     qq_add_candidates qid prio cands ls
   }"

definition qq_insert ::
    "('t queue_entry list \<Rightarrow> 't queue_entry list) \<Rightarrow> ('t, 'e, 'a) query_state \<Rightarrow> ('t, 'e) catalog_lookup_result
      \<Rightarrow> ('t, 'e, 'a) query_queue \<Rightarrow> (caf_error option \<times> ('t, 'e, 'a) query_queue) option" where
  "qq_insert srt s candidates q =
    (if clr_empty candidates then Some (Some (Unspecified ''can't add a query with 0 candidates''), q)
     else if unat (candidate_partitions s) \<noteq> clr_size candidates then
       Some (Some (Unspecified ''the candidate set size must match the query state''), q)
     else case qs_contexts s of
       [] \<Rightarrow> None
     | (_, c) # _ \<Rightarrow>
         let qid = qc_id c in
         if map_of (qq_queries q) qid \<noteq> None then
           Some (Some (Unspecified ''A query with this ID exists already''), q)
         else do {
           (ps, iq) \<leftarrow> qq_add_candidates qid (qc_priority c) (clr_partitions candidates)
             (qq_partitions q, qq_inactive q);
           Some (None, \<lparr>qq_queries = (qid, s) # qq_queries q, qq_partitions = srt ps, qq_inactive = iq\<rparr>)
         })"

definition qq_activate ::
    "('t queue_entry list \<Rightarrow> 't queue_entry list) \<Rightarrow> uuid \<Rightarrow> u32 \<Rightarrow> ('t, 'e, 'a) query_queue
      \<Rightarrow> caf_error option \<times> ('t, 'e, 'a) query_queue" where
  "qq_activate srt qid num_partitions q =
    (case map_of (qq_queries q) qid of
       None \<Rightarrow> (Some (Unspecified ''cannot activate unknown query''), q)
     | Some s \<Rightarrow>
         let s = s\<lparr>requested_partitions := requested_partitions s + num_partitions\<rparr>;
             ps = qq_partitions q @ filter (\<lambda>e. qid \<in> set (e_queries e)) (qq_inactive q);
             iq = filter (\<lambda>e. qid \<notin> set (e_queries e)) (qq_inactive q)
         in (None, \<lparr>qq_queries = AList.update qid s (qq_queries q), qq_partitions = srt ps, qq_inactive = iq\<rparr>))"

text \<open>\<open>remove_query\<close> erases the first occurrence of the query from every entry, and the entries that
  have no query left. The priority of the others stays what it was.\<close>

fun entries_remove :: "uuid \<Rightarrow> 't queue_entry list \<Rightarrow> 't queue_entry list" where
  "entries_remove qid [] = []"
| "entries_remove qid (e # es) =
    (if qid \<notin> set (e_queries e) then e # entries_remove qid es
     else let e = e\<lparr>e_queries := remove1 qid (e_queries e)\<rparr>
       in if e_queries e = [] then entries_remove qid es else e # entries_remove qid es)"

definition qq_remove_query :: "uuid \<Rightarrow> ('t, 'e, 'a) query_queue \<Rightarrow> caf_error option \<times> ('t, 'e, 'a) query_queue" where
  "qq_remove_query qid q =
    (if map_of (qq_queries q) qid = None then (Some (Unspecified ''cannot remove unknown query''), q)
     else (None, \<lparr>qq_queries = AList.delete qid (qq_queries q),
                  qq_partitions = entries_remove qid (qq_partitions q),
                  qq_inactive = entries_remove qid (qq_inactive q)\<rparr>))"

definition qq_mark_partition_erased :: "uuid \<Rightarrow> ('t, 'e, 'a) query_queue \<Rightarrow> (bool \<times> ('t, 'e, 'a) query_queue) option" where
  "qq_mark_partition_erased pid q =
    (case split_first (\<lambda>e. e_partition e = pid) (qq_partitions q) of
       (xs, e # ys) \<Rightarrow> do {
         require (pid \<notin> e_partition ` set (qq_inactive q));
         Some (True, q\<lparr>qq_partitions := xs @ e\<lparr>e_erased := True\<rparr> # ys\<rparr>)
       }
     | (_, []) \<Rightarrow> (case split_first (\<lambda>e. e_partition e = pid) (qq_inactive q) of
         (xs, e # ys) \<Rightarrow> Some (True, q\<lparr>qq_inactive := xs @ e\<lparr>e_erased := True\<rparr> # ys\<rparr>)
       | (_, []) \<Rightarrow> Some (False, q)))"

text \<open>The priority of a query is that of its first context; \<open>insert\<close> only stores states that have one.

  \<open>next\<close> takes the last entry and splits its queries into those that may still be scheduled, for
  which the entry is handed out, and the rest, for which it is parked.\<close>

definition outstanding :: "(uuid \<times> ('t, 'e, 'a) query_state) list \<Rightarrow> uuid \<Rightarrow> bool" where
  "outstanding qs qid \<longleftrightarrow> (case map_of qs qid of
      None \<Rightarrow> False
    | Some s \<Rightarrow> scheduled_partitions s < requested_partitions s)"

definition first_priority :: "(uuid \<times> ('t, 'e, 'a) query_state) list \<Rightarrow> uuid \<Rightarrow> u64" where
  "first_priority qs qid = (case map_of qs qid of
      None \<Rightarrow> 0
    | Some s \<Rightarrow> (case qs_contexts s of [] \<Rightarrow> 0 | (_, c) # _ \<Rightarrow> qc_priority c))"

definition bump_scheduled ::
    "uuid \<Rightarrow> (uuid \<times> ('t, 'e, 'a) query_state) list \<Rightarrow> (uuid \<times> ('t, 'e, 'a) query_state) list" where
  "bump_scheduled qid qs = (case map_of qs qid of
      None \<Rightarrow> qs
    | Some s \<Rightarrow> AList.update qid (s\<lparr>scheduled_partitions := scheduled_partitions s + 1\<rparr>) qs)"

function qq_next :: "('t, 'e, 'a) query_queue \<Rightarrow> 't queue_entry option \<times> ('t, 'e, 'a) query_queue" where
  "qq_next q =
    (if qq_partitions q = [] then (None, q)
     else
       let result = last (qq_partitions q);
           qs = qq_queries q;
           active = filter (outstanding qs) (e_queries result);
           rest = filter (\<lambda>qid. \<not> outstanding qs qid) (e_queries result);
           known = filter (\<lambda>qid. map_of qs qid \<noteq> None) rest;
           parked = (if rest \<noteq> [] then
               [result\<lparr>e_priority := sum_list (map (first_priority qs) known), e_queries := known\<rparr>] else []);
           q = q\<lparr>qq_partitions := butlast (qq_partitions q), qq_inactive := qq_inactive q @ parked\<rparr>
       in if active \<noteq> [] then
            (Some (result\<lparr>e_priority := 0, e_queries := active\<rparr>), q\<lparr>qq_queries := fold bump_scheduled active qs\<rparr>)
          else qq_next q)"
  by pat_completeness auto
termination by (relation "measure (\<lambda>q. length (qq_partitions q))") (auto simp: Let_def)

declare qq_next.simps [simp del]

text \<open>\<open>handle_completion\<close> returns the client when the batch it requested is complete, and forgets the
  query when all its candidates are.\<close>

definition qq_handle_completion :: "uuid \<Rightarrow> ('t, 'e, 'a) query_queue \<Rightarrow> ('a option \<times> ('t, 'e, 'a) query_queue) option" where
  "qq_handle_completion qid q =
    (case map_of (qq_queries q) qid of
       None \<Rightarrow> Some (None, q)
     | Some s \<Rightarrow>
         let s = s\<lparr>completed_partitions := completed_partitions s + 1\<rparr>;
             result = (if completed_partitions s = requested_partitions s then Some (qs_client s) else None);
             q = q\<lparr>qq_queries := AList.update qid s (qq_queries q)\<rparr>
         in if completed_partitions s = candidate_partitions s then do {
              require (\<not> qq_reachable qid q);
              Some (result, q\<lparr>qq_queries := AList.delete qid (qq_queries q)\<rparr>)
            } else Some (result, q))"

end
