(* ===== verification/Query_Queue_Inv.thy ===== *)
theory Query_Queue_Inv
  imports Query_Queue
begin

text \<open>
  The invariant of the query queue and its preservation by every operation. Its core is an
  accounting law: for every query, the entries that still list it and the partitions scheduled for
  it add up to the number of its candidates. The entries of both lists are told apart by their
  partition, list known queries only, and an inactive entry lists exhausted queries only.
\<close>

section \<open>Entries\<close>

definition pending :: "uuid \<Rightarrow> 't queue_entry list \<Rightarrow> nat" where
  "pending qid es = length (filter (\<lambda>e. qid \<in> set (e_queries e)) es)"

definition entry_ok :: "uuid set \<Rightarrow> 't queue_entry \<Rightarrow> bool" where
  "entry_ok keys e \<longleftrightarrow> distinct (e_queries e) \<and> e_queries e \<noteq> [] \<and> set (e_queries e) \<subseteq> keys"

definition entries_ok :: "uuid set \<Rightarrow> 't queue_entry list \<Rightarrow> bool" where
  "entries_ok keys es \<longleftrightarrow> distinct (map e_partition es) \<and> (\<forall>e \<in> set es. entry_ok keys e)"

lemma not_image_neq: "u \<notin> f ` A \<Longrightarrow> x \<in> A \<Longrightarrow> f x \<noteq> u"
  by blast

lemma pending_simps [simp]:
  "pending qid [] = 0"
  "pending qid (e # es) = (if qid \<in> set (e_queries e) then 1 else 0) + pending qid es"
  "pending qid (es @ fs) = pending qid es + pending qid fs"
  by (simp_all add: pending_def)

lemma pending_0_iff: "pending qid es = 0 \<longleftrightarrow> (\<forall>e \<in> set es. qid \<notin> set (e_queries e))"
  by (simp add: pending_def filter_empty_conv)

lemma entries_ok_append:
  "entries_ok keys (es @ fs) \<longleftrightarrow> entries_ok keys es \<and> entries_ok keys fs
    \<and> e_partition ` set es \<inter> e_partition ` set fs = {}"
  by (auto simp: entries_ok_def)

lemma entries_ok_mono: "entries_ok keys es \<Longrightarrow> keys \<subseteq> keys' \<Longrightarrow> entries_ok keys' es"
  by (auto simp: entries_ok_def entry_ok_def)

section \<open>The invariant\<close>

abbreviation entries :: "('t, 'e, 'a) query_queue \<Rightarrow> 't queue_entry list" where
  "entries q \<equiv> qq_partitions q @ qq_inactive q"

definition qq_inv :: "('t, 'e, 'a) query_queue \<Rightarrow> bool" where
  "qq_inv q \<longleftrightarrow>
    distinct (map fst (qq_queries q)) \<and>
    entries_ok (dom (map_of (qq_queries q))) (entries q) \<and>
    (\<forall>qid s. map_of (qq_queries q) qid = Some s \<longrightarrow>
      qs_contexts s \<noteq> [] \<and> pending qid (entries q) + unat (scheduled_partitions s) = unat (candidate_partitions s)) \<and>
    (\<forall>e \<in> set (qq_inactive q). \<forall>qid \<in> set (e_queries e). \<not> outstanding (qq_queries q) qid) \<and>
    sorted (map e_priority (qq_partitions q))"

lemma qq_invD:
  assumes "qq_inv q"
  shows "distinct (map fst (qq_queries q))"
    and "entries_ok (dom (map_of (qq_queries q))) (entries q)"
    and "map_of (qq_queries q) qid = Some s \<Longrightarrow> qs_contexts s \<noteq> []"
    and "map_of (qq_queries q) qid = Some s \<Longrightarrow>
      pending qid (entries q) + unat (scheduled_partitions s) = unat (candidate_partitions s)"
    and "e \<in> set (qq_inactive q) \<Longrightarrow> qid \<in> set (e_queries e) \<Longrightarrow> \<not> outstanding (qq_queries q) qid"
    and "sorted (map e_priority (qq_partitions q))"
  using assms unfolding qq_inv_def by blast+

lemma qq_invI:
  assumes "distinct (map fst (qq_queries q))"
    and "entries_ok (dom (map_of (qq_queries q))) (entries q)"
    and "\<And>qid s. map_of (qq_queries q) qid = Some s \<Longrightarrow> qs_contexts s \<noteq> []
      \<and> pending qid (entries q) + unat (scheduled_partitions s) = unat (candidate_partitions s)"
    and "\<And>e qid. e \<in> set (qq_inactive q) \<Longrightarrow> qid \<in> set (e_queries e) \<Longrightarrow> \<not> outstanding (qq_queries q) qid"
    and "sorted (map e_priority (qq_partitions q))"
  shows "qq_inv q"
  using assms unfolding qq_inv_def by blast

text \<open>The priorities, schemas and erasure marks of the entries do not matter to most of it, and
  neither does their order.\<close>

abbreviation ekey :: "'t queue_entry \<Rightarrow> uuid \<times> uuid list" where
  "ekey e \<equiv> (e_partition e, e_queries e)"

lemma entries_ok_key: "entries_ok keys es \<longleftrightarrow> distinct (map fst (map ekey es))
    \<and> (\<forall>z \<in> set (map ekey es). distinct (snd z) \<and> snd z \<noteq> [] \<and> set (snd z) \<subseteq> keys)"
  by (simp add: entries_ok_def entry_ok_def comp_def)

lemma pending_key: "pending p es = length (filter (\<lambda>z. p \<in> set (snd z)) (map ekey es))"
  by (induction es) auto

lemma pending_cong:
  assumes "mset (map ekey es) = mset (map ekey es')"
  shows "pending p es = pending p es'"
proof -
  have "mset (filter (\<lambda>z. p \<in> set (snd z)) (map ekey es)) = mset (filter (\<lambda>z. p \<in> set (snd z)) (map ekey es'))"
    unfolding mset_filter assms ..
  then show ?thesis unfolding pending_key by (rule mset_eq_length)
qed

lemma entries_ok_cong:
  assumes "mset (map ekey es) = mset (map ekey es')"
  shows "entries_ok keys es \<longleftrightarrow> entries_ok keys es'"
proof -
  have "mset (map fst (map ekey es)) = mset (map fst (map ekey es'))" unfolding mset_map [of fst] assms ..
  then have "distinct (map fst (map ekey es)) \<longleftrightarrow> distinct (map fst (map ekey es'))"
    by (rule mset_eq_imp_distinct_iff)
  then show ?thesis unfolding entries_ok_key mset_eq_setD [OF assms] by (rule arg_cong)
qed

lemma qq_inv_cong:
  assumes "qq_inv q" and "qq_queries q' = qq_queries q"
    and "mset (map ekey (entries q')) = mset (map ekey (entries q))"
    and "\<And>e qid. e \<in> set (qq_inactive q') \<Longrightarrow> qid \<in> set (e_queries e) \<Longrightarrow>
        ekey e \<in> set (map ekey (qq_inactive q)) \<or> \<not> outstanding (qq_queries q) qid"
    and "sorted (map e_priority (qq_partitions q'))"
  shows "qq_inv q'"
proof (rule qq_invI)
  show "entries_ok (dom (map_of (qq_queries q'))) (entries q')"
    using qq_invD(2) [OF assms(1)] entries_ok_cong [OF assms(3)] assms(2) by simp
  show "qs_contexts s \<noteq> [] \<and> pending qid (entries q') + unat (scheduled_partitions s) = unat (candidate_partitions s)"
    if "map_of (qq_queries q') qid = Some s" for qid s
    using qq_invD(3,4) [OF assms(1)] that assms(2) pending_cong [OF assms(3), of qid] by metis
  show "\<not> outstanding (qq_queries q') qid" if "e \<in> set (qq_inactive q')" "qid \<in> set (e_queries e)" for e qid
    using assms(2) assms(4) [OF that] qq_invD(5) [OF assms(1), of _ qid] that(2) by auto
qed (use assms qq_invD(1) [OF assms(1)] in simp_all)

lemma qq_new_inv: "qq_inv qq_new"
  by (simp add: qq_inv_def qq_new_def entries_ok_def)

lemma outstanding_cong: "map_of qs qid = map_of qs' qid \<Longrightarrow> outstanding qs qid = outstanding qs' qid"
  by (simp add: outstanding_def)

lemma sorts_entriesD:
  assumes "sorts_entries srt"
  shows "mset (srt xs) = mset xs" "set (srt xs) = set xs" "sorted (map e_priority (srt xs))"
proof -
  show m: "mset (srt xs) = mset xs" using assms by (simp add: sorts_entries_def)
  then show "set (srt xs) = set xs" by (rule mset_eq_setD)
  have "sorted_wrt (\<lambda>x y. \<not> entry_less y x) (srt xs)" using assms by (simp add: sorts_entries_def)
  then have "sorted_wrt (\<lambda>x y. e_priority x \<le> e_priority y) (srt xs)"
    by (rule sorted_wrt_mono_rel [rotated]) (auto simp: entry_less_def)
  then show "sorted (map e_priority (srt xs))" by (simp add: sorted_map)
qed

section \<open>Insertion\<close>

text \<open>Adding one candidate changes or creates the entry of its partition only.\<close>

definition added_to :: "uuid \<Rightarrow> uuid \<Rightarrow> 't queue_entry list \<Rightarrow> 't queue_entry \<Rightarrow> bool" where
  "added_to qid u es e' \<longleftrightarrow> (if e_partition e' = u
      then e_queries e' = [qid] \<or> (\<exists>e \<in> set es. e_partition e = u \<and> e_queries e' = e_queries e @ [qid])
      else e' \<in> set es)"

lemma qq_add_candidate_spec:
  assumes dist: "distinct (map e_partition (ps @ iq))"
    and fresh: "\<And>e. e \<in> set (ps @ iq) \<Longrightarrow> e_partition e = snd cand \<Longrightarrow> qid \<notin> set (e_queries e)"
  shows "\<exists>ps' iq'. qq_add_candidate qid prio cand (ps, iq) = Some (ps', iq')
    \<and> distinct (map e_partition (ps' @ iq'))
    \<and> (\<forall>e' \<in> set (ps' @ iq'). added_to qid (snd cand) (ps @ iq) e') \<and> set iq' \<subseteq> set iq
    \<and> (\<forall>p. pending p (ps' @ iq') = pending p (ps @ iq) + (if p = qid then 1 else 0))"
proof (cases rule: split_first_cases [of "\<lambda>e. e_partition e = snd cand" ps])
  case (some xs e ys)
  then have part: "snd cand \<notin> e_partition ` set iq" using dist by (auto simp: image_iff)
  have f: "qid \<notin> set (e_queries e)" using fresh [of e] some by simp
  show ?thesis
    using some part dist f
    by (auto simp: qq_add_candidate_def entry_add_def added_to_def dest: not_image_neq)
next
  case none
  note act = none
  show ?thesis
  proof (cases rule: split_first_cases [of "\<lambda>e. e_partition e = snd cand" iq])
    case none
    then show ?thesis using act dist
      by (auto simp: qq_add_candidate_def added_to_def)
  next
    case (some xs e ys)
    have f: "qid \<notin> set (e_queries e)" using fresh [of e] some by simp
    show ?thesis using act some dist f
      by (auto simp: qq_add_candidate_def entry_add_def added_to_def dest: not_image_neq)
  qed
qed

lemma qq_add_candidates_spec:
  assumes "distinct (map e_partition (ps @ iq))" and "distinct (map snd cands)"
    and "\<And>e. e \<in> set (ps @ iq) \<Longrightarrow> e_partition e \<in> snd ` set cands \<Longrightarrow> qid \<notin> set (e_queries e)"
  shows "\<exists>ps' iq'. qq_add_candidates qid prio cands (ps, iq) = Some (ps', iq')
    \<and> distinct (map e_partition (ps' @ iq')) \<and> set iq' \<subseteq> set iq
    \<and> (\<forall>e' \<in> set (ps' @ iq'). e' \<in> set (ps @ iq) \<or> e_queries e' = [qid]
        \<or> (\<exists>e \<in> set (ps @ iq). qid \<notin> set (e_queries e) \<and> e_queries e' = e_queries e @ [qid]))
    \<and> (\<forall>p. pending p (ps' @ iq') = pending p (ps @ iq) + (if p = qid then length cands else 0))"
  using assms
proof (induction cands arbitrary: ps iq)
  case Nil
  then show ?case by auto
next
  case (Cons cand cands)
  obtain ps1 iq1 where 1: "qq_add_candidate qid prio cand (ps, iq) = Some (ps1, iq1)"
    "distinct (map e_partition (ps1 @ iq1))" "set iq1 \<subseteq> set iq"
    "\<forall>e' \<in> set (ps1 @ iq1). added_to qid (snd cand) (ps @ iq) e'"
    "\<forall>p. pending p (ps1 @ iq1) = pending p (ps @ iq) + (if p = qid then 1 else 0)"
    using qq_add_candidate_spec [of ps iq cand qid prio] Cons.prems(1,3) by auto
  have old: "e \<in> set (ps @ iq)" if "e \<in> set (ps1 @ iq1)" "e_partition e \<noteq> snd cand" for e
    using 1(4) that unfolding added_to_def by metis
  have new: "e_queries e = [qid] \<or> (\<exists>e0 \<in> set (ps @ iq). qid \<notin> set (e_queries e0) \<and> e_queries e = e_queries e0 @ [qid])"
    if "e \<in> set (ps1 @ iq1)" "e_partition e = snd cand" for e
    using 1(4) that Cons.prems(3) unfolding added_to_def by (metis image_eqI list.set_intros(1))
  have "qid \<notin> set (e_queries e)" if "e \<in> set (ps1 @ iq1)" "e_partition e \<in> snd ` set cands" for e
  proof -
    have "snd cand \<notin> snd ` set cands" using Cons.prems(2) by simp
    then have "e_partition e \<noteq> snd cand" using that(2) by metis
    then have "e \<in> set (ps @ iq)" by (rule old [OF that(1)])
    then show ?thesis using Cons.prems(3) [of e] that(2) by simp
  qed
  from Cons.IH [OF 1(2) _ this] Cons.prems(2) obtain ps' iq' where 2:
    "qq_add_candidates qid prio cands (ps1, iq1) = Some (ps', iq')"
    "distinct (map e_partition (ps' @ iq'))" "set iq' \<subseteq> set iq1"
    "\<forall>e' \<in> set (ps' @ iq'). e' \<in> set (ps1 @ iq1) \<or> e_queries e' = [qid]
        \<or> (\<exists>e \<in> set (ps1 @ iq1). qid \<notin> set (e_queries e) \<and> e_queries e' = e_queries e @ [qid])"
    "\<forall>p. pending p (ps' @ iq') = pending p (ps1 @ iq1) + (if p = qid then length cands else 0)"
    by auto
  have "e' \<in> set (ps @ iq) \<or> e_queries e' = [qid]
        \<or> (\<exists>e \<in> set (ps @ iq). qid \<notin> set (e_queries e) \<and> e_queries e' = e_queries e @ [qid])"
    if "e' \<in> set (ps' @ iq')" for e'
  proof -
    have base: ?thesis if "e' \<in> set (ps1 @ iq1)"
      using old [OF that] new [OF that] by blast
    consider "e' \<in> set (ps1 @ iq1)" | "e_queries e' = [qid]"
      | e where "e \<in> set (ps1 @ iq1)" "qid \<notin> set (e_queries e)" "e_queries e' = e_queries e @ [qid]"
      using 2(4) \<open>e' \<in> set (ps' @ iq')\<close> by blast
    then show ?thesis
    proof cases
      case 3
      then have "e_partition e \<noteq> snd cand" using new [of e] by auto
      then show ?thesis using 3 old [of e] by blast
    qed (use base in blast)+
  qed
  moreover have "\<forall>p. pending p (ps' @ iq') = pending p (ps @ iq) + (if p = qid then length (cand # cands) else 0)"
    using 1(5) 2(5) by simp
  moreover have "qq_add_candidates qid prio (cand # cands) (ps, iq) = Some (ps', iq')" using 1(1) 2(1) by simp
  moreover have "set iq' \<subseteq> set iq" using 1(3) 2(3) by blast
  ultimately show ?case using 2(2) by blast
qed

lemma map_of_Cons_fresh: "map_of qs qid = None \<Longrightarrow> map_of ((qid, s) # qs) p = (if p = qid then Some s else map_of qs p)"
  by simp

lemma qq_insert_spec:
  assumes inv: "qq_inv q" and srt: "sorts_entries srt"
    and ctx: "qs_contexts s = (t, c) # cs" and fresh: "map_of (qq_queries q) (qc_id c) = None"
    and cands: "candidates \<noteq> []" "unat (candidate_partitions s) = clr_size candidates"
      "distinct (map snd (clr_partitions candidates))"
    and start: "scheduled_partitions s = 0"
  shows "\<exists>q'. qq_insert srt s candidates q = Some (None, q') \<and> qq_inv q' \<and> qq_queries q' = (qc_id c, s) # qq_queries q"
proof -
  let ?qid = "qc_id c" and ?cs = "clr_partitions candidates"
  let ?keys = "dom (map_of (qq_queries q))" and ?keys' = "insert ?qid (dom (map_of (qq_queries q)))"
  have ok: "entries_ok ?keys (entries q)" and acc: "map_of (qq_queries q) p = Some s' \<Longrightarrow> qs_contexts s' \<noteq> []
      \<and> pending p (entries q) + unat (scheduled_partitions s') = unat (candidate_partitions s')" for p s'
    using inv by (auto simp: qq_inv_def)
  have none: "?qid \<notin> set (e_queries e)" if "e \<in> set (entries q)" for e
    using ok fresh that by (auto simp: entries_ok_def entry_ok_def)
  obtain ps iq where add: "qq_add_candidates ?qid (qc_priority c) ?cs (qq_partitions q, qq_inactive q) = Some (ps, iq)"
    "distinct (map e_partition (ps @ iq))" "set iq \<subseteq> set (qq_inactive q)"
    "\<forall>e' \<in> set (ps @ iq). e' \<in> set (entries q) \<or> e_queries e' = [?qid]
        \<or> (\<exists>e \<in> set (entries q). ?qid \<notin> set (e_queries e) \<and> e_queries e' = e_queries e @ [?qid])"
    "\<forall>p. pending p (ps @ iq) = pending p (entries q) + (if p = ?qid then length ?cs else 0)"
    using qq_add_candidates_spec [of "qq_partitions q" "qq_inactive q" ?cs ?qid "qc_priority c"] ok cands(3) none
    by (auto simp: entries_ok_def)
  have perm': "mset (map ekey (srt ps @ iq)) = mset (map ekey (ps @ iq))"
    using sorts_entriesD(1) [OF srt, of ps] by simp
  have old: "entry_ok ?keys e" if "e \<in> set (entries q)" for e using ok that unfolding entries_ok_def by blast
  have "entry_ok ?keys' e'" if "e' \<in> set (ps @ iq)" for e'
  proof -
    consider "e' \<in> set (entries q)" | "e_queries e' = [?qid]"
      | e where "e \<in> set (entries q)" "?qid \<notin> set (e_queries e)" "e_queries e' = e_queries e @ [?qid]"
      using add(4) \<open>e' \<in> set (ps @ iq)\<close> by blast
    then show ?thesis
    proof cases
      case 1
      then show ?thesis using old [of e'] by (auto simp: entry_ok_def)
    next
      case 2
      then show ?thesis by (simp add: entry_ok_def)
    next
      case 3
      then show ?thesis using old [of e] by (auto simp: entry_ok_def)
    qed
  qed
  then have ok': "entries_ok ?keys' (srt ps @ iq)"
    using add(2) entries_ok_cong [OF perm'] by (auto simp: entries_ok_def)
  have pend: "pending p (srt ps @ iq) = pending p (entries q) + (if p = ?qid then clr_size candidates else 0)" for p
    using pending_cong [OF perm'] add(5) by (simp add: clr_size_eq)
  have zero: "pending ?qid (entries q) = 0" using none by (simp add: pending_0_iff)
  let ?q = "\<lparr>qq_queries = (?qid, s) # qq_queries q, qq_partitions = srt ps, qq_inactive = iq\<rparr>"
  have "\<not> outstanding (qq_queries ?q) p" if "e \<in> set iq" "p \<in> set (e_queries e)" for e p
  proof -
    have "p \<noteq> ?qid" using none [of e] that add(3) by auto
    then have "outstanding (qq_queries ?q) p = outstanding (qq_queries q) p" by (simp add: outstanding_def)
    then show ?thesis using inv that add(3) by (auto simp: qq_inv_def)
  qed
  moreover have "qs_contexts s' \<noteq> [] \<and> pending p (entries ?q) + unat (scheduled_partitions s') = unat (candidate_partitions s')"
    if "map_of (qq_queries ?q) p = Some s'" for p s'
    using that acc [of p s'] pend [of p] zero cands(2) start ctx by (auto split: if_splits)
  moreover have "dom (map_of (qq_queries ?q)) = ?keys'" by auto
  ultimately have "qq_inv ?q"
    using ok' sorts_entriesD(3) [OF srt] inv fresh
    by (auto simp: qq_inv_def map_of_eq_None_iff)
  then show ?thesis using add(1) ctx fresh cands by (simp add: qq_insert_def clr_empty_def)
qed

section \<open>Activation\<close>

lemma pending_split:
  "pending p (filter f es) + pending p (filter (\<lambda>e. \<not> f e) es) = pending p es"
  by (induction es) auto

lemma mset_filter_split: "mset (filter f es) + mset (filter (\<lambda>e. \<not> f e) es) = mset es"
  by (induction es) auto

lemma qq_activate_unknown: "map_of (qq_queries q) qid = None \<Longrightarrow>
    qq_activate srt qid n q = (Some (Unspecified ''cannot activate unknown query''), q)"
  by (simp add: qq_activate_def)

lemma qq_activate_spec:
  assumes inv: "qq_inv q" and srt: "sorts_entries srt" and known: "map_of (qq_queries q) qid = Some s"
  shows "\<exists>q'. qq_activate srt qid n q = (None, q') \<and> qq_inv q'
    \<and> map_of (qq_queries q') = (map_of (qq_queries q))
        (qid \<mapsto> s\<lparr>requested_partitions := requested_partitions s + n\<rparr>)
    \<and> mset (entries q') = mset (entries q)"
proof -
  let ?s = "s\<lparr>requested_partitions := requested_partitions s + n\<rparr>"
  let ?f = "\<lambda>e. qid \<in> set (e_queries e)"
  let ?ps = "qq_partitions q @ filter ?f (qq_inactive q)" and ?iq = "filter (\<lambda>e. \<not> ?f e) (qq_inactive q)"
  let ?q = "\<lparr>qq_queries = AList.update qid ?s (qq_queries q), qq_partitions = srt ?ps, qq_inactive = ?iq\<rparr>"
  have act: "qq_activate srt qid n q = (None, ?q)" using known by (simp add: qq_activate_def)
  have map: "map_of (qq_queries ?q) = (map_of (qq_queries q))(qid \<mapsto> ?s)" by (simp add: update_conv')
  have dom: "dom (map_of (qq_queries ?q)) = dom (map_of (qq_queries q))" using map known by auto
  have perm: "mset (entries ?q) = mset (entries q)"
    using mset_filter_split [of ?f "qq_inactive q"] sorts_entriesD(1) [OF srt, of ?ps] by (simp add: ac_simps)
  then have perm': "mset (map ekey (entries ?q)) = mset (map ekey (entries q))" by (simp only: mset_map)
  have "\<not> outstanding (qq_queries ?q) p" if "e \<in> set ?iq" "p \<in> set (e_queries e)" for e p
  proof -
    have "p \<noteq> qid" using that by auto
    then have "outstanding (qq_queries ?q) p = outstanding (qq_queries q) p" by (intro outstanding_cong) (simp add: update_conv')
    then show ?thesis using inv that by (auto simp: qq_inv_def)
  qed
  moreover have "qs_contexts s' \<noteq> [] \<and> pending p (entries ?q) + unat (scheduled_partitions s') = unat (candidate_partitions s')"
    if "map_of (qq_queries ?q) p = Some s'" for p s'
    using that inv known pending_cong [OF perm', of p] unfolding qq_inv_def map by (auto split: if_splits)
  moreover have "entries_ok (dom (map_of (qq_queries ?q))) (entries ?q)"
    using inv entries_ok_cong [OF perm'] unfolding qq_inv_def dom by blast
  moreover have "distinct (map fst (qq_queries ?q))" using inv by (simp add: qq_inv_def distinct_update)
  moreover have "sorted (map e_priority (qq_partitions ?q))" using sorts_entriesD(3) [OF srt] by simp
  ultimately have "qq_inv ?q" unfolding qq_inv_def by (simp only: query_queue.select_convs) blast
  then show ?thesis using act map perm by blast
qed

section \<open>Removal\<close>

lemma entries_remove_set:
  assumes "e' \<in> set (entries_remove qid es)"
  shows "\<exists>e \<in> set es. e_partition e' = e_partition e \<and> e_priority e' = e_priority e \<and> e_erased e' = e_erased e
    \<and> e_queries e' = remove1 qid (e_queries e)
    \<and> (e_queries e \<noteq> [] \<longrightarrow> e_queries e' \<noteq> [])"
  using assms by (induction es) (auto simp: Let_def remove1_idem split: if_splits)

lemma entries_remove_distinct:
  "distinct (map e_partition es) \<Longrightarrow> distinct (map e_partition (entries_remove qid es))"
  by (induction es) (auto simp: Let_def dest!: entries_remove_set)

lemma entries_remove_sorted:
  "sorted (map e_priority es) \<Longrightarrow> sorted (map e_priority (entries_remove qid es))"
  by (induction es) (auto simp: Let_def dest!: entries_remove_set)

lemma entries_remove_append: "entries_remove qid (es @ fs) = entries_remove qid es @ entries_remove qid fs"
  by (induction es) (auto simp: Let_def)

lemma pending_entries_remove:
  assumes "p \<noteq> qid"
  shows "pending p (entries_remove qid es) = pending p es"
proof (induction es)
  case (Cons e es)
  have "p \<in> set (e_queries e) \<longleftrightarrow> p \<in> set (remove1 qid (e_queries e))" using assms by (simp add: in_set_remove1)
  then show ?case using Cons by (auto simp: Let_def)
qed simp

lemma entries_remove_ok:
  assumes "entries_ok keys es"
  shows "entries_ok (keys - {qid}) (entries_remove qid es)"
proof -
  have "entry_ok (keys - {qid}) e'" if e': "e' \<in> set (entries_remove qid es)" for e'
  proof -
    obtain e where e: "e \<in> set es" "e_queries e' = remove1 qid (e_queries e)" "e_queries e \<noteq> [] \<longrightarrow> e_queries e' \<noteq> []"
      using entries_remove_set [OF e'] by blast
    have "entry_ok keys e" using assms e(1) by (simp add: entries_ok_def)
    then show ?thesis using e by (auto simp: entry_ok_def set_remove1_eq)
  qed
  then show ?thesis using assms entries_remove_distinct by (auto simp: entries_ok_def)
qed

lemma qq_remove_query_spec:
  assumes inv: "qq_inv q" and known: "map_of (qq_queries q) qid \<noteq> None"
  shows "\<exists>q'. qq_remove_query qid q = (None, q') \<and> qq_inv q'
    \<and> map_of (qq_queries q') = (map_of (qq_queries q))(qid := None) \<and> \<not> qq_reachable qid q'"
proof -
  let ?q = "\<lparr>qq_queries = AList.delete qid (qq_queries q), qq_partitions = entries_remove qid (qq_partitions q),
    qq_inactive = entries_remove qid (qq_inactive q)\<rparr>"
  have act: "qq_remove_query qid q = (None, ?q)" using known by (auto simp: qq_remove_query_def)
  have map: "map_of (qq_queries ?q) = (map_of (qq_queries q))(qid := None)" by (simp add: delete_conv')
  have ents: "entries ?q = entries_remove qid (entries q)" by (simp add: entries_remove_append)
  have "entries_ok (dom (map_of (qq_queries ?q))) (entries ?q)"
    using inv entries_remove_ok [of _ "entries q" qid] unfolding ents map by (simp add: qq_inv_def)
  moreover have "qs_contexts s' \<noteq> [] \<and> pending p (entries ?q) + unat (scheduled_partitions s') = unat (candidate_partitions s')"
    if "map_of (qq_queries ?q) p = Some s'" for p s'
    using that inv pending_entries_remove [of p qid "entries q"] unfolding ents map
    by (auto simp: qq_inv_def split: if_splits)
  moreover have "\<not> outstanding (qq_queries ?q) p" if "e' \<in> set (entries_remove qid (qq_inactive q))" "p \<in> set (e_queries e')" for e' p
  proof -
    note e' = that(1) and p = that(2)
    obtain e where "e \<in> set (qq_inactive q)" "p \<in> set (e_queries e)"
      using entries_remove_set [OF e'] p by (metis notin_set_remove1)
    then have "\<not> outstanding (qq_queries q) p" using inv by (auto simp: qq_inv_def)
    then show ?thesis using map by (auto simp: outstanding_def split: option.splits)
  qed
  moreover have "sorted (map e_priority (qq_partitions ?q))" using qq_invD(6) [OF inv] entries_remove_sorted by simp
  moreover have "distinct (map fst (qq_queries ?q))" using inv by (simp add: qq_inv_def distinct_delete)
  ultimately have "qq_inv ?q" unfolding qq_inv_def by (simp only: query_queue.select_convs) blast
  moreover from this have "\<not> qq_reachable qid ?q"
    using map by (auto simp: qq_inv_def qq_reachable_def entries_ok_def entry_ok_def)
  ultimately show ?thesis using act map by blast
qed

section \<open>Erased partitions\<close>

lemma qq_mark_spec:
  assumes inv: "qq_inv q"
  shows "\<exists>q'. qq_mark_partition_erased pid q = Some (pid \<in> e_partition ` set (entries q), q')
    \<and> qq_inv q' \<and> qq_queries q' = qq_queries q
    \<and> map e_partition (entries q') = map e_partition (entries q)
    \<and> map e_queries (entries q') = map e_queries (entries q)
    \<and> (\<forall>e \<in> set (entries q'). e_partition e = pid \<longrightarrow> e_erased e)"
proof (cases rule: split_first_cases [of "\<lambda>e. e_partition e = pid" "qq_partitions q"])
  case (some xs e ys)
  then have out: "pid \<notin> e_partition ` set (qq_inactive q)" "pid \<notin> e_partition ` set xs" "pid \<notin> e_partition ` set ys"
    using qq_invD(2) [OF inv] by (auto simp: entries_ok_def)
  let ?q = "q\<lparr>qq_partitions := xs @ e\<lparr>e_erased := True\<rparr> # ys\<rparr>"
  have "qq_inv ?q" using qq_invD(6) [OF inv] some by (intro qq_inv_cong [OF inv]) auto
  then show ?thesis using some out
    by (auto simp: qq_mark_partition_erased_def dest: not_image_neq)
next
  case none
  note act = none
  show ?thesis
  proof (cases rule: split_first_cases [of "\<lambda>e. e_partition e = pid" "qq_inactive q"])
    case none
    then show ?thesis using act inv by (auto simp: qq_mark_partition_erased_def)
  next
    case (some xs e ys)
    then have out: "pid \<notin> e_partition ` set xs" "pid \<notin> e_partition ` set ys"
      using qq_invD(2) [OF inv] by (auto simp: entries_ok_def)
    let ?q = "q\<lparr>qq_inactive := xs @ e\<lparr>e_erased := True\<rparr> # ys\<rparr>"
    have "qq_inv ?q" using qq_invD(6) [OF inv] some by (intro qq_inv_cong [OF inv]) auto
    then show ?thesis using act some out
      by (auto simp: qq_mark_partition_erased_def dest: not_image_neq)
  qed
qed

section \<open>Scheduling\<close>

lemma unat_inc:
  fixes x y :: "'a::len word"
  assumes "x < y"
  shows "unat (x + 1) = unat x + 1"
proof -
  have "unat y < 2 ^ LENGTH('a)" by (rule unsigned_less)
  then have "unat x + 1 < 2 ^ LENGTH('a)" using assms unfolding word_less_nat_alt by linarith
  then show ?thesis by (simp add: unat_word_ariths(1))
qed

abbreviation scheduled_once :: "('t, 'e, 'a) query_state \<Rightarrow> ('t, 'e, 'a) query_state" where
  "scheduled_once s \<equiv> s\<lparr>scheduled_partitions := scheduled_partitions s + 1\<rparr>"

lemma bump_scheduled_map: "map_of (bump_scheduled qid qs) =
    (\<lambda>p. if p = qid then map_option scheduled_once (map_of qs p) else map_of qs p)"
  by (auto simp: bump_scheduled_def update_conv' fun_eq_iff split: option.splits)

lemma fold_bump_map:
  "distinct act \<Longrightarrow> map_of (fold bump_scheduled act qs) =
    (\<lambda>p. if p \<in> set act then map_option scheduled_once (map_of qs p) else map_of qs p)"
  by (induction act arbitrary: qs) (auto simp: bump_scheduled_map fun_eq_iff)

lemma fold_bump_distinct: "distinct (map fst qs) \<Longrightarrow> distinct (map fst (fold bump_scheduled act qs))"
  by (induction act arbitrary: qs) (auto simp: bump_scheduled_def distinct_update split: option.splits)

lemma filter_known:
  assumes "set xs \<subseteq> dom m"
  shows "filter (\<lambda>x. m x \<noteq> None) (filter p xs) = filter p xs"
  using assms by (induction xs) auto

text \<open>One iteration of the loop, for a queue whose last active entry is \<open>e\<close>.\<close>

lemma qq_next_snoc:
  assumes "qq_partitions q = ps @ [e]" and "set (e_queries e) \<subseteq> dom (map_of (qq_queries q))"
  shows "qq_next q =
    (let qs = qq_queries q;
         active = filter (outstanding qs) (e_queries e);
         rest = filter (\<lambda>qid. \<not> outstanding qs qid) (e_queries e);
         parked = (if rest \<noteq> [] then
             [e\<lparr>e_priority := sum_list (map (first_priority qs) rest), e_queries := rest\<rparr>] else []);
         q = q\<lparr>qq_partitions := ps, qq_inactive := qq_inactive q @ parked\<rparr>
     in if active \<noteq> [] then
          (Some (e\<lparr>e_priority := 0, e_queries := active\<rparr>), q\<lparr>qq_queries := fold bump_scheduled active qs\<rparr>)
        else qq_next q)"
  using assms(1) filter_known [OF assms(2)] by (subst qq_next.simps) (simp add: Let_def)

lemma qq_inv_snoc:
  assumes "qq_inv q" and "qq_partitions q = ps @ [e]"
  shows "entry_ok (dom (map_of (qq_queries q))) e"
    and "e_partition e \<notin> e_partition ` set (ps @ qq_inactive q)"
    and "entries_ok (dom (map_of (qq_queries q))) (ps @ qq_inactive q)"
  using assms by (auto simp: qq_inv_def entries_ok_def)

lemma qq_park_inv:
  assumes inv: "qq_inv q" and snoc: "qq_partitions q = ps @ [e]"
    and idle: "filter (outstanding (qq_queries q)) (e_queries e) = []"
  shows "qq_inv (q\<lparr>qq_partitions := ps, qq_inactive := qq_inactive q @ [e\<lparr>e_priority := n\<rparr>]\<rparr>)"
  using qq_invD(6) [OF inv] snoc idle
  by (intro qq_inv_cong [OF inv]) (auto simp: sorted_append filter_empty_conv)

lemma qq_schedule_inv:
  assumes inv: "qq_inv q" and snoc: "qq_partitions q = ps @ [e]"
    and act: "act = filter (outstanding (qq_queries q)) (e_queries e)"
    and rest: "rest = filter (\<lambda>qid. \<not> outstanding (qq_queries q) qid) (e_queries e)"
    and q': "qq_queries q' = fold bump_scheduled act (qq_queries q)" "qq_partitions q' = ps"
      "qq_inactive q' = qq_inactive q @ (if rest \<noteq> [] then [e\<lparr>e_priority := n, e_queries := rest\<rparr>] else [])"
  shows "qq_inv q'"
proof (rule qq_invI)
  let ?qs = "qq_queries q" and ?m = "map_of (qq_queries q)"
  have e: "entry_ok (dom ?m) e" "entries_ok (dom ?m) (ps @ qq_inactive q)"
    "e_partition e \<notin> e_partition ` set (ps @ qq_inactive q)"
    using qq_inv_snoc [OF inv snoc] by simp_all
  have dist: "distinct act" using e(1) act by (simp add: entry_ok_def)
  have map: "map_of (qq_queries q') = (\<lambda>p. if p \<in> set act then map_option scheduled_once (?m p) else ?m p)"
    unfolding q' by (rule fold_bump_map [OF dist])
  then have dom: "dom (map_of (qq_queries q')) = dom ?m" by (auto simp: dom_def split: if_splits)
  show "distinct (map fst (qq_queries q'))" unfolding q' using qq_invD(1) [OF inv] by (rule fold_bump_distinct)
  show "entries_ok (dom (map_of (qq_queries q'))) (entries q')"
    using e rest unfolding dom q'(2,3) by (auto simp: entries_ok_def entry_ok_def)
  show "sorted (map e_priority (qq_partitions q'))" using qq_invD(6) [OF inv] snoc q'(2) by (simp add: sorted_append)
  have idle: "p \<notin> set act \<and> \<not> outstanding ?qs p" if "f \<in> set (qq_inactive q')" "p \<in> set (e_queries f)" for f p
    using that qq_invD(5) [OF inv, of f p] act rest unfolding q' by (auto split: if_splits)
  show "\<not> outstanding (qq_queries q') p" if "f \<in> set (qq_inactive q')" "p \<in> set (e_queries f)" for f p
    using idle [OF that] map outstanding_cong [of "qq_queries q'" p ?qs] by simp
  show "qs_contexts s \<noteq> [] \<and> pending p (entries q') + unat (scheduled_partitions s) = unat (candidate_partitions s)"
    if s: "map_of (qq_queries q') p = Some s" for p s
  proof -
    obtain s0 where s0: "?m p = Some s0" "s = (if p \<in> set act then scheduled_once s0 else s0)"
      using s map by (auto split: if_splits)
    have "unat (scheduled_partitions s) = unat (scheduled_partitions s0) + (if p \<in> set act then 1 else 0)"
      using s0 act unat_inc [of "scheduled_partitions s0" "requested_partitions s0"] by (auto simp: outstanding_def)
    moreover have "pending p (entries q') + (if p \<in> set act then 1 else 0) = pending p (entries q)"
      using snoc act rest unfolding q' by (auto simp: filter_empty_conv)
    ultimately show ?thesis using qq_invD(3,4) [OF inv s0(1)] s0(2) by auto
  qed
qed

lemma qq_next_spec:
  assumes "qq_inv q" and "qq_next q = (r, q')"
  shows "qq_inv q' \<and> (case r of
      None \<Rightarrow> qq_partitions q' = [] \<and> qq_queries q' = qq_queries q \<and> mset (map ekey (entries q')) = mset (map ekey (entries q))
    | Some e \<Rightarrow> e_queries e \<noteq> [] \<and> distinct (e_queries e) \<and> (\<forall>qid \<in> set (e_queries e). outstanding (qq_queries q) qid)
        \<and> qq_queries q' = fold bump_scheduled (e_queries e) (qq_queries q)
        \<and> (\<exists>e0 \<in> set (qq_partitions q). e_partition e = e_partition e0 \<and> e_erased e = e_erased e0
            \<and> e_queries e = filter (outstanding (qq_queries q)) (e_queries e0)))"
  using assms
proof (induction "length (qq_partitions q)" arbitrary: q rule: less_induct)
  case less
  note inv = less.prems(1)
  show ?case
  proof (cases "qq_partitions q" rule: rev_exhaust)
    case Nil
    then show ?thesis using less.prems by (auto simp: qq_next.simps)
  next
    case (snoc ps e)
    let ?qs = "qq_queries q"
    let ?act = "filter (outstanding ?qs) (e_queries e)" and ?rest = "filter (\<lambda>p. \<not> outstanding ?qs p) (e_queries e)"
    have ok: "entry_ok (dom (map_of ?qs)) e" by (rule qq_inv_snoc(1) [OF inv snoc])
    then have next_q: "set (e_queries e) \<subseteq> dom (map_of ?qs)" by (simp add: entry_ok_def)
    show ?thesis
    proof (cases "?act = []")
      case True
      then have all: "?rest = e_queries e" by (auto simp: filter_empty_conv intro: filter_True)
      let ?q = "q\<lparr>qq_partitions := ps, qq_inactive := qq_inactive q
        @ [e\<lparr>e_priority := sum_list (map (first_priority ?qs) (e_queries e))\<rparr>]\<rparr>"
      have step: "qq_next q = qq_next ?q" using qq_next_snoc [OF snoc next_q] ok all True by (simp add: entry_ok_def)
      have inv1: "qq_inv ?q" by (rule qq_park_inv [OF inv snoc True])
      have "length (qq_partitions ?q) < length (qq_partitions q)" using snoc by simp
      from less.hyps [OF this inv1 less.prems(2) [unfolded step]] have "qq_inv q' \<and> (case r of
          None \<Rightarrow> qq_partitions q' = [] \<and> qq_queries q' = ?qs \<and> mset (map ekey (entries q')) = mset (map ekey (entries ?q))
        | Some f \<Rightarrow> e_queries f \<noteq> [] \<and> distinct (e_queries f) \<and> (\<forall>qid \<in> set (e_queries f). outstanding ?qs qid)
          \<and> qq_queries q' = fold bump_scheduled (e_queries f) ?qs
          \<and> (\<exists>e0 \<in> set ps. e_partition f = e_partition e0 \<and> e_erased f = e_erased e0
              \<and> e_queries f = filter (outstanding ?qs) (e_queries e0)))"
        by (cases r) auto
      moreover have "mset (map ekey (entries ?q)) = mset (map ekey (entries q))" using snoc by simp
      ultimately show ?thesis using snoc by (auto split: option.splits)
    next
      case False
      let ?q = "q\<lparr>qq_partitions := ps, qq_inactive := qq_inactive q @ (if ?rest \<noteq> []
          then [e\<lparr>e_priority := sum_list (map (first_priority ?qs) ?rest), e_queries := ?rest\<rparr>] else []),
        qq_queries := fold bump_scheduled ?act ?qs\<rparr>"
      have res: "(r, q') = (Some (e\<lparr>e_priority := 0, e_queries := ?act\<rparr>), ?q)"
        using qq_next_snoc [OF snoc next_q] less.prems(2) False by (simp add: Let_def)
      have "qq_inv ?q" by (rule qq_schedule_inv [OF inv snoc refl refl]) simp_all
      then show ?thesis using res False ok snoc by (auto simp: entry_ok_def)
    qed
  qed
qed

lemma qq_next_progress:
  assumes inv: "qq_inv q" and s: "map_of (qq_queries q) qid = Some s"
    and "scheduled_partitions s < requested_partitions s" and "scheduled_partitions s < candidate_partitions s"
  shows "\<exists>e q'. qq_next q = (Some e, q')"
proof (rule ccontr)
  assume "\<nexists>e q'. qq_next q = (Some e, q')"
  then obtain q' where q': "qq_next q = (None, q')" by (metis option.exhaust surj_pair)
  have spec: "qq_inv q'" "qq_partitions q' = []" "qq_queries q' = qq_queries q"
    "mset (map ekey (entries q')) = mset (map ekey (entries q))" using qq_next_spec [OF inv q'] by auto
  have "0 < pending qid (entries q)"
    using qq_invD(4) [OF inv s] assms(4) unfolding word_less_nat_alt by linarith
  then have "0 < pending qid (qq_inactive q')" using pending_cong [OF spec(4), of qid] spec(2) by simp
  then obtain e where "e \<in> set (qq_inactive q')" "qid \<in> set (e_queries e)"
    using pending_0_iff [of qid "qq_inactive q'"] by auto
  then have "\<not> outstanding (qq_queries q) qid" using qq_invD(5) [OF spec(1)] spec(3) by metis
  then show False using s assms(3) by (simp add: outstanding_def)
qed

end
