(* ===== verification/Query_Run.thy ===== *)
theory Query_Run
  imports Query_Queue_Inv
begin

text \<open>
  The query queue in operation: the index inserts queries, hands out entries, reports the completion
  of every lookup it started, and serves requests to activate, to remove and to erase in between, in
  any order. The state is the queue together with the multiset of the lookups in flight.
\<close>

section \<open>The step relation\<close>

text \<open>A new query has fresh counters and an identifier that no lookup in flight carries; its candidates
  are distinct. A completion answers a lookup in flight.\<close>

inductive qq_step ::
    "('t queue_entry list \<Rightarrow> 't queue_entry list) \<Rightarrow> ('t, 'e, 'a) query_queue \<times> uuid multiset
      \<Rightarrow> ('t, 'e, 'a) query_queue \<times> uuid multiset \<Rightarrow> bool"
  for srt where
  step_insert: "qs_contexts s = (t, c) # cs \<Longrightarrow> qc_id c \<notin># fl \<Longrightarrow>
      scheduled_partitions s = 0 \<Longrightarrow> completed_partitions s = 0 \<Longrightarrow>
      distinct (map snd (clr_partitions candidates)) \<Longrightarrow>
      qq_insert srt s candidates q = Some (err, q') \<Longrightarrow> qq_step srt (q, fl) (q', fl)"
| step_activate: "qq_activate srt qid n q = (err, q') \<Longrightarrow> qq_step srt (q, fl) (q', fl)"
| step_remove: "qq_remove_query qid q = (err, q') \<Longrightarrow> qq_step srt (q, fl) (q', fl)"
| step_mark: "qq_mark_partition_erased pid q = Some (found, q') \<Longrightarrow> qq_step srt (q, fl) (q', fl)"
| step_next: "qq_next q = (Some e, q') \<Longrightarrow> qq_step srt (q, fl) (q', fl + mset (e_queries e))"
| step_idle: "qq_next q = (None, q') \<Longrightarrow> qq_step srt (q, fl) (q', fl)"
| step_complete: "qid \<in># fl \<Longrightarrow> qq_handle_completion qid q = Some (client, q') \<Longrightarrow>
      qq_step srt (q, fl) (q', fl - {#qid#})"

inductive_cases qq_stepE: "qq_step srt (q, fl) (q', fl')"

inductive qq_reach ::
    "('t queue_entry list \<Rightarrow> 't queue_entry list) \<Rightarrow> ('t, 'e, 'a) query_queue \<times> uuid multiset \<Rightarrow> bool"
  for srt where
  reach_new: "qq_reach srt (qq_new, {#})"
| reach_step: "qq_reach srt x \<Longrightarrow> qq_step srt x y \<Longrightarrow> qq_reach srt y"

section \<open>The invariant of a run\<close>

definition run_inv :: "('t, 'e, 'a) query_queue \<times> uuid multiset \<Rightarrow> bool" where
  "run_inv x \<longleftrightarrow> qq_inv (fst x) \<and>
    (\<forall>qid s. map_of (qq_queries (fst x)) qid = Some s \<longrightarrow>
      unat (completed_partitions s) + count (snd x) qid = unat (scheduled_partitions s)
      \<and> (completed_partitions s < candidate_partitions s \<or> candidate_partitions s = 0))"

lemma run_invD:
  assumes "run_inv (q, fl)"
  shows "qq_inv q"
    and "map_of (qq_queries q) qid = Some s \<Longrightarrow>
      unat (completed_partitions s) + count fl qid = unat (scheduled_partitions s)"
    and "map_of (qq_queries q) qid = Some s \<Longrightarrow>
      completed_partitions s < candidate_partitions s \<or> candidate_partitions s = 0"
  using assms unfolding run_inv_def by auto

lemma run_invI:
  assumes "qq_inv q" and "\<And>qid s. map_of (qq_queries q) qid = Some s \<Longrightarrow>
      unat (completed_partitions s) + count fl qid = unat (scheduled_partitions s)
      \<and> (completed_partitions s < candidate_partitions s \<or> candidate_partitions s = 0)"
  shows "run_inv (q, fl)"
  using assms unfolding run_inv_def by auto

lemma qq_inv_erase_idle:
  assumes inv: "qq_inv q" and idle: "pending qid (entries q) = 0"
  shows "qq_inv (q\<lparr>qq_queries := AList.delete qid (qq_queries q)\<rparr>)"
proof (rule qq_invI)
  let ?q = "q\<lparr>qq_queries := AList.delete qid (qq_queries q)\<rparr>"
  have map: "map_of (qq_queries ?q) = (map_of (qq_queries q))(qid := None)" by (simp add: delete_conv')
  show "distinct (map fst (qq_queries ?q))" using qq_invD(1) [OF inv] by (simp add: distinct_delete)
  have "entry_ok (dom (map_of (qq_queries ?q))) e" if "e \<in> set (entries q)" for e
    using that qq_invD(2) [OF inv] idle unfolding map pending_0_iff by (auto simp: entries_ok_def entry_ok_def)
  then show "entries_ok (dom (map_of (qq_queries ?q))) (entries ?q)"
    using qq_invD(2) [OF inv] by (simp add: entries_ok_def)
  show "qs_contexts s \<noteq> [] \<and> pending p (entries ?q) + unat (scheduled_partitions s) = unat (candidate_partitions s)"
    if "map_of (qq_queries ?q) p = Some s" for p s
    using that qq_invD(3,4) [OF inv, of p s] unfolding map by (auto split: if_splits)
  show "\<not> outstanding (qq_queries ?q) p" if "e \<in> set (qq_inactive ?q)" "p \<in> set (e_queries e)" for e p
    using that qq_invD(5) [OF inv, of e p] unfolding outstanding_def map by (auto split: option.splits)
  show "sorted (map e_priority (qq_partitions ?q))" using qq_invD(6) [OF inv] by simp
qed

lemma qq_inv_count:
  assumes inv: "qq_inv q" and s: "map_of (qq_queries q) qid = Some s"
    and s': "scheduled_partitions s' = scheduled_partitions s" "requested_partitions s' = requested_partitions s"
      "candidate_partitions s' = candidate_partitions s" "qs_contexts s' = qs_contexts s"
  shows "qq_inv (q\<lparr>qq_queries := AList.update qid s' (qq_queries q)\<rparr>)"
proof (rule qq_invI)
  let ?q = "q\<lparr>qq_queries := AList.update qid s' (qq_queries q)\<rparr>"
  have map: "map_of (qq_queries ?q) = (map_of (qq_queries q))(qid \<mapsto> s')" by (simp add: update_conv')
  show "distinct (map fst (qq_queries ?q))" using qq_invD(1) [OF inv] by (simp add: distinct_update)
  have dom: "dom (map_of (qq_queries ?q)) = dom (map_of (qq_queries q))" using map s by auto
  show "entries_ok (dom (map_of (qq_queries ?q))) (entries ?q)"
    using qq_invD(2) [OF inv] unfolding dom by simp
  show "qs_contexts r \<noteq> [] \<and> pending p (entries ?q) + unat (scheduled_partitions r) = unat (candidate_partitions r)"
    if "map_of (qq_queries ?q) p = Some r" for p r
    using that qq_invD(3,4) [OF inv, of p] s s' unfolding map by (auto split: if_splits)
  show "\<not> outstanding (qq_queries ?q) p" if "e \<in> set (qq_inactive ?q)" "p \<in> set (e_queries e)" for e p
    using that qq_invD(5) [OF inv, of e p] s s' unfolding outstanding_def map by (auto split: if_splits)
  show "sorted (map e_priority (qq_partitions ?q))" using qq_invD(6) [OF inv] by simp
qed

section \<open>Completion\<close>

abbreviation completed_once :: "('t, 'e, 'a) query_state \<Rightarrow> ('t, 'e, 'a) query_state" where
  "completed_once s \<equiv> s\<lparr>completed_partitions := completed_partitions s + 1\<rparr>"

lemma qq_completion_spec:
  assumes inv: "run_inv (q, fl)" and fl: "qid \<in># fl" and s: "map_of (qq_queries q) qid = Some s"
  shows "\<exists>q'. qq_handle_completion qid q
      = Some (if completed_partitions s + 1 = requested_partitions s then Some (qs_client s) else None, q')
    \<and> run_inv (q', fl - {#qid#})
    \<and> map_of (qq_queries q') = (map_of (qq_queries q))
        (qid := if completed_partitions s + 1 = candidate_partitions s then None else Some (completed_once s))"
proof -
  let ?s = "completed_once s" and ?q = "q\<lparr>qq_queries := AList.update qid (completed_once s) (qq_queries q)\<rparr>"
  note qinv = run_invD(1) [OF inv]
  have less: "unat (completed_partitions s) < unat (scheduled_partitions s)"
    using run_invD(2) [OF inv s] fl by (simp flip: count_greater_zero_iff)
  have le: "pending qid (entries q) + unat (scheduled_partitions s) = unat (candidate_partitions s)"
    using qq_invD(4) [OF qinv s] by simp
  have lt: "completed_partitions s < candidate_partitions s" using less le by (simp add: word_less_nat_alt)
  have suc: "unat (completed_partitions ?s) = unat (completed_partitions s) + 1" using unat_inc [OF lt] by simp
  have map: "map_of (qq_queries ?q) = (map_of (qq_queries q))(qid \<mapsto> ?s)" by (simp add: update_conv')
  have inv1: "qq_inv ?q" by (rule qq_inv_count [OF qinv s]) simp_all
  have other: "unat (completed_partitions r) + count (fl - {#qid#}) p = unat (scheduled_partitions r)
      \<and> (completed_partitions r < candidate_partitions r \<or> candidate_partitions r = 0)"
    if "map_of (qq_queries q) p = Some r" "p \<noteq> qid" for p r
    using run_invD(2,3) [OF inv that(1)] that(2) by simp
  show ?thesis
  proof (cases "completed_partitions s + 1 = candidate_partitions s")
    case True
    then have idle: "pending qid (entries ?q) = 0" using suc less le by simp
    then have "\<not> qq_reachable qid ?q" unfolding pending_0_iff by (auto simp: qq_reachable_def)
    moreover have map2: "map_of (AList.delete qid (qq_queries ?q)) = (map_of (qq_queries q))(qid := None)"
      by (simp add: delete_conv' update_conv')
    moreover have "run_inv (?q\<lparr>qq_queries := AList.delete qid (qq_queries ?q)\<rparr>, fl - {#qid#})"
      using qq_inv_erase_idle [OF inv1 idle] other map2 by (intro run_invI) (auto split: if_splits)
    ultimately show ?thesis using s True by (simp add: qq_handle_completion_def Let_def)
  next
    case False
    have "completed_partitions ?s < candidate_partitions ?s"
    proof -
      have "unat (completed_partitions s) + 1 \<noteq> unat (candidate_partitions s)"
        using False suc by (metis query_state.select_convs(6) query_state.surjective query_state.update_convs(6) unsigned_word_eqI)
      then show ?thesis using lt suc unfolding word_less_nat_alt by simp
    qed
    moreover have "unat (completed_partitions ?s) + count (fl - {#qid#}) qid = unat (scheduled_partitions ?s)"
      using run_invD(2) [OF inv s] fl suc by (simp flip: count_greater_zero_iff)
    ultimately have "run_inv (?q, fl - {#qid#})"
      using inv1 other by (intro run_invI) (auto simp: update_conv' split: if_splits)
    then show ?thesis using s False map by (simp add: qq_handle_completion_def Let_def)
  qed
qed

section \<open>Every step keeps the invariant\<close>

lemma run_inv_next:
  assumes inv: "run_inv (q, fl)" and nx: "qq_next q = (Some e, q')"
  shows "run_inv (q', fl + mset (e_queries e))"
proof (rule run_invI)
  have spec: "qq_inv q'" "distinct (e_queries e)" "\<forall>qid \<in> set (e_queries e). outstanding (qq_queries q) qid"
    "qq_queries q' = fold bump_scheduled (e_queries e) (qq_queries q)"
    using qq_next_spec [OF run_invD(1) [OF inv] nx] by auto
  then show "qq_inv q'" by simp
  fix qid s
  assume "map_of (qq_queries q') qid = Some s"
  then obtain s0 where s0: "map_of (qq_queries q) qid = Some s0"
    "s = (if qid \<in> set (e_queries e) then scheduled_once s0 else s0)"
    unfolding spec(4) fold_bump_map [OF spec(2)] by (auto split: if_splits)
  have "unat (scheduled_partitions s) = unat (scheduled_partitions s0) + (if qid \<in> set (e_queries e) then 1 else 0)"
    using s0 spec(3) unat_inc [of "scheduled_partitions s0" "requested_partitions s0"] by (auto simp: outstanding_def)
  moreover have "count (mset (e_queries e)) qid = (if qid \<in> set (e_queries e) then 1 else 0)"
    using spec(2) by (simp add: distinct_count_atmost_1)
  ultimately show "unat (completed_partitions s) + count (fl + mset (e_queries e)) qid = unat (scheduled_partitions s)
      \<and> (completed_partitions s < candidate_partitions s \<or> candidate_partitions s = 0)"
    using run_invD(2,3) [OF inv s0(1)] s0(2) by auto
qed

lemma run_inv_insert:
  assumes inv: "run_inv (q, fl)" and srt: "sorts_entries srt" and s: "qs_contexts s = (t, c) # cs" "qc_id c \<notin># fl"
    "scheduled_partitions s = 0" "completed_partitions s = 0" "distinct (map snd (clr_partitions candidates))"
    and ins: "qq_insert srt s candidates q = Some (err, q')"
  shows "run_inv (q', fl)"
proof (cases "candidates = [] \<or> unat (candidate_partitions s) \<noteq> clr_size candidates \<or> map_of (qq_queries q) (qc_id c) \<noteq> None")
  case True
  then have "q' = q" using ins s(1) by (auto simp: qq_insert_def clr_empty_def Let_def split: if_splits)
  then show ?thesis using inv by simp
next
  case False
  then have spec: "qq_inv q'" "qq_queries q' = (qc_id c, s) # qq_queries q"
    using qq_insert_spec [OF run_invD(1) [OF inv] srt s(1) _ _ _ s(5,3)] ins by auto
  show ?thesis
  proof (rule run_invI)
    show "unat (completed_partitions r) + count fl p = unat (scheduled_partitions r)
        \<and> (completed_partitions r < candidate_partitions r \<or> candidate_partitions r = 0)"
      if "map_of (qq_queries q') p = Some r" for p r
      using that run_invD(2,3) [OF inv, of p r] s spec(2)
      by (auto simp: not_in_iff word_neq_0_conv split: if_splits)
  qed (rule spec(1))
qed

lemma run_inv_same_counts:
  assumes "run_inv (q, fl)" and "qq_inv q'"
    and "\<And>p r'. map_of (qq_queries q') p = Some r' \<Longrightarrow> \<exists>r. map_of (qq_queries q) p = Some r
      \<and> completed_partitions r' = completed_partitions r \<and> scheduled_partitions r' = scheduled_partitions r
      \<and> candidate_partitions r' = candidate_partitions r"
  shows "run_inv (q', fl)"
proof (rule run_invI)
  fix p r'
  assume "map_of (qq_queries q') p = Some r'"
  from assms(3) [OF this] obtain r where "map_of (qq_queries q) p = Some r"
    "completed_partitions r' = completed_partitions r" "scheduled_partitions r' = scheduled_partitions r"
    "candidate_partitions r' = candidate_partitions r" by auto
  then show "unat (completed_partitions r') + count fl p = unat (scheduled_partitions r')
      \<and> (completed_partitions r' < candidate_partitions r' \<or> candidate_partitions r' = 0)"
    using run_invD(2,3) [OF assms(1)] by metis
qed (rule assms(2))

lemma run_inv_step:
  assumes "qq_step srt x y" and "sorts_entries srt" and "run_inv x"
  shows "run_inv y"
  using assms
proof (induction rule: qq_step.induct)
  case (step_insert s t c cs fl candidates q err q')
  then show ?case by (blast intro: run_inv_insert)
next
  case (step_activate qid n q err q' fl)
  note inv = run_invD(1) [OF step_activate(3)]
  show ?case
  proof (cases "map_of (qq_queries q) qid")
    case None
    then show ?thesis using step_activate qq_activate_unknown [OF None, of srt n] by simp
  next
    case (Some s)
    from qq_activate_spec [OF inv step_activate(2) Some, of n] step_activate(1)
    have "qq_inv q'" "map_of (qq_queries q') = (map_of (qq_queries q))
        (qid \<mapsto> s\<lparr>requested_partitions := requested_partitions s + n\<rparr>)" by auto
    then show ?thesis using Some by (intro run_inv_same_counts [OF step_activate(3)]) (auto split: if_splits)
  qed
next
  case (step_remove qid q err q' fl)
  note inv = run_invD(1) [OF step_remove(3)]
  show ?case
  proof (cases "map_of (qq_queries q) qid = None")
    case True
    then show ?thesis using step_remove by (simp add: qq_remove_query_def)
  next
    case False
    from qq_remove_query_spec [OF inv False] step_remove(1)
    have "qq_inv q'" "map_of (qq_queries q') = (map_of (qq_queries q))(qid := None)" by auto
    then show ?thesis by (intro run_inv_same_counts [OF step_remove(3)]) (auto split: if_splits)
  qed
next
  case (step_mark pid q found q' fl)
  from qq_mark_spec [OF run_invD(1) [OF step_mark(3)], of pid] step_mark(1)
  have "qq_inv q'" "qq_queries q' = qq_queries q" by auto
  then show ?case by (intro run_inv_same_counts [OF step_mark(3)]) auto
next
  case (step_next q e q' fl)
  then show ?case by (blast intro: run_inv_next)
next
  case (step_idle q q' fl)
  from qq_next_spec [OF run_invD(1) [OF step_idle(3)] step_idle(1)]
  have "qq_inv q'" "qq_queries q' = qq_queries q" by auto
  then show ?case by (intro run_inv_same_counts [OF step_idle(3)]) auto
next
  case (step_complete qid fl q client q')
  show ?case
  proof (cases "map_of (qq_queries q) qid")
    case None
    then have "q' = q" using step_complete(2) by (simp add: qq_handle_completion_def)
    then show ?thesis using step_complete(4) None
      by (auto simp: run_inv_def)
  next
    case (Some s)
    from qq_completion_spec [OF step_complete(4,1) Some] step_complete(2) show ?thesis by auto
  qed
qed

lemma run_inv_new: "run_inv (qq_new, {#})"
  using qq_new_inv by (intro run_invI) (simp_all add: qq_new_def)

lemma reach_run_inv:
  assumes "qq_reach srt x" and "sorts_entries srt"
  shows "run_inv x"
  using assms by (induction rule: qq_reach.induct) (auto intro: run_inv_new run_inv_step)

section \<open>Consequences\<close>

lemma reach_no_panic:
  assumes "qq_reach srt (q, fl)" and "sorts_entries srt"
  shows "qid \<in># fl \<Longrightarrow> qq_handle_completion qid q \<noteq> None"
    and "qq_mark_partition_erased pid q \<noteq> None"
    and "qs_contexts s = (t, c) # cs \<Longrightarrow> scheduled_partitions s = 0 \<Longrightarrow>
      distinct (map snd (clr_partitions candidates)) \<Longrightarrow> qq_insert srt s candidates q \<noteq> None"
proof -
  note run = reach_run_inv [OF assms]
  note inv = run_invD(1) [OF run]
  show "qq_handle_completion qid q \<noteq> None" if "qid \<in># fl"
    using qq_completion_spec [OF run that]
    by (cases "map_of (qq_queries q) qid") (auto simp: qq_handle_completion_def)
  show "qq_mark_partition_erased pid q \<noteq> None" using qq_mark_spec [OF inv, of pid] by auto
  show "qq_insert srt s candidates q \<noteq> None" if s: "qs_contexts s = (t, c) # cs" "scheduled_partitions s = 0"
    "distinct (map snd (clr_partitions candidates))"
  proof (cases "candidates = [] \<or> unat (candidate_partitions s) \<noteq> clr_size candidates \<or> map_of (qq_queries q) (qc_id c) \<noteq> None")
    case True
    then show ?thesis using s(1) by (auto simp: qq_insert_def clr_empty_def Let_def)
  next
    case False
    then show ?thesis using qq_insert_spec [OF inv assms(2) s(1) _ _ _ s(3,2)] by auto
  qed
qed

section \<open>Draining the queue\<close>

text \<open>The index at work: it only hands out entries and completes lookups.\<close>

inductive qq_work :: "('t, 'e, 'a) query_queue \<times> uuid multiset \<Rightarrow> ('t, 'e, 'a) query_queue \<times> uuid multiset \<Rightarrow> bool" where
  work_next: "qq_next q = (Some e, q') \<Longrightarrow> qq_work (q, fl) (q', fl + mset (e_queries e))"
| work_complete: "qid \<in># fl \<Longrightarrow> qq_handle_completion qid q = Some (client, q') \<Longrightarrow>
      qq_work (q, fl) (q', fl - {#qid#})"

lemma work_step: "qq_work x y \<Longrightarrow> qq_step srt x y"
  by (induction rule: qq_work.induct) (auto intro: qq_step.intros)

definition unscheduled :: "('t, 'e, 'a) query_queue \<Rightarrow> nat" where
  "unscheduled q = (\<Sum>qid \<in> dom (map_of (qq_queries q)).
    case map_of (qq_queries q) qid of None \<Rightarrow> 0 | Some s \<Rightarrow> unat (candidate_partitions s) - unat (scheduled_partitions s))"

lemma complete_one:
  assumes inv: "run_inv (q, fl)" and fl: "qid \<in># fl"
  shows "\<exists>client q'. qq_handle_completion qid q = Some (client, q') \<and> run_inv (q', fl - {#qid#}) \<and> unscheduled q' \<le> unscheduled q"
proof (cases "map_of (qq_queries q) qid")
  case None
  have "run_inv (q, fl - {#qid#})"
    using run_invD [OF inv] None by (intro run_invI) (auto simp: count_diff)
  then show ?thesis using None by (simp add: qq_handle_completion_def)
next
  case (Some s)
  obtain client q' where q': "qq_handle_completion qid q = Some (client, q')" "run_inv (q', fl - {#qid#})"
    "map_of (qq_queries q') = (map_of (qq_queries q))
        (qid := if completed_partitions s + 1 = candidate_partitions s then None else Some (completed_once s))"
    using qq_completion_spec [OF inv fl Some] by blast
  let ?f = "\<lambda>qs p. case map_of qs p of None \<Rightarrow> 0
    | Some s \<Rightarrow> unat (candidate_partitions s) - unat (scheduled_partitions s)"
  have "?f (qq_queries q') p \<le> ?f (qq_queries q) p" for p
    unfolding q'(3) using Some by simp
  moreover have "dom (map_of (qq_queries q')) \<subseteq> dom (map_of (qq_queries q))" unfolding q'(3) using Some by (auto split: if_splits)
  moreover have "finite (dom (map_of (qq_queries q)))" by (rule finite_dom_map_of)
  ultimately have "sum (?f (qq_queries q')) (dom (map_of (qq_queries q'))) \<le> sum (?f (qq_queries q)) (dom (map_of (qq_queries q)))"
    by (meson finite_subset order_trans sum_mono sum_mono2 zero_le)
  then show ?thesis using q' by (auto simp: unscheduled_def)
qed

lemma complete_all:
  "run_inv (q, fl) \<Longrightarrow> \<exists>q'. qq_work\<^sup>*\<^sup>* (q, fl) (q', {#}) \<and> run_inv (q', {#}) \<and> unscheduled q' \<le> unscheduled q"
proof (induction "size fl" arbitrary: q fl)
  case 0
  then show ?case by auto
next
  case (Suc n)
  obtain qid where qid: "qid \<in># fl" using Suc.hyps(2) by (metis multiset_nonemptyE nat.distinct(1) size_empty)
  obtain client q1 where q1: "qq_handle_completion qid q = Some (client, q1)" "run_inv (q1, fl - {#qid#})"
    "unscheduled q1 \<le> unscheduled q"
    using complete_one [OF Suc.prems qid] by blast
  have "n = size (fl - {#qid#})" using Suc.hyps(2) qid by (simp add: size_Diff_singleton)
  from Suc.hyps(1) [OF this q1(2)] obtain q' where "qq_work\<^sup>*\<^sup>* (q1, fl - {#qid#}) (q', {#})" "run_inv (q', {#})"
    "unscheduled q' \<le> unscheduled q1" by blast
  moreover have "qq_work (q, fl) (q1, fl - {#qid#})" by (rule work_complete [OF qid q1(1)])
  ultimately show ?case using q1(3) by (meson converse_rtranclp_into_rtranclp order_trans)
qed

lemma unscheduled_hand_out:
  assumes inv: "run_inv (q, fl)" and nx: "qq_next q = (Some e, q')"
  shows "unscheduled q' + length (e_queries e) \<le> unscheduled q" and "e_queries e \<noteq> []"
proof -
  let ?f = "\<lambda>qs p. case map_of qs p of None \<Rightarrow> 0
    | Some s \<Rightarrow> unat (candidate_partitions s) - unat (scheduled_partitions s)"
  have spec: "qq_inv q'" "e_queries e \<noteq> []" "distinct (e_queries e)"
    "\<forall>qid \<in> set (e_queries e). outstanding (qq_queries q) qid" "qq_queries q' = fold bump_scheduled (e_queries e) (qq_queries q)"
    using qq_next_spec [OF run_invD(1) [OF inv] nx] by auto
  have map: "map_of (qq_queries q') = (\<lambda>p. map_option (\<lambda>s. if p \<in> set (e_queries e) then scheduled_once s else s) (map_of (qq_queries q) p))"
    unfolding spec(5) fold_bump_map [OF spec(3)] by (auto simp: fun_eq_iff option.map_ident split: option.split)
  have less: "?f (qq_queries q') p < ?f (qq_queries q) p" if p: "p \<in> set (e_queries e)" for p
  proof -
    obtain s where s: "map_of (qq_queries q) p = Some s" "scheduled_partitions s < requested_partitions s"
      using spec(4) p by (auto simp: outstanding_def split: option.splits)
    have s': "map_of (qq_queries q') p = Some (scheduled_once s)" using s(1) p by (simp add: map)
    have "unat (scheduled_partitions (scheduled_once s)) \<le> unat (candidate_partitions s)"
      using qq_invD(4) [OF spec(1) s'] by simp
    then show ?thesis using s(1) s' unat_inc [OF s(2)] by simp
  qed
  have le: "?f (qq_queries q') p \<le> ?f (qq_queries q) p" for p
  proof (cases "p \<in> set (e_queries e)")
    case True
    then show ?thesis using less by (simp add: less_imp_le)
  next
    case False
    then show ?thesis by (simp add: map split: option.split)
  qed
  have dom: "dom (map_of (qq_queries q')) = dom (map_of (qq_queries q))" by (auto simp: map dom_def)
  have "set (e_queries e) \<subseteq> dom (map_of (qq_queries q))" using spec(4) by (auto simp: outstanding_def split: option.splits)
  then have "sum (\<lambda>p. of_bool (p \<in> set (e_queries e))) (dom (map_of (qq_queries q))) = card (set (e_queries e))"
    by (simp add: finite_dom_map_of Int_absorb1 Collect_mem_eq flip: sum.inter_filter)
  moreover have "sum (\<lambda>p. ?f (qq_queries q') p + of_bool (p \<in> set (e_queries e))) (dom (map_of (qq_queries q)))
      \<le> sum (?f (qq_queries q)) (dom (map_of (qq_queries q)))"
    using less le by (intro sum_mono) (auto simp: Suc_le_eq)
  ultimately show "unscheduled q' + length (e_queries e) \<le> unscheduled q"
    by (simp add: unscheduled_def dom sum.distrib distinct_card [OF spec(3)])
  show "e_queries e \<noteq> []" by (rule spec(2))
qed

lemma unscheduled_next: "run_inv (q, fl) \<Longrightarrow> qq_next q = (Some e, q') \<Longrightarrow> unscheduled q' < unscheduled q"
  using unscheduled_hand_out [of q fl e q'] by (cases "e_queries e") auto

lemma drain:
  "run_inv (q, {#}) \<Longrightarrow> \<exists>q' q''. qq_work\<^sup>*\<^sup>* (q, {#}) (q', {#}) \<and> run_inv (q', {#}) \<and> qq_next q' = (None, q'')"
proof (induction "unscheduled q" arbitrary: q rule: less_induct)
  case less
  show ?case
  proof (cases "qq_next q")
    case (Pair r q1)
    show ?thesis
    proof (cases r)
      case None
      then show ?thesis using Pair less.prems by blast
    next
      case (Some e)
      have nx: "qq_next q = (Some e, q1)" using Pair Some by simp
      have inv1: "run_inv (q1, mset (e_queries e))" using run_inv_next [OF less.prems nx] by simp
      obtain q2 where q2: "qq_work\<^sup>*\<^sup>* (q1, mset (e_queries e)) (q2, {#})" "run_inv (q2, {#})" "unscheduled q2 \<le> unscheduled q1"
        using complete_all [OF inv1] by blast
      have "unscheduled q2 < unscheduled q" using unscheduled_next [OF less.prems nx] q2(3) by simp
      from less.hyps [OF this q2(2)] obtain q' q'' where
        "qq_work\<^sup>*\<^sup>* (q2, {#}) (q', {#})" "run_inv (q', {#})" "qq_next q' = (None, q'')" by blast
      moreover have "qq_work (q, {#}) (q1, mset (e_queries e))" using work_next [OF nx, of "{#}"] by simp
      ultimately show ?thesis using q2(1) by (meson converse_rtranclp_into_rtranclp rtranclp_trans)
    qed
  qed
qed

lemma quiescent:
  assumes run: "run_inv (q, {#})" and "qq_next q = (None, q')" and s: "map_of (qq_queries q) qid = Some s"
  shows "requested_partitions s < candidate_partitions s \<or> candidate_partitions s = 0"
proof (rule ccontr)
  assume "\<not> ?thesis"
  then have s': "candidate_partitions s \<le> requested_partitions s" "candidate_partitions s \<noteq> 0" by auto
  note inv = run_invD(1) [OF run]
  have "\<not> (scheduled_partitions s < requested_partitions s \<and> scheduled_partitions s < candidate_partitions s)"
    using qq_next_progress [OF inv s] assms(2) by auto
  then have "\<not> scheduled_partitions s < candidate_partitions s" using s'(1) by (meson order_less_le_trans)
  moreover have "completed_partitions s = scheduled_partitions s"
    using run_invD(2) [OF run s] by (simp add: unsigned_word_eqI)
  ultimately show False using run_invD(3) [OF run s] s'(2) by auto
qed

text \<open>From every reachable state the index gets, just by working, to a state where nothing is in flight and
  every query that is left has asked for fewer partitions than it has candidates, or has none.\<close>

lemma reach_drains:
  assumes "qq_reach srt (q, fl)" and "sorts_entries srt"
  shows "\<exists>q'. qq_work\<^sup>*\<^sup>* (q, fl) (q', {#}) \<and>
    (\<forall>qid s. map_of (qq_queries q') qid = Some s \<longrightarrow> requested_partitions s < candidate_partitions s \<or> candidate_partitions s = 0)"
proof -
  obtain q1 where q1: "qq_work\<^sup>*\<^sup>* (q, fl) (q1, {#})" "run_inv (q1, {#})" using complete_all [OF reach_run_inv [OF assms]] by blast
  obtain q' q'' where q': "qq_work\<^sup>*\<^sup>* (q1, {#}) (q', {#})" "run_inv (q', {#})" "qq_next q' = (None, q'')"
    using drain [OF q1(2)] by blast
  then show ?thesis using q1(1) quiescent [OF q'(2,3)] by (meson rtranclp_trans)
qed

text \<open>Every run of the work ends, and it ends in such a state: a lookup that is handed out costs two steps, of
  which the second is its completion.\<close>

lemma work_inv: "qq_work x y \<Longrightarrow> run_inv x \<Longrightarrow> run_inv y"
proof (induction rule: qq_work.induct)
  case (work_next q e q' fl)
  then show ?case by (rule run_inv_next [rotated])
next
  case (work_complete qid fl q client q')
  then show ?case using complete_one [OF work_complete(3,1)] by auto
qed

lemma work_decreases:
  "qq_work x y \<Longrightarrow> run_inv x \<Longrightarrow> 2 * unscheduled (fst y) + size (snd y) < 2 * unscheduled (fst x) + size (snd x)"
proof (induction rule: qq_work.induct)
  case (work_next q e q' fl)
  then show ?case using unscheduled_hand_out [OF work_next(2,1)] by (cases "e_queries e") auto
next
  case (work_complete qid fl q client q')
  have "unscheduled q' \<le> unscheduled q" using complete_one [OF work_complete(3,1)] work_complete(2) by auto
  moreover have "size (fl - {#qid#}) < size fl" using work_complete(1) by (rule size_Diff1_less)
  ultimately show ?case by simp
qed

lemma work_bounded:
  "(qq_work ^^ n) x y \<Longrightarrow> run_inv x \<Longrightarrow> run_inv y \<and> n + 2 * unscheduled (fst y) + size (snd y) \<le> 2 * unscheduled (fst x) + size (snd x)"
proof (induction n arbitrary: y)
  case (Suc n)
  obtain z where z: "(qq_work ^^ n) x z" "qq_work z y" using Suc.prems(1) by auto
  then show ?case using Suc.IH [OF z(1) Suc.prems(2)] work_inv [OF z(2)] work_decreases [OF z(2)] by simp
qed simp

lemma work_stuck:
  assumes run: "run_inv (q, fl)" and stuck: "\<nexists>z. qq_work (q, fl) z"
  shows "fl = {#} \<and> (\<forall>qid s. map_of (qq_queries q) qid = Some s \<longrightarrow>
    requested_partitions s < candidate_partitions s \<or> candidate_partitions s = 0)"
proof -
  have fl: "fl = {#}"
  proof (rule ccontr)
    assume "fl \<noteq> {#}"
    then obtain qid where qid: "qid \<in># fl" by (rule multiset_nonemptyE)
    then show False using complete_one [OF run qid] work_complete [OF qid] stuck by blast
  qed
  obtain r q' where nx: "qq_next q = (r, q')" by (cases "qq_next q")
  then have "r = None" using work_next stuck by (cases r) blast+
  then show ?thesis using quiescent [of q q'] run nx fl by blast
qed

text \<open>In particular, when nothing is in flight and \<open>next\<close> finds nothing to do, no query waits in vain.\<close>

lemma reach_quiescent:
  assumes "qq_reach srt (q, {#})" and "sorts_entries srt" and "qq_next q = (None, q')"
    and "map_of (qq_queries q) qid = Some s"
  shows "requested_partitions s < candidate_partitions s \<or> candidate_partitions s = 0"
  by (rule quiescent [OF reach_run_inv [OF assms(1,2)] assms(3,4)])

text \<open>A query without candidates is accepted if the result has a schema, and then never leaves the queue.\<close>

lemma work_keeps_empty:
  assumes "qq_work x y" and "run_inv x" and "map_of (qq_queries (fst x)) qid = Some s" and "candidate_partitions s = 0"
  shows "map_of (qq_queries (fst y)) qid = Some s"
  using assms
proof (induction rule: qq_work.induct)
  case (work_next q e q' fl)
  note inv = run_invD(1) [OF work_next(2)]
  have none: "pending qid (entries q) = 0" using qq_invD(4) [OF inv, of qid s] work_next(3,4) by simp
  note next_spec = qq_next_spec [OF inv work_next(1), unfolded option.case]
  have spec: "distinct (e_queries e)" "qq_queries q' = fold bump_scheduled (e_queries e) (qq_queries q)"
    using next_spec by blast+
  obtain e0 where "e0 \<in> set (qq_partitions q)" "e_queries e = filter (outstanding (qq_queries q)) (e_queries e0)"
    using next_spec by blast
  then have "qid \<notin> set (e_queries e)" using none unfolding pending_0_iff by auto
  then show ?case using work_next(3) by (simp add: spec(2) fold_bump_map [OF spec(1)])
next
  case (work_complete p fl q client q')
  have map: "map_of (qq_queries q) qid = Some s" using work_complete(4) by simp
  have "unat (scheduled_partitions s) = 0" using qq_invD(4) [OF run_invD(1) [OF work_complete(3)] map] work_complete(5) by simp
  then have "count fl qid = 0" using run_invD(2) [OF work_complete(3) map] by simp
  then have ne: "p \<noteq> qid" using work_complete(1) by (metis count_eq_zero_iff)
  show ?case
  proof (cases "map_of (qq_queries q) p")
    case None
    then show ?thesis using work_complete(2) map by (simp add: qq_handle_completion_def)
  next
    case (Some r)
    have "map_of (qq_queries q') = (map_of (qq_queries q))
        (p := if completed_partitions r + 1 = candidate_partitions r then None else Some (completed_once r))"
      using qq_completion_spec [OF work_complete(3,1) Some] unfolding work_complete(2) by (elim exE conjE) simp
    then show ?thesis using map ne by simp
  qed
qed

lemma empty_query_stays:
  "qq_work\<^sup>*\<^sup>* x y \<Longrightarrow> run_inv x \<Longrightarrow> map_of (qq_queries (fst x)) qid = Some s \<Longrightarrow> candidate_partitions s = 0
    \<Longrightarrow> run_inv y \<and> map_of (qq_queries (fst y)) qid = Some s"
  by (induction rule: rtranclp_induct) (auto dest: work_inv work_keeps_empty)

end
