(* ===== verification/Synopsis.thy ===== *)
theory Synopsis
  imports Data_Value
begin

text \<open>
  Synopses (\<open>synopsis.hpp\<close>): summaries of the values of a column that answer whether a predicate may
  hold for one of them. A lookup yields true, false or no answer; only false rules a partition out. The
  locale states what a client relies on, and the synopses of the smallest and the largest value
  (\<open>min_max_synopsis.hpp\<close>) and of Boolean columns (\<open>bool_synopsis.cpp\<close>) are instances of it.
\<close>

section \<open>The interface\<close>

text \<open>\<open>represents s V\<close> says that the synopsis describes a column with the values \<open>V\<close>; \<open>fits\<close> are the
  values that may be added, and \<open>exact\<close> the predicates for which the synopsis keeps its promise.\<close>

locale synopsis =
  fixes add :: "data \<Rightarrow> 's \<Rightarrow> 's option"
    and lookup :: "'s \<Rightarrow> relational_operator \<Rightarrow> data \<Rightarrow> bool option"
    and represents :: "'s \<Rightarrow> data set \<Rightarrow> bool"
    and fits :: "data \<Rightarrow> bool"
    and exact :: "relational_operator \<Rightarrow> data \<Rightarrow> bool"
    and engine :: regex_engine
  assumes add_fits: "fits x \<Longrightarrow> represents s V \<Longrightarrow> \<exists>s'. add x s = Some s' \<and> represents s' (insert x V)"
    and sound: "represents s V \<Longrightarrow> exact op rhs \<Longrightarrow> lookup s op rhs = Some False \<Longrightarrow> x \<in> V
      \<Longrightarrow> \<not> evaluate engine x op rhs"
begin

primrec add_all :: "data list \<Rightarrow> 's \<Rightarrow> 's option" where
  "add_all [] s = Some s"
| "add_all (x # xs) s = (case add x s of None \<Rightarrow> None | Some s' \<Rightarrow> add_all xs s')"

lemma add_all_represents:
  "\<forall>x \<in> set xs. fits x \<Longrightarrow> represents s V \<Longrightarrow> \<exists>s'. add_all xs s = Some s' \<and> represents s' (V \<union> set xs)"
proof (induction xs arbitrary: s V)
  case (Cons x xs)
  then obtain s' where s': "add x s = Some s'" "represents s' (insert x V)" using add_fits by force
  with Cons.IH [of s' "insert x V"] Cons.prems show ?case by simp
qed simp

text \<open>A column that was added in full is only ruled out if no value satisfies the predicate.\<close>

lemma column_sound:
  assumes "represents s {}" and "\<forall>x \<in> set xs. fits x" and "exact op rhs"
    and "add_all xs s = Some s'" and "lookup s' op rhs = Some False"
  shows "\<not> (\<exists>x \<in> set xs. evaluate engine x op rhs)"
proof -
  have "represents s' (set xs)" using add_all_represents [OF assms(2,1)] assms(4) by auto
  then show ?thesis using sound assms(3,5) by blast
qed

end

section \<open>Minimum and maximum\<close>

text \<open>The class template works on the values of one alternative, which \<open>k_view\<close> takes out of a datum. A
  value is compared by its key: integers, durations and times are their own keys, and a NaN has none,
  so that all comparisons with it fail.\<close>

record 'v kind =
  k_view :: "data \<Rightarrow> 'v option"
  k_key :: "'v \<Rightarrow> int option"

definition k_less :: "'v kind \<Rightarrow> 'v \<Rightarrow> 'v \<Rightarrow> bool" where
  "k_less K x y = (case (k_key K x, k_key K y) of (Some i, Some j) \<Rightarrow> i < j | _ \<Rightarrow> False)"

definition k_le :: "'v kind \<Rightarrow> 'v \<Rightarrow> 'v \<Rightarrow> bool" where
  "k_le K x y = (case (k_key K x, k_key K y) of (Some i, Some j) \<Rightarrow> i \<le> j | _ \<Rightarrow> False)"

definition k_eq :: "'v kind \<Rightarrow> 'v \<Rightarrow> 'v \<Rightarrow> bool" where
  "k_eq K x y = (case (k_key K x, k_key K y) of (Some i, Some j) \<Rightarrow> i = j | _ \<Rightarrow> False)"

definition int64_kind :: "int kind" where
  "int64_kind = \<lparr>k_view = (\<lambda>d. case d of Int64 i \<Rightarrow> Some i | _ \<Rightarrow> None), k_key = Some\<rparr>"

definition uint64_kind :: "nat kind" where
  "uint64_kind = \<lparr>k_view = (\<lambda>d. case d of UInt64 i \<Rightarrow> Some i | _ \<Rightarrow> None), k_key = (\<lambda>n. Some (int n))\<rparr>"

definition double_kind :: "u64 kind" where
  "double_kind = \<lparr>k_view = (\<lambda>d. case d of Double x \<Rightarrow> Some x | _ \<Rightarrow> None), k_key = double_key\<rparr>"

definition duration_kind :: "int kind" where
  "duration_kind = \<lparr>k_view = (\<lambda>d. case d of Duration i \<Rightarrow> Some i | _ \<Rightarrow> None), k_key = Some\<rparr>"

definition time_kind :: "int kind" where
  "time_kind = \<lparr>k_view = (\<lambda>d. case d of Time i \<Rightarrow> Some i | _ \<Rightarrow> None), k_key = Some\<rparr>"

record 'v min_max =
  mm_min :: 'v
  mm_max :: 'v

text \<open>The classes for the single types start with the largest minimum and the smallest maximum.\<close>

definition int64_synopsis :: "int min_max" where
  "int64_synopsis = \<lparr>mm_min = 2 ^ 63 - 1, mm_max = - (2 ^ 63)\<rparr>"

definition uint64_synopsis :: "nat min_max" where
  "uint64_synopsis = \<lparr>mm_min = 2 ^ 64 - 1, mm_max = 0\<rparr>"

definition double_synopsis :: "u64 min_max" where
  "double_synopsis = \<lparr>mm_min = 0x7ff0000000000000, mm_max = 0xfff0000000000000\<rparr>"

definition duration_synopsis :: "int min_max" where
  "duration_synopsis = \<lparr>mm_min = 2 ^ 63 - 1, mm_max = - (2 ^ 63)\<rparr>"

definition time_synopsis :: "int min_max" where
  "time_synopsis = \<lparr>mm_min = 2 ^ 63 - 1, mm_max = - (2 ^ 63)\<rparr>"

definition mm_add :: "'v kind \<Rightarrow> data \<Rightarrow> 'v min_max \<Rightarrow> 'v min_max option" where
  "mm_add K x s =
    (case k_view K x of
       None \<Rightarrow> None
     | Some y \<Rightarrow>
         let s = (if k_less K y (mm_min s) then s\<lparr>mm_min := y\<rparr> else s)
         in Some (if k_less K (mm_max s) y then s\<lparr>mm_max := y\<rparr> else s))"

definition mm_lookup_impl :: "'v kind \<Rightarrow> 'v min_max \<Rightarrow> relational_operator \<Rightarrow> 'v \<Rightarrow> bool option" where
  "mm_lookup_impl K s op x =
    (case op of
       Equal \<Rightarrow>
         if k_eq K x (mm_min s) \<or> k_eq K x (mm_max s) then Some True
         else if k_less K x (mm_min s) \<or> k_less K (mm_max s) x then Some False
         else None
     | Not_equal \<Rightarrow> if k_less K x (mm_min s) \<or> k_less K (mm_max s) x then Some True else None
     | Less \<Rightarrow> Some (k_less K (mm_min s) x)
     | Less_equal \<Rightarrow> Some (k_le K (mm_min s) x)
     | Greater \<Rightarrow> Some (k_less K x (mm_max s))
     | Greater_equal \<Rightarrow> Some (k_le K x (mm_max s))
     | _ \<Rightarrow> None)"

definition mm_do_lookup :: "'v kind \<Rightarrow> 'v min_max \<Rightarrow> relational_operator \<Rightarrow> data \<Rightarrow> bool option" where
  "mm_do_lookup K s op xv = (case k_view K xv of Some x \<Rightarrow> mm_lookup_impl K s op x | None \<Rightarrow> None)"

definition mm_membership :: "'v kind \<Rightarrow> 'v min_max \<Rightarrow> data \<Rightarrow> bool option" where
  "mm_membership K s rhs =
    (case rhs of
       List_data xs \<Rightarrow> Some (list_ex (\<lambda>x. mm_do_lookup K s Equal x = Some True) xs)
     | _ \<Rightarrow> None)"

definition mm_lookup :: "'v kind \<Rightarrow> 'v min_max \<Rightarrow> relational_operator \<Rightarrow> data \<Rightarrow> bool option" where
  "mm_lookup K s op rhs =
    (case op of
       Op_in \<Rightarrow> mm_membership K s rhs
     | Op_not_in \<Rightarrow> map_option Not (mm_membership K s rhs)
     | Op_ni \<Rightarrow> None
     | Op_not_ni \<Rightarrow> None
     | _ \<Rightarrow> mm_do_lookup K s op rhs)"

text \<open>The values of a column with their keys, and what a synopsis knows of them.\<close>

definition ordered_kind :: "'v kind \<Rightarrow> ('v \<Rightarrow> data) \<Rightarrow> bool" where
  "ordered_kind K wrap \<longleftrightarrow>
    (\<forall>d v. k_view K d = Some v \<longleftrightarrow> d = wrap v) \<and>
    (\<forall>rx x y. k_key K x \<noteq> None \<longrightarrow> k_key K y \<noteq> None \<longrightarrow>
      (evaluate rx (wrap x) Equal (wrap y) \<longleftrightarrow> k_key K x = k_key K y) \<and>
      (data_less (wrap x) (wrap y) \<longleftrightarrow> k_less K x y))"

definition mm_fits :: "'v kind \<Rightarrow> data \<Rightarrow> bool" where
  "mm_fits K d \<longleftrightarrow> (\<exists>v. k_view K d = Some v \<and> k_key K v \<noteq> None)"

definition mm_exact :: "'v kind \<Rightarrow> relational_operator \<Rightarrow> data \<Rightarrow> bool" where
  "mm_exact K op rhs \<longleftrightarrow> op \<notin> {Op_in, Op_not_in} \<and> (\<forall>v. k_view K rhs = Some v \<longrightarrow> k_key K v \<noteq> None)"

definition mm_represents :: "'v kind \<Rightarrow> 'v min_max \<Rightarrow> data set \<Rightarrow> bool" where
  "mm_represents K s V \<longleftrightarrow> k_key K (mm_min s) \<noteq> None \<and> k_key K (mm_max s) \<noteq> None \<and>
    (\<forall>d \<in> V. \<exists>v. k_view K d = Some v \<and> k_le K (mm_min s) v \<and> k_le K v (mm_max s))"

lemma k_Some:
  "k_key K x = Some i \<Longrightarrow> k_key K y = Some j \<Longrightarrow> k_less K x y \<longleftrightarrow> i < j"
  "k_key K x = Some i \<Longrightarrow> k_key K y = Some j \<Longrightarrow> k_le K x y \<longleftrightarrow> i \<le> j"
  "k_key K x = Some i \<Longrightarrow> k_key K y = Some j \<Longrightarrow> k_eq K x y \<longleftrightarrow> i = j"
  by (simp_all add: k_less_def k_le_def k_eq_def)

lemma k_le_iff: "k_le K x y \<longleftrightarrow> (\<exists>i j. k_key K x = Some i \<and> k_key K y = Some j \<and> i \<le> j)"
  by (auto simp: k_le_def split: option.splits)

lemma mm_add_represents:
  assumes "mm_fits K x" and "mm_represents K s V"
  shows "\<exists>s'. mm_add K x s = Some s' \<and> mm_represents K s' (insert x V)"
proof -
  obtain v i where v: "k_view K x = Some v" "k_key K v = Some i" using assms(1) by (auto simp: mm_fits_def)
  obtain a b where ab: "k_key K (mm_min s) = Some a" "k_key K (mm_max s) = Some b"
    using assms(2) by (auto simp: mm_represents_def)
  let ?s = "s\<lparr>mm_min := if i < a then v else mm_min s, mm_max := if b < i then v else mm_max s\<rparr>"
  have "mm_add K x s = Some ?s"
    using v ab by (auto simp: mm_add_def Let_def k_Some)
  moreover have "mm_represents K ?s (insert x V)"
    using assms(2) v ab by (fastforce simp: mm_represents_def k_le_iff)
  ultimately show ?thesis by blast
qed

lemma mm_lookup_sound:
  assumes kind: "ordered_kind K wrap" and rep: "mm_represents K s V" and exact: "mm_exact K op rhs"
    and no: "mm_lookup K s op rhs = Some False" and x: "x \<in> V"
  shows "\<not> evaluate rx x op rhs"
proof -
  have do: "mm_do_lookup K s op rhs = Some False"
    using no exact by (cases op) (auto simp: mm_lookup_def mm_exact_def)
  then obtain r where r: "k_view K rhs = Some r" "mm_lookup_impl K s op r = Some False"
    by (auto simp: mm_do_lookup_def split: option.splits)
  obtain j where j: "k_key K r = Some j" using exact r(1) by (auto simp: mm_exact_def)
  obtain v a i b where v: "k_view K x = Some v" "k_key K (mm_min s) = Some a" "k_key K v = Some i"
    "k_key K (mm_max s) = Some b" "a \<le> i" "i \<le> b"
    using rep x by (fastforce simp: mm_represents_def k_le_iff)
  have w: "x = wrap v" "rhs = wrap r" using kind v(1) r(1) by (auto simp: ordered_kind_def)
  have eq: "evaluate rx x Equal rhs \<longleftrightarrow> i = j" and less: "data_less x rhs \<longleftrightarrow> i < j" "data_less rhs x \<longleftrightarrow> j < i"
    using kind v(3) j unfolding w ordered_kind_def by (auto simp: k_Some)
  show ?thesis
    using r(2) v j eq less evaluate_negate [of rx x Equal rhs]
    by (cases op) (auto simp: mm_lookup_impl_def k_Some split: if_splits)
qed

lemma ordered_kinds:
  "ordered_kind int64_kind Int64" "ordered_kind uint64_kind UInt64" "ordered_kind double_kind Double"
  "ordered_kind duration_kind Duration" "ordered_kind time_kind Time"
  by (auto simp: ordered_kind_def int64_kind_def uint64_kind_def double_kind_def duration_kind_def time_kind_def
      eval_string_and_pattern_def data_eq.simps data_less.simps leaf_eq_def leaf_less_def k_less_def
      double_eq_def double_less_def split: data.splits)

text \<open>Every kind of ordered values gives a synopsis that keeps the promise.\<close>

locale ordered_values =
  fixes K :: "'v kind" and wrap :: "'v \<Rightarrow> data" and engine :: regex_engine
  assumes ordered: "ordered_kind K wrap"

sublocale ordered_values \<subseteq> min_max: synopsis "mm_add K" "mm_lookup K" "mm_represents K" "mm_fits K" "mm_exact K" engine
  by unfold_locales (use ordered mm_add_represents mm_lookup_sound in blast)+

interpretation int64: ordered_values int64_kind Int64 engine for engine
  by unfold_locales (rule ordered_kinds)

interpretation uint64: ordered_values uint64_kind UInt64 engine for engine
  by unfold_locales (rule ordered_kinds)

interpretation double: ordered_values double_kind Double engine for engine
  by unfold_locales (rule ordered_kinds)

interpretation duration: ordered_values duration_kind Duration engine for engine
  by unfold_locales (rule ordered_kinds)

interpretation time: ordered_values time_kind Time engine for engine
  by unfold_locales (rule ordered_kinds)

lemma initial_represents:
  "mm_represents int64_kind int64_synopsis {}" "mm_represents uint64_kind uint64_synopsis {}"
  "mm_represents duration_kind duration_synopsis {}" "mm_represents time_kind time_synopsis {}"
  by (simp_all add: mm_represents_def int64_kind_def uint64_kind_def duration_kind_def time_kind_def)

lemma double_represents: "mm_represents double_kind double_synopsis {}"
  by (simp add: mm_represents_def double_kind_def double_synopsis_def double_key_def Let_def) code_simp

section \<open>Boolean columns\<close>

record bool_synopsis =
  bs_true :: bool
  bs_false :: bool

definition bool_synopsis_new :: bool_synopsis where
  "bool_synopsis_new = \<lparr>bs_true = False, bs_false = False\<rparr>"

definition bs_add :: "data \<Rightarrow> bool_synopsis \<Rightarrow> bool_synopsis option" where
  "bs_add x s =
    (case x of
       Bool b \<Rightarrow> Some (if b then s\<lparr>bs_true := True\<rparr> else s\<lparr>bs_false := True\<rparr>)
     | _ \<Rightarrow> None)"

definition bs_lookup :: "bool_synopsis \<Rightarrow> relational_operator \<Rightarrow> data \<Rightarrow> bool option" where
  "bs_lookup s op rhs =
    (case rhs of
       Bool b \<Rightarrow>
         if op = Equal then Some (if b then bs_true s else bs_false s)
         else if op = Not_equal then Some (if b then bs_false s else bs_true s)
         else None
     | _ \<Rightarrow> None)"

definition bs_represents :: "bool_synopsis \<Rightarrow> data set \<Rightarrow> bool" where
  "bs_represents s V \<longleftrightarrow> (\<forall>d \<in> V. d = Bool True \<and> bs_true s \<or> d = Bool False \<and> bs_false s)"

definition bs_fits :: "data \<Rightarrow> bool" where
  "bs_fits d \<longleftrightarrow> (\<exists>b. d = Bool b)"

lemma bs_lookup_sound:
  assumes "bs_represents s V" and "bs_lookup s op rhs = Some False" and "x \<in> V"
  shows "\<not> evaluate rx x op rhs"
proof -
  obtain b where b: "rhs = Bool b" using assms(2) by (auto simp: bs_lookup_def split: data.splits)
  have eq: "data_eq (Bool c) (Bool b) \<longleftrightarrow> c = b" for c by (simp add: data_eq.simps leaf_eq_def)
  have op: "op = Equal \<or> op = Not_equal" using assms(2) b by (auto simp: bs_lookup_def split: if_splits)
  have "x = Bool True \<and> bs_true s \<or> x = Bool False \<and> bs_false s" using assms(1,3) by (auto simp: bs_represents_def)
  with op assms(2) eq show ?thesis
    by (auto simp: b bs_lookup_def eval_string_and_pattern_def split: if_splits)
qed

interpretation boolean: synopsis bs_add bs_lookup bs_represents bs_fits "\<lambda>op rhs. True" engine for engine
  using bs_lookup_sound
  by unfold_locales (auto simp: bs_add_def bs_represents_def bs_fits_def)

section \<open>Membership\<close>

text \<open>The answers for \<open>in\<close> and \<open>not in\<close> can be wrong. A value strictly between the smallest and the
  largest may occur, but an unknown answer for an element of the list counts as false; and \<open>not in\<close>
  negates an answer that only says that some value may be in the list.\<close>

lemma membership_unsound:
  "mm_lookup int64_kind \<lparr>mm_min = 1, mm_max = 3\<rparr> Op_in (List_data [Int64 2]) = Some False"
  "mm_lookup int64_kind \<lparr>mm_min = 1, mm_max = 3\<rparr> Op_not_in (List_data [Int64 1]) = Some False"
  by (simp_all add: mm_lookup_def mm_membership_def mm_do_lookup_def mm_lookup_impl_def int64_kind_def
      k_less_def k_eq_def)

end
