(* ===== verification/Bloom_Filter.thy ===== *)
theory Bloom_Filter
  imports Synopsis Bitvector "HOL-Library.Monad_Syntax"
begin

text \<open>
  Bloom filters (\<open>bloom_filter.hpp\<close>) over the bit vectors of the library, the hashers that compute the
  digests (\<open>hasher.hpp\<close>), and the synopses built on them (\<open>bloom_filter_synopsis.hpp\<close>) and on a plain
  set that is later turned into one (\<open>buffered_synopsis.hpp\<close>). The seeded hash function, which is
  XXH64 of a third-party library in the program, is a parameter.
\<close>

section \<open>Hashers\<close>

type_synonym 'a seeded_hash = "u64 \<Rightarrow> 'a \<Rightarrow> u64"

datatype hasher = Simple_hasher nat "u64 list" | Double_hasher nat u64 u64

text \<open>The constructors assert that there is at least one digest and that the seeds fit.\<close>

definition simple_hasher :: "nat \<Rightarrow> u64 list \<Rightarrow> hasher option" where
  "simple_hasher k seeds = do { require (k > 0); require (k = length seeds); Some (Simple_hasher k seeds) }"

definition double_hasher :: "nat \<Rightarrow> u64 list \<Rightarrow> hasher option" where
  "double_hasher k seeds = do {
     require (k > 0);
     require (length seeds = 2);
     Some (Double_hasher k (seeds ! 0) (seeds ! 1))
   }"

fun hasher_size :: "hasher \<Rightarrow> nat" where
  "hasher_size (Simple_hasher k _) = k"
| "hasher_size (Double_hasher k _ _) = k"

fun digests :: "'a seeded_hash \<Rightarrow> hasher \<Rightarrow> 'a \<Rightarrow> u64 list" where
  "digests hash (Simple_hasher k seeds) x = map (\<lambda>seed. hash seed x) seeds"
| "digests hash (Double_hasher k seed1 seed2) x =
    (let d1 = hash seed1 x; d2 = hash seed2 x in map (\<lambda>i. d1 + of_nat i * d2) [0..<k])"

fun hasher_ok :: "hasher \<Rightarrow> bool" where
  "hasher_ok (Simple_hasher k seeds) \<longleftrightarrow> k > 0 \<and> k = length seeds"
| "hasher_ok (Double_hasher k _ _) \<longleftrightarrow> k > 0"

lemma length_digests: "hasher_ok h \<Longrightarrow> length (digests hash h x) = hasher_size h"
  by (cases h) (simp_all add: Let_def)

section \<open>Filters\<close>

record bloom_filter =
  bf_hasher :: hasher
  bf_bits :: bitvector
  bf_partitioned :: bool

definition bloom_filter_new :: "bool \<Rightarrow> nat \<Rightarrow> hasher \<Rightarrow> bloom_filter" where
  "bloom_filter_new partitioned n hasher =
    \<lparr>bf_hasher = hasher, bf_bits = bv_make n False, bf_partitioned = partitioned\<rparr>"

text \<open>The remainder of a division by zero is undefined behaviour.\<close>

definition bf_position :: "bloom_filter \<Rightarrow> nat \<Rightarrow> u64 \<Rightarrow> nat option" where
  "bf_position bf i x =
    (if bf_partitioned bf then
       let cells = bv_size (bf_bits bf) div hasher_size (bf_hasher bf)
       in if cells = 0 then None else Some (i * cells + unat x mod cells)
     else if bv_size (bf_bits bf) = 0 then None else Some (unat x mod bv_size (bf_bits bf)))"

fun bf_add_loop :: "nat \<Rightarrow> u64 list \<Rightarrow> bool \<Rightarrow> bloom_filter \<Rightarrow> (bool \<times> bloom_filter) option" where
  "bf_add_loop i [] unique bf = Some (unique, bf)"
| "bf_add_loop i (d # ds) unique bf = do {
     p \<leftarrow> bf_position bf i d;
     bit \<leftarrow> bv_index (bf_bits bf) p;
     bits \<leftarrow> bv_set p True (bf_bits bf);
     bf_add_loop (Suc i) ds (unique \<or> \<not> bit) (bf\<lparr>bf_bits := bits\<rparr>)
   }"

definition bf_add :: "'a seeded_hash \<Rightarrow> 'a \<Rightarrow> bloom_filter \<Rightarrow> (bool \<times> bloom_filter) option" where
  "bf_add hash x bf = bf_add_loop 0 (digests hash (bf_hasher bf) x) False bf"

fun bf_lookup_loop :: "nat \<Rightarrow> u64 list \<Rightarrow> bloom_filter \<Rightarrow> bool option" where
  "bf_lookup_loop i [] bf = Some True"
| "bf_lookup_loop i (d # ds) bf = do {
     p \<leftarrow> bf_position bf i d;
     bit \<leftarrow> bv_index (bf_bits bf) p;
     if \<not> bit then Some False else bf_lookup_loop (Suc i) ds bf
   }"

definition bf_lookup :: "'a seeded_hash \<Rightarrow> 'a \<Rightarrow> bloom_filter \<Rightarrow> bool option" where
  "bf_lookup hash x bf = bf_lookup_loop 0 (digests hash (bf_hasher bf) x) bf"

text \<open>A filter is usable if every position exists.\<close>

definition bf_ok :: "bloom_filter \<Rightarrow> bool" where
  "bf_ok bf \<longleftrightarrow> hasher_ok (bf_hasher bf) \<and> bv_inv (bf_bits bf) \<and> 0 < bv_size (bf_bits bf)
    \<and> (bf_partitioned bf \<longrightarrow> hasher_size (bf_hasher bf) \<le> bv_size (bf_bits bf))"

definition bf_slot :: "bloom_filter \<Rightarrow> nat \<Rightarrow> u64 \<Rightarrow> nat" where
  "bf_slot bf i x = the (bf_position bf i x)"

lemma hasher_size_pos: "hasher_ok h \<Longrightarrow> 0 < hasher_size h"
  by (cases h) auto

lemma bf_position_ok:
  assumes "bf_ok bf" and "i < hasher_size (bf_hasher bf)"
  shows "\<exists>p. bf_position bf i x = Some p \<and> p < bv_size (bf_bits bf)"
proof (cases "bf_partitioned bf")
  case True
  let ?k = "hasher_size (bf_hasher bf)" and ?n = "bv_size (bf_bits bf)"
  have k: "0 < ?k" "?k \<le> ?n" using assms True hasher_size_pos by (auto simp: bf_ok_def)
  then have cells: "0 < ?n div ?k" by (simp add: div_greater_zero_iff)
  have "i * (?n div ?k) + unat x mod (?n div ?k) < Suc i * (?n div ?k)" using cells by simp
  also have "\<dots> \<le> ?k * (?n div ?k)" using assms(2) by (intro mult_right_mono) auto
  also have "\<dots> \<le> ?n" by (simp add: mult.commute)
  finally show ?thesis using True cells by (simp add: bf_position_def Let_def)
next
  case False
  then show ?thesis using assms by (simp add: bf_position_def bf_ok_def)
qed

lemma bf_slot_ok:
  assumes "bf_ok bf" and "i < hasher_size (bf_hasher bf)"
  shows "bf_position bf i x = Some (bf_slot bf i x)" and "bf_slot bf i x < bv_size (bf_bits bf)"
  using bf_position_ok [OF assms, of x] by (auto simp: bf_slot_def)

lemma bf_position_bits:
  "bv_size bits = bv_size (bf_bits bf) \<Longrightarrow> bf_position (bf\<lparr>bf_bits := bits\<rparr>) i x = bf_position bf i x"
  by (simp add: bf_position_def)

text \<open>The positions of a list of digests, and the set of the bits that are 1.\<close>

definition bf_slots :: "bloom_filter \<Rightarrow> nat \<Rightarrow> u64 list \<Rightarrow> nat set" where
  "bf_slots bf i ds = (\<lambda>j. bf_slot bf (i + j) (ds ! j)) ` {..<length ds}"

definition bf_set :: "bloom_filter \<Rightarrow> nat set" where
  "bf_set bf = {p. p < bv_size (bf_bits bf) \<and> bv_list (bf_bits bf) ! p}"

lemma bf_slots_Cons: "bf_slots bf i (d # ds) = insert (bf_slot bf i d) (bf_slots bf (Suc i) ds)"
  by (simp add: bf_slots_def lessThan_Suc_eq_insert_0 image_image)

lemma bf_slots_Nil [simp]: "bf_slots bf i [] = {}"
  by (simp add: bf_slots_def)

lemma bf_set_update:
  assumes "bf_ok bf" and "p < bv_size (bf_bits bf)"
  obtains bits where "bv_set p True (bf_bits bf) = Some bits" "bv_size bits = bv_size (bf_bits bf)"
    "bf_ok (bf\<lparr>bf_bits := bits\<rparr>)" "bf_set (bf\<lparr>bf_bits := bits\<rparr>) = insert p (bf_set bf)"
proof -
  obtain bits where b: "bv_set p True (bf_bits bf) = Some bits" "bv_inv bits" "bv_list bits = (bv_list (bf_bits bf))[p := True]"
    using bv_set_spec [of "bf_bits bf" p True] assms by (auto simp: bf_ok_def)
  have size: "bv_size bits = bv_size (bf_bits bf)"
    using b(2,3) length_bv_list [of bits] length_bv_list [of "bf_bits bf"] assms(1) by (simp add: bf_ok_def)
  show ?thesis
  proof (rule that [OF b(1) size])
    show "bf_ok (bf\<lparr>bf_bits := bits\<rparr>)" using assms(1) b(2) size by (simp add: bf_ok_def)
    show "bf_set (bf\<lparr>bf_bits := bits\<rparr>) = insert p (bf_set bf)"
      using assms b(3) size length_bv_list [of "bf_bits bf"]
      by (auto simp: bf_set_def bf_ok_def nth_list_update)
  qed
qed

lemma bf_slot_update:
  "bv_size bits = bv_size (bf_bits bf) \<Longrightarrow> bf_slots (bf\<lparr>bf_bits := bits\<rparr>) i ds = bf_slots bf i ds"
  by (simp add: bf_slots_def bf_slot_def bf_position_bits)

lemma bf_add_loop_spec:
  "bf_ok bf \<Longrightarrow> i + length ds \<le> hasher_size (bf_hasher bf) \<Longrightarrow>
    \<exists>bf'. bf_add_loop i ds unique bf = Some (unique \<or> \<not> bf_slots bf i ds \<subseteq> bf_set bf, bf')
      \<and> bf_ok bf' \<and> bf_set bf' = bf_set bf \<union> bf_slots bf i ds
      \<and> bf_hasher bf' = bf_hasher bf \<and> bv_size (bf_bits bf') = bv_size (bf_bits bf) \<and> bf_partitioned bf' = bf_partitioned bf"
proof (induction ds arbitrary: i unique bf)
  case (Cons d ds)
  then have i: "i < hasher_size (bf_hasher bf)" by simp
  let ?p = "bf_slot bf i d"
  note p = bf_slot_ok [OF Cons.prems(1) i, of d]
  obtain bits where b: "bv_set ?p True (bf_bits bf) = Some bits" "bv_size bits = bv_size (bf_bits bf)"
    "bf_ok (bf\<lparr>bf_bits := bits\<rparr>)" "bf_set (bf\<lparr>bf_bits := bits\<rparr>) = insert ?p (bf_set bf)"
    using bf_set_update [OF Cons.prems(1) p(2)] .
  have ind: "bv_index (bf_bits bf) ?p = Some (?p \<in> bf_set bf)"
    using Cons.prems(1) p(2) by (simp add: bv_index_spec bf_ok_def bf_set_def)
  let ?bf = "bf\<lparr>bf_bits := bits\<rparr>" and ?u = "unique \<or> \<not> ?p \<in> bf_set bf"
  obtain bf' where bf': "bf_add_loop (Suc i) ds ?u ?bf = Some (?u \<or> \<not> bf_slots ?bf (Suc i) ds \<subseteq> bf_set ?bf, bf')"
    "bf_ok bf'" "bf_set bf' = bf_set ?bf \<union> bf_slots ?bf (Suc i) ds" "bf_hasher bf' = bf_hasher ?bf"
    "bv_size (bf_bits bf') = bv_size (bf_bits ?bf)" "bf_partitioned bf' = bf_partitioned ?bf"
    using Cons.IH [OF b(3), of "Suc i" ?u] Cons.prems(2) by auto
  have run: "bf_add_loop i (d # ds) unique bf = bf_add_loop (Suc i) ds ?u ?bf"
    using p(1) ind b(1) by simp
  have "(?u \<or> \<not> bf_slots ?bf (Suc i) ds \<subseteq> bf_set ?bf) = (unique \<or> \<not> bf_slots bf i (d # ds) \<subseteq> bf_set bf)"
    by (auto simp: b(4) bf_slot_update [OF b(2)] bf_slots_Cons)
  with bf' show ?case
    unfolding run by (auto simp: b(2,4) bf_slot_update [OF b(2)] bf_slots_Cons)
qed simp

lemma bf_lookup_loop_spec:
  "bf_ok bf \<Longrightarrow> i + length ds \<le> hasher_size (bf_hasher bf) \<Longrightarrow>
    bf_lookup_loop i ds bf = Some (bf_slots bf i ds \<subseteq> bf_set bf)"
proof (induction ds arbitrary: i)
  case (Cons d ds)
  then have i: "i < hasher_size (bf_hasher bf)" by simp
  note p = bf_slot_ok [OF Cons.prems(1) i, of d]
  have ind: "bv_index (bf_bits bf) (bf_slot bf i d) = Some (bf_slot bf i d \<in> bf_set bf)"
    using Cons.prems(1) p(2) by (simp add: bv_index_spec bf_ok_def bf_set_def)
  show ?case using Cons.IH [of "Suc i"] Cons.prems p(1) ind by (simp add: bf_slots_Cons)
qed simp

definition bf_element :: "'a seeded_hash \<Rightarrow> bloom_filter \<Rightarrow> 'a \<Rightarrow> nat set" where
  "bf_element hash bf x = bf_slots bf 0 (digests hash (bf_hasher bf) x)"

lemma bf_lookup_spec: "bf_ok bf \<Longrightarrow> bf_lookup hash x bf = Some (bf_element hash bf x \<subseteq> bf_set bf)"
  by (simp add: bf_lookup_def bf_lookup_loop_spec length_digests bf_element_def bf_ok_def)

lemma bf_element_same:
  assumes "bf_hasher bf' = bf_hasher bf" and "bv_size (bf_bits bf') = bv_size (bf_bits bf)"
    and "bf_partitioned bf' = bf_partitioned bf"
  shows "bf_element hash bf' x = bf_element hash bf x"
proof -
  have "bf_position bf' = bf_position bf" by (intro ext) (simp add: bf_position_def assms)
  then show ?thesis by (simp add: bf_element_def bf_slots_def bf_slot_def assms(1))
qed

text \<open>After an element was added it is found, and so is everything that was found before; the result
  tells whether the element was not found before.\<close>

lemma bf_add_spec:
  assumes "bf_ok bf"
  shows "\<exists>bf'. bf_add hash x bf = Some (bf_lookup hash x bf = Some False, bf') \<and> bf_ok bf'
    \<and> bf_lookup hash x bf' = Some True
    \<and> (\<forall>y. bf_lookup hash y bf = Some True \<longrightarrow> bf_lookup hash y bf' = Some True)"
proof -
  have k: "0 + length (digests hash (bf_hasher bf) x) \<le> hasher_size (bf_hasher bf)"
    using assms by (simp add: length_digests bf_ok_def)
  obtain bf' where bf': "bf_add hash x bf = Some (\<not> bf_element hash bf x \<subseteq> bf_set bf, bf')" "bf_ok bf'"
    "bf_set bf' = bf_set bf \<union> bf_element hash bf x" "bf_hasher bf' = bf_hasher bf"
    "bv_size (bf_bits bf') = bv_size (bf_bits bf)" "bf_partitioned bf' = bf_partitioned bf"
    using bf_add_loop_spec [OF assms k, of False] by (auto simp: bf_add_def bf_element_def)
  have same: "bf_element hash bf' y = bf_element hash bf y" for y
    using bf' by (intro bf_element_same)
  show ?thesis using bf' assms by (auto simp: bf_lookup_spec same)
qed

lemma bloom_filter_new_ok:
  "hasher_ok h \<Longrightarrow> 0 < n \<Longrightarrow> (partitioned \<longrightarrow> hasher_size h \<le> n) \<Longrightarrow> bf_ok (bloom_filter_new partitioned n h)"
  using bv_make_spec(1) [of n False] by (simp add: bf_ok_def bloom_filter_new_def bv_make_def)

section \<open>Synopses\<close>

text \<open>The values of the class template are the ones of one alternative, a string or an address. A lookup
  is partial because \<open>as\<close> panics on another alternative, which only the buffered synopsis runs into.\<close>

definition bfs_add :: "('a seeded_hash) \<Rightarrow> (data \<Rightarrow> 'a option) \<Rightarrow> data \<Rightarrow> bloom_filter \<Rightarrow> bloom_filter option" where
  "bfs_add hash view x bf = (case view x of None \<Rightarrow> None | Some y \<Rightarrow> map_option snd (bf_add hash y bf))"

definition string_view :: "data \<Rightarrow> string option" where
  "string_view x = (case x of Str s \<Rightarrow> Some s | _ \<Rightarrow> None)"

definition ip_view :: "data \<Rightarrow> ip option" where
  "ip_view x = (case x of Ip a \<Rightarrow> Some a | _ \<Rightarrow> None)"

fun bfs_membership :: "('a seeded_hash) \<Rightarrow> (data \<Rightarrow> 'a option) \<Rightarrow> bloom_filter \<Rightarrow> data list \<Rightarrow> bool option" where
  "bfs_membership hash view bf [] = Some False"
| "bfs_membership hash view bf (x # xs) =
    (if x = Null then None
     else case view x of
       None \<Rightarrow> bfs_membership hash view bf xs
     | Some y \<Rightarrow> if bf_lookup hash y bf = Some True then Some True else bfs_membership hash view bf xs)"

definition bfs_lookup :: "('a seeded_hash) \<Rightarrow> (data \<Rightarrow> 'a option) \<Rightarrow> bool \<Rightarrow> bloom_filter \<Rightarrow> relational_operator \<Rightarrow> data \<Rightarrow> bool option" where
  "bfs_lookup hash view is_string bf op rhs =
    (case op of
       Equal \<Rightarrow>
         if rhs = Null then None
         else if is_string \<and> (case rhs of Pat _ \<Rightarrow> True | _ \<Rightarrow> False) then None
         else (case view rhs of None \<Rightarrow> Some False | Some y \<Rightarrow> bf_lookup hash y bf)
     | Op_in \<Rightarrow> (case rhs of List_data xs \<Rightarrow> bfs_membership hash view bf xs | _ \<Rightarrow> None)
     | _ \<Rightarrow> None)"

text \<open>What the answers rely on: the values are exactly those of one alternative, compared by equality.\<close>

definition hashed_kind :: "(data \<Rightarrow> 'a option) \<Rightarrow> bool \<Rightarrow> bool" where
  "hashed_kind view is_string \<longleftrightarrow>
    (\<forall>d e v. view d = Some v \<longrightarrow> data_eq d e \<longrightarrow> view e = Some v) \<and>
    (\<forall>d v. view d = Some v \<longrightarrow> d \<noteq> Null \<and> (\<forall>p. d \<noteq> Pat p)) \<and>
    (\<not> is_string \<longrightarrow> (\<forall>s. view (Str s) = None))"

definition bfs_represents :: "('a seeded_hash) \<Rightarrow> (data \<Rightarrow> 'a option) \<Rightarrow> bloom_filter \<Rightarrow> data set \<Rightarrow> bool" where
  "bfs_represents hash view bf V \<longleftrightarrow> bf_ok bf \<and> (\<forall>d \<in> V. \<exists>v. view d = Some v \<and> bf_lookup hash v bf = Some True)"

lemma bfs_add_represents:
  assumes "view x \<noteq> None" and "bfs_represents hash view bf V"
  shows "\<exists>bf'. bfs_add hash view x bf = Some bf' \<and> bfs_represents hash view bf' (insert x V)"
proof -
  obtain v where v: "view x = Some v" using assms(1) by blast
  have ok: "bf_ok bf" using assms(2) by (simp add: bfs_represents_def)
  obtain u bf' where "bf_add hash v bf = Some (u, bf')" "bf_ok bf'" "bf_lookup hash v bf' = Some True"
    "\<forall>y. bf_lookup hash y bf = Some True \<longrightarrow> bf_lookup hash y bf' = Some True"
    using bf_add_spec [OF ok, of hash v] by blast
  then show ?thesis using assms(2) v by (fastforce simp: bfs_add_def bfs_represents_def)
qed

lemma bfs_membership_False:
  "bfs_membership hash view bf xs = Some False \<Longrightarrow> y \<in> set xs \<Longrightarrow> y \<noteq> Null
    \<and> (\<forall>v. view y = Some v \<longrightarrow> bf_lookup hash v bf \<noteq> Some True)"
  by (induction xs) (auto split: if_splits option.splits)

lemma bfs_lookup_sound:
  assumes kind: "hashed_kind view is_string" and rep: "bfs_represents hash view bf V"
    and no: "bfs_lookup hash view is_string bf op rhs = Some False" and x: "x \<in> V"
  shows "\<not> evaluate rx x op rhs"
proof -
  obtain v where v: "view x = Some v" "bf_lookup hash v bf = Some True" using rep x by (auto simp: bfs_represents_def)
  have k: "data_eq x e \<Longrightarrow> view e = Some v" for e using kind v(1) unfolding hashed_kind_def by blast
  have x': "x \<noteq> Pat p" for p using kind v(1) unfolding hashed_kind_def by blast
  consider "op = Equal" | xs where "op = Op_in" "rhs = List_data xs" "bfs_membership hash view bf xs = Some False"
    using no by (cases op) (auto simp: bfs_lookup_def split: data.splits)
  then show ?thesis
  proof cases
    case 1
    have str: "is_string" if "x = Str s" for s using kind v(1) that unfolding hashed_kind_def by (metis option.discI)
    have "eval_string_and_pattern rx x rhs = None"
      using no x' str 1 by (auto simp: bfs_lookup_def eval_string_and_pattern_def split: data.splits)
    moreover have "\<not> data_eq x rhs"
      using no 1 v(2) by (auto dest!: k simp: bfs_lookup_def split: if_splits)
    ultimately show ?thesis using 1 by simp
  next
    case (2 xs)
    then have "\<not> data_eq y x" if "y \<in> set xs" for y
      using bfs_membership_False [OF 2(3) that] k v(2) data_eq_symD by blast
    then show ?thesis using 2 by (auto simp: eval_in_def list_ex_iff)
  qed
qed

lemma hashed_kinds: "hashed_kind string_view True" "hashed_kind ip_view False"
proof -
  have eq: "data_eq (Str s) e \<longleftrightarrow> e = Str s" "data_eq (Ip a) e \<longleftrightarrow> e = Ip a" for s a e
    by (auto simp: data_eq_leaf leaf_eq_cases)
  have view: "string_view d = Some s \<longleftrightarrow> d = Str s" "ip_view d = Some a \<longleftrightarrow> d = Ip a" for d s a
    by (auto simp: string_view_def ip_view_def split: data.splits)
  show "hashed_kind string_view True" unfolding hashed_kind_def view by (simp add: eq)
  have "ip_view (Str s) = None" for s by (simp add: ip_view_def)
  then show "hashed_kind ip_view False" unfolding hashed_kind_def view by (simp add: eq)
qed

locale hashed_values =
  fixes hash :: "'a seeded_hash" and view :: "data \<Rightarrow> 'a option" and is_string :: bool and engine :: regex_engine
  assumes hashed: "hashed_kind view is_string"

sublocale hashed_values \<subseteq> filter: synopsis "bfs_add hash view" "bfs_lookup hash view is_string"
  "bfs_represents hash view" "\<lambda>x. view x \<noteq> None" "\<lambda>op rhs. True" engine
  by unfold_locales (erule (1) bfs_add_represents, erule (2) bfs_lookup_sound [OF hashed])

interpretation string_synopsis: hashed_values hash string_view True engine for hash engine
  by unfold_locales (rule hashed_kinds)

interpretation ip_synopsis: hashed_values hash ip_view False engine for hash engine
  by unfold_locales (rule hashed_kinds)

lemma bloom_filter_new_represents: "bf_ok bf \<Longrightarrow> bfs_represents hash view bf {}"
  by (simp add: bfs_represents_def)

section \<open>Buffered synopses\<close>

text \<open>The set of values is a list without repetitions, in the order in which \<open>shrink\<close> visits it. The
  false-positive rate is only passed on. The number of bits and digests of the filter for \<open>n\<close> values
  comes from floating-point formulas, so \<open>mk\<close> stands for the filter, if there is one. Panics, on a
  right-hand side of another alternative, are the outer None of a lookup.\<close>

record 'a buffered =
  buf_p :: u64
  buf_data :: "'a list"

definition buf_new :: "u64 \<Rightarrow> 'a buffered" where
  "buf_new p = \<lparr>buf_p = p, buf_data = []\<rparr>"

definition buf_add :: "(data \<Rightarrow> 'a option) \<Rightarrow> data \<Rightarrow> 'a buffered \<Rightarrow> 'a buffered option" where
  "buf_add view x s = (case view x of None \<Rightarrow> None | Some y \<Rightarrow> Some (s\<lparr>buf_data := List.insert y (buf_data s)\<rparr>))"

fun buf_membership :: "(data \<Rightarrow> 'a option) \<Rightarrow> 'a buffered \<Rightarrow> data list \<Rightarrow> bool option" where
  "buf_membership view s [] = Some False"
| "buf_membership view s (x # xs) =
    (case view x of None \<Rightarrow> None
     | Some y \<Rightarrow> if y \<in> set (buf_data s) then Some True else buf_membership view s xs)"

definition buf_lookup :: "(data \<Rightarrow> 'a option) \<Rightarrow> bool \<Rightarrow> 'a buffered \<Rightarrow> relational_operator \<Rightarrow> data \<Rightarrow> bool option option" where
  "buf_lookup view is_string s op rhs =
    (case op of
       Equal \<Rightarrow>
         if is_string \<and> (case rhs of Pat _ \<Rightarrow> True | _ \<Rightarrow> False) then Some None
         else (case view rhs of None \<Rightarrow> None | Some y \<Rightarrow> Some (Some (y \<in> set (buf_data s))))
     | Op_in \<Rightarrow> (case rhs of List_data xs \<Rightarrow> map_option Some (buf_membership view s xs) | _ \<Rightarrow> Some None)
     | _ \<Rightarrow> Some None)"

function next_power_of_two :: "nat \<Rightarrow> nat \<Rightarrow> nat" where
  "next_power_of_two n p = (if p = 0 \<or> n \<le> p then p else next_power_of_two n (p * 2))"
  by pat_completeness auto
termination by (relation "measure (\<lambda>(n, p). n - p)") auto

declare next_power_of_two.simps [simp del]

fun bf_add_values :: "'a seeded_hash \<Rightarrow> 'a list \<Rightarrow> bloom_filter \<Rightarrow> bloom_filter option" where
  "bf_add_values hash [] bf = Some bf"
| "bf_add_values hash (x # xs) bf = (case bf_add hash x bf of None \<Rightarrow> None | Some (_, bf') \<Rightarrow> bf_add_values hash xs bf')"

text \<open>The result is the new synopsis, or None of the inner option for a null pointer.\<close>

definition buf_shrink :: "'a seeded_hash \<Rightarrow> (nat \<Rightarrow> u64 \<Rightarrow> bloom_filter option) \<Rightarrow> 'a buffered \<Rightarrow> bloom_filter option option" where
  "buf_shrink hash mk s =
    (case mk (next_power_of_two (length (buf_data s)) 1) (buf_p s) of
       None \<Rightarrow> Some None
     | Some bf \<Rightarrow> map_option Some (bf_add_values hash (buf_data s) bf))"

lemma next_power_of_two_spec:
  "p = 2 ^ k \<Longrightarrow> \<exists>j. next_power_of_two n p = 2 ^ j \<and> n \<le> next_power_of_two n p
    \<and> (n \<le> p \<or> next_power_of_two n p < 2 * n)"
proof (induction n p arbitrary: k rule: next_power_of_two.induct)
  case (1 n p)
  show ?case
  proof (cases "n \<le> p")
    case True
    then show ?thesis using 1 by (auto simp: next_power_of_two.simps)
  next
    case False
    then have step: "next_power_of_two n p = next_power_of_two n (p * 2)" using 1 by (simp add: next_power_of_two.simps)
    have p2: "p * 2 = 2 ^ Suc k" and p0: "\<not> (p = 0 \<or> n \<le> p)" using "1.prems" False by simp_all
    obtain j where "next_power_of_two n (p * 2) = 2 ^ j" "n \<le> next_power_of_two n (p * 2)"
      "n \<le> p * 2 \<or> next_power_of_two n (p * 2) < 2 * n"
      using "1.IH" [OF p0 p2] by blast
    moreover have "next_power_of_two n (p * 2) = p * 2" if "n \<le> p * 2"
      using that by (simp add: next_power_of_two.simps [of n "p * 2"])
    ultimately show ?thesis unfolding step using False by (cases "n \<le> p * 2") auto
  qed
qed

lemma bf_add_values_spec:
  "bf_ok bf \<Longrightarrow> \<exists>bf'. bf_add_values hash xs bf = Some bf' \<and> bf_ok bf'
    \<and> (\<forall>x. x \<in> set xs \<or> bf_lookup hash x bf = Some True \<longrightarrow> bf_lookup hash x bf' = Some True)"
proof (induction xs arbitrary: bf)
  case (Cons x xs)
  obtain u bf1 where bf1: "bf_add hash x bf = Some (u, bf1)" "bf_ok bf1" "bf_lookup hash x bf1 = Some True"
    "\<forall>y. bf_lookup hash y bf = Some True \<longrightarrow> bf_lookup hash y bf1 = Some True"
    using bf_add_spec [OF Cons.prems, of hash x] by blast
  then show ?case using Cons.IH [OF bf1(2)] by auto
qed simp

definition buf_represents :: "(data \<Rightarrow> 'a option) \<Rightarrow> 'a buffered \<Rightarrow> data set \<Rightarrow> bool" where
  "buf_represents view s V \<longleftrightarrow> (\<forall>d \<in> V. \<exists>v \<in> set (buf_data s). view d = Some v)"

lemma buf_add_represents:
  "view x \<noteq> None \<Longrightarrow> buf_represents view s V \<Longrightarrow> \<exists>s'. buf_add view x s = Some s' \<and> buf_represents view s' (insert x V)"
  by (auto simp: buf_add_def buf_represents_def)

lemma buf_membership_False:
  "buf_membership view s xs = Some False \<Longrightarrow> y \<in> set xs \<Longrightarrow> \<exists>v. view y = Some v \<and> v \<notin> set (buf_data s)"
  by (induction xs) (auto split: if_splits option.splits)

lemma buf_lookup_sound:
  assumes kind: "hashed_kind view is_string" and rep: "buf_represents view s V"
    and no: "buf_lookup view is_string s op rhs = Some (Some False)" and x: "x \<in> V"
  shows "\<not> evaluate rx x op rhs"
proof -
  obtain v where v: "view x = Some v" "v \<in> set (buf_data s)" using rep x by (auto simp: buf_represents_def)
  have k: "data_eq x e \<Longrightarrow> view e = Some v" for e using kind v(1) unfolding hashed_kind_def by blast
  have x': "x \<noteq> Pat p" for p using kind v(1) unfolding hashed_kind_def by blast
  consider y where "op = Equal" "view rhs = Some y" "y \<notin> set (buf_data s)"
    | xs where "op = Op_in" "rhs = List_data xs" "buf_membership view s xs = Some False"
    using no by (cases op) (auto simp: buf_lookup_def split: data.splits if_splits option.splits)
  then show ?thesis
  proof cases
    case (1 y)
    have "rhs \<noteq> Pat p" for p using kind 1(2) unfolding hashed_kind_def by blast
    then have "eval_string_and_pattern rx x rhs = None"
      using x' by (auto simp: eval_string_and_pattern_def split: data.splits)
    moreover have "\<not> data_eq x rhs" using k [of rhs] 1 v(2) by auto
    ultimately show ?thesis using 1 by simp
  next
    case (2 xs)
    then have "\<not> data_eq y x" if "y \<in> set xs" for y
      using buf_membership_False [OF 2(3) that] k [of y] v(2) data_eq_symD [of y x] by auto
    then show ?thesis using 2 by (auto simp: eval_in_def list_ex_iff)
  qed
qed

text \<open>Shrinking keeps what the synopsis knows.\<close>

lemma buf_shrink_represents:
  assumes "buf_represents view s V" and "buf_shrink hash mk s = Some (Some bf)"
    and "\<And>n p b. mk n p = Some b \<Longrightarrow> bf_ok b"
  shows "bfs_represents hash view bf V"
proof -
  obtain b where b: "mk (next_power_of_two (length (buf_data s)) 1) (buf_p s) = Some b"
    "bf_add_values hash (buf_data s) b = Some bf"
    using assms(2) by (auto simp: buf_shrink_def split: option.splits)
  then show ?thesis
    using bf_add_values_spec [of b hash "buf_data s"] assms(1,3) by (fastforce simp: bfs_represents_def buf_represents_def)
qed

lemma buf_shrink_returns:
  assumes "\<And>n p b. mk n p = Some b \<Longrightarrow> bf_ok b"
  shows "buf_shrink hash mk s \<noteq> None"
  using bf_add_values_spec assms by (fastforce simp: buf_shrink_def split: option.splits)

end
