(* ===== verification/Partition_Synopsis.thy ===== *)
theory Partition_Synopsis
  imports Record_Leaves Bloom_Filter Lookup_Result
begin

text \<open>
  The synopses of a partition (\<open>partition_synopsis.cpp\<close>): one for every field that is configured to have
  one and one for every type of a field, filled from the columns of the table slices that are added.
  A synopsis pointer is an element of the sum of the classes that the factory
  (\<open>synopsis_factory.cpp\<close>) creates; a null pointer is None. An unordered map is the list of its entries.
  A table slice is given by its schema and its columns in the order of the leaves.
\<close>

section \<open>Synopses of all classes\<close>

datatype any_synopsis =
    Bool_synopsis bool_synopsis
  | Int64_synopsis "int min_max"
  | UInt64_synopsis "nat min_max"
  | Double_synopsis "u64 min_max"
  | Duration_synopsis "int min_max"
  | Time_synopsis "int min_max"
  | String_synopsis bloom_filter
  | Ip_synopsis bloom_filter
  | Buffered_string "string buffered"
  | Buffered_ip "ip buffered"

text \<open>What the synopses take from outside: the hash functions, the filter that the attributes of a type
  ask for (None if they do not, an inner None if its parameters make no filter), and the filter for a
  number of values and a false-positive rate.\<close>

record synopsis_env =
  env_hash_string :: "string seeded_hash"
  env_hash_ip :: "ip seeded_hash"
  env_annotated :: "ty \<Rightarrow> bloom_filter option option"
  env_filter :: "nat \<Rightarrow> u64 \<Rightarrow> bloom_filter option"

fun syn_add :: "synopsis_env \<Rightarrow> data \<Rightarrow> any_synopsis \<Rightarrow> any_synopsis option" where
  "syn_add env x (Bool_synopsis s) = map_option Bool_synopsis (bs_add x s)"
| "syn_add env x (Int64_synopsis s) = map_option Int64_synopsis (mm_add int64_kind x s)"
| "syn_add env x (UInt64_synopsis s) = map_option UInt64_synopsis (mm_add uint64_kind x s)"
| "syn_add env x (Double_synopsis s) = map_option Double_synopsis (mm_add double_kind x s)"
| "syn_add env x (Duration_synopsis s) = map_option Duration_synopsis (mm_add duration_kind x s)"
| "syn_add env x (Time_synopsis s) = map_option Time_synopsis (mm_add time_kind x s)"
| "syn_add env x (String_synopsis s) = map_option String_synopsis (bfs_add (env_hash_string env) string_view x s)"
| "syn_add env x (Ip_synopsis s) = map_option Ip_synopsis (bfs_add (env_hash_ip env) ip_view x s)"
| "syn_add env x (Buffered_string s) = map_option Buffered_string (buf_add string_view x s)"
| "syn_add env x (Buffered_ip s) = map_option Buffered_ip (buf_add ip_view x s)"

fun syn_lookup :: "synopsis_env \<Rightarrow> any_synopsis \<Rightarrow> relational_operator \<Rightarrow> data \<Rightarrow> bool option option" where
  "syn_lookup env (Bool_synopsis s) op rhs = Some (bs_lookup s op rhs)"
| "syn_lookup env (Int64_synopsis s) op rhs = Some (mm_lookup int64_kind s op rhs)"
| "syn_lookup env (UInt64_synopsis s) op rhs = Some (mm_lookup uint64_kind s op rhs)"
| "syn_lookup env (Double_synopsis s) op rhs = Some (mm_lookup double_kind s op rhs)"
| "syn_lookup env (Duration_synopsis s) op rhs = Some (mm_lookup duration_kind s op rhs)"
| "syn_lookup env (Time_synopsis s) op rhs = Some (mm_lookup time_kind s op rhs)"
| "syn_lookup env (String_synopsis s) op rhs = Some (bfs_lookup (env_hash_string env) string_view True s op rhs)"
| "syn_lookup env (Ip_synopsis s) op rhs = Some (bfs_lookup (env_hash_ip env) ip_view False s op rhs)"
| "syn_lookup env (Buffered_string s) op rhs = buf_lookup string_view True s op rhs"
| "syn_lookup env (Buffered_ip s) op rhs = buf_lookup ip_view False s op rhs"

text \<open>Only the buffered synopses can be shrunk; the others return a null pointer.\<close>

definition syn_shrink :: "synopsis_env \<Rightarrow> any_synopsis \<Rightarrow> any_synopsis option option" where
  "syn_shrink env s =
    (case s of
       Buffered_string b \<Rightarrow> map_option (map_option String_synopsis) (buf_shrink (env_hash_string env) (env_filter env) b)
     | Buffered_ip b \<Rightarrow> map_option (map_option Ip_synopsis) (buf_shrink (env_hash_ip env) (env_filter env) b)
     | _ \<Rightarrow> Some None)"

text \<open>The factory, called with the option to buffer the input.\<close>

definition factory_make :: "synopsis_env \<Rightarrow> ty \<Rightarrow> u64 \<Rightarrow> any_synopsis option" where
  "factory_make env t p =
    (case resolve_transparent t of
       Bool_type \<Rightarrow> Some (Bool_synopsis bool_synopsis_new)
     | Int64_type \<Rightarrow> Some (Int64_synopsis int64_synopsis)
     | UInt64_type \<Rightarrow> Some (UInt64_synopsis uint64_synopsis)
     | Double_type \<Rightarrow> Some (Double_synopsis double_synopsis)
     | Duration_type \<Rightarrow> Some (Duration_synopsis duration_synopsis)
     | Time_type \<Rightarrow> Some (Time_synopsis time_synopsis)
     | String_type \<Rightarrow>
         (case env_annotated env t of
            Some bf \<Rightarrow> map_option String_synopsis bf
          | None \<Rightarrow> Some (Buffered_string (buf_new p)))
     | Ip_type \<Rightarrow>
         (case env_annotated env t of
            Some bf \<Rightarrow> map_option Ip_synopsis bf
          | None \<Rightarrow> Some (Buffered_ip (buf_new p)))
     | _ \<Rightarrow> None)"

definition make_synopsis :: "synopsis_env \<Rightarrow> ty \<Rightarrow> u64 \<Rightarrow> any_synopsis option" where
  "make_synopsis env t p = (if type_attribute t ''skip'' \<noteq> None then None else factory_make env t p)"

section \<open>Qualified fields\<close>

record qualified_field =
  qf_schema_name :: string
  qf_field_name :: string
  qf_type :: ty

text \<open>The constructor asserts that the schema is a record with a name.\<close>

definition make_qualified_field :: "ty \<Rightarrow> nat list \<Rightarrow> qualified_field option" where
  "make_qualified_field schema index =
    (if type_name schema = [] \<or> index = [] then None
     else case as_record schema of
       None \<Rightarrow> None
     | Some fs \<Rightarrow>
         (case (key_at fs index, field_at fs index) of
            (Some key, Some f) \<Rightarrow> Some \<lparr>qf_schema_name = type_name schema, qf_field_name = key, qf_type = snd f\<rparr>
          | _ \<Rightarrow> None))"

definition qualified_field_of_names :: "string \<Rightarrow> string \<Rightarrow> ty \<Rightarrow> qualified_field option" where
  "qualified_field_of_names schema_name field_name field_type =
    (if field_name = [] then
       let t = make_type schema_name field_type []
       in Some \<lparr>qf_schema_name = type_name t, qf_field_name = [], qf_type = t\<rparr>
     else if schema_name = [] then
       let t = make_type field_name field_type []
       in Some \<lparr>qf_schema_name = [], qf_field_name = type_name t, qf_type = t\<rparr>
     else make_qualified_field (make_type schema_name (Record_type [(field_name, field_type)]) []) [0])"

definition qf_name :: "qualified_field \<Rightarrow> string" where
  "qf_name f =
    (if qf_schema_name f = [] then qf_field_name f
     else if qf_field_name f = [] then qf_schema_name f
     else qf_schema_name f @ ''.'' @ qf_field_name f)"

definition is_standalone_type :: "qualified_field \<Rightarrow> bool" where
  "is_standalone_type f \<longleftrightarrow> qf_field_name f = []"

section \<open>Partition synopses\<close>

record partition_synopsis =
  ps_events :: nat
  ps_min_import_time :: int
  ps_max_import_time :: int
  ps_version :: nat
  ps_schema :: ty
  ps_type_synopses :: "(ty \<times> any_synopsis option) list"
  ps_field_synopses :: "(qualified_field \<times> any_synopsis option) list"

definition ps_new :: "nat \<Rightarrow> partition_synopsis" where
  "ps_new version =
    \<lparr>ps_events = 0, ps_min_import_time = 2 ^ 63 - 1, ps_max_import_time = - (2 ^ 63), ps_version = version,
     ps_schema = Null_type, ps_type_synopses = [], ps_field_synopses = []\<rparr>"

record index_rule =
  rule_targets :: "string list"
  rule_fp_rate :: u64

record index_config =
  cfg_rules :: "index_rule list"
  cfg_default_fp_rate :: u64

definition starts_with :: "string \<Rightarrow> string \<Rightarrow> bool" where
  "starts_with s pre \<longleftrightarrow> take (length pre) s = pre"

definition ends_with :: "string \<Rightarrow> string \<Rightarrow> bool" where
  "ends_with s suf \<longleftrightarrow> length suf \<le> length s \<and> drop (length s - length suf) s = suf"

definition get_field_fprate :: "index_config \<Rightarrow> qualified_field \<Rightarrow> u64 option" where
  "get_field_fprate config f =
    (case find (\<lambda>r. list_ex (\<lambda>name. length name = length (qf_field_name f) + length (qf_schema_name f) + 1
            \<and> starts_with name (qf_schema_name f) \<and> ends_with name (qf_field_name f)) (rule_targets r))
        (cfg_rules config) of
       Some r \<Rightarrow> Some (rule_fp_rate r)
     | None \<Rightarrow>
         if resolve_transparent (qf_type f) \<in> {Bool_type, Int64_type, UInt64_type, Double_type, Duration_type, Time_type}
         then Some (cfg_default_fp_rate config) else None)"

definition get_type_fprate :: "index_config \<Rightarrow> ty \<Rightarrow> u64" where
  "get_type_fprate config t =
    (case find (\<lambda>r. list_ex (\<lambda>name. name = '':string'' \<and> t = String_type \<or> name = '':ip'' \<and> t = Ip_type) (rule_targets r))
        (cfg_rules config) of
       Some r \<Rightarrow> rule_fp_rate r
     | None \<Rightarrow> cfg_default_fp_rate config)"

text \<open>A value is added to the synopsis of an entry, if there is one; null is skipped.\<close>

fun add_column :: "synopsis_env \<Rightarrow> data list \<Rightarrow> any_synopsis option \<Rightarrow> any_synopsis option option" where
  "add_column env xs None = Some None"
| "add_column env [] (Some s) = Some (Some s)"
| "add_column env (x # xs) (Some s) =
    (if x = Null then add_column env xs (Some s)
     else case syn_add env x s of None \<Rightarrow> None | Some s' \<Rightarrow> add_column env xs (Some s'))"

definition update_entry :: "'k \<Rightarrow> 'v \<Rightarrow> ('v \<Rightarrow> 'v option) \<Rightarrow> ('k \<times> 'v) list \<Rightarrow> ('k \<times> 'v) list option" where
  "update_entry key fresh f m =
    (case map_of m key of
       Some v \<Rightarrow> map_option (\<lambda>v'. map (\<lambda>(k, w). (k, if k = key then v' else w)) m) (f v)
     | None \<Rightarrow> map_option (\<lambda>v'. m @ [(key, v')]) (f fresh))"

definition ps_add_leaf :: "synopsis_env \<Rightarrow> index_config \<Rightarrow> leaf \<Rightarrow> data list \<Rightarrow> partition_synopsis \<Rightarrow> partition_synopsis option" where
  "ps_add_leaf env config l column ps =
    (case make_qualified_field (ps_schema ps) (fst l) of
       None \<Rightarrow> None
     | Some key \<Rightarrow>
         let t = snd (snd l);
             fmap = (case get_field_fprate config key of
                 Some p \<Rightarrow> update_entry key (make_synopsis env t p) (add_column env column) (ps_field_synopses ps)
               | None \<Rightarrow> update_entry key None Some (ps_field_synopses ps));
             tmap = update_entry (resolve_transparent t)
                 (make_synopsis env t (get_type_fprate config (resolve_transparent t)))
                 (add_column env column) (ps_type_synopses ps)
         in case (fmap, tmap) of
              (Some fmap', Some tmap') \<Rightarrow> Some (ps\<lparr>ps_field_synopses := fmap', ps_type_synopses := tmap'\<rparr>)
            | _ \<Rightarrow> None)"

fun ps_add_leaves :: "synopsis_env \<Rightarrow> index_config \<Rightarrow> leaf list \<Rightarrow> data list list \<Rightarrow> partition_synopsis \<Rightarrow> partition_synopsis option" where
  "ps_add_leaves env config (l # ls) (c # cs) ps =
    (case ps_add_leaf env config l c ps of None \<Rightarrow> None | Some ps' \<Rightarrow> ps_add_leaves env config ls cs ps')"
| "ps_add_leaves env config ls [] ps = Some ps"
| "ps_add_leaves env config [] (c # cs) ps = None"

definition ps_add :: "synopsis_env \<Rightarrow> index_config \<Rightarrow> ty \<Rightarrow> data list list \<Rightarrow> partition_synopsis \<Rightarrow> partition_synopsis option" where
  "ps_add env config schema columns ps =
    (let ps = (if has_type (ps_schema ps) then ps else ps\<lparr>ps_schema := schema\<rparr>)
     in case as_record (ps_schema ps) of
          None \<Rightarrow> None
        | Some fs \<Rightarrow> ps_add_leaves env config (record_leaves fs) columns ps)"

text \<open>\<open>shrink\<close> replaces every synopsis that has a smaller form.\<close>

fun shrink_entries :: "synopsis_env \<Rightarrow> ('k \<times> any_synopsis option) list \<Rightarrow> ('k \<times> any_synopsis option) list option" where
  "shrink_entries env [] = Some []"
| "shrink_entries env ((k, v) # m) =
    (case shrink_entries env m of None \<Rightarrow> None
     | Some m' \<Rightarrow>
         (case v of None \<Rightarrow> Some ((k, None) # m')
          | Some s \<Rightarrow>
              (case syn_shrink env s of
                 None \<Rightarrow> None
               | Some None \<Rightarrow> Some ((k, Some s) # m')
               | Some (Some s') \<Rightarrow> Some ((k, Some s') # m'))))"

definition ps_shrink :: "synopsis_env \<Rightarrow> partition_synopsis \<Rightarrow> partition_synopsis option" where
  "ps_shrink env ps =
    (case (shrink_entries env (ps_field_synopses ps), shrink_entries env (ps_type_synopses ps)) of
       (Some fmap, Some tmap) \<Rightarrow> Some (ps\<lparr>ps_field_synopses := fmap, ps_type_synopses := tmap\<rparr>)
     | _ \<Rightarrow> None)"

section \<open>What a synopsis of any class promises\<close>

fun syn_represents :: "synopsis_env \<Rightarrow> any_synopsis \<Rightarrow> data set \<Rightarrow> bool" where
  "syn_represents env (Bool_synopsis s) V = bs_represents s V"
| "syn_represents env (Int64_synopsis s) V = mm_represents int64_kind s V"
| "syn_represents env (UInt64_synopsis s) V = mm_represents uint64_kind s V"
| "syn_represents env (Double_synopsis s) V = mm_represents double_kind s V"
| "syn_represents env (Duration_synopsis s) V = mm_represents duration_kind s V"
| "syn_represents env (Time_synopsis s) V = mm_represents time_kind s V"
| "syn_represents env (String_synopsis s) V = bfs_represents (env_hash_string env) string_view s V"
| "syn_represents env (Ip_synopsis s) V = bfs_represents (env_hash_ip env) ip_view s V"
| "syn_represents env (Buffered_string s) V = buf_represents string_view s V"
| "syn_represents env (Buffered_ip s) V = buf_represents ip_view s V"

text \<open>The type of the columns that a synopsis summarises.\<close>

fun syn_class :: "any_synopsis \<Rightarrow> ty" where
  "syn_class (Bool_synopsis _) = Bool_type"
| "syn_class (Int64_synopsis _) = Int64_type"
| "syn_class (UInt64_synopsis _) = UInt64_type"
| "syn_class (Double_synopsis _) = Double_type"
| "syn_class (Duration_synopsis _) = Duration_type"
| "syn_class (Time_synopsis _) = Time_type"
| "syn_class (String_synopsis _) = String_type"
| "syn_class (Ip_synopsis _) = Ip_type"
| "syn_class (Buffered_string _) = String_type"
| "syn_class (Buffered_ip _) = Ip_type"

definition not_nan :: "data \<Rightarrow> bool" where
  "not_nan x = (case x of Double d \<Rightarrow> double_key d \<noteq> None | _ \<Rightarrow> True)"

definition column_value :: "ty \<Rightarrow> data \<Rightarrow> bool" where
  "column_value t x \<longleftrightarrow> type_check t x \<and> not_nan x"

text \<open>The answers can be relied on except for memberships in minimum-maximum synopses and for NaN.\<close>

definition reliable :: "relational_operator \<Rightarrow> data \<Rightarrow> bool" where
  "reliable op rhs \<longleftrightarrow> op \<notin> {Op_in, Op_not_in} \<and> not_nan rhs"

definition env_ok :: "synopsis_env \<Rightarrow> bool" where
  "env_ok env \<longleftrightarrow> (\<forall>t bf. env_annotated env t = Some (Some bf) \<longrightarrow> bf_ok bf) \<and>
    (\<forall>n p bf. env_filter env n p = Some bf \<longrightarrow> bf_ok bf)"

lemma column_value_cases:
  assumes "column_value t x" and "x \<noteq> Null"
  shows "resolve_transparent t = Bool_type \<Longrightarrow> bs_fits x"
    and "resolve_transparent t = Int64_type \<Longrightarrow> mm_fits int64_kind x"
    and "resolve_transparent t = UInt64_type \<Longrightarrow> mm_fits uint64_kind x"
    and "resolve_transparent t = Double_type \<Longrightarrow> mm_fits double_kind x"
    and "resolve_transparent t = Duration_type \<Longrightarrow> mm_fits duration_kind x"
    and "resolve_transparent t = Time_type \<Longrightarrow> mm_fits time_kind x"
    and "resolve_transparent t = String_type \<Longrightarrow> string_view x \<noteq> None"
    and "resolve_transparent t = Ip_type \<Longrightarrow> ip_view x \<noteq> None"
  using assms type_check.simps [of t x]
  by (auto simp: column_value_def not_nan_def bs_fits_def mm_fits_def int64_kind_def uint64_kind_def double_kind_def
      duration_kind_def time_kind_def string_view_def ip_view_def split: data.splits)

lemma syn_add_represents:
  assumes rep: "syn_represents env s V" and x: "column_value t x" "x \<noteq> Null" and t: "resolve_transparent t = syn_class s"
  shows "\<exists>s'. syn_add env x s = Some s' \<and> syn_class s' = syn_class s \<and> syn_represents env s' (insert x V)"
proof (cases s)
  case (Bool_synopsis b)
  then show ?thesis using boolean.add_fits [of x b V] column_value_cases(1) [OF x] rep t by force
next
  case (Int64_synopsis b)
  then show ?thesis using mm_add_represents [of int64_kind x b V] column_value_cases(2) [OF x] rep t by force
next
  case (UInt64_synopsis b)
  then show ?thesis using mm_add_represents [of uint64_kind x b V] column_value_cases(3) [OF x] rep t by force
next
  case (Double_synopsis b)
  then show ?thesis using mm_add_represents [of double_kind x b V] column_value_cases(4) [OF x] rep t by force
next
  case (Duration_synopsis b)
  then show ?thesis using mm_add_represents [of duration_kind x b V] column_value_cases(5) [OF x] rep t by force
next
  case (Time_synopsis b)
  then show ?thesis using mm_add_represents [of time_kind x b V] column_value_cases(6) [OF x] rep t by force
next
  case (String_synopsis b)
  then show ?thesis
    using bfs_add_represents [of string_view x "env_hash_string env" b V] column_value_cases(7) [OF x] rep t by force
next
  case (Ip_synopsis b)
  then show ?thesis
    using bfs_add_represents [of ip_view x "env_hash_ip env" b V] column_value_cases(8) [OF x] rep t by force
next
  case (Buffered_string b)
  then show ?thesis using buf_add_represents [of string_view x b V] column_value_cases(7) [OF x] rep t by force
next
  case (Buffered_ip b)
  then show ?thesis using buf_add_represents [of ip_view x b V] column_value_cases(8) [OF x] rep t by force
qed

lemma reliable_exact:
  assumes "reliable op rhs"
  shows "mm_exact int64_kind op rhs" "mm_exact uint64_kind op rhs" "mm_exact double_kind op rhs"
    "mm_exact duration_kind op rhs" "mm_exact time_kind op rhs"
  using assms
  by (auto simp: reliable_def mm_exact_def not_nan_def int64_kind_def uint64_kind_def double_kind_def
      duration_kind_def time_kind_def split: data.splits)

lemma syn_lookup_sound:
  assumes rep: "syn_represents env s V" and ok: "reliable op rhs"
    and no: "syn_lookup env s op rhs = Some (Some False)" and x: "x \<in> V"
  shows "\<not> evaluate rx x op rhs"
proof (cases s)
  case (Bool_synopsis b)
  then show ?thesis using bs_lookup_sound rep no x by auto
next
  case (Int64_synopsis b)
  then show ?thesis using int64.min_max.sound [OF _ reliable_exact(1) [OF ok]] rep no x by auto
next
  case (UInt64_synopsis b)
  then show ?thesis using uint64.min_max.sound [OF _ reliable_exact(2) [OF ok]] rep no x by auto
next
  case (Double_synopsis b)
  then show ?thesis using double.min_max.sound [OF _ reliable_exact(3) [OF ok]] rep no x by auto
next
  case (Duration_synopsis b)
  then show ?thesis using duration.min_max.sound [OF _ reliable_exact(4) [OF ok]] rep no x by auto
next
  case (Time_synopsis b)
  then show ?thesis using time.min_max.sound [OF _ reliable_exact(5) [OF ok]] rep no x by auto
next
  case (String_synopsis b)
  then show ?thesis using bfs_lookup_sound [OF hashed_kinds(1)] rep no x by auto
next
  case (Ip_synopsis b)
  then show ?thesis using bfs_lookup_sound [OF hashed_kinds(2)] rep no x by auto
next
  case (Buffered_string b)
  then show ?thesis using buf_lookup_sound [OF hashed_kinds(1)] rep no x by auto
next
  case (Buffered_ip b)
  then show ?thesis using buf_lookup_sound [OF hashed_kinds(2)] rep no x by auto
qed

lemma syn_shrink_returns:
  assumes "env_ok env"
  shows "syn_shrink env s \<noteq> None"
proof -
  have mk: "env_filter env n p = Some b \<Longrightarrow> bf_ok b" for n p b using assms by (simp add: env_ok_def)
  show ?thesis
    using buf_shrink_returns [OF mk, where hash = "env_hash_string env"]
      buf_shrink_returns [OF mk, where hash = "env_hash_ip env"]
    by (cases s) (simp_all add: syn_shrink_def)
qed

lemma syn_shrink_represents:
  assumes "env_ok env" and "syn_represents env s V" and "syn_shrink env s = Some (Some s')"
  shows "syn_class s' = syn_class s \<and> syn_represents env s' V"
proof -
  have mk: "env_filter env n p = Some b \<Longrightarrow> bf_ok b" for n p b using assms(1) by (simp add: env_ok_def)
  consider b c where "s = Buffered_string b" "s' = String_synopsis c"
      "buf_shrink (env_hash_string env) (env_filter env) b = Some (Some c)"
    | b c where "s = Buffered_ip b" "s' = Ip_synopsis c"
      "buf_shrink (env_hash_ip env) (env_filter env) b = Some (Some c)"
    using assms(3) by (cases s) (auto simp: syn_shrink_def)
  then show ?thesis
  proof cases
    case 1
    then show ?thesis using buf_shrink_represents [OF _ 1(3) mk] assms(2) by simp
  next
    case 2
    then show ?thesis using buf_shrink_represents [OF _ 2(3) mk] assms(2) by simp
  qed
qed

lemma make_synopsis_represents:
  assumes "env_ok env" and "make_synopsis env t p = Some s"
  shows "syn_class s = resolve_transparent t \<and> syn_represents env s {}"
  using assms initial_represents double_represents bloom_filter_new_represents
  by (auto simp: make_synopsis_def factory_make_def env_ok_def buf_represents_def bs_represents_def bfs_represents_def
      split: ty.splits option.splits if_splits)

section \<open>What a partition synopsis promises\<close>

text \<open>\<open>summarises env t e V\<close>: the entry of a map (None if there is no entry) describes a column of type
  \<open>t\<close> with the values \<open>V\<close>; an entry without a synopsis says nothing.\<close>

definition summarises :: "synopsis_env \<Rightarrow> ty \<Rightarrow> any_synopsis option option \<Rightarrow> data set \<Rightarrow> bool" where
  "summarises env t e V =
    (case e of
       None \<Rightarrow> V = {}
     | Some None \<Rightarrow> True
     | Some (Some s) \<Rightarrow> syn_class s = resolve_transparent t \<and> syn_represents env s V)"

definition field_values :: "(qualified_field \<times> data) set \<Rightarrow> qualified_field \<Rightarrow> data set" where
  "field_values H key = {x. (key, x) \<in> H}"

definition type_values :: "(qualified_field \<times> data) set \<Rightarrow> ty \<Rightarrow> data set" where
  "type_values H t = {x. \<exists>key. (key, x) \<in> H \<and> resolve_transparent (qf_type key) = t}"

text \<open>The pairs of a field and a value that were added are summarised under the field and its type.\<close>

definition ps_represents :: "synopsis_env \<Rightarrow> index_config \<Rightarrow> partition_synopsis \<Rightarrow> (qualified_field \<times> data) set \<Rightarrow> bool" where
  "ps_represents env config ps H \<longleftrightarrow>
    (\<forall>key. summarises env (qf_type key) (map_of (ps_field_synopses ps) key) (field_values H key)) \<and>
    (\<forall>t. summarises env t (map_of (ps_type_synopses ps) t) (type_values H t)) \<and>
    (\<forall>key s. map_of (ps_field_synopses ps) key = Some (Some s) \<longrightarrow> get_field_fprate config key \<noteq> None)"

fun slice_values :: "ty \<Rightarrow> leaf list \<Rightarrow> data list list \<Rightarrow> (qualified_field \<times> data) set" where
  "slice_values schema (l # ls) (c # cs) =
    (case make_qualified_field schema (fst l) of None \<Rightarrow> {} | Some key \<Rightarrow> {key} \<times> (set c - {Null}))
    \<union> slice_values schema ls cs"
| "slice_values schema ls cs = {}"

lemma summarises_new: "env_ok env \<Longrightarrow> summarises env t (Some (make_synopsis env t p)) {}"
  using make_synopsis_represents by (auto simp: summarises_def split: option.splits)

lemma summarises_transparent: "summarises env (resolve_transparent t) e V = summarises env t e V"
  by (simp add: summarises_def split: option.split)

lemma add_column_summarises:
  "summarises env t (Some v) V \<Longrightarrow> \<forall>x \<in> set xs. column_value t x
    \<Longrightarrow> \<exists>v'. add_column env xs v = Some v' \<and> summarises env t (Some v') (V \<union> (set xs - {Null}))"
proof (induction xs arbitrary: v V)
  case Nil
  then show ?case by (cases v) auto
next
  case (Cons x xs)
  show ?case
  proof (cases v)
    case None
    then show ?thesis by (simp add: summarises_def)
  next
    case (Some s)
    show ?thesis
    proof (cases "x = Null")
      case True
      then show ?thesis using Cons.IH [of v V] Cons.prems Some by (simp add: insert_Diff_if)
    next
      case False
      then obtain s' where s': "syn_add env x s = Some s'" "summarises env t (Some (Some s')) (insert x V)"
        using Cons.prems syn_add_represents [of env s V t x] Some by (auto simp: summarises_def)
      then show ?thesis using Cons.IH [OF s'(2)] Cons.prems(2) Some False by (simp add: insert_Diff_if)
    qed
  qed
qed

lemma map_of_update_value: "map_of (map (\<lambda>(k, w). (k, if k = key then v else w)) m) key' =
    (if key' = key \<and> map_of m key \<noteq> None then Some v else map_of m key')"
  by (induction m) auto

lemma update_entry_spec:
  assumes "f (case map_of m key of Some v \<Rightarrow> v | None \<Rightarrow> fresh) = Some v'"
  shows "\<exists>m'. update_entry key fresh f m = Some m' \<and> map_of m' = (map_of m)(key \<mapsto> v')"
proof (cases "map_of m key")
  case None
  then show ?thesis using assms by (auto simp: update_entry_def fun_eq_iff map_add_def split: option.splits)
next
  case (Some v)
  then show ?thesis using assms by (auto simp: update_entry_def fun_eq_iff map_of_update_value)
qed

lemma summarises_entry:
  assumes "summarises env t e V" and "env_ok env"
  shows "summarises env t (Some (case e of Some v \<Rightarrow> v | None \<Rightarrow> make_synopsis env t p)) V"
  using assms summarises_new by (cases e) (auto simp: summarises_def [of _ _ None])

lemma field_values_add: "field_values (H \<union> {key} \<times> W) key' = field_values H key' \<union> (if key' = key then W else {})"
  by (auto simp: field_values_def)

lemma type_values_add:
  "type_values (H \<union> {key} \<times> W) t = type_values H t \<union> (if t = resolve_transparent (qf_type key) then W else {})"
  by (auto simp: type_values_def)

lemma ps_add_leaf_represents:
  assumes rep: "ps_represents env config ps H" and env: "env_ok env"
    and key: "make_qualified_field (ps_schema ps) (fst l) = Some key" "qf_type key = snd (snd l)"
    and column: "\<forall>x \<in> set c. column_value (snd (snd l)) x"
  shows "\<exists>ps'. ps_add_leaf env config l c ps = Some ps' \<and> ps_schema ps' = ps_schema ps
    \<and> ps_represents env config ps' (H \<union> {key} \<times> (set c - {Null}))"
proof -
  let ?t = "snd (snd l)" and ?W = "set c - {Null}"
  let ?tt = "resolve_transparent ?t"
  let ?H = "H \<union> {key} \<times> ?W"
  let ?fe = "map_of (ps_field_synopses ps) key" and ?te = "map_of (ps_type_synopses ps) ?tt"
  let ?fm = "case get_field_fprate config key of
      Some p \<Rightarrow> update_entry key (make_synopsis env ?t p) (add_column env c) (ps_field_synopses ps)
    | None \<Rightarrow> update_entry key None Some (ps_field_synopses ps)"
  have fields: "summarises env ?t ?fe (field_values H key)" and types: "summarises env ?tt ?te (type_values H ?tt)"
    and rate: "?fe = Some (Some s) \<Longrightarrow> get_field_fprate config key \<noteq> None" for s
    using rep key(2) unfolding ps_represents_def by metis+
  obtain fm v where fm: "?fm = Some fm" "map_of fm = (map_of (ps_field_synopses ps))(key \<mapsto> v)"
    "summarises env ?t (Some v) (field_values H key \<union> ?W)" "v \<noteq> None \<Longrightarrow> get_field_fprate config key \<noteq> None"
  proof (cases "get_field_fprate config key")
    case None
    have "v = None" if "?fe = Some v" for v using rate that None by (cases v) auto
    then have "(case ?fe of Some v \<Rightarrow> v | None \<Rightarrow> None) = None" by (auto split: option.split)
    then obtain m' where "update_entry key None Some (ps_field_synopses ps) = Some m'"
      "map_of m' = (map_of (ps_field_synopses ps))(key \<mapsto> None)"
      using update_entry_spec [where f = Some and m = "ps_field_synopses ps" and key = key and fresh = None] by auto
    then show ?thesis using that [of m' None] None by (simp add: summarises_def)
  next
    case (Some p)
    obtain v where v: "add_column env c (case ?fe of Some v \<Rightarrow> v | None \<Rightarrow> make_synopsis env ?t p) = Some v"
      "summarises env ?t (Some v) (field_values H key \<union> ?W)"
      using add_column_summarises [OF summarises_entry [OF fields env] column] by blast
    obtain m' where "update_entry key (make_synopsis env ?t p) (add_column env c) (ps_field_synopses ps) = Some m'"
      "map_of m' = (map_of (ps_field_synopses ps))(key \<mapsto> v)"
      using update_entry_spec [where f = "add_column env c", OF v(1)] by blast
    then show ?thesis using that [of m' v] v(2) Some by simp
  qed
  obtain tm w where tm: "update_entry ?tt (make_synopsis env ?t (get_type_fprate config ?tt)) (add_column env c)
      (ps_type_synopses ps) = Some tm"
    "map_of tm = (map_of (ps_type_synopses ps))(?tt \<mapsto> w)" "summarises env ?tt (Some w) (type_values H ?tt \<union> ?W)"
  proof -
    obtain w where w: "add_column env c (case ?te of Some v \<Rightarrow> v | None \<Rightarrow> make_synopsis env ?t (get_type_fprate config ?tt)) = Some w"
      "summarises env ?t (Some w) (type_values H ?tt \<union> ?W)"
      using add_column_summarises [OF summarises_entry [OF types [unfolded summarises_transparent] env] column] by blast
    obtain m' where "update_entry ?tt (make_synopsis env ?t (get_type_fprate config ?tt)) (add_column env c)
        (ps_type_synopses ps) = Some m'"
      "map_of m' = (map_of (ps_type_synopses ps))(?tt \<mapsto> w)"
      using update_entry_spec [where f = "add_column env c", OF w(1)] by blast
    then show ?thesis using that [of m' w] w(2) by (simp add: summarises_transparent)
  qed
  have "ps_add_leaf env config l c ps = Some (ps\<lparr>ps_field_synopses := fm, ps_type_synopses := tm\<rparr>)"
    unfolding ps_add_leaf_def Let_def key(1) option.case fm(1) tm(1) prod.case ..
  moreover have "ps_represents env config (ps\<lparr>ps_field_synopses := fm, ps_type_synopses := tm\<rparr>) ?H"
    using rep fm tm key(2) by (auto simp: ps_represents_def field_values_add type_values_add)
  ultimately show ?thesis by simp
qed

lemma leaf_key:
  assumes "as_record schema = Some fs" and "type_name schema \<noteq> []" and "l \<in> set (record_leaves fs)"
  shows "\<exists>key. make_qualified_field schema (fst l) = Some key \<and> qf_type key = snd (snd l)"
proof -
  have at: "field_at fs (fst l) = Some (snd l)" using assms(3) record_leaves_field [of "fst l" "snd l"] by simp
  have "field_at fs i \<noteq> None \<Longrightarrow> key_at fs i \<noteq> None" for i
    by (induction fs i rule: field_at.induct) (auto split: option.splits if_splits)
  then obtain k where "key_at fs (fst l) = Some k" using at by (metis not_None_eq option.distinct(1))
  moreover have "fst l \<noteq> []" using at by (cases "fst l") auto
  ultimately show ?thesis using at assms by (simp add: make_qualified_field_def)
qed

lemma ps_add_leaves_represents:
  assumes "env_ok env" and "as_record (ps_schema ps) = Some fs" and "type_name (ps_schema ps) \<noteq> []"
    and "ps_represents env config ps H" and "set ls \<subseteq> set (record_leaves fs)"
    and "list_all2 (\<lambda>l c. \<forall>x \<in> set c. column_value (snd (snd l)) x) ls cs"
  shows "\<exists>ps'. ps_add_leaves env config ls cs ps = Some ps'
    \<and> ps_represents env config ps' (H \<union> slice_values (ps_schema ps) ls cs)"
  using assms
proof (induction ls arbitrary: cs ps H)
  case Nil
  then show ?case by auto
next
  case (Cons l ls)
  then obtain c cs' where cs: "cs = c # cs'" "\<forall>x \<in> set c. column_value (snd (snd l)) x"
    "list_all2 (\<lambda>l c. \<forall>x \<in> set c. column_value (snd (snd l)) x) ls cs'" by (cases cs) auto
  obtain key where key: "make_qualified_field (ps_schema ps) (fst l) = Some key" "qf_type key = snd (snd l)"
    using leaf_key [of "ps_schema ps" fs l] Cons.prems(2,3,5) by auto
  obtain ps1 where ps1: "ps_add_leaf env config l c ps = Some ps1" "ps_schema ps1 = ps_schema ps"
    "ps_represents env config ps1 (H \<union> {key} \<times> (set c - {Null}))"
    using ps_add_leaf_represents [OF Cons.prems(4,1) key cs(2)] by blast
  show ?case
    using Cons.IH [of ps1 "H \<union> {key} \<times> (set c - {Null})" cs'] Cons.prems cs ps1 key by (simp add: Un_assoc)
qed

text \<open>Adding a slice whose columns have the types of the schema succeeds, and the partition synopsis then
  also describes the values of the slice.\<close>

lemma ps_add_represents:
  assumes "env_ok env" and "ps_represents env config ps H"
    and "\<not> has_type (ps_schema ps) \<or> ps_schema ps = schema"
    and "as_record schema = Some fs" and "type_name schema \<noteq> []"
    and "list_all2 (\<lambda>l c. \<forall>x \<in> set c. column_value (snd (snd l)) x) (record_leaves fs) columns"
  shows "\<exists>ps'. ps_add env config schema columns ps = Some ps'
    \<and> ps_represents env config ps' (H \<union> slice_values schema (record_leaves fs) columns)"
proof -
  let ?ps = "if has_type (ps_schema ps) then ps else ps\<lparr>ps_schema := schema\<rparr>"
  have "ps_schema ?ps = schema" using assms(3) by auto
  moreover have "ps_represents env config ?ps H" using assms(2) by (simp add: ps_represents_def)
  ultimately show ?thesis
    using ps_add_leaves_represents [of env ?ps fs config H "record_leaves fs" columns] assms by (simp add: ps_add_def)
qed

lemma shrink_entries_summarises:
  assumes "env_ok env"
  shows "\<exists>m'. shrink_entries env m = Some m' \<and>
    (\<forall>k t V. summarises env t (map_of m k) V \<longrightarrow> summarises env t (map_of m' k) V) \<and>
    (\<forall>k. (\<exists>s. map_of m' k = Some (Some s)) \<longrightarrow> (\<exists>s. map_of m k = Some (Some s)))"
proof (induction m)
  case (Cons e m)
  obtain k v where e: "e = (k, v)" by (cases e)
  obtain m' where m': "shrink_entries env m = Some m'"
    "\<forall>k t V. summarises env t (map_of m k) V \<longrightarrow> summarises env t (map_of m' k) V"
    "\<forall>k. (\<exists>s. map_of m' k = Some (Some s)) \<longrightarrow> (\<exists>s. map_of m k = Some (Some s))" using Cons.IH by blast
  show ?case
  proof (cases v)
    case None
    then show ?thesis using m' e by auto
  next
    case (Some s)
    obtain r where r: "syn_shrink env s = Some r" using syn_shrink_returns [OF assms] by blast
    show ?thesis
    proof (cases r)
      case None
      then show ?thesis using m' e Some r by auto
    next
      case (Some s')
      have "summarises env t (Some (Some s)) V \<Longrightarrow> summarises env t (Some (Some s')) V" for t V
        using syn_shrink_represents [OF assms, of s V s'] r Some by (auto simp: summarises_def)
      then show ?thesis using m' e \<open>v = Some s\<close> r Some by auto
    qed
  qed
qed (simp add: summarises_def)

text \<open>Shrinking returns and loses nothing.\<close>

lemma ps_shrink_represents:
  assumes "env_ok env" and "ps_represents env config ps H"
  shows "\<exists>ps'. ps_shrink env ps = Some ps' \<and> ps_represents env config ps' H"
proof -
  obtain fm where fm: "shrink_entries env (ps_field_synopses ps) = Some fm"
    "\<forall>k t V. summarises env t (map_of (ps_field_synopses ps) k) V \<longrightarrow> summarises env t (map_of fm k) V"
    "\<forall>k. (\<exists>s. map_of fm k = Some (Some s)) \<longrightarrow> (\<exists>s. map_of (ps_field_synopses ps) k = Some (Some s))"
    using shrink_entries_summarises [OF assms(1), of "ps_field_synopses ps"] by (elim exE conjE) (rule that)
  obtain tm where tm: "shrink_entries env (ps_type_synopses ps) = Some tm"
    "\<forall>k t V. summarises env t (map_of (ps_type_synopses ps) k) V \<longrightarrow> summarises env t (map_of tm k) V"
    using shrink_entries_summarises [OF assms(1), of "ps_type_synopses ps"] by (elim exE conjE) (rule that)
  have "ps_shrink env ps = Some (ps\<lparr>ps_field_synopses := fm, ps_type_synopses := tm\<rparr>)"
    by (simp add: ps_shrink_def fm(1) tm(1))
  moreover have "ps_represents env config (ps\<lparr>ps_field_synopses := fm, ps_type_synopses := tm\<rparr>) H"
    unfolding ps_represents_def
  proof (intro conjI allI impI)
    fix key
    show "summarises env (qf_type key)
        (map_of (ps_field_synopses (ps\<lparr>ps_field_synopses := fm, ps_type_synopses := tm\<rparr>)) key) (field_values H key)"
      using assms(2) fm(2) by (simp add: ps_represents_def)
  next
    fix t
    show "summarises env t
        (map_of (ps_type_synopses (ps\<lparr>ps_field_synopses := fm, ps_type_synopses := tm\<rparr>)) t) (type_values H t)"
      using assms(2) tm(2) by (simp add: ps_represents_def)
  next
    fix key s
    assume "map_of (ps_field_synopses (ps\<lparr>ps_field_synopses := fm, ps_type_synopses := tm\<rparr>)) key = Some (Some s)"
    then obtain s' where "map_of (ps_field_synopses ps) key = Some (Some s')" using fm(3) by auto
    then show "get_field_fprate config key \<noteq> None" using assms(2) unfolding ps_represents_def by blast
  qed
  ultimately show ?thesis by blast
qed

lemma ps_new_represents: "ps_represents env config (ps_new v) {}"
  by (simp add: ps_represents_def ps_new_def summarises_def field_values_def type_values_def)

section \<open>Memberships\<close>

text \<open>The synopsis of a column of integers knows its least and its greatest value, and these are all that the lookup
  of a membership considers.\<close>

lemma add_column_int64:
  "add_column env (map Int64 xs) (Some (Int64_synopsis s)) = Some (Some (Int64_synopsis
    \<lparr>mm_min = Min (insert (mm_min s) (set xs)), mm_max = Max (insert (mm_max s) (set xs))\<rparr>))"
proof (induction xs arbitrary: s)
  case (Cons x xs)
  let ?s = "\<lparr>mm_min = min x (mm_min s), mm_max = max x (mm_max s)\<rparr>"
  have "mm_add int64_kind (Int64 x) s = Some ?s"
    by (cases s) (auto simp: mm_add_def int64_kind_def k_less_def Let_def min_def max_def)
  then have "add_column env (map Int64 (x # xs)) (Some (Int64_synopsis s)) = add_column env (map Int64 xs) (Some (Int64_synopsis ?s))"
    by simp
  also have "\<dots> = Some (Some (Int64_synopsis \<lparr>mm_min = Min (insert (min x (mm_min s)) (set xs)),
      mm_max = Max (insert (max x (mm_max s)) (set xs))\<rparr>))"
    using Cons.IH [of ?s] by simp
  also have "Min (insert (min x (mm_min s)) (set xs)) = Min (insert (mm_min s) (set (x # xs)))"
    by (cases xs) (simp_all add: Min_insert min.assoc min.left_commute min.commute)
  also have "Max (insert (max x (mm_max s)) (set xs)) = Max (insert (mm_max s) (set (x # xs)))"
    by (cases xs) (simp_all add: Max_insert max.assoc max.left_commute max.commute)
  finally show ?case .
qed simp

lemma membership_int64:
  "mm_lookup int64_kind s Op_in (List_data (map Int64 ys)) = Some (mm_min s \<in> set ys \<or> mm_max s \<in> set ys)"
proof -
  have "mm_do_lookup int64_kind s Equal (Int64 y) = Some True \<longleftrightarrow> y = mm_min s \<or> y = mm_max s" for y
    by (auto simp: mm_do_lookup_def mm_lookup_impl_def int64_kind_def k_eq_def k_less_def)
  then show ?thesis by (auto simp: mm_lookup_def mm_membership_def list_ex_iff)
qed

lemma eval_in_int64: "eval_in rx (Int64 x) (List_data (map Int64 ys)) \<longleftrightarrow> x \<in> set ys"
  by (auto simp: eval_in_def list_ex_iff data_eq.simps leaf_eq_def)

end
