(* ===== verification/Taxonomies.thy ===== *)
theory Taxonomies
  imports Tailor
begin

text \<open>
  Concepts, which stand for several fields (\<open>taxonomies.cpp\<close>): the monoid of their definitions, the
  resolution of a list of names, and the rewriting of an expression. A map of concepts is an association
  list. Descriptions that conflict and duplicates only produce warnings.
\<close>

section \<open>Definitions of concepts\<close>

record concept =
  c_description :: string
  c_fields :: "string list"
  c_concepts :: "string list"

type_synonym concepts_map = "(string \<times> concept) list"

definition concept_eq :: "concept \<Rightarrow> concept \<Rightarrow> bool" where
  "concept_eq lhs rhs \<longleftrightarrow> c_concepts lhs = c_concepts rhs \<and> c_fields lhs = c_fields rhs"

definition append_new :: "'a list \<Rightarrow> 'a list \<Rightarrow> 'a list" where
  "append_new xs ys = fold (\<lambda>y xs. if y \<in> set xs then xs else xs @ [y]) ys xs"

definition mappend :: "concept \<Rightarrow> concept \<Rightarrow> concept" where
  "mappend lhs rhs =
    \<lparr>c_description = (if c_description lhs = [] then c_description rhs else c_description lhs),
     c_fields = append_new (c_fields lhs) (c_fields rhs),
     c_concepts = append_new (c_concepts lhs) (c_concepts rhs)\<rparr>"

lemma append_new_Nil [simp]: "append_new xs [] = xs"
  by (simp add: append_new_def)

lemma append_new_Cons: "append_new xs (y # ys) = append_new (if y \<in> set xs then xs else xs @ [y]) ys"
  by (simp add: append_new_def)

lemma append_new_snoc: "append_new xs (ys @ [y]) =
    (if y \<in> set xs \<union> set ys then append_new xs ys else append_new xs ys @ [y])"
  by (induction ys arbitrary: xs) (auto simp: append_new_Cons)

lemma append_new_set [simp]: "set (append_new xs ys) = set xs \<union> set ys"
  by (induction ys arbitrary: xs) (auto simp: append_new_Cons)

lemma append_new_distinct: "distinct xs \<Longrightarrow> distinct (append_new xs ys)"
  by (induction ys arbitrary: xs) (auto simp: append_new_Cons)

lemma append_new_assoc: "append_new (append_new xs ys) zs = append_new xs (append_new ys zs)"
proof (induction zs rule: rev_induct)
  case (snoc z zs)
  then show ?case by (auto simp: append_new_snoc)
qed simp

text \<open>The definitions are combined associatively.\<close>

lemma mappend_assoc: "mappend (mappend x y) z = mappend x (mappend y z)"
  by (simp add: mappend_def append_new_assoc)

section \<open>Resolving a list of names\<close>

text \<open>The state is the set of concepts that were resolved and the names that were found. The recursion is
  limited; \<open>defaults::max_recursion\<close> is 100.\<close>

fun try_resolve_concept :: "concepts_map \<Rightarrow> nat \<Rightarrow> string \<Rightarrow> string list \<times> string list \<Rightarrow> string list \<times> string list" where
  "try_resolve_concept concepts 0 x st = st"
| "try_resolve_concept concepts (Suc limit) x (cache, names) =
    (case map_of concepts x of
       None \<Rightarrow> (cache, names @ [x])
     | Some c \<Rightarrow>
         if x \<in> set cache then (cache, names)
         else fold (try_resolve_concept concepts limit) (c_concepts c) (x # cache, names @ c_fields c))"

definition max_recursion :: nat where
  "max_recursion = 100"

definition resolve_concepts :: "concepts_map \<Rightarrow> string list \<Rightarrow> string list" where
  "resolve_concepts concepts xs = snd (fold (try_resolve_concept concepts max_recursion) xs ([], []))"

section \<open>Rewriting expressions\<close>

text \<open>Whether a field of the schema is referred to by a name and can be compared.\<close>

definition contains_field :: "ty \<Rightarrow> string \<Rightarrow> relational_operator \<Rightarrow> data \<Rightarrow> bool option" where
  "contains_field schema x op d =
    (case as_record schema of
       None \<Rightarrow> None
     | Some fs \<Rightarrow>
         Some (list_ex (\<lambda>index. case field_at fs index of None \<Rightarrow> False | Some f \<Rightarrow> compatible (snd f) op d)
           (resolve_key_suffix fs x (type_name schema))))"

text \<open>The log of referenced concepts is traversed by a range-based for loop: the end is the one before the
  loop, so the concepts that are appended by the loop are not visited.\<close>

definition load_definition :: "concept \<Rightarrow> string list \<times> string list \<Rightarrow> string list \<times> string list" where
  "load_definition c st = (case st of (log, targets) \<Rightarrow> (append_new log (c_concepts c), append_new targets (c_fields c)))"

definition target_fields :: "concepts_map \<Rightarrow> concept \<Rightarrow> string list" where
  "target_fields concepts c =
    (let st = load_definition c ([], [])
     in snd (fold (\<lambda>current st. case map_of concepts current of Some ref \<Rightarrow> load_definition ref st | None \<Rightarrow> st) (fst st) st))"

fun existing_fields :: "ty \<Rightarrow> relational_operator \<Rightarrow> data \<Rightarrow> string list \<Rightarrow> string list option" where
  "existing_fields schema op d [] = Some []"
| "existing_fields schema op d (x # xs) =
    (case (if has_type schema then contains_field schema x op d else Some True) of
       None \<Rightarrow> None
     | Some b \<Rightarrow> map_option (if b then (#) x else id) (existing_fields schema op d xs))"

definition resolve_concept_predicate ::
  "concepts_map \<Rightarrow> ty \<Rightarrow> string \<Rightarrow> predicate \<Rightarrow> data \<Rightarrow> (string \<Rightarrow> predicate) \<Rightarrow> expression option" where
  "resolve_concept_predicate concepts schema name pred d make_pred =
    (case map_of concepts name of
       None \<Rightarrow> Some (Predicate pred)
     | Some c \<Rightarrow>
         (case existing_fields schema (pred_op pred) d (target_fields concepts c) of
            None \<Rightarrow> None
          | Some [] \<Rightarrow> Some (Predicate pred)
          | Some [x] \<Rightarrow> Some (Predicate (make_pred x))
          | Some xs \<Rightarrow> Some (Disjunction (map (Predicate \<circ> make_pred) xs))))"

definition resolve_concept_in :: "concepts_map \<Rightarrow> ty \<Rightarrow> predicate \<Rightarrow> expression option" where
  "resolve_concept_in concepts schema pred =
    (case (pred_lhs pred, pred_rhs pred) of
       (Field_extractor f, Data d) \<Rightarrow>
         resolve_concept_predicate concepts schema f pred d
           (\<lambda>item. \<lparr>pred_lhs = Field_extractor item, pred_op = pred_op pred, pred_rhs = Data d\<rparr>)
     | (Data d, Field_extractor f) \<Rightarrow>
         resolve_concept_predicate concepts schema f pred d
           (\<lambda>item. \<lparr>pred_lhs = Data d, pred_op = pred_op pred, pred_rhs = Field_extractor item\<rparr>)
     | _ \<Rightarrow> Some (Predicate pred))"

text \<open>The only failure is a schema that is not a record, which is an assertion; the error of the
  traversal stands for it.\<close>

definition resolve_taxonomies :: "concepts_map \<Rightarrow> expression \<Rightarrow> ty \<Rightarrow> expression option" where
  "resolve_taxonomies concepts e schema =
    (case for_each_predicate
        (\<lambda>p. case resolve_concept_in concepts schema p of None \<Rightarrow> Inl () | Some r \<Rightarrow> Inr r) e of
       Inl _ \<Rightarrow> None
     | Inr r \<Rightarrow> Some r)"

section \<open>Properties\<close>

lemma existing_fields_spec:
  "existing_fields schema op d xs = Some ys \<Longrightarrow>
    x \<in> set ys \<longleftrightarrow> x \<in> set xs \<and> (has_type schema \<longrightarrow> contains_field schema x op d = Some True)"
proof (induction xs arbitrary: ys)
  case (Cons a xs)
  obtain b zs where b: "(if has_type schema then contains_field schema a op d else Some True) = Some b"
    "existing_fields schema op d xs = Some zs" "ys = (if b then (#) a else id) zs"
    using Cons.prems by (auto split: option.splits if_splits)
  have "b \<longleftrightarrow> (has_type schema \<longrightarrow> contains_field schema a op d = Some True)" using b(1) by (auto split: if_splits)
  then show ?case using Cons.IH [OF b(2)] b(3) by auto
qed simp

lemma existing_fields_returns: "\<not> has_type schema \<or> as_record schema \<noteq> None \<Longrightarrow> existing_fields schema op d xs \<noteq> None"
  by (induction xs) (auto simp: contains_field_def split: option.splits)

lemma resolve_concept_in_returns:
  assumes "\<not> has_type schema \<or> as_record schema \<noteq> None"
  shows "resolve_concept_in concepts schema p \<noteq> None"
proof -
  have "resolve_concept_predicate concepts schema name q d mk \<noteq> None" for name q d mk
  proof (cases "map_of concepts name")
    case (Some c)
    obtain xs where "existing_fields schema (pred_op q) d (target_fields concepts c) = Some xs"
      using existing_fields_returns [OF assms] by blast
    then show ?thesis using Some by (cases xs; cases "tl xs") (auto simp: resolve_concept_predicate_def)
  qed (simp add: resolve_concept_predicate_def)
  then show ?thesis by (auto simp: resolve_concept_in_def simp del: not_None_eq split: operand.splits)
qed

lemma for_each_predicate_Inr:
  assumes "\<And>p. \<exists>r. f p = Inr r"
  shows "\<exists>r. for_each_predicate f e = Inr r" "\<exists>rs. for_each_in f es = Inr rs"
  using assms by (induction f e and f es rule: for_each_predicate_for_each_in.induct) force+

text \<open>An expression and the result of rewriting it mean the same if a concept means the disjunction of the
  fields that it resolves to.\<close>

definition mapped_holds :: "(predicate \<Rightarrow> bool) \<Rightarrow> (predicate \<Rightarrow> 'e + expression) \<Rightarrow> predicate \<Rightarrow> bool" where
  "mapped_holds h f p = (case f p of Inl _ \<Rightarrow> False | Inr s \<Rightarrow> expr_holds h s)"

definition rewritten_holds :: "(predicate \<Rightarrow> bool) \<Rightarrow> concepts_map \<Rightarrow> ty \<Rightarrow> predicate \<Rightarrow> bool" where
  "rewritten_holds h concepts schema p =
    (case resolve_concept_in concepts schema p of None \<Rightarrow> False | Some r \<Rightarrow> expr_holds h r)"

lemma list_all2_quantifiers:
  "list_all2 (\<lambda>x y. P x = Q y) xs ys \<Longrightarrow> (\<forall>x \<in> set xs. P x) = (\<forall>y \<in> set ys. Q y)"
  "list_all2 (\<lambda>x y. P x = Q y) xs ys \<Longrightarrow> (\<exists>x \<in> set xs. P x) = (\<exists>y \<in> set ys. Q y)"
  by (induction rule: list_all2_induct) auto

lemma for_each_predicate_holds:
  "for_each_predicate f e = Inr r \<Longrightarrow> expr_holds h r = expr_holds (mapped_holds h f) e"
  "for_each_in f es = Inr rs \<Longrightarrow>
    list_all2 (\<lambda>r e. expr_holds h r = expr_holds (mapped_holds h f) e) rs es"
proof (induction f e and f es arbitrary: r and rs rule: for_each_predicate_for_each_in.induct)
  case (2 f xs)
  then obtain ys where "for_each_in f xs = Inr ys" "r = Conjunction ys" by (auto split: sum.splits)
  then show ?case using list_all2_quantifiers(1) [OF "2.IH" [of ys]] by simp
next
  case (3 f xs)
  then obtain ys where "for_each_in f xs = Inr ys" "r = Disjunction ys" by (auto split: sum.splits)
  then show ?case using list_all2_quantifiers(2) [OF "3.IH" [of ys]] by simp
next
  case (5 f p)
  then show ?case by (simp add: mapped_holds_def)
qed (auto split: sum.splits)

lemma resolve_taxonomies_holds:
  assumes "resolve_taxonomies concepts e schema = Some r"
  shows "expr_holds h r = expr_holds (rewritten_holds h concepts schema) e"
proof -
  let ?f = "\<lambda>p. case resolve_concept_in concepts schema p of None \<Rightarrow> Inl () | Some r \<Rightarrow> Inr r"
  have "mapped_holds h ?f = rewritten_holds h concepts schema"
    by (simp add: rewritten_holds_def mapped_holds_def fun_eq_iff split: option.split)
  moreover have "for_each_predicate ?f e = Inr r" using assms by (simp add: resolve_taxonomies_def split: sum.splits)
  ultimately show ?thesis using for_each_predicate_holds(1) [of ?f e r h] by simp
qed

lemma resolve_taxonomies_returns:
  assumes "\<not> has_type schema \<or> as_record schema \<noteq> None"
  shows "resolve_taxonomies concepts e schema \<noteq> None"
proof -
  have "\<exists>r. (case resolve_concept_in concepts schema p of None \<Rightarrow> Inl () | Some r \<Rightarrow> Inr r) = Inr r" for p
    using resolve_concept_in_returns [OF assms, of concepts p] by auto
  from for_each_predicate_Inr(1) [where f = "\<lambda>p. case resolve_concept_in concepts schema p of None \<Rightarrow> Inl () | Some r \<Rightarrow> Inr r",
      OF this, of e]
  show ?thesis by (auto simp: resolve_taxonomies_def)
qed

end
