(* ===== verification/Prune.thy ===== *)
theory Prune
  imports Expression
begin

text \<open>
  Pruning of expressions before a catalog lookup (\<open>prune.cpp\<close>): predicates of one connective that look
  up the same string in different fields are replaced by one predicate on all strings. The memo holds
  the positions in the result that the pointers of the code refer to. The loop repeats the pruner and
  the hoister until the expression does not change, so it is a partial function.
\<close>

section \<open>The pruner\<close>

definition prunable :: "(string \<Rightarrow> bool) \<Rightarrow> expression \<Rightarrow> predicate option" where
  "prunable unprunable x =
    (case x of
       Predicate p \<Rightarrow>
         (case (pred_lhs p, pred_rhs p) of
            (Field_extractor f, Data (Str _)) \<Rightarrow> if unprunable f then None else Some p
          | (Type_extractor t, Data (Str _)) \<Rightarrow> if t = String_type then Some p else None
          | _ \<Rightarrow> None)
     | _ \<Rightarrow> None)"

definition same_lookup :: "predicate \<Rightarrow> expression \<Rightarrow> bool" where
  "same_lookup p x =
    (case x of Predicate q \<Rightarrow> pred_op q = pred_op p \<and> operand_eq (pred_rhs q) (pred_rhs p) | _ \<Rightarrow> False)"

definition generalize :: "expression \<Rightarrow> expression" where
  "generalize x = (case x of Predicate q \<Rightarrow> Predicate (q\<lparr>pred_lhs := Type_extractor String_type\<rparr>) | _ \<Rightarrow> x)"

fun prune_once :: "(string \<Rightarrow> bool) \<Rightarrow> expression \<Rightarrow> expression"
  and prune_run :: "(string \<Rightarrow> bool) \<Rightarrow> expression list \<Rightarrow> nat list \<Rightarrow> expression list \<Rightarrow> expression list"
where
  "prune_once unprunable None_expr = None_expr"
| "prune_once unprunable (Conjunction xs) = Conjunction (prune_run unprunable [] [] xs)"
| "prune_once unprunable (Disjunction xs) = Disjunction (prune_run unprunable [] [] xs)"
| "prune_once unprunable (Negation x) = Negation (prune_once unprunable x)"
| "prune_once unprunable (Predicate p) = Predicate p"
| "prune_run unprunable result memo [] = result"
| "prune_run unprunable result memo (x # xs) =
    (case prunable unprunable x of
       Some p \<Rightarrow>
         (case find (\<lambda>i. same_lookup p (result ! i)) memo of
            Some i \<Rightarrow> prune_run unprunable (result[i := generalize (result ! i)]) memo xs
          | None \<Rightarrow> prune_run unprunable (result @ [x]) (memo @ [length result]) xs)
     | None \<Rightarrow> prune_run unprunable (result @ [prune_once unprunable x]) memo xs)"

partial_function (option) prune_loop :: "(string \<Rightarrow> bool) \<Rightarrow> expression \<Rightarrow> expression \<Rightarrow> expression option" where
  "prune_loop unprunable result e =
    (if expr_eq result e then Some result
     else prune_loop unprunable (hoist (prune_once unprunable result)) result)"

definition prune :: "expression \<Rightarrow> (string \<Rightarrow> bool) \<Rightarrow> expression option" where
  "prune e unprunable = prune_loop unprunable (prune_once unprunable e) e"

section \<open>Pruning only generalizes\<close>

definition generalizes :: "(predicate \<Rightarrow> bool) \<Rightarrow> (string \<Rightarrow> bool) \<Rightarrow> bool" where
  "generalizes h unprunable \<longleftrightarrow>
    (\<forall>p. prunable unprunable (Predicate p) \<noteq> None \<longrightarrow> h p \<longrightarrow> h (p\<lparr>pred_lhs := Type_extractor String_type\<rparr>))"

lemma prunable_Predicate: "prunable u x = Some p \<Longrightarrow> x = Predicate p \<and> (\<exists>s. pred_rhs p = Data (Str s))"
  by (auto simp: prunable_def split: expression.splits operand.splits data.splits if_splits)

lemma operand_eq_string: "operand_eq x (Data (Str s)) \<longleftrightarrow> x = Data (Str s)"
  by (auto simp: operand_eq_def data_eq.simps leaf_eq_def split: operand.splits option.splits data.splits)

definition memo_ok :: "(string \<Rightarrow> bool) \<Rightarrow> expression list \<Rightarrow> nat list \<Rightarrow> bool" where
  "memo_ok u result memo \<longleftrightarrow> (\<forall>i \<in> set memo. i < length result \<and> prunable u (result ! i) \<noteq> None)"

lemma prunable_generalize:
  assumes "prunable u x \<noteq> None"
  shows "prunable u (generalize x) \<noteq> None"
proof -
  obtain p where "prunable u x = Some p" using assms by blast
  then obtain s where "x = Predicate p" "pred_rhs p = Data (Str s)" using prunable_Predicate by blast
  then show ?thesis by (simp add: prunable_def generalize_def)
qed

lemma memo_ok_generalize:
  "memo_ok u result memo \<Longrightarrow> i \<in> set memo \<Longrightarrow> memo_ok u (result[i := generalize (result ! i)]) memo"
  unfolding memo_ok_def by (metis length_list_update nth_list_update prunable_generalize)

lemma memo_ok_append:
  "memo_ok u result memo \<Longrightarrow> memo_ok u (result @ [x]) memo"
  "memo_ok u result memo \<Longrightarrow> prunable u x \<noteq> None \<Longrightarrow> memo_ok u (result @ [x]) (memo @ [length result])"
  by (auto simp: memo_ok_def nth_append)

lemma find_SomeD: "find P xs = Some x \<Longrightarrow> x \<in> set xs \<and> P x"
  by (induction xs) (auto split: if_splits)

text \<open>The invariant of a run: whatever satisfies all, or some, of the operands seen so far satisfies all,
  or some, of the results.\<close>

lemma generalize_holds:
  assumes "generalizes h u" and "prunable u x \<noteq> None" and "expr_holds h x"
  shows "expr_holds h (generalize x)"
  using assms prunable_Predicate [of u x] by (auto simp: generalizes_def generalize_def)

lemma same_lookup_generalize:
  assumes "prunable u x = Some p" and "prunable u y \<noteq> None" and "same_lookup p y"
  shows "generalize x = generalize y"
  using assms by (auto dest!: prunable_Predicate simp: same_lookup_def generalize_def operand_eq_string)

lemma operands_step:
  assumes "((\<forall>y \<in> R'. P y) \<longrightarrow> A) \<and> ((\<exists>y \<in> R'. P y) \<longrightarrow> B)"
    and "(\<forall>y \<in> R. P y) \<longrightarrow> (\<forall>y \<in> R'. P y)" and "(\<exists>y \<in> R. P y) \<longrightarrow> (\<exists>y \<in> R'. P y)"
  shows "((\<forall>y \<in> R. P y) \<longrightarrow> A) \<and> ((\<exists>y \<in> R. P y) \<longrightarrow> B)"
  using assms by blast

lemma prune_once_holds:
  "generalizes h u \<Longrightarrow> negation_free e \<Longrightarrow> expr_holds h e \<Longrightarrow> expr_holds h (prune_once u e)"
  and prune_run_holds:
  "generalizes h u \<Longrightarrow> memo_ok u result memo \<Longrightarrow> \<forall>x \<in> set xs. negation_free x \<Longrightarrow>
    ((\<forall>x \<in> set result \<union> set xs. expr_holds h x) \<longrightarrow> (\<forall>y \<in> set (prune_run u result memo xs). expr_holds h y)) \<and>
    ((\<exists>x \<in> set result \<union> set xs. expr_holds h x) \<longrightarrow> (\<exists>y \<in> set (prune_run u result memo xs). expr_holds h y))"
proof (induction u e and u result memo xs rule: prune_once_prune_run.induct)
  case (7 u result memo x xs)
  have xs: "\<forall>y \<in> set xs. negation_free y" using "7.prems"(3) by simp
  show ?case
  proof (cases "prunable u x")
    case None
    have x: "expr_holds h x \<longrightarrow> expr_holds h (prune_once u x)" using "7.IH"(1) [OF None "7.prems"(1)] "7.prems"(3) by simp
    note IH = "7.IH"(2) [OF None "7.prems"(1) memo_ok_append(1) [OF "7.prems"(2)] xs]
    have run: "prune_run u result memo (x # xs) = prune_run u (result @ [prune_once u x]) memo xs" using None by simp
    show ?thesis unfolding run by (rule operands_step [OF IH]) (use x in auto)
  next
    case (Some p)
    show ?thesis
    proof (cases "find (\<lambda>i. same_lookup p (result ! i)) memo")
      case None
      have run: "prune_run u result memo (x # xs) = prune_run u (result @ [x]) (memo @ [length result]) xs"
        using Some None by simp
      have "prunable u x \<noteq> None" using Some by simp
      note IH = "7.IH"(3) [OF Some None "7.prems"(1) memo_ok_append(2) [OF "7.prems"(2) this] xs]
      show ?thesis unfolding run by (rule operands_step [OF IH]) auto
    next
      case found: (Some i)
      let ?r = "result[i := generalize (result ! i)]"
      have i: "i \<in> set memo" "same_lookup p (result ! i)" using find_SomeD [OF found] by auto
      then have r: "i < length result" "prunable u (result ! i) \<noteq> None" using "7.prems"(2) by (auto simp: memo_ok_def)
      have g: "expr_holds h x \<longrightarrow> expr_holds h (generalize (result ! i))"
        using generalize_holds [OF "7.prems"(1), of x] same_lookup_generalize [OF Some r(2) i(2)] Some by simp
      have g': "expr_holds h (result ! i) \<longrightarrow> expr_holds h (generalize (result ! i))"
        using generalize_holds [OF "7.prems"(1) r(2)] by simp
      have all: "(\<forall>y \<in> set result. expr_holds h y) \<longrightarrow> (\<forall>y \<in> set ?r. expr_holds h y)"
        using g' r(1) set_update_subset_insert [of result i "generalize (result ! i)"] by auto
      have some: "(\<exists>y \<in> set result. expr_holds h y) \<longrightarrow> (\<exists>y \<in> set ?r. expr_holds h y)"
      proof
        assume "\<exists>y \<in> set result. expr_holds h y"
        then obtain j where "j < length result" "expr_holds h (result ! j)" by (auto simp: in_set_conv_nth)
        then have "j < length ?r" "expr_holds h (?r ! j)" using g' r(1) by (cases "j = i"; simp)+
        then show "\<exists>y \<in> set ?r. expr_holds h y" using nth_mem by blast
      qed
      have mem: "generalize (result ! i) \<in> set ?r" using r(1) by (simp add: set_update_memI)
      note IH = "7.IH"(4) [OF Some found "7.prems"(1) memo_ok_generalize [OF "7.prems"(2) i(1)] xs]
      have run: "prune_run u result memo (x # xs) = prune_run u ?r memo xs" using Some found by simp
      show ?thesis unfolding run by (rule operands_step [OF IH]) (use all some g mem in auto)
    qed
  qed
qed (auto simp: memo_ok_def)

lemma hoist_negation_free: "negation_free e \<Longrightarrow> negation_free (hoist e)"
proof (induction e rule: hoist_induct)
  case (Conjunction xs)
  then have "\<forall>y \<in> set (hoist_conjunction xs). negation_free y"
    by (intro hoist_operands_all [where Q = negation_free]) auto
  then show ?case by (cases "hoist_conjunction xs"; cases "tl (hoist_conjunction xs)") auto
next
  case (Disjunction xs)
  then have "\<forall>y \<in> set (hoist_disjunction xs). negation_free y"
    by (intro hoist_operands_all [where Q = negation_free]) auto
  then show ?case by (cases "hoist_disjunction xs"; cases "tl (hoist_disjunction xs)") auto
qed simp_all

text \<open>What generalizing keeps is kept by a whole run.\<close>

lemma prune_run_all:
  assumes "\<And>x. prunable u x \<noteq> None \<Longrightarrow> Q x \<Longrightarrow> Q (generalize x)"
  shows "memo_ok u result memo \<Longrightarrow> \<forall>x \<in> set result. Q x \<Longrightarrow> \<forall>x \<in> set xs. Q x \<and> Q (prune_once u x)
    \<Longrightarrow> \<forall>x \<in> set (prune_run u result memo xs). Q x"
proof (induction xs arbitrary: result memo)
  case (Cons x xs)
  then have xs: "\<forall>x \<in> set xs. Q x \<and> Q (prune_once u x)" by simp
  show ?case
  proof (cases "prunable u x")
    case None
    have "\<forall>y \<in> set (result @ [prune_once u x]). Q y" using Cons.prems by simp
    from Cons.IH [OF memo_ok_append(1) [OF Cons.prems(1)] this xs] None show ?thesis by simp
  next
    case (Some p)
    show ?thesis
    proof (cases "find (\<lambda>i. same_lookup p (result ! i)) memo")
      case None
      have "prunable u x \<noteq> None" using Some by simp
      note memo = memo_ok_append(2) [OF Cons.prems(1) this]
      have "\<forall>y \<in> set (result @ [x]). Q y" using Cons.prems by simp
      from Cons.IH [OF memo this xs] Some None show ?thesis by simp
    next
      case found: (Some i)
      let ?r = "result[i := generalize (result ! i)]"
      have i: "i \<in> set memo" using find_SomeD [OF found] by simp
      then have r: "i < length result" "prunable u (result ! i) \<noteq> None" using Cons.prems(1) by (auto simp: memo_ok_def)
      then have "Q (generalize (result ! i))" using Cons.prems(2) by (intro assms) auto
      then have "\<forall>y \<in> set ?r. Q y"
        using Cons.prems(2) set_update_subset_insert [of result i "generalize (result ! i)"] by auto
      from Cons.IH [OF memo_ok_generalize [OF Cons.prems(1) i] this xs] Some found show ?thesis by simp
    qed
  qed
qed simp

lemma memo_ok_Nil [simp]: "memo_ok u [] []"
  by (simp add: memo_ok_def)

lemma prunable_negation_free: "prunable u x \<noteq> None \<Longrightarrow> negation_free (generalize x)"
  using prunable_Predicate [of u x] by (auto simp: generalize_def)

lemma prune_once_negation_free: "negation_free e \<Longrightarrow> negation_free (prune_once u e)"
proof (induction e)
  case (Conjunction xs)
  then show ?case using prune_run_all [of u negation_free "[]" "[]" xs] prunable_negation_free by simp
next
  case (Disjunction xs)
  then show ?case using prune_run_all [of u negation_free "[]" "[]" xs] prunable_negation_free by simp
qed simp_all

lemma prune_loop_holds:
  assumes "generalizes h u" and "prune_loop u result e = Some y"
  shows "expr_holds h result \<longrightarrow> negation_free result \<longrightarrow> expr_holds h y"
proof -
  let ?P = "\<lambda>u result e y. generalizes h u \<longrightarrow> expr_holds h result \<longrightarrow> negation_free result \<longrightarrow> expr_holds h y"
  have "?P u result e y"
  proof (rule prune_loop.raw_induct [of ?P, OF _ assms(2)])
    fix loop u result e y
    assume IH: "\<And>u result e y. loop u result e = Some y \<Longrightarrow> ?P u result e y"
      and step: "(if expr_eq result e then Some result else loop u (hoist (prune_once u result)) result) = Some y"
    show "?P u result e y"
    proof (cases "expr_eq result e")
      case False
      then have "loop u (hoist (prune_once u result)) result = Some y" using step by simp
      from IH [OF this] show ?thesis
        using prune_once_holds by (auto simp: hoist_holds hoist_negation_free prune_once_negation_free)
    qed (use step in simp)
  qed
  then show ?thesis using assms(1) by simp
qed

lemma prune_holds:
  assumes "generalizes h u" and "prune e u = Some y" and "negation_free e" and "expr_holds h e"
  shows "expr_holds h y"
  using prune_loop_holds [OF assms(1) assms(2) [unfolded prune_def]] prune_once_holds [OF assms(1,3,4)]
    prune_once_negation_free [OF assms(3)] by simp

section \<open>Pruning returns\<close>

lemma self_equal_string: "data_eq (Str s) (Str s)"
  by (simp add: data_eq.simps leaf_eq_def)

lemma size_list_append: "size_list f (us @ vs) = size_list f us + size_list f vs"
  by (induction us) auto

lemma size_list_update: "i < length us \<Longrightarrow> f x = f (us ! i) \<Longrightarrow> size_list f (us[i := x]) = size_list f us"
  by (induction us arbitrary: i) (auto split: nat.splits)

lemma size_generalize: "size (generalize x) = size x"
  by (simp add: generalize_def split: expression.split)

lemma prune_once_smaller: "prune_once u e = e \<or> size (prune_once u e) < size e"
  and prune_run_smaller: "memo_ok u result memo \<Longrightarrow>
    prune_run u result memo xs = result @ xs \<or> size_list size (prune_run u result memo xs) < size_list size (result @ xs)"
proof (induction u e and u result memo xs rule: prune_once_prune_run.induct)
  case (7 u result memo x xs)
  show ?case
  proof (cases "prunable u x")
    case None
    note IH = "7.IH"(2) [OF None memo_ok_append(1) [OF "7.prems"]]
    show ?thesis using IH "7.IH"(1) [OF None] None by (auto simp: size_list_append)
  next
    case (Some p)
    show ?thesis
    proof (cases "find (\<lambda>i. same_lookup p (result ! i)) memo")
      case None
      have "prunable u x \<noteq> None" using Some by simp
      note IH = "7.IH"(3) [OF Some None memo_ok_append(2) [OF "7.prems" this]]
      show ?thesis using IH Some None by simp
    next
      case found: (Some i)
      have i: "i \<in> set memo" using find_SomeD [OF found] by simp
      then have "i < length result" using "7.prems" by (simp add: memo_ok_def)
      then have same: "size_list size (result[i := generalize (result ! i)]) = size_list size result"
        by (simp add: size_list_update size_generalize)
      note IH = "7.IH"(4) [OF Some found memo_ok_generalize [OF "7.prems" i]]
      then have "size_list size (prune_run u (result[i := generalize (result ! i)]) memo xs) \<le> size_list size result + size_list size xs"
        using same by (auto simp: size_list_append)
      then show ?thesis using Some found by (simp add: size_list_append)
    qed
  qed
next
  case (2 u xs)
  have "memo_ok u [] []" by (simp add: memo_ok_def)
  from 2 [OF this] show ?case by auto
next
  case (3 u xs)
  have "memo_ok u [] []" by (simp add: memo_ok_def)
  from 3 [OF this] show ?case by auto
qed auto

lemma rewrite_smaller: "hoist (prune_once u e) = e \<or> size (hoist (prune_once u e)) < size e"
  using hoist_smaller [of "prune_once u e"] prune_once_smaller [of u e] by auto

lemma memo_prunable: "prunable u x \<noteq> None \<Longrightarrow> self_equal x \<Longrightarrow> self_equal (generalize x)"
  using prunable_Predicate [of u x] by (auto simp: generalize_def predicate_eq_def operand_eq_def self_equal_string)

lemma prune_once_self_equal: "self_equal e \<Longrightarrow> self_equal (prune_once u e)"
proof (induction e)
  case (Conjunction xs)
  then show ?case using prune_run_all [of u self_equal "[]" "[]" xs] memo_prunable by simp
next
  case (Disjunction xs)
  then show ?case using prune_run_all [of u self_equal "[]" "[]" xs] memo_prunable by simp
qed simp_all

lemma hoist_self_equal: "self_equal e \<Longrightarrow> self_equal (hoist e)"
proof (induction e rule: hoist_induct)
  case (Conjunction xs)
  then have "\<forall>y \<in> set (hoist_conjunction xs). self_equal y"
    by (intro hoist_operands_all [where Q = self_equal]) auto
  then show ?case by (cases "hoist_conjunction xs"; cases "tl (hoist_conjunction xs)") auto
next
  case (Disjunction xs)
  then have "\<forall>y \<in> set (hoist_disjunction xs). self_equal y"
    by (intro hoist_operands_all [where Q = self_equal]) auto
  then show ?case by (cases "hoist_disjunction xs"; cases "tl (hoist_disjunction xs)") auto
qed simp_all

lemma prune_loop_returns: "self_equal result \<Longrightarrow> \<exists>y. prune_loop u result e = Some y"
proof (induction result arbitrary: e rule: measure_induct_rule [of size])
  case (less result)
  show ?case
  proof (cases "expr_eq result e")
    case False
    let ?next = "hoist (prune_once u result)"
    have step: "prune_loop u result e = prune_loop u ?next result" using False by (simp add: prune_loop.simps [of u result e])
    from rewrite_smaller [of u result] show ?thesis
    proof
      assume "?next = result"
      then show ?thesis using step expr_eq_refl [OF less.prems] by (simp add: prune_loop.simps [of u result result])
    next
      assume "size ?next < size result"
      from less.IH [OF this, of result] step show ?thesis
        using hoist_self_equal [OF prune_once_self_equal [OF less.prems]] by simp
    qed
  qed (simp add: prune_loop.simps [of u result e])
qed

lemma prune_returns: "self_equal e \<Longrightarrow> \<exists>y. prune e u = Some y"
  by (simp add: prune_def prune_loop_returns prune_once_self_equal)

text \<open>An expression that is not equal to itself, because it holds a NaN, is never found unchanged.\<close>

lemma prune_loop_diverges:
  assumes "hoist (prune_once u e) = e" and "\<not> expr_eq e e"
  shows "prune_loop u e e = None"
proof (rule ccontr)
  let ?P = "\<lambda>u' result e' y. (u', result, e') \<noteq> (u, e, e)"
  assume "prune_loop u e e \<noteq> None"
  then obtain y where y: "prune_loop u e e = Some y" by blast
  have "?P u e e y"
  proof (rule prune_loop.raw_induct [of ?P, OF _ y])
    fix loop :: "(string \<Rightarrow> bool) \<Rightarrow> expression \<Rightarrow> expression \<Rightarrow> expression option" and u' result e' y'
    assume IH: "\<And>u' result e' y. loop u' result e' = Some y \<Longrightarrow> ?P u' result e' y"
      and step: "(if expr_eq result e' then Some result else loop u' (hoist (prune_once u' result)) result) = Some y'"
    show "?P u' result e' y'"
    proof
      assume "(u', result, e') = (u, e, e)"
      then have "loop u e e = Some y'" using step assms by simp
      from IH [OF this] show False by simp
    qed
  qed
  then show False by simp
qed

end
