(* ===== verification/Sorted_Sets.thy ===== *)
theory Sorted_Sets
  imports Vector_Map
begin

text \<open>
  Set operations on sorted vectors (\<open>detail/set_operations.hpp\<close>). The elements are compared by a key, so
  that elements with the same key count as equal. The two inputs have to be strictly ascending; then so
  is the result, and its keys are the intersection or the union of the keys.
\<close>

section \<open>Operations\<close>

text \<open>\<open>std::set_intersection\<close> and \<open>std::set_union\<close>, which copy equal elements from the first range.\<close>

fun intersect :: "('a \<Rightarrow> 'k::linorder) \<Rightarrow> 'a list \<Rightarrow> 'a list \<Rightarrow> 'a list" where
  "intersect key (x # xs) (y # ys) =
    (if key x < key y then intersect key xs (y # ys)
     else if key y < key x then intersect key (x # xs) ys
     else x # intersect key xs ys)"
| "intersect key xs ys = []"

fun unify :: "('a \<Rightarrow> 'k::linorder) \<Rightarrow> 'a list \<Rightarrow> 'a list \<Rightarrow> 'a list" where
  "unify key (x # xs) (y # ys) =
    (if key y < key x then y # unify key (x # xs) ys
     else if key x < key y then x # unify key xs (y # ys)
     else x # unify key xs ys)"
| "unify key [] ys = ys"
| "unify key xs [] = xs"

text \<open>The loop of the in-place intersection over the part of the result that is not final yet.\<close>

fun inplace_intersect :: "('a \<Rightarrow> 'k::linorder) \<Rightarrow> 'a list \<Rightarrow> 'a list \<Rightarrow> 'a list" where
  "inplace_intersect key (x # xs) (y # ys) =
    (if key x < key y then inplace_intersect key xs (y # ys)
     else if key x > key y then inplace_intersect key (x # xs) ys
     else x # inplace_intersect key xs ys)"
| "inplace_intersect key xs ys = []"

text \<open>\<open>std::inplace_merge\<close> is stable, \<open>std::unique\<close> keeps the first of a run of equal elements.\<close>

fun merge_by :: "('a \<Rightarrow> 'k::linorder) \<Rightarrow> 'a list \<Rightarrow> 'a list \<Rightarrow> 'a list" where
  "merge_by key (x # xs) (y # ys) =
    (if key y < key x then y # merge_by key (x # xs) ys else x # merge_by key xs (y # ys))"
| "merge_by key [] ys = ys"
| "merge_by key xs [] = xs"

fun unique_by :: "('a \<Rightarrow> 'k) \<Rightarrow> 'a list \<Rightarrow> 'a list" where
  "unique_by key (x # y # zs) = (if key x = key y then unique_by key (x # zs) else x # unique_by key (y # zs))"
| "unique_by key xs = xs"

definition inplace_unify :: "('a \<Rightarrow> 'k::linorder) \<Rightarrow> 'a list \<Rightarrow> 'a list \<Rightarrow> 'a list" where
  "inplace_unify key result xs = unique_by key (merge_by key result xs)"

section \<open>Ascending inputs\<close>

abbreviation keys_of :: "('a \<Rightarrow> 'k) \<Rightarrow> 'a list \<Rightarrow> 'k set" where
  "keys_of key xs \<equiv> key ` set xs"

lemma inplace_intersect_eq: "inplace_intersect key xs ys = intersect key xs ys"
  by (induction key xs ys rule: intersect.induct) auto

lemma intersect_subset: "set (intersect key xs ys) \<subseteq> set xs"
  by (induction key xs ys rule: intersect.induct) auto

lemma intersect_keys:
  "flat_ok key xs \<Longrightarrow> flat_ok key ys \<Longrightarrow> keys_of key (intersect key xs ys) = keys_of key xs \<inter> keys_of key ys"
proof (induction key xs ys rule: intersect.induct)
  case (1 key x xs y ys)
  consider "key x < key y" | "key y < key x" | "key x = key y" by force
  then show ?case
  proof cases
    case 1
    then have "key x \<notin> keys_of key (y # ys)" using "1.prems"(2) by (force simp: flat_ok_Cons)
    then show ?thesis using 1 "1.IH"(1) "1.prems" by (auto simp: flat_ok_Cons)
  next
    case 2
    then have "key y \<notin> keys_of key (x # xs)" using "1.prems"(1) by (force simp: flat_ok_Cons)
    then show ?thesis using 2 "1.IH"(2) "1.prems" by (auto simp: flat_ok_Cons)
  next
    case 3
    then have "key x \<notin> keys_of key xs" "key x \<notin> keys_of key ys" using "1.prems" by (force simp: flat_ok_Cons)+
    then show ?thesis using 3 "1.IH"(3) "1.prems" by (auto simp: flat_ok_Cons)
  qed
qed auto

lemma intersect_ok: "flat_ok key xs \<Longrightarrow> flat_ok key (intersect key xs ys)"
proof (induction key xs ys rule: intersect.induct)
  case (1 key x xs y ys)
  then show ?case using intersect_subset [of key xs ys] by (auto simp: flat_ok_Cons)
qed (auto simp: flat_ok_def)

lemma merge_by_set: "set (merge_by key xs ys) = set xs \<union> set ys"
  by (induction key xs ys rule: merge_by.induct) auto

lemma merge_by_sorted:
  "sorted (map key xs) \<Longrightarrow> sorted (map key ys) \<Longrightarrow> sorted (map key (merge_by key xs ys))"
  by (induction key xs ys rule: merge_by.induct) (auto simp: merge_by_set)

lemma unique_by_set: "set (unique_by key xs) \<subseteq> set xs" and unique_by_keys: "keys_of key (unique_by key xs) = keys_of key xs"
  by (induction key xs rule: unique_by.induct) auto

lemma unique_by_ok: "sorted (map key xs) \<Longrightarrow> flat_ok key (unique_by key xs)" for key :: "'a \<Rightarrow> 'k::linorder"
proof (induction key xs rule: unique_by.induct)
  case (1 key x y zs)
  show ?case
  proof (cases "key x = key y")
    case True
    then show ?thesis using 1 by simp
  next
    case False
    then have "key x < key z" if "z \<in> set (y # zs)" for z using 1(3) that by fastforce
    then show ?thesis using False 1 unique_by_set [of key "y # zs"] by (auto simp: flat_ok_Cons)
  qed
qed (auto simp: flat_ok_def)

lemma flat_ok_sorted: "flat_ok key xs \<Longrightarrow> sorted (map key xs)"
  by (simp add: flat_ok_def strict_sorted_iff)

lemma inplace_unify_ok: "flat_ok key xs \<Longrightarrow> flat_ok key ys \<Longrightarrow> flat_ok key (inplace_unify key xs ys)"
  by (simp add: inplace_unify_def unique_by_ok merge_by_sorted flat_ok_sorted)

lemma inplace_unify_keys: "keys_of key (inplace_unify key xs ys) = keys_of key xs \<union> keys_of key ys"
  by (simp add: inplace_unify_def unique_by_keys merge_by_set image_Un)

lemma inplace_unify_subset: "set (inplace_unify key xs ys) \<subseteq> set xs \<union> set ys"
  using unique_by_set [of key "merge_by key xs ys"] by (simp add: inplace_unify_def merge_by_set)

text \<open>The in-place union of ascending vectors is the union of the library.\<close>

lemma unify_keys: "keys_of key (unify key xs ys) = keys_of key xs \<union> keys_of key ys"
  by (induction key xs ys rule: unify.induct) auto

lemma unify_subset: "set (unify key xs ys) \<subseteq> set xs \<union> set ys"
  by (induction key xs ys rule: unify.induct) auto

lemma unify_ok: "flat_ok key xs \<Longrightarrow> flat_ok key ys \<Longrightarrow> flat_ok key (unify key xs ys)"
proof (induction key xs ys rule: unify.induct)
  case (1 key x xs y ys)
  have sub: "set (unify key us vs) \<subseteq> set us \<union> set vs" for us vs by (rule unify_subset)
  consider "key x < key y" | "key y < key x" | "key x = key y" by force
  then show ?case
  proof cases
    case 1
    then show ?thesis using "1.IH"(2) "1.prems" sub [of xs "y # ys"] by (fastforce simp: flat_ok_Cons)
  next
    case 2
    then show ?thesis using "1.IH"(1) "1.prems" sub [of "x # xs" ys] by (fastforce simp: flat_ok_Cons)
  next
    case 3
    then show ?thesis using "1.IH"(3) "1.prems" sub [of xs ys] by (fastforce simp: flat_ok_Cons)
  qed
qed auto

end
