(* ===== verification/Catalog.thy ===== *)
theory Catalog
  imports Partition_Synopsis Taxonomies Prune Sorted_Sets "HOL-Library.AList" "HOL-Library.Multiset"
begin

text \<open>
  The catalog (\<open>catalog.cpp\<close>): for every schema the partitions and their synopses, and the lookup of the
  partitions that may hold events matching an expression. An unordered map is the list of its entries; the
  map from ids to synopses is a flat map, that is, an ascending vector. Failing assertions are None. The
  functions that come from elsewhere are collected in a record.
\<close>

section \<open>State\<close>

record catalog_env =
  ce_engine :: regex_engine
  ce_fingerprint :: "ty \<Rightarrow> string"
  ce_synopses :: synopsis_env

type_synonym synopsis_map = "(uuid \<times> partition_synopsis) list"

record catalog_state =
  cat_synopses :: "(ty \<times> synopsis_map) list"
  cat_unprunable :: "string list"
  cat_concepts :: concepts_map

definition catalog_new :: "concepts_map \<Rightarrow> catalog_state" where
  "catalog_new concepts = \<lparr>cat_synopses = [], cat_unprunable = [], cat_concepts = concepts\<rparr>"

type_synonym info = "ty partition_info"

definition info_of :: "uuid \<times> partition_synopsis \<Rightarrow> info" where
  "info_of p = \<lparr>pi_uuid = fst p, pi_events = ps_events (snd p), pi_max_import_time = ps_max_import_time (snd p),
    pi_schema = ps_schema (snd p), pi_version = ps_version (snd p)\<rparr>"

section \<open>Adding and removing partitions\<close>

definition update_unprunable_fields :: "partition_synopsis \<Rightarrow> catalog_state \<Rightarrow> catalog_state" where
  "update_unprunable_fields ps st =
    st\<lparr>cat_unprunable := fold (\<lambda>(f, syn) names.
        if syn = None \<or> resolve_transparent (qf_type f) \<noteq> String_type then names else List.insert (qf_name f) names)
      (ps_field_synopses ps) (cat_unprunable st)\<rparr>"

definition synopses_of :: "catalog_state \<Rightarrow> ty \<Rightarrow> synopsis_map" where
  "synopses_of st schema = (case map_of (cat_synopses st) schema of Some m \<Rightarrow> m | None \<Rightarrow> [])"

definition merge_one :: "uuid \<times> partition_synopsis \<Rightarrow> catalog_state \<Rightarrow> catalog_state" where
  "merge_one p st =
    (let st = update_unprunable_fields (snd p) st; schema = ps_schema (snd p)
     in st\<lparr>cat_synopses := AList.update schema
          (vm_assign (flat_map_policy (<)) (snd p) (synopses_of st schema) (fst p) (snd p)) (cat_synopses st)\<rparr>)"

definition cat_merge :: "(uuid \<times> partition_synopsis) list \<Rightarrow> catalog_state \<Rightarrow> catalog_state" where
  "cat_merge ps st = fold merge_one ps st"

fun erase_in :: "uuid \<Rightarrow> (ty \<times> synopsis_map) list \<Rightarrow> (ty \<times> synopsis_map) list" where
  "erase_in u [] = []"
| "erase_in u ((t, m) # rest) =
    (let (m', n) = vm_erase (flat_map_policy (<)) m u
     in if n > 0 then (if m' = [] then rest else (t, m') # rest) else (t, m') # erase_in u rest)"

definition cat_erase :: "uuid \<Rightarrow> catalog_state \<Rightarrow> catalog_state" where
  "cat_erase u st = st\<lparr>cat_synopses := erase_in u (cat_synopses st)\<rparr>"

text \<open>The handler that replaces partitions.\<close>

definition cat_replace :: "uuid list \<Rightarrow> (uuid \<times> partition_synopsis) list \<Rightarrow> catalog_state \<Rightarrow> catalog_state" where
  "cat_replace old new st = cat_merge new (fold cat_erase old st)"

text \<open>The initial load. \<open>end_of_life\<close> says which partition versions are not supported any more; the synopses
  have distinct ids, so sorting them is unambiguous. The error names the unsupported partitions. The synopses are
  shared pointers whose reference counts are asserted to be one; the counts are an argument.\<close>

definition group_by_schema :: "(uuid \<times> partition_synopsis) list \<Rightarrow> (ty \<times> synopsis_map) list" where
  "group_by_schema ps = fold (\<lambda>p m. AList.update (ps_schema (snd p))
      ((case map_of m (ps_schema (snd p)) of Some xs \<Rightarrow> xs | None \<Rightarrow> []) @ [p]) m) ps []"

definition cat_initialize ::
  "(nat \<Rightarrow> bool) \<Rightarrow> (uuid \<Rightarrow> nat) \<Rightarrow> (uuid \<times> partition_synopsis) list \<Rightarrow> catalog_state
    \<Rightarrow> (uuid list + catalog_state) option" where
  "cat_initialize end_of_life references ps st =
    (let unsupported = map fst (filter (\<lambda>p. end_of_life (ps_version (snd p))) ps)
     in if unsupported \<noteq> [] then Some (Inl unsupported)
        else do {
          require (list_all (\<lambda>p. references (fst p) = 1) ps);
          let st = fold (\<lambda>p. update_unprunable_fields (snd p)) ps st;
          Some (Inr (st\<lparr>cat_synopses := fold (\<lambda>(t, xs). AList.update t (sort_key fst xs)) (group_by_schema ps)
               (cat_synopses st)\<rparr>))
        })"

section \<open>Matching fields\<close>

text \<open>A field is named by a suffix of its key, or by its whole key after a suffix of the schema name.\<close>

definition match_name :: "string \<Rightarrow> string \<Rightarrow> string \<Rightarrow> bool" where
  "match_name schema_name field_name key =
    (if length field_name \<ge> length key then suffix_matches key field_name
     else if length key > length schema_name + 1 + length field_name then False
     else let pos = length key - length field_name
       in if drop pos key \<noteq> field_name then False
          else if key ! (pos - 1) \<noteq> CHR ''.'' then False
          else let fpos = length schema_name - (pos - 1)
            in take (pos - 1) key = drop fpos schema_name \<and> (fpos = 0 \<or> schema_name ! (fpos - 1) = CHR ''.''))"

definition match_field :: "string \<Rightarrow> relational_operator \<Rightarrow> data \<Rightarrow> qualified_field \<Rightarrow> bool option" where
  "match_field key op d field =
    (if \<not> match_name (qf_schema_name field) (qf_field_name field) key then Some False
     else if is_standalone_type field then None
     else Some (compatible (qf_type field) op d))"

definition match_type :: "ty \<Rightarrow> relational_operator \<Rightarrow> data \<Rightarrow> qualified_field \<Rightarrow> bool option" where
  "match_type t op d field = Some (type_matches t op d (qf_type field))"

section \<open>Lookup\<close>

text \<open>Whether a matching field keeps the partition: its synopsis decides, else the one of its type.\<close>

definition may_match :: "synopsis_env \<Rightarrow> any_synopsis \<Rightarrow> relational_operator \<Rightarrow> data \<Rightarrow> bool option" where
  "may_match env s op rhs = map_option (\<lambda>r. r \<noteq> Some False) (syn_lookup env s op rhs)"

definition keeps_partition ::
  "synopsis_env \<Rightarrow> partition_synopsis \<Rightarrow> qualified_field \<Rightarrow> any_synopsis option \<Rightarrow> relational_operator \<Rightarrow> data \<Rightarrow> bool option" where
  "keeps_partition env ps field syn op rhs =
    (case syn of
       Some s \<Rightarrow> may_match env s op rhs
     | None \<Rightarrow>
         (case map_of (ps_type_synopses ps) (resolve_transparent (qf_type field)) of
            Some (Some s) \<Rightarrow> may_match env s op rhs
          | _ \<Rightarrow> Some True))"

fun search_fields ::
  "synopsis_env \<Rightarrow> partition_synopsis \<Rightarrow> (qualified_field \<Rightarrow> bool option) \<Rightarrow> relational_operator \<Rightarrow> data
    \<Rightarrow> (qualified_field \<times> any_synopsis option) list \<Rightarrow> bool option" where
  "search_fields env ps matches op rhs [] = Some False"
| "search_fields env ps matches op rhs ((field, syn) # rest) =
    (case matches field of
       None \<Rightarrow> None
     | Some False \<Rightarrow> search_fields env ps matches op rhs rest
     | Some True \<Rightarrow>
         (case keeps_partition env ps field syn op rhs of
            None \<Rightarrow> None
          | Some True \<Rightarrow> Some True
          | Some False \<Rightarrow> search_fields env ps matches op rhs rest))"

text \<open>The partitions that pass a check, in their order.\<close>

fun select_partitions :: "(uuid \<times> partition_synopsis \<Rightarrow> bool option) \<Rightarrow> synopsis_map \<Rightarrow> info list option" where
  "select_partitions check [] = Some []"
| "select_partitions check (p # ps) =
    (case check p of
       None \<Rightarrow> None
     | Some b \<Rightarrow> map_option (if b then (#) (info_of p) else id) (select_partitions check ps))"

definition search :: "synopsis_env \<Rightarrow> synopsis_map \<Rightarrow> (qualified_field \<Rightarrow> bool option) \<Rightarrow> relational_operator \<Rightarrow> data \<Rightarrow> info list option" where
  "search env m matches op rhs =
    select_partitions (\<lambda>p. search_fields env (snd p) matches op rhs (ps_field_synopses (snd p))) m"

definition all_partitions :: "synopsis_map \<Rightarrow> info list" where
  "all_partitions m = map info_of m"

definition check_import_time :: "partition_synopsis \<Rightarrow> relational_operator \<Rightarrow> data \<Rightarrow> bool option" where
  "check_import_time ps op d =
    (if ps_min_import_time ps > ps_max_import_time ps then None
     else case d of
       Time _ \<Rightarrow> Some (mm_lookup time_kind \<lparr>mm_min = ps_min_import_time ps, mm_max = ps_max_import_time ps\<rparr> op d \<noteq> Some False)
     | _ \<Rightarrow> None)"

definition is_internal :: "ty \<Rightarrow> bool" where
  "is_internal schema \<longleftrightarrow> has_type schema \<and> type_attribute schema ''internal'' \<noteq> None"

definition lookup_meta :: "catalog_env \<Rightarrow> ty \<Rightarrow> synopsis_map \<Rightarrow> meta_kind \<Rightarrow> relational_operator \<Rightarrow> data \<Rightarrow> info list option" where
  "lookup_meta env schema m kind op d =
    (case kind of
       Schema \<Rightarrow> select_partitions (\<lambda>p. Some (list_ex (\<lambda>(f, _). evaluate (ce_engine env) (Str (qf_schema_name f)) op d)
           (ps_field_synopses (snd p)))) m
     | Schema_id \<Rightarrow> Some (if evaluate (ce_engine env) (Str (ce_fingerprint env schema)) op d then all_partitions m else [])
     | Import_time \<Rightarrow> select_partitions (\<lambda>p. check_import_time (snd p) op d) m
     | Internal \<Rightarrow> select_partitions (\<lambda>p. Some (evaluate (ce_engine env) (Bool (is_internal (ps_schema (snd p)))) op d)) m)"

definition lookup_predicate :: "catalog_env \<Rightarrow> ty \<Rightarrow> synopsis_map \<Rightarrow> predicate \<Rightarrow> info list option" where
  "lookup_predicate env schema m p =
    (case (pred_lhs p, pred_rhs p) of
       (Meta_extractor kind, Data d) \<Rightarrow> lookup_meta env schema m kind (pred_op p) d
     | (Field_extractor key, Data d) \<Rightarrow> search (ce_synopses env) m (match_field key (pred_op p) d) (pred_op p) d
     | (Type_extractor t, Data d) \<Rightarrow> search (ce_synopses env) m (match_type t (pred_op p) d) (pred_op p) d
     | _ \<Rightarrow> Some (all_partitions m))"

fun lookup_infos :: "catalog_env \<Rightarrow> ty \<Rightarrow> synopsis_map \<Rightarrow> expression \<Rightarrow> info list option"
  and lookup_rest :: "catalog_env \<Rightarrow> ty \<Rightarrow> synopsis_map \<Rightarrow> info list \<Rightarrow> expression list \<Rightarrow> info list option"
  and lookup_any :: "catalog_env \<Rightarrow> ty \<Rightarrow> synopsis_map \<Rightarrow> info list \<Rightarrow> expression list \<Rightarrow> info list option"
where
  "lookup_infos env schema m None_expr = None"
| "lookup_infos env schema m (Conjunction xs) =
    (case xs of
       [] \<Rightarrow> None
     | x # rest \<Rightarrow>
         (case lookup_infos env schema m x of
            None \<Rightarrow> None
          | Some result \<Rightarrow> if result = [] then Some result else lookup_rest env schema m result rest))"
| "lookup_infos env schema m (Disjunction xs) = lookup_any env schema m [] xs"
| "lookup_infos env schema m (Negation x) = Some (all_partitions m)"
| "lookup_infos env schema m (Predicate p) = lookup_predicate env schema m p"
| "lookup_rest env schema m result [] = Some result"
| "lookup_rest env schema m result (x # xs) =
    (case lookup_infos env schema m x of
       None \<Rightarrow> None
     | Some ys \<Rightarrow> if ys = [] then Some ys else lookup_rest env schema m (inplace_intersect pi_uuid result ys) xs)"
| "lookup_any env schema m result [] = Some result"
| "lookup_any env schema m result (x # xs) =
    (case lookup_infos env schema m x of
       None \<Rightarrow> None
     | Some ys \<Rightarrow> if length ys = length m then Some ys else lookup_any env schema m (inplace_unify pi_uuid result ys) xs)"

definition lookup_impl :: "catalog_env \<Rightarrow> catalog_state \<Rightarrow> expression \<Rightarrow> ty \<Rightarrow> (ty, expression) candidate_info option" where
  "lookup_impl env st e schema =
    (case map_of (cat_synopses st) schema of
       None \<Rightarrow> None
     | Some m \<Rightarrow> map_option (\<lambda>infos. \<lparr>ci_exp = e, ci_infos = infos\<rparr>) (lookup_infos env schema m e))"

definition trivially_true :: expression where
  "trivially_true = Predicate \<lparr>pred_lhs = Meta_extractor Schema, pred_op = Not_equal,
    pred_rhs = Data (Str ''this expression matches everything'')\<rparr>"

text \<open>The partitions of a schema are sorted such that the one with the latest import comes first; \<open>srt\<close> stands
  for \<open>std::sort\<close>, which may put equivalent elements in any order.\<close>

definition sorts_infos :: "(info list \<Rightarrow> info list) \<Rightarrow> bool" where
  "sorts_infos srt \<longleftrightarrow>
    (\<forall>xs. mset (srt xs) = mset xs \<and> sorted_wrt (\<lambda>x y. pi_max_import_time x \<ge> pi_max_import_time y) (srt xs))"

definition lookup_schema :: "catalog_env \<Rightarrow> (info list \<Rightarrow> info list) \<Rightarrow> catalog_state \<Rightarrow> expression \<Rightarrow> ty
    \<Rightarrow> (ty, expression) candidate_info option" where
  "lookup_schema env srt st normalized t =
    (case resolve_taxonomies (cat_concepts st) normalized t of
       None \<Rightarrow> None
     | Some resolved \<Rightarrow>
         (case prune resolved (\<lambda>name. name \<in> set (cat_unprunable st)) of
            None \<Rightarrow> None
          | Some pruned \<Rightarrow> map_option (\<lambda>c. c\<lparr>ci_infos := srt (ci_infos c)\<rparr>) (lookup_impl env st pruned t)))"

fun lookup_schemas :: "catalog_env \<Rightarrow> (info list \<Rightarrow> info list) \<Rightarrow> catalog_state \<Rightarrow> expression \<Rightarrow> ty list
    \<Rightarrow> (ty, expression) catalog_lookup_result option" where
  "lookup_schemas env srt st normalized [] = Some []"
| "lookup_schemas env srt st normalized (t # ts) =
    (case (lookup_schema env srt st normalized t, lookup_schemas env srt st normalized ts) of
       (Some c, Some r) \<Rightarrow> Some ((t, c) # r)
     | _ \<Rightarrow> None)"

text \<open>None stands for a failed assertion, and for a pruner that does not return.\<close>

definition cat_lookup :: "catalog_env \<Rightarrow> (info list \<Rightarrow> info list) \<Rightarrow> catalog_state \<Rightarrow> expression
    \<Rightarrow> (caf_error + (ty, expression) catalog_lookup_result) option" where
  "cat_lookup env srt st e =
    (case normalize_and_validate (if e = None_expr then trivially_true else e) of
       Inl err \<Rightarrow> Some (Inl (Invalid_argument ''failed to normalize and validate expression''))
     | Inr normalized \<Rightarrow> map_option Inr (lookup_schemas env srt st normalized (map fst (cat_synopses st))))"

section \<open>The other handlers\<close>

definition cat_all :: "catalog_state \<Rightarrow> (uuid \<times> partition_synopsis) list" where
  "cat_all st = concat (map snd (cat_synopses st))"

definition cat_filter :: "catalog_state \<Rightarrow> (ty, expression) catalog_lookup_result \<Rightarrow> (uuid \<times> partition_synopsis) list" where
  "cat_filter st r = concat (map (\<lambda>(t, c). concat (map (\<lambda>i.
      case map_of (synopses_of st t) (pi_uuid i) of Some ps \<Rightarrow> [(pi_uuid i, ps)] | None \<Rightarrow> []) (ci_infos c))) r)"

definition cat_get_filter :: "catalog_env \<Rightarrow> (info list \<Rightarrow> info list) \<Rightarrow> catalog_state \<Rightarrow> expression
    \<Rightarrow> (caf_error + (uuid \<times> partition_synopsis) list) option" where
  "cat_get_filter env srt st e =
    (case cat_lookup env srt st e of
       None \<Rightarrow> None
     | Some (Inl err) \<Rightarrow> Some (Inl err)
     | Some (Inr r) \<Rightarrow> Some (Inr (cat_filter st r)))"

fun cat_get :: "uuid \<Rightarrow> (ty \<times> synopsis_map) list \<Rightarrow> info option" where
  "cat_get u [] = None"
| "cat_get u ((t, m) # rest) =
    (case map_of m u of Some ps \<Rightarrow> Some (info_of (u, ps)) | None \<Rightarrow> cat_get u rest)"

section \<open>The state is well formed\<close>

text \<open>Every schema has partitions, in ascending order of their ids, and all of them have this schema; the
  string fields with a synopsis are protected from pruning.\<close>

definition map_ok :: "ty \<Rightarrow> synopsis_map \<Rightarrow> bool" where
  "map_ok schema m \<longleftrightarrow> m \<noteq> [] \<and> flat_ok fst m \<and> (\<forall>p \<in> set m. ps_schema (snd p) = schema)"

definition protected :: "catalog_state \<Rightarrow> partition_synopsis \<Rightarrow> bool" where
  "protected st ps \<longleftrightarrow> (\<forall>f s. (f, Some s) \<in> set (ps_field_synopses ps) \<longrightarrow>
    resolve_transparent (qf_type f) = String_type \<longrightarrow> qf_name f \<in> set (cat_unprunable st))"

definition cat_ok :: "catalog_state \<Rightarrow> bool" where
  "cat_ok st \<longleftrightarrow> distinct (map fst (cat_synopses st)) \<and>
    (\<forall>(t, m) \<in> set (cat_synopses st). map_ok t m \<and> (\<forall>p \<in> set m. protected st (snd p)))"

text \<open>The contents of the catalog: the synopsis of a partition under a schema.\<close>

definition cat_contents :: "catalog_state \<Rightarrow> ty \<Rightarrow> uuid \<Rightarrow> partition_synopsis option" where
  "cat_contents st t u = map_of (synopses_of st t) u"

lemma update_unprunable_synopses [simp]: "cat_synopses (update_unprunable_fields ps st) = cat_synopses st"
  "cat_concepts (update_unprunable_fields ps st) = cat_concepts st"
  by (simp_all add: update_unprunable_fields_def)

lemma unprunable_fold:
  "set (fold (\<lambda>(f, syn) names. if syn = None \<or> resolve_transparent (qf_type f) \<noteq> String_type
      then names else List.insert (qf_name f) names) es names)
    = set names \<union> {qf_name f |f s. (f, Some s) \<in> set es \<and> resolve_transparent (qf_type f) = String_type}"
proof (induction es arbitrary: names)
  case (Cons e es)
  obtain f syn where e: "e = (f, syn)" by (cases e)
  show ?case by (cases syn; cases "resolve_transparent (qf_type f) = String_type") (auto simp: e Cons.IH)
qed simp

lemma update_unprunable_set:
  "set (cat_unprunable (update_unprunable_fields ps st)) = set (cat_unprunable st)
    \<union> {qf_name f |f s. (f, Some s) \<in> set (ps_field_synopses ps) \<and> resolve_transparent (qf_type f) = String_type}"
  by (simp add: update_unprunable_fields_def unprunable_fold)

lemma protected_mono: "protected st ps \<Longrightarrow> set (cat_unprunable st) \<subseteq> set (cat_unprunable st') \<Longrightarrow> protected st' ps"
  by (fastforce simp: protected_def)

lemma update_unprunable_protects: "protected (update_unprunable_fields ps st) ps"
  by (auto simp: protected_def update_unprunable_set)

lemma map_of_ok: "cat_ok st \<Longrightarrow> map_of (cat_synopses st) t = Some m \<Longrightarrow> map_ok t m"
  by (auto simp: cat_ok_def dest: map_of_SomeD)

lemma synopses_of_flat: "cat_ok st \<Longrightarrow> flat_ok fst (synopses_of st t)"
  using map_of_ok [of st t] by (auto simp: synopses_of_def map_ok_def flat_ok_def split: option.split)

lemma set_assign:
  assumes "flat_ok fst m"
  shows "set (vm_assign (flat_map_policy (<)) d m k v) \<subseteq> insert (k, v) (set m)"
proof -
  have ok: "flat_ok fst (vm_assign (flat_map_policy (<)) d m k v)"
    and map: "map_of (vm_assign (flat_map_policy (<)) d m k v) = (map_of m)(k \<mapsto> v)"
    using flat_map.assign_spec [OF assms] by auto
  have distinct: "distinct (map fst xs)" if "flat_ok fst xs" for xs :: "('a \<times> 'b) list"
    using flat_map.ok_distinct [OF that] by simp
  show ?thesis
  proof
    fix x
    assume "x \<in> set (vm_assign (flat_map_policy (<)) d m k v)"
    then have "((map_of m)(k \<mapsto> v)) (fst x) = Some (snd x)"
      using distinct [OF ok] map by (metis map_of_eq_Some_iff prod.collapse)
    then show "x \<in> insert (k, v) (set m)" by (cases x) (auto split: if_splits dest: map_of_SomeD)
  qed
qed

lemma set_update_subset: "set (AList.update k v xs) \<subseteq> insert (k, v) (set xs)"
  by (induction xs) auto

lemma merge_one_contents:
  assumes "cat_ok st"
  shows "cat_contents (merge_one p st) t u =
    (if t = ps_schema (snd p) \<and> u = fst p then Some (snd p) else cat_contents st t u)"
  using flat_map.assign_spec [OF synopses_of_flat [OF assms]]
  by (simp add: cat_contents_def synopses_of_def merge_one_def Let_def update_conv')

lemma merge_one_ok:
  assumes "cat_ok st"
  shows "cat_ok (merge_one p st)"
proof -
  let ?t = "ps_schema (snd p)"
  let ?st = "update_unprunable_fields (snd p) st"
  let ?m = "vm_assign (flat_map_policy (<)) (snd p) (synopses_of st ?t) (fst p) (snd p)"
  have flat: "flat_ok fst ?m" "map_of ?m = (map_of (synopses_of st ?t))(fst p \<mapsto> snd p)"
    using flat_map.assign_spec [OF synopses_of_flat [OF assms]] by auto
  have sub: "set ?m \<subseteq> insert (fst p, snd p) (set (synopses_of st ?t))"
    by (rule set_assign [OF synopses_of_flat [OF assms]])
  have old: "map_ok t m \<and> (\<forall>q \<in> set m. protected ?st (snd q))" if "(t, m) \<in> set (cat_synopses st)" for t m
  proof -
    have "map_ok t m" "\<forall>q \<in> set m. protected st (snd q)" using assms that by (auto simp: cat_ok_def)
    moreover have "set (cat_unprunable st) \<subseteq> set (cat_unprunable ?st)" by (simp add: update_unprunable_set)
    ultimately show ?thesis using protected_mono by blast
  qed
  have entries: "(?t, synopses_of st ?t) \<in> set (cat_synopses st) \<or> synopses_of st ?t = []"
    by (auto simp: synopses_of_def split: option.split dest: map_of_SomeD)
  have "\<forall>q \<in> set (synopses_of st ?t). ps_schema (snd q) = ?t \<and> protected ?st (snd q)"
    using entries old by (auto simp: map_ok_def)
  then have "\<forall>q \<in> set ?m. ps_schema (snd q) = ?t \<and> protected ?st (snd q)"
    using sub update_unprunable_protects [of "snd p" st] by auto
  moreover have "map_of ?m (fst p) = Some (snd p)" using flat(2) by simp
  then have "?m \<noteq> []" by (metis map_of.simps(1) option.distinct(1))
  ultimately have new: "map_ok ?t ?m \<and> (\<forall>q \<in> set ?m. protected ?st (snd q))" using flat(1) by (simp add: map_ok_def)
  have prot: "protected (merge_one p st) = protected ?st" by (simp add: protected_def merge_one_def Let_def fun_eq_iff)
  have syn: "cat_synopses (merge_one p st) = AList.update ?t ?m (cat_synopses st)"
    by (simp add: merge_one_def Let_def synopses_of_def)
  have "set (AList.update ?t ?m (cat_synopses st)) \<subseteq> insert (?t, ?m) (set (cat_synopses st))"
    by (rule set_update_subset)
  then show ?thesis
    using old new assms unfolding cat_ok_def syn prot by (auto simp: distinct_update)
qed

text \<open>Merging partitions keeps the state well formed, and the last synopsis for an id counts.\<close>

lemma cat_merge_ok: "cat_ok st \<Longrightarrow> cat_ok (cat_merge ps st)"
  by (induction ps arbitrary: st) (auto simp: cat_merge_def merge_one_ok)

lemma cat_merge_contents:
  "cat_ok st \<Longrightarrow> distinct (map fst ps) \<Longrightarrow>
    cat_contents (cat_merge ps st) t u =
      (case map_of ps u of Some s \<Rightarrow> if ps_schema s = t then Some s else cat_contents st t u | None \<Rightarrow> cat_contents st t u)"
proof (induction ps arbitrary: st)
  case (Cons p ps)
  have "cat_contents (cat_merge (p # ps) st) t u = cat_contents (cat_merge ps (merge_one p st)) t u"
    by (simp add: cat_merge_def)
  also have "\<dots> = (case map_of ps u of Some s \<Rightarrow> if ps_schema s = t then Some s else cat_contents (merge_one p st) t u
      | None \<Rightarrow> cat_contents (merge_one p st) t u)"
    using Cons merge_one_ok by simp
  also have "\<dots> = (case map_of (p # ps) u of Some s \<Rightarrow> if ps_schema s = t then Some s else cat_contents st t u
      | None \<Rightarrow> cat_contents st t u)"
  proof (cases "u = fst p")
    case True
    then have "map_of ps u = None" using Cons.prems(2) by (simp add: map_of_eq_None_iff)
    then show ?thesis using True Cons.prems(1) by (cases p) (auto simp: merge_one_contents)
  next
    case False
    then have "cat_contents (merge_one p st) t u = cat_contents st t u" using Cons.prems(1) by (simp add: merge_one_contents)
    then show ?thesis using False by (cases p) (auto split: option.split)
  qed
  finally show ?case .
qed (simp add: cat_merge_def)

text \<open>Erasing a partition removes it from the first schema that has it, and drops a schema that has no
  other partition.\<close>

lemma vm_erase_cases:
  fixes m :: "('k::linorder \<times> 'v) list"
  assumes "flat_ok fst m"
  shows "map_of m u = None \<Longrightarrow> vm_erase (flat_map_policy (<)) m u = (m, 0)"
    and "map_of m u \<noteq> None \<Longrightarrow> \<exists>m'. vm_erase (flat_map_policy (<)) m u = (m', 1) \<and> flat_ok fst m' \<and> set m' \<subseteq> set m
      \<and> map_of m' = (map_of m)(u := None)"
proof -
  have contains: "vm_contains (flat_map_policy (<)) m u \<longleftrightarrow> map_of m u \<noteq> None" by (rule flat_map.contains_spec [OF assms])
  show "vm_erase (flat_map_policy (<)) m u = (m, 0)" if "map_of m u = None"
    using that contains by (simp add: vm_erase_def vm_contains_def)
  assume "map_of m u \<noteq> None"
  then have it: "vm_find (flat_map_policy (<)) m u \<noteq> length m" using contains by (simp add: vm_contains_def)
  obtain m' where m': "vm_erase (flat_map_policy (<)) m u = (m', vm_count (flat_map_policy (<)) m u)" "flat_ok fst m'"
    "map_of m' = (map_of m)(u := None)"
    using flat_map.erase_spec [OF assms, of u] by blast
  have "m' = vec_erase m (vm_find (flat_map_policy (<)) m u)" using m'(1) it by (simp add: vm_erase_def)
  then have "set m' \<subseteq> set m" using set_take_subset set_drop_subset by (fastforce simp: vec_erase_def)
  then show "\<exists>m'. vm_erase (flat_map_policy (<)) m u = (m', 1) \<and> flat_ok fst m' \<and> set m' \<subseteq> set m
      \<and> map_of m' = (map_of m)(u := None)"
    using m' it by (auto simp: vm_count_def vm_contains_def)
qed

lemma erase_in_cases:
  assumes "\<forall>(t, m) \<in> set ms. flat_ok fst m"
  shows "(\<forall>(t, m) \<in> set ms. map_of m u = None) \<and> erase_in u ms = ms \<or>
    (\<exists>as t m bs m'. ms = as @ (t, m) # bs \<and> (\<forall>(t, m) \<in> set as. map_of m u = None) \<and> map_of m u \<noteq> None
      \<and> flat_ok fst m' \<and> set m' \<subseteq> set m \<and> map_of m' = (map_of m)(u := None)
      \<and> erase_in u ms = as @ (if m' = [] then [] else [(t, m')]) @ bs)"
  using assms
proof (induction ms)
  case (Cons e ms)
  obtain t m where e: "e = (t, m)" by (cases e)
  have flat: "flat_ok fst m" using Cons.prems e by simp
  show ?case
  proof (cases "map_of m u = None")
    case True
    then have step: "erase_in u (e # ms) = e # erase_in u ms" using vm_erase_cases(1) [OF flat] e by simp
    have "\<forall>(t, m) \<in> set ms. flat_ok fst m" using Cons.prems by simp
    from Cons.IH [OF this] show ?thesis
    proof (elim disjE exE conjE)
      fix as t' m' bs m''
      assume "ms = as @ (t', m') # bs" "\<forall>(t, m) \<in> set as. map_of m u = None" "map_of m' u \<noteq> None" "flat_ok fst m''"
        "set m'' \<subseteq> set m'" "map_of m'' = (map_of m')(u := None)" "erase_in u ms = as @ (if m'' = [] then [] else [(t', m'')]) @ bs"
      then show ?thesis
        using step e True by (intro disjI2 exI [of _ "e # as"] exI [of _ t'] exI [of _ m'] exI [of _ bs] exI [of _ m'']) simp
    qed (use step e True in simp)
  next
    case False
    then obtain m' where "vm_erase (flat_map_policy (<)) m u = (m', 1)" "flat_ok fst m'" "set m' \<subseteq> set m"
      "map_of m' = (map_of m)(u := None)"
      using vm_erase_cases(2) [OF flat] by blast
    then show ?thesis
      using e False by (intro disjI2 exI [of _ "[]"] exI [of _ t] exI [of _ m] exI [of _ ms] exI [of _ m']) simp
  qed
qed simp

definition unique_ids :: "catalog_state \<Rightarrow> bool" where
  "unique_ids st \<longleftrightarrow> (\<forall>t t' u. cat_contents st t u \<noteq> None \<longrightarrow> cat_contents st t' u \<noteq> None \<longrightarrow> t = t')"

lemma cat_contents_entry:
  "cat_ok st \<Longrightarrow> (t, m) \<in> set (cat_synopses st) \<Longrightarrow> cat_contents st t u = map_of m u"
  by (simp add: cat_ok_def cat_contents_def synopses_of_def)

lemma cat_erase_spec:
  assumes ok: "cat_ok st" and unique: "unique_ids st"
  shows "cat_ok (cat_erase u st) \<and> cat_contents (cat_erase u st) t v = (if v = u then None else cat_contents st t v)"
proof -
  have entries: "\<forall>(t, m) \<in> set (cat_synopses st). map_ok t m \<and> (\<forall>p \<in> set m. protected st (snd p))"
    and dist: "distinct (map fst (cat_synopses st))" using ok by (auto simp: cat_ok_def)
  have flat: "\<forall>(t, m) \<in> set (cat_synopses st). flat_ok fst m" using entries by (auto simp: map_ok_def)
  have prot: "protected (cat_erase u st) = protected st" by (simp add: protected_def cat_erase_def fun_eq_iff)
  have other: "cat_contents st t u = None" if "\<forall>(t, m) \<in> set (cat_synopses st). t = t' \<longrightarrow> map_of m u = None" "t = t'" for t t'
    using that by (auto simp: cat_contents_def synopses_of_def split: option.split dest: map_of_SomeD)
  from erase_in_cases [OF flat, of u] show ?thesis
  proof (elim disjE exE conjE)
    assume none: "\<forall>(t, m) \<in> set (cat_synopses st). map_of m u = None" and "erase_in u (cat_synopses st) = cat_synopses st"
    then have "cat_erase u st = st" by (simp add: cat_erase_def)
    then show ?thesis using ok other [of t t] none by auto
  next
    fix as t0 m bs m'
    assume split: "cat_synopses st = as @ (t0, m) # bs" and m: "map_of m u \<noteq> None"
      and m': "flat_ok fst m'" "set m' \<subseteq> set m" "map_of m' = (map_of m)(u := None)"
      and erase: "erase_in u (cat_synopses st) = as @ (if m' = [] then [] else [(t0, m')]) @ bs"
    have syn: "cat_synopses (cat_erase u st) = as @ (if m' = [] then [] else [(t0, m')]) @ bs"
      using erase by (simp add: cat_erase_def)
    have t0: "t0 \<notin> fst ` set as" "t0 \<notin> fst ` set bs" using dist split by auto
    have "cat_contents st t0 u \<noteq> None" using cat_contents_entry [OF ok, of t0 m u] split m by simp
    then have no: "t \<noteq> t0 \<Longrightarrow> cat_contents st t u = None" using unique unfolding unique_ids_def by metis
    have new: "map_ok t0 m' \<and> (\<forall>p \<in> set m'. protected st (snd p))" if "m' \<noteq> []"
      using entries split m' that by (auto simp: map_ok_def)
    have "cat_ok (cat_erase u st)"
      using new entries dist t0 split unfolding cat_ok_def prot syn by auto
    moreover have "cat_contents (cat_erase u st) t v = (if v = u then None else cat_contents st t v)"
    proof (cases "t = t0")
      case True
      have none: "map_of as t0 = None" "map_of bs t0 = None" using t0 by (simp_all add: map_of_eq_None_iff)
      have "map_of m' v = (if v = u then None else map_of m v)" using m'(3) by simp
      then show ?thesis
        using True none split by (auto simp: cat_contents_def synopses_of_def syn map_add_def)
    next
      case False
      then have "map_of (cat_synopses (cat_erase u st)) t = map_of (cat_synopses st) t"
        by (auto simp: syn split map_add_def split: option.split)
      then have "cat_contents (cat_erase u st) t v = cat_contents st t v"
        by (simp add: cat_contents_def synopses_of_def)
      then show ?thesis using no False by simp
    qed
    ultimately show ?thesis ..
  qed
qed

text \<open>The initial load of an empty catalog has the same contents as merging the partitions.\<close>

lemma group_by_schema_spec:
  "map_of (group_by_schema ps) t =
    (let xs = filter (\<lambda>p. ps_schema (snd p) = t) ps in if xs = [] then None else Some xs)
    \<and> distinct (map fst (group_by_schema ps))"
proof (induction ps arbitrary: t rule: rev_induct)
  case (snoc p ps)
  have step: "group_by_schema (ps @ [p]) = AList.update (ps_schema (snd p))
      ((case map_of (group_by_schema ps) (ps_schema (snd p)) of Some xs \<Rightarrow> xs | None \<Rightarrow> []) @ [p]) (group_by_schema ps)"
    by (simp add: group_by_schema_def)
  show ?case
    unfolding step using snoc.IH [of t] snoc.IH [of "ps_schema (snd p)"]
    by (auto simp: update_conv' distinct_update Let_def filter_empty_conv)
qed (simp add: group_by_schema_def)

lemma sorted_synopses:
  fixes xs :: "('k::linorder \<times> 'v) list"
  assumes "distinct (map fst xs)"
  shows "flat_ok fst (sort_key fst xs)" and "map_of (sort_key fst xs) = map_of xs"
proof -
  have d: "distinct (map fst (sort_key fst xs))"
    using assms by (simp add: distinct_map)
  then show "flat_ok fst (sort_key fst xs)" by (simp add: flat_ok_def strict_sorted_iff)
  show "map_of (sort_key fst xs) = map_of xs" using map_of_inject_set [OF d assms] by simp
qed

lemma fold_update_sorted:
  "distinct (map fst gs) \<Longrightarrow>
    map_of (fold (\<lambda>(t, xs). AList.update t (f xs)) gs m) = map_of m ++ (\<lambda>t. map_option f (map_of gs t))"
proof (induction gs arbitrary: m)
  case (Cons g gs)
  obtain t xs where g: "g = (t, xs)" by (cases g)
  have "map_of gs t = None" using Cons.prems g by (simp add: map_of_eq_None_iff)
  then show ?case using Cons g by (auto simp: update_conv' map_add_def fun_eq_iff split: option.split)
qed (simp add: map_add_def)

lemma fold_update_distinct: "distinct (map fst m) \<Longrightarrow> distinct (map fst (fold (\<lambda>(t, xs). AList.update t (f xs)) gs m))"
  by (induction gs arbitrary: m) (auto simp: distinct_update)

lemma fold_unprunable:
  "cat_synopses (fold (\<lambda>p. update_unprunable_fields (snd p)) ps st) = cat_synopses st"
  "set (cat_unprunable st) \<subseteq> set (cat_unprunable (fold (\<lambda>p. update_unprunable_fields (snd p)) ps st))"
  "p \<in> set ps \<Longrightarrow> protected (fold (\<lambda>p. update_unprunable_fields (snd p)) ps st) (snd p)"
proof -
  show mono: "set (cat_unprunable st) \<subseteq> set (cat_unprunable (fold (\<lambda>p. update_unprunable_fields (snd p)) ps st))" for ps st
  proof (induction ps arbitrary: st)
    case (Cons p ps)
    have "set (cat_unprunable st) \<subseteq> set (cat_unprunable (update_unprunable_fields (snd p) st))"
      by (simp add: update_unprunable_set)
    then show ?case using Cons.IH [of "update_unprunable_fields (snd p) st"] by simp
  qed simp
  show "cat_synopses (fold (\<lambda>p. update_unprunable_fields (snd p)) ps st) = cat_synopses st"
    by (induction ps arbitrary: st) simp_all
  show "p \<in> set ps \<Longrightarrow> protected (fold (\<lambda>p. update_unprunable_fields (snd p)) ps st) (snd p)"
  proof (induction ps arbitrary: st)
    case (Cons q ps)
    then show ?case using protected_mono [OF update_unprunable_protects mono] by auto
  qed simp
qed

lemma cat_initialize_spec:
  assumes "cat_synopses st = []" and "distinct (map fst ps)"
  shows "case cat_initialize end_of_life references ps st of
      None \<Rightarrow> \<not> list_all (\<lambda>p. references (fst p) = 1) ps
    | Some (Inl us) \<Rightarrow> us \<noteq> [] \<and> us = map fst (filter (\<lambda>p. end_of_life (ps_version (snd p))) ps)
    | Some (Inr st') \<Rightarrow> (\<forall>p \<in> set ps. \<not> end_of_life (ps_version (snd p))) \<and> cat_ok st' \<and>
        (\<forall>t u. cat_contents st' t u = cat_contents (cat_merge ps st) t u)"
proof (cases "(\<exists>p \<in> set ps. end_of_life (ps_version (snd p))) \<or> \<not> list_all (\<lambda>p. references (fst p) = 1) ps")
  case True
  then show ?thesis by (auto simp: cat_initialize_def Let_def filter_empty_conv require_def)
next
  case False
  let ?u = "fold (\<lambda>p. update_unprunable_fields (snd p)) ps st"
  let ?syn = "fold (\<lambda>(t, xs). AList.update t (sort_key fst xs)) (group_by_schema ps) []"
  let ?st = "?u\<lparr>cat_synopses := ?syn\<rparr>"
  have init: "cat_initialize end_of_life references ps st = Some (Inr ?st)"
    using False assms(1) by (simp add: cat_initialize_def Let_def fold_unprunable)
  have groups: "distinct (map fst (group_by_schema ps))" using group_by_schema_spec by blast
  have at: "map_of ?syn t = (let xs = filter (\<lambda>p. ps_schema (snd p) = t) ps in if xs = [] then None else Some (sort_key fst xs))" for t
    using fold_update_sorted [OF groups, of "sort_key fst" "[]"] group_by_schema_spec [of ps t]
    by (simp add: Let_def map_add_def split: option.split)
  have dist: "distinct (map fst (filter P ps))" for P using assms(2) by (simp add: distinct_map_filter)
  have "cat_ok ?st"
    unfolding cat_ok_def
  proof (intro conjI ballI)
    show "distinct (map fst (cat_synopses ?st))" using fold_update_distinct [of "[]"] by simp
    fix e
    assume e: "e \<in> set (cat_synopses ?st)"
    obtain t m where tm: "e = (t, m)" by (cases e)
    have "distinct (map fst ?syn)" by (rule fold_update_distinct) simp
    then have "map_of ?syn t = Some m" using e tm by (simp add: map_of_eq_Some_iff)
    then have m: "m = sort_key fst (filter (\<lambda>p. ps_schema (snd p) = t) ps)" "filter (\<lambda>p. ps_schema (snd p) = t) ps \<noteq> []"
      unfolding at by (simp_all add: Let_def split: if_splits)
    moreover from this have "m \<noteq> []" by (metis set_empty set_sort)
    ultimately have "map_ok t m" using sorted_synopses(1) [OF dist] by (auto simp: map_ok_def)
    moreover have "protected ?st (snd p)" if "p \<in> set m" for p
      using fold_unprunable(3) [of p ps st] that m by (simp add: protected_def)
    ultimately show "case e of (t, m) \<Rightarrow> map_ok t m \<and> (\<forall>p \<in> set m. protected ?st (snd p))" by (simp add: tm)
  qed
  moreover have "cat_contents ?st t u = cat_contents (cat_merge ps st) t u" for t u
  proof -
    have empty: "cat_ok st" "cat_contents st t u = None" using assms(1) by (simp_all add: cat_ok_def cat_contents_def synopses_of_def)
    have "cat_contents ?st t u = map_of (filter (\<lambda>p. ps_schema (snd p) = t) ps) u"
      by (auto simp: cat_contents_def synopses_of_def at Let_def sorted_synopses(2) [OF dist])
    also have "\<dots> = (case map_of ps u of Some s \<Rightarrow> if ps_schema s = t then Some s else None | None \<Rightarrow> None)"
      using assms(2) by (induction ps) (auto simp: map_of_eq_None_iff split: option.split)
    finally show ?thesis using cat_merge_contents [OF empty(1) assms(2)] empty(2) by (simp split: option.split)
  qed
  ultimately show ?thesis using False init by simp
qed

section \<open>The result of a lookup\<close>

text \<open>Every set that a lookup assembles is ascending and consists of partitions of the schema, as the set
  operations require.\<close>

definition within :: "synopsis_map \<Rightarrow> info list \<Rightarrow> bool" where
  "within m infos \<longleftrightarrow> flat_ok pi_uuid infos \<and> set infos \<subseteq> info_of ` set m"

lemma uuid_info_of [simp]: "pi_uuid (info_of p) = fst p"
  by (simp add: info_of_def)

lemma within_filter: "flat_ok fst m \<Longrightarrow> within m (map info_of (filter P m))"
  by (auto simp: within_def flat_ok_def sorted_wrt_map intro: sorted_wrt_filter)

lemma within_all: "flat_ok fst m \<Longrightarrow> within m (all_partitions m)"
  using within_filter [of m "\<lambda>_. True"] by (simp add: all_partitions_def)

lemma within_Nil [simp]: "within m []"
  by (simp add: within_def flat_ok_def)

lemma select_partitions_filter:
  "select_partitions check m = Some infos \<Longrightarrow> infos = map info_of (filter (\<lambda>p. check p = Some True) m)
    \<and> (\<forall>p \<in> set m. check p \<noteq> None)"
  by (induction m arbitrary: infos) (auto split: option.splits if_splits)

lemma select_partitions_within: "flat_ok fst m \<Longrightarrow> select_partitions check m = Some infos \<Longrightarrow> within m infos"
  using select_partitions_filter within_filter by blast

lemma lookup_predicate_within: "flat_ok fst m \<Longrightarrow> lookup_predicate env schema m p = Some infos \<Longrightarrow> within m infos"
  using select_partitions_within within_all
  by (auto simp: lookup_predicate_def lookup_meta_def search_def split: operand.splits meta_kind.splits if_splits)

lemma lookup_within:
  "flat_ok fst m \<Longrightarrow> lookup_infos env schema m e = Some infos \<Longrightarrow> within m infos"
  "flat_ok fst m \<Longrightarrow> lookup_rest env schema m result xs = Some infos \<Longrightarrow> within m result \<Longrightarrow> within m infos"
  "flat_ok fst m \<Longrightarrow> lookup_any env schema m result xs = Some infos \<Longrightarrow> within m result \<Longrightarrow> within m infos"
proof (induction env schema m e and env schema m result xs and env schema m result xs arbitrary: infos and infos and infos
    rule: lookup_infos_lookup_rest_lookup_any.induct)
  case (2 env schema m xs)
  then show ?case by (auto split: list.splits option.splits if_splits)
next
  case (5 env schema m p)
  then show ?case using lookup_predicate_within by simp
next
  case (7 env schema m result x xs)
  obtain ys where ys: "lookup_infos env schema m x = Some ys" using "7.prems"(2) by (auto split: option.splits)
  show ?case
  proof (cases "ys = []")
    case True
    then show ?thesis using "7.prems"(2) ys by simp
  next
    case False
    have "within m (inplace_intersect pi_uuid result ys)"
      using "7.prems"(3) intersect_ok [of pi_uuid result ys] intersect_subset [of pi_uuid result ys]
      by (auto simp: within_def inplace_intersect_eq)
    then show ?thesis using "7.IH"(2) [OF ys False "7.prems"(1)] "7.prems"(2) ys False by simp
  qed
next
  case (9 env schema m result x xs)
  obtain ys where ys: "lookup_infos env schema m x = Some ys" using "9.prems"(2) by (auto split: option.splits)
  have wys: "within m ys" using "9.IH"(1) [OF "9.prems"(1) ys] .
  show ?case
  proof (cases "length ys = length m")
    case True
    then show ?thesis using "9.prems"(2) ys wys by simp
  next
    case False
    have "within m (inplace_unify pi_uuid result ys)"
      using "9.prems"(3) wys inplace_unify_ok [of pi_uuid result ys] inplace_unify_subset [of pi_uuid result ys]
      by (auto simp: within_def)
    then show ?thesis using "9.IH"(2) [OF ys False "9.prems"(1)] "9.prems"(2) ys False by simp
  qed
qed (auto simp: within_all)

lemma within_complete:
  assumes "flat_ok fst m" and "within m ys" and "length ys = length m" and "p \<in> set m"
  shows "fst p \<in> pi_uuid ` set ys"
proof -
  have "distinct (map pi_uuid ys)" "distinct (map fst m)" using assms(1,2) by (auto simp: within_def flat_ok_def strict_sorted_iff)
  then have "card (pi_uuid ` set ys) = length ys" "card (fst ` set m) = length m"
    by (metis distinct_card length_map set_map)+
  moreover have "pi_uuid ` set ys \<subseteq> fst ` set m" using assms(2) by (force simp: within_def)
  ultimately have "pi_uuid ` set ys = fst ` set m" using assms(3) by (intro card_subset_eq) auto
  then show ?thesis using assms(4) by blast
qed

section \<open>A lookup has no false negatives\<close>

text \<open>An event of a partition: the values of its fields that are not null, its schema and import time.\<close>

record event =
  ev_values :: "(qualified_field \<times> data) set"
  ev_schema :: ty
  ev_import_time :: int

text \<open>A key names a field if it is the end of the name of the field, from a dot on, or the whole name after
  such an end of the name of the schema.\<close>

definition names_field :: "string \<Rightarrow> string \<Rightarrow> string \<Rightarrow> bool" where
  "names_field key schema_name field_name \<longleftrightarrow>
    suffix_at_dot key field_name \<or> (\<exists>s. key = s @ ''.'' @ field_name \<and> suffix_at_dot s schema_name)"

text \<open>What a predicate says of an event: some column that the extractor names and whose type can be compared has
  a value of which the relation holds.\<close>

definition event_holds :: "catalog_env \<Rightarrow> event \<Rightarrow> predicate \<Rightarrow> bool" where
  "event_holds env ev p =
    (case (pred_lhs p, pred_rhs p) of
       (Meta_extractor kind, Data d) \<Rightarrow>
         (case kind of
            Schema \<Rightarrow> evaluate (ce_engine env) (Str (type_name (ev_schema ev))) (pred_op p) d
          | Schema_id \<Rightarrow> evaluate (ce_engine env) (Str (ce_fingerprint env (ev_schema ev))) (pred_op p) d
          | Import_time \<Rightarrow> evaluate (ce_engine env) (Time (ev_import_time ev)) (pred_op p) d
          | Internal \<Rightarrow> evaluate (ce_engine env) (Bool (is_internal (ev_schema ev))) (pred_op p) d)
     | (Field_extractor key, Data d) \<Rightarrow>
         (\<exists>(f, x) \<in> ev_values ev. names_field key (qf_schema_name f) (qf_field_name f) \<and> \<not> is_standalone_type f
           \<and> compatible (qf_type f) (pred_op p) d \<and> evaluate (ce_engine env) x (pred_op p) d)
     | (Type_extractor t, Data d) \<Rightarrow>
         (\<exists>(f, x) \<in> ev_values ev. type_matches t (pred_op p) d (qf_type f) \<and> evaluate (ce_engine env) x (pred_op p) d)
     | _ \<Rightarrow> True)"

text \<open>The predicates whose answers from a synopsis can be relied on: no membership, and no NaN.\<close>

definition reliable_predicate :: "predicate \<Rightarrow> bool" where
  "reliable_predicate p =
    (case (pred_lhs p, pred_rhs p) of
       (Meta_extractor Import_time, Data d) \<Rightarrow> reliable (pred_op p) d
     | (Field_extractor _, Data d) \<Rightarrow> reliable (pred_op p) d
     | (Type_extractor _, Data d) \<Rightarrow> reliable (pred_op p) d
     | _ \<Rightarrow> True)"

fun all_predicates :: "(predicate \<Rightarrow> bool) \<Rightarrow> expression \<Rightarrow> bool" where
  "all_predicates P None_expr = True"
| "all_predicates P (Conjunction xs) = (\<forall>x \<in> set xs. all_predicates P x)"
| "all_predicates P (Disjunction xs) = (\<forall>x \<in> set xs. all_predicates P x)"
| "all_predicates P (Negation x) = all_predicates P x"
| "all_predicates P (Predicate p) = P p"

lemma match_name_iff: "match_name schema_name field_name key \<longleftrightarrow> names_field key schema_name field_name"
proof (cases "length field_name \<ge> length key")
  case True
  then show ?thesis by (auto simp: match_name_def names_field_def suffix_matches_iff)
next
  case False
  let ?pos = "length key - length field_name"
  have "\<not> suffix_at_dot key field_name" using suffix_at_dot_length False by blast
  moreover have "(\<exists>s. key = s @ ''.'' @ field_name \<and> suffix_at_dot s schema_name) \<longleftrightarrow>
      key = take (?pos - 1) key @ ''.'' @ field_name \<and> suffix_at_dot (take (?pos - 1) key) schema_name"
    by auto
  moreover have "key = take (?pos - 1) key @ ''.'' @ field_name \<longleftrightarrow> drop ?pos key = field_name \<and> key ! (?pos - 1) = CHR ''.''"
  proof
    assume *: "drop ?pos key = field_name \<and> key ! (?pos - 1) = CHR ''.''"
    have "key = take (?pos - 1) key @ key ! (?pos - 1) # drop (Suc (?pos - 1)) key"
      using False by (intro id_take_nth_drop) auto
    moreover have "Suc (?pos - 1) = ?pos" using False by simp
    ultimately show "key = take (?pos - 1) key @ ''.'' @ field_name" using * by simp
  next
    assume *: "key = take (?pos - 1) key @ ''.'' @ field_name"
    have "length (take (?pos - 1) key) = ?pos - 1" by simp
    then show "drop ?pos key = field_name \<and> key ! (?pos - 1) = CHR ''.''"
      using False by (subst (1 3) *) (simp add: nth_append)
  qed
  ultimately have "names_field key schema_name field_name \<longleftrightarrow>
      (drop ?pos key = field_name \<and> key ! (?pos - 1) = CHR ''.'') \<and> suffix_matches (take (?pos - 1) key) schema_name"
    by (simp add: names_field_def suffix_matches_iff)
  then show ?thesis using False
    by (auto simp: match_name_def suffix_matches_def Let_def)
qed

definition reliably_holds :: "catalog_env \<Rightarrow> event \<Rightarrow> predicate \<Rightarrow> bool" where
  "reliably_holds env ev p \<longleftrightarrow> reliable_predicate p \<and> event_holds env ev p"

lemma match_field_iff:
  "match_field key op d f = Some True \<longleftrightarrow>
    names_field key (qf_schema_name f) (qf_field_name f) \<and> \<not> is_standalone_type f \<and> compatible (qf_type f) op d"
  by (simp add: match_field_def match_name_iff)

definition event_in :: "catalog_env \<Rightarrow> index_config \<Rightarrow> partition_synopsis \<Rightarrow> event \<Rightarrow> bool" where
  "event_in env config ps ev \<longleftrightarrow>
    (\<exists>H. ps_represents (ce_synopses env) config ps H \<and> ev_values ev \<subseteq> H) \<and> ps_schema ps = ev_schema ev
    \<and> ps_min_import_time ps \<le> ev_import_time ev \<and> ev_import_time ev \<le> ps_max_import_time ps
    \<and> (\<exists>(f, _) \<in> set (ps_field_synopses ps). qf_schema_name f = type_name (ev_schema ev))"

lemma may_match_sound:
  assumes "syn_represents env s V" and "x \<in> V" and "reliable op rhs" and "evaluate rx x op rhs"
  shows "may_match env s op rhs \<noteq> Some False"
  using syn_lookup_sound [OF assms(1,3) _ assms(2), of rx] assms(4) by (auto simp: may_match_def)

lemma keeps_partition_sound:
  assumes rep: "ps_represents env config ps H" and x: "(f, x) \<in> H" and e: "map_of (ps_field_synopses ps) f = Some e"
    and op: "reliable op rhs" "evaluate rx x op rhs"
  shows "keeps_partition env ps f e op rhs \<noteq> Some False"
proof (cases e)
  case (Some s)
  have "summarises env (qf_type f) (Some (Some s)) (field_values H f)" using rep e Some unfolding ps_represents_def by metis
  then show ?thesis using Some may_match_sound [OF _ _ op] x by (auto simp: keeps_partition_def summarises_def field_values_def)
next
  case None
  let ?t = "resolve_transparent (qf_type f)"
  have sum: "summarises env ?t (map_of (ps_type_synopses ps) ?t) (type_values H ?t)" using rep unfolding ps_represents_def by blast
  have "x \<in> type_values H ?t" using x by (auto simp: type_values_def)
  then show ?thesis
    using None sum may_match_sound [OF _ _ op] by (auto simp: keeps_partition_def summarises_def split: option.split)
qed

lemma search_fields_keeps:
  "(f, e) \<in> set es \<Longrightarrow> matches f = Some True \<Longrightarrow> keeps_partition env ps f e op rhs \<noteq> Some False
    \<Longrightarrow> search_fields env ps matches op rhs es \<noteq> Some False"
  by (induction es) (auto split: option.splits bool.splits)

lemma search_sound:
  assumes "ps_represents env config ps H" and "(f, x) \<in> H" and "reliable op rhs" and "evaluate rx x op rhs"
    and "matches f = Some True"
  shows "search_fields env ps matches op rhs (ps_field_synopses ps) \<noteq> Some False"
proof -
  have "summarises env (qf_type f) (map_of (ps_field_synopses ps) f) (field_values H f)"
    using assms(1) unfolding ps_represents_def by blast
  moreover have "x \<in> field_values H f" using assms(2) by (simp add: field_values_def)
  ultimately obtain e where e: "map_of (ps_field_synopses ps) f = Some e" by (auto simp: summarises_def split: option.splits)
  show ?thesis
    by (rule search_fields_keeps [where matches = matches, OF map_of_SomeD [OF e] assms(5) keeps_partition_sound [OF assms(1,2) e assms(3,4)]])
qed

lemma import_time_sound:
  assumes "ps_min_import_time ps \<le> i" and "i \<le> ps_max_import_time ps" and "reliable op d" and "evaluate rx (Time i) op d"
  shows "check_import_time ps op d \<noteq> Some False"
proof -
  let ?s = "\<lparr>mm_min = ps_min_import_time ps, mm_max = ps_max_import_time ps\<rparr>"
  have "mm_represents time_kind ?s {Time i}" using assms(1,2) by (simp add: mm_represents_def time_kind_def k_le_def)
  then have "mm_lookup time_kind ?s op d \<noteq> Some False"
    using time.min_max.sound [OF _ reliable_exact(5) [OF assms(3)], where engine = rx and x = "Time i"] assms(4) by auto
  then show ?thesis by (auto simp: check_import_time_def split: data.split)
qed

lemma select_partitions_keeps:
  "select_partitions check m = Some infos \<Longrightarrow> p \<in> set m \<Longrightarrow> check p \<noteq> Some False \<Longrightarrow> fst p \<in> pi_uuid ` set infos"
proof -
  assume "select_partitions check m = Some infos" "p \<in> set m" "check p \<noteq> Some False"
  then have "info_of p \<in> set infos" using select_partitions_filter [of check m infos] by auto
  then show ?thesis by (rule rev_image_eqI) simp
qed

lemma lookup_predicate_sound:
  assumes look: "lookup_predicate env t m q = Some infos" and p: "p \<in> set m" and ev: "event_in env config (snd p) ev"
    and t: "t = ev_schema ev" and holds: "reliably_holds env ev q"
  shows "fst p \<in> pi_uuid ` set infos"
proof -
  obtain H where H: "ps_represents (ce_synopses env) config (snd p) H" "ev_values ev \<subseteq> H"
    using ev by (auto simp: event_in_def)
  have all: "fst p \<in> pi_uuid ` set (all_partitions m)" using p by (force simp: all_partitions_def image_iff)
  let ?op = "pred_op q"
  consider (meta) kind d where "pred_lhs q = Meta_extractor kind" "pred_rhs q = Data d"
    | (field) key d where "pred_lhs q = Field_extractor key" "pred_rhs q = Data d"
    | (type) u d where "pred_lhs q = Type_extractor u" "pred_rhs q = Data d"
    | (other) "lookup_predicate env t m q = Some (all_partitions m)"
    by (cases "pred_lhs q"; cases "pred_rhs q") (auto simp: lookup_predicate_def)
  then show ?thesis
  proof cases
    case meta
    have look': "lookup_meta env t m kind ?op d = Some infos" using look meta by (simp add: lookup_predicate_def)
    show ?thesis
    proof (cases kind)
      case Schema
      then show ?thesis
        using select_partitions_keeps [OF _ p] look' holds ev meta
        by (fastforce simp: lookup_meta_def reliably_holds_def event_holds_def event_in_def list_ex_iff)
    next
      case Schema_id
      then show ?thesis using look' holds meta all t by (auto simp: lookup_meta_def reliably_holds_def event_holds_def)
    next
      case Import_time
      have "check_import_time (snd p) ?op d \<noteq> Some False"
        using import_time_sound [of "snd p" "ev_import_time ev" ?op d "ce_engine env"] holds ev meta Import_time
        by (simp add: reliably_holds_def reliable_predicate_def event_holds_def event_in_def)
      then show ?thesis using select_partitions_keeps [OF _ p] look' Import_time by (simp add: lookup_meta_def)
    next
      case Internal
      then show ?thesis
        using select_partitions_keeps [OF _ p] look' holds ev meta
        by (fastforce simp: lookup_meta_def reliably_holds_def event_holds_def event_in_def)
    qed
  next
    case field
    then obtain f x where "(f, x) \<in> H" "reliable ?op d" "match_field key ?op d f = Some True" "evaluate (ce_engine env) x ?op d"
      using holds H(2) unfolding match_field_iff by (auto simp: reliably_holds_def reliable_predicate_def event_holds_def)
    then show ?thesis
      using select_partitions_keeps [OF _ p] search_sound [OF H(1)] look field by (simp add: lookup_predicate_def search_def)
  next
    case type
    then obtain f x where "(f, x) \<in> H" "reliable ?op d" "match_type u ?op d f = Some True" "evaluate (ce_engine env) x ?op d"
      using holds H(2) by (auto simp: reliably_holds_def reliable_predicate_def event_holds_def match_type_def)
    then show ?thesis
      using select_partitions_keeps [OF _ p] search_sound [OF H(1)] look type by (simp add: lookup_predicate_def search_def)
  next
    case other
    then show ?thesis using look all by simp
  qed
qed

lemma lookup_infos_sound:
  "lookup_infos env t m e = Some infos \<Longrightarrow> flat_ok fst m \<Longrightarrow> p \<in> set m \<Longrightarrow> event_in env config (snd p) ev
    \<Longrightarrow> t = ev_schema ev \<Longrightarrow> expr_holds (reliably_holds env ev) e \<Longrightarrow> fst p \<in> pi_uuid ` set infos"
  "lookup_rest env t m result xs = Some infos \<Longrightarrow> flat_ok fst m \<Longrightarrow> p \<in> set m \<Longrightarrow> event_in env config (snd p) ev
    \<Longrightarrow> t = ev_schema ev \<Longrightarrow> \<forall>x \<in> set xs. expr_holds (reliably_holds env ev) x \<Longrightarrow> within m result
    \<Longrightarrow> fst p \<in> pi_uuid ` set result \<Longrightarrow> fst p \<in> pi_uuid ` set infos"
  "lookup_any env t m result xs = Some infos \<Longrightarrow> flat_ok fst m \<Longrightarrow> p \<in> set m \<Longrightarrow> event_in env config (snd p) ev
    \<Longrightarrow> t = ev_schema ev \<Longrightarrow> fst p \<in> pi_uuid ` set result \<or> (\<exists>x \<in> set xs. expr_holds (reliably_holds env ev) x)
    \<Longrightarrow> within m result \<Longrightarrow> fst p \<in> pi_uuid ` set infos"
proof (induction env t m e and env t m result xs and env t m result xs arbitrary: infos and infos and infos
    rule: lookup_infos_lookup_rest_lookup_any.induct)
  case (2 env t m xs)
  obtain x rest result where x: "xs = x # rest" "lookup_infos env t m x = Some result"
    using "2.prems"(1) by (auto split: list.splits option.splits)
  have key: "fst p \<in> pi_uuid ` set result" using "2.IH"(1) [OF x] "2.prems" x(1) by simp
  then have "result \<noteq> []" by auto
  then show ?case
    using "2.IH"(2) [OF x] "2.prems" x key lookup_within(1) [OF "2.prems"(2) x(2)] by simp
next
  case (3 env t m xs)
  then show ?case by simp
next
  case (4 env t m x)
  then show ?case by (force simp: all_partitions_def image_iff)
next
  case (5 env t m q)
  then show ?case using lookup_predicate_sound [of env t m q infos p config ev] by simp
next
  case (7 env t m result x xs)
  obtain ys where ys: "lookup_infos env t m x = Some ys" using "7.prems"(1) by (auto split: option.splits)
  have key: "fst p \<in> pi_uuid ` set ys" using "7.IH"(1) [OF ys] "7.prems" by simp
  then have ne: "ys \<noteq> []" by auto
  have wys: "within m ys" by (rule lookup_within(1) [OF "7.prems"(2) ys])
  let ?r = "inplace_intersect pi_uuid result ys"
  have r: "within m ?r"
    using "7.prems"(7) intersect_ok [of pi_uuid result ys] intersect_subset [of pi_uuid result ys]
    by (auto simp: within_def inplace_intersect_eq)
  have "fst p \<in> pi_uuid ` set ?r"
    using intersect_keys [of pi_uuid result ys] "7.prems"(7,8) wys key by (simp add: within_def inplace_intersect_eq)
  then show ?case using "7.IH"(2) [OF ys ne] "7.prems" ys ne r by simp
next
  case (9 env t m result x xs)
  obtain ys where ys: "lookup_infos env t m x = Some ys" using "9.prems"(1) by (auto split: option.splits)
  have wys: "within m ys" by (rule lookup_within(1) [OF "9.prems"(2) ys])
  show ?case
  proof (cases "length ys = length m")
    case True
    then have "infos = ys" using "9.prems"(1) ys by simp
    then show ?thesis using within_complete [OF "9.prems"(2) wys True "9.prems"(3)] by simp
  next
    case False
    let ?r = "inplace_unify pi_uuid result ys"
    have r: "within m ?r"
      using "9.prems"(7) wys inplace_unify_ok [of pi_uuid result ys] inplace_unify_subset [of pi_uuid result ys]
      by (auto simp: within_def)
    have "expr_holds (reliably_holds env ev) x \<Longrightarrow> fst p \<in> pi_uuid ` set ys" using "9.IH"(1) [OF ys] "9.prems" by simp
    then have "fst p \<in> pi_uuid ` set ?r \<or> (\<exists>x \<in> set xs. expr_holds (reliably_holds env ev) x)"
      using "9.prems"(6) by (auto simp: inplace_unify_keys)
    then show ?thesis using "9.IH"(2) [OF ys False] "9.prems" ys False r by simp
  qed
qed simp_all

section \<open>From the query to the candidates\<close>

lemma normal_form_negation_free: "normal_form e \<Longrightarrow> negation_free e"
  by (induction e) auto

lemma resolve_concept_in_negation_free: "resolve_concept_in concepts schema p = Some r \<Longrightarrow> negation_free r"
  by (auto simp: resolve_concept_in_def resolve_concept_predicate_def
      split: operand.splits option.splits list.splits)

definition maps_negation_free :: "(predicate \<Rightarrow> 'e + expression) \<Rightarrow> bool" where
  "maps_negation_free f \<longleftrightarrow> (\<forall>p r. f p = Inr r \<longrightarrow> negation_free r)"

lemma for_each_negation_free:
  "maps_negation_free f \<Longrightarrow> negation_free e \<Longrightarrow> for_each_predicate f e = Inr r \<Longrightarrow> negation_free r"
  "maps_negation_free f \<Longrightarrow> \<forall>x \<in> set es. negation_free x \<Longrightarrow> for_each_in f es = Inr rs
    \<Longrightarrow> \<forall>x \<in> set rs. negation_free x"
proof (induction f e and f es arbitrary: r and rs rule: for_each_predicate_for_each_in.induct)
  case (2 f xs)
  obtain ys where ys: "for_each_in f xs = Inr ys" "r = Conjunction ys" using "2.prems"(3) by (auto split: sum.splits)
  then show ?case using "2.IH" [OF "2.prems"(1) _ ys(1)] "2.prems"(2) by simp
next
  case (3 f xs)
  obtain ys where ys: "for_each_in f xs = Inr ys" "r = Disjunction ys" using "3.prems"(3) by (auto split: sum.splits)
  then show ?case using "3.IH" [OF "3.prems"(1) _ ys(1)] "3.prems"(2) by simp
next
  case (5 f p)
  then show ?case by (simp add: maps_negation_free_def)
next
  case (7 f x xs)
  obtain y ys where y: "for_each_predicate f x = Inr y" and ys: "for_each_in f xs = Inr ys" "rs = y # ys"
    using "7.prems"(3) by (auto split: sum.splits)
  have "negation_free y" using "7.IH"(1) [OF "7.prems"(1) _ y] "7.prems"(2) by simp
  moreover have "\<forall>x \<in> set ys. negation_free x" using "7.IH"(2) [OF y "7.prems"(1) _ ys(1)] "7.prems"(2) by simp
  ultimately show ?case using ys(2) by simp
qed simp_all

lemma resolve_taxonomies_negation_free:
  assumes "resolve_taxonomies concepts e schema = Some r" and "negation_free e"
  shows "negation_free r"
proof -
  let ?f = "\<lambda>p. case resolve_concept_in concepts schema p of None \<Rightarrow> Inl () | Some r \<Rightarrow> Inr r"
  have "maps_negation_free ?f"
    by (auto simp: maps_negation_free_def dest: resolve_concept_in_negation_free split: option.splits)
  moreover have "for_each_predicate ?f e = Inr r" using assms(1) by (simp add: resolve_taxonomies_def split: sum.splits)
  ultimately show ?thesis using for_each_negation_free(1) assms(2) by blast
qed

text \<open>Pruning asks all string columns instead of the named ones. That is an over-approximation unless a column
  of another type can be compared with a string, like an enumeration.\<close>

definition strings_only :: "event \<Rightarrow> bool" where
  "strings_only ev \<longleftrightarrow> (\<forall>(f, x) \<in> ev_values ev. \<forall>op s. compatible (qf_type f) op (Str s) \<longrightarrow> congruent (qf_type f) String_type)"

lemma strings_only_generalizes:
  "strings_only ev \<Longrightarrow> generalizes (event_holds env ev) u" "strings_only ev \<Longrightarrow> generalizes (reliably_holds env ev) u"
proof -
  have gen: "event_holds env ev (p\<lparr>pred_lhs := Type_extractor String_type\<rparr>)
      \<and> (reliable_predicate p \<longrightarrow> reliable_predicate (p\<lparr>pred_lhs := Type_extractor String_type\<rparr>))"
    if only: "strings_only ev" and p: "prunable u (Predicate p) \<noteq> None" and h: "event_holds env ev p" for p
  proof -
    consider f s where "pred_lhs p = Field_extractor f" "pred_rhs p = Data (Str s)"
      | "pred_lhs p = Type_extractor String_type"
      using p by (auto simp: prunable_def split: operand.splits data.splits if_splits)
    then show ?thesis
    proof cases
      case 1
      then obtain g x where x: "(g, x) \<in> ev_values ev" "compatible (qf_type g) (pred_op p) (Str s)"
        "evaluate (ce_engine env) x (pred_op p) (Str s)"
        using h unfolding event_holds_def by (simp del: compatible.simps evaluate.simps) blast
      then have "type_matches String_type (pred_op p) (Str s) (qf_type g)"
        using only by (auto simp: strings_only_def type_matches_def has_type_def simp del: compatible.simps)
      then show ?thesis
        using 1 x by (auto simp: event_holds_def reliable_predicate_def simp del: evaluate.simps)
    next
      case 2
      then have "p\<lparr>pred_lhs := Type_extractor String_type\<rparr> = p" by simp
      then show ?thesis using h by simp
    qed
  qed
  then show "strings_only ev \<Longrightarrow> generalizes (event_holds env ev) u" by (simp add: generalizes_def)
  show "strings_only ev \<Longrightarrow> generalizes (reliably_holds env ev) u"
    using gen by (simp add: generalizes_def reliably_holds_def)
qed

text \<open>Replacing concepts keeps the operators and the values, so a reliable query stays one.\<close>

lemma resolve_concept_in_reliable:
  "resolve_concept_in concepts schema p = Some r \<Longrightarrow> reliable_predicate p \<Longrightarrow> all_predicates reliable_predicate r"
  by (auto simp: resolve_concept_in_def resolve_concept_predicate_def reliable_predicate_def
      split: operand.splits option.splits list.splits)

lemma expr_holds_mono:
  "negation_free e \<Longrightarrow> all_predicates P e \<Longrightarrow> expr_holds h e \<Longrightarrow> (\<And>p. P p \<Longrightarrow> h p \<Longrightarrow> h' p) \<Longrightarrow> expr_holds h' e"
  by (induction e) auto

lemma rewritten_reliably:
  assumes "negation_free e" and "all_predicates reliable_predicate e"
    and "expr_holds (rewritten_holds (event_holds env ev) concepts schema) e"
  shows "expr_holds (rewritten_holds (reliably_holds env ev) concepts schema) e"
proof (rule expr_holds_mono [OF assms])
  fix p
  assume p: "reliable_predicate p" and h: "rewritten_holds (event_holds env ev) concepts schema p"
  obtain r where r: "resolve_concept_in concepts schema p = Some r" "expr_holds (event_holds env ev) r"
    using h by (auto simp: rewritten_holds_def split: option.splits)
  have "expr_holds (reliably_holds env ev) r"
    by (rule expr_holds_mono [OF resolve_concept_in_negation_free [OF r(1)] resolve_concept_in_reliable [OF r(1) p] r(2)])
      (simp add: reliably_holds_def)
  then show "rewritten_holds (reliably_holds env ev) concepts schema p" by (simp add: rewritten_holds_def r(1))
qed

lemma lookup_schemas_entries:
  "lookup_schemas env srt st n ts = Some r \<Longrightarrow> map fst r = ts
    \<and> (\<forall>t \<in> set ts. \<exists>c. lookup_schema env srt st n t = Some c \<and> (t, c) \<in> set r)"
  by (induction ts arbitrary: r) (auto split: option.splits)

lemma lookup_schema_sound:
  assumes ok: "cat_ok st" and srt: "sorts_infos srt" and look: "lookup_schema env srt st n t = Some c"
    and nf: "negation_free n" and ps: "cat_contents st t u = Some ps" and ev: "event_in env config ps ev"
    and only: "strings_only ev" and holds: "expr_holds (rewritten_holds (reliably_holds env ev) (cat_concepts st) t) n"
  shows "u \<in> pi_uuid ` set (ci_infos c)"
proof -
  obtain m where m: "map_of (cat_synopses st) t = Some m" "map_of m u = Some ps"
    using ps by (auto simp: cat_contents_def synopses_of_def split: option.splits)
  have mok: "map_ok t m" by (rule map_of_ok [OF ok m(1)])
  have p: "(u, ps) \<in> set m" using m(2) by (rule map_of_SomeD)
  have t: "t = ev_schema ev" using mok p ev by (auto simp: map_ok_def event_in_def)
  obtain resolved pruned infos where steps: "resolve_taxonomies (cat_concepts st) n t = Some resolved"
    "prune resolved (\<lambda>name. name \<in> set (cat_unprunable st)) = Some pruned"
    "lookup_infos env t m pruned = Some infos" "ci_infos c = srt infos"
    using look m(1) by (auto simp: lookup_schema_def lookup_impl_def split: option.splits)
  have "expr_holds (reliably_holds env ev) resolved" using holds resolve_taxonomies_holds [OF steps(1)] by simp
  then have "expr_holds (reliably_holds env ev) pruned"
    using prune_holds [OF strings_only_generalizes(2) [OF only] steps(2)] resolve_taxonomies_negation_free [OF steps(1) nf] by blast
  then have "fst (u, ps) \<in> pi_uuid ` set infos"
    using lookup_infos_sound(1) [OF steps(3) _ p _ t] mok ev by (simp add: map_ok_def)
  moreover have "set (srt infos) = set infos" using srt unfolding sorts_infos_def by (metis set_mset_mset)
  ultimately show ?thesis by (simp add: steps(4))
qed

text \<open>An event that satisfies the query lies in a partition that the lookup returns.\<close>

lemma cat_lookup_sound:
  assumes "cat_ok st" and "sorts_infos srt" and "cat_lookup env srt st e = Some (Inr r)"
    and "cat_contents st t u = Some ps" and "event_in env config ps ev" and "strings_only ev"
    and "all_predicates reliable_predicate (normalize (if e = None_expr then trivially_true else e))"
    and "expr_holds (rewritten_holds (event_holds env ev) (cat_concepts st) t) (normalize (if e = None_expr then trivially_true else e))"
  shows "\<exists>c. (t, c) \<in> set r \<and> u \<in> pi_uuid ` set (ci_infos c)"
proof -
  let ?n = "normalize (if e = None_expr then trivially_true else e)"
  have r: "lookup_schemas env srt st ?n (map fst (cat_synopses st)) = Some r"
    using assms(3) by (auto simp: cat_lookup_def normalize_and_validate_def Let_def split: sum.splits)
  have "t \<in> set (map fst (cat_synopses st))"
    using assms(4) by (auto simp: cat_contents_def synopses_of_def split: option.splits dest: map_of_SomeD intro: rev_image_eqI)
  then obtain c where c: "lookup_schema env srt st ?n t = Some c" "(t, c) \<in> set r" using lookup_schemas_entries [OF r] by blast
  have "negation_free ?n" by (rule normal_form_negation_free [OF normalize_normal_form])
  from lookup_schema_sound [OF assms(1,2) c(1) this assms(4,5,6) rewritten_reliably [OF this assms(7,8)]] show ?thesis using c(2) by blast
qed

text \<open>The result has an entry for every schema, whether or not it has candidates.\<close>

lemma cat_lookup_schemas: "cat_lookup env srt st e = Some (Inr r) \<Longrightarrow> map fst r = map fst (cat_synopses st)"
  using lookup_schemas_entries by (auto simp: cat_lookup_def split: sum.splits)

section \<open>Where candidates are lost\<close>

text \<open>Pruning is not an over-approximation for enumerations: two predicates for the same string become one
  on the string columns, and the partition that the enumeration would have kept is ruled out.\<close>

definition enum_expr :: expression where
  "enum_expr = Disjunction [Predicate \<lparr>pred_lhs = Field_extractor ''a'', pred_op = Equal, pred_rhs = Data (Str ''x'')\<rparr>,
    Predicate \<lparr>pred_lhs = Field_extractor ''b'', pred_op = Equal, pred_rhs = Data (Str ''x'')\<rparr>]"

definition enum_partition :: partition_synopsis where
  "enum_partition = (ps_new 2)\<lparr>
     ps_schema := Enriched_type (Record_type [(''a'', String_type), (''b'', Enumeration_type [(''x'', 0)])]) ''s'' [],
     ps_field_synopses := [(\<lparr>qf_schema_name = ''s'', qf_field_name = ''a'', qf_type = String_type\<rparr>, None),
       (\<lparr>qf_schema_name = ''s'', qf_field_name = ''b'', qf_type = Enumeration_type [(''x'', 0)]\<rparr>, None)],
     ps_type_synopses := [(String_type, Some (Buffered_string \<lparr>buf_p = 0, buf_data = [''y'']\<rparr>)),
       (Enumeration_type [(''x'', 0)], None)]\<rparr>"

lemma enum_pruned:
  "prune enum_expr (\<lambda>_. False) = Some (Predicate \<lparr>pred_lhs = Type_extractor String_type, pred_op = Equal,
    pred_rhs = Data (Str ''x'')\<rparr>)"
  by (simp add: prune_def prune_loop.simps enum_expr_def prunable_def generalize_def same_lookup_def
      predicate_eq_def operand_eq_def self_equal_string)

lemma pruning_loses_enumerations:
  "lookup_infos env t [(u, enum_partition)] (the (prune enum_expr (\<lambda>_. False))) = Some []
    \<and> lookup_infos env t [(u, enum_partition)] enum_expr = Some [info_of (u, enum_partition)]"
proof -
  have c: "congruent String_type String_type" "\<not> congruent (Enumeration_type [(''x'', 0)]) String_type"
    by (simp_all add: congruent.simps)
  have "compatible String_type Equal (Str ''x'')" "compatible (Enumeration_type [(''x'', 0)]) Equal (Str ''x'')"
    by (simp_all add: compatible.simps congruent_data.simps has_type_def numeric_pair_def enum_resolve_def)
  then show ?thesis
    unfolding enum_pruned option.sel
    by (simp add: c enum_expr_def enum_partition_def ps_new_def lookup_predicate_def search_def search_fields.simps
        match_type_def match_field_def type_matches_def has_type_def match_name_def suffix_matches_def is_standalone_type_def
        keeps_partition_def may_match_def buf_lookup_def string_view_def inplace_unify_def info_of_def)
qed

text \<open>A name that the rest of a key after the schema name matches inside a nested record: the events are found
  when the expression is tailored to the schema, but the catalog rules their partition out, whatever its synopsis.\<close>

definition dot_free :: "string \<Rightarrow> bool" where
  "dot_free s \<longleftrightarrow> CHR ''.'' \<notin> set s"

lemma dot_free_split:
  "dot_free x \<Longrightarrow> dot_free y \<Longrightarrow> x @ CHR ''.'' # u = y @ CHR ''.'' # v \<longleftrightarrow> x = y \<and> u = v"
  unfolding dot_free_def by (induction x arbitrary: y) (case_tac y; auto)+

lemma strip_prefix_dot:
  assumes "dot_free x" and "dot_free y"
  shows "strip_prefix (x @ ''.'') (y @ ''.'' @ z) = (if x = y then Some z else None)"
    and "strip_prefix (x @ ''.'') y = None"
proof -
  have "take (length (x @ ''.'')) (y @ ''.'' @ z) = x @ ''.'' \<Longrightarrow> x = y"
    using dot_free_split [OF assms, of "drop (length (x @ ''.'')) (y @ ''.'' @ z)" z]
      append_take_drop_id [of "length (x @ ''.'')" "y @ ''.'' @ z"] by simp
  then show "strip_prefix (x @ ''.'') (y @ ''.'' @ z) = (if x = y then Some z else None)"
    by (auto simp: strip_prefix_def)
  show "strip_prefix (x @ ''.'') y = None"
    using assms(2) set_take_subset [of "length (x @ ''.'')" y] by (auto simp: strip_prefix_def dot_free_def)
qed

lemma nested_key:
  assumes "dot_free a" "dot_free b" "dot_free c" "a \<noteq> []" "a \<noteq> b" and t: "as_record t = None"
  shows "resolve_key_suffix [(b, Record_type [(c, t)])] (a @ ''.'' @ c) a = [[0, 0]]"
    and "\<not> match_name a (b @ ''.'' @ c) (a @ ''.'' @ c)"
proof -
  have "dropWhile (\<lambda>x. x \<noteq> CHR ''.'') a = []" using assms(1) unfolding dropWhile_eq_Nil_conv by (auto simp: dot_free_def)
  then have "schema_keys (a @ ''.'' @ c) a = [c]"
    using assms strip_prefix_dot(1) [OF assms(1,1), of c] by (subst schema_keys.simps) (simp del: dropWhile_eq_Nil_conv)
  moreover have "next_keys base [a @ ''.'' @ c, c] b = base" for base
    using strip_prefix_dot(1) [OF assms(2,1), of c] strip_prefix_dot(2) [OF assms(2,3)] assms(5)
    by (simp add: next_keys_def map_filter_simps)
  moreover have "suffix_matches c c" "\<not> suffix_matches (a @ ''.'' @ c) c" by (simp_all add: suffix_matches_def)
  ultimately show "resolve_key_suffix [(b, Record_type [(c, t)])] (a @ ''.'' @ c) a = [[0, 0]]"
    using t by (simp add: resolve_key_suffix_list as_record_def [of "Record_type _"])
  show "\<not> match_name a (b @ ''.'' @ c) (a @ ''.'' @ c)"
    unfolding match_name_iff names_field_def suffix_at_dot_def
  proof (intro notI, elim disjE exE conjE)
    show False if "b @ ''.'' @ c = a @ ''.'' @ c" using that assms(5) by simp
    have dots: "count_list (x @ ''.'' @ y) CHR ''.'' = count_list x CHR ''.'' + count_list y CHR ''.'' + 1" for x y :: string
      by simp
    have none: "count_list a CHR ''.'' = 0" "count_list b CHR ''.'' = 0" "count_list c CHR ''.'' = 0"
      using assms(1-3) by (simp_all add: dot_free_def count_notin)
    show False if "b @ ''.'' @ c = p @ ''.'' @ a @ ''.'' @ c" for p
      using arg_cong [OF that, of "\<lambda>s. count_list s CHR ''.''"] none by (simp only: dots)
    have "a @ ''.'' @ c \<noteq> s @ ''.'' @ b @ ''.'' @ c" for s
      using arg_cong [of "a @ ''.'' @ c" "s @ ''.'' @ b @ ''.'' @ c" "\<lambda>s. count_list s CHR ''.''"] none by (metis dots add_cancel_right_left add_is_0 one_neq_zero)
    then show "a @ ''.'' @ c = s @ ''.'' @ b @ ''.'' @ c \<Longrightarrow> False"
      "a @ ''.'' @ c = s @ ''.'' @ b @ ''.'' @ c \<Longrightarrow> False" for s by blast+
  qed
qed

lemma nested_name_lost:
  assumes names: "dot_free a" "dot_free b" "dot_free c" "a \<noteq> []" "a \<noteq> b" and t: "as_record t = None" "compatible t op d"
    and ps: "ps_field_synopses ps = [(\<lparr>qf_schema_name = a, qf_field_name = b @ ''.'' @ c, qf_type = t\<rparr>, syn)]"
    and p: "p = \<lparr>pred_lhs = Field_extractor (a @ ''.'' @ c), pred_op = op, pred_rhs = Data d\<rparr>"
  shows "resolve_predicate a [(b, Record_type [(c, t)])] p = Some (Predicate (column_predicate op d ([0, 0], c, t) 0))
    \<and> lookup_predicate env schema [(u, ps)] p = Some []"
proof -
  let ?fs = "[(b, Record_type [(c, t)])]"
  note key = nested_key [OF names t(1)]
  have "flat_index ?fs [0, 0] = Some 0"
    unfolding flat_index_leaves num_leaves_leaves record_leaves_list using t(1) by (simp add: as_record_def [of "Record_type _"])
  moreover have field: "field_at ?fs [0, 0] = Some (c, t)" by (simp add: as_record_def)
  ultimately have "data_extractor_at ?fs [0, 0] = Some (Data_extractor t 0)" by (simp only: data_extractor_at_def) simp
  then have "field_columns ?fs op d [[0, 0]] = Some [column_predicate op d ([0, 0], c, t) 0]"
    using field t(2) by (simp del: field_at.simps add: column_predicate_def)
  then show ?thesis
    using key ps by (simp add: p resolve_predicate_def resolve_field_def combine_columns_def lookup_predicate_def
        search_def match_field_def)
qed

end
