(* ===== verification/Catalog_Run.thy ===== *)
theory Catalog_Run
  imports Catalog
begin

text \<open>
  The catalog actor at work (\<open>catalog.cpp\<close>): every handler that changes the state is a step. The ids of
  partitions are universally unique, so a message never brings a known id under another schema. The states
  that the actor can reach are well formed, and they implement a finite map from ids to synopses.
\<close>

section \<open>The handlers as steps\<close>

definition known_elsewhere :: "catalog_state \<Rightarrow> uuid \<times> partition_synopsis \<Rightarrow> bool" where
  "known_elsewhere st p \<longleftrightarrow> (\<exists>t. cat_contents st t (fst p) \<noteq> None \<and> t \<noteq> ps_schema (snd p))"

inductive cat_step :: "catalog_state \<Rightarrow> catalog_state \<Rightarrow> bool" where
  step_initialize: "cat_synopses st = [] \<Longrightarrow> distinct (map fst ps) \<Longrightarrow> cat_initialize end_of_life references ps st = Some (Inr st')
    \<Longrightarrow> cat_step st st'"
| step_merge: "distinct (map fst ps) \<Longrightarrow> \<forall>p \<in> set ps. \<not> known_elsewhere st p \<Longrightarrow> cat_step st (cat_merge ps st)"
| step_erase: "cat_step st (cat_erase u st)"
| step_replace: "distinct (map fst ps) \<Longrightarrow> \<forall>p \<in> set ps. \<not> known_elsewhere st p \<Longrightarrow> cat_step st (cat_replace us ps st)"

inductive cat_reach :: "catalog_state \<Rightarrow> bool" where
  reach_new: "cat_reach (catalog_new concepts)"
| reach_step: "cat_reach st \<Longrightarrow> cat_step st st' \<Longrightarrow> cat_reach st'"

inductive_cases cat_stepE: "cat_step st st'"

section \<open>The states are well formed\<close>

definition cat_inv :: "catalog_state \<Rightarrow> bool" where
  "cat_inv st \<longleftrightarrow> cat_ok st \<and> unique_ids st"

lemma contents_schema: "cat_ok st \<Longrightarrow> cat_contents st t u = Some ps \<Longrightarrow> ps_schema ps = t"
  by (fastforce simp: cat_contents_def synopses_of_def cat_ok_def map_ok_def dest!: map_of_SomeD split: option.splits)

lemma cat_new_inv: "cat_inv (catalog_new concepts)"
  by (simp add: cat_inv_def cat_ok_def unique_ids_def catalog_new_def cat_contents_def synopses_of_def)

lemma cat_merge_inv:
  assumes inv: "cat_inv st" and ids: "distinct (map fst ps)" and fresh: "\<forall>p \<in> set ps. \<not> known_elsewhere st p"
  shows "cat_inv (cat_merge ps st)"
proof -
  have ok: "cat_ok st" and unique: "unique_ids st" using inv by (simp_all add: cat_inv_def)
  have schema: "t = ps_schema s" if "map_of ps u = Some s" "cat_contents (cat_merge ps st) t u \<noteq> None" for t u s
  proof -
    have "\<not> known_elsewhere st (u, s)" using that(1) fresh by (blast dest: map_of_SomeD)
    then have "cat_contents st t u \<noteq> None \<Longrightarrow> t = ps_schema s"
      unfolding known_elsewhere_def by (metis fst_conv snd_conv)
    then show ?thesis using that by (auto simp: cat_merge_contents [OF ok ids] split: if_splits)
  qed
  have "t = t'" if "cat_contents (cat_merge ps st) t u \<noteq> None" "cat_contents (cat_merge ps st) t' u \<noteq> None" for t t' u
  proof (cases "map_of ps u")
    case None
    then show ?thesis using that unique unfolding cat_merge_contents [OF ok ids] by (auto simp: unique_ids_def)
  next
    case (Some s)
    then show ?thesis using schema that by metis
  qed
  then show ?thesis using cat_merge_ok [OF ok] by (auto simp: cat_inv_def unique_ids_def)
qed

lemma cat_erase_inv: "cat_inv st \<Longrightarrow> cat_inv (cat_erase u st)"
  using cat_erase_spec [of st u] by (auto simp: cat_inv_def unique_ids_def)

lemma cat_erase_all:
  "cat_inv st \<Longrightarrow> cat_inv (fold cat_erase us st) \<and>
    (\<forall>t v. cat_contents (fold cat_erase us st) t v = (if v \<in> set us then None else cat_contents st t v))"
proof (induction us arbitrary: st)
  case (Cons u us)
  have "cat_inv (cat_erase u st)" by (rule cat_erase_inv [OF Cons.prems])
  moreover have "cat_contents (cat_erase u st) t v = (if v = u then None else cat_contents st t v)" for t v
    using cat_erase_spec [of st u t v] Cons.prems by (simp add: cat_inv_def)
  ultimately show ?case using Cons.IH [of "cat_erase u st"] by simp
qed simp

lemma cat_replace_inv:
  assumes "cat_inv st" and "distinct (map fst ps)" and "\<forall>p \<in> set ps. \<not> known_elsewhere st p"
  shows "cat_inv (cat_replace us ps st)"
  unfolding cat_replace_def
proof (rule cat_merge_inv)
  show "cat_inv (fold cat_erase us st)" using cat_erase_all [OF assms(1)] by blast
  show "\<forall>p \<in> set ps. \<not> known_elsewhere (fold cat_erase us st) p"
    using assms(3) cat_erase_all [OF assms(1), of us] by (auto simp: known_elsewhere_def)
qed (rule assms(2))

lemma cat_initialize_inv:
  assumes "cat_inv st" and "cat_synopses st = []" and "distinct (map fst ps)" and "cat_initialize end_of_life references ps st = Some (Inr st')"
  shows "cat_inv st'"
proof -
  have "cat_ok st'" and same: "cat_contents st' t u = cat_contents (cat_merge ps st) t u" for t u
    using cat_initialize_spec [OF assms(2,3), where end_of_life = end_of_life and references = references] assms(4) by auto
  moreover have "cat_inv (cat_merge ps st)"
    using assms(2) by (intro cat_merge_inv assms) (simp add: known_elsewhere_def cat_contents_def synopses_of_def)
  ultimately show ?thesis by (auto simp: cat_inv_def unique_ids_def)
qed

lemma cat_step_inv: "cat_step st st' \<Longrightarrow> cat_inv st \<Longrightarrow> cat_inv st'"
  by (induction rule: cat_step.induct) (auto intro: cat_initialize_inv cat_merge_inv cat_erase_inv cat_replace_inv)

lemma cat_reach_inv: "cat_reach st \<Longrightarrow> cat_inv st"
  by (induction rule: cat_reach.induct) (auto intro: cat_new_inv cat_step_inv)

section \<open>A catalog is a finite map\<close>

definition cat_map :: "catalog_state \<Rightarrow> uuid \<Rightarrow> partition_synopsis option" where
  "cat_map st = map_of (cat_all st)"

lemma cat_map_contents:
  assumes "cat_inv st"
  shows "cat_map st u = Some ps \<longleftrightarrow> cat_contents st (ps_schema ps) u = Some ps"
proof -
  have ok: "cat_ok st" and unique: "unique_ids st" using assms by (simp_all add: cat_inv_def)
  have entry: "\<exists>t. cat_contents st t v = Some qs" if "(v, qs) \<in> set (cat_all st)" for v qs
  proof -
    obtain t m where m: "(t, m) \<in> set (cat_synopses st)" "(v, qs) \<in> set m" using \<open>(v, qs) \<in> set (cat_all st)\<close> by (auto simp: cat_all_def)
    have "distinct (map fst m)" using ok m(1) by (auto simp: cat_ok_def map_ok_def flat_ok_def strict_sorted_iff)
    then show ?thesis using cat_contents_entry [OF ok m(1), of v] map_of_is_SomeI [OF _ m(2)] by auto
  qed
  show ?thesis
  proof
    assume "cat_map st u = Some ps"
    then obtain t where t: "cat_contents st t u = Some ps" using entry [OF map_of_SomeD] by (auto simp: cat_map_def)
    then show "cat_contents st (ps_schema ps) u = Some ps" using contents_schema [OF ok t] by simp
  next
    assume c: "cat_contents st (ps_schema ps) u = Some ps"
    then have "(u, ps) \<in> set (cat_all st)"
      by (force simp: cat_contents_def synopses_of_def cat_all_def dest: map_of_SomeD split: option.splits)
    then obtain qs where qs: "map_of (cat_all st) u = Some qs" using weak_map_of_SomeI by fast
    then obtain t where t: "cat_contents st t u = Some qs" using entry by (blast dest: map_of_SomeD)
    have "t = ps_schema ps" using unique c t unfolding unique_ids_def by blast
    then show "cat_map st u = Some ps" using c t qs by (simp add: cat_map_def)
  qed
qed

lemma cat_map_eqI:
  assumes "cat_inv st" and "\<And>u ps. f u = Some ps \<longleftrightarrow> cat_contents st (ps_schema ps) u = Some ps"
  shows "cat_map st = f"
proof
  show "cat_map st u = f u" for u using cat_map_contents [OF assms(1), of u] assms(2) [of u] by (metis not_Some_eq)
qed

lemma cat_map_merge:
  assumes "cat_inv st" and "distinct (map fst ps)" and "\<forall>p \<in> set ps. \<not> known_elsewhere st p"
  shows "cat_map (cat_merge ps st) = cat_map st ++ map_of ps"
proof (rule cat_map_eqI [OF cat_merge_inv [OF assms]])
  fix u and s :: partition_synopsis
  have merged: "cat_contents (cat_merge ps st) (ps_schema s) u = (case map_of ps u of
      Some r \<Rightarrow> if ps_schema r = ps_schema s then Some r else cat_contents st (ps_schema s) u
    | None \<Rightarrow> cat_contents st (ps_schema s) u)"
    using assms(1,2) by (intro cat_merge_contents) (simp_all add: cat_inv_def)
  show "(cat_map st ++ map_of ps) u = Some s \<longleftrightarrow> cat_contents (cat_merge ps st) (ps_schema s) u = Some s"
  proof (cases "map_of ps u")
    case None
    then show ?thesis using cat_map_contents [OF assms(1), of u s] unfolding merged by (simp add: map_add_def)
  next
    case (Some r)
    then have "\<not> known_elsewhere st (u, r)" using assms(3) by (blast dest: map_of_SomeD)
    then have "ps_schema r \<noteq> ps_schema s \<Longrightarrow> cat_contents st (ps_schema s) u = None" by (auto simp: known_elsewhere_def)
    then show ?thesis using Some unfolding merged by (auto simp: map_add_def)
  qed
qed

lemma cat_map_erase: "cat_inv st \<Longrightarrow> cat_map (cat_erase u st) = (cat_map st)(u := None)"
  using cat_erase_spec [of st u] by (intro cat_map_eqI cat_erase_inv) (auto simp: cat_inv_def cat_map_contents)

lemma cat_map_erase_all: "cat_inv st \<Longrightarrow> cat_map (fold cat_erase us st) = cat_map st |` (- set us)"
  using cat_erase_all [of st us] by (intro cat_map_eqI) (auto simp: restrict_map_def cat_map_contents)

lemma cat_map_replace:
  assumes "cat_inv st" and "distinct (map fst ps)" and "\<forall>p \<in> set ps. \<not> known_elsewhere st p"
  shows "cat_map (cat_replace us ps st) = (cat_map st |` (- set us)) ++ map_of ps"
proof -
  have "\<forall>p \<in> set ps. \<not> known_elsewhere (fold cat_erase us st) p"
    using assms(3) cat_erase_all [OF assms(1), of us] by (auto simp: known_elsewhere_def)
  then show ?thesis
    using cat_map_merge [OF _ assms(2)] cat_erase_all [OF assms(1), of us] cat_map_erase_all [OF assms(1)]
    by (simp add: cat_replace_def)
qed

lemma cat_map_initialize:
  assumes "cat_inv st" and "cat_synopses st = []" and "distinct (map fst ps)" and "cat_initialize end_of_life references ps st = Some (Inr st')"
  shows "cat_map st' = map_of ps"
proof -
  have inv: "cat_inv st'" by (rule cat_initialize_inv [OF assms])
  have fresh: "\<forall>p \<in> set ps. \<not> known_elsewhere st p" using assms(2) by (simp add: known_elsewhere_def cat_contents_def synopses_of_def)
  have "cat_contents st' t u = cat_contents (cat_merge ps st) t u" for t u
    using cat_initialize_spec [OF assms(2,3), where end_of_life = end_of_life and references = references] assms(4) by auto
  then have "cat_map st' = cat_map (cat_merge ps st)"
    using cat_map_contents [OF cat_merge_inv [OF assms(1,3) fresh]] by (intro cat_map_eqI [OF inv]) simp
  also have "\<dots> = map_of ps"
    using cat_map_merge [OF assms(1,3) fresh] assms(2) by (simp add: cat_map_def [of st] cat_all_def)
  finally show ?thesis .
qed

text \<open>The handlers that read the state answer from the map.\<close>

lemma cat_get_map:
  assumes "cat_inv st"
  shows "cat_get u (cat_synopses st) = map_option (\<lambda>ps. info_of (u, ps)) (cat_map st u)"
proof -
  have "cat_get u ms = map_option (\<lambda>ps. info_of (u, ps)) (map_of (concat (map snd ms)) u)"
    if "\<forall>(t, m) \<in> set ms. distinct (map fst m)" for ms
    using that
  proof (induction ms)
    case (Cons e ms)
    obtain t m where e: "e = (t, m)" by (cases e)
    show ?case using Cons e by (cases "map_of m u") (auto simp: map_add_def)
  qed simp
  moreover have "\<forall>(t, m) \<in> set (cat_synopses st). distinct (map fst m)"
    using assms by (auto simp: cat_inv_def cat_ok_def map_ok_def flat_ok_def strict_sorted_iff)
  ultimately show ?thesis by (simp add: cat_map_def cat_all_def)
qed

end
