(* ===== verification/Catalog_Lookup.thy ===== *)
theory Catalog_Lookup
  imports Catalog_Run
begin

text \<open>
  A lookup in the catalog returns: the rewritten query never runs into an assertion, and the pruner ends, for
  a query without NaN on partitions that are complete (an import time, named fields, shrunk synopses).
\<close>

section \<open>Queries that can be searched for\<close>

definition times_only :: "predicate \<Rightarrow> bool" where
  "times_only p \<longleftrightarrow> (\<forall>d. pred_lhs p = Meta_extractor Import_time \<longrightarrow> pred_rhs p = Data d \<longrightarrow> (\<exists>i. d = Time i))"

fun searchable :: "expression \<Rightarrow> bool" where
  "searchable None_expr = False"
| "searchable (Conjunction xs) \<longleftrightarrow> xs \<noteq> [] \<and> (\<forall>x \<in> set xs. searchable x)"
| "searchable (Disjunction xs) \<longleftrightarrow> xs \<noteq> [] \<and> (\<forall>x \<in> set xs. searchable x)"
| "searchable (Negation x) = searchable x"
| "searchable (Predicate p) \<longleftrightarrow> predicate_eq p p \<and> times_only p"

lemma searchable_ok: "searchable e \<Longrightarrow> expr_ok e" and searchable_self_equal: "searchable e \<Longrightarrow> self_equal e"
  by (induction e) auto

lemma searchable_hoist: "searchable e \<Longrightarrow> searchable (hoist e)"
proof (induction e rule: hoist_induct)
  case (Conjunction xs)
  then have "\<forall>y \<in> set (hoist_conjunction xs). searchable y" by (intro hoist_operands_all [where Q = searchable]) auto
  moreover have "hoist_conjunction xs \<noteq> []" using Conjunction.prems hoist_operands_nonempty [of xs] searchable_ok by auto
  ultimately show ?case by (auto intro: connective_ok)
next
  case (Disjunction xs)
  then have "\<forall>y \<in> set (hoist_disjunction xs). searchable y" by (intro hoist_operands_all [where Q = searchable]) auto
  moreover have "hoist_disjunction xs \<noteq> []" using Disjunction.prems hoist_operands_nonempty [of xs] searchable_ok by auto
  ultimately show ?case by (auto intro: connective_ok)
qed simp_all

lemma prune_run_length: "length result \<le> length (prune_run u result memo xs)"
proof (induction xs arbitrary: result memo)
  case (Cons x xs)
  have "length result \<le> length (prune_run u (result @ [y]) m xs)" for y m
    using Cons.IH [of "result @ [y]" m] by simp
  moreover have "length result \<le> length (prune_run u (result[i := y]) m xs)" for i y m
    using Cons.IH [of "result[i := y]" m] by simp
  ultimately show ?case by (simp split: option.split)
qed simp

lemma prune_run_nonempty: "xs \<noteq> [] \<Longrightarrow> prune_run u [] [] xs \<noteq> []"
proof (cases xs)
  case (Cons x ys)
  have "length [y] \<le> length (prune_run u [y] m ys)" for y m by (rule prune_run_length)
  then have "prune_run u [y] m ys \<noteq> []" for y m by (metis length_greater_0_conv less_le_trans length_Cons zero_less_Suc)
  then show ?thesis using Cons by (simp split: option.split)
qed simp

lemma searchable_generalize: "prunable u x \<noteq> None \<Longrightarrow> searchable x \<Longrightarrow> searchable (generalize x)"
  using memo_prunable [of u x] prunable_Predicate [of u x]
  by (auto simp: generalize_def times_only_def)

lemma searchable_prune_once: "searchable e \<Longrightarrow> searchable (prune_once u e)"
proof (induction e)
  case (Conjunction xs)
  then show ?case
    using prune_run_all [of u searchable "[]" "[]" xs] searchable_generalize prune_run_nonempty [of xs u] by simp
next
  case (Disjunction xs)
  then show ?case
    using prune_run_all [of u searchable "[]" "[]" xs] searchable_generalize prune_run_nonempty [of xs u] by simp
qed simp_all

lemma searchable_prune_loop: "searchable result \<Longrightarrow> \<exists>y. prune_loop u result e = Some y \<and> searchable y"
proof (induction result arbitrary: e rule: measure_induct_rule [of size])
  case (less result)
  show ?case
  proof (cases "expr_eq result e")
    case False
    let ?next = "hoist (prune_once u result)"
    have kept: "searchable ?next" by (intro searchable_hoist searchable_prune_once less.prems)
    have step: "prune_loop u result e = prune_loop u ?next result" using False by (simp add: prune_loop.simps [of u result e])
    from rewrite_smaller [of u result] show ?thesis
    proof
      assume "?next = result"
      then show ?thesis
        using step expr_eq_refl [OF searchable_self_equal [OF less.prems]] less.prems
        by (simp add: prune_loop.simps [of u result result])
    next
      assume "size ?next < size result"
      from less.IH [OF this kept, of result] step show ?thesis by simp
    qed
  qed (use less.prems in \<open>simp add: prune_loop.simps [of u result e]\<close>)
qed

lemma searchable_prune: "searchable e \<Longrightarrow> \<exists>y. prune e u = Some y \<and> searchable y"
  by (simp add: prune_def searchable_prune_loop searchable_prune_once)

section \<open>Taxonomies and normalization\<close>

lemma searchable_concept:
  assumes "resolve_concept_in concepts schema p = Some r" and "searchable (Predicate p)"
  shows "searchable r"
  using assms
  by (auto simp: resolve_concept_in_def resolve_concept_predicate_def predicate_eq_def operand_eq_def times_only_def
      split: operand.splits option.splits list.splits)

lemma searchable_for_each:
  "\<forall>p r. searchable (Predicate p) \<longrightarrow> f p = Inr r \<longrightarrow> searchable r \<Longrightarrow> searchable e \<Longrightarrow> for_each_predicate f e = Inr r
    \<Longrightarrow> searchable r"
  "\<forall>p r. searchable (Predicate p) \<longrightarrow> f p = Inr r \<longrightarrow> searchable r \<Longrightarrow> \<forall>x \<in> set es. searchable x \<Longrightarrow> for_each_in f es = Inr rs
    \<Longrightarrow> (\<forall>x \<in> set rs. searchable x) \<and> length rs = length es"
proof (induction f e and f es arbitrary: r and rs rule: for_each_predicate_for_each_in.induct)
  case (2 f xs)
  obtain ys where ys: "for_each_in f xs = Inr ys" "r = Conjunction ys" using "2.prems"(3) by (auto split: sum.splits)
  then show ?case using "2.IH" [OF "2.prems"(1) _ ys(1)] "2.prems"(2) by auto
next
  case (3 f xs)
  obtain ys where ys: "for_each_in f xs = Inr ys" "r = Disjunction ys" using "3.prems"(3) by (auto split: sum.splits)
  then show ?case using "3.IH" [OF "3.prems"(1) _ ys(1)] "3.prems"(2) by auto
next
  case (4 f x)
  obtain y where y: "for_each_predicate f x = Inr y" "r = Negation y" using "4.prems"(3) by (auto split: sum.splits)
  then show ?case using "4.IH" [OF "4.prems"(1) _ y(1)] "4.prems"(2) by simp
next
  case (5 f p)
  then show ?case by simp
next
  case (7 f x xs)
  obtain y ys where y: "for_each_predicate f x = Inr y" and ys: "for_each_in f xs = Inr ys" "rs = y # ys"
    using "7.prems"(3) by (auto split: sum.splits)
  have "searchable y" using "7.IH"(1) [OF "7.prems"(1) _ y] "7.prems"(2) by simp
  moreover have "(\<forall>x \<in> set ys. searchable x) \<and> length ys = length xs"
    using "7.IH"(2) [OF y "7.prems"(1) _ ys(1)] "7.prems"(2) by simp
  ultimately show ?case using ys(2) by simp
qed simp_all

lemma searchable_taxonomies:
  assumes "resolve_taxonomies concepts e schema = Some r" and "searchable e"
  shows "searchable r"
proof -
  let ?f = "\<lambda>p. case resolve_concept_in concepts schema p of None \<Rightarrow> Inl () | Some r \<Rightarrow> Inr r"
  have "\<forall>p r. searchable (Predicate p) \<longrightarrow> ?f p = Inr r \<longrightarrow> searchable r"
    by (auto dest: searchable_concept split: option.splits)
  moreover have "for_each_predicate ?f e = Inr r" using assms(1) by (simp add: resolve_taxonomies_def split: sum.splits)
  ultimately show ?thesis using searchable_for_each(1) [of ?f e r] assms(2) by blast
qed

lemma predicate_eq_swap: "predicate_eq p p \<Longrightarrow> predicate_eq (align_predicate p) (align_predicate p)"
  by (auto simp: predicate_eq_def align_predicate_def)

lemma self_equal_align: "self_equal e \<Longrightarrow> self_equal (align e)"
  by (induction e) (auto intro: predicate_eq_swap)

lemma self_equal_denegate: "self_equal e \<Longrightarrow> self_equal (denegate neg e)"
  by (induction neg e rule: denegate.induct) (auto simp: predicate_eq_def split: expression.splits)

lemma self_equal_dedup: "self_equal e \<Longrightarrow> self_equal (dedup e)"
proof (induction e)
  case (Conjunction xs)
  then show ?case using dedup_operands_set [of "[]" xs] by auto
next
  case (Disjunction xs)
  then show ?case using dedup_operands_set [of "[]" xs] by auto
qed simp_all

lemma self_equal_normalize: "self_equal e \<Longrightarrow> self_equal (normalize e)"
  by (simp add: normalize_def hoist_self_equal self_equal_dedup self_equal_denegate self_equal_align)

lemma validate_searchable:
  "validate e = Inr () \<Longrightarrow> expr_ok e \<Longrightarrow> self_equal e \<Longrightarrow> searchable e"
  "validate_all es = Inr () \<Longrightarrow> \<forall>x \<in> set es. expr_ok x \<and> self_equal x \<Longrightarrow> \<forall>x \<in> set es. searchable x"
proof (induction e and es rule: validate_validate_all.induct)
  case (5 p)
  then have "times_only p"
    by (auto simp: times_only_def validate_predicate_def validate_meta_def split: data.splits if_splits)
  then show ?case using 5 by simp
qed (auto split: sum.splits)

lemma normalized_searchable:
  assumes "normalize_and_validate e = Inr n" and "expr_ok e" and "self_equal e"
  shows "searchable n"
proof -
  have "validate n = Inr ()" "n = normalize e"
    using assms(1) by (auto simp: normalize_and_validate_def Let_def split: sum.splits)
  then show ?thesis using validate_searchable(1) normalize_ok [OF assms(2)] self_equal_normalize [OF assms(3)] by simp
qed

section \<open>Partitions that can be searched\<close>

fun plain_synopsis :: "any_synopsis \<Rightarrow> bool" where
  "plain_synopsis (Buffered_string _) = False"
| "plain_synopsis (Buffered_ip _) = False"
| "plain_synopsis _ = True"

definition complete_partition :: "partition_synopsis \<Rightarrow> bool" where
  "complete_partition ps \<longleftrightarrow> ps_min_import_time ps \<le> ps_max_import_time ps
    \<and> (\<forall>(f, s) \<in> set (ps_field_synopses ps). qf_field_name f \<noteq> [] \<and> pred_option plain_synopsis s)
    \<and> (\<forall>(t, s) \<in> set (ps_type_synopses ps). pred_option plain_synopsis s)"

lemma plain_lookup: "plain_synopsis s \<Longrightarrow> may_match env s op rhs \<noteq> None"
  by (cases s) (auto simp: may_match_def)

lemma keeps_returns:
  assumes "complete_partition ps" and "(f, s) \<in> set (ps_field_synopses ps)"
  shows "keeps_partition env ps f s op rhs \<noteq> None"
proof (cases s)
  case None
  have "plain_synopsis s'" if "map_of (ps_type_synopses ps) t = Some (Some s')" for t s'
    using assms(1) map_of_SomeD [OF that] by (fastforce simp: complete_partition_def)
  then show ?thesis using None plain_lookup by (auto simp: keeps_partition_def simp del: not_None_eq split: option.split)
next
  case (Some s')
  then have "plain_synopsis s'" using assms by (fastforce simp: complete_partition_def)
  then show ?thesis using Some plain_lookup by (simp add: keeps_partition_def)
qed

lemma search_fields_returns:
  "complete_partition ps \<Longrightarrow> set fs \<subseteq> set (ps_field_synopses ps) \<Longrightarrow>
    (\<And>f. qf_field_name f \<noteq> [] \<Longrightarrow> matches f \<noteq> None) \<Longrightarrow> search_fields env ps matches op rhs fs \<noteq> None"
proof (induction fs)
  case (Cons e fs)
  obtain f s where e: "e = (f, s)" by (cases e)
  then have mem: "(f, s) \<in> set (ps_field_synopses ps)" using Cons.prems(2) by simp
  then have "qf_field_name f \<noteq> []" using Cons.prems(1) by (auto simp: complete_partition_def)
  then obtain b where b: "matches f = Some b" using Cons.prems(3) by blast
  obtain k where "keeps_partition env ps f s op rhs = Some k" using keeps_returns [OF Cons.prems(1) mem] by blast
  then show ?case using Cons b e by (cases b; cases k) auto
qed simp

lemma select_returns: "(\<And>p. p \<in> set m \<Longrightarrow> check p \<noteq> None) \<Longrightarrow> select_partitions check m \<noteq> None"
  by (induction m) (auto split: option.split)

lemma search_returns:
  assumes "\<forall>p \<in> set m. complete_partition (snd p)" and "\<And>f. qf_field_name f \<noteq> [] \<Longrightarrow> matches f \<noteq> None"
  shows "search env m matches op rhs \<noteq> None"
  unfolding search_def by (intro select_returns search_fields_returns) (use assms in auto)

lemma lookup_predicate_returns:
  assumes "\<forall>p \<in> set m. complete_partition (snd p)" and "times_only p"
  shows "lookup_predicate env t m p \<noteq> None"
proof -
  have "search (ce_synopses env) m (match_field key op d) op d \<noteq> None" for key op d
    using assms(1) by (intro search_returns) (auto simp: match_field_def is_standalone_type_def)
  moreover have "search (ce_synopses env) m (match_type u op d) op d \<noteq> None" for u op d
    using assms(1) by (intro search_returns) (auto simp: match_type_def)
  moreover have "lookup_meta env t m k op d \<noteq> None" if "k = Import_time \<longrightarrow> (\<exists>i. d = Time i)" for k op d
  proof (cases k)
    case Import_time
    with that have "\<exists>i. d = Time i" by simp
    then obtain i where "d = Time i" ..
    moreover have "select_partitions (\<lambda>p. check_import_time (snd p) op (Time i)) m \<noteq> None"
      using assms(1) by (intro select_returns) (fastforce simp: check_import_time_def complete_partition_def)
    ultimately show ?thesis using Import_time by (simp add: lookup_meta_def)
  qed (simp_all add: lookup_meta_def select_returns del: not_None_eq)
  ultimately show ?thesis
    using assms(2) by (simp add: lookup_predicate_def times_only_def del: not_None_eq split: operand.split)
qed

lemma lookup_infos_returns:
  "\<forall>p \<in> set m. complete_partition (snd p) \<Longrightarrow> searchable e \<Longrightarrow> lookup_infos env t m e \<noteq> None"
  "\<forall>p \<in> set m. complete_partition (snd p) \<Longrightarrow> \<forall>x \<in> set es. searchable x \<Longrightarrow> lookup_rest env t m result es \<noteq> None"
  "\<forall>p \<in> set m. complete_partition (snd p) \<Longrightarrow> \<forall>x \<in> set es. searchable x \<Longrightarrow> lookup_any env t m result es \<noteq> None"
proof (induction env t m e and env t m result es and env t m result es
    rule: lookup_infos_lookup_rest_lookup_any.induct)
  case (2 env t m xs)
  then show ?case by (cases xs) (auto simp del: not_None_eq split: option.split)
next
  case (5 env t m p)
  then show ?case using lookup_predicate_returns by simp
qed (auto simp del: not_None_eq split: option.split)

section \<open>The lookup returns\<close>

definition cat_complete :: "catalog_state \<Rightarrow> bool" where
  "cat_complete st \<longleftrightarrow> (\<forall>(t, m) \<in> set (cat_synopses st). as_record t \<noteq> None \<and> (\<forall>p \<in> set m. complete_partition (snd p)))"

lemma lookup_schema_returns:
  assumes "cat_complete st" and "t \<in> set (map fst (cat_synopses st))" and "searchable n"
  shows "lookup_schema env srt st n t \<noteq> None"
proof -
  obtain m where m: "map_of (cat_synopses st) t = Some m" "(t, m) \<in> set (cat_synopses st)"
    using assms(2) by (metis in_set_zipE map_of_SomeD map_of_eq_None_iff not_Some_eq set_map)
  then have t: "as_record t \<noteq> None" "\<forall>p \<in> set m. complete_partition (snd p)" using assms(1) by (auto simp: cat_complete_def)
  obtain resolved where r: "resolve_taxonomies (cat_concepts st) n t = Some resolved"
    using resolve_taxonomies_returns t(1) by blast
  obtain pruned where p: "prune resolved (\<lambda>name. name \<in> set (cat_unprunable st)) = Some pruned" "searchable pruned"
    using searchable_prune [OF searchable_taxonomies [OF r assms(3)]] by blast
  show ?thesis
    using lookup_infos_returns(1) [OF t(2) p(2), of env t] m(1) r p(1)
    by (simp add: lookup_schema_def lookup_impl_def)
qed

lemma lookup_schemas_returns:
  assumes "cat_complete st" and "searchable n"
  shows "set ts \<subseteq> set (map fst (cat_synopses st)) \<Longrightarrow> lookup_schemas env srt st n ts \<noteq> None"
proof (induction ts)
  case (Cons t ts)
  then obtain c r where "lookup_schema env srt st n t = Some c" "lookup_schemas env srt st n ts = Some r"
    using lookup_schema_returns [OF assms(1) _ assms(2), of t env srt] by auto
  then show ?case by simp
qed simp

lemma cat_lookup_returns:
  assumes "cat_complete st" and "expr_ok e" and "self_equal e" and "validate (normalize e) = Inr ()" and "e \<noteq> None_expr"
  shows "\<exists>r. cat_lookup env srt st e = Some (Inr r)"
proof -
  have n: "normalize_and_validate e = Inr (normalize e)" using assms(4) by (simp add: normalize_and_validate_def)
  obtain r where "lookup_schemas env srt st (normalize e) (map fst (cat_synopses st)) = Some r"
    using lookup_schemas_returns [OF assms(1) normalized_searchable [OF n assms(2,3)] order_refl] by blast
  then show ?thesis using n assms(5) by (simp add: cat_lookup_def)
qed

text \<open>A query that does not pass validation is answered with an error, whatever the catalog holds.\<close>

lemma cat_lookup_invalid:
  assumes "validate (normalize e) \<noteq> Inr ()" and "e \<noteq> None_expr"
  shows "cat_lookup env srt st e = Some (Inl (Invalid_argument ''failed to normalize and validate expression''))"
  using assms by (auto simp: cat_lookup_def normalize_and_validate_def Let_def split: sum.splits)

end
