(* ===== verification/Spec2Isabelle.thy ===== *)
theory Spec2Isabelle
  imports Container_Properties Pipeline_Properties Tokens Query_Run Catalog_Lookup "HOL-Library.Product_Lexorder"
begin

text \<open>
  The query path of Tenzir, modelled and proved: the bitmap indexes with their ID sets, the containers
  that the index keeps its state in, the values, types and expressions that queries are made of, the
  catalog that rules partitions out, the queue that schedules the partitions that are left, the
  evaluation of a query on the slices of a partition, and operators that process the slices that it
  yields. Paths without a directory are under \<^verbatim>\<open>libtenzir/include/tenzir\<close> and \<^verbatim>\<open>libtenzir/src\<close>. The theories are
  translations of the C++ sources: every class is a record or a datatype, every function a definition
  with its name, every loop a recursive function.

  \<^bold>\<open>The parts and how they interact.\<close>

  A query is an expression over fields and types (\<open>Expression\<close>, on the values of \<open>Data_Value\<close>, the
  addresses of \<open>Ip_Subnet\<close>, the operators of \<open>Relational_Operator\<close>). It is normalized, and concepts in it
  are replaced by the fields they stand for (\<open>Taxonomies\<close>). The catalog (\<open>Catalog\<close>) rewrites it further
  (\<open>Prune\<close>) and looks it up in the synopses of every partition (\<open>Partition_Synopsis\<close>, built from
  \<open>Synopsis\<close> and \<open>Bloom_Filter\<close>); candidates of several predicates are combined by set operations on
  sorted vectors (\<open>Sorted_Sets\<close>). For every schema that has candidates the catalog tailors the expression
  (\<open>Tailor\<close>), which resolves names against the leaves of the schema's record (\<open>Type_Model\<close>, \<open>Record_Leaves\<close>,
  \<open>Field_Resolution\<close>). The result (\<open>Lookup_Result\<close>) is inserted into the queue of the index
  (\<open>Query_Queue\<close>), which hands out partitions together with the queries that wait for them. Inside a
  partition, positions of events are sets of IDs (\<open>Ids\<close>), that is, bitmaps: compressed (\<open>Ewah\<close>, \<open>Wah\<close>)
  or not (\<open>Null_Bitmap\<close> over \<open>Bitvector\<close>), on which generic algorithms run (\<open>Binary_Eval\<close>, \<open>Nary_Eval\<close>,
  \<open>Bitmap_Query\<close>, \<open>Bitwise_Range\<close>, \<open>Select_Range\<close>). A store keeps its events in table slices (\<open>Table_Slice\<close>).
  It tailors the query to the schema of every slice, evaluates it to the set of IDs of the events that match,
  and cuts these out of the slice (\<open>Evaluate\<close>). Pipelines consume such slices: operators (\<open>Slice_Operator\<close>,
  \<open>Batch_Operator\<close>, \<open>Deduplicate\<close>) are functions from the slices that they consume to those that they yield.

  \<^bold>\<open>Theories and sources.\<close>

  Words and bits:
  \<^item> \<open>Prelude\<close>: the block type, \<open>npos\<close>, assertions as options, words as lists of bits; the collection
    \<open>bits_of_simps\<close> and the generic lemmas.
  \<^item> \<open>Word_Ops\<close>, \<open>Bits\<close>: \<^verbatim>\<open>word.hpp\<close> and \<^verbatim>\<open>bits.hpp\<close>. \<open>Bit_Spec\<close>: the reference semantics, positions in
    lists of bits.
  \<^item> \<open>Bitvector\<close>, \<open>Bitvector_Iter\<close>: \<^verbatim>\<open>bitvector.hpp\<close>.

  Bitmaps:
  \<^item> \<open>Bitmap_Base\<close>: the concept in \<^verbatim>\<open>bitmap_base.hpp\<close>, a record of operations and the locales
    \<open>appendable\<close>, \<open>iterable\<close> and \<open>proper\<close>, each an extension of the one before.
  \<^item> \<open>Ewah\<close>, \<open>Ewah_Refinement\<close>, \<open>Ewah_Range\<close>, \<open>Ewah_Bitmap\<close>: \<^verbatim>\<open>ewah_bitmap.{hpp,cpp}\<close>. \<open>Wah\<close>,
    \<open>Wah_Refinement\<close>, \<open>Wah_Bitmap\<close>: \<^verbatim>\<open>wah_bitmap.{hpp,cpp}\<close>. \<open>Null_Bitmap\<close>: \<^verbatim>\<open>null_bitmap.{hpp,cpp}\<close>.
    \<open>Any_Bitmap\<close>: the variant of \<^verbatim>\<open>bitmap.{hpp,cpp}\<close>. All interpret the locales.
  \<^item> \<open>Binary_Eval\<close>, \<open>Nary_Eval\<close>, \<open>Bitmap_Query\<close>, \<open>Bitwise_Range\<close>, \<open>Select_Range\<close>:
    \<^verbatim>\<open>bitmap_algorithms.hpp\<close>, proved inside the locales for every bitmap type.
  \<^item> \<open>Ids\<close>: \<^verbatim>\<open>ids.{hpp,cpp}\<close>. \<open>Bitmap_Serialization\<close>: the FlatBuffers tables, \<open>pack\<close> and \<open>unpack\<close>.

  Containers (\<^verbatim>\<open>detail/\<close>):
  \<^item> \<open>Range_Map\<close>: \<^verbatim>\<open>range_map.hpp\<close>. \<open>Vector_Map\<close>: \<^verbatim>\<open>vector_map.hpp\<close>, \<^verbatim>\<open>vector_set.hpp\<close> and the stable and flat
    policies, whose contract is a locale. \<open>Lru_Cache\<close>: \<^verbatim>\<open>lru_cache.hpp\<close>, \<^verbatim>\<open>flat_lru_cache.hpp\<close>.
    \<open>Sorted_Sets\<close>: \<^verbatim>\<open>set_operations.hpp\<close>.
  \<^item> \<open>Container_Properties\<close>: the properties of the bitmaps and the containers.

  Values, types, expressions:
  \<^item> \<open>Ip_Subnet\<close>: \<^verbatim>\<open>ip.{hpp,cpp}\<close>, \<^verbatim>\<open>subnet.{hpp,cpp}\<close>. \<open>Relational_Operator\<close>: \<^verbatim>\<open>operator.{hpp,cpp}\<close>.
    \<open>Data_Value\<close>: \<^verbatim>\<open>data.{hpp,cpp}\<close>, comparison and evaluation of predicates.
  \<^item> \<open>Type_Model\<close>: \<^verbatim>\<open>type.{hpp,cpp}\<close>, construction, names and attributes, congruence, type checks, inference.
    \<open>Record_Leaves\<close>: the traversals of the leaves of a record, offsets, keys and flat indexes.
    \<open>Field_Resolution\<close>: field and type extractors.
  \<^item> \<open>Expression\<close>: \<^verbatim>\<open>expression.{hpp,cpp}\<close>, \<^verbatim>\<open>expression_visitors.cpp\<close> (hoisting, normalization, validation).
    \<open>Prune\<close>: \<^verbatim>\<open>prune.cpp\<close>. \<open>Tailor\<close>: the type resolver and the matcher. \<open>Taxonomies\<close>: \<^verbatim>\<open>taxonomies.cpp\<close>.

  Catalog and queue:
  \<^item> \<open>Synopsis\<close>: \<^verbatim>\<open>synopsis.hpp\<close>, \<^verbatim>\<open>min_max_synopsis.hpp\<close>, \<^verbatim>\<open>bool_synopsis.cpp\<close>; the contract of a synopsis is a
    locale. \<open>Bloom_Filter\<close>: \<^verbatim>\<open>bloom_filter.hpp\<close>, \<^verbatim>\<open>hasher.hpp\<close> and the synopses over them.
    \<open>Partition_Synopsis\<close>: \<^verbatim>\<open>partition_synopsis.cpp\<close>.
  \<^item> \<open>Catalog\<close>: the state and the handlers of \<^verbatim>\<open>catalog.cpp\<close>. \<open>Catalog_Run\<close>: the handlers as a step relation,
    the reachable states, and the refinement of a finite map. \<open>Catalog_Lookup\<close>: why a lookup returns.
  \<^item> \<open>Lookup_Result\<close>, \<open>Query_Queue\<close>: \<^verbatim>\<open>query_queue.{hpp,cpp}\<close>. \<open>Query_Queue_Inv\<close>: its invariant, kept by every
    operation. \<open>Query_Run\<close>: the queue with the lookups in flight as a step relation.

  Slices and operators:
  \<^item> \<open>Table_Slice\<close>: \<^verbatim>\<open>table_slice.{hpp,cpp}\<close>, subslices, splitting, concatenation. \<open>Evaluate\<close>: \<^verbatim>\<open>evaluate.cpp\<close>, the
    selection, filtering and counting of \<^verbatim>\<open>table_slice.cpp\<close> and the extraction of \<^verbatim>\<open>store.cpp\<close>.
  \<^item> \<open>Slice_Operator\<close>, \<open>Batch_Operator\<close>, \<open>Deduplicate\<close>: \<^verbatim>\<open>slice.cpp\<close>, \<^verbatim>\<open>batch.cpp\<close> and \<^verbatim>\<open>deduplicate.cpp\<close> of
    \<^verbatim>\<open>libtenzir/builtins/operators\<close>.
  \<^item> \<open>Pipeline_Properties\<close>: their properties.

  The language:
  \<^item> \<open>Tokens\<close>: \<^verbatim>\<open>tql2/tokens.{hpp,cpp}\<close> with the combinators of \<^verbatim>\<open>concept/parseable\<close> that the lexer of TQL, the language
    of pipelines, is made of, and its property.

  \<^bold>\<open>What is shown.\<close>

  The central safety property is that the catalog never rules out a partition that holds a matching
  event, for the whole composition of the rewritings, the synopses and the set operations
  (\<open>catalog_no_false_negatives\<close>). What it means that an event matches is stated apart from the code
  (\<open>event_holds\<close>, \<open>names_field\<close>). It holds under conditions, which are its hypotheses: the partitions of the catalog
  are complete (their import times are set, their synopses are not buffered any more), the query is valid and free of NaN and of memberships, and of
  the columns only strings can be compared with strings. Inputs outside of the conditions on which the code breaks it, or
  loops, have theorems of their own (\<open>membership_false_negative\<close>, \<open>prune_diverges_for_nan\<close>, \<open>nested_names_are_lost\<close>
  for the names that only the tailoring knows, \<open>pruning_loses_enumerations\<close>). The queue keeps an accounting law in every
  reachable state, never throws, and every run of its work is bounded and ends drained (\<open>queue_never_panics\<close>,
  \<open>queue_accounting\<close>, \<open>queue_drains\<close>), except for a query without candidates,
  which is never completed. The catalog refines a finite map. Rewritings preserve the meaning of expressions
  (\<open>normalize_correct\<close>; \<open>tailor_correct\<close> for queries without negations, against the columns that the extractors name).
  Every traversal of nested records agrees with one recursive list of
  leaves. Every bitmap refines a list of bits, and every algorithm on bitmaps a function of lists. Maps and
  caches refine partial functions. Filtering a slice yields exactly the events for which the query holds
  (\<open>filter_correct\<close>, \<open>store_extract_correct\<close>); the operators do what a function of the list of all events
  says, however the events are cut into slices (\<open>slice_operator_correct\<close> for strides up to two and all ranges but one kind,
  \<open>batch_correct\<close>, \<open>deduplicate_correct\<close>), with the exceptions that are shown beside them (\<open>slice_depends_on_batches\<close>,
  \<open>slice_looks_at_first_batch\<close>). The lexer returns for every input, because each of its repetitions consumes, and loses no
  character (\<open>tokenize_correct\<close>). Where the code does not do what its comments or tests say, the theorem
  states the behaviour on the inputs that show it.

  \<^bold>\<open>How the code is read.\<close>

  \<^item> Assertions, undefined behaviour and exceptions are values: \<open>None\<close>, or \<open>Inl\<close> of an error where the code
    returns one. A function without them is total.
  \<^item> Loops end by structural recursion or by a measure. No fuel is used. Iterations that only end for some
    inputs are partial functions, and their termination is proved for stated inputs (the pruner, the
    ranges over one bit value, the erasure from a range map, the repetition of a parser, the draw of an unused id), or
    their divergence on an input. The only recursion
    bound is the one of the code, 100 for concepts.
  \<^item> Blocks, digests, positions that can be \<open>npos\<close> and shifted quantities are 64-bit words. Sizes of vectors are
    natural numbers: a vector of \<open>2 ^ 64\<close> elements does not exist. Where an answer may coincide with \<open>npos\<close>, the
    lemma bounds the number of bits. A shift by the word size or more is undefined in C++; the lemmas ask for less.
  \<^item> A vector is a list, an iterator an index or a split of the list, an unordered map the list of its entries in
    an arbitrary order, an ordered map its ascending entries, a generator or a range the list of what it yields.
    Iterators that survive modification (\<^verbatim>\<open>std::list\<close>) carry the identity of a node.
  \<^item> \<^verbatim>\<open>std::sort\<close> and \<^verbatim>\<open>std::priority_queue\<close> leave open how equivalent elements are ordered. A sort is an argument with the
    documented law (\<open>sorts_entries\<close>, \<open>sorts_infos\<close>); the reduction of bitmaps is
    also a relation (\<open>nary_run\<close>) that allows every choice among the smallest bitmaps.
  \<^item> Types are the contents of their FlatBuffers tables. A UUID is a 128-bit word, a time a number of nanoseconds.
    Doubles are 64-bit patterns, with the comparison of IEEE 754.
  \<^item> Functions of other libraries are parameters: the hash function (XXH64), regular expressions (RE2), the
    parameters of a Bloom filter for a desired error rate, and the fingerprint of a schema. So are how one cell
    is compared with a value (the overloads of \<^verbatim>\<open>cell_evaluator\<close> with the implicit conversions of C++ between all
    alternatives) and the projection of \<open>deduplicate\<close>, which works on Arrow arrays.
  \<^item> The rows of a slice are a list, for queries each the list of its leaves. Readings of a clock come with the
    slices that an operator consumes. Positions of type \<open>int64_t\<close> are integers: no stream has \<open>2 ^ 63\<close> events.

  \<^bold>\<open>What is not modelled, and why.\<close>

  Actors are modelled by their handlers and by the orders in which the handlers may run, not by CAF itself.
  The execution of pipelines, the other operators and, behind the lexer, the TQL2 compiler work on Arrow arrays and on futures of CAF;
  parsers and printers are
  a library of expression templates; stores, formats, loaders and connectors are input and output; the
  command line, the configuration and the logging carry no state of the query path. Third-party and vendored
  code is a parameter where the model uses it.
\<close>

section \<open>Samples for the witnesses\<close>

definition sample_engine :: regex_engine where
  "sample_engine = \<lparr>full_match = \<lambda>_ _. False, partial_match = \<lambda>_ _. False\<rparr>"

definition sample_synopses :: synopsis_env where
  "sample_synopses = \<lparr>env_hash_string = \<lambda>seed s. seed + of_nat (length s), env_hash_ip = \<lambda>seed a. seed,
    env_annotated = \<lambda>_. None, env_filter = \<lambda>_ _. None\<rparr>"

definition sample_env :: catalog_env where
  "sample_env = \<lparr>ce_engine = sample_engine, ce_fingerprint = \<lambda>_. ''f'', ce_synopses = sample_synopses\<rparr>"


definition sample_schema :: ty where
  "sample_schema = Enriched_type (Record_type [(''a'', Int64_type)]) ''s'' []"

definition sample_field :: qualified_field where
  "sample_field = \<lparr>qf_schema_name = ''s'', qf_field_name = ''a'', qf_type = Int64_type\<rparr>"

definition sample_partition :: partition_synopsis where
  "sample_partition = (ps_new 2)\<lparr>ps_events := 3, ps_min_import_time := 5, ps_max_import_time := 9, ps_schema := sample_schema,
     ps_type_synopses := [(Int64_type, None)],
     ps_field_synopses := [(sample_field, Some (Int64_synopsis \<lparr>mm_min = 1, mm_max = 3\<rparr>))]\<rparr>"


definition sample_catalog :: catalog_state where
  "sample_catalog = cat_merge [(1, sample_partition)] (catalog_new [])"

definition sample_query :: "int \<Rightarrow> expression" where
  "sample_query i = Predicate \<lparr>pred_lhs = Field_extractor ''a'', pred_op = Equal, pred_rhs = Data (Int64 i)\<rparr>"

definition sort_infos :: "info list \<Rightarrow> info list" where
  "sort_infos = sort_key (\<lambda>i. - pi_max_import_time i)"

definition sort_entries :: "'t queue_entry list \<Rightarrow> 't queue_entry list" where
  "sort_entries = sort_key (\<lambda>e. (e_priority e, length (e_queries e)))"


lemma sorts_entries_sort: "sorts_entries sort_entries"
proof -
  have "sorted_wrt (\<lambda>x y. \<not> entry_less y x) (sort_entries xs)" for xs :: "'a queue_entry list"
    using sorted_sort_key [of "\<lambda>e. (e_priority e, length (e_queries e))" xs]
    by (auto simp: sort_entries_def sorted_map entry_less_def less_eq_prod_def elim!: sorted_wrt_mono_rel [rotated])
  then show ?thesis by (simp add: sorts_entries_def) (simp add: sort_entries_def)
qed

lemma sample_schema_simps [simp]:
  "as_record sample_schema = Some [(''a'', Int64_type)]" "type_name sample_schema = ''s''" "has_type sample_schema"
  by (simp_all add: sample_schema_def as_record_def has_type_def)

lemma sample_known: "\<not> known_elsewhere (catalog_new cs) p"
  by (simp add: known_elsewhere_def catalog_new_def cat_contents_def synopses_of_def)

lemma sample_reach: "cat_reach sample_catalog"
proof -
  have "cat_step (catalog_new []) sample_catalog"
    unfolding sample_catalog_def by (rule step_merge) (simp_all add: sample_known)
  then show ?thesis by (rule reach_step [OF reach_new])
qed

lemma flat_assign_empty: "vm_assign (flat_map_policy (<)) d [] k v = [(k, v)]"
  by (simp add: vm_assign_def vm_index_def flat_map_policy_def flat_map_add_def vm_find_def vm_insert_hint_def
      vm_insert_def flat_map_lookup_def vec_insert_def find_index_def)

lemma sample_partition_simps [simp]:
  "ps_schema sample_partition = sample_schema" "ps_min_import_time sample_partition = 5" "ps_max_import_time sample_partition = 9"
  "ps_type_synopses sample_partition = [(Int64_type, None)]"
  "ps_field_synopses sample_partition = [(sample_field, Some (Int64_synopsis \<lparr>mm_min = 1, mm_max = 3\<rparr>))]"
  by (simp_all add: sample_partition_def ps_new_def)

lemma sample_field_simps [simp]: "qf_schema_name sample_field = ''s''" "qf_field_name sample_field = ''a''" "qf_type sample_field = Int64_type"
  by (simp_all add: sample_field_def)

lemma sample_catalog_eq: "sample_catalog = \<lparr>cat_synopses = [(sample_schema, [(1, sample_partition)])], cat_unprunable = [], cat_concepts = []\<rparr>"
  by (simp add: sample_catalog_def cat_merge_def merge_one_def Let_def update_unprunable_fields_def catalog_new_def
      synopses_of_def flat_assign_empty)

lemma sample_catalog_map: "cat_map sample_catalog 1 = Some sample_partition"
  by (simp add: cat_map_def cat_all_def sample_catalog_eq)




lemma sample_compatible: "compatible Int64_type Equal (Int64 i)"
  by (simp add: compatible.simps congruent_data.simps has_type_def numeric_pair_def)

lemma sample_query_simps [simp]:
  "normalize (sample_query i) = sample_query i" "expr_ok (sample_query i)" "self_equal (sample_query i)"
  "validate (sample_query i) = Inr ()" "sample_query i \<noteq> None_expr"
  by (simp_all add: sample_query_def normalize_def align_predicate_def is_extractor_def validate_predicate_def
      predicate_eq_def operand_eq_def data_eq.simps leaf_eq_def)




section \<open>The catalog\<close>



text \<open>C6: the catalog implements a finite map from partition ids to synopses. In every reachable state,
  merging extends the map, erasing and replacing restrict it, and a request for an id is answered from it;
  messages never bring a known id under another schema.\<close>

theorem catalog_is_a_map:
  assumes "cat_reach st" and "distinct (map fst ps)" and "\<forall>p \<in> set ps. \<not> known_elsewhere st p"
  shows "cat_map (cat_merge ps st) = cat_map st ++ map_of ps
    \<and> cat_map (cat_erase u st) = (cat_map st)(u := None)
    \<and> cat_map (cat_replace us ps st) = (cat_map st |` (- set us)) ++ map_of ps
    \<and> cat_get u (cat_synopses st) = map_option (\<lambda>s. info_of (u, s)) (cat_map st u)"
  using cat_reach_inv [OF assms(1)] assms(2,3) by (simp add: cat_map_merge cat_map_erase cat_map_replace cat_get_map)

theorem catalog_is_a_map_witness:
  "cat_map (cat_merge [(2, sample_partition)] sample_catalog) 1 = Some sample_partition
    \<and> cat_map (cat_erase 1 sample_catalog) 1 = None"
proof -
  have "known_elsewhere sample_catalog (2, sample_partition) = False"
    by (simp add: known_elsewhere_def sample_catalog_eq cat_contents_def synopses_of_def)
  then show ?thesis
    using catalog_is_a_map [OF sample_reach, of "[(2, sample_partition)]" 1 "[]"] sample_catalog_map by (simp add: map_add_def)
qed

text \<open>C7: the initial load of an empty catalog either names exactly the partitions whose version is not
  supported any more, or has the same result as merging the partitions one by one: the map of them. It fails its
  assertion only if some synopsis is shared.\<close>

theorem catalog_initial_load:
  assumes "cat_reach st" and "cat_synopses st = []" and "distinct (map fst ps)"
  shows "case cat_initialize end_of_life references ps st of
      None \<Rightarrow> \<not> list_all (\<lambda>p. references (fst p) = 1) ps
    | Some (Inl us) \<Rightarrow> us \<noteq> [] \<and> us = map fst (filter (\<lambda>p. end_of_life (ps_version (snd p))) ps)
    | Some (Inr st') \<Rightarrow> cat_map st' = map_of ps \<and> (\<forall>t u. cat_contents st' t u = cat_contents (cat_merge ps st) t u)"
  using cat_initialize_spec [OF assms(2,3), where end_of_life = end_of_life and references = references]
    cat_map_initialize [OF cat_reach_inv [OF assms(1)] assms(2,3), where end_of_life = end_of_life and references = references]
  by (auto split: option.splits sum.splits)

theorem catalog_initial_load_witness:
  "case cat_initialize (\<lambda>v. v < 2) (\<lambda>_. 1) [(1, sample_partition)] (catalog_new []) of
     Some (Inr st) \<Rightarrow> cat_map st 1 = Some sample_partition | _ \<Rightarrow> False"
proof -
  have "\<exists>st. cat_initialize (\<lambda>v. v < 2) (\<lambda>_. 1) [(1, sample_partition)] (catalog_new []) = Some (Inr st)"
    by (simp add: cat_initialize_def Let_def sample_partition_def ps_new_def)
  then show ?thesis
    using catalog_initial_load [OF reach_new, where concepts1 = "[]" and ps = "[(1, sample_partition)]" and end_of_life = "\<lambda>v. v < 2"
        and references = "\<lambda>_. 1"] by (auto simp: catalog_new_def)
qed

section \<open>The queue of queries\<close>

text \<open>C2: in every state that the queue can reach, whatever the order of its operations, none of its
  assertions fails: neither when a lookup in flight completes, nor when a partition is marked as erased, nor
  when a query with fresh counters and distinct candidates is inserted.\<close>

theorem queue_never_panics:
  fixes q :: "('t, 'e, 'a) query_queue" and candidates :: "('t, 'e) catalog_lookup_result"
  assumes "qq_reach srt (q, fl)" and "sorts_entries srt"
  shows "(qid \<in># fl \<longrightarrow> qq_handle_completion qid q \<noteq> None)
    \<and> qq_mark_partition_erased pid q \<noteq> None
    \<and> (qs_contexts s = (t, c) # cs \<longrightarrow> scheduled_partitions s = 0 \<longrightarrow> distinct (map snd (clr_partitions candidates))
        \<longrightarrow> qq_insert srt s candidates q \<noteq> None)"
  using reach_no_panic(1) [OF assms, of qid] reach_no_panic(2) [OF assms, of pid]
    reach_no_panic(3) [OF assms, of s t c cs candidates] by blast

definition sample_context :: "unit query_context" where
  "sample_context = \<lparr>qc_id = 7, qc_expr = (), qc_priority = 100\<rparr>"

definition sample_state :: "(unit, unit, unit) query_state" where
  "sample_state = \<lparr>qs_contexts = [((), sample_context)], qs_client = (), candidate_partitions = 2,
    requested_partitions = 1, scheduled_partitions = 0, completed_partitions = 0\<rparr>"

definition sample_info :: "uuid \<Rightarrow> unit partition_info" where
  "sample_info u = \<lparr>pi_uuid = u, pi_events = 1, pi_max_import_time = 0, pi_schema = (), pi_version = 2\<rparr>"

definition sample_candidates :: "(unit, unit) catalog_lookup_result" where
  "sample_candidates = [((), \<lparr>ci_exp = (), ci_infos = [sample_info 1, sample_info 2]\<rparr>)]"

definition sample_entry :: "uuid \<Rightarrow> unit queue_entry" where
  "sample_entry u = \<lparr>e_partition = u, e_schema = (), e_priority = 100, e_queries = [7], e_erased = False\<rparr>"

definition sample_queue :: "(unit, unit, unit) query_queue" where
  "sample_queue = \<lparr>qq_queries = [(7, sample_state)], qq_partitions = [sample_entry 1, sample_entry 2], qq_inactive = []\<rparr>"

lemma sample_insert: "qq_insert sort_entries sample_state sample_candidates qq_new = Some (None, sample_queue)"
proof -
  have "sort_entries [sample_entry 1, sample_entry 2] = [sample_entry 1, sample_entry 2]"
    by (simp add: sort_entries_def sample_entry_def)
  then show ?thesis
    by (simp add: qq_insert_def clr_empty_def clr_size_def sample_candidates_def sample_state_def Let_def sample_context_def
        qq_new_def clr_partitions_def sample_info_def qq_add_candidate_def split_first_def sample_entry_def sample_queue_def)
qed

lemma sample_queue_reach: "qq_reach sort_entries (sample_queue, {#})"
  by (rule qq_reach.reach_step [OF qq_reach.reach_new step_insert [OF _ _ _ _ _ sample_insert]])
    (simp_all add: sample_state_def clr_partitions_def sample_candidates_def sample_info_def)

theorem queue_never_panics_witness:
  "qq_mark_partition_erased 2 sample_queue \<noteq> None \<and> qq_insert sort_entries sample_state sample_candidates sample_queue \<noteq> None"
  using queue_never_panics [OF sample_queue_reach sorts_entries_sort, of 7 2 sample_state "()" sample_context "[]"
      sample_candidates]
  by (simp add: sample_state_def clr_partitions_def sample_candidates_def sample_info_def)

text \<open>C3: the accounting of the queue. For every query in a reachable state, the lookups that completed and
  the ones in flight are the scheduled ones; those and the pending partitions, active or parked, are the
  candidates; and a query is gone once all of its candidates are completed, unless it never had one.\<close>

theorem queue_accounting:
  assumes "qq_reach srt (q, fl)" and "sorts_entries srt" and "map_of (qq_queries q) qid = Some s"
  shows "unat (completed_partitions s) + count fl qid = unat (scheduled_partitions s)
    \<and> pending qid (qq_partitions q @ qq_inactive q) + unat (scheduled_partitions s) = unat (candidate_partitions s)
    \<and> (completed_partitions s < candidate_partitions s \<or> candidate_partitions s = 0)"
  using reach_run_inv [OF assms(1,2)] assms(3) unfolding run_inv_def qq_inv_def by auto

theorem queue_accounting_witness: "pending 7 (qq_partitions sample_queue) = 2"
  using queue_accounting [OF sample_queue_reach sorts_entries_sort, of 7 sample_state]
  by (simp add: sample_queue_def sample_state_def)

text \<open>C4: the work on the queue ends. From every reachable state, every run of handing out entries and completing
  lookups in flight has a bounded number of steps; a run that cannot be continued has no lookup in flight, and the
  queries that are left then have not requested all of their candidates, or have none. There is such a run.\<close>

theorem queue_drains:
  assumes "qq_reach srt (q, fl)" and "sorts_entries srt"
  shows "(\<forall>n y. (qq_work ^^ n) (q, fl) y \<longrightarrow> n \<le> 2 * unscheduled q + size fl)
    \<and> (\<forall>q' fl'. qq_work\<^sup>*\<^sup>* (q, fl) (q', fl') \<and> (\<nexists>y. qq_work (q', fl') y) \<longrightarrow> fl' = {#} \<and>
      (\<forall>qid s. map_of (qq_queries q') qid = Some s \<longrightarrow> requested_partitions s < candidate_partitions s \<or> candidate_partitions s = 0))
    \<and> (\<exists>q'. qq_work\<^sup>*\<^sup>* (q, fl) (q', {#}) \<and>
      (\<forall>qid s. map_of (qq_queries q') qid = Some s \<longrightarrow> requested_partitions s < candidate_partitions s \<or> candidate_partitions s = 0))"
proof (intro conjI reach_drains [OF assms])
  note inv = reach_run_inv [OF assms]
  show "\<forall>n y. (qq_work ^^ n) (q, fl) y \<longrightarrow> n \<le> 2 * unscheduled q + size fl"
  proof (intro allI impI)
    show "n \<le> 2 * unscheduled q + size fl" if "(qq_work ^^ n) (q, fl) y" for n y
      using work_bounded [OF that inv] by simp
  qed
  have "fl' = {#} \<and> (\<forall>qid s. map_of (qq_queries q') qid = Some s \<longrightarrow>
      requested_partitions s < candidate_partitions s \<or> candidate_partitions s = 0)"
    if run: "qq_work\<^sup>*\<^sup>* (q, fl) (q', fl')" and stuck: "\<nexists>y. qq_work (q', fl') y" for q' fl'
  proof -
    obtain n where "(qq_work ^^ n) (q, fl) (q', fl')" using rtranclp_imp_relpowp [OF run] by blast
    from work_bounded [OF this inv] have "run_inv (q', fl')" by blast
    from work_stuck [OF this stuck] show ?thesis .
  qed
  then show "\<forall>q' fl'. qq_work\<^sup>*\<^sup>* (q, fl) (q', fl') \<and> (\<nexists>y. qq_work (q', fl') y) \<longrightarrow> fl' = {#} \<and>
      (\<forall>qid s. map_of (qq_queries q') qid = Some s \<longrightarrow> requested_partitions s < candidate_partitions s \<or> candidate_partitions s = 0)"
    by blast
qed

theorem queue_drains_witness: "\<nexists>y. (qq_work ^^ 5) (sample_queue, {#}) y"
proof
  assume "\<exists>y. (qq_work ^^ 5) (sample_queue, {#}) y"
  then have "5 \<le> 2 * unscheduled sample_queue + size ({#} :: uuid multiset)"
    using queue_drains [OF sample_queue_reach sorts_entries_sort, THEN conjunct1] by blast
  then show False by (simp add: unscheduled_def sample_queue_def sample_state_def)
qed

section \<open>From the catalog to the queue\<close>

text \<open>C5: a lookup in a catalog with at least one schema yields a result that is not empty in the sense of
  \<open>empty\<close>, even if it has no candidate. The queue therefore accepts a query with 0 candidates, contrary to
  its check, and no amount of work ever removes the query.\<close>

theorem empty_lookup_never_completes:
  assumes "cat_lookup env si st e = Some (Inr r)" and "cat_synopses st \<noteq> []" and "clr_size r = 0"
    and "qq_reach srt (q, fl)" and "sorts_entries srt"
    and "qs_contexts s = (t, c) # cs" and "candidate_partitions s = 0" and "scheduled_partitions s = 0" and "completed_partitions s = 0"
    and "map_of (qq_queries q) (qc_id c) = None" and "qc_id c \<notin># fl"
  shows "\<exists>q'. qq_insert srt s r q = Some (None, q') \<and>
    (\<forall>y. qq_work\<^sup>*\<^sup>* (q', fl) y \<longrightarrow> map_of (qq_queries (fst y)) (qc_id c) = Some s)"
proof -
  have "r \<noteq> []" using cat_lookup_schemas [OF assms(1)] assms(2) by auto
  moreover have parts: "clr_partitions r = []" using assms(3) by (simp add: clr_size_eq)
  moreover have inv: "qq_inv q" using reach_run_inv [OF assms(4,5)] by (simp add: run_inv_def)
  ultimately obtain q' where q': "qq_insert srt s r q = Some (None, q')" "qq_queries q' = (qc_id c, s) # qq_queries q"
    using qq_insert_spec [OF inv assms(5,6,10), of r] assms(3,7,8) by auto
  have "qq_reach srt (q', fl)"
    by (rule qq_reach.reach_step [OF assms(4) step_insert [OF assms(6,11,8,9) _ q'(1)]]) (simp add: parts)
  then have "run_inv (q', fl)" by (rule reach_run_inv [OF _ assms(5)])
  then show ?thesis using q' empty_query_stays [of "(q', fl)" _ "qc_id c" s] assms(7) by auto
qed

definition sample_empty_state :: "(ty, expression, unit) query_state" where
  "sample_empty_state = \<lparr>qs_contexts = [(sample_schema, \<lparr>qc_id = 7, qc_expr = sample_query 7, qc_priority = 100\<rparr>)], qs_client = (),
    candidate_partitions = 0, requested_partitions = 0, scheduled_partitions = 0, completed_partitions = 0\<rparr>"

lemma sample_lookup_empty:
  "cat_lookup sample_env sort_infos sample_catalog (sample_query 7)
    = Some (Inr [(sample_schema, \<lparr>ci_exp = sample_query 7, ci_infos = []\<rparr>)])"
proof -
  have pruned: "prune (sample_query 7) u = Some (sample_query 7)" for u
    by (simp add: prune_def prune_loop.simps sample_query_def predicate_eq_def operand_eq_def data_eq.simps leaf_eq_def)
  have "resolve_taxonomies [] (sample_query 7) sample_schema = Some (sample_query 7)"
    by (simp add: resolve_taxonomies_def sample_query_def resolve_concept_in_def resolve_concept_predicate_def)
  moreover have "lookup_infos sample_env sample_schema [(1, sample_partition)] (sample_query 7) = Some []"
    using sample_compatible [of 7]
    by (simp add: sample_query_def lookup_predicate_def search_def match_field_def match_name_def suffix_matches_def
        is_standalone_type_def keeps_partition_def may_match_def mm_lookup_def mm_do_lookup_def mm_lookup_impl_def
        int64_kind_def k_less_def k_eq_def sample_env_def)
  ultimately show ?thesis
    by (simp add: cat_lookup_def normalize_and_validate_def lookup_schema_def lookup_impl_def sample_catalog_eq pruned
        sort_infos_def)
qed

theorem empty_lookup_never_completes_witness:
  "\<exists>q'. qq_insert sort_entries sample_empty_state [(sample_schema, \<lparr>ci_exp = sample_query 7, ci_infos = []\<rparr>)] qq_new = Some (None, q')
    \<and> (\<forall>y. qq_work\<^sup>*\<^sup>* (q', {#}) y \<longrightarrow> map_of (qq_queries (fst y)) 7 = Some sample_empty_state)"
  using empty_lookup_never_completes [OF sample_lookup_empty _ _ qq_reach.reach_new sorts_entries_sort, of sample_empty_state]
  by (simp add: sample_empty_state_def sample_catalog_eq clr_size_def qq_new_def)

section \<open>Synopses\<close>



lemma sample_leaves: "record_leaves [(''a'', Int64_type)] = [([0], ''a'', Int64_type)]"
  by (simp add: record_leaves_list as_record_def)





text \<open>C17: memberships are the exception. For every column of 64-bit integers the lookup of \<open>in\<close> with a list answers
  whether the list holds the least or the greatest value of the column. It rules out every column with a value that is in
  the list, and hence satisfies the predicate, if these two are not: a false negative.\<close>

theorem membership_false_negative:
  assumes "xs \<noteq> []" and "list_all (\<lambda>x. - (2 ^ 63) \<le> x \<and> x < 2 ^ 63) xs"
  shows "\<exists>s s'. make_synopsis env Int64_type p = Some s \<and> add_column env (map Int64 xs) (Some s) = Some (Some s')
    \<and> syn_lookup env s' Op_in (List_data (map Int64 ys)) = Some (Some (Min (set xs) \<in> set ys \<or> Max (set xs) \<in> set ys))
    \<and> (evaluate rx (Int64 x) Op_in (List_data (map Int64 ys)) \<longleftrightarrow> x \<in> set ys)"
proof -
  have "Min (set xs) \<in> set xs" "Max (set xs) \<in> set xs" using assms(1) by simp_all
  then have "Min (set xs) \<le> 2 ^ 63 - 1" "- (2 ^ 63) \<le> Max (set xs)" using assms(2) by (auto simp: list_all_iff)
  then have "Min (insert (2 ^ 63 - 1) (set xs)) = Min (set xs)" "Max (insert (- (2 ^ 63)) (set xs)) = Max (set xs)"
    using assms(1) by (simp_all add: Min_insert Max_insert)
  then have "add_column env (map Int64 xs) (Some (Int64_synopsis int64_synopsis))
      = Some (Some (Int64_synopsis \<lparr>mm_min = Min (set xs), mm_max = Max (set xs)\<rparr>))"
    by (simp only: add_column_int64 int64_synopsis_def min_max.simps)
  moreover have "make_synopsis env Int64_type p = Some (Int64_synopsis int64_synopsis)"
    by (simp add: make_synopsis_def factory_make_def)
  ultimately show ?thesis by (simp add: membership_int64 eval_in_int64)
qed

theorem membership_false_negative_witness:
  "\<exists>s s'. make_synopsis sample_synopses Int64_type 0 = Some s
    \<and> add_column sample_synopses [Int64 1, Int64 3, Int64 2] (Some s) = Some (Some s')
    \<and> syn_lookup sample_synopses s' Op_in (List_data [Int64 2]) = Some (Some False)
    \<and> evaluate sample_engine (Int64 2) Op_in (List_data [Int64 2])"
  using membership_false_negative [of "[1, 3, 2]" sample_synopses 0 "[2]" sample_engine 2] by simp

text \<open>C18: a Bloom filter has no false negatives. Adding an element never indexes out of bounds, reports whether
  the element was new, and keeps every element that was found before, for any hash function, both hashers and
  both ways of partitioning the cells.\<close>

theorem bloom_filter_no_false_negatives:
  assumes "bf_ok bf"
  shows "\<exists>bf'. bf_add hash x bf = Some (bf_lookup hash x bf = Some False, bf') \<and> bf_ok bf'
    \<and> bf_lookup hash x bf' = Some True
    \<and> (\<forall>y. bf_lookup hash y bf = Some True \<longrightarrow> bf_lookup hash y bf' = Some True)"
  by (rule bf_add_spec [OF assms])

theorem bloom_filter_no_false_negatives_witness:
  "\<exists>unique bf'. bf_add (\<lambda>seed s. seed + of_nat (length s)) ''abc'' (bloom_filter_new True 128 (Double_hasher 2 0 1))
      = Some (unique, bf') \<and> bf_lookup (\<lambda>seed s. seed + of_nat (length s)) ''abc'' bf' = Some True"
proof -
  let ?bf = "bloom_filter_new True 128 (Double_hasher 2 0 1)" and ?h = "\<lambda>seed (s :: string). seed + of_nat (length s) :: 64 word"
  have ok: "bf_ok ?bf" by (rule bloom_filter_new_ok) simp_all
  obtain bf' where bf': "bf_add ?h ''abc'' ?bf = Some (bf_lookup ?h ''abc'' ?bf = Some False, bf')" "bf_lookup ?h ''abc'' bf' = Some True"
    using bloom_filter_no_false_negatives [OF ok, of ?h "''abc''"] by blast
  then show ?thesis by blast
qed

section \<open>Expressions\<close>

text \<open>C19: pruning returns for every expression without NaN and, if the expression has no negations, only generalizes:
  an event that satisfies the query satisfies the result. The event is one in which no column but strings can be compared
  with strings.\<close>

theorem prune_terminates:
  assumes "self_equal e" and "negation_free e" and "strings_only ev"
  shows "\<exists>y. prune e u = Some y \<and> (expr_holds (event_holds env ev) e \<longrightarrow> expr_holds (event_holds env ev) y)"
  using prune_returns [OF assms(1)] prune_holds [OF strings_only_generalizes(1) [OF assms(3)] _ assms(2)] by blast

definition sample_string_event :: event where
  "sample_string_event = \<lparr>ev_values = {(\<lparr>qf_schema_name = ''s'', qf_field_name = ''a'', qf_type = String_type\<rparr>, Str ''x'')},
    ev_schema = sample_schema, ev_import_time = 7\<rparr>"

theorem prune_terminates_witness:
  "expr_holds (event_holds sample_env sample_string_event)
    (Predicate \<lparr>pred_lhs = Type_extractor String_type, pred_op = Equal, pred_rhs = Data (Str ''x'')\<rparr>)"
proof -
  have "strings_only sample_string_event"
    by (simp add: strings_only_def sample_string_event_def congruent.simps)
  moreover have "self_equal enum_expr" "negation_free enum_expr"
    by (simp_all add: enum_expr_def predicate_eq_def operand_eq_def data_eq.simps leaf_eq_def)
  moreover have "expr_holds (event_holds sample_env sample_string_event) enum_expr"
    by (simp add: enum_expr_def event_holds_def sample_string_event_def names_field_def suffix_at_dot_def is_standalone_type_def
        compatible.simps congruent_data.simps has_type_def numeric_pair_def eval_string_and_pattern_def data_eq.simps leaf_eq_def)
  ultimately show ?thesis
    using prune_terminates [of enum_expr sample_string_event "\<lambda>_. False" sample_env] unfolding enum_pruned by blast
qed

text \<open>C20: a query with a NaN makes the pruner loop for ever: it repeats until an iteration leaves the
  expression equal to the one before, and an expression with a NaN is not equal to itself.\<close>

theorem prune_diverges_for_nan:
  "prune (Predicate \<lparr>pred_lhs = Field_extractor f, pred_op = Less, pred_rhs = Data (Double 0x7FF8000000000000)\<rparr>) u = None"
proof -
  let ?e = "Predicate \<lparr>pred_lhs = Field_extractor f, pred_op = Less, pred_rhs = Data (Double 0x7FF8000000000000)\<rparr>"
  have "\<not> double_eq 0x7FF8000000000000 0x7FF8000000000000" by (simp add: double_eq_def double_key_def) code_simp
  then have "\<not> expr_eq ?e ?e" by (simp add: predicate_eq_def operand_eq_def data_eq.simps leaf_eq_def)
  then have "prune_loop u ?e ?e = None" by (intro prune_loop_diverges) simp_all
  then show ?thesis by (simp add: prune_def)
qed

text \<open>C21: normalization keeps the meaning of an expression for every event, keeps its connectives non-empty,
  and yields the normal form: no negation, no connective with a single operand, extractors on the left.\<close>

theorem normalize_correct:
  assumes "none_free e" and "expr_ok e"
  shows "(expr_holds (holds rx env) (normalize e) \<longleftrightarrow> expr_holds (holds rx env) e) \<and> expr_ok (normalize e) \<and> normal_form (normalize e)"
  using normalize_holds [OF assms(1)] normalize_ok [OF assms(2)] normalize_normal_form by simp

theorem normalize_correct_witness: "normal_form (normalize (Negation (Negation (Conjunction [sample_query 1, Negation (sample_query 2)]))))"
  by (rule normalize_correct [where rx = sample_engine and env = "\<lambda>_. Null", THEN conjunct2, THEN conjunct2])
    (simp_all add: sample_query_def)

text \<open>C22: tailoring an expression without negations and empty connectives to a schema never fails, and the result, if
  there is one, means what the expression means when every extractor stands for the columns that it names and that can be
  compared, of which a negated operator asks all and the others one; no result means that no event of the schema can
  satisfy the expression.\<close>

theorem tailor_correct:
  assumes "as_record schema = Some fs" and "negation_free e" and "expr_ok e"
  shows "\<exists>result. tailor e schema = Some result \<and>
    (case result of None \<Rightarrow> False | Some r \<Rightarrow> expr_holds h r) = expr_holds (schema_holds h (type_name schema) fs) e"
proof (cases "e = None_expr")
  case True
  then show ?thesis using assms(1) by (simp add: tailor_def)
next
  case False
  obtain r where r: "type_resolver (type_name schema) fs e = Some r" using type_resolver_returns(1) by blast
  from type_resolver_holds(1) [OF assms(2,3) r, of h] show ?thesis
    using False r assms(1) by (cases "r = None_expr") (auto simp: tailor_def resolved_holds_eq)
qed

theorem tailor_correct_witness:
  "\<exists>result. tailor (sample_query 2) sample_schema = Some result
    \<and> (case result of None \<Rightarrow> False | Some r \<Rightarrow> expr_holds (\<lambda>p. pred_lhs p = Data_extractor Int64_type 0) r)"
proof -
  have "num_leaves [(''a'', Int64_type)] = 1" by (simp add: num_leaves_leaves sample_leaves)
  moreover have "names_leaf ''a'' ''s'' (names_at [(''a'', Int64_type)] [0])"
    by (simp add: names_leaf_def suffix_matches_def as_record_def)
  ultimately have "field_holds (\<lambda>p. pred_lhs p = Data_extractor Int64_type 0) ''s'' [(''a'', Int64_type)] ''a'' Equal (Int64 2)"
    using sample_compatible [of 2]
    by (auto simp: field_holds_def columns_hold_def columns_where_def column_predicate_def sample_leaves)
  then show ?thesis
    using tailor_correct [of sample_schema "[(''a'', Int64_type)]" "sample_query 2" "\<lambda>p. pred_lhs p = Data_extractor Int64_type 0"]
    by (simp add: sample_query_def schema_holds_def)
qed

text \<open>C23: a predicate on a field becomes one predicate for every column that the name refers to and whose type
  can be compared; a negated operator asks for all of them, the others for one, and no column means false.\<close>

theorem resolve_field_correct:
  "\<exists>r. resolve_field name fs key op d = Some r \<and>
    (expr_holds h r \<longleftrightarrow>
      (let C = columns_where fs (field_leaf name fs key op d); holds_at = (\<lambda>i. h (column_predicate op d (record_leaves fs ! i) i))
       in C \<noteq> {} \<and> (if is_negated op then Ball C holds_at else Bex C holds_at)))"
proof -
  obtain ps where ps: "resolve_field name fs key op d = Some (combine_columns op ps)"
    "set ps = (\<lambda>i. column_predicate op d (record_leaves fs ! i) i) ` columns_where fs (field_leaf name fs key op d)"
    using resolve_field_spec by blast
  have "ps \<noteq> [] \<longleftrightarrow> columns_where fs (field_leaf name fs key op d) \<noteq> {}" using ps(2) by auto
  then show ?thesis using ps by (auto simp: combine_columns_holds Let_def)
qed

theorem resolve_field_correct_witness:
  "\<exists>r. resolve_field ''s'' [(''a'', Int64_type)] ''a'' Equal (Int64 1) = Some r"
  using resolve_field_correct [of "''s''" "[(''a'', Int64_type)]" "''a''" Equal "Int64 1" "\<lambda>_. True"] by blast

text \<open>The offsets that a key refers to are those of the leaves with a path whose names, from some level
  on, spell the key, or the rest of the key after a suffix of the schema name; a record is entered by its whole
  name, a leaf by a suffix of its name that starts at a dot.\<close>

theorem resolve_key_suffix_correct:
  "index \<in> set (resolve_key_suffix fs key prefix) \<longleftrightarrow>
    key \<noteq> [] \<and> (\<exists>f. (index, f) \<in> set (record_leaves fs)) \<and>
    (\<exists>b \<in> set (key # schema_keys key prefix). \<exists>i < length (names_at fs index). path_match b (drop i (names_at fs index)))"
  by (rule resolve_key_suffix_spec)

text \<open>C24: the catalog matches names differently. For a schema \<open>a\<close> with a field \<open>c\<close> inside a record \<open>b\<close>, for names without
  dots, the name \<open>a.c\<close> refers to that field when the query is tailored, but the catalog rules out every partition of the
  schema, whatever its synopsis says of the field: a false negative.\<close>

theorem nested_names_are_lost:
  assumes "dot_free a" and "dot_free b" and "dot_free c" and "a \<noteq> []" and "a \<noteq> b"
    and "as_record t = None" and "compatible t op d"
    and "ps_field_synopses ps = [(\<lparr>qf_schema_name = a, qf_field_name = b @ ''.'' @ c, qf_type = t\<rparr>, syn)]"
    and "p = \<lparr>pred_lhs = Field_extractor (a @ ''.'' @ c), pred_op = op, pred_rhs = Data d\<rparr>"
  shows "resolve_predicate a [(b, Record_type [(c, t)])] p = Some (Predicate (column_predicate op d ([0, 0], c, t) 0))
    \<and> lookup_predicate env schema [(u, ps)] p = Some []"
  by (rule nested_name_lost [OF assms])

theorem nested_names_are_lost_witness:
  "lookup_predicate sample_env sample_schema [(1, (ps_new 2)\<lparr>ps_field_synopses :=
      [(\<lparr>qf_schema_name = ''a'', qf_field_name = ''b.c'', qf_type = Int64_type\<rparr>, Some (Int64_synopsis \<lparr>mm_min = 1, mm_max = 1\<rparr>))]\<rparr>)]
    \<lparr>pred_lhs = Field_extractor ''a.c'', pred_op = Equal, pred_rhs = Data (Int64 1)\<rparr> = Some []"
  by (rule nested_names_are_lost [where a = "''a''" and b = "''b''" and c = "''c''" and t = Int64_type and op = Equal and d = "Int64 1",
        THEN conjunct2])
    (simp_all add: dot_free_def as_record_def sample_compatible ps_new_def del: compatible.simps)

text \<open>Labelling the nodes of an expression and looking a node up by its offset agree.\<close>

theorem labels_are_offsets: "(0 # js, x) \<in> set (label_nodes e) \<longleftrightarrow> expr_at e (0 # js) = Some x"
  by (rule label_nodes_at)

section \<open>Types and values\<close>

text \<open>C25: the flat index of a leaf and its offset determine each other, and both are partial in the same way.\<close>

theorem flat_index_correct: "flat_index fs index = Some i \<longleftrightarrow> resolve_flat_index fs i = Some index"
  by (rule flat_index_roundtrip)

text \<open>C26: a value without patterns checks against the type that is inferred from it if there are no records in it. A
  record with a field whose values have none does not: the loop over its fields gives up at the first value that checks.\<close>

theorem inferred_type_checks:
  assumes "infer d = Some t" and "pattern_free d"
  shows "(record_free d \<longrightarrow> type_check t d)
    \<and> (\<forall>rs. d = Record_data rs \<and> rs \<noteq> [] \<and> list_all (record_free \<circ> snd) rs \<longrightarrow> \<not> type_check t d)"
proof (intro conjI allI impI)
  show "type_check t d" if "record_free d" by (rule infer_type_check [OF assms that])
  fix rs
  assume rs: "d = Record_data rs \<and> rs \<noteq> [] \<and> list_all (record_free \<circ> snd) rs"
  then obtain fs where t: "t = Record_type fs" "infer_record rs = Some fs" using assms(1) by (auto simp: infer.simps)
  have "list_all (\<lambda>(n, v). pattern_free v \<and> record_free v) rs" using rs assms(2) by (auto simp: list_all_iff)
  from infer_record_rejected [OF t(2) _ this] show "\<not> type_check t d"
    using rs by (simp add: t(1) type_check.simps [of "Record_type fs"])
qed

theorem inferred_type_checks_witness:
  "type_check (List_type Int64_type) (List_data [Null, Int64 1, Int64 2])
    \<and> \<not> type_check (Record_type [(''a'', Int64_type)]) (Record_data [(''a'', Int64 1)])"
  using inferred_type_checks [of "List_data [Null, Int64 1, Int64 2]" "List_type Int64_type"]
    inferred_type_checks [of "Record_data [(''a'', Int64 1)]" "Record_type [(''a'', Int64_type)]"]
  by (simp add: infer.simps has_type_def)

text \<open>Congruence of types is reflexive and symmetric, and looks through names and attributes.\<close>

theorem congruent_correct:
  "congruent t t \<and> congruent t u = congruent u t \<and> congruent (make_type name t attributes) u = congruent t u"
  using congruent_refl congruent_sym congruent_transparent [of "make_type name t attributes" u] congruent_transparent [of t u]
  by auto

text \<open>C27: a subnet of the first \<open>n\<close> bits of an address contains exactly the addresses with these bits, and
  containment of subnets is inclusion of the sets of their addresses.\<close>

theorem subnets_are_prefixes:
  assumes "length x = 16" and "length y = 16" and "n \<le> 128" and "m \<le> 128"
  shows "subnet_contains_ip (subnet_make x n) y = Some (take n (ip_bits y) = take n (ip_bits x))
    \<and> subnet_contains_subnet (subnet_make x n) (subnet_make y m)
      = Some ({z. length z = 16 \<and> take m (ip_bits z) = take m (ip_bits y)} \<subseteq> {z. length z = 16 \<and> take n (ip_bits z) = take n (ip_bits x)})"
  using subnet_contains_ip_spec [OF subnet_make_ok(1) [OF assms(1)] assms(2)]
    subnet_contains_subnet_spec [OF subnet_make_ok(1) [OF assms(1)] subnet_make_ok(1) [OF assms(2)]]
    subnet_make_ok(2) [OF assms(1,3)] subnet_make_ok(2) [OF assms(2,4)] assms(2) by simp

theorem subnets_are_prefixes_witness:
  "subnet_contains_ip (subnet_make (replicate 16 0) 8) (replicate 15 0 @ [1]) = Some True"
  using subnets_are_prefixes [of "replicate 16 0" "replicate 15 0 @ [1]" 8 0] by (simp add: ip_bits_def numeral_eq_Suc)

text \<open>The set operations on sorted vectors, copying and in place, compute the intersection and the union
  of the keys and keep the vectors sorted without duplicates.\<close>

theorem sorted_sets_correct:
  assumes "flat_ok key xs" and "flat_ok key ys"
  shows "inplace_intersect key xs ys = intersect key xs ys
    \<and> flat_ok key (intersect key xs ys) \<and> key ` set (intersect key xs ys) = key ` set xs \<inter> key ` set ys
    \<and> flat_ok key (unify key xs ys) \<and> key ` set (unify key xs ys) = key ` set xs \<union> key ` set ys
    \<and> flat_ok key (inplace_unify key xs ys) \<and> key ` set (inplace_unify key xs ys) = key ` set xs \<union> key ` set ys"
  using assms by (simp add: inplace_intersect_eq intersect_ok intersect_keys unify_ok unify_keys inplace_unify_ok inplace_unify_keys)

theorem sorted_sets_correct_witness: "flat_ok (\<lambda>x. x) (unify (\<lambda>x. x) [1 :: nat, 3] [2, 3])"
  by (rule sorted_sets_correct [THEN conjunct2, THEN conjunct2, THEN conjunct2, THEN conjunct1]) (simp_all add: flat_ok_def)

end
